(* ===== verification/Prelude.thy ===== *)
theory Prelude
  imports Main "HOL-Library.Multiset"
begin

text \<open>
  What every theory of the development shares: the value of a run that a release-build
  assertion stops (base/assertion.h), the lemma collections the component proofs are
  driven by, and generic facts about sorted lists, prefixes cut by a monotone predicate
  and optional counters.
\<close>

section \<open>Runs that an assertion stops\<close>

text \<open>
  \<open>Expects\<close> and \<open>Assert\<close> are checked in release builds too and end the process. An
  operation that contains one returns a value of \<open>'a outcome\<close>. \<open>Undefined_behaviour\<close>
  marks a dereference of an empty optional or of an end iterator, \<open>Still_running\<close> a loop that
  has not ended with what its environment has given it so far.
\<close>

datatype failure = Expects_failed | Assert_failed | Undefined_behaviour | Still_running

type_synonym 'a outcome = "failure + 'a"

primrec bind_outcome :: "'a outcome \<Rightarrow> ('a \<Rightarrow> 'b outcome) \<Rightarrow> 'b outcome" where
  "bind_outcome (Inl e) f = Inl e"
| "bind_outcome (Inr x) f = f x"

definition expects :: "bool \<Rightarrow> 'a outcome \<Rightarrow> 'a outcome" where
  "expects c k = (if c then k else Inl Expects_failed)"

definition asserts :: "bool \<Rightarrow> 'a outcome \<Rightarrow> 'a outcome" where
  "asserts c k = (if c then k else Inl Assert_failed)"

lemma expects_True [simp]: "expects True k = k"
  by (simp add: expects_def)

lemma expects_Inr_iff: "expects c k = Inr x \<longleftrightarrow> c \<and> k = Inr x"
  by (simp add: expects_def)

lemma asserts_True [simp]: "asserts True k = k"
  by (simp add: asserts_def)

lemma bind_outcome_Inr_iff:
  "bind_outcome m f = Inr y \<longleftrightarrow> (\<exists>x. m = Inr x \<and> f x = Inr y)"
  by (cases m) auto

lemma bind_outcome_cong [fundef_cong]:
  "m = m' \<Longrightarrow> (\<And>x. m' = Inr x \<Longrightarrow> f x = f' x) \<Longrightarrow> bind_outcome m f = bind_outcome m' f'"
  by (cases m') auto

text \<open>A run that no assertion stops and whose result satisfies a condition.\<close>

definition ensures :: "'a outcome \<Rightarrow> ('a \<Rightarrow> bool) \<Rightarrow> bool" where
  "ensures m Q \<longleftrightarrow> (case m of Inl e \<Rightarrow> False | Inr x \<Rightarrow> Q x)"

lemma ensures_Inr [simp]: "ensures (Inr x) Q \<longleftrightarrow> Q x"
  by (simp add: ensures_def)

lemma ensures_bind [simp]: "ensures (bind_outcome m f) Q \<longleftrightarrow> ensures m (\<lambda>x. ensures (f x) Q)"
  by (cases m) (simp_all add: ensures_def)

lemma ensures_asserts [simp]: "ensures (asserts c k) Q \<longleftrightarrow> c \<and> ensures k Q"
  by (simp add: ensures_def asserts_def)

lemma ensures_expects [simp]: "ensures (expects c k) Q \<longleftrightarrow> c \<and> ensures k Q"
  by (simp add: ensures_def expects_def)

lemma ensures_mono: "ensures m P \<Longrightarrow> (\<And>x. m = Inr x \<Longrightarrow> P x \<Longrightarrow> Q x) \<Longrightarrow> ensures m Q"
  by (cases m) (simp_all add: ensures_def)

lemma ensuresE: "ensures m Q \<Longrightarrow> (\<And>x. m = Inr x \<Longrightarrow> Q x \<Longrightarrow> thesis) \<Longrightarrow> thesis"
  by (cases m) (simp_all add: ensures_def)

section \<open>Lemma collections\<close>

named_theorems position_simps \<open>positions found by the standard algorithms, as prefixes\<close>
named_theorems sorted_facts \<open>what keeps a list sorted\<close>
named_theorems frame_simps \<open>fields and entries an operation leaves alone\<close>

section \<open>Prefixes cut by a monotone predicate\<close>

lemma takeWhile_all_iff: "takeWhile P xs = xs \<longleftrightarrow> (\<forall>x\<in>set xs. P x)"
  by (induction xs) auto

lemma set_takeWhileD_both: "x \<in> set (takeWhile P xs) \<Longrightarrow> P x \<and> x \<in> set xs"
  by (induction xs) (auto split: if_splits)

lemma set_dropWhile_sorted:
  assumes "sorted_wrt R xs" and "\<And>x y. R x y \<Longrightarrow> P y \<Longrightarrow> P x"
  shows "x \<in> set (dropWhile P xs) \<Longrightarrow> \<not> P x"
  using assms(1)
proof (induction xs)
  case (Cons a xs)
  then show ?case
    by (cases "P a") (use assms(2) in auto)
qed simp

lemma takeWhile_filter_sorted:
  assumes "sorted_wrt R xs" and "\<And>x y. R x y \<Longrightarrow> P y \<Longrightarrow> P x"
  shows "takeWhile P xs = filter P xs"
  using assms(1)
proof (induction xs)
  case (Cons a xs)
  show ?case
  proof (cases "P a")
    case True
    then show ?thesis using Cons by simp
  next
    case False
    then have "\<forall>x\<in>set xs. \<not> P x" using Cons.prems assms(2) by auto
    then have "filter P xs = []" by simp
    with False show ?thesis by simp
  qed
qed simp

lemma dropWhile_filter_sorted:
  assumes "sorted_wrt R xs" and "\<And>x y. R x y \<Longrightarrow> P y \<Longrightarrow> P x"
  shows "dropWhile P xs = filter (\<lambda>x. \<not> P x) xs"
  using assms(1)
proof (induction xs)
  case (Cons a xs)
  show ?case
  proof (cases "P a")
    case True
    then show ?thesis using Cons by simp
  next
    case False
    then have "\<forall>x\<in>set xs. \<not> P x" using Cons.prems assms(2) by auto
    then have "filter (\<lambda>x. \<not> P x) xs = xs" by simp
    with False show ?thesis by simp
  qed
qed simp

section \<open>Sorted lists\<close>

abbreviation strictly_sorted :: "'a::linorder list \<Rightarrow> bool" where
  "strictly_sorted xs \<equiv> sorted_wrt (<) xs"

lemma strictly_sorted_unique:
  "strictly_sorted xs \<Longrightarrow> strictly_sorted ys \<Longrightarrow> set xs = set ys \<Longrightarrow> xs = ys"
  by (simp add: strict_sorted_equal)

lemma sorted_wrt_take_drop [sorted_facts]:
  "sorted_wrt R xs \<Longrightarrow> sorted_wrt R (take n xs) \<and> sorted_wrt R (drop n xs)"
  by (metis append_take_drop_id sorted_wrt_append)

lemma sorted_wrt_last:
  "sorted_wrt R xs \<Longrightarrow> x \<in> set xs \<Longrightarrow> x = last xs \<or> R x (last xs)"
  by (induction xs) auto

lemma sorted_wrt_hd:
  "sorted_wrt R xs \<Longrightarrow> x \<in> set xs \<Longrightarrow> x = hd xs \<or> R (hd xs) x"
  by (cases xs) auto

lemma split_at_nth: "i < length xs \<Longrightarrow> \<exists>as bs. xs = as @ xs ! i # bs \<and> length as = i"
  by (metis id_take_nth_drop length_take min.absorb4)

lemma split_at: "i < length xs \<Longrightarrow> \<exists>as x bs. xs = as @ x # bs \<and> length as = i"
  using split_at_nth by blast

lemma butlast_last_append [simp]: "as \<noteq> [] \<Longrightarrow> butlast as @ last as # bs = as @ bs"
  by (metis append_butlast_last_id append.assoc append_Cons append_Nil)

lemma last_in_bounds:
  "strictly_sorted xs \<Longrightarrow> x \<in> set xs \<Longrightarrow> x \<le> last xs"
  by (induction xs) (auto dest: less_imp_le split: if_splits)

lemma hd_in_bounds:
  "strictly_sorted xs \<Longrightarrow> x \<in> set xs \<Longrightarrow> hd xs \<le> x"
  by (cases xs) auto

text \<open>The two partition points of a list sorted by a key.\<close>

lemma dropWhile_key_less:
  assumes "sorted_wrt (\<lambda>a b. (f a :: 'k::linorder) < f b) xs" "x \<in> set (dropWhile (\<lambda>s. f s < v) xs)"
  shows "v \<le> f x"
  using set_dropWhile_sorted [OF assms(1) _ assms(2)] by (metis less_trans not_less)

lemma dropWhile_key_le:
  assumes "sorted_wrt (\<lambda>a b. (f a :: 'k::linorder) < f b) xs" "x \<in> set (dropWhile (\<lambda>s. \<not> v < f s) xs)"
  shows "v < f x"
  using set_dropWhile_sorted [OF assms(1) _ assms(2)] by (metis less_trans)

text \<open>Filtering a segment whose elements all agree on the predicate.\<close>

lemma filter_segment_all:
  "\<forall>x\<in>set xs. P x \<Longrightarrow> filter P (drop n xs) = drop n xs \<and> filter P (take n xs) = take n xs"
  by (auto simp: filter_id_conv dest: in_set_dropD in_set_takeD)

lemma filter_segment_none:
  "\<forall>x\<in>set xs. \<not> P x \<Longrightarrow> filter P (drop n xs) = [] \<and> filter P (take n xs) = []"
  by (auto simp: filter_empty_conv dest: in_set_dropD in_set_takeD)

section \<open>Optional counters\<close>

definition add_option :: "int option \<Rightarrow> int option \<Rightarrow> int option" where
  "add_option a b = (case a of None \<Rightarrow> None | Some x \<Rightarrow> map_option (\<lambda>y. x + y) b)"

lemma add_option_Some_iff:
  "add_option a b = Some n \<longleftrightarrow> (\<exists>x y. a = Some x \<and> b = Some y \<and> n = x + y)"
  by (auto simp: add_option_def split: option.splits)

end
