(* ===== verification/Std_Containers.thy ===== *)
theory Std_Containers
  imports Prelude
begin

text \<open>
  The parts of the C++ standard library that base/flat_set.h, base/flat_map.h and the
  storage lists call, over lists that stand for a \<open>std::deque\<close> or \<open>std::vector\<close>. An
  iterator is the index it points at, the end iterator is the length. The \<open>Compare\<close>
  argument of the containers is a parameter; what the standard asks of it is the locale
  \<open>strict_weak_order\<close>, interpreted for \<open>std::less\<close> on an ordered type and for the
  comparison of records by one of their fields.
\<close>

section \<open>Searching, sorting and erasing\<close>

text \<open>\<open>std::lower_bound\<close> and its kin return the partition point of their predicate.\<close>

definition partition_index :: "('a \<Rightarrow> bool) \<Rightarrow> 'a list \<Rightarrow> nat" where
  "partition_index p xs = length (takeWhile p xs)"

definition std_lower_bound :: "('a \<Rightarrow> 'a \<Rightarrow> bool) \<Rightarrow> 'a \<Rightarrow> 'a list \<Rightarrow> nat" where
  "std_lower_bound lt v xs = partition_index (\<lambda>x. lt x v) xs"

definition std_upper_bound :: "('a \<Rightarrow> 'a \<Rightarrow> bool) \<Rightarrow> 'a \<Rightarrow> 'a list \<Rightarrow> nat" where
  "std_upper_bound lt v xs = partition_index (\<lambda>x. \<not> lt v x) xs"

fun std_insert_sorted :: "('a \<Rightarrow> 'a \<Rightarrow> bool) \<Rightarrow> 'a \<Rightarrow> 'a list \<Rightarrow> 'a list" where
  "std_insert_sorted lt v [] = [v]"
| "std_insert_sorted lt v (x # xs) =
     (if lt x v then x # std_insert_sorted lt v xs else v # x # xs)"

text \<open>\<open>std::sort\<close> leaves the order of equivalent elements open; the definition takes one of the
  orders it may give (the stable one). Nothing that is proved depends on that order: the only
  caller that could see it is \<open>map_from_range\<close> with two pairs of the same key.\<close>

definition std_sort :: "('a \<Rightarrow> 'a \<Rightarrow> bool) \<Rightarrow> 'a list \<Rightarrow> 'a list" where
  "std_sort lt xs = foldr (std_insert_sorted lt) xs []"

text \<open>\<open>std::unique\<close> keeps the first of each run of elements equal to the last one kept.\<close>

fun std_unique :: "('a \<Rightarrow> 'a \<Rightarrow> bool) \<Rightarrow> 'a list \<Rightarrow> 'a list" where
  "std_unique eq (x # y # zs) =
     (if eq x y then std_unique eq (x # zs) else x # std_unique eq (y # zs))"
| "std_unique eq xs = xs"

definition insert_at :: "nat \<Rightarrow> 'a \<Rightarrow> 'a list \<Rightarrow> 'a list" where
  "insert_at i v xs = take i xs @ v # drop i xs"

definition erase_range :: "nat \<Rightarrow> nat \<Rightarrow> 'a list \<Rightarrow> 'a list" where
  "erase_range i j xs = take i xs @ drop j xs"

abbreviation erase_at :: "nat \<Rightarrow> 'a list \<Rightarrow> 'a list" where
  "erase_at i xs \<equiv> erase_range i (Suc i) xs"

definition swap_at :: "nat \<Rightarrow> nat \<Rightarrow> 'a list \<Rightarrow> 'a list" where
  "swap_at i j xs = xs[i := xs ! j, j := xs ! i]"

lemma partition_index_le [simp]: "partition_index p xs \<le> length xs"
  by (simp add: partition_index_def length_takeWhile_le)

lemma take_partition_index [position_simps]:
  "take (partition_index p xs) xs = takeWhile p xs"
  by (simp add: partition_index_def takeWhile_eq_take [symmetric])

lemma drop_partition_index [position_simps]:
  "drop (partition_index p xs) xs = dropWhile p xs"
  by (simp add: partition_index_def dropWhile_eq_drop [symmetric])

lemma partition_index_less_iff:
  "partition_index p xs < length xs \<longleftrightarrow> (\<exists>x\<in>set xs. \<not> p x)"
proof -
  have "partition_index p xs = length xs \<longleftrightarrow> takeWhile p xs = xs"
    by (metis order_refl partition_index_def take_all take_partition_index)
  then show ?thesis
    by (metis nat_less_le partition_index_le takeWhile_all_iff)
qed

lemma nth_partition_index:
  "partition_index p xs < length xs \<Longrightarrow> \<not> p (xs ! partition_index p xs)"
  by (simp add: nth_length_takeWhile partition_index_def)

lemma nth_before_partition_index: "i < partition_index p xs \<Longrightarrow> p (xs ! i)"
  by (metis nth_mem partition_index_def set_takeWhileD takeWhile_nth)

lemma partition_index_unfold_dropWhile:
  "partition_index p xs < length xs \<Longrightarrow>
   dropWhile p xs = xs ! partition_index p xs # drop (Suc (partition_index p xs)) xs"
  by (simp add: Cons_nth_drop_Suc drop_partition_index [symmetric])

text \<open>The same operations on a list that is already cut at the position.\<close>

lemma erase_at_append [position_simps]: "erase_at (length as) (as @ x # bs) = as @ bs"
  by (simp add: erase_range_def)

lemma insert_at_append [position_simps]: "insert_at (length as) v (as @ bs) = as @ v # bs"
  by (simp add: insert_at_def)

lemma swap_at_append [position_simps]:
  "swap_at (Suc (length as)) (length as) (as @ x # y # bs) = as @ y # x # bs"
  by (simp add: swap_at_def nth_append list_update_append)

lemma swap_at_append_back [position_simps]:
  "swap_at (length as) (Suc (length as)) (as @ x # y # bs) = as @ y # x # bs"
  by (simp add: swap_at_def nth_append list_update_append)

lemma set_insert_at [simp]: "set (insert_at i v xs) = insert v (set xs)"
  by (metis Un_insert_right append_take_drop_id insert_at_def list.simps(15) set_append)

lemma length_insert_at [simp]: "length (insert_at i v xs) = Suc (length xs)"
  by (simp add: insert_at_def)

lemma mset_insert_at [simp]: "mset (insert_at i v xs) = add_mset v (mset xs)"
  by (metis append_take_drop_id insert_at_def mset.simps(2) mset_append union_mset_add_mset_right)

lemma sorted_erase_range [sorted_facts]:
  assumes "sorted_wrt R xs" "i \<le> j"
  shows "sorted_wrt R (erase_range i j xs)"
proof -
  have "sorted_wrt R (take i xs @ drop i xs)" using assms by simp
  moreover have "set (drop j xs) \<subseteq> set (drop i xs)"
    using assms(2) by (rule set_drop_subset_set_drop)
  ultimately show ?thesis
    unfolding erase_range_def sorted_wrt_append by (meson sorted_wrt_take_drop assms(1) subsetD)
qed

lemma mset_std_insert_sorted [simp]:
  "mset (std_insert_sorted lt v xs) = add_mset v (mset xs)"
  by (induction xs) auto

lemma mset_std_sort [simp]: "mset (std_sort lt xs) = mset xs"
  by (induction xs) (auto simp: std_sort_def)

lemma set_std_sort [simp]: "set (std_sort lt xs) = set xs"
  by (metis mset_std_sort set_mset_mset)

section \<open>What a Compare must satisfy\<close>

locale strict_weak_order =
  fixes lt :: "'a \<Rightarrow> 'a \<Rightarrow> bool"
  assumes irrefl: "\<not> lt x x"
    and trans: "lt x y \<Longrightarrow> lt y z \<Longrightarrow> lt x z"
    and incomparable_trans: "\<not> lt x y \<Longrightarrow> \<not> lt y z \<Longrightarrow> \<not> lt x z"
begin

lemma asym: "lt x y \<Longrightarrow> \<not> lt y x"
  using irrefl trans by blast

lemma less_if_not_less: "lt x y \<Longrightarrow> \<not> lt z y \<Longrightarrow> lt x z"
  using incomparable_trans by blast

lemma less_if_not_less2: "\<not> lt y x \<Longrightarrow> lt y z \<Longrightarrow> lt x z"
  using incomparable_trans asym by blast

lemma weakly_sorted_if_sorted: "sorted_wrt lt xs \<Longrightarrow> sorted_wrt (\<lambda>a b. \<not> lt b a) xs"
  by (rule sorted_wrt_mono_rel [of xs lt]) (use asym in auto)

lemma sorted_std_insert_sorted:
  "sorted_wrt (\<lambda>a b. \<not> lt b a) xs \<Longrightarrow> sorted_wrt (\<lambda>a b. \<not> lt b a) (std_insert_sorted lt v xs)"
proof (induction xs)
  case (Cons x xs)
  have set_ins: "set (std_insert_sorted lt v xs) = insert v (set xs)"
    by (metis mset_std_insert_sorted set_mset_add_mset_insert set_mset_mset)
  show ?case
  proof (cases "lt x v")
    case True
    then show ?thesis using Cons asym by (auto simp: set_ins)
  next
    case False
    then show ?thesis using Cons.prems incomparable_trans by fastforce
  qed
qed simp

lemma sorted_std_sort: "sorted_wrt (\<lambda>a b. \<not> lt b a) (std_sort lt xs)"
  by (induction xs) (auto simp: std_sort_def sorted_std_insert_sorted)

lemma set_std_unique_subset: "set (std_unique (\<lambda>a b. \<not> lt a b) xs) \<subseteq> set xs"
  by (induction "\<lambda>a b. \<not> lt a b" xs rule: std_unique.induct) auto

lemma hd_std_unique: "xs \<noteq> [] \<Longrightarrow> hd (std_unique eq xs) = hd xs \<and> std_unique eq xs \<noteq> []"
  by (induction eq xs rule: std_unique.induct) auto

lemma sorted_std_unique:
  "sorted_wrt (\<lambda>a b. \<not> lt b a) xs \<Longrightarrow> sorted_wrt lt (std_unique (\<lambda>a b. \<not> lt a b) xs)"
proof (induction "\<lambda>a b. \<not> lt a b" xs rule: std_unique.induct)
  case (1 x y zs)
  show ?case
  proof (cases "lt x y")
    case True
    have "\<forall>z\<in>set (std_unique (\<lambda>a b. \<not> lt a b) (y # zs)). lt x z"
      using True 1(3) set_std_unique_subset [of "y # zs"]
      by (auto intro: less_if_not_less)
    then show ?thesis using 1 True by simp
  next
    case False
    then show ?thesis using 1 by simp
  qed
qed simp_all

lemma std_unique_covers:
  "sorted_wrt (\<lambda>a b. \<not> lt b a) xs \<Longrightarrow> x \<in> set xs \<Longrightarrow>
   \<exists>y\<in>set (std_unique (\<lambda>a b. \<not> lt a b) xs). \<not> lt x y \<and> \<not> lt y x"
proof (induction "\<lambda>a b. \<not> lt a b" xs arbitrary: x rule: std_unique.induct)
  case (1 a b zs)
  show ?case
  proof (cases "lt a b")
    case True
    then show ?thesis using 1 irrefl by auto
  next
    case False
    show ?thesis
    proof (cases "x = b")
      case True
      obtain y where y: "y \<in> set (std_unique (\<lambda>a b. \<not> lt a b) (a # zs))"
        "\<not> lt a y" "\<not> lt y a" using False 1 by force
      with True False 1(3) have "\<not> lt x y \<and> \<not> lt y x"
        by (meson incomparable_trans list.set_intros(1) sorted_wrt.simps(2))
      with y False show ?thesis by auto
    next
      case neq: False
      then have "x \<in> set (a # zs)" using 1(4) by auto
      then show ?thesis using False 1 by simp
    qed
  qed
qed (use irrefl in auto)

text \<open>In a sorted range the partition points are where the values are.\<close>

lemma lower_bound_suffix:
  assumes "sorted_wrt lt xs" "x \<in> set (dropWhile (\<lambda>x. lt x v) xs)"
  shows "\<not> lt x v"
  by (rule set_dropWhile_sorted [OF assms(1)]) (use assms(2) trans in auto)

lemma sorted_insert_at_lower_bound:
  assumes "sorted_wrt lt xs" and "\<forall>x\<in>set (dropWhile (\<lambda>x. lt x v) xs). lt v x"
  shows "sorted_wrt lt (insert_at (std_lower_bound lt v xs) v xs)"
proof -
  have "sorted_wrt lt (takeWhile (\<lambda>x. lt x v) xs @ dropWhile (\<lambda>x. lt x v) xs)"
    using assms(1) by simp
  then show ?thesis
    using assms(2) set_takeWhileD
    by (fastforce simp: insert_at_def std_lower_bound_def position_simps sorted_wrt_append
        simp del: takeWhile_dropWhile_id)
qed

end

interpretation linorder_less: strict_weak_order "(<) :: 'a::linorder \<Rightarrow> 'a \<Rightarrow> bool"
  by unfold_locales auto

interpretation key_less: strict_weak_order "\<lambda>a b. (k a :: 'k::linorder) < k b" for k
  by unfold_locales auto

end
