(* ===== verification/Flat_Set.thy ===== *)
theory Flat_Set
  imports Std_Containers
begin

text \<open>
  base/flat_set.h: \<open>flat_multi_set\<close> and \<open>flat_set\<close>, sorted deques with the operations of a
  (multi)set. A container is the list of its elements, an iterator is an index, and
  \<open>Compare\<close> is the argument \<open>lt\<close>. The overloads that differ only in constness or in moving
  their argument are one definition. The lemmas show that every operation keeps the list
  sorted and acts as the set operation it is named after, except \<open>modify\<close>, which puts an
  element back in order only when it has to move by at most one place.
\<close>

section \<open>flat_multi_set\<close>

definition multi_from_range :: "('a \<Rightarrow> 'a \<Rightarrow> bool) \<Rightarrow> 'a list \<Rightarrow> 'a list" where
  "multi_from_range lt rs = std_sort lt rs"

definition multi_insert :: "('a \<Rightarrow> 'a \<Rightarrow> bool) \<Rightarrow> 'a \<Rightarrow> 'a list \<Rightarrow> 'a list \<times> nat" where
  "multi_insert lt v xs =
     (if xs = [] \<or> lt v (hd xs) then (v # xs, 0)
      else if \<not> lt v (last xs) then (xs @ [v], length xs)
      else let i = std_upper_bound lt v xs in (insert_at i v xs, i))"

definition multi_remove_one :: "('a \<Rightarrow> 'a \<Rightarrow> bool) \<Rightarrow> 'a \<Rightarrow> 'a list \<Rightarrow> bool \<times> 'a list" where
  "multi_remove_one lt v xs =
     (if xs = [] \<or> lt v (hd xs) \<or> lt (last xs) v then (False, xs)
      else let i = std_lower_bound lt v xs
           in if lt v (xs ! i) then (False, xs) else (True, erase_at i xs))"

definition multi_remove_all :: "('a \<Rightarrow> 'a \<Rightarrow> bool) \<Rightarrow> 'a \<Rightarrow> 'a list \<Rightarrow> nat \<times> 'a list" where
  "multi_remove_all lt v xs =
     (if xs = [] \<or> lt v (hd xs) \<or> lt (last xs) v then (0, xs)
      else let i = std_lower_bound lt v xs; j = std_upper_bound lt v xs
           in if i = j then (0, xs) else (j - i, erase_range i j xs))"

text \<open>The end iterator, the length, is the answer for a value that is not there.\<close>

definition multi_find_first :: "('a \<Rightarrow> 'a \<Rightarrow> bool) \<Rightarrow> 'a \<Rightarrow> 'a list \<Rightarrow> nat" where
  "multi_find_first lt v xs =
     (if xs = [] \<or> lt v (hd xs) \<or> lt (last xs) v then length xs
      else let i = std_lower_bound lt v xs in if lt v (xs ! i) then length xs else i)"

definition multi_contains :: "('a \<Rightarrow> 'a \<Rightarrow> bool) \<Rightarrow> 'a \<Rightarrow> 'a list \<Rightarrow> bool" where
  "multi_contains lt v xs \<longleftrightarrow> multi_find_first lt v xs \<noteq> length xs"

definition multi_count :: "('a \<Rightarrow> 'a \<Rightarrow> bool) \<Rightarrow> 'a \<Rightarrow> 'a list \<Rightarrow> nat" where
  "multi_count lt v xs =
     (if xs = [] \<or> lt v (hd xs) \<or> lt (last xs) v then 0
      else std_upper_bound lt v xs - std_lower_bound lt v xs)"

text \<open>
  The two loops of \<open>modify\<close>: \<open>which\<close> stays where it is while \<open>i\<close> walks away from it, and
  the values change places.
\<close>

function multi_modify_forward ::
    "('a \<Rightarrow> 'a \<Rightarrow> bool) \<Rightarrow> nat \<Rightarrow> nat \<Rightarrow> 'a list \<Rightarrow> 'a list" where
  "multi_modify_forward lt which i xs =
     (if i < length xs \<and> lt (xs ! i) (xs ! which)
      then multi_modify_forward lt which (Suc i) (swap_at i which xs)
      else xs)"
  by pat_completeness auto
termination
  by (relation "measure (\<lambda>(lt, which, i, xs). length xs - i)") (auto simp: swap_at_def)

declare multi_modify_forward.simps [simp del]

fun multi_modify_backward ::
    "('a \<Rightarrow> 'a \<Rightarrow> bool) \<Rightarrow> nat \<Rightarrow> nat \<Rightarrow> 'a list \<Rightarrow> 'a list" where
  "multi_modify_backward lt which 0 xs = xs"
| "multi_modify_backward lt which (Suc i) xs =
     (if lt (xs ! which) (xs ! i)
      then multi_modify_backward lt which i (swap_at i which xs)
      else xs)"

definition multi_modify ::
    "('a \<Rightarrow> 'a \<Rightarrow> bool) \<Rightarrow> nat \<Rightarrow> ('a \<Rightarrow> 'a) \<Rightarrow> 'a list \<Rightarrow> 'a list" where
  "multi_modify lt which action xs =
     multi_modify_backward lt which which
       (multi_modify_forward lt which (Suc which) (xs[which := action (xs ! which)]))"

definition multi_merge :: "('a \<Rightarrow> 'a \<Rightarrow> bool) \<Rightarrow> 'a list \<Rightarrow> 'a list \<Rightarrow> 'a list" where
  "multi_merge lt rs xs = std_sort lt (xs @ rs)"

section \<open>flat_set\<close>

definition set_finalize :: "('a \<Rightarrow> 'a \<Rightarrow> bool) \<Rightarrow> 'a list \<Rightarrow> 'a list" where
  "set_finalize lt xs = std_unique (\<lambda>a b. \<not> lt a b) xs"

definition set_from_range :: "('a \<Rightarrow> 'a \<Rightarrow> bool) \<Rightarrow> 'a list \<Rightarrow> 'a list" where
  "set_from_range lt rs = set_finalize lt (multi_from_range lt rs)"

text \<open>The container, where the value is, and whether it was put there by this call.\<close>

definition set_insert ::
    "('a \<Rightarrow> 'a \<Rightarrow> bool) \<Rightarrow> 'a \<Rightarrow> 'a list \<Rightarrow> 'a list \<times> nat \<times> bool" where
  "set_insert lt v xs =
     (if xs = [] \<or> lt v (hd xs) then (v # xs, 0, True)
      else if lt (last xs) v then (xs @ [v], length xs, True)
      else let i = std_lower_bound lt v xs
           in if lt v (xs ! i) then (insert_at i v xs, i, True) else (xs, i, False))"

definition set_remove :: "('a \<Rightarrow> 'a \<Rightarrow> bool) \<Rightarrow> 'a \<Rightarrow> 'a list \<Rightarrow> bool \<times> 'a list" where
  "set_remove lt v xs = multi_remove_one lt v xs"

definition set_find :: "('a \<Rightarrow> 'a \<Rightarrow> bool) \<Rightarrow> 'a \<Rightarrow> 'a list \<Rightarrow> nat" where
  "set_find lt v xs = multi_find_first lt v xs"

text \<open>The flag says that the loop has erased \<open>which\<close> and returned.\<close>

function set_modify_forward ::
    "('a \<Rightarrow> 'a \<Rightarrow> bool) \<Rightarrow> nat \<Rightarrow> nat \<Rightarrow> 'a list \<Rightarrow> 'a list \<times> bool" where
  "set_modify_forward lt which i xs =
     (if i < length xs then
        if lt (xs ! i) (xs ! which)
        then set_modify_forward lt which (Suc i) (swap_at i which xs)
        else if \<not> lt (xs ! which) (xs ! i) then (erase_at which xs, True)
        else (xs, False)
      else (xs, False))"
  by pat_completeness auto
termination
  by (relation "measure (\<lambda>(lt, which, i, xs). length xs - i)") (auto simp: swap_at_def)

declare set_modify_forward.simps [simp del]

fun set_modify_backward ::
    "('a \<Rightarrow> 'a \<Rightarrow> bool) \<Rightarrow> nat \<Rightarrow> nat \<Rightarrow> 'a list \<Rightarrow> 'a list" where
  "set_modify_backward lt which 0 xs = xs"
| "set_modify_backward lt which (Suc i) xs =
     (if lt (xs ! which) (xs ! i)
      then set_modify_backward lt which i (swap_at i which xs)
      else if \<not> lt (xs ! i) (xs ! which) then erase_at which xs
      else xs)"

definition set_modify ::
    "('a \<Rightarrow> 'a \<Rightarrow> bool) \<Rightarrow> nat \<Rightarrow> ('a \<Rightarrow> 'a) \<Rightarrow> 'a list \<Rightarrow> 'a list" where
  "set_modify lt which action xs =
     (case set_modify_forward lt which (Suc which) (xs[which := action (xs ! which)]) of
        (ys, True) \<Rightarrow> ys
      | (ys, False) \<Rightarrow> set_modify_backward lt which which ys)"

definition set_merge :: "('a \<Rightarrow> 'a \<Rightarrow> bool) \<Rightarrow> 'a list \<Rightarrow> 'a list \<Rightarrow> 'a list" where
  "set_merge lt rs xs = set_finalize lt (multi_merge lt rs xs)"

section \<open>Facts for any Compare\<close>

lemma length_erase_at_le: "length (erase_at i xs) \<le> length xs"
  by (simp add: erase_range_def)

lemma length_set_modify_forward_le: "length (fst (set_modify_forward lt which i xs)) \<le> length xs"
  by (induction lt which i xs rule: set_modify_forward.induct)
    (subst set_modify_forward.simps, auto simp: swap_at_def length_erase_at_le)

lemma length_set_modify_backward_le: "length (set_modify_backward lt which i xs) \<le> length xs"
  by (induction lt which i xs rule: set_modify_backward.induct)
    (auto simp: swap_at_def length_erase_at_le)

lemma length_set_modify_le: "length (set_modify lt which action xs) \<le> length xs"
  using length_set_modify_forward_le [of lt which "Suc which" "xs[which := action (xs ! which)]"]
    order_trans [OF length_set_modify_backward_le]
  by (auto simp: set_modify_def split: prod.split bool.split)

lemma lower_bound_inside:
  assumes "xs \<noteq> []" "\<not> lt (last xs) v"
  shows "std_lower_bound lt v xs < length xs"
  using assms last_in_set by (auto simp: std_lower_bound_def partition_index_less_iff)

lemma set_erase_at_distinct:
  assumes "distinct xs" "i < length xs"
  shows "set (erase_at i xs) = set xs - {xs ! i}"
proof -
  obtain as bs where "xs = as @ xs ! i # bs" "length as = i"
    using split_at_nth [OF assms(2)] by blast
  then have "erase_at i xs = as @ bs" and "distinct (as @ xs ! i # bs)"
    using assms(1) by (metis erase_at_append, metis)
  moreover have "set xs = insert (xs ! i) (set as \<union> set bs)"
    using \<open>xs = as @ xs ! i # bs\<close> by (metis Un_insert_right list.simps(15) set_append)
  ultimately show ?thesis by auto
qed

context strict_weak_order
begin

lemma sorted_distinct: "sorted_wrt lt xs \<Longrightarrow> distinct xs"
  by (induction xs) (use irrefl in auto)

lemma sorted_set_from_range: "sorted_wrt lt (set_from_range lt rs)"
  by (simp add: set_from_range_def set_finalize_def multi_from_range_def sorted_std_sort
      sorted_std_unique)

lemma sorted_set_merge: "sorted_wrt lt (set_merge lt rs xs)"
  by (simp add: set_merge_def set_finalize_def multi_merge_def sorted_std_sort sorted_std_unique)

lemma sorted_multi_merge: "sorted_wrt (\<lambda>a b. \<not> lt b a) (multi_merge lt rs xs)"
  by (simp add: multi_merge_def sorted_std_sort)

lemma set_insert_sorted:
  assumes sorted: "sorted_wrt lt xs"
  shows "sorted_wrt lt (fst (set_insert lt v xs))"
proof -
  consider "xs = [] \<or> lt v (hd xs)" | "xs \<noteq> []" "\<not> lt v (hd xs)" "lt (last xs) v"
    | "xs \<noteq> []" "\<not> lt v (hd xs)" "\<not> lt (last xs) v" by blast
  then show ?thesis
  proof cases
    case 1
    have "\<forall>x\<in>set xs. lt v x" if "xs \<noteq> []"
      using 1 that sorted trans by (cases xs) auto
    with 1 sorted show ?thesis by (cases xs) (auto simp: set_insert_def)
  next
    case 2
    have "\<forall>x\<in>set xs. lt x v"
      using 2 sorted_wrt_last [OF sorted] trans by blast
    with 2 sorted show ?thesis by (simp add: set_insert_def sorted_wrt_append)
  next
    case 3
    let ?i = "std_lower_bound lt v xs"
    show ?thesis
    proof (cases "lt v (xs ! ?i)")
      case True
      have "\<forall>x\<in>set (dropWhile (\<lambda>x. lt x v) xs). lt v x"
      proof -
        have "dropWhile (\<lambda>x. lt x v) xs = xs ! ?i # drop (Suc ?i) xs"
          using lower_bound_inside [of xs lt v] 3
          by (simp add: std_lower_bound_def partition_index_unfold_dropWhile)
        moreover have "sorted_wrt lt (dropWhile (\<lambda>x. lt x v) xs)"
          using sorted by (metis sorted_wrt_append takeWhile_dropWhile_id)
        ultimately show ?thesis using True trans by auto
      qed
      then show ?thesis using 3 True sorted
        by (simp add: set_insert_def Let_def sorted_insert_at_lower_bound)
    qed (use 3 sorted in \<open>simp add: set_insert_def Let_def\<close>)
  qed
qed

lemma set_insert_append:
  assumes as: "\<forall>a\<in>set as. lt a v" and bs: "\<forall>b\<in>set bs. lt v b"
  shows "set_insert lt v (as @ bs) = (as @ v # bs, length as, True)"
proof (cases as)
  case Nil
  then show ?thesis using bs by (cases bs) (auto simp: set_insert_def)
next
  case (Cons a as')
  have front: "\<not> lt v a" using as Cons asym by auto
  show ?thesis
  proof (cases bs)
    case Nil
    have "lt (last as) v" using as Cons by simp
    then show ?thesis using Nil front Cons by (simp add: set_insert_def)
  next
    case (Cons b bs')
    have "\<not> lt (last bs) v" using bs Cons asym last_in_set by blast
    moreover have "std_lower_bound lt v (as @ bs) = length as"
      using as bs Cons asym by (simp add: std_lower_bound_def partition_index_def takeWhile_append2)
    ultimately show ?thesis
      using Cons front \<open>as = a # as'\<close> bs
      by (simp add: set_insert_def nth_append insert_at_def del: append_Cons)
  qed
qed

text \<open>
  One step of each loop decides everything: after a swap the value at \<open>which\<close> is the old
  neighbour, which is in order with the next element, so the loop stops.
\<close>

lemma set_modify_forward_split:
  assumes "sorted_wrt lt (as @ bs)"
  shows "set_modify_forward lt (length as) (Suc (length as)) (as @ y # bs) =
    (case bs of [] \<Rightarrow> (as @ [y], False)
     | b # bs' \<Rightarrow> if lt b y then (as @ b # y # bs', False)
                 else if \<not> lt y b then (as @ bs, True) else (as @ y # bs, False))"
proof (cases bs)
  case Nil
  then show ?thesis by (simp add: set_modify_forward.simps)
next
  case (Cons b bs')
  have stop: "set_modify_forward lt (length as) (Suc (Suc (length as))) (as @ b # y # bs')
      = (as @ b # y # bs', False)"
  proof (cases bs')
    case (Cons c cs)
    then have "lt b c" using assms \<open>bs = b # bs'\<close> by (simp add: sorted_wrt_append)
    then show ?thesis using Cons asym
      by (subst set_modify_forward.simps) (simp add: nth_append)
  qed (subst set_modify_forward.simps, simp)
  show ?thesis using Cons stop
    by (subst set_modify_forward.simps) (simp add: nth_append position_simps)
qed

lemma set_modify_backward_split:
  assumes "sorted_wrt lt as"
  shows "set_modify_backward lt (length as) (length as) (as @ y # bs) =
    (if as = [] then y # bs
     else if lt y (last as) then butlast as @ y # last as # bs
     else if \<not> lt (last as) y then as @ bs else as @ y # bs)"
proof (cases as rule: rev_cases)
  case (snoc as' a)
  have stop: "set_modify_backward lt (Suc (length as')) (length as') (as' @ y # a # bs)
      = as' @ y # a # bs"
  proof (cases as' rule: rev_cases)
    case (snoc as'' c)
    then have "lt c a" using assms \<open>as = as' @ [a]\<close> by (simp add: sorted_wrt_append)
    then show ?thesis using snoc asym by (simp add: nth_append)
  qed simp
  have erase: "erase_at (Suc (length as')) (as' @ a # y # bs) = as' @ a # bs"
    using erase_at_append [of "as' @ [a]" y bs] by simp
  show ?thesis using snoc stop erase by (simp add: nth_append position_simps)
qed simp

lemma set_modify_split:
  assumes sorted: "sorted_wrt lt (as @ x # bs)" and y: "action x = y"
  shows "set_modify lt (length as) action (as @ x # bs) =
    (if bs \<noteq> [] \<and> lt (hd bs) y then as @ hd bs # y # tl bs
     else if bs \<noteq> [] \<and> \<not> lt y (hd bs) then as @ bs
     else if as = [] then y # bs
     else if lt y (last as) then butlast as @ y # last as # bs
     else if \<not> lt (last as) y then as @ bs else as @ y # bs)"
proof -
  have sas: "sorted_wrt lt as" and sab: "sorted_wrt lt (as @ bs)"
    using sorted by (auto simp: sorted_wrt_append)
  show ?thesis
  proof (cases bs)
    case Nil
    then show ?thesis
      using set_modify_forward_split [OF sab, of y] set_modify_backward_split [OF sas, of y bs]
      by (simp add: set_modify_def y)
  next
    case (Cons b bs')
    have "as = [] \<or> (lt (last as) b \<and> \<not> lt b (last as))"
      using sab Cons asym by (auto simp: sorted_wrt_append)
    then show ?thesis
      using set_modify_forward_split [OF sab, of y] set_modify_backward_split [OF sas, of y bs]
        set_modify_backward_split [OF sas, of b "y # bs'"] Cons
      by (auto simp: set_modify_def y)
  qed
qed

text \<open>Where the neighbours stay on their sides, \<open>modify\<close> is an update in place.\<close>

lemma set_modify_in_place:
  assumes sorted: "sorted_wrt lt xs" and i: "i < length xs"
    and before: "0 < i \<Longrightarrow> lt (xs ! (i - 1)) (action (xs ! i))"
    and after: "Suc i < length xs \<Longrightarrow> lt (action (xs ! i)) (xs ! Suc i)"
  shows "set_modify lt i action xs = xs[i := action (xs ! i)]"
proof -
  obtain as bs where xs: "xs = as @ xs ! i # bs" and len: "length as = i"
    using split_at_nth [OF i] by blast
  have bs: "lt (action (xs ! i)) (hd bs)" if "bs \<noteq> []"
  proof -
    obtain b bs' where "bs = b # bs'" using \<open>bs \<noteq> []\<close> by (cases bs) auto
    then have "xs = (as @ [xs ! i]) @ b # bs'" using xs by simp
    then have "xs ! Suc i = b" "Suc i < length xs"
      by (metis len length_append_singleton nth_append_length,
          metis add_Suc_right len length_append length_append_singleton length_Cons less_add_Suc1)
    with after \<open>bs = b # bs'\<close> show ?thesis by simp
  qed
  have as: "lt (last as) (action (xs ! i))" if "as \<noteq> []"
  proof -
    have "xs ! (i - 1) = last as"
      using that len len [symmetric] arg_cong [OF xs, of "\<lambda>l. l ! (i - 1)"]
      by (cases as) (simp_all add: last_conv_nth nth_append)
    with before that len show ?thesis by auto
  qed
  have "set_modify lt (length as) action (as @ xs ! i # bs) = as @ action (xs ! i) # bs"
    by (subst set_modify_split [OF _ refl]) (use sorted xs bs as asym in auto)
  then show ?thesis
    using xs len by (metis list_update_length)
qed

end

section \<open>Ordered elements\<close>

lemma lower_bound_finds:
  assumes "strictly_sorted xs"
  shows "v \<in> set xs \<longleftrightarrow>
    std_lower_bound (<) v xs < length xs \<and> xs ! std_lower_bound (<) v xs = v"
proof
  assume v: "v \<in> set xs"
  let ?i = "std_lower_bound (<) v xs"
  have less: "?i < length xs"
    using v by (auto simp: std_lower_bound_def partition_index_less_iff)
  have "v \<in> set (dropWhile (\<lambda>x. x < v) xs)"
    using v set_takeWhileD [of v "\<lambda>x. x < v" xs]
    by (metis Un_iff less_irrefl set_append takeWhile_dropWhile_id)
  moreover have "dropWhile (\<lambda>x. x < v) xs = xs ! ?i # drop (Suc ?i) xs"
    using less by (simp add: std_lower_bound_def partition_index_unfold_dropWhile)
  moreover have "strictly_sorted (xs ! ?i # drop (Suc ?i) xs)"
    using assms less by (metis Cons_nth_drop_Suc sorted_wrt_take_drop)
  ultimately have "xs ! ?i \<le> v" by auto
  moreover have "\<not> xs ! ?i < v"
    using less nth_partition_index by (auto simp: std_lower_bound_def)
  ultimately show "?i < length xs \<and> xs ! ?i = v" using less by auto
qed (metis nth_mem)

lemma front_back_bounds:
  assumes "strictly_sorted xs" "xs = [] \<or> v < hd xs \<or> last xs < v"
  shows "v \<notin> set xs"
  using assms last_in_bounds [of xs v] hd_in_bounds [of xs v] by auto

lemma lower_bound_finds_inside:
  assumes "strictly_sorted xs" "xs \<noteq> []" "\<not> last xs < v"
  shows "v \<in> set xs \<longleftrightarrow> \<not> v < xs ! std_lower_bound (<) v xs"
proof -
  have less: "std_lower_bound (<) v xs < length xs"
    using lower_bound_inside [of xs "(<)" v] assms by simp
  then have "\<not> xs ! std_lower_bound (<) v xs < v"
    using nth_partition_index by (auto simp: std_lower_bound_def)
  then show ?thesis
    using lower_bound_finds [OF assms(1), of v] less by auto
qed

section \<open>The set operations\<close>

lemma set_insert_elems:
  assumes "strictly_sorted xs"
  shows "set (fst (set_insert (<) v xs)) = insert v (set xs)"
  using lower_bound_finds_inside [OF assms, of v] by (auto simp: set_insert_def Let_def)

lemma set_insert_flag:
  assumes "strictly_sorted xs"
  shows "snd (snd (set_insert (<) v xs)) \<longleftrightarrow> v \<notin> set xs"
  using lower_bound_finds_inside [OF assms, of v] front_back_bounds [OF assms, of v]
  by (auto simp: set_insert_def Let_def)

lemma nth_insert_at [simp]: "i \<le> length xs \<Longrightarrow> insert_at i v xs ! i = v"
  by (simp add: insert_at_def nth_append)

lemma set_insert_position:
  assumes "strictly_sorted xs"
  shows "fst (set_insert (<) v xs) ! fst (snd (set_insert (<) v xs)) = v"
proof -
  have "v = xs ! std_lower_bound (<) v xs"
    if "xs \<noteq> []" "\<not> last xs < v" "\<not> v < xs ! std_lower_bound (<) v xs"
    using that lower_bound_finds_inside [OF assms, of v] lower_bound_finds [OF assms, of v]
    by simp
  moreover have "std_lower_bound (<) v xs \<le> length xs"
    by (simp add: std_lower_bound_def)
  ultimately show ?thesis
    by (auto simp: set_insert_def Let_def)
qed

lemma set_find_eq:
  assumes "strictly_sorted xs"
  shows "set_find (<) v xs = (if v \<in> set xs then std_lower_bound (<) v xs else length xs)"
  using front_back_bounds [OF assms, of v] lower_bound_finds_inside [OF assms, of v]
  by (auto simp: set_find_def multi_find_first_def Let_def)

lemma multi_contains_iff:
  assumes "strictly_sorted xs"
  shows "multi_contains (<) v xs \<longleftrightarrow> v \<in> set xs"
  using set_find_eq [OF assms, of v] lower_bound_finds [OF assms, of v]
  by (auto simp: multi_contains_def set_find_def)

lemma set_remove_elems:
  assumes "strictly_sorted xs"
  shows "set (snd (set_remove (<) v xs)) = set xs - {v}"
proof -
  have "set (erase_at (std_lower_bound (<) v xs) xs) = set xs - {v}" if "v \<in> set xs"
    using that lower_bound_finds [OF assms, of v] linorder_less.sorted_distinct [OF assms]
    by (simp add: set_erase_at_distinct)
  then show ?thesis
    using front_back_bounds [OF assms, of v] lower_bound_finds_inside [OF assms, of v]
    by (auto simp: set_remove_def multi_remove_one_def Let_def)
qed

lemma set_remove_sorted:
  "strictly_sorted xs \<Longrightarrow> strictly_sorted (snd (set_remove (<) v xs))"
  by (auto simp: set_remove_def multi_remove_one_def Let_def intro: sorted_erase_range)

lemma set_remove_flag:
  "strictly_sorted xs \<Longrightarrow> fst (set_remove (<) v xs) \<longleftrightarrow> v \<in> set xs"
  using front_back_bounds [of xs v] lower_bound_finds_inside [of xs v]
  by (auto simp: set_remove_def multi_remove_one_def Let_def)

lemma std_unique_elems:
  fixes xs :: "'a::linorder list"
  assumes "sorted_wrt (\<lambda>a b. \<not> b < a) xs"
  shows "set (std_unique (\<lambda>a b. \<not> a < b) xs) = set xs"
proof
  show "set (std_unique (\<lambda>a b. \<not> a < b) xs) \<subseteq> set xs"
    by (rule linorder_less.set_std_unique_subset)
  show "set xs \<subseteq> set (std_unique (\<lambda>a b. \<not> a < b) xs)"
    using linorder_less.std_unique_covers [OF assms] by (metis linorder_neqE subsetI)
qed

lemma set_merge_elems [simp]:
  "set (set_merge (<) rs xs) = set xs \<union> set (rs :: 'a::linorder list)"
  using std_unique_elems [OF linorder_less.sorted_std_sort, of "xs @ rs"]
  by (simp add: set_merge_def set_finalize_def multi_merge_def)

lemma set_from_range_elems [simp]: "set (set_from_range (<) rs) = set (rs :: 'a::linorder list)"
  using std_unique_elems [OF linorder_less.sorted_std_sort, of rs]
  by (simp add: set_from_range_def set_finalize_def multi_from_range_def)

lemma set_merge_sorted [simp]: "strictly_sorted (set_merge (<) rs xs)"
  by (rule linorder_less.sorted_set_merge)

lemma set_from_range_sorted [simp]: "strictly_sorted (set_from_range (<) rs)"
  by (rule linorder_less.sorted_set_from_range)

section \<open>The contract the storage lists rely on\<close>

text \<open>
  What a client of an ordered set of identifiers may assume: which elements each operation
  leaves, and that every operation keeps the representation.
\<close>

locale identifier_set =
  fixes ok :: "'s \<Rightarrow> bool"
    and elems :: "'s \<Rightarrow> 'a set"
    and make :: "'a list \<Rightarrow> 's"
    and add :: "'a list \<Rightarrow> 's \<Rightarrow> 's"
    and del :: "'a \<Rightarrow> 's \<Rightarrow> 's"
  assumes ok_make: "ok (make l)"
    and elems_make: "elems (make l) = set l"
    and ok_add: "ok s \<Longrightarrow> ok (add l s)"
    and elems_add: "ok s \<Longrightarrow> elems (add l s) = elems s \<union> set l"
    and ok_del: "ok s \<Longrightarrow> ok (del x s)"
    and elems_del: "ok s \<Longrightarrow> elems (del x s) = elems s - {x}"
    and ext: "ok s \<Longrightarrow> ok t \<Longrightarrow> elems s = elems t \<Longrightarrow> s = t"
begin

lemma ok_fold_add: "ok s \<Longrightarrow> ok (fold add ls s)"
  by (induction ls arbitrary: s) (auto intro: ok_add)

lemma elems_fold_add: "ok s \<Longrightarrow> elems (fold add ls s) = elems s \<union> \<Union> (set ` set ls)"
  by (induction ls arbitrary: s) (auto simp: elems_add ok_add)

lemma add_commute: "ok s \<Longrightarrow> add l (add m s) = add m (add l s)"
  by (intro ext) (auto simp: elems_add ok_add)

lemma add_absorb: "ok s \<Longrightarrow> set l \<subseteq> elems s \<Longrightarrow> add l s = s"
  by (intro ext) (auto simp: elems_add ok_add)

lemma del_absent: "ok s \<Longrightarrow> x \<notin> elems s \<Longrightarrow> del x s = s"
  by (intro ext) (auto simp: elems_del ok_del)

lemma del_add: "ok s \<Longrightarrow> x \<notin> elems s \<Longrightarrow> del x (add [x] s) = s"
  by (intro ext) (auto simp: elems_add elems_del ok_add ok_del)

end

interpretation ids: identifier_set
  "strictly_sorted :: 'a::linorder list \<Rightarrow> bool" set "set_from_range (<)" "set_merge (<)"
  "\<lambda>x s. snd (set_remove (<) x s)"
  by unfold_locales
    (auto simp: set_remove_elems set_remove_sorted intro: strictly_sorted_unique)

section \<open>What modify keeps\<close>

text \<open>
  \<open>modify\<close> keeps the container sorted exactly when the new value belongs at most one
  place away from where the old one stood.
\<close>

lemma sorted_insert_after:
  fixes as bs :: "'a::linorder list"
  assumes "strictly_sorted (as @ b # bs)" "b < y"
  shows "strictly_sorted (as @ b # y # bs) \<longleftrightarrow> (bs \<noteq> [] \<longrightarrow> y < hd bs)"
proof
  assume r: "bs \<noteq> [] \<longrightarrow> y < hd bs"
  have "\<forall>z\<in>set bs. y < z"
  proof
    fix z assume z: "z \<in> set bs"
    have "strictly_sorted bs" using assms(1) by (simp add: sorted_wrt_append)
    then have "hd bs \<le> z" using z by (rule hd_in_bounds)
    moreover have "y < hd bs" using r z by auto
    ultimately show "y < z" by simp
  qed
  moreover have "\<forall>z\<in>set as. z < y"
    using assms by (fastforce simp: sorted_wrt_append)
  ultimately show "strictly_sorted (as @ b # y # bs)"
    using assms by (auto simp: sorted_wrt_append)
qed (auto simp: sorted_wrt_append)

lemma sorted_insert_before:
  fixes as bs :: "'a::linorder list"
  assumes "strictly_sorted (as @ a # bs)" "y < a"
  shows "strictly_sorted (as @ y # a # bs) \<longleftrightarrow> (as \<noteq> [] \<longrightarrow> last as < y)"
proof
  assume r: "as \<noteq> [] \<longrightarrow> last as < y"
  have "\<forall>z\<in>set as. z < y"
  proof
    fix z assume z: "z \<in> set as"
    have "strictly_sorted as" using assms(1) by (simp add: sorted_wrt_append)
    then have "z \<le> last as" using z by (rule last_in_bounds)
    moreover have "last as < y" using r z by auto
    ultimately show "z < y" by simp
  qed
  moreover have "\<forall>z\<in>set bs. y < z"
    using assms by (fastforce simp: sorted_wrt_append)
  ultimately show "strictly_sorted (as @ y # a # bs)"
    using assms by (auto simp: sorted_wrt_append)
qed (auto simp: sorted_wrt_append)

lemma set_modify_sorted_iff:
  fixes as bs :: "'a::linorder list"
  assumes sorted: "strictly_sorted (as @ x # bs)" and y: "action x = y"
  shows "strictly_sorted (set_modify (<) (length as) action (as @ x # bs)) \<longleftrightarrow>
    (tl bs \<noteq> [] \<longrightarrow> y < hd (tl bs)) \<and> (butlast as \<noteq> [] \<longrightarrow> last (butlast as) < y)"
proof -
  note split = linorder_less.set_modify_split [where action = action, OF sorted y]
  have sab: "strictly_sorted (as @ bs)" using sorted by (simp add: sorted_wrt_append)
  have las: "last (butlast as) < last as" if "butlast as \<noteq> []"
  proof -
    have "as = butlast as @ [last as]" using that by (metis append_butlast_last_id butlast.simps(1))
    then have "strictly_sorted (butlast as @ [last as])"
      using sorted by (metis sorted_wrt_append)
    then show ?thesis using that by (simp add: sorted_wrt_append)
  qed
  have hbs: "hd bs < hd (tl bs)" if "tl bs \<noteq> []"
    using sorted that by (cases bs; cases "tl bs") (auto simp: sorted_wrt_append)
  have mid: "last as < hd bs" if "as \<noteq> []" "bs \<noteq> []"
    using sab that by (simp add: sorted_wrt_append)
  consider (up) "bs \<noteq> []" "hd bs < y" | (eq) "bs \<noteq> []" "y = hd bs"
    | (mid) "bs \<noteq> [] \<longrightarrow> y < hd bs" "as = [] \<or> last as < y"
    | (deq) "bs \<noteq> [] \<longrightarrow> y < hd bs" "as \<noteq> []" "y = last as"
    | (down) "bs \<noteq> [] \<longrightarrow> y < hd bs" "as \<noteq> []" "y < last as"
    by (meson linorder_neqE)
  then show ?thesis
  proof cases
    case up
    have "strictly_sorted (as @ hd bs # tl bs)" using sab up by simp
    moreover have "butlast as \<noteq> [] \<longrightarrow> last (butlast as) < y"
      using up las mid by (metis butlast.simps(1) order.strict_trans)
    ultimately show ?thesis
      using up sorted_insert_after [of as "hd bs" "tl bs" y] by (simp add: split)
  next
    case eq
    then show ?thesis using sab hbs las mid
      by (auto simp: split) (metis butlast.simps(1) order.strict_trans)
  next
    case mid': mid
    have "strictly_sorted (as @ y # bs)"
    proof (cases "as = []")
      case True
      then show ?thesis using sorted mid' sorted_insert_before [of "[]" "hd bs" "tl bs" y] sab
        by (cases bs) auto
    next
      case False
      then show ?thesis
        using mid' sab sorted_insert_after [of "butlast as" "last as" bs y] by (cases bs) auto
    qed
    moreover have "set_modify (<) (length as) action (as @ x # bs) = as @ y # bs"
      using mid' by (auto simp: split)
    ultimately show ?thesis using mid' las hbs
      by (metis butlast.simps(1) list.sel(2) order.strict_trans)
  next
    case deq
    have "set_modify (<) (length as) action (as @ x # bs) = as @ bs"
      using deq by (auto simp: split)
    then show ?thesis using deq sab las hbs by (metis list.sel(2) order.strict_trans)
  next
    case down
    have "set_modify (<) (length as) action (as @ x # bs) = butlast as @ y # last as # bs"
      using down by (auto simp: split)
    moreover have "strictly_sorted (butlast as @ last as # bs)" using sab down by simp
    ultimately show ?thesis
      using down hbs sorted_insert_before [of "butlast as" "last as" bs y]
      by (metis list.sel(2) order.strict_trans)
  qed
qed

section \<open>Properties\<close>

text \<open>C22. \<open>flat_set::insert\<close> keeps the deque strictly sorted, adds exactly the value, returns an
  iterator to it, and says it inserted exactly when the value was not there.\<close>

theorem flat_set_insert_correct:
  fixes xs :: "'a::linorder list"
  assumes "strictly_sorted xs"
  shows "(case set_insert (<) v xs of (ys, i, inserted) \<Rightarrow>
    strictly_sorted ys \<and> set ys = insert v (set xs) \<and> i < length ys \<and> ys ! i = v \<and>
    (inserted \<longleftrightarrow> v \<notin> set xs))"
proof -
  have "fst (snd (set_insert (<) v xs)) < length (fst (set_insert (<) v xs))"
    using lower_bound_inside [of xs "(<)" v] by (auto simp: set_insert_def Let_def)
  then show ?thesis
    using linorder_less.set_insert_sorted [OF assms, of v] set_insert_elems [OF assms, of v]
      set_insert_flag [OF assms, of v] set_insert_position [OF assms, of v]
    by (simp add: case_prod_beta)
qed

theorem flat_set_insert_correct_witness:
  "case set_insert (<) 3 [0, 2, 4, 5::int] of (ys, i, inserted) \<Rightarrow>
    strictly_sorted ys \<and> set ys = insert 3 (set [0, 2, 4, 5]) \<and> i < length ys \<and> ys ! i = 3 \<and>
    (inserted \<longleftrightarrow> 3 \<notin> set [0, 2, 4, 5::int])"
  by (rule flat_set_insert_correct) simp

text \<open>\<open>flat_set::remove\<close> and \<open>contains\<close> agree with set membership: removal takes out exactly the
  value, keeps the order and reports whether it was there, after which it is not found.\<close>

theorem flat_set_remove_correct:
  fixes xs :: "'a::linorder list"
  assumes "strictly_sorted xs"
  shows "(case set_remove (<) v xs of (removed, ys) \<Rightarrow>
    strictly_sorted ys \<and> set ys = set xs - {v} \<and> (removed \<longleftrightarrow> multi_contains (<) v xs) \<and>
    \<not> multi_contains (<) v ys \<and>
    (\<forall>w. w \<noteq> v \<longrightarrow> multi_contains (<) w ys = multi_contains (<) w xs))"
  using assms ids.ok_del [OF assms, of v] ids.elems_del [OF assms, of v]
  by (simp add: case_prod_beta multi_contains_iff set_remove_flag)

theorem flat_set_remove_correct_witness:
  "case set_remove (<) 4 [0, 2, 4, 5::int] of (removed, ys) \<Rightarrow>
    strictly_sorted ys \<and> set ys = set [0, 2, 4, 5] - {4} \<and>
    (removed \<longleftrightarrow> multi_contains (<) 4 [0, 2, 4, 5::int]) \<and> \<not> multi_contains (<) 4 ys \<and>
    (\<forall>w. w \<noteq> 4 \<longrightarrow> multi_contains (<) w ys = multi_contains (<) w [0, 2, 4, 5])"
  by (rule flat_set_remove_correct) simp

text \<open>C17. \<open>flat_set::modify\<close> leaves the set sorted if and only if the new value belongs at most one
  place away from the old one: before the element two places after it, and after the element
  two places before it. A value that has to move further leaves the deque out of order.\<close>

theorem flat_set_modify_sorted_iff:
  fixes as bs :: "'a::linorder list"
  assumes "strictly_sorted (as @ x # bs)"
  shows "strictly_sorted (set_modify (<) (length as) action (as @ x # bs)) \<longleftrightarrow>
    (tl bs \<noteq> [] \<longrightarrow> action x < hd (tl bs)) \<and>
    (butlast as \<noteq> [] \<longrightarrow> last (butlast as) < action x)"
  by (rule set_modify_sorted_iff [OF assms refl])

theorem flat_set_modify_sorted_iff_witness:
  "set_modify (<) 0 (\<lambda>_. 10) [1, 2, 3, 4::int] = [2, 10, 3, 4] \<and>
   \<not> strictly_sorted (set_modify (<) 0 (\<lambda>_. 10) [1, 2, 3, 4::int])"
proof
  show "set_modify (<) 0 (\<lambda>_. 10) [1, 2, 3, 4::int] = [2, 10, 3, 4]"
    by (simp add: set_modify_def set_modify_forward.simps swap_at_def)
  show "\<not> strictly_sorted (set_modify (<) 0 (\<lambda>_. 10) [1, 2, 3, 4::int])"
    using flat_set_modify_sorted_iff [of "[]" 1 "[2, 3, 4]" "\<lambda>_. 10 :: int"] by simp
qed

end
