(* ===== verification/Flat_Map.thy ===== *)
theory Flat_Map
  imports Flat_Set
begin

text \<open>
  base/flat_map.h: \<open>flat_multi_map\<close> and \<open>flat_map\<close>, deques of pairs sorted by key. Iterators
  are indices as in \<open>Flat_Set\<close>; \<open>Compare\<close> compares keys. The lemmas show that the deque
  of pairs behaves as the partial function it stands for, through the list of its keys.
\<close>

type_synonym ('k, 'v) pairs = "('k \<times> 'v) list"

abbreviation keys_of :: "('k, 'v) pairs \<Rightarrow> 'k list" where
  "keys_of m \<equiv> map fst m"

definition pair_less :: "('k \<Rightarrow> 'k \<Rightarrow> bool) \<Rightarrow> 'k \<times> 'v \<Rightarrow> 'k \<times> 'v \<Rightarrow> bool" where
  "pair_less lt p q \<longleftrightarrow> lt (fst p) (fst q)"

section \<open>flat_multi_map\<close>

definition map_lower_bound :: "('k \<Rightarrow> 'k \<Rightarrow> bool) \<Rightarrow> 'k \<Rightarrow> ('k, 'v) pairs \<Rightarrow> nat" where
  "map_lower_bound lt key m = partition_index (\<lambda>p. lt (fst p) key) m"

definition map_upper_bound :: "('k \<Rightarrow> 'k \<Rightarrow> bool) \<Rightarrow> 'k \<Rightarrow> ('k, 'v) pairs \<Rightarrow> nat" where
  "map_upper_bound lt key m = partition_index (\<lambda>p. \<not> lt key (fst p)) m"

definition multi_map_from_range ::
    "('k \<Rightarrow> 'k \<Rightarrow> bool) \<Rightarrow> ('k, 'v) pairs \<Rightarrow> ('k, 'v) pairs" where
  "multi_map_from_range lt rs = std_sort (pair_less lt) rs"

definition multi_map_insert ::
    "('k \<Rightarrow> 'k \<Rightarrow> bool) \<Rightarrow> 'k \<times> 'v \<Rightarrow> ('k, 'v) pairs \<Rightarrow> ('k, 'v) pairs \<times> nat" where
  "multi_map_insert lt value m =
     (if m = [] \<or> lt (fst value) (fst (hd m)) then (value # m, 0)
      else if \<not> lt (fst value) (fst (last m)) then (m @ [value], length m)
      else let i = map_upper_bound lt (fst value) m in (insert_at i value m, i))"

definition multi_map_remove_one ::
    "('k \<Rightarrow> 'k \<Rightarrow> bool) \<Rightarrow> 'k \<Rightarrow> ('k, 'v) pairs \<Rightarrow> bool \<times> ('k, 'v) pairs" where
  "multi_map_remove_one lt key m =
     (if m = [] \<or> lt key (fst (hd m)) \<or> lt (fst (last m)) key then (False, m)
      else let i = map_lower_bound lt key m
           in if lt key (fst (m ! i)) then (False, m) else (True, erase_at i m))"

definition multi_map_remove_all ::
    "('k \<Rightarrow> 'k \<Rightarrow> bool) \<Rightarrow> 'k \<Rightarrow> ('k, 'v) pairs \<Rightarrow> nat \<times> ('k, 'v) pairs" where
  "multi_map_remove_all lt key m =
     (if m = [] \<or> lt key (fst (hd m)) \<or> lt (fst (last m)) key then (0, m)
      else let i = map_lower_bound lt key m; j = map_upper_bound lt key m
           in if i = j then (0, m) else (j - i, erase_range i j m))"

definition multi_map_find_first ::
    "('k \<Rightarrow> 'k \<Rightarrow> bool) \<Rightarrow> 'k \<Rightarrow> ('k, 'v) pairs \<Rightarrow> nat" where
  "multi_map_find_first lt key m =
     (if m = [] \<or> lt key (fst (hd m)) \<or> lt (fst (last m)) key then length m
      else let i = map_lower_bound lt key m
           in if lt key (fst (m ! i)) then length m else i)"

definition multi_map_contains :: "('k \<Rightarrow> 'k \<Rightarrow> bool) \<Rightarrow> 'k \<Rightarrow> ('k, 'v) pairs \<Rightarrow> bool" where
  "multi_map_contains lt key m \<longleftrightarrow> multi_map_find_first lt key m \<noteq> length m"

definition multi_map_count :: "('k \<Rightarrow> 'k \<Rightarrow> bool) \<Rightarrow> 'k \<Rightarrow> ('k, 'v) pairs \<Rightarrow> nat" where
  "multi_map_count lt key m =
     (if m = [] \<or> lt key (fst (hd m)) \<or> lt (fst (last m)) key then 0
      else map_upper_bound lt key m - map_lower_bound lt key m)"

section \<open>flat_map\<close>

definition map_finalize :: "('k \<Rightarrow> 'k \<Rightarrow> bool) \<Rightarrow> ('k, 'v) pairs \<Rightarrow> ('k, 'v) pairs" where
  "map_finalize lt m = std_unique (\<lambda>a b. \<not> pair_less lt a b) m"

definition map_from_range :: "('k \<Rightarrow> 'k \<Rightarrow> bool) \<Rightarrow> ('k, 'v) pairs \<Rightarrow> ('k, 'v) pairs" where
  "map_from_range lt rs = map_finalize lt (multi_map_from_range lt rs)"

definition map_insert ::
    "('k \<Rightarrow> 'k \<Rightarrow> bool) \<Rightarrow> 'k \<times> 'v \<Rightarrow> ('k, 'v) pairs \<Rightarrow> ('k, 'v) pairs \<times> nat \<times> bool" where
  "map_insert lt value m =
     (if m = [] \<or> lt (fst value) (fst (hd m)) then (value # m, 0, True)
      else if lt (fst (last m)) (fst value) then (m @ [value], length m, True)
      else let i = map_lower_bound lt (fst value) m
           in if lt (fst value) (fst (m ! i)) then (insert_at i value m, i, True)
              else (m, i, False))"

definition map_emplace ::
    "('k \<Rightarrow> 'k \<Rightarrow> bool) \<Rightarrow> 'k \<Rightarrow> 'v \<Rightarrow> ('k, 'v) pairs \<Rightarrow> ('k, 'v) pairs \<times> nat \<times> bool" where
  "map_emplace lt key v m = map_insert lt (key, v) m"

text \<open>\<open>try_emplace\<close> builds the value only on the branches that store it.\<close>

definition map_try_emplace ::
    "('k \<Rightarrow> 'k \<Rightarrow> bool) \<Rightarrow> 'k \<Rightarrow> (unit \<Rightarrow> 'v) \<Rightarrow> ('k, 'v) pairs \<Rightarrow> ('k, 'v) pairs \<times> nat \<times> bool" where
  "map_try_emplace lt key build m =
     (if m = [] \<or> lt key (fst (hd m)) then ((key, build ()) # m, 0, True)
      else if lt (fst (last m)) key then (m @ [(key, build ())], length m, True)
      else let i = map_lower_bound lt key m
           in if lt key (fst (m ! i)) then (insert_at i (key, build ()) m, i, True)
              else (m, i, False))"

definition map_remove ::
    "('k \<Rightarrow> 'k \<Rightarrow> bool) \<Rightarrow> 'k \<Rightarrow> ('k, 'v) pairs \<Rightarrow> bool \<times> ('k, 'v) pairs" where
  "map_remove lt key m = multi_map_remove_one lt key m"

definition map_find :: "('k \<Rightarrow> 'k \<Rightarrow> bool) \<Rightarrow> 'k \<Rightarrow> ('k, 'v) pairs \<Rightarrow> nat" where
  "map_find lt key m = multi_map_find_first lt key m"

text \<open>
  \<open>operator[]\<close> returns a reference: the container with the key in it, and the index of the
  pair the reference is into. The default value \<open>Type()\<close> is the argument \<open>dflt\<close>.
\<close>

definition map_subscript ::
    "('k \<Rightarrow> 'k \<Rightarrow> bool) \<Rightarrow> 'v \<Rightarrow> 'k \<Rightarrow> ('k, 'v) pairs \<Rightarrow> ('k, 'v) pairs \<times> nat" where
  "map_subscript lt dflt key m =
     (if m = [] \<or> lt key (fst (hd m)) then ((key, dflt) # m, 0)
      else if lt (fst (last m)) key then (m @ [(key, dflt)], length m)
      else let i = map_lower_bound lt key m
           in if lt key (fst (m ! i)) then (insert_at i (key, dflt) m, i) else (m, i))"

text \<open>An assignment through the reference, \<open>m[key] = f(m[key])\<close>.\<close>

definition map_assign ::
    "('k \<Rightarrow> 'k \<Rightarrow> bool) \<Rightarrow> 'v \<Rightarrow> 'k \<Rightarrow> ('v \<Rightarrow> 'v) \<Rightarrow> ('k, 'v) pairs \<Rightarrow> ('k, 'v) pairs" where
  "map_assign lt dflt key f m =
     (let (m', i) = map_subscript lt dflt key m in m'[i := (fst (m' ! i), f (snd (m' ! i)))])"

definition map_take ::
    "('k \<Rightarrow> 'k \<Rightarrow> bool) \<Rightarrow> 'k \<Rightarrow> ('k, 'v) pairs \<Rightarrow> 'v option \<times> ('k, 'v) pairs" where
  "map_take lt key m =
     (let i = map_find lt key m
      in if i = length m then (None, m) else (Some (snd (m ! i)), erase_at i m))"

section \<open>Positions by key\<close>

lemma map_lower_bound_keys: "map_lower_bound lt key m = std_lower_bound lt key (keys_of m)"
  by (simp add: map_lower_bound_def std_lower_bound_def partition_index_def takeWhile_map comp_def)

lemma keys_insert_at: "keys_of (insert_at i p m) = insert_at i (fst p) (keys_of m)"
  by (simp add: insert_at_def take_map drop_map)

lemma keys_erase_range: "keys_of (erase_range i j m) = erase_range i j (keys_of m)"
  by (simp add: erase_range_def take_map drop_map)

lemma keys_map_insert:
  "keys_of (fst (map_insert lt p m)) = fst (set_insert lt (fst p) (keys_of m))"
  by (auto simp: map_insert_def set_insert_def Let_def map_lower_bound_keys keys_insert_at
      hd_map last_map)
    (use lower_bound_inside [of "keys_of m" lt "fst p"] in \<open>auto simp: last_map\<close>)

lemma map_find_keys: "map_find lt key m = set_find lt key (keys_of m)"
proof -
  have "lt key (fst (m ! map_lower_bound lt key m)) = lt key (keys_of m ! map_lower_bound lt key m)"
    if "m \<noteq> []" "\<not> lt (fst (last m)) key"
    using lower_bound_inside [of "keys_of m" lt key] that by (simp add: map_lower_bound_keys last_map)
  then show ?thesis
    by (auto simp: map_find_def set_find_def multi_map_find_first_def multi_find_first_def Let_def
        map_lower_bound_keys hd_map last_map)
qed

section \<open>The partial function a flat_map stands for\<close>

abbreviation map_ok :: "('k::linorder, 'v) pairs \<Rightarrow> bool" where
  "map_ok m \<equiv> strictly_sorted (keys_of m)"

lemma map_ok_distinct: "map_ok m \<Longrightarrow> distinct (keys_of m)"
  by (rule linorder_less.sorted_distinct)

lemma map_of_add_pair:
  assumes "distinct (keys_of m')" "distinct (keys_of m)" "set m' = insert (k, v) (set m)"
    "k \<notin> set (keys_of m)"
  shows "map_of m' = (map_of m)(k \<mapsto> v)"
proof (rule ext)
  fix x
  show "map_of m' x = ((map_of m)(k \<mapsto> v)) x"
  proof (cases "x = k")
    case True
    then show ?thesis using assms by (simp add: map_of_is_SomeI)
  next
    case False
    have "map_of m' x = Some w \<longleftrightarrow> map_of m x = Some w" for w
      using assms False by simp
    then show ?thesis using False by (metis fun_upd_other not_None_eq)
  qed
qed

lemma map_of_drop_pair:
  assumes "distinct (keys_of m)" "i < length m"
  shows "map_of (erase_at i m) = (map_of m)(fst (m ! i) := None)"
proof -
  obtain as k v bs where m: "m = as @ (k, v) # bs" and i: "length as = i"
    using split_at [OF assms(2)] by fastforce
  have "map_of as k = None" "map_of bs k = None"
    using assms(1) by (auto simp: m map_of_eq_None_iff)
  moreover have "erase_at i m = as @ bs" "fst (m ! i) = k"
    using m i [symmetric] by (simp_all add: position_simps)
  ultimately show ?thesis
    by (auto simp: m map_add_def fun_eq_iff split: option.splits)
qed

lemma map_of_set_value:
  assumes "distinct (keys_of m)" "i < length m"
  shows "map_of (m[i := (fst (m ! i), v)]) = (map_of m)(fst (m ! i) \<mapsto> v)"
proof -
  obtain as k w bs where m: "m = as @ (k, w) # bs" and i: "length as = i"
    using split_at [OF assms(2)] by fastforce
  have "map_of as k = None" "map_of bs k = None"
    using assms(1) by (auto simp: m map_of_eq_None_iff)
  moreover have "m[i := (fst (m ! i), v)] = as @ (k, v) # bs" "fst (m ! i) = k"
    using m i [symmetric] by simp_all
  ultimately show ?thesis
    by (auto simp: m map_add_def fun_eq_iff split: option.splits)
qed

lemma map_find_spec:
  assumes "map_ok m"
  shows "map_of m k = (let i = map_find (<) k m in if i = length m then None else Some (snd (m ! i)))"
proof (cases "k \<in> set (keys_of m)")
  case True
  let ?i = "std_lower_bound (<) k (keys_of m)"
  have i: "map_find (<) k m = ?i" "?i < length m" "fst (m ! ?i) = k"
    using True lower_bound_finds [OF assms, of k] by (auto simp: map_find_keys set_find_eq [OF assms])
  then have "(k, snd (m ! ?i)) \<in> set m" by (metis nth_mem surjective_pairing)
  then show ?thesis using i map_ok_distinct [OF assms] by (simp add: Let_def map_of_is_SomeI)
next
  case False
  then show ?thesis
    using set_find_eq [OF assms, of k] by (simp add: map_find_keys Let_def map_of_eq_None_iff)
qed

lemma map_subscript_cases:
  assumes "map_ok m"
  shows "map_ok (fst (map_subscript (<) dflt k m)) \<and>
    snd (map_subscript (<) dflt k m) < length (fst (map_subscript (<) dflt k m)) \<and>
    fst (fst (map_subscript (<) dflt k m) ! snd (map_subscript (<) dflt k m)) = k \<and>
    map_of (fst (map_subscript (<) dflt k m)) =
      (case map_of m k of None \<Rightarrow> (map_of m)(k \<mapsto> dflt) | Some _ \<Rightarrow> map_of m)"
proof -
  let ?r = "map_subscript (<) dflt k m" and ?s = "map_insert (<) (k, dflt) m"
  have r: "fst ?r = fst ?s" "snd ?r = fst (snd ?s)"
    by (auto simp: map_subscript_def map_insert_def Let_def)
  have keys: "keys_of (fst ?s) = fst (set_insert (<) k (keys_of m))"
    using keys_map_insert [of "(<)" "(k, dflt)" m] by simp
  have ok: "map_ok (fst ?s)"
    using keys linorder_less.set_insert_sorted [OF assms] by simp
  have pos: "fst (snd ?s) = fst (snd (set_insert (<) k (keys_of m)))"
    using lower_bound_inside [of "keys_of m" "(<)" k]
    by (auto simp: map_insert_def set_insert_def Let_def map_lower_bound_keys hd_map last_map)
  have inside: "fst (snd ?s) < length (fst ?s)"
    using lower_bound_inside [of "keys_of m" "(<)" k]
    by (auto simp: map_insert_def Let_def map_lower_bound_keys last_map)
  have key: "fst (fst ?s ! fst (snd ?s)) = k"
    using set_insert_position [OF assms, of k] inside keys pos by (metis nth_map)
  have "map_of (fst ?s) = (case map_of m k of None \<Rightarrow> (map_of m)(k \<mapsto> dflt) | Some _ \<Rightarrow> map_of m)"
  proof (cases "snd (snd ?s)")
    case True
    then have "set (fst ?s) = insert (k, dflt) (set m)"
      by (auto simp: map_insert_def Let_def split: if_splits)
    moreover have "k \<notin> set (keys_of m)"
      using True set_insert_flag [OF assms, of k] lower_bound_inside [of "keys_of m" "(<)" k]
      by (auto simp: map_insert_def set_insert_def Let_def map_lower_bound_keys hd_map last_map
          split: if_splits)
    ultimately show ?thesis
      using map_of_add_pair [of "fst ?s" m k dflt] map_ok_distinct [OF ok] map_ok_distinct [OF assms]
      by (simp add: map_of_eq_None_iff [THEN iffD2])
  next
    case False
    then have "fst ?s = m" by (auto simp: map_insert_def Let_def split: if_splits)
    moreover have "k \<in> set (keys_of m)" using inside key \<open>fst ?s = m\<close> by (metis nth_map nth_mem length_map)
    ultimately show ?thesis by (auto split: option.split simp: map_of_eq_None_iff)
  qed
  then show ?thesis using r ok inside key by simp
qed

lemma map_assign_spec:
  assumes "map_ok m"
  shows "map_ok (map_assign (<) dflt k f m)"
    and "map_of (map_assign (<) dflt k f m) =
      (map_of m)(k \<mapsto> f (case map_of m k of None \<Rightarrow> dflt | Some v \<Rightarrow> v))"
proof -
  obtain m' i where r: "map_subscript (<) dflt k m = (m', i)" by fastforce
  have c: "map_ok m'" "i < length m'" "fst (m' ! i) = k"
    "map_of m' = (case map_of m k of None \<Rightarrow> (map_of m)(k \<mapsto> dflt) | Some _ \<Rightarrow> map_of m)"
    using map_subscript_cases [OF assms, of dflt k] r by auto
  have a: "map_assign (<) dflt k f m = m'[i := (fst (m' ! i), f (snd (m' ! i)))]"
    by (simp add: map_assign_def r)
  have "keys_of (m'[i := (fst (m' ! i), f (snd (m' ! i)))]) = keys_of m'"
    by (metis fst_conv list_update_id map_update nth_map c(2))
  then show "map_ok (map_assign (<) dflt k f m)" using c a by simp
  have "map_of m' k = Some (snd (m' ! i))"
    using c map_ok_distinct by (metis map_of_is_SomeI nth_mem surjective_pairing)
  then show "map_of (map_assign (<) dflt k f m) =
      (map_of m)(k \<mapsto> f (case map_of m k of None \<Rightarrow> dflt | Some v \<Rightarrow> v))"
    using map_of_set_value [OF map_ok_distinct [OF c(1)] c(2)] c a
    by (auto split: option.splits)
qed

lemma map_remove_keys: "keys_of (snd (map_remove lt k m)) = snd (set_remove lt k (keys_of m))"
  using lower_bound_inside [of "keys_of m" lt k]
  by (auto simp: map_remove_def multi_map_remove_one_def set_remove_def multi_remove_one_def
      Let_def map_lower_bound_keys keys_erase_range hd_map last_map)

lemma map_take_spec:
  assumes "map_ok m"
  shows "fst (map_take (<) k m) = map_of m k"
    and "map_ok (snd (map_take (<) k m))"
    and "map_of (snd (map_take (<) k m)) = (map_of m)(k := None)"
proof -
  let ?i = "map_find (<) k m"
  show "fst (map_take (<) k m) = map_of m k"
    using map_find_spec [OF assms, of k] by (simp add: map_take_def Let_def)
  show "map_ok (snd (map_take (<) k m))"
    using assms by (simp add: map_take_def Let_def keys_erase_range sorted_erase_range)
  show "map_of (snd (map_take (<) k m)) = (map_of m)(k := None)"
  proof (cases "?i = length m")
    case True
    then have "map_of m k = None" using map_find_spec [OF assms, of k] by simp
    then show ?thesis using True by (simp add: map_take_def fun_upd_idem)
  next
    case False
    have "k \<in> set (keys_of m)"
      using False set_find_eq [OF assms, of k] by (auto simp: map_find_keys split: if_splits)
    then have "?i < length m" "fst (m ! ?i) = k"
      using lower_bound_finds [OF assms, of k] set_find_eq [OF assms, of k]
      by (auto simp: map_find_keys)
    then show ?thesis
      using False map_of_drop_pair [OF map_ok_distinct [OF assms]] by (simp add: map_take_def Let_def)
  qed
qed

section \<open>The contract of a keyed container\<close>

locale keyed_map =
  fixes ok :: "'m \<Rightarrow> bool"
    and look :: "'m \<Rightarrow> 'k \<rightharpoonup> 'v"
    and assign :: "'v \<Rightarrow> 'k \<Rightarrow> ('v \<Rightarrow> 'v) \<Rightarrow> 'm \<Rightarrow> 'm"
    and take_out :: "'k \<Rightarrow> 'm \<Rightarrow> 'v option \<times> 'm"
  assumes ok_assign: "ok m \<Longrightarrow> ok (assign d k f m)"
    and look_assign: "ok m \<Longrightarrow>
      look (assign d k f m) = (look m)(k \<mapsto> f (case look m k of None \<Rightarrow> d | Some v \<Rightarrow> v))"
    and ok_take_out: "ok m \<Longrightarrow> ok (snd (take_out k m))"
    and take_out_value: "ok m \<Longrightarrow> fst (take_out k m) = look m k"
    and look_take_out: "ok m \<Longrightarrow> look (snd (take_out k m)) = (look m)(k := None)"
begin

lemma ok_fold_assign: "ok m \<Longrightarrow> ok (fold (\<lambda>(k, f). assign d k f) l m)"
  by (induction l arbitrary: m) (auto intro: ok_assign)

lemma assign_other: "ok m \<Longrightarrow> k' \<noteq> k \<Longrightarrow> look (assign d k f m) k' = look m k'"
  by (simp add: look_assign)

lemma take_after_assign:
  "ok m \<Longrightarrow> fst (take_out k (assign d k f m)) =
    Some (f (case look m k of None \<Rightarrow> d | Some v \<Rightarrow> v))"
  by (simp add: take_out_value ok_assign look_assign)

lemma take_twice: "ok m \<Longrightarrow> fst (take_out k (snd (take_out k m))) = None"
  by (simp add: take_out_value ok_take_out look_take_out)

end

interpretation flat_map: keyed_map
  "map_ok :: ('k::linorder, 'v) pairs \<Rightarrow> bool" map_of "map_assign (<)" "map_take (<)"
  by unfold_locales (simp_all add: map_assign_spec map_take_spec)

section \<open>Properties\<close>

text \<open>C23. \<open>flat_map\<close> is a partial function on its keys: \<open>find\<close> reads it, an assignment through
  \<open>operator[]\<close> updates it at one key (starting from the default value at a new key), \<open>take\<close>
  returns and deletes an entry, and every operation keeps the keys strictly sorted.\<close>

theorem flat_map_correct:
  fixes m :: "('k::linorder, 'v) pairs"
  assumes "map_ok m"
  shows "map_of m k = (let i = map_find (<) k m in if i = length m then None else Some (snd (m ! i)))
    \<and> map_ok (map_assign (<) dflt k f m)
    \<and> map_of (map_assign (<) dflt k f m) =
        (map_of m)(k \<mapsto> f (case map_of m k of None \<Rightarrow> dflt | Some v \<Rightarrow> v))
    \<and> fst (map_take (<) k m) = map_of m k \<and> map_ok (snd (map_take (<) k m))
    \<and> map_of (snd (map_take (<) k m)) = (map_of m)(k := None)"
  using map_find_spec [OF assms] flat_map.ok_assign [OF assms] flat_map.look_assign [OF assms]
    flat_map.take_out_value [OF assms] flat_map.ok_take_out [OF assms] flat_map.look_take_out [OF assms]
  by blast

theorem flat_map_correct_witness:
  "map_ok (map_assign (<) 0 2 (\<lambda>v. v + 1) [(1::int, 5), (3, 7::int)]) \<and>
   map_assign (<) 0 2 (\<lambda>v. v + 1) [(1::int, 5), (3, 7::int)] = [(1, 5), (2, 1), (3, 7)]"
proof
  have ok: "map_ok [(1::int, 5), (3, 7::int)]" by simp
  show "map_ok (map_assign (<) 0 2 (\<lambda>v. v + 1) [(1::int, 5), (3, 7::int)])"
    using flat_map_correct [OF ok, of 2 0 "\<lambda>v. v + 1"] by simp
  show "map_assign (<) 0 2 (\<lambda>v. v + 1) [(1::int, 5), (3, 7::int)] = [(1, 5), (2, 1), (3, 7)]"
    by (simp add: map_assign_def map_subscript_def map_lower_bound_def partition_index_def insert_at_def)
qed

end
