(* ===== verification/Slices.thy ===== *)
theory Slices
  imports Flat_Set
begin

text \<open>
  The slices of storage/storage_sparse_ids_list.cpp, which data/data_messages.cpp repeats for
  another kind of identifier: known stretches of a message history, each with the
  identifiers that are known to be in it. The definitions follow the code, over any ordered
  type of identifiers. The lemmas give the abstract view of a list of slices (for each
  identifier: unknown, known absent, known present), the invariant, and what merging a
  range into the list does to both.
\<close>

section \<open>Ranges and slices\<close>

record 'm msg_range =
  range_from :: 'm
  range_till :: 'm

record 'm slice =
  slice_messages :: "'m list"
  slice_range :: "'m msg_range"

abbreviation slice_from :: "'m slice \<Rightarrow> 'm" where
  "slice_from s \<equiv> range_from (slice_range s)"

abbreviation slice_till :: "'m slice \<Rightarrow> 'm" where
  "slice_till s \<equiv> range_till (slice_range s)"

text \<open>\<open>Slice::operator<\<close>\<close>

abbreviation slice_less :: "'m::linorder slice \<Rightarrow> 'm slice \<Rightarrow> bool" where
  "slice_less \<equiv> \<lambda>a b. slice_from a < slice_from b"

definition slice_merge ::
    "'m::linorder list \<Rightarrow> 'm msg_range \<Rightarrow> 'm slice \<Rightarrow> 'm slice outcome" where
  "slice_merge moreMessages moreNoSkipRange s =
     expects (range_from moreNoSkipRange \<le> slice_till s)
       (expects (slice_from s \<le> range_till moreNoSkipRange)
         (Inr \<lparr> slice_messages = set_merge (<) moreMessages (slice_messages s),
                slice_range = \<lparr> range_from = min (slice_from s) (range_from moreNoSkipRange),
                                range_till = max (slice_till s) (range_till moreNoSkipRange) \<rparr> \<rparr>))"

text \<open>\<open>flat_set::modify\<close> with an action that an assertion can stop.\<close>

definition modify_slice ::
    "nat \<Rightarrow> ('m::linorder slice \<Rightarrow> 'm slice outcome) \<Rightarrow> 'm slice list \<Rightarrow> 'm slice list outcome" where
  "modify_slice i action slices =
     bind_outcome (action (slices ! i)) (\<lambda>s. Inr (set_modify slice_less i (\<lambda>_. s) slices))"

text \<open>The loop of \<open>uniteAndAdd\<close> over the slices after the first one.\<close>

fun unite_following :: "nat \<Rightarrow> nat list \<Rightarrow> 'm::linorder slice list \<Rightarrow> 'm slice list outcome" where
  "unite_following uniteFrom [] slices = Inr slices"
| "unite_following uniteFrom (it # its) slices =
     bind_outcome
       (modify_slice uniteFrom
          (slice_merge (slice_messages (slices ! it)) (slice_range (slices ! it))) slices)
       (unite_following uniteFrom its)"

text \<open>
  What \<open>uniteAndAdd\<close> does to the slices: merge the range into the first slice, then the other
  slices of \<open>[uniteFrom, uniteTill)\<close> into it, then erase those.
\<close>

definition unite_slices ::
    "nat \<Rightarrow> nat \<Rightarrow> 'm::linorder list \<Rightarrow> 'm msg_range \<Rightarrow> 'm slice list \<Rightarrow> 'm slice list outcome" where
  "unite_slices uniteFrom uniteTill messages noSkipRange slices =
     bind_outcome (modify_slice uniteFrom (slice_merge messages noSkipRange) slices)
       (\<lambda>merged.
          if Suc uniteFrom \<noteq> uniteTill
          then bind_outcome (unite_following uniteFrom [Suc uniteFrom ..< uniteTill] merged)
                 (\<lambda>united. Inr (erase_range (Suc uniteFrom) uniteTill united))
          else Inr merged)"

text \<open>Searching by the end and by the start of the slices' ranges.\<close>

definition lower_bound_till :: "'m::linorder \<Rightarrow> 'm slice list \<Rightarrow> nat" where
  "lower_bound_till m slices = partition_index (\<lambda>s. slice_till s < m) slices"

definition upper_bound_from :: "'m::linorder \<Rightarrow> 'm slice list \<Rightarrow> nat" where
  "upper_bound_from m slices = partition_index (\<lambda>s. \<not> m < slice_from s) slices"

section \<open>The abstract view\<close>

abbreviation in_range :: "'m::linorder \<Rightarrow> 'm msg_range \<Rightarrow> bool" where
  "in_range m r \<equiv> range_from r \<le> m \<and> m \<le> range_till r"

definition slices_view :: "'m::linorder slice list \<Rightarrow> 'm \<Rightarrow> bool option" where
  "slices_view slices m =
     (if \<exists>s\<in>set slices. in_range m (slice_range s)
      then Some (\<exists>s\<in>set slices. m \<in> set (slice_messages s)) else None)"

definition view_add :: "'m::linorder list \<Rightarrow> 'm msg_range \<Rightarrow> ('m \<Rightarrow> bool option) \<Rightarrow> 'm \<Rightarrow> bool option" where
  "view_add msgs r v m = (if in_range m r then Some (m \<in> set msgs \<or> v m = Some True) else v m)"

definition slice_ok :: "'m::linorder slice \<Rightarrow> bool" where
  "slice_ok s \<longleftrightarrow> strictly_sorted (slice_messages s) \<and> slice_from s \<le> slice_till s \<and>
     (\<forall>m\<in>set (slice_messages s). in_range m (slice_range s))"

definition slices_ok :: "'m::linorder slice list \<Rightarrow> bool" where
  "slices_ok slices \<longleftrightarrow> (\<forall>s\<in>set slices. slice_ok s) \<and>
     sorted_wrt (\<lambda>a b. slice_till a < slice_from b) slices"

lemma slice_ok_range: "slice_ok s \<Longrightarrow> slice_from s \<le> slice_till s"
  by (simp add: slice_ok_def)

lemma slices_ok_Nil [simp]: "slices_ok []"
  by (simp add: slices_ok_def)

lemma slices_ok_append:
  "slices_ok (xs @ ys) \<longleftrightarrow> slices_ok xs \<and> slices_ok ys \<and>
     (\<forall>a\<in>set xs. \<forall>b\<in>set ys. slice_till a < slice_from b)"
  by (auto simp: slices_ok_def sorted_wrt_append)

lemma slices_ok_Cons:
  "slices_ok (s # ys) \<longleftrightarrow> slice_ok s \<and> slices_ok ys \<and> (\<forall>b\<in>set ys. slice_till s < slice_from b)"
  by (auto simp: slices_ok_def)

lemma slices_sorted_by_from: "slices_ok xs \<Longrightarrow> sorted_wrt slice_less xs"
proof (induction xs)
  case (Cons s xs)
  then show ?case
    by (auto simp: slices_ok_Cons dest: slice_ok_range intro: le_less_trans)
qed simp

lemma slices_view_append:
  "slices_view (xs @ ys) m =
     (case slices_view xs m of None \<Rightarrow>
        (case slices_view ys m of None \<Rightarrow> None
         | Some b \<Rightarrow> Some (b \<or> (\<exists>s\<in>set xs. m \<in> set (slice_messages s))))
      | Some b \<Rightarrow> Some (b \<or> (\<exists>s\<in>set ys. m \<in> set (slice_messages s))))"
  by (auto simp: slices_view_def)

lemma in_hull:
  assumes "range_from r \<le> range_till q" "range_from q \<le> range_till r"
  shows "in_range (m::'m::linorder)
      \<lparr> range_from = min (range_from q) (range_from r), range_till = max (range_till q) (range_till r) \<rparr>
    \<longleftrightarrow> in_range m q \<or> in_range m r"
  using assms by (auto simp: min_def max_def)

section \<open>Merging a range into the list\<close>

definition slice_absorb :: "'m::linorder slice \<Rightarrow> 'm slice \<Rightarrow> 'm slice" where
  "slice_absorb s c =
     \<lparr> slice_messages = set_merge (<) (slice_messages s) (slice_messages c),
       slice_range = \<lparr> range_from = min (slice_from c) (slice_from s),
                       range_till = max (slice_till c) (slice_till s) \<rparr> \<rparr>"

lemma slice_merge_eq:
  assumes "slice_from s \<le> slice_till c" "slice_from c \<le> slice_till s"
  shows "slice_merge (slice_messages s) (slice_range s) c = Inr (slice_absorb s c)"
  using assms by (simp add: slice_merge_def slice_absorb_def)

lemma slice_absorb_ok:
  assumes "slice_ok s" "slice_ok c"
  shows "slice_ok (slice_absorb s c)"
  using assms by (auto simp: slice_ok_def slice_absorb_def min_le_iff_disj le_max_iff_disj)

lemma modify_slice_append:
  assumes "sorted_wrt slice_less (as @ c # bs)" "action c = Inr c'"
    and "\<forall>a\<in>set as. slice_from a < slice_from c'" "\<forall>b\<in>set bs. slice_from c' < slice_from b"
  shows "modify_slice (length as) action (as @ c # bs) = Inr (as @ c' # bs)"
proof -
  have "set_modify slice_less (length as) (\<lambda>_. c') (as @ c # bs) = as @ c' # bs"
    using key_less.set_modify_split [where k = slice_from and action = "\<lambda>_. c'", OF assms(1) refl]
      assms(3,4) by (auto dest: less_not_sym)
  then show ?thesis using assms(2) by (simp add: modify_slice_def)
qed

lemma unite_following_append:
  assumes "sorted_wrt slice_less (pre @ c # don @ todo @ post)"
    and "\<forall>s\<in>set todo. slice_from s \<le> slice_till c \<and> slice_from c \<le> slice_till s"
    and "\<forall>a\<in>set pre. \<forall>s\<in>set (c # todo). slice_from a < slice_from s"
    and "\<forall>b\<in>set (don @ todo @ post). slice_from c < slice_from b"
  shows "unite_following (length pre)
      [Suc (length pre + length don) ..< Suc (length pre + length don + length todo)]
      (pre @ c # don @ todo @ post)
    = Inr (pre @ fold slice_absorb todo c # don @ todo @ post)"
  using assms
proof (induction todo arbitrary: c don)
  case (Cons s todo)
  let ?c = "slice_absorb s c" and ?k = "Suc (length pre + length don)"
  have upt: "[?k ..< Suc (length pre + length don + length (s # todo))] =
      ?k # [Suc (length pre + length (don @ [s])) ..< Suc (length pre + length (don @ [s]) + length todo)]"
    by (subst upt_conv_Cons) simp_all
  have nth: "(pre @ c # don @ (s # todo) @ post) ! ?k = s"
    using nth_append_length [of "pre @ c # don" s "todo @ post"] by simp
  have from_c: "slice_from ?c \<le> slice_from c" and till_c: "slice_till c \<le> slice_till ?c"
    by (simp_all add: slice_absorb_def)
  have step: "modify_slice (length pre) (slice_merge (slice_messages s) (slice_range s))
      (pre @ c # don @ (s # todo) @ post) = Inr (pre @ ?c # don @ (s # todo) @ post)"
  proof (rule modify_slice_append [OF Cons.prems(1)])
    show "slice_merge (slice_messages s) (slice_range s) c = Inr ?c"
      using Cons.prems(2) by (simp add: slice_merge_eq)
    show "\<forall>a\<in>set pre. slice_from a < slice_from ?c"
      using Cons.prems(3) by (auto simp: slice_absorb_def)
    show "\<forall>b\<in>set (don @ (s # todo) @ post). slice_from ?c < slice_from b"
      using Cons.prems(4) from_c by (auto intro: le_less_trans)
  qed
  have sorted: "sorted_wrt slice_less (pre @ ?c # (don @ [s]) @ todo @ post)"
    using Cons.prems(1,3,4) from_c
    by (auto simp: sorted_wrt_append slice_absorb_def intro: le_less_trans)
  have "unite_following (length pre)
      [Suc (length pre + length (don @ [s])) ..< Suc (length pre + length (don @ [s]) + length todo)]
      (pre @ ?c # (don @ [s]) @ todo @ post)
    = Inr (pre @ fold slice_absorb todo ?c # (don @ [s]) @ todo @ post)"
  proof (rule Cons.IH [OF sorted])
    show "\<forall>s'\<in>set todo. slice_from s' \<le> slice_till ?c \<and> slice_from ?c \<le> slice_till s'"
      using Cons.prems(2) from_c till_c by (meson list.set_intros(2) order_trans)
    show "\<forall>a\<in>set pre. \<forall>s'\<in>set (?c # todo). slice_from a < slice_from s'"
      using Cons.prems(3) by (auto simp: slice_absorb_def)
    show "\<forall>b\<in>set ((don @ [s]) @ todo @ post). slice_from ?c < slice_from b"
      using Cons.prems(4) from_c by (auto intro: le_less_trans)
  qed
  then show ?case
    unfolding upt by (simp only: unite_following.simps nth step bind_outcome.simps) simp
qed simp

lemma unite_slices_append:
  fixes new :: "'m::linorder slice"
  assumes sorted: "sorted_wrt slice_less (pre @ m0 # ms @ post)"
    and new: "new = \<lparr> slice_messages = set_from_range (<) msgs, slice_range = r \<rparr>"
    and ok: "slice_ok m0"
    and overlap: "\<forall>s\<in>set (m0 # ms). slice_from s \<le> range_till r \<and> range_from r \<le> slice_till s"
    and pre: "\<forall>a\<in>set pre. slice_from a < range_from r"
  shows "unite_slices (length pre) (length pre + Suc (length ms)) msgs r (pre @ m0 # ms @ post)
    = Inr (pre @ fold slice_absorb (new # ms) m0 # post)"
proof -
  let ?c = "slice_absorb new m0"
  have merge: "slice_merge msgs r m0 = Inr ?c"
    using overlap ids.ok_add ids.elems_add ids.ext [of "set_merge (<) msgs (slice_messages m0)"]
    by (auto simp: slice_merge_def slice_absorb_def new)
  have from_c: "slice_from ?c \<le> slice_from m0" "slice_from ?c \<le> range_from r"
    and till_c: "slice_till m0 \<le> slice_till ?c" "range_till r \<le> slice_till ?c"
    by (simp_all add: slice_absorb_def new)
  have after: "\<forall>b\<in>set (ms @ post). slice_from m0 < slice_from b"
    using sorted by (auto simp: sorted_wrt_append)
  have before: "\<forall>a\<in>set pre. slice_from a < slice_from ?c"
    using sorted pre by (auto simp: slice_absorb_def new sorted_wrt_append)
  have first: "modify_slice (length pre) (slice_merge msgs r) (pre @ m0 # ms @ post)
      = Inr (pre @ ?c # ms @ post)"
    by (rule modify_slice_append [where action = "slice_merge msgs r", OF sorted merge])
      (use before after from_c in \<open>auto intro: le_less_trans\<close>)
  have sorted_c: "sorted_wrt slice_less (pre @ ?c # [] @ ms @ post)"
    using sorted before after from_c by (auto simp: sorted_wrt_append intro: le_less_trans)
  have "unite_following (length pre)
      [Suc (length pre + length ([]::'m slice list)) ..<
       Suc (length pre + length ([]::'m slice list) + length ms)] (pre @ ?c # [] @ ms @ post)
    = Inr (pre @ fold slice_absorb ms ?c # [] @ ms @ post)"
  proof (rule unite_following_append [OF sorted_c])
    show "\<forall>s\<in>set ms. slice_from s \<le> slice_till ?c \<and> slice_from ?c \<le> slice_till s"
      using overlap from_c till_c by (meson list.set_intros(2) order_trans)
    show "\<forall>a\<in>set pre. \<forall>s\<in>set (?c # ms). slice_from a < slice_from s"
      using before sorted by (auto simp: sorted_wrt_append)
    show "\<forall>b\<in>set ([] @ ms @ post). slice_from ?c < slice_from b"
      using after from_c by (auto intro: le_less_trans)
  qed
  then have rest: "unite_following (length pre) [Suc (length pre) ..< length pre + Suc (length ms)]
      (pre @ ?c # ms @ post) = Inr (pre @ fold slice_absorb ms ?c # ms @ post)"
    by simp
  have erase: "erase_range (Suc (length pre)) (length pre + Suc (length ms))
      (pre @ d # ms @ post) = pre @ d # post" for d
    by (simp add: erase_range_def)
  show ?thesis
  proof (cases "ms = []")
    case True
    then show ?thesis using first by (simp add: unite_slices_def)
  next
    case False
    then show ?thesis
      by (simp only: unite_slices_def first bind_outcome.simps rest erase fold_simps) simp
  qed
qed

text \<open>What the slices absorbed into one another are.\<close>

lemma fold_absorb_spec:
  assumes "slice_ok c" "\<forall>s\<in>set todo. slice_ok s"
    "\<forall>s\<in>set todo. slice_from s \<le> slice_till c \<and> slice_from c \<le> slice_till s"
  shows "slice_ok (fold slice_absorb todo c) \<and>
    (\<forall>m. in_range m (slice_range (fold slice_absorb todo c)) \<longleftrightarrow>
      in_range m (slice_range c) \<or> (\<exists>s\<in>set todo. in_range m (slice_range s))) \<and>
    set (slice_messages (fold slice_absorb todo c)) =
      set (slice_messages c) \<union> (\<Union>s\<in>set todo. set (slice_messages s))"
  using assms
proof (induction todo arbitrary: c)
  case (Cons s todo)
  let ?c = "slice_absorb s c"
  have hull: "in_range m (slice_range ?c) \<longleftrightarrow> in_range m (slice_range c) \<or> in_range m (slice_range s)" for m
    using Cons.prems in_hull [of "slice_range s" "slice_range c" m] by (simp add: slice_absorb_def)
  have c: "slice_ok ?c" using Cons.prems by (simp add: slice_absorb_ok)
  have grow: "slice_from ?c \<le> slice_from c" "slice_till c \<le> slice_till ?c"
    by (simp_all add: slice_absorb_def)
  have overlap: "\<forall>s\<in>set todo. slice_from s \<le> slice_till ?c \<and> slice_from ?c \<le> slice_till s"
    using Cons.prems(3) grow by (meson list.set_intros(2) order_trans)
  have msgs: "set (slice_messages ?c) = set (slice_messages c) \<union> set (slice_messages s)"
    by (simp add: slice_absorb_def)
  show ?case
    using Cons.IH [OF c _ overlap] Cons.prems(2) hull msgs by simp blast
qed simp

text \<open>How a range cuts a good list of slices.\<close>

lemma slices_split:
  fixes xs :: "'m::linorder slice list"
  assumes ok: "slices_ok xs" and r: "range_from r \<le> range_till r"
  obtains pre mid post where "xs = pre @ mid @ post"
    "lower_bound_till (range_from r) xs = length pre"
    "upper_bound_from (range_till r) xs = length pre + length mid"
    "\<forall>s\<in>set pre. slice_till s < range_from r"
    "\<forall>s\<in>set mid. slice_from s \<le> range_till r \<and> range_from r \<le> slice_till s"
    "\<forall>s\<in>set post. range_till r < slice_from s"
proof -
  let ?P = "\<lambda>s. slice_till s < range_from r" and ?Q = "\<lambda>s. \<not> range_till r < slice_from s"
  define pre mid post where "pre = takeWhile ?P xs" and "mid = takeWhile ?Q (dropWhile ?P xs)"
    and "post = dropWhile ?Q (dropWhile ?P xs)"
  have xs: "xs = pre @ mid @ post" by (simp add: pre_def mid_def post_def)
  have sorted: "sorted_wrt slice_less xs" by (rule slices_sorted_by_from [OF ok])
  have by_till: "sorted_wrt (\<lambda>a b. slice_till a < slice_till b) xs"
  proof (rule sorted_wrt_mono_rel [rotated])
    show "sorted_wrt (\<lambda>a b. slice_till a < slice_from b) xs" using ok by (simp add: slices_ok_def)
    show "slice_till a < slice_till b" if "a \<in> set xs" "b \<in> set xs" "slice_till a < slice_from b" for a b
      using that ok slice_ok_range unfolding slices_ok_def by (meson less_le_trans)
  qed
  have pre: "\<forall>s\<in>set pre. ?P s" unfolding pre_def by (auto dest: set_takeWhileD)
  have not_pre: "\<forall>s\<in>set (dropWhile ?P xs). \<not> ?P s"
    using dropWhile_key_less [OF by_till] by (auto simp: not_less)
  have mid: "\<forall>s\<in>set mid. ?Q s" unfolding mid_def by (auto dest: set_takeWhileD)
  have sub: "set mid \<subseteq> set (dropWhile ?P xs)"
    unfolding mid_def by (auto dest: set_takeWhileD)
  have "sorted_wrt slice_less (dropWhile ?P xs)"
    using sorted by (metis sorted_wrt_append takeWhile_dropWhile_id)
  then have post: "\<forall>s\<in>set post. \<not> ?Q s"
    unfolding post_def
    using dropWhile_key_le [of slice_from "dropWhile ?P xs"] by blast
  have preQ: "\<forall>s\<in>set pre. ?Q s"
  proof
    fix s assume "s \<in> set pre"
    then have "slice_from s \<le> slice_till s" "slice_till s < range_from r"
      using pre ok xs slice_ok_range unfolding slices_ok_def by auto
    then have "slice_from s < range_till r" using r by (meson le_less_trans less_le_trans)
    then show "?Q s" by simp
  qed
  have "takeWhile ?Q xs = pre @ mid"
    unfolding xs using preQ mid post by (cases post) (auto simp: takeWhile_append2 takeWhile_tail)
  then have "upper_bound_from (range_till r) xs = length pre + length mid"
    by (simp add: upper_bound_from_def partition_index_def)
  moreover have "lower_bound_till (range_from r) xs = length pre"
    by (simp add: lower_bound_till_def partition_index_def pre_def)
  ultimately show thesis
    using that [OF xs] pre mid post not_pre sub by (meson leI subsetD)
qed

lemma slices_view_replace:
  fixes new :: "'m::linorder slice"
  assumes ok: "slices_ok xs" and xs: "xs = pre @ mid @ post"
    and msgs: "\<forall>m\<in>set msgs. in_range m r"
    and ranges: "\<forall>m. in_range m (slice_range final) \<longleftrightarrow>
      in_range m r \<or> (\<exists>s\<in>set mid. in_range m (slice_range s))"
    and messages: "set (slice_messages final) = set msgs \<union> (\<Union>s\<in>set mid. set (slice_messages s))"
  shows "slices_view (pre @ final # post) = view_add msgs r (slices_view xs)"
proof (rule ext)
  fix m
  have covered: "(\<exists>s\<in>set (pre @ final # post). in_range m (slice_range s)) \<longleftrightarrow>
      in_range m r \<or> (\<exists>s\<in>set xs. in_range m (slice_range s))"
    using ranges xs by auto
  have present: "(\<exists>s\<in>set (pre @ final # post). m \<in> set (slice_messages s)) \<longleftrightarrow>
      m \<in> set msgs \<or> (\<exists>s\<in>set xs. m \<in> set (slice_messages s))"
    using messages xs by auto
  have inside: "(\<exists>s\<in>set xs. m \<in> set (slice_messages s)) \<longrightarrow> (\<exists>s\<in>set xs. in_range m (slice_range s))"
    using ok by (auto simp: slices_ok_def slice_ok_def)
  show "slices_view (pre @ final # post) m = view_add msgs r (slices_view xs) m"
    unfolding slices_view_def view_add_def covered present
    using inside msgs by auto
qed

lemma slices_replace_ok:
  assumes "slices_ok (pre @ mid @ post)" "slice_ok final"
    and "\<forall>m. in_range m (slice_range final) \<longleftrightarrow>
      in_range m r \<or> (\<exists>s\<in>set mid. in_range m (slice_range s))"
    and "\<forall>s\<in>set pre. slice_till s < range_from r" "\<forall>s\<in>set post. range_till r < slice_from s"
  shows "slices_ok (pre @ final # post)"
proof -
  have "in_range (slice_from final) (slice_range final)" "in_range (slice_till final) (slice_range final)"
    using assms(2) by (auto simp: slice_ok_def)
  then have low: "in_range (slice_from final) r \<or>
      (\<exists>s\<in>set mid. in_range (slice_from final) (slice_range s))"
    and high: "in_range (slice_till final) r \<or>
      (\<exists>s\<in>set mid. in_range (slice_till final) (slice_range s))"
    using assms(3) by blast+
  have around: "\<forall>a\<in>set pre. \<forall>b\<in>set mid. slice_till a < slice_from b"
    "\<forall>a\<in>set mid. \<forall>b\<in>set post. slice_till a < slice_from b"
    using assms(1) by (auto simp: slices_ok_append)
  have "\<forall>s\<in>set pre. slice_till s < slice_from final"
    using low assms(4) around(1) by (meson less_le_trans)
  moreover have "\<forall>s\<in>set post. slice_till final < slice_from s"
    using high assms(5) around(2) by (meson le_less_trans)
  moreover have "\<forall>a\<in>set pre. \<forall>b\<in>set post. slice_till a < slice_from b"
    using assms(1) by (auto simp: slices_ok_append)
  ultimately show ?thesis
    using assms(1,2) by (auto simp: slices_ok_append slices_ok_Cons)
qed

text \<open>The two branches of \<open>addRangeItemsAndCountNew\<close>.\<close>

lemma unite_slices_spec:
  fixes xs :: "'m::linorder slice list"
  assumes ok: "slices_ok xs" and r: "range_from r \<le> range_till r"
    and msgs: "\<forall>m\<in>set msgs. in_range m r"
    and lt: "lower_bound_till (range_from r) xs < upper_bound_from (range_till r) xs"
  obtains xs' where
    "unite_slices (lower_bound_till (range_from r) xs) (upper_bound_from (range_till r) xs) msgs r xs
      = Inr xs'"
    "slices_ok xs'" "slices_view xs' = view_add msgs r (slices_view xs)"
    "lower_bound_till (range_from r) xs < length xs'"
    "\<forall>m. in_range m r \<longrightarrow>
      in_range m (slice_range (xs' ! lower_bound_till (range_from r) xs))"
proof -
  from slices_split [OF ok r] obtain pre mid post where s: "xs = pre @ mid @ post"
    "lower_bound_till (range_from r) xs = length pre"
    "upper_bound_from (range_till r) xs = length pre + length mid"
    "\<forall>s\<in>set pre. slice_till s < range_from r"
    "\<forall>s\<in>set mid. slice_from s \<le> range_till r \<and> range_from r \<le> slice_till s"
    "\<forall>s\<in>set post. range_till r < slice_from s" by blast
  obtain m0 ms where mid: "mid = m0 # ms" using lt s(2,3) by (cases mid) auto
  define new where "new = \<lparr> slice_messages = set_from_range (<) msgs, slice_range = r \<rparr>"
  define final where "final = fold slice_absorb (new # ms) m0"
  have new_ok: "slice_ok new" using r msgs by (simp add: new_def slice_ok_def)
  have oks: "\<forall>s\<in>set mid. slice_ok s" "\<forall>s\<in>set pre. slice_ok s"
    using ok s(1) by (auto simp: slices_ok_def)
  have pre_from: "\<forall>a\<in>set pre. slice_from a < range_from r"
    using oks(2) s(4) slice_ok_range by (meson le_less_trans)
  have sorted: "sorted_wrt slice_less (pre @ m0 # ms @ post)"
    using slices_sorted_by_from [OF ok] s(1) mid by simp
  have run: "unite_slices (length pre) (length pre + Suc (length ms)) msgs r (pre @ m0 # ms @ post)
    = Inr (pre @ final # post)"
    unfolding final_def
    by (rule unite_slices_append [OF sorted new_def]) (use oks mid s(5) pre_from in auto)
  let ?c = "slice_absorb new m0"
  have grow: "slice_from ?c \<le> range_from r" "range_till r \<le> slice_till ?c"
    by (simp_all add: slice_absorb_def new_def)
  have c: "slice_ok ?c" using new_ok oks mid by (simp add: slice_absorb_ok)
  have c_range: "in_range m (slice_range ?c) \<longleftrightarrow> in_range m (slice_range m0) \<or> in_range m r" for m
    using in_hull [of r "slice_range m0" m] s(5) mid by (simp add: slice_absorb_def new_def)
  have "\<forall>s\<in>set ms. slice_from s \<le> slice_till ?c \<and> slice_from ?c \<le> slice_till s"
    using s(5) mid grow by (meson list.set_intros(2) order_trans)
  then have fold: "slice_ok final \<and>
      (\<forall>m. in_range m (slice_range final) \<longleftrightarrow>
        in_range m (slice_range ?c) \<or> (\<exists>s\<in>set ms. in_range m (slice_range s))) \<and>
      set (slice_messages final) = set (slice_messages ?c) \<union> (\<Union>s\<in>set ms. set (slice_messages s))"
    using fold_absorb_spec [OF c, of ms] oks mid by (simp add: final_def)
  have ranges: "\<forall>m. in_range m (slice_range final) \<longleftrightarrow>
      in_range m r \<or> (\<exists>s\<in>set mid. in_range m (slice_range s))"
    using fold c_range mid by auto
  have messages: "set (slice_messages final) = set msgs \<union> (\<Union>s\<in>set mid. set (slice_messages s))"
    using fold mid by (auto simp: slice_absorb_def new_def)
  show thesis
  proof (rule that)
    show "unite_slices (lower_bound_till (range_from r) xs) (upper_bound_from (range_till r) xs)
        msgs r xs = Inr (pre @ final # post)"
      using run mid by (simp only: s(2,3)) (simp add: s(1))
    show "slices_ok (pre @ final # post)"
      using slices_replace_ok [of pre mid post final r] ok s fold ranges by simp
    show "slices_view (pre @ final # post) = view_add msgs r (slices_view xs)"
      by (rule slices_view_replace [OF ok s(1) msgs ranges messages])
    show "lower_bound_till (range_from r) xs < length (pre @ final # post)" by (simp add: s(2))
    show "\<forall>m. in_range m r \<longrightarrow>
        in_range m (slice_range ((pre @ final # post) ! lower_bound_till (range_from r) xs))"
      using ranges by (simp add: s(2))
  qed
qed

lemma emplace_slice_spec:
  fixes xs :: "'m::linorder slice list"
  assumes ok: "slices_ok xs" and r: "range_from r \<le> range_till r"
    and msgs: "\<forall>m\<in>set msgs. in_range m r"
    and ge: "\<not> lower_bound_till (range_from r) xs < upper_bound_from (range_till r) xs"
    and new: "new = \<lparr> slice_messages = set_from_range (<) msgs, slice_range = r \<rparr>"
  obtains pre post where "xs = pre @ post"
    "set_insert slice_less new xs = (pre @ new # post, length pre, True)"
    "slices_ok (pre @ new # post)" "slices_view (pre @ new # post) = view_add msgs r (slices_view xs)"
proof -
  from slices_split [OF ok r] obtain pre mid post where s: "xs = pre @ mid @ post"
    "lower_bound_till (range_from r) xs = length pre"
    "upper_bound_from (range_till r) xs = length pre + length mid"
    "\<forall>s\<in>set pre. slice_till s < range_from r"
    "\<forall>s\<in>set mid. slice_from s \<le> range_till r \<and> range_from r \<le> slice_till s"
    "\<forall>s\<in>set post. range_till r < slice_from s" by blast
  have mid: "mid = []" using ge s(2,3) by simp
  have new_ok: "slice_ok new" using r msgs by (simp add: new slice_ok_def)
  have pre_from: "\<forall>a\<in>set pre. slice_from a < slice_from new"
    using ok s(1,4) slice_ok_range by (auto simp: new slices_ok_def intro: le_less_trans)
  have post_from: "\<forall>b\<in>set post. slice_from new < slice_from b"
    using r s(6) by (auto simp: new intro: le_less_trans)
  show thesis
  proof (rule that [of pre post])
    show "xs = pre @ post" using s(1) mid by simp
    show "set_insert slice_less new xs = (pre @ new # post, length pre, True)"
      using key_less.set_insert_append [where k = slice_from, OF pre_from post_from] s(1) mid by simp
    show "slices_ok (pre @ new # post)"
      using slices_replace_ok [of pre mid post new r] ok s new_ok mid by (simp add: new)
    show "slices_view (pre @ new # post) = view_add msgs r (slices_view xs)"
      by (rule slices_view_replace [OF ok s(1) msgs]) (simp_all add: new mid)
  qed
qed

text \<open>Finding the slice a single identifier is in.\<close>

lemma slices_disjoint:
  assumes "slices_ok (pre @ s # post)" "in_range m (slice_range s)" "t \<in> set pre \<union> set post"
  shows "\<not> in_range m (slice_range t)"
  using assms by (fastforce simp: slices_ok_append slices_ok_Cons)

lemma find_slice:
  fixes xs :: "'m::linorder slice list"
  assumes ok: "slices_ok xs"
  shows "(\<exists>pre s post. xs = pre @ s # post \<and> lower_bound_till m xs = length pre \<and>
            in_range m (slice_range s)) \<or>
         ((\<forall>s\<in>set xs. \<not> in_range m (slice_range s)) \<and>
          (lower_bound_till m xs = length xs \<or> m < slice_from (xs ! lower_bound_till m xs)))"
proof -
  let ?r = "\<lparr> range_from = m, range_till = m \<rparr>"
  have r: "range_from ?r \<le> range_till ?r" by simp
  from slices_split [OF ok r] obtain pre mid post where cut: "xs = pre @ mid @ post"
    "lower_bound_till (range_from ?r) xs = length pre"
    "upper_bound_from (range_till ?r) xs = length pre + length mid"
    "\<forall>s\<in>set pre. slice_till s < range_from ?r"
    "\<forall>s\<in>set mid. slice_from s \<le> range_till ?r \<and> range_from ?r \<le> slice_till s"
    "\<forall>s\<in>set post. range_till ?r < slice_from s" by blast
  note s = cut(1) cut(2,4,5,6) [simplified]
  show ?thesis
  proof (cases mid)
    case Nil
    then have "\<forall>s\<in>set xs. \<not> in_range m (slice_range s)" using s by force
    moreover have "length pre = length xs \<or> m < slice_from (xs ! length pre)"
      using s Nil by (cases post) (auto simp: nth_append)
    ultimately show ?thesis using s(2) by simp
  next
    case (Cons t ms)
    then show ?thesis using s by (metis append_Cons list.set_intros(1))
  qed
qed

text \<open>Changing one slice in place.\<close>

lemma slices_change_one:
  assumes ok: "slices_ok (pre @ s # post)" and s': "slice_ok s'"
    and range: "slice_from s' = slice_from s" "slice_till s' \<le> slice_till s"
  shows "slices_ok (pre @ s' # post)"
  using assms by (auto simp: slices_ok_append slices_ok_Cons intro: le_less_trans)

lemma modify_one_slice:
  assumes "slices_ok (pre @ s # post)" "slice_from (f s) = slice_from s"
  shows "set_modify slice_less (length pre) f (pre @ s # post) = pre @ f s # post"
proof -
  have "sorted_wrt slice_less (pre @ s # post)" by (rule slices_sorted_by_from [OF assms(1)])
  then show ?thesis
    using key_less.set_modify_split [where k = slice_from and action = f and as = pre and bs = post, OF _ refl]
      assms(2) by (auto simp: sorted_wrt_append dest: less_not_sym)
qed

lemma slices_view_same_ranges:
  assumes ok: "slices_ok (pre @ s # post)" and range: "slice_range s' = slice_range s"
    and msgs: "set (slice_messages s') = set (slice_messages s) - {m}" and m: "in_range m (slice_range s)"
  shows "slices_view (pre @ s' # post) =
    (slices_view (pre @ s # post))(m := Some False)"
proof (rule ext)
  fix x
  have "m \<notin> set (slice_messages t)" if "t \<in> set pre \<union> set post" for t
    using slices_disjoint [OF ok m that] ok that
    by (auto simp: slices_ok_append slices_ok_Cons slices_ok_def slice_ok_def)
  then show "slices_view (pre @ s' # post) x = ((slices_view (pre @ s # post))(m := Some False)) x"
    using m by (auto simp: slices_view_def range msgs)
qed

lemma slices_view_None_iff:
  "slices_view xs m = None \<longleftrightarrow> (\<forall>s\<in>set xs. \<not> in_range m (slice_range s))"
  by (simp add: slices_view_def)

lemma slices_view_in_slice:
  assumes ok: "slices_ok (pre @ s # post)" and m: "in_range m (slice_range s)"
  shows "slices_view (pre @ s # post) m = Some (m \<in> set (slice_messages s))"
proof -
  have "m \<notin> set (slice_messages t)" if "t \<in> set pre \<union> set post" for t
    using slices_disjoint [OF ok m that] ok that
    by (auto simp: slices_ok_append slices_ok_Cons slices_ok_def slice_ok_def)
  then show ?thesis using m by (auto simp: slices_view_def)
qed

end
