(* ===== verification/Data_Types.thy ===== *)
theory Data_Types
  imports Prelude "HOL-Library.Word"
begin

unbundle bit_operations_syntax

text \<open>
  data/data_types.h and the small types of data/data_messages.h: peer identifiers, message
  identifiers, the position of a message in a merged history, load directions. A \<open>PeerId\<close> is
  the 64-bit word of the code. An \<open>int32\<close> that the code only stores and compares (a message,
  channel or user identifier, a date) is an \<open>int\<close>; it is cut to 32 bits where the code
  converts it.
\<close>

section \<open>Peer identifiers\<close>

type_synonym peer_id = "64 word"
type_synonym channel_id = int
type_synonym msg_id = int
type_synonym time_id = int

definition NoChannel :: channel_id where
  "NoChannel = 0"

definition PeerIdMask :: peer_id where
  "PeerIdMask = 0xFFFFFFFF"

definition PeerIdTypeMask :: peer_id where
  "PeerIdTypeMask = 0x300000000"

definition PeerIdUserShift :: peer_id where
  "PeerIdUserShift = 0x000000000"

definition PeerIdChatShift :: peer_id where
  "PeerIdChatShift = 0x100000000"

definition PeerIdChannelShift :: peer_id where
  "PeerIdChannelShift = 0x200000000"

definition peerIsUser :: "peer_id \<Rightarrow> bool" where
  "peerIsUser i \<longleftrightarrow> i AND PeerIdTypeMask = PeerIdUserShift"

definition peerIsChat :: "peer_id \<Rightarrow> bool" where
  "peerIsChat i \<longleftrightarrow> i AND PeerIdTypeMask = PeerIdChatShift"

definition peerIsChannel :: "peer_id \<Rightarrow> bool" where
  "peerIsChannel i \<longleftrightarrow> i AND PeerIdTypeMask = PeerIdChannelShift"

text \<open>\<open>uint64(uint32(x))\<close> and \<open>int32(uint32(x))\<close>.\<close>

definition bare_to_uint64 :: "int \<Rightarrow> 64 word" where
  "bare_to_uint64 x = ucast (word_of_int x :: 32 word)"

definition peerFromUser :: "int \<Rightarrow> peer_id" where
  "peerFromUser user_id = PeerIdUserShift OR bare_to_uint64 user_id"

definition peerFromChat :: "int \<Rightarrow> peer_id" where
  "peerFromChat chat_id = PeerIdChatShift OR bare_to_uint64 chat_id"

definition peerFromChannel :: "channel_id \<Rightarrow> peer_id" where
  "peerFromChannel channel_id = PeerIdChannelShift OR bare_to_uint64 channel_id"

definition peerToBareInt :: "peer_id \<Rightarrow> int" where
  "peerToBareInt i = sint (ucast (i AND PeerIdMask) :: 32 word)"

definition peerToUser :: "peer_id \<Rightarrow> int" where
  "peerToUser i = (if peerIsUser i then peerToBareInt i else 0)"

definition peerToChat :: "peer_id \<Rightarrow> int" where
  "peerToChat i = (if peerIsChat i then peerToBareInt i else 0)"

definition peerToChannel :: "peer_id \<Rightarrow> channel_id" where
  "peerToChannel i = (if peerIsChannel i then peerToBareInt i else NoChannel)"

definition is_int32 :: "int \<Rightarrow> bool" where
  "is_int32 x \<longleftrightarrow> - (2 ^ 31) \<le> x \<and> x < 2 ^ 31"

lemma masks:
  "PeerIdMask = mask 32" "PeerIdTypeMask = push_bit 32 3" "PeerIdChatShift = push_bit 32 1"
  "PeerIdChannelShift = push_bit 32 2" "PeerIdUserShift = 0"
  by (simp_all add: PeerIdMask_def PeerIdTypeMask_def PeerIdChatShift_def PeerIdChannelShift_def
      PeerIdUserShift_def mask_eq_exp_minus_1 push_bit_eq_mult)

lemma bare_low: "bit (bare_to_uint64 x) n \<Longrightarrow> n < 32"
  by (auto simp: bare_to_uint64_def bit_ucast_iff dest: bit_imp_le_length)

lemma bare_type [simp]: "bare_to_uint64 x AND PeerIdTypeMask = 0"
proof (rule bit_word_eqI)
  fix n assume "n < LENGTH(64)"
  show "bit (bare_to_uint64 x AND PeerIdTypeMask) n = bit (0 :: 64 word) n"
    unfolding masks bit_and_iff bit_push_bit_iff using bare_low [of x n] by auto
qed

lemma bare_masked [simp]: "bare_to_uint64 x AND PeerIdMask = bare_to_uint64 x"
  by (rule bit_word_eqI) (auto simp: masks bit_simps dest: bare_low)

lemma shifts_typed [simp]:
  "PeerIdChatShift AND PeerIdTypeMask = PeerIdChatShift"
  "PeerIdChannelShift AND PeerIdTypeMask = PeerIdChannelShift"
  "PeerIdChatShift AND PeerIdMask = 0" "PeerIdChannelShift AND PeerIdMask = 0"
  by (simp_all add: PeerIdMask_def PeerIdTypeMask_def PeerIdChatShift_def PeerIdChannelShift_def)

lemma ucast_bare: "is_int32 x \<Longrightarrow> sint (ucast (bare_to_uint64 x) :: 32 word) = x"
proof -
  assume "is_int32 x"
  then have "sint (word_of_int x :: 32 word) = x"
    by (simp add: is_int32_def int_word_sint)
  moreover have "ucast (bare_to_uint64 x) = (word_of_int x :: 32 word)"
    unfolding bare_to_uint64_def by (rule ucast_up_ucast_id) (simp add: is_up)
  ultimately show ?thesis by simp
qed

text \<open>The three kinds of peers exclude each other, and the identifier inside is read back.\<close>

lemma peer_kinds:
  "peerIsUser (peerFromUser x)" "peerIsChat (peerFromChat x)" "peerIsChannel (peerFromChannel x)"
  "\<not> peerIsChannel (peerFromChat x)" "\<not> peerIsChannel (peerFromUser x)" "\<not> peerIsChat (peerFromUser x)"
  "\<not> peerIsChat (peerFromChannel x)" "\<not> peerIsUser (peerFromChannel x)" "\<not> peerIsUser (peerFromChat x)"
  by (simp_all add: peerIsUser_def peerIsChat_def peerIsChannel_def peerFromUser_def peerFromChat_def
      peerFromChannel_def bit.conj_disj_distrib2)
    (simp_all add: PeerIdUserShift_def PeerIdChatShift_def PeerIdChannelShift_def)

lemma peer_bare:
  assumes "is_int32 x"
  shows "peerToBareInt (peerFromUser x) = x" "peerToBareInt (peerFromChat x) = x"
    "peerToBareInt (peerFromChannel x) = x"
  using assms ucast_bare
  by (simp_all add: peerToBareInt_def peerFromUser_def peerFromChat_def
      peerFromChannel_def bit.conj_disj_distrib2 PeerIdUserShift_def)

section \<open>Message identifiers\<close>

definition StartClientMsgId :: msg_id where
  "StartClientMsgId = - 0x7FFFFFFF"

definition EndClientMsgId :: msg_id where
  "EndClientMsgId = - 0x40000000"

definition ServerMaxMsgId :: msg_id where
  "ServerMaxMsgId = 0x3FFFFFFF"

definition IsClientMsgId :: "msg_id \<Rightarrow> bool" where
  "IsClientMsgId m \<longleftrightarrow> m \<ge> StartClientMsgId \<and> m < EndClientMsgId"

definition IsServerMsgId :: "msg_id \<Rightarrow> bool" where
  "IsServerMsgId m \<longleftrightarrow> m > 0 \<and> m < ServerMaxMsgId"

datatype full_msg_id = FullMsgId (fid_channel: channel_id) (fid_msg: msg_id)

definition full_msg_id_set :: "full_msg_id \<Rightarrow> bool" where
  "full_msg_id_set i \<longleftrightarrow> fid_msg i \<noteq> 0"

instantiation full_msg_id :: linorder
begin

definition less_full_msg_id :: "full_msg_id \<Rightarrow> full_msg_id \<Rightarrow> bool" where
  "less_full_msg_id a b \<longleftrightarrow>
     (if fid_channel a < fid_channel b then True
      else if fid_channel a > fid_channel b then False
      else fid_msg a < fid_msg b)"

definition less_eq_full_msg_id :: "full_msg_id \<Rightarrow> full_msg_id \<Rightarrow> bool" where
  "less_eq_full_msg_id a b \<longleftrightarrow> \<not> b < a"

instance
  by standard
    (auto simp: less_full_msg_id_def less_eq_full_msg_id_def full_msg_id.expand split: if_splits)

end

section \<open>Positions in a merged history (data/data_messages.h)\<close>

datatype load_direction = Around | Before | After

datatype message_position =
  MessagePosition (position_date: time_id) (position_id: full_msg_id)

definition position_set :: "message_position \<Rightarrow> bool" where
  "position_set p \<longleftrightarrow> fid_msg (position_id p) \<noteq> 0"

instantiation message_position :: linorder
begin

definition less_message_position :: "message_position \<Rightarrow> message_position \<Rightarrow> bool" where
  "less_message_position a b \<longleftrightarrow>
     (if position_date a < position_date b then True
      else if position_date b < position_date a then False
      else position_id a < position_id b)"

definition less_eq_message_position :: "message_position \<Rightarrow> message_position \<Rightarrow> bool" where
  "less_eq_message_position a b \<longleftrightarrow> \<not> b < a"

instance
  by standard
    (auto simp: less_message_position_def less_eq_message_position_def message_position.expand
      split: if_splits)

end

definition MinDate :: time_id where
  "MinDate = 0"

definition MaxDate :: time_id where
  "MaxDate = 0x7FFFFFFF"

definition MinMessagePosition :: message_position where
  "MinMessagePosition = MessagePosition MinDate (FullMsgId NoChannel 1)"

definition MaxMessagePosition :: message_position where
  "MaxMessagePosition = MessagePosition MaxDate (FullMsgId NoChannel (ServerMaxMsgId - 1))"

section \<open>Properties\<close>

text \<open>A peer identifier made from a 32-bit user, chat or channel identifier is of that kind
  only and gives the identifier back.\<close>

theorem peer_id_roundtrip:
  assumes "is_int32 x"
  shows "peerToUser (peerFromUser x) = x \<and> peerToChat (peerFromChat x) = x \<and>
    peerToChannel (peerFromChannel x) = x \<and>
    peerToChat (peerFromUser x) = 0 \<and> peerToChannel (peerFromUser x) = NoChannel \<and>
    peerToUser (peerFromChat x) = 0 \<and> peerToChannel (peerFromChat x) = NoChannel \<and>
    peerToUser (peerFromChannel x) = 0 \<and> peerToChat (peerFromChannel x) = 0"
  by (simp add: peerToUser_def peerToChat_def peerToChannel_def peer_kinds peer_bare [OF assms])

theorem peer_id_roundtrip_witness:
  "peerToChannel (peerFromChannel (- 5)) = - 5 \<and> peerToUser (peerFromChannel (- 5)) = 0"
  using peer_id_roundtrip [of "- 5"] by (simp add: is_int32_def)

end
