(* ===== verification/Sparse_Ids_List.thy ===== *)
theory Sparse_Ids_List
  imports Slices Data_Types
begin

text \<open>
  storage/storage_sparse_ids_list.cpp: what is known of the messages of one kind in one
  chat. A \<open>SparseIdsList\<close> is a record of its counter and its slices. An operation returns the
  new list and the \<open>SparseIdsSliceUpdate\<close> it fires, where it fires one. Message identifiers
  and counters are \<open>int\<close>: the code only compares the former, and the latter stay below the
  number of messages of a chat.
\<close>

section \<open>Queries, results and updates\<close>

record 'm list_query =
  query_around :: 'm
  query_limit_before :: int
  query_limit_after :: int

record 'm list_result =
  result_count :: "int option"
  result_skipped_before :: "int option"
  result_skipped_after :: "int option"
  result_ids :: "'m list"

record 'm slice_update =
  update_messages :: "'m list option"
  update_range :: "'m msg_range"
  update_count :: "int option"

record add_result =
  add_inslice :: int
  add_added :: int

record sparse_list =
  sparse_count :: "int option"
  sparse_slices :: "msg_id slice list"

definition empty_sparse_list :: sparse_list where
  "empty_sparse_list = \<lparr> sparse_count = None, sparse_slices = [] \<rparr>"

section \<open>Adding\<close>

text \<open>The slices, the update with the slice it points at, and the two counts.\<close>

definition sparse_unite_and_add ::
    "nat \<Rightarrow> nat \<Rightarrow> 'm::linorder list \<Rightarrow> 'm msg_range \<Rightarrow> 'm slice list \<Rightarrow>
     ('m slice list \<times> 'm slice_update \<times> add_result) outcome" where
  "sparse_unite_and_add uniteFrom uniteTill messages noSkipRange slices =
     (let was = int (length (slice_messages (slices ! uniteFrom)))
      in bind_outcome (unite_slices uniteFrom uniteTill messages noSkipRange slices)
           (\<lambda>united.
              let slice = united ! uniteFrom; count = int (length (slice_messages slice))
              in Inr (united,
                      \<lparr> update_messages = Some (slice_messages slice),
                        update_range = slice_range slice, update_count = None \<rparr>,
                      \<lparr> add_inslice = count, add_added = count - was \<rparr>)))"

definition sparse_add_range_items ::
    "'m::linorder list \<Rightarrow> 'm msg_range \<Rightarrow> 'm slice list \<Rightarrow>
     ('m slice list \<times> 'm slice_update \<times> add_result) outcome" where
  "sparse_add_range_items messages noSkipRange slices =
     expects (range_from noSkipRange \<le> range_till noSkipRange)
       (let uniteFrom = lower_bound_till (range_from noSkipRange) slices;
            uniteTill = upper_bound_from (range_till noSkipRange) slices
        in if uniteFrom < uniteTill
           then sparse_unite_and_add uniteFrom uniteTill messages noSkipRange slices
           else
             let (slices', i, _) = set_insert slice_less
                   \<lparr> slice_messages = set_from_range (<) messages, slice_range = noSkipRange \<rparr> slices;
                 slice = slices' ! i;
                 count = int (length (slice_messages slice))
             in Inr (slices',
                     \<lparr> update_messages = Some (slice_messages slice),
                       update_range = slice_range slice, update_count = None \<rparr>,
                     \<lparr> add_inslice = count, add_added = count \<rparr>))"

definition full_range :: "msg_id msg_range" where
  "full_range = \<lparr> range_from = 0, range_till = ServerMaxMsgId \<rparr>"

definition sparse_add_range ::
    "msg_id list \<Rightarrow> msg_id msg_range \<Rightarrow> int option \<Rightarrow> bool \<Rightarrow> sparse_list \<Rightarrow>
     (sparse_list \<times> msg_id slice_update) outcome" where
  "sparse_add_range messages noSkipRange cnt incrementCount l =
     expects (cnt = None \<or> \<not> incrementCount)
       (bind_outcome (sparse_add_range_items messages noSkipRange (sparse_slices l))
         (\<lambda>(slices, update, result).
            let count1 = (case cnt of
                    Some c \<Rightarrow> Some c
                  | None \<Rightarrow>
                      (case sparse_count l of
                         Some c \<Rightarrow> if incrementCount \<and> add_added result > 0
                                   then Some (c + add_added result) else Some c
                       | None \<Rightarrow> None));
                count2 = (if length slices = 1 \<and> slice_range (hd slices) = full_range
                          then Some (int (length (slice_messages (hd slices)))) else count1);
                count3 = map_option (\<lambda>c. max c (add_inslice result)) count2
            in Inr (\<lparr> sparse_count = count3, sparse_slices = slices \<rparr>,
                    update\<lparr> update_count := count3 \<rparr>)))"

definition sparse_add_new ::
    "msg_id \<Rightarrow> sparse_list \<Rightarrow> (sparse_list \<times> msg_id slice_update) outcome" where
  "sparse_add_new messageId l =
     sparse_add_range [messageId] \<lparr> range_from = messageId, range_till = ServerMaxMsgId \<rparr> None True l"

definition sparse_add_existing ::
    "msg_id \<Rightarrow> msg_id msg_range \<Rightarrow> sparse_list \<Rightarrow> (sparse_list \<times> msg_id slice_update) outcome" where
  "sparse_add_existing messageId noSkipRange l =
     sparse_add_range [messageId] noSkipRange None False l"

definition sparse_add_slice ::
    "msg_id list \<Rightarrow> msg_id msg_range \<Rightarrow> int option \<Rightarrow> sparse_list \<Rightarrow>
     (sparse_list \<times> msg_id slice_update) outcome" where
  "sparse_add_slice messageIds noSkipRange cnt l =
     sparse_add_range messageIds noSkipRange cnt False l"

section \<open>Removing and invalidating\<close>

definition slices_remove_one :: "'m::linorder \<Rightarrow> 'm slice list \<Rightarrow> 'm slice list" where
  "slices_remove_one messageId slices =
     (let i = lower_bound_till messageId slices
      in if i \<noteq> length slices \<and> slice_from (slices ! i) \<le> messageId
         then set_modify slice_less i
                (\<lambda>s. s\<lparr> slice_messages := snd (set_remove (<) messageId (slice_messages s)) \<rparr>)
                slices
         else slices)"

definition sparse_remove_one :: "msg_id \<Rightarrow> sparse_list \<Rightarrow> sparse_list" where
  "sparse_remove_one messageId l =
     \<lparr> sparse_count = map_option (\<lambda>c. c - 1) (sparse_count l),
       sparse_slices = slices_remove_one messageId (sparse_slices l) \<rparr>"

definition sparse_remove_all :: "sparse_list \<Rightarrow> sparse_list" where
  "sparse_remove_all l =
     \<lparr> sparse_count = Some 0,
       sparse_slices =
         fst (set_insert slice_less \<lparr> slice_messages = [], slice_range = full_range \<rparr> []) \<rparr>"

definition slices_invalidate_bottom :: "'m::linorder \<Rightarrow> 'm slice list \<Rightarrow> 'm slice list" where
  "slices_invalidate_bottom maximal slices =
     (if slices \<noteq> [] \<and> slice_till (last slices) = maximal
      then set_modify slice_less (length slices - 1)
             (\<lambda>s. s\<lparr> slice_range := (slice_range s)\<lparr> range_till :=
                    if slice_messages s = [] then slice_from s else last (slice_messages s) \<rparr> \<rparr>)
             slices
      else slices)"

definition sparse_invalidate_bottom :: "sparse_list \<Rightarrow> sparse_list" where
  "sparse_invalidate_bottom l =
     \<lparr> sparse_count = None,
       sparse_slices = slices_invalidate_bottom ServerMaxMsgId (sparse_slices l) \<rparr>"

section \<open>Querying\<close>

text \<open>
  Iterators into the messages of the slice are indices, so \<open>position - before\<close> is one. The
  ends of the full range are a parameter: data/data_messages.cpp has the same function.
\<close>

definition query_from_slice ::
    "'m::linorder msg_range \<Rightarrow> int option \<Rightarrow> 'm list_query \<Rightarrow> 'm slice \<Rightarrow> 'm list_result" where
  "query_from_slice full cnt q piece =
     (let msgs = slice_messages piece;
          position = int (std_lower_bound (<) (query_around q) msgs);
          haveBefore = position;
          haveEqualOrAfter = int (length msgs) - position;
          before = min haveBefore (query_limit_before q);
          equalOrAfter = min haveEqualOrAfter (query_limit_after q + 1);
          ids = set_merge (<) (take (nat (before + equalOrAfter)) (drop (nat (position - before)) msgs)) [];
          skippedBefore = (if slice_from piece = range_from full then Some (haveBefore - before) else None);
          skippedAfter = (if slice_till piece = range_till full
                          then Some (haveEqualOrAfter - equalOrAfter) else None);
          size = int (length ids)
      in case cnt of
           None \<Rightarrow> \<lparr> result_count = None, result_skipped_before = skippedBefore,
                     result_skipped_after = skippedAfter, result_ids = ids \<rparr>
         | Some c \<Rightarrow>
             \<lparr> result_count = Some c,
               result_skipped_before =
                 (case (skippedBefore, skippedAfter) of
                    (None, Some a) \<Rightarrow> Some (c - a - size) | _ \<Rightarrow> skippedBefore),
               result_skipped_after =
                 (case (skippedBefore, skippedAfter) of
                    (Some b, None) \<Rightarrow> Some (c - b - size) | _ \<Rightarrow> skippedAfter),
               result_ids = ids \<rparr>)"

definition sparse_query_from_slice ::
    "msg_id list_query \<Rightarrow> msg_id slice \<Rightarrow> sparse_list \<Rightarrow> msg_id list_result" where
  "sparse_query_from_slice q piece l = query_from_slice full_range (sparse_count l) q piece"

text \<open>The producer puts at most one value, then is done: the optional value it puts.\<close>

definition sparse_query :: "msg_id list_query \<Rightarrow> sparse_list \<Rightarrow> msg_id list_result option" where
  "sparse_query q l =
     (let slices = sparse_slices l;
          i = (if query_around q \<noteq> 0 then lower_bound_till (query_around q) slices else length slices)
      in if i \<noteq> length slices \<and> slice_from (slices ! i) \<le> query_around q
         then Some (sparse_query_from_slice q (slices ! i) l)
         else map_option (\<lambda>c. \<lparr> result_count = Some c, result_skipped_before = None,
                                result_skipped_after = None, result_ids = [] \<rparr>) (sparse_count l))"

section \<open>What the operations do to the view\<close>

abbreviation sparse_view :: "sparse_list \<Rightarrow> msg_id \<Rightarrow> bool option" where
  "sparse_view l \<equiv> slices_view (sparse_slices l)"

definition sparse_ok :: "sparse_list \<Rightarrow> bool" where
  "sparse_ok l \<longleftrightarrow> slices_ok (sparse_slices l)"

lemma sparse_ok_empty [simp]: "sparse_ok empty_sparse_list"
  by (simp add: sparse_ok_def empty_sparse_list_def)

text \<open>The slice an update points at covers the range and lists exactly what is present in it.\<close>

definition update_describes ::
    "'m::linorder slice_update \<Rightarrow> 'm msg_range \<Rightarrow> ('m \<Rightarrow> bool option) \<Rightarrow> bool" where
  "update_describes u r v \<longleftrightarrow>
     (\<forall>m. in_range m r \<longrightarrow> in_range m (update_range u)) \<and>
     (\<exists>msgs. update_messages u = Some msgs \<and> strictly_sorted msgs \<and>
        (\<forall>m. in_range m (update_range u) \<longrightarrow> v m = Some (m \<in> set msgs)))"

lemma sparse_add_range_items_spec:
  assumes ok: "slices_ok xs" and r: "range_from r \<le> range_till r"
    and msgs: "\<forall>m\<in>set msgs. in_range m r"
  obtains xs' u res where "sparse_add_range_items msgs r xs = Inr (xs', u, res)"
    "slices_ok xs'" "slices_view xs' = view_add msgs r (slices_view xs)"
    "update_describes u r (slices_view xs')"
    "\<exists>s\<in>set xs'. add_inslice res = int (length (slice_messages s)) \<and> update_range u = slice_range s"
proof (cases "lower_bound_till (range_from r) xs < upper_bound_from (range_till r) xs")
  case True
  let ?i = "lower_bound_till (range_from r) xs"
  from unite_slices_spec [OF ok r msgs True] obtain xs' where xs':
    "unite_slices ?i (upper_bound_from (range_till r) xs) msgs r xs = Inr xs'"
    "slices_ok xs'" "slices_view xs' = view_add msgs r (slices_view xs)" "?i < length xs'"
    "\<forall>m. in_range m r \<longrightarrow> in_range m (slice_range (xs' ! ?i))" by blast
  let ?s = "xs' ! ?i"
  obtain pre post where cut: "xs' = pre @ ?s # post" using split_at_nth [OF xs'(4)] by blast
  have sorted: "strictly_sorted (slice_messages ?s)"
    using xs'(2,4) nth_mem unfolding slices_ok_def slice_ok_def by blast
  have "slices_view xs' m = Some (m \<in> set (slice_messages ?s))" if "in_range m (slice_range ?s)" for m
    using slices_view_in_slice [of pre ?s post m] that cut xs'(2) by metis
  then show thesis
    using that [of xs'] xs' r sorted nth_mem [OF xs'(4)] True
    by (fastforce simp: sparse_add_range_items_def sparse_unite_and_add_def Let_def update_describes_def)
next
  case False
  define new where "new = \<lparr> slice_messages = set_from_range (<) msgs, slice_range = r \<rparr>"
  from emplace_slice_spec [OF ok r msgs False new_def] obtain pre post where e: "xs = pre @ post"
    "set_insert slice_less new xs = (pre @ new # post, length pre, True)"
    "slices_ok (pre @ new # post)" "slices_view (pre @ new # post) = view_add msgs r (slices_view xs)"
    by blast
  have "slices_view (pre @ new # post) m = Some (m \<in> set msgs)" if "in_range m r" for m
    using slices_view_in_slice [OF e(3), of m] that by (simp add: new_def)
  then show thesis
    using that [of "pre @ new # post"] e r False
    by (fastforce simp: sparse_add_range_items_def Let_def update_describes_def new_def)
qed

lemma sparse_add_range_spec:
  assumes ok: "sparse_ok l" and r: "range_from r \<le> range_till r"
    and msgs: "\<forall>m\<in>set msgs. in_range m r" and cnt: "cnt = None \<or> \<not> increment"
  shows "\<exists>l' u. sparse_add_range msgs r cnt increment l = Inr (l', u) \<and> sparse_ok l' \<and>
    sparse_view l' = view_add msgs r (sparse_view l) \<and>
    update_describes u r (sparse_view l') \<and> update_count u = sparse_count l'"
proof -
  obtain xs' u res where xs': "sparse_add_range_items msgs r (sparse_slices l) = Inr (xs', u, res)"
    "slices_ok xs'" "slices_view xs' = view_add msgs r (sparse_view l)"
    "update_describes u r (slices_view xs')"
    using sparse_add_range_items_spec [OF _ r msgs] ok unfolding sparse_ok_def by metis
  have "update_describes (u\<lparr> update_count := c \<rparr>) r v = update_describes u r v" for c v
    by (simp add: update_describes_def)
  then show ?thesis
    using xs' cnt by (auto simp: sparse_add_range_def sparse_ok_def Let_def)
qed

lemma set_modify_last:
  assumes "slices_ok xs" "xs \<noteq> []" "slice_from (f (last xs)) = slice_from (last xs)"
  shows "set_modify slice_less (length xs - 1) f xs = butlast xs @ [f (last xs)]"
  using modify_one_slice [of "butlast xs" "last xs" "[]" f] assms by simp

lemma slice_ok_remove:
  "slice_ok s \<Longrightarrow> slice_ok (s\<lparr> slice_messages := snd (set_remove (<) m (slice_messages s)) \<rparr>)"
  by (auto simp: slice_ok_def ids.ok_del ids.elems_del)

lemma slices_remove_one_spec:
  assumes xs: "slices_ok xs"
  shows "slices_ok (slices_remove_one m xs) \<and>
    slices_view (slices_remove_one m xs) =
      (\<lambda>x. if x = m then map_option (\<lambda>_. False) (slices_view xs m) else slices_view xs x)"
proof -
  from find_slice [OF xs, of m] show ?thesis
  proof (elim disjE exE conjE)
    fix pre s post
    assume f: "xs = pre @ s # post" "lower_bound_till m xs = length pre"
      "slice_from s \<le> m" "m \<le> slice_till s"
    let ?s = "s\<lparr> slice_messages := snd (set_remove (<) m (slice_messages s)) \<rparr>"
    have ok': "slices_ok (pre @ s # post)" using xs f by simp
    then have s: "slice_ok s" by (simp add: slices_ok_append slices_ok_Cons)
    have run: "slices_remove_one m xs = pre @ ?s # post"
      using f modify_one_slice [OF ok',
          of "\<lambda>s. s\<lparr> slice_messages := snd (set_remove (<) m (slice_messages s)) \<rparr>"]
      by (simp add: slices_remove_one_def Let_def)
    have "set (slice_messages ?s) = set (slice_messages s) - {m}"
      using s by (simp add: slice_ok_def ids.elems_del)
    then have "slices_view (pre @ ?s # post) = (slices_view (pre @ s # post))(m := Some False)"
      using slices_view_same_ranges [OF ok', of ?s m] f by simp
    moreover have "slices_view (pre @ s # post) m \<noteq> None"
      using f by (auto simp: slices_view_None_iff)
    moreover have "slices_ok (pre @ ?s # post)"
      using slices_change_one [OF ok' slice_ok_remove [OF s, of m]] by simp
    ultimately show ?thesis
      using run f by (auto simp: fun_eq_iff)
  next
    assume n: "\<forall>s\<in>set xs. \<not> in_range m (slice_range s)"
      "lower_bound_till m xs = length xs"
    then have "slices_remove_one m xs = xs"
      by (simp add: slices_remove_one_def Let_def)
    moreover have "slices_view xs m = None" using n(1) by (simp add: slices_view_None_iff)
    ultimately show ?thesis using xs by auto
  next
    assume n: "\<forall>s\<in>set xs. \<not> in_range m (slice_range s)"
      "m < slice_from (xs ! lower_bound_till m xs)"
    have "\<not> slice_from (xs ! lower_bound_till m xs) \<le> m" using n(2) by (simp add: not_le)
    then have "slices_remove_one m xs = xs"
      by (simp add: slices_remove_one_def Let_def)
    moreover have "slices_view xs m = None" using n(1) by (simp add: slices_view_None_iff)
    ultimately show ?thesis using xs by auto
  qed
qed

lemma sparse_remove_one_slices:
  "sparse_ok l \<Longrightarrow> sparse_ok (sparse_remove_one m l) \<and>
    sparse_view (sparse_remove_one m l) =
      (\<lambda>x. if x = m then map_option (\<lambda>_. False) (sparse_view l m) else sparse_view l x)"
  using slices_remove_one_spec [of "sparse_slices l" m] by (simp add: sparse_ok_def sparse_remove_one_def)

lemma sparse_remove_all_spec:
  "sparse_ok (sparse_remove_all l) \<and> sparse_count (sparse_remove_all l) = Some 0 \<and>
   sparse_view (sparse_remove_all l) = (\<lambda>m. if in_range m full_range then Some False else None)"
  by (auto simp: sparse_remove_all_def set_insert_def sparse_ok_def slices_ok_Cons slice_ok_def
      slices_view_def full_range_def ServerMaxMsgId_def)

lemma slices_invalidate_bottom_spec:
  assumes ok: "slices_ok xs"
  shows "slices_ok (slices_invalidate_bottom mx xs) \<and>
    (\<forall>m. slices_view (slices_invalidate_bottom mx xs) m =
      (if xs \<noteq> [] \<and> slice_till (last xs) = mx \<and> slice_from (last xs) < m \<and>
          (\<forall>x. slices_view xs x = Some True \<longrightarrow> x < m)
       then None else slices_view xs m))"
proof (cases "xs \<noteq> [] \<and> slice_till (last xs) = mx")
  case False
  then have "slices_invalidate_bottom mx xs = xs"
    by (auto simp: slices_invalidate_bottom_def)
  then show ?thesis using ok False by auto
next
  case True
  let ?xs = xs and ?s = "last xs"
  let ?till = "if slice_messages ?s = [] then slice_from ?s else last (slice_messages ?s)"
  let ?t = "?s\<lparr> slice_range := (slice_range ?s)\<lparr> range_till := ?till \<rparr> \<rparr>"
  have cut: "?xs = butlast ?xs @ [?s]" using True by simp
  have xs: "slices_ok (butlast ?xs @ [?s])" using ok True by simp
  then have s: "slice_ok ?s" by (simp add: slices_ok_append slices_ok_Cons)
  have msgs: "\<forall>m\<in>set (slice_messages ?s). in_range m (slice_range ?s)" "strictly_sorted (slice_messages ?s)"
    using s by (auto simp: slice_ok_def)
  have till: "slice_from ?s \<le> ?till" "?till \<le> slice_till ?s" "\<forall>m\<in>set (slice_messages ?s). m \<le> ?till"
    using s msgs last_in_bounds [OF msgs(2)] last_in_set [of "slice_messages ?s"]
    by (auto simp: slice_ok_def)
  have run: "slices_invalidate_bottom mx xs = butlast ?xs @ [?t]"
    using True xs set_modify_last [of ?xs "\<lambda>s. s\<lparr> slice_range := (slice_range s)\<lparr> range_till :=
        if slice_messages s = [] then slice_from s else last (slice_messages s) \<rparr> \<rparr>"] cut
    by (simp add: slices_invalidate_bottom_def)
  have t: "slice_ok ?t" using s till by (auto simp: slice_ok_def)
  have ok': "slices_ok (butlast ?xs @ [?t])"
    using slices_change_one [OF xs t] till by simp
  have pre: "\<forall>a\<in>set (butlast ?xs). slice_till a < slice_from ?s \<and> (\<forall>m\<in>set (slice_messages a). m \<le> slice_till a)"
  proof -
    have "\<forall>a\<in>set (butlast ?xs). slice_till a < slice_from ?s" using xs by (simp add: slices_ok_append)
    moreover have "\<forall>a\<in>set (butlast ?xs). slice_ok a" using xs by (simp add: slices_ok_append slices_ok_def)
    ultimately show ?thesis by (auto simp: slice_ok_def)
  qed
  have view: "slices_view (butlast ?xs @ [?t]) m =
      (if slice_from ?s < m \<and> (\<forall>x. slices_view xs x = Some True \<longrightarrow> x < m)
       then None else slices_view xs m)" for m
  proof -
    have present: "slices_view xs x = Some True \<longleftrightarrow> (\<exists>a\<in>set ?xs. x \<in> set (slice_messages a))" for x
      using ok by (auto simp: slices_view_def slices_ok_def slice_ok_def)
    have all: "(\<forall>x. slices_view xs x = Some True \<longrightarrow> x < m) \<longleftrightarrow>
        (\<forall>x\<in>set (slice_messages ?s). x < m)" if "slice_from ?s < m"
      unfolding present using pre that by (subst cut, force)
    have gone: "?till < m \<longleftrightarrow> (\<forall>x\<in>set (slice_messages ?s). x < m)" if "slice_from ?s < m"
      using till last_in_set [of "slice_messages ?s"] that by (cases "slice_messages ?s = []") force+
    have V: "slices_view xs m = slices_view (butlast ?xs @ [?s]) m" by (subst cut) simp
    show ?thesis
    proof (cases "slice_from ?s < m")
      case True
      have "\<forall>a\<in>set (butlast ?xs). \<not> in_range m (slice_range a) \<and> m \<notin> set (slice_messages a)"
        using pre True by force
      then show ?thesis
        unfolding V all [OF True] gone [OF True, symmetric]
        using True till by (auto simp: slices_view_def)
    next
      case False
      then show ?thesis unfolding V using till by (auto simp: slices_view_def)
    qed
  qed
  show ?thesis
    using True ok' view unfolding run by simp
qed

lemma sparse_invalidate_bottom_spec:
  assumes ok: "sparse_ok l"
  shows "sparse_ok (sparse_invalidate_bottom l) \<and>
    sparse_count (sparse_invalidate_bottom l) = None \<and>
    (\<forall>m. sparse_view (sparse_invalidate_bottom l) m =
      (if sparse_slices l \<noteq> [] \<and> slice_till (last (sparse_slices l)) = ServerMaxMsgId \<and>
          slice_from (last (sparse_slices l)) < m \<and>
          (\<forall>x. sparse_view l x = Some True \<longrightarrow> x < m)
       then None else sparse_view l m))"
  using slices_invalidate_bottom_spec [of "sparse_slices l" ServerMaxMsgId] ok
  by (simp add: sparse_invalidate_bottom_def sparse_ok_def)

section \<open>What a query answers\<close>

lemma set_merge_Nil_sorted:
  fixes xs :: "'a::linorder list"
  shows "strictly_sorted xs \<Longrightarrow> set_merge (<) xs [] = xs"
  by (rule ids.ext) simp_all

lemma strictly_sorted_segment:
  fixes xs :: "'a::linorder list"
  shows "strictly_sorted xs \<Longrightarrow> strictly_sorted (take n (drop k xs))"
  using sorted_wrt_take_drop by blast

lemma sorted_below_above:
  fixes v :: "'a::linorder"
  assumes "strictly_sorted xs"
  shows "takeWhile (\<lambda>x. x < v) xs = filter (\<lambda>x. x < v) xs"
    and "dropWhile (\<lambda>x. x < v) xs = filter (\<lambda>x. v \<le> x) xs"
proof -
  show "takeWhile (\<lambda>x. x < v) xs = filter (\<lambda>x. x < v) xs"
    by (rule takeWhile_filter_sorted [OF assms]) order
  have "dropWhile (\<lambda>x. x < v) xs = filter (\<lambda>x. \<not> x < v) xs"
    by (rule dropWhile_filter_sorted [OF assms]) order
  then show "dropWhile (\<lambda>x. x < v) xs = filter (\<lambda>x. v \<le> x) xs"
    by (simp add: not_less)
qed

text \<open>The last \<open>limitBefore\<close> identifiers below, the first \<open>limitAfter + 1\<close> not below.\<close>

definition ids_window :: "int \<Rightarrow> int \<Rightarrow> 'a::linorder \<Rightarrow> 'a list \<Rightarrow> 'a list" where
  "ids_window limitBefore limitAfter around msgs =
     (let below = filter (\<lambda>m. m < around) msgs; above = filter (\<lambda>m. around \<le> m) msgs
      in drop (length below - nat limitBefore) below @ take (nat (limitAfter + 1)) above)"

lemma segment_eq_window:
  fixes msgs :: "'a::linorder list"
  assumes sorted: "strictly_sorted msgs" and lb: "0 \<le> lb" and la: "0 \<le> la"
    and p: "p = int (std_lower_bound (<) around msgs)"
    and b: "b = min p lb" and e: "e = min (int (length msgs) - p) (la + 1)"
  shows "take (nat (b + e)) (drop (nat (p - b)) msgs) = ids_window lb la around msgs"
proof -
  define B A where "B = filter (\<lambda>m. m < around) msgs" and "A = filter (\<lambda>m. around \<le> m) msgs"
  have msgs: "msgs = B @ A"
    using takeWhile_dropWhile_id [of "\<lambda>x. x < around" msgs] sorted_below_above [OF sorted, of around]
    by (simp add: B_def A_def)
  have pB: "p = int (length B)"
    using sorted_below_above(1) [OF sorted, of around]
    by (simp add: B_def p std_lower_bound_def partition_index_def)
  have nb: "nat (p - b) = length B - nat lb" using lb by (auto simp: b pB)
  have ne: "nat (b + e) = (length B - (length B - nat lb)) + min (length A) (nat (la + 1))"
    using lb la by (auto simp: b e pB msgs min_def)
  have dB: "drop (length B - nat lb) msgs = drop (length B - nat lb) B @ A"
    by (simp add: msgs)
  have lenD: "length (drop (length B - nat lb) B) = length B - (length B - nat lb)" by simp
  have tA: "take (min (length A) (nat (la + 1))) A = take (nat (la + 1)) A"
    by (simp add: min_def)
  have "take (nat (b + e)) (drop (nat (p - b)) msgs) =
      drop (length B - nat lb) B @ take (min (length A) (nat (la + 1))) A"
    unfolding nb ne dB by (subst take_append) (simp add: lenD del: length_drop)
  then show ?thesis unfolding tA by (simp add: ids_window_def B_def A_def Let_def)
qed

lemma query_from_slice_spec:
  assumes s: "slice_ok s" and lb: "0 \<le> query_limit_before q" and la: "0 \<le> query_limit_after q"
    and r: "r = query_from_slice full cnt q s"
  shows "result_ids r =
      ids_window (query_limit_before q) (query_limit_after q) (query_around q) (slice_messages s)"
    and "result_count r = cnt"
    and "slice_from s = range_from full \<Longrightarrow> result_skipped_before r =
      Some (int (length (filter (\<lambda>m. m < query_around q) (slice_messages s)))
        - int (length (filter (\<lambda>m. m < query_around q) (result_ids r))))"
    and "slice_till s = range_till full \<Longrightarrow> result_skipped_after r =
      Some (int (length (filter (\<lambda>m. query_around q \<le> m) (slice_messages s)))
        - int (length (filter (\<lambda>m. query_around q \<le> m) (result_ids r))))"
    and "(slice_from s = range_from full) \<noteq> (slice_till s = range_till full) \<Longrightarrow> cnt = Some c \<Longrightarrow>
      add_option (result_skipped_before r)
        (add_option (Some (int (length (result_ids r)))) (result_skipped_after r)) = Some c"
proof -
  let ?msgs = "slice_messages s" and ?a = "query_around q"
  let ?p = "int (std_lower_bound (<) ?a ?msgs)"
  let ?b = "min ?p (query_limit_before q)"
  let ?e = "min (int (length ?msgs) - ?p) (query_limit_after q + 1)"
  have sorted: "strictly_sorted ?msgs" using s by (simp add: slice_ok_def)
  have seg: "take (nat (?b + ?e)) (drop (nat (?p - ?b)) ?msgs) =
      ids_window (query_limit_before q) (query_limit_after q) ?a ?msgs"
    by (rule segment_eq_window [OF sorted lb la refl refl refl])
  have merge: "set_merge (<) (take (nat (?b + ?e)) (drop (nat (?p - ?b)) ?msgs)) [] =
      ids_window (query_limit_before q) (query_limit_after q) ?a ?msgs"
    by (rule trans [OF set_merge_Nil_sorted [OF strictly_sorted_segment [OF sorted]] seg])
  show ids: "result_ids r =
      ids_window (query_limit_before q) (query_limit_after q) ?a ?msgs"
    using merge by (simp add: r query_from_slice_def Let_def split: option.split)
  show "result_count r = cnt"
    by (simp add: r query_from_slice_def Let_def split: option.split)
  define B A where "B = filter (\<lambda>m. m < ?a) ?msgs" and "A = filter (\<lambda>m. ?a \<le> m) ?msgs"
  have pB: "?p = int (length B)"
    using sorted_below_above(1) [OF sorted, of ?a]
    by (simp add: B_def std_lower_bound_def partition_index_def)
  have pA: "int (length ?msgs) - ?p = int (length A)"
    using sorted_below_above [OF sorted, of ?a] takeWhile_dropWhile_id [of "\<lambda>x. x < ?a" ?msgs]
    by (metis A_def B_def add_diff_cancel_left' length_append of_nat_add pB)
  have low: "filter (\<lambda>m. m < ?a) (result_ids r) = drop (length B - nat (query_limit_before q)) B"
    unfolding ids ids_window_def Let_def B_def [symmetric] A_def [symmetric]
    using filter_segment_all [of B "\<lambda>m. m < ?a"] filter_segment_none [of A "\<lambda>m. m < ?a"]
    by (simp add: B_def A_def not_less not_le)
  have high: "filter (\<lambda>m. ?a \<le> m) (result_ids r) = take (nat (query_limit_after q + 1)) A"
    unfolding ids ids_window_def Let_def B_def [symmetric] A_def [symmetric]
    using filter_segment_all [of A "\<lambda>m. ?a \<le> m"] filter_segment_none [of B "\<lambda>m. ?a \<le> m"]
    by (simp add: B_def A_def not_less not_le)
  have lenlow: "int (length (filter (\<lambda>m. m < ?a) (result_ids r))) = ?b"
    unfolding low pB using lb by auto
  have lenhigh: "int (length (filter (\<lambda>m. ?a \<le> m) (result_ids r))) = ?e"
    unfolding high pA using la by auto
  show "slice_from s = range_from full \<Longrightarrow> result_skipped_before r =
      Some (int (length (filter (\<lambda>m. m < ?a) ?msgs)) - int (length (filter (\<lambda>m. m < ?a) (result_ids r))))"
    unfolding lenlow B_def [symmetric]
    by (simp add: r query_from_slice_def Let_def pB split: option.split)
  show "slice_till s = range_till full \<Longrightarrow> result_skipped_after r =
      Some (int (length (filter (\<lambda>m. ?a \<le> m) ?msgs)) - int (length (filter (\<lambda>m. ?a \<le> m) (result_ids r))))"
    unfolding lenhigh A_def [symmetric] pA [symmetric]
    by (simp add: r query_from_slice_def Let_def split: option.split)
  show "(slice_from s = range_from full) \<noteq> (slice_till s = range_till full) \<Longrightarrow> cnt = Some c \<Longrightarrow>
      add_option (result_skipped_before r)
        (add_option (Some (int (length (result_ids r)))) (result_skipped_after r)) = Some c"
    by (auto simp: r query_from_slice_def Let_def add_option_def)
qed

section \<open>Histories\<close>

text \<open>
  A list together with the set \<open>H\<close> of identifiers the chat really has. Each rule is one
  public operation, called the way its callers call it: a new message is above all others, a
  slice holds what the server has in the range, and when updates were missed (\<open>invalidateBottom\<close>)
  the messages that came meanwhile are above every identifier the ranges name.
\<close>

inductive sparse_history :: "sparse_list \<Rightarrow> msg_id set \<Rightarrow> bool" where
  history_start: "sparse_history empty_sparse_list H"
| history_new: "sparse_history l H \<Longrightarrow> m \<le> ServerMaxMsgId \<Longrightarrow> \<forall>x\<in>H. x < m \<Longrightarrow>
    sparse_add_new m l = Inr (l', u) \<Longrightarrow> sparse_history l' (insert m H)"
| history_existing: "sparse_history l H \<Longrightarrow> range_from r \<le> range_till r \<Longrightarrow>
    {x \<in> H. in_range x r} = {m} \<Longrightarrow>
    sparse_add_existing m r l = Inr (l', u) \<Longrightarrow> sparse_history l' H"
| history_slice: "sparse_history l H \<Longrightarrow> range_from r \<le> range_till r \<Longrightarrow>
    set msgs = {x \<in> H. in_range x r} \<Longrightarrow>
    sparse_add_slice msgs r cnt l = Inr (l', u) \<Longrightarrow> sparse_history l' H"
| history_remove: "sparse_history l H \<Longrightarrow> sparse_history (sparse_remove_one m l) (H - {m})"
| history_clear: "sparse_history l H \<Longrightarrow> sparse_history (sparse_remove_all l) {}"
| history_missed: "sparse_history l H \<Longrightarrow>
    \<forall>x\<in>N. (\<forall>h\<in>H. h < x) \<and> (\<forall>s\<in>set (sparse_slices l). slice_from s < x \<and>
      (slice_till s \<noteq> ServerMaxMsgId \<longrightarrow> slice_till s < x)) \<Longrightarrow>
    sparse_history (sparse_invalidate_bottom l) (H \<union> N)"

definition view_sound :: "('m \<Rightarrow> bool option) \<Rightarrow> 'm set \<Rightarrow> bool" where
  "view_sound v H \<longleftrightarrow> (\<forall>m b. v m = Some b \<longrightarrow> (b \<longleftrightarrow> m \<in> H))"

lemma view_add_sound:
  assumes "view_sound v H" "\<forall>x. in_range x r \<longrightarrow> (x \<in> set msgs \<or> x \<in> H \<and> v x = Some True \<longleftrightarrow> x \<in> H')"
    and "\<forall>x. \<not> in_range x r \<longrightarrow> (x \<in> H \<longleftrightarrow> x \<in> H')"
  shows "view_sound (view_add msgs r v) H'"
  using assms by (auto simp: view_sound_def view_add_def split: if_splits)

lemma sparse_add_range_sound:
  assumes "sparse_ok l" "view_sound (sparse_view l) H" "range_from r \<le> range_till r"
    and "\<forall>m\<in>set msgs. in_range m r" "cnt = None \<or> \<not> increment"
    and "sparse_add_range msgs r cnt increment l = Inr (l', u)"
    and "\<forall>x. in_range x r \<longrightarrow> (x \<in> set msgs \<or> x \<in> H \<and> sparse_view l x = Some True \<longleftrightarrow> x \<in> H')"
    and "\<forall>x. \<not> in_range x r \<longrightarrow> (x \<in> H \<longleftrightarrow> x \<in> H')"
  shows "sparse_ok l' \<and> view_sound (sparse_view l') H'"
  using sparse_add_range_spec [OF assms(1,3,4,5)] view_add_sound [OF assms(2,7,8)] assms(6) by auto

lemma slices_invalidate_sound:
  assumes ok: "slices_ok xs" and sound: "view_sound (slices_view xs) H"
    and N: "\<forall>x\<in>N. (\<forall>h\<in>H. h < x) \<and> (\<forall>s\<in>set xs. slice_from s < x \<and>
      (slice_till s \<noteq> mx \<longrightarrow> slice_till s < x))"
  shows "view_sound (slices_view (slices_invalidate_bottom mx xs)) (H \<union> N)"
proof -
  have "slices_view (slices_invalidate_bottom mx xs) m = None" if m: "m \<in> N" "slices_view xs m \<noteq> None" for m
  proof -
    obtain s where s: "s \<in> set xs" "in_range m (slice_range s)"
      using m(2) by (auto simp: slices_view_None_iff)
    have max: "slice_till s = mx" using N m(1) s by force
    have "s = last xs"
    proof (rule ccontr)
      assume "s \<noteq> last xs"
      moreover have cut: "xs = butlast xs @ [last xs]" using s(1) by (cases xs) auto
      ultimately have "s \<in> set (butlast xs)"
        using s(1) by (metis Un_iff empty_iff empty_set set_ConsD set_append)
      with cut have "slice_till s < slice_from (last xs)"
        using ok by (metis list.set_intros(1) slices_ok_append)
      moreover have "slice_from (last xs) < m"
        using N m(1) s(1) by (metis empty_iff last_in_set list.set(1))
      ultimately have "slice_till s < m" by (rule less_trans)
      then show False using s(2) by (simp add: not_le [symmetric])
    qed
    then have "xs \<noteq> [] \<and> slice_till (last xs) = mx \<and> slice_from (last xs) < m"
      using s(1) max N m(1) by auto
    moreover have "\<forall>x. slices_view xs x = Some True \<longrightarrow> x < m"
      using sound N m(1) by (auto simp: view_sound_def)
    ultimately show ?thesis using slices_invalidate_bottom_spec [OF ok] by simp
  qed
  moreover have "slices_view (slices_invalidate_bottom mx xs) m = None \<or>
      slices_view (slices_invalidate_bottom mx xs) m = slices_view xs m" for m
    using slices_invalidate_bottom_spec [OF ok] by simp
  ultimately show ?thesis
    using sound unfolding view_sound_def by (metis Un_iff option.distinct(1))
qed

lemma sparse_invalidate_sound:
  assumes "sparse_ok l" "view_sound (sparse_view l) H"
    "\<forall>x\<in>N. (\<forall>h\<in>H. h < x) \<and> (\<forall>s\<in>set (sparse_slices l). slice_from s < x \<and>
      (slice_till s \<noteq> ServerMaxMsgId \<longrightarrow> slice_till s < x))"
  shows "view_sound (sparse_view (sparse_invalidate_bottom l)) (H \<union> N)"
  using slices_invalidate_sound [OF _ assms(2,3)] assms(1)
  by (simp add: sparse_ok_def sparse_invalidate_bottom_def)

lemma sparse_history_sound_ok:
  "sparse_history l H \<Longrightarrow> sparse_ok l \<and> view_sound (sparse_view l) H"
proof (induction rule: sparse_history.induct)
  case (history_start H)
  show ?case by (simp add: view_sound_def slices_view_def empty_sparse_list_def sparse_ok_def)
next
  case (history_new l H m l' u)
  let ?r = "\<lparr> range_from = m, range_till = ServerMaxMsgId \<rparr>"
  show ?case
    by (rule sparse_add_range_sound [of l H ?r "[m]" None True])
      (use history_new in \<open>auto simp: sparse_add_new_def view_sound_def\<close>)
next
  case (history_existing l H r m l' u)
  then show ?case
    using sparse_add_range_sound [of l H r "[m]" None False l' u H]
    by (auto simp: sparse_add_existing_def)
next
  case (history_slice l H r msgs cnt l' u)
  then show ?case
    using sparse_add_range_sound [of l H r msgs cnt False l' u H]
    by (auto simp: sparse_add_slice_def)
next
  case (history_remove l H m)
  then show ?case
    using sparse_remove_one_slices [of l m] by (auto simp: view_sound_def split: if_splits)
next
  case (history_clear l H)
  show ?case using sparse_remove_all_spec by (auto simp: view_sound_def split: if_splits)
next
  case (history_missed l H N)
  then show ?case
    using sparse_invalidate_sound [of l H N] sparse_invalidate_bottom_spec [of l] by blast
qed

section \<open>The counter after a new message\<close>

lemma slices_messages_card:
  assumes "slices_ok xs"
  shows "finite (\<Union>s\<in>set xs. set (slice_messages s))"
    and "int (card (\<Union>s\<in>set xs. set (slice_messages s))) = (\<Sum>s\<leftarrow>xs. int (length (slice_messages s)))"
proof -
  show "finite (\<Union>s\<in>set xs. set (slice_messages s))" by simp
  show "int (card (\<Union>s\<in>set xs. set (slice_messages s))) = (\<Sum>s\<leftarrow>xs. int (length (slice_messages s)))"
    using assms
  proof (induction xs)
    case (Cons s xs)
    have s: "slice_ok s" and xs: "slices_ok xs" and lt: "\<forall>b\<in>set xs. slice_till s < slice_from b"
      using Cons.prems by (simp_all add: slices_ok_Cons)
    have "\<forall>b\<in>set xs. slice_ok b" using xs by (simp add: slices_ok_def)
    then have d: "set (slice_messages s) \<inter> (\<Union>b\<in>set xs. set (slice_messages b)) = {}"
      using s lt by (fastforce simp: slice_ok_def)
    have "distinct (slice_messages s)" using s by (simp add: slice_ok_def strict_sorted_iff)
    then show ?case
      using Cons.IH [OF xs] card_Un_disjoint [OF _ _ d] by (simp add: distinct_card)
  qed simp
qed

text \<open>The counter after \<open>addNew\<close>, on both branches of the search.\<close>

lemma sparse_add_new_count:
  assumes ok: "sparse_ok l" and cnt: "sparse_count l = Some c" and m: "m \<le> ServerMaxMsgId"
    and ends: "\<forall>s\<in>set (sparse_slices l). slice_till s \<le> ServerMaxMsgId"
    and known: "(\<Sum>s\<leftarrow>sparse_slices l. int (length (slice_messages s))) \<le> c"
  shows "\<exists>l' u. sparse_add_new m l = Inr (l', u) \<and>
    sparse_count l' = Some (
      if length (sparse_slices l') = 1 \<and> slice_range (hd (sparse_slices l')) = full_range
      then int (length (slice_messages (hd (sparse_slices l'))))
      else c + (if sparse_view l m = Some True then 0 else 1) +
        (\<Sum>s\<leftarrow>tl (filter (\<lambda>s. m \<le> slice_till s) (sparse_slices l)). int (length (slice_messages s))))"
proof -
  let ?xs = "sparse_slices l" and ?r = "\<lparr> range_from = m, range_till = ServerMaxMsgId \<rparr>"
  let ?len = "\<lambda>s. int (length (slice_messages s))"
  define new where "new = \<lparr> slice_messages = set_from_range (<) [m], slice_range = ?r \<rparr>"
  have xs: "slices_ok ?xs" and r: "range_from ?r \<le> range_till ?r" using ok m by (simp_all add: sparse_ok_def)
  from slices_split [OF xs r] obtain pre mid post where s: "?xs = pre @ mid @ post"
    "lower_bound_till m ?xs = length pre"
    "upper_bound_from ServerMaxMsgId ?xs = length pre + length mid"
    "\<forall>s\<in>set pre. slice_till s < m"
    "\<forall>s\<in>set mid. slice_from s \<le> ServerMaxMsgId \<and> m \<le> slice_till s"
    "\<forall>s\<in>set post. ServerMaxMsgId < slice_from s" by auto
  have "post = []"
  proof (rule ccontr)
    assume "post \<noteq> []"
    then obtain a where a: "a \<in> set post" by (cases post) auto
    then have "slice_from a \<le> slice_till a" using xs s(1) by (auto simp: slices_ok_def slice_ok_def)
    moreover have "slice_till a \<le> ServerMaxMsgId" "ServerMaxMsgId < slice_from a"
      using a ends s(1,6) by auto
    ultimately show False by simp
  qed
  then have cut: "?xs = pre @ mid" using s(1) by simp
  have late: "filter (\<lambda>s. m \<le> slice_till s) ?xs = mid"
    using s(4,5) by (auto simp: cut filter_empty_conv filter_id_conv not_le)
  have oks: "\<forall>s\<in>set ?xs. slice_ok s" "slices_ok mid" using xs by (simp_all add: slices_ok_def cut sorted_wrt_append)
  have present: "sparse_view l m = Some True \<longleftrightarrow> m \<in> (\<Union>s\<in>set mid. set (slice_messages s))"
  proof -
    have "sparse_view l m = Some True \<longleftrightarrow> (\<exists>s\<in>set ?xs. m \<in> set (slice_messages s))"
      using oks(1) by (auto simp: slices_view_def slice_ok_def)
    moreover have "m \<notin> set (slice_messages s)" if "s \<in> set pre" for s
      using that oks(1) s(4) by (fastforce simp: cut slice_ok_def)
    ultimately show ?thesis by (auto simp: cut)
  qed
  have nonneg: "0 \<le> (\<Sum>s\<leftarrow>zs. ?len s)" for zs by (induction zs) simp_all
  have sums: "(\<Sum>s\<leftarrow>mid. ?len s) \<le> c" "0 \<le> (\<Sum>s\<leftarrow>mid. ?len s)"
    using known nonneg [of pre] nonneg [of mid] by (simp_all add: cut)
  show ?thesis
  proof (cases mid)
    case Nil
    have "\<not> lower_bound_till (range_from ?r) ?xs < upper_bound_from (range_till ?r) ?xs"
      "\<forall>x\<in>set [m]. in_range x ?r"
      using Nil s(2,3) m by simp_all
    from emplace_slice_spec [OF xs r this(2,1) new_def] obtain before after where e:
      "set_insert slice_less new ?xs = (before @ new # after, length before, True)" by metis
    have "set_from_range (<) [m] = [m]" by (rule strictly_sorted_unique) simp_all
    then have "length (slice_messages new) = Suc 0" by (simp add: new_def)
    moreover have "sparse_add_range_items [m] ?r ?xs = Inr (before @ new # after,
        \<lparr> update_messages = Some (slice_messages new), update_range = slice_range new, update_count = None \<rparr>,
        \<lparr> add_inslice = ?len new, add_added = ?len new \<rparr>)"
      using e Nil s(2,3) m by (simp add: sparse_add_range_items_def Let_def new_def)
    ultimately show ?thesis
      using Nil present sums late cnt
      by (auto simp: sparse_add_new_def sparse_add_range_def Let_def)
  next
    case (Cons m0 ms)
    define final where "final = fold slice_absorb (new # ms) m0"
    have run: "unite_slices (length pre) (length pre + Suc (length ms)) [m] ?r ?xs = Inr (pre @ [final])"
      using unite_slices_append [of pre m0 ms "[]" new "[m]" ?r] slices_sorted_by_from [OF xs] s(4,5) oks
        cut Cons new_def slice_ok_range by (fastforce simp: final_def)
    let ?c = "slice_absorb new m0"
    have "slice_ok ?c" using oks(2) m Cons by (intro slice_absorb_ok) (auto simp: new_def slice_ok_def slices_ok_def)
    then have "slice_ok final \<and> set (slice_messages final) =
        set (slice_messages ?c) \<union> (\<Union>s\<in>set ms. set (slice_messages s))"
      using fold_absorb_spec [of ?c ms] oks(2) s(5) Cons
      by (fastforce simp: final_def slices_ok_def slice_absorb_def new_def)
    then have final: "strictly_sorted (slice_messages final)"
      "set (slice_messages final) = insert m (\<Union>s\<in>set mid. set (slice_messages s))"
      using Cons by (auto simp: slice_ok_def slice_absorb_def new_def)
    have size: "?len final = (\<Sum>s\<leftarrow>mid. ?len s) + (if sparse_view l m = Some True then 0 else 1)"
    proof -
      define U where "U = (\<Union>s\<in>set mid. set (slice_messages s))"
      have "finite U" "int (card U) = (\<Sum>s\<leftarrow>mid. ?len s)"
        using slices_messages_card [OF oks(2)] by (simp_all add: U_def)
      moreover have "length (slice_messages final) = card (insert m U)"
        using distinct_card [of "slice_messages final"] final by (simp add: strict_sorted_iff U_def)
      ultimately show ?thesis unfolding present U_def [symmetric] by (auto simp: card_insert_if)
    qed
    have "lower_bound_till m ?xs < upper_bound_from ServerMaxMsgId ?xs" using s(2,3) Cons by simp
    then have "sparse_add_range_items [m] ?r ?xs = Inr (pre @ [final],
        \<lparr> update_messages = Some (slice_messages final), update_range = slice_range final, update_count = None \<rparr>,
        \<lparr> add_inslice = ?len final, add_added = ?len final - ?len m0 \<rparr>)"
      using run m s(2,3) Cons cut
      by (simp add: sparse_add_range_items_def sparse_unite_and_add_def Let_def)
    then show ?thesis
      using size sums nonneg [of ms] late cnt Cons
      by (auto simp: sparse_add_new_def sparse_add_range_def Let_def)
  qed
qed

section \<open>Properties\<close>

text \<open>C16. \<open>SparseIdsList::addSlice\<close> refines its specification: for identifiers inside a proper range
  it does not fail, keeps the slices sorted, disjoint and within their ranges, changes the
  view exactly on the range (present there are the given identifiers and those already known),
  and fires an update whose slice covers the range and lists what is present in it.\<close>

theorem sparse_add_slice_refines:
  assumes "sparse_ok l" "range_from r \<le> range_till r" "\<forall>m\<in>set msgs. in_range m r"
  shows "\<exists>l' u. sparse_add_slice msgs r cnt l = Inr (l', u) \<and> sparse_ok l' \<and>
    sparse_view l' = view_add msgs r (sparse_view l) \<and>
    update_describes u r (sparse_view l') \<and> update_count u = sparse_count l'"
  unfolding sparse_add_slice_def using sparse_add_range_spec [OF assms] by simp

definition example_list :: sparse_list where
  "example_list = \<lparr> sparse_count = Some 2,
     sparse_slices =
       [\<lparr> slice_messages = [5], slice_range = \<lparr> range_from = 1, range_till = 10 \<rparr> \<rparr>,
        \<lparr> slice_messages = [25], slice_range = \<lparr> range_from = 20, range_till = 30 \<rparr> \<rparr>] \<rparr>"

lemma example_list_ok: "sparse_ok example_list"
  by (simp add: example_list_def sparse_ok_def slices_ok_Cons slice_ok_def)

theorem sparse_add_slice_refines_witness:
  "\<exists>l' u. sparse_add_slice [12] \<lparr> range_from = 8, range_till = 22 \<rparr> None example_list = Inr (l', u) \<and>
    sparse_ok l' \<and>
    sparse_view l' = view_add [12] \<lparr> range_from = 8, range_till = 22 \<rparr> (sparse_view example_list) \<and>
    update_describes u \<lparr> range_from = 8, range_till = 22 \<rparr> (sparse_view l') \<and>
    update_count u = sparse_count l'"
  by (rule sparse_add_slice_refines) (simp_all add: example_list_ok)

text \<open>C21. \<open>SparseIdsList::removeOne\<close> keeps the invariant, makes a known identifier known absent,
  changes nothing else of the view, and decrements a known counter.\<close>

theorem sparse_remove_one_refines:
  assumes "sparse_ok l"
  shows "sparse_ok (sparse_remove_one m l) \<and>
    sparse_view (sparse_remove_one m l) =
      (\<lambda>x. if x = m then map_option (\<lambda>_. False) (sparse_view l m) else sparse_view l x) \<and>
    sparse_count (sparse_remove_one m l) = map_option (\<lambda>c. c - 1) (sparse_count l)"
  using sparse_remove_one_slices [OF assms] by (simp add: sparse_remove_one_def slices_remove_one_def Let_def)

theorem sparse_remove_one_refines_witness:
  "sparse_ok (sparse_remove_one 5 example_list) \<and>
   sparse_view (sparse_remove_one 5 example_list) 5 = Some False"
  using sparse_remove_one_refines [OF example_list_ok, of 5]
  by (simp add: example_list_def slices_view_def)

text \<open>C1. The cache is never wrong: however the public operations are called along the chat's
  history (new, existing and sliced messages, removals, clearing, missed updates), the list
  stays well formed and whatever it claims to know about an identifier, present or absent, is
  what the chat has.\<close>

theorem sparse_history_sound:
  assumes "sparse_history l H"
  shows "sparse_ok l \<and> (\<forall>m b. sparse_view l m = Some b \<longrightarrow> (b \<longleftrightarrow> m \<in> H))"
  using sparse_history_sound_ok [OF assms] unfolding view_sound_def .

theorem sparse_history_sound_witness:
  "sparse_history (sparse_remove_one 7 (sparse_remove_all empty_sparse_list)) ({} - {7}) \<and>
   sparse_view (sparse_remove_one 7 (sparse_remove_all empty_sparse_list)) 7 = Some False"
proof -
  have h: "sparse_history (sparse_remove_one 7 (sparse_remove_all empty_sparse_list)) ({} - {7})"
    by (rule history_remove [OF history_clear [OF history_start]])
  have "\<exists>b. sparse_view (sparse_remove_one 7 (sparse_remove_all empty_sparse_list)) 7 = Some b"
    by (simp add: sparse_remove_one_def slices_remove_one_def sparse_remove_all_def set_insert_def lower_bound_till_def
        partition_index_def full_range_def ServerMaxMsgId_def slices_view_def set_modify_def
        set_modify_forward.simps Let_def)
  then obtain b where b: "sparse_view (sparse_remove_one 7 (sparse_remove_all empty_sparse_list)) 7 = Some b"
    by blast
  show ?thesis
    using conjunct2 [OF sparse_history_sound [OF h], rule_format, OF b] h b by simp
qed

text \<open>A query in a known slice returns the window around its identifier (the last
  \<open>limitBefore\<close> identifiers below it and the first \<open>limitAfter + 1\<close> not below it), with exact
  skipped counts at an end of the history, and with counts that add up to the total when only
  one end is known.\<close>

theorem sparse_query_window:
  assumes "slice_ok s" "0 \<le> query_limit_before q" "0 \<le> query_limit_after q"
  shows "(let r = sparse_query_from_slice q s l; below = (\<lambda>m. m < query_around q) in
    result_ids r = ids_window (query_limit_before q) (query_limit_after q) (query_around q)
        (slice_messages s) \<and>
    (slice_from s = 0 \<longrightarrow> result_skipped_before r =
      Some (int (length (filter below (slice_messages s))) - int (length (filter below (result_ids r))))) \<and>
    (slice_from s = 0 \<longrightarrow> slice_till s \<noteq> ServerMaxMsgId \<longrightarrow> sparse_count l \<noteq> None \<longrightarrow>
      add_option (result_skipped_before r)
        (add_option (Some (int (length (result_ids r)))) (result_skipped_after r)) = sparse_count l))"
  using query_from_slice_spec(1,3,5) [OF assms refl, of full_range "sparse_count l"]
  unfolding Let_def sparse_query_from_slice_def by (fastforce simp: full_range_def)

theorem sparse_query_window_witness:
  "result_ids (sparse_query_from_slice
      \<lparr> query_around = 5, query_limit_before = 1, query_limit_after = 1 \<rparr>
      \<lparr> slice_messages = [1, 3, 5, 7, 9],
        slice_range = \<lparr> range_from = 0, range_till = 10 \<rparr> \<rparr> empty_sparse_list) = [3, 5, 7]"
proof -
  have ok: "slice_ok \<lparr> slice_messages = [1, 3, 5, 7, 9::int],
      slice_range = \<lparr> range_from = 0, range_till = 10 \<rparr> \<rparr>"
    by (simp add: slice_ok_def)
  show ?thesis
    using sparse_query_window [OF ok, of "\<lparr> query_around = 5, query_limit_before = 1, query_limit_after = 1 \<rparr>"
        empty_sparse_list]
    by (simp add: Let_def ids_window_def)
qed

text \<open>C24. The counter that \<open>addNew\<close> leaves. Let the counter of a list be known and not below the
  number of the known messages. \<open>addNew\<close> of a message then adds one if the message was not known
  and, besides, every message of the slices that end at the new message or after it except the
  first of them, although those are counted already; only a list that has become one slice over
  the full range gets the right number. So a new message below a later known slice is counted
  together with the messages of that slice, a second time.\<close>

theorem sparse_add_new_overcounts:
  assumes "sparse_ok l" "sparse_count l = Some c" "m \<le> ServerMaxMsgId"
    "\<forall>s\<in>set (sparse_slices l). slice_till s \<le> ServerMaxMsgId"
    "(\<Sum>s\<leftarrow>sparse_slices l. int (length (slice_messages s))) \<le> c"
  shows "\<exists>l' u. sparse_add_new m l = Inr (l', u) \<and>
    sparse_count l' = Some (
      if length (sparse_slices l') = 1 \<and> slice_range (hd (sparse_slices l')) = full_range
      then int (length (slice_messages (hd (sparse_slices l'))))
      else c + (if sparse_view l m = Some True then 0 else 1) +
        (\<Sum>s\<leftarrow>tl (filter (\<lambda>s. m \<le> slice_till s) (sparse_slices l)). int (length (slice_messages s))))"
  by (rule sparse_add_new_count [OF assms])

text \<open>With two messages known and counted, a third one below one of them makes the counter four.\<close>

theorem sparse_add_new_overcounts_witness:
  "\<exists>l' u. sparse_add_new 8 example_list = Inr (l', u) \<and> sparse_count l' = Some 4"
proof -
  have "sparse_count example_list = Some 2" by (simp add: example_list_def)
  from sparse_add_new_overcounts [OF example_list_ok this, of 8] obtain l' u where
    r: "sparse_add_new 8 example_list = Inr (l', u)" "sparse_count l' = Some (
      if length (sparse_slices l') = 1 \<and> slice_range (hd (sparse_slices l')) = full_range
      then int (length (slice_messages (hd (sparse_slices l'))))
      else 2 + (if sparse_view example_list 8 = Some True then 0 else 1) +
        (\<Sum>s\<leftarrow>tl (filter (\<lambda>s. 8 \<le> slice_till s) (sparse_slices example_list)).
           int (length (slice_messages s))))"
    by (auto simp: example_list_def ServerMaxMsgId_def)
  moreover have "map slice_range (sparse_slices l') = [\<lparr> range_from = 1, range_till = ServerMaxMsgId \<rparr>]"
    using r(1)
    by (auto simp: sparse_add_new_def sparse_add_range_def sparse_add_range_items_def
        sparse_unite_and_add_def unite_slices_def modify_slice_def slice_merge_def set_modify_def
        set_modify_forward.simps example_list_def lower_bound_till_def upper_bound_from_def
        partition_index_def ServerMaxMsgId_def erase_range_def full_range_def Let_def upt_rec)
  then have "slice_range (hd (sparse_slices l')) \<noteq> full_range"
    by (auto simp: full_range_def)
  ultimately show ?thesis by (simp add: example_list_def slices_view_def)
qed

end
