(* ===== verification/Slice_Builder.thy ===== *)
theory Slice_Builder
  imports Sparse_Ids_List
begin

text \<open>
  \<open>SparseIdsSliceBuilder\<close> (data/data_sparse_ids.cpp) and \<open>MessagesSliceBuilder\<close>
  (data/data_messages.cpp) keep the window of identifiers that a viewer shows around its key.
  The two classes have the same members and the same code up to the type of an identifier and
  a few constants, which are the fields of an \<open>id_kind\<close>: when a key is set, the ends of the
  full range, the value that stands for no old end, and the identifier of a count request.
  The log of \<open>_insufficientAround\<close> is a field of the builder. The limits of a builder are not
  negative, and a failed \<open>Assert\<close> is a value.
\<close>

section \<open>State\<close>

record 'm id_kind =
  kind_key_set :: "'m \<Rightarrow> bool"
  kind_min :: 'm
  kind_max :: 'm
  kind_impossible :: 'm
  kind_possible :: "'m \<Rightarrow> bool"
  kind_none :: 'm

record 'm around_data =
  around_id :: 'm
  around_direction :: load_direction

datatype request_direction = Request_before | Request_after

record 'm slice_builder =
  builder_key :: 'm
  builder_ids :: "'m list"
  builder_range :: "'m msg_range"
  builder_full_count :: "int option"
  builder_skipped_before :: "int option"
  builder_skipped_after :: "int option"
  builder_limit_before :: int
  builder_limit_after :: int
  builder_requests :: "'m around_data list"

definition new_builder :: "'m msg_range \<Rightarrow> 'm \<Rightarrow> int \<Rightarrow> int \<Rightarrow> 'm slice_builder" where
  "new_builder default_range key limitBefore limitAfter =
     \<lparr> builder_key = key, builder_ids = [], builder_range = default_range,
       builder_full_count = None, builder_skipped_before = None, builder_skipped_after = None,
       builder_limit_before = limitBefore, builder_limit_after = limitAfter,
       builder_requests = [] \<rparr>"

section \<open>Requests\<close>

definition fire_request :: "'m around_data \<Rightarrow> 'm slice_builder \<Rightarrow> 'm slice_builder" where
  "fire_request d b = b\<lparr> builder_requests := builder_requests b @ [d] \<rparr>"

definition request_messages ::
    "request_direction \<Rightarrow> 'm slice_builder \<Rightarrow> 'm slice_builder" where
  "request_messages direction b =
     fire_request
       (if builder_ids b = [] then \<lparr> around_id = builder_key b, around_direction = Around \<rparr>
        else if direction = Request_before
        then \<lparr> around_id = hd (builder_ids b), around_direction = Before \<rparr>
        else \<lparr> around_id = last (builder_ids b), around_direction = After \<rparr>) b"

definition request_messages_count :: "'m id_kind \<Rightarrow> 'm slice_builder \<Rightarrow> 'm slice_builder" where
  "request_messages_count kind b =
     fire_request \<lparr> around_id = kind_none kind, around_direction = Around \<rparr> b"

section \<open>Cutting to the limits\<close>

abbreviation may_have_more :: "int option \<Rightarrow> bool" where
  "may_have_more skipped \<equiv> (case skipped of None \<Rightarrow> True | Some k \<Rightarrow> k > 0)"

text \<open>The two halves of \<open>sliceToLimits\<close>, each with whether it has requested something.\<close>

definition limit_begin :: "int \<Rightarrow> 'm slice_builder \<Rightarrow> 'm slice_builder \<times> bool" where
  "limit_begin removeFromBegin b =
     (if removeFromBegin > 0
      then (b\<lparr> builder_ids := drop (nat removeFromBegin) (builder_ids b),
               builder_skipped_before :=
                 map_option (\<lambda>k. k + removeFromBegin) (builder_skipped_before b) \<rparr>, False)
      else if removeFromBegin < 0 \<and> may_have_more (builder_skipped_before b)
      then (request_messages Request_before b, True)
      else (b, False))"

definition limit_end :: "int \<Rightarrow> 'm slice_builder \<Rightarrow> 'm slice_builder \<times> bool" where
  "limit_end removeFromEnd b =
     (if removeFromEnd > 0
      then (b\<lparr> builder_ids := take (length (builder_ids b) - nat removeFromEnd) (builder_ids b),
               builder_skipped_after :=
                 map_option (\<lambda>k. k + removeFromEnd) (builder_skipped_after b) \<rparr>, False)
      else if removeFromEnd < 0 \<and> may_have_more (builder_skipped_after b)
      then (request_messages Request_after b, True)
      else (b, False))"

definition slice_to_limits ::
    "'m::linorder id_kind \<Rightarrow> 'm slice_builder \<Rightarrow> 'm slice_builder" where
  "slice_to_limits kind b =
     (if \<not> kind_key_set kind (builder_key b)
      then if builder_full_count b = None then request_messages_count kind b else b
      else
        let around = int (std_lower_bound (<) (builder_key b) (builder_ids b));
            size = int (length (builder_ids b));
            removeFromBegin = around - builder_limit_before b;
            removeFromEnd = size - around - builder_limit_after b - 1;
            (b1, requested1) = limit_begin removeFromBegin b;
            (b2, requested2) = limit_end removeFromEnd b1
        in if builder_full_count b2 = None \<and> \<not> (requested1 \<or> requested2)
           then request_messages_count kind b2 else b2)"

definition check_insufficient ::
    "'m::linorder id_kind \<Rightarrow> 'm slice_builder \<Rightarrow> 'm slice_builder" where
  "check_insufficient kind b = slice_to_limits kind b"

definition fill_skipped :: "'m slice_builder \<Rightarrow> 'm slice_builder" where
  "fill_skipped b =
     (case builder_full_count b of
        None \<Rightarrow> b
      | Some n \<Rightarrow>
          (case (builder_skipped_before b, builder_skipped_after b) of
             (Some k, None) \<Rightarrow>
               b\<lparr> builder_skipped_after := Some (n - k - int (length (builder_ids b))) \<rparr>
           | (None, Some k) \<Rightarrow>
               b\<lparr> builder_skipped_before := Some (n - k - int (length (builder_ids b))) \<rparr>
           | _ \<Rightarrow> b))"

definition fill_skipped_and_slice_to_limits ::
    "'m::linorder id_kind \<Rightarrow> 'm slice_builder \<Rightarrow> 'm slice_builder" where
  "fill_skipped_and_slice_to_limits kind b = slice_to_limits kind (fill_skipped b)"

section \<open>Merging what has come from the storage\<close>

definition adjust_skipped_before ::
    "'m::linorder \<Rightarrow> int \<Rightarrow> 'm slice_builder \<Rightarrow> 'm slice_builder outcome" where
  "adjust_skipped_before oldId oldSkippedBefore b =
     (let i = set_find (<) oldId (builder_ids b)
      in asserts (i \<noteq> length (builder_ids b))
           (Inr (b\<lparr> builder_skipped_before := Some (max (oldSkippedBefore - int i) 0) \<rparr>)))"

definition adjust_skipped_after ::
    "'m::linorder \<Rightarrow> int \<Rightarrow> 'm slice_builder \<Rightarrow> 'm slice_builder outcome" where
  "adjust_skipped_after oldId oldSkippedAfter b =
     (let i = set_find (<) oldId (builder_ids b)
      in asserts (i \<noteq> length (builder_ids b))
           (Inr (b\<lparr> builder_skipped_after :=
              Some (max (oldSkippedAfter - (int (length (builder_ids b)) - int i - 1)) 0) \<rparr>)))"

text \<open>\<open>*_fullCount <= _ids.size()\<close> compares without sign, so a negative counter is a large one.\<close>

definition not_above_size :: "int \<Rightarrow> 'm list \<Rightarrow> bool" where
  "not_above_size n ids \<longleftrightarrow> 0 \<le> n \<and> n \<le> int (length ids)"

text \<open>How a skipped counter is carried over a merge, the two chains of \<open>mergeSliceData\<close>.\<close>

definition merge_skipped_before ::
    "'m::linorder id_kind \<Rightarrow> 'm list \<Rightarrow> int option \<Rightarrow> 'm \<Rightarrow> 'm slice_builder \<Rightarrow>
     'm slice_builder outcome" where
  "merge_skipped_before kind messageIds skippedBefore wasMinId b =
     (case skippedBefore of
        Some k \<Rightarrow> adjust_skipped_before (hd messageIds) k b
      | None \<Rightarrow>
          (case builder_skipped_before b of
             Some k \<Rightarrow> if kind_possible kind wasMinId then adjust_skipped_before wasMinId k b
                       else Inr (b\<lparr> builder_skipped_before := None \<rparr>)
           | None \<Rightarrow> Inr (b\<lparr> builder_skipped_before := None \<rparr>)))"

definition merge_skipped_after ::
    "'m::linorder id_kind \<Rightarrow> 'm list \<Rightarrow> int option \<Rightarrow> 'm \<Rightarrow> 'm slice_builder \<Rightarrow>
     'm slice_builder outcome" where
  "merge_skipped_after kind messageIds skippedAfter wasMaxId b =
     (case skippedAfter of
        Some k \<Rightarrow> adjust_skipped_after (last messageIds) k b
      | None \<Rightarrow>
          (case builder_skipped_after b of
             Some k \<Rightarrow> if kind_possible kind wasMaxId then adjust_skipped_after wasMaxId k b
                       else Inr (b\<lparr> builder_skipped_after := None \<rparr>)
           | None \<Rightarrow> Inr (b\<lparr> builder_skipped_after := None \<rparr>)))"

definition merge_slice_data ::
    "'m::linorder id_kind \<Rightarrow> int option \<Rightarrow> 'm list \<Rightarrow> int option \<Rightarrow> int option \<Rightarrow>
     'm slice_builder \<Rightarrow> 'm slice_builder outcome" where
  "merge_slice_data kind cnt messageIds skippedBefore skippedAfter b =
     (if messageIds = [] then
        Inr (fill_skipped_and_slice_to_limits kind
          (case cnt of
             None \<Rightarrow> b
           | Some n \<Rightarrow>
               if builder_full_count b \<noteq> Some n then
                 if not_above_size n (builder_ids b) then
                   b\<lparr> builder_full_count := Some (int (length (builder_ids b))),
                      builder_skipped_before := Some 0, builder_skipped_after := Some 0 \<rparr>
                 else b\<lparr> builder_full_count := Some n \<rparr>
               else b))
      else
        let b0 = (if cnt \<noteq> None then b\<lparr> builder_full_count := cnt \<rparr> else b);
            wasMinId = (if builder_ids b0 = [] then kind_impossible kind else hd (builder_ids b0));
            wasMaxId = (if builder_ids b0 = [] then kind_impossible kind else last (builder_ids b0));
            b1 = b0\<lparr> builder_ids := set_merge (<) messageIds (builder_ids b0) \<rparr>
        in bind_outcome (merge_skipped_before kind messageIds skippedBefore wasMinId b1)
             (\<lambda>b2. bind_outcome (merge_skipped_after kind messageIds skippedAfter wasMaxId b2)
               (\<lambda>b3. Inr (fill_skipped_and_slice_to_limits kind b3))))"

definition apply_initial ::
    "'m::linorder id_kind \<Rightarrow> 'm list_result \<Rightarrow> 'm slice_builder \<Rightarrow>
     ('m slice_builder \<times> bool) outcome" where
  "apply_initial kind result b =
     bind_outcome
       (merge_slice_data kind (result_count result) (result_ids result)
          (result_skipped_before result) (result_skipped_after result) b)
       (\<lambda>b'. Inr (b', True))"

definition ranges_intersect :: "'m::linorder msg_range \<Rightarrow> 'm msg_range \<Rightarrow> bool" where
  "ranges_intersect range1 range2 \<longleftrightarrow>
     range_from range1 \<le> range_till range2 \<and> range_from range2 \<le> range_till range1"

definition need_merge_messages ::
    "'m::linorder slice_update \<Rightarrow> 'm slice_builder \<Rightarrow> bool" where
  "need_merge_messages u b \<longleftrightarrow>
     update_messages u \<noteq> None \<and>
     ranges_intersect (update_range u)
       \<lparr> range_from = if builder_ids b = [] then builder_key b else hd (builder_ids b),
         range_till = if builder_ids b = [] then builder_key b else last (builder_ids b) \<rparr>"

definition apply_update ::
    "'m::linorder id_kind \<Rightarrow> 'm slice_update \<Rightarrow> 'm slice_builder \<Rightarrow>
     ('m slice_builder \<times> bool) outcome" where
  "apply_update kind u b =
     (if \<not> need_merge_messages u b \<and> update_count u = None then Inr (b, False)
      else
        let skippedBefore = (if range_from (update_range u) = kind_min kind then Some 0 else None);
            skippedAfter = (if range_till (update_range u) = kind_max kind then Some 0 else None)
        in bind_outcome
             (merge_slice_data kind (update_count u)
                (if need_merge_messages u b then the (update_messages u) else [])
                skippedBefore skippedAfter b)
             (\<lambda>b'. Inr (b', True)))"

section \<open>Removing\<close>

text \<open>\<open>removeOne\<close> up to what the two classes do when something has changed.\<close>

definition builder_remove_one ::
    "'m::linorder \<Rightarrow> 'm slice_builder \<Rightarrow> 'm slice_builder \<times> bool" where
  "builder_remove_one messageId b =
     (let (b1, changed1) =
            (case builder_full_count b of
               Some n \<Rightarrow> if n > 0 then (b\<lparr> builder_full_count := Some (n - 1) \<rparr>, True) else (b, False)
             | None \<Rightarrow> (b, False))
      in if multi_contains (<) messageId (builder_ids b1)
         then (b1\<lparr> builder_ids := snd (set_remove (<) messageId (builder_ids b1)) \<rparr>, True)
         else if builder_ids b1 \<noteq> [] then
           if hd (builder_ids b1) > messageId \<and>
              (case builder_skipped_before b1 of None \<Rightarrow> False | Some k \<Rightarrow> k > 0)
           then (b1\<lparr> builder_skipped_before :=
                   map_option (\<lambda>k. k - 1) (builder_skipped_before b1) \<rparr>, True)
           else if last (builder_ids b1) < messageId \<and>
              (case builder_skipped_after b1 of None \<Rightarrow> False | Some k \<Rightarrow> k > 0)
           then (b1\<lparr> builder_skipped_after :=
                   map_option (\<lambda>k. k - 1) (builder_skipped_after b1) \<rparr>, True)
           else (b1, changed1)
         else (b1, changed1))"

definition builder_remove_all ::
    "'m id_kind \<Rightarrow> 'm slice_builder \<Rightarrow> 'm slice_builder \<times> bool" where
  "builder_remove_all kind b =
     (b\<lparr> builder_ids := [],
        builder_range := \<lparr> range_from = kind_min kind, range_till = kind_max kind \<rparr>,
        builder_full_count := Some 0, builder_skipped_before := Some 0,
        builder_skipped_after := Some 0 \<rparr>, True)"

section \<open>Following a history\<close>

text \<open>
  What a builder promises: its window is a segment of the sorted history \<open>H\<close> with the key not
  outside it, and the counters it knows are the numbers of identifiers before the window,
  after it and in all.
\<close>

definition follows :: "'m::linorder list \<Rightarrow> 'm slice_builder \<Rightarrow> bool" where
  "follows H b \<longleftrightarrow>
     (\<exists>xs ys. H = xs @ builder_ids b @ ys \<and>
        (\<forall>k. builder_skipped_before b = Some k \<longrightarrow> k = int (length xs)) \<and>
        (\<forall>k. builder_skipped_after b = Some k \<longrightarrow> k = int (length ys)) \<and>
        (\<forall>n. builder_full_count b = Some n \<longrightarrow> n = int (length H)) \<and>
        (\<forall>x\<in>set xs. x < builder_key b) \<and> (\<forall>y\<in>set ys. builder_key b \<le> y))"

lemma followsI:
  assumes "H = xs @ builder_ids b @ ys"
    and "\<And>k. builder_skipped_before b = Some k \<Longrightarrow> k = int (length xs)"
    and "\<And>k. builder_skipped_after b = Some k \<Longrightarrow> k = int (length ys)"
    and "\<And>n. builder_full_count b = Some n \<Longrightarrow> n = int (length H)"
    and "\<And>x. x \<in> set xs \<Longrightarrow> x < builder_key b"
    and "\<And>y. y \<in> set ys \<Longrightarrow> builder_key b \<le> y"
  shows "follows H b"
  unfolding follows_def by (rule exI [of _ xs], rule exI [of _ ys]) (use assms in blast)

lemma followsE:
  assumes "follows H b"
  obtains xs ys where "H = xs @ builder_ids b @ ys"
    "\<And>k. builder_skipped_before b = Some k \<Longrightarrow> k = int (length xs)"
    "\<And>k. builder_skipped_after b = Some k \<Longrightarrow> k = int (length ys)"
    "\<And>n. builder_full_count b = Some n \<Longrightarrow> n = int (length H)"
    "\<And>x. x \<in> set xs \<Longrightarrow> x < builder_key b"
    "\<And>y. y \<in> set ys \<Longrightarrow> builder_key b \<le> y"
  using assms unfolding follows_def by blast

lemma request_fields [simp]:
  "builder_ids (fire_request d b) = builder_ids b"
  "builder_key (fire_request d b) = builder_key b"
  "builder_skipped_before (fire_request d b) = builder_skipped_before b"
  "builder_skipped_after (fire_request d b) = builder_skipped_after b"
  "builder_full_count (fire_request d b) = builder_full_count b"
  "builder_limit_before (fire_request d b) = builder_limit_before b"
  "builder_limit_after (fire_request d b) = builder_limit_after b"
  "builder_requests (fire_request d b) = builder_requests b @ [d]"
  by (simp_all add: fire_request_def)

lemma follows_fire [simp]: "follows H (fire_request d b) = follows H b"
  by (simp add: follows_def)

lemma follows_request [simp]:
  "follows H (request_messages dir b) = follows H b"
  "follows H (request_messages_count kind b) = follows H b"
  by (simp_all add: request_messages_def request_messages_count_def)

lemma follows_limit_begin:
  assumes "follows H b" "r \<le> int (length (builder_ids b))"
    "\<And>m. m \<in> set (take (nat r) (builder_ids b)) \<Longrightarrow> m < builder_key b"
  shows "follows H (fst (limit_begin r b))"
proof -
  obtain xs ys where w: "H = xs @ builder_ids b @ ys"
    "\<And>k. builder_skipped_before b = Some k \<Longrightarrow> k = int (length xs)"
    "\<And>k. builder_skipped_after b = Some k \<Longrightarrow> k = int (length ys)"
    "\<And>n. builder_full_count b = Some n \<Longrightarrow> n = int (length H)"
    "\<And>x. x \<in> set xs \<Longrightarrow> x < builder_key b"
    "\<And>y. y \<in> set ys \<Longrightarrow> builder_key b \<le> y"
    using followsE [OF assms(1)] by blast
  show ?thesis
  proof (cases "r > 0")
    case True
    let ?b = "fst (limit_begin r b)"
    have split: "builder_ids b = take (nat r) (builder_ids b) @ builder_ids ?b"
      using True by (simp add: limit_begin_def)
    show ?thesis
    proof (rule followsI [of _ "xs @ take (nat r) (builder_ids b)" _ ys])
      show "H = (xs @ take (nat r) (builder_ids b)) @ builder_ids ?b @ ys"
        using w(1) split by (metis append.assoc)
    qed (use True w(2-6) assms(2,3) in \<open>auto simp: limit_begin_def\<close>)
  next
    case False
    then show ?thesis using assms(1) by (simp add: limit_begin_def)
  qed
qed

lemma follows_limit_end:
  assumes "follows H b" "r \<le> int (length (builder_ids b))"
    "\<And>m. m \<in> set (drop (length (builder_ids b) - nat r) (builder_ids b)) \<Longrightarrow> builder_key b \<le> m"
  shows "follows H (fst (limit_end r b))"
proof -
  obtain xs ys where w: "H = xs @ builder_ids b @ ys"
    "\<And>k. builder_skipped_before b = Some k \<Longrightarrow> k = int (length xs)"
    "\<And>k. builder_skipped_after b = Some k \<Longrightarrow> k = int (length ys)"
    "\<And>n. builder_full_count b = Some n \<Longrightarrow> n = int (length H)"
    "\<And>x. x \<in> set xs \<Longrightarrow> x < builder_key b"
    "\<And>y. y \<in> set ys \<Longrightarrow> builder_key b \<le> y"
    using followsE [OF assms(1)] by blast
  show ?thesis
  proof (cases "r > 0")
    case True
    let ?b = "fst (limit_end r b)"
    let ?cut = "drop (length (builder_ids b) - nat r) (builder_ids b)"
    have split: "builder_ids b = builder_ids ?b @ ?cut"
      using True by (simp add: limit_end_def)
    show ?thesis
    proof (rule followsI [of _ xs _ "?cut @ ys"])
      show "H = xs @ builder_ids ?b @ ?cut @ ys"
        using w(1) split by (metis append.assoc)
    qed (use True w(2-6) assms(2,3) in \<open>auto simp: limit_end_def\<close>)
  next
    case False
    then show ?thesis using assms(1) by (simp add: limit_end_def)
  qed
qed

definition limits_ok :: "'m slice_builder \<Rightarrow> bool" where
  "limits_ok b \<longleftrightarrow> 0 \<le> builder_limit_before b \<and> 0 \<le> builder_limit_after b"

lemma follows_sorted: "follows H b \<Longrightarrow> strictly_sorted H \<Longrightarrow> strictly_sorted (builder_ids b)"
  by (auto simp: follows_def sorted_wrt_append)

lemma take_below:
  assumes "k \<le> std_lower_bound (<) v ids" "m \<in> set (take k ids)"
  shows "m < (v :: 'm::linorder)"
proof -
  have "m \<in> set (take (std_lower_bound (<) v ids) ids)"
    by (rule subsetD [OF set_take_subset_set_take [OF assms(1)] assms(2)])
  then have "m \<in> set (takeWhile (\<lambda>x. x < v) ids)"
    by (simp add: std_lower_bound_def take_partition_index)
  then show ?thesis using set_takeWhileD_both by metis
qed

lemma drop_not_below:
  assumes "strictly_sorted ids" "std_lower_bound (<) v ids \<le> k" "m \<in> set (drop k ids)"
  shows "(v :: 'm::linorder) \<le> m"
proof -
  have "m \<in> set (drop (std_lower_bound (<) v ids) ids)"
    by (rule subsetD [OF set_drop_subset_set_drop [OF assms(2)] assms(3)])
  then have "m \<in> set (dropWhile (\<lambda>x. x < v) ids)"
    by (simp add: std_lower_bound_def drop_partition_index)
  then have "\<not> m < v" by (rule set_dropWhile_sorted [OF assms(1), rotated]) simp
  then show ?thesis by simp
qed

lemma follows_slice_to_limits:
  assumes "follows H b" "limits_ok b" "strictly_sorted H"
  shows "follows H (slice_to_limits kind b)"
proof -
  let ?ids = "builder_ids b"
  let ?a = "std_lower_bound (<) (builder_key b) ?ids"
  let ?n = "length ?ids"
  let ?r = "int ?a - builder_limit_before b" and ?e = "int ?n - int ?a - builder_limit_after b - 1"
  let ?b = "fst (limit_begin ?r b)"
  have a: "?a \<le> ?n" by (simp add: std_lower_bound_def)
  have 1: "follows H ?b"
  proof (rule follows_limit_begin [OF assms(1)])
    show "?r \<le> int ?n" using a assms(2) by (simp add: limits_ok_def)
    show "m < builder_key b" if "m \<in> set (take (nat ?r) ?ids)" for m
      by (rule take_below [OF _ that]) (use assms(2) in \<open>simp add: limits_ok_def nat_le_iff\<close>)
  qed
  have ids: "builder_ids ?b = drop (nat ?r) ?ids" "builder_key ?b = builder_key b"
    by (auto simp: limit_begin_def request_messages_def)
  have "follows H (fst (limit_end ?e ?b))"
  proof (rule follows_limit_end [OF 1])
    show "?e \<le> int (length (builder_ids ?b))"
      using a assms(2) by (auto simp: ids(1) limits_ok_def)
    show "builder_key ?b \<le> m"
      if m: "m \<in> set (drop (length (builder_ids ?b) - nat ?e) (builder_ids ?b))" for m
    proof -
      have "length (builder_ids ?b) - nat ?e + nat ?r \<ge> ?a"
        using a assms(2) by (auto simp: ids(1) limits_ok_def)
      then show ?thesis
        using drop_not_below [OF follows_sorted [OF assms(1,3)], of "builder_key b"] m
        by (simp add: ids)
    qed
  qed
  then show ?thesis
    using assms(1) by (auto simp: slice_to_limits_def Let_def case_prod_beta)
qed

lemma follows_fill:
  assumes "follows H b" shows "follows H (fill_skipped b)"
proof -
  obtain xs ys where w: "H = xs @ builder_ids b @ ys"
    "\<And>k. builder_skipped_before b = Some k \<Longrightarrow> k = int (length xs)"
    "\<And>k. builder_skipped_after b = Some k \<Longrightarrow> k = int (length ys)"
    "\<And>n. builder_full_count b = Some n \<Longrightarrow> n = int (length H)"
    "\<And>x. x \<in> set xs \<Longrightarrow> x < builder_key b"
    "\<And>y. y \<in> set ys \<Longrightarrow> builder_key b \<le> y"
    using followsE [OF assms] by blast
  have ids: "builder_ids (fill_skipped b) = builder_ids b"
    "builder_full_count (fill_skipped b) = builder_full_count b"
    "builder_key (fill_skipped b) = builder_key b"
    by (simp_all add: fill_skipped_def split: option.splits)
  show ?thesis
  proof (rule followsI [of _ xs _ ys])
    show "H = xs @ builder_ids (fill_skipped b) @ ys" using w(1) ids by simp
  next
    show "\<And>x. x \<in> set xs \<Longrightarrow> x < builder_key (fill_skipped b)"
      "\<And>y. y \<in> set ys \<Longrightarrow> builder_key (fill_skipped b) \<le> y"
      using w(5,6) ids(3) by simp_all
  next
    fix k assume "builder_skipped_before (fill_skipped b) = Some k"
    then show "k = int (length xs)"
      using w(2-4) arg_cong [OF w(1), of length] by (fastforce simp: fill_skipped_def split: option.splits)
  next
    fix k assume "builder_skipped_after (fill_skipped b) = Some k"
    then show "k = int (length ys)"
      using w(2-4) arg_cong [OF w(1), of length] by (fastforce simp: fill_skipped_def split: option.splits)
  qed (use ids w(4) in simp)
qed
section \<open>Segments of a sorted history\<close>

lemma interval_segment:
  "strictly_sorted (H :: 'm::linorder list) \<Longrightarrow> a \<le> b \<Longrightarrow>
   H = filter (\<lambda>m. m < a) H @ filter (\<lambda>m. a \<le> m \<and> m \<le> b) H @ filter (\<lambda>m. b < m) H"
proof (induction H)
  case (Cons x H)
  have above: "\<forall>m\<in>set H. x < m" using Cons.prems by simp
  consider "x < a" | "a \<le> x" "x \<le> b" | "b < x" by fastforce
  then show ?case
  proof cases
    case 1
    then have "\<not> b < x" "\<not> a \<le> x" using Cons.prems by auto
    with 1 show ?thesis using Cons by simp
  next
    case 2
    then have "\<not> x < a" "\<not> b < x" by auto
    moreover have "filter (\<lambda>m. m < a) H = []"
      using above 2(1) by (force simp: filter_empty_conv)
    ultimately show ?thesis using 2 Cons by simp
  next
    case 3
    then have "\<not> x < a" "\<not> x \<le> b" using Cons.prems by auto
    moreover have "filter (\<lambda>m. m < a) H = []" "filter (\<lambda>m. a \<le> m \<and> m \<le> b) H = []"
      using above 3 Cons.prems by (force simp: filter_empty_conv)+
    ultimately show ?thesis using 3 Cons by simp
  qed
qed simp

lemma segment_interval:
  assumes "strictly_sorted (xs @ ids @ ys)" "(ids :: 'm::linorder list) \<noteq> []"
  shows "set ids = {m \<in> set (xs @ ids @ ys). hd ids \<le> m \<and> m \<le> last ids}"
proof -
  have ids: "strictly_sorted ids" using assms(1) by (simp add: sorted_wrt_append)
  have ends: "hd ids \<in> set ids" "last ids \<in> set ids" using assms(2) by simp_all
  have "\<And>m. m \<in> set xs \<Longrightarrow> m < hd ids" "\<And>m. m \<in> set ys \<Longrightarrow> last ids < m"
    using assms(1) ends by (auto simp: sorted_wrt_append)
  then show ?thesis
    using hd_in_bounds [OF ids] last_in_bounds [OF ids] by (auto simp: not_less [symmetric])
qed

text \<open>The position of \<open>v\<close> in a segment, from its position in the history.\<close>

lemma find_in_segment:
  assumes H: "strictly_sorted (H :: 'm::linorder list)" "H = ps @ ids @ qs" "H = xs @ v # ys"
    and v: "v \<in> set ids"
  shows "set_find (<) v ids < length ids \<and> length xs = length ps + set_find (<) v ids \<and>
    length ys + set_find (<) v ids + 1 = length ids + length qs"
proof -
  have ids: "strictly_sorted ids" using H(1,2) by (simp add: sorted_wrt_append)
  have 1: "filter (\<lambda>m. m < v) H = xs"
    using H(1,3) by (auto simp: sorted_wrt_append filter_empty_conv filter_id_conv)
  have "filter (\<lambda>m. m < v) H = ps @ filter (\<lambda>m. m < v) ids"
    using H(1,2) v by (fastforce simp: sorted_wrt_append filter_empty_conv filter_id_conv)
  then have "length xs = length ps + length (filter (\<lambda>m. m < v) ids)" using 1 by simp
  moreover have "set_find (<) v ids = length (filter (\<lambda>m. m < v) ids)"
    using set_find_eq [OF ids, of v] v takeWhile_filter_sorted [OF ids, of "\<lambda>m. m < v"]
    by (simp add: std_lower_bound_def partition_index_def)
  moreover have "length (filter (\<lambda>m. m < v) ids) < length ids"
    using v by (meson length_filter_less less_irrefl)
  moreover have "length xs + 1 + length ys = length ps + length ids + length qs"
    using arg_cong [OF H(2), of length] arg_cong [OF H(3), of length] by simp
  ultimately show ?thesis by linarith
qed

lemma adjust_before_spec:
  assumes "strictly_sorted H" "H = ps @ builder_ids b @ qs" "H = xs @ v # ys"
    "v \<in> set (builder_ids b)"
  shows "adjust_skipped_before v (int (length xs)) b =
    Inr (b\<lparr> builder_skipped_before := Some (int (length ps)) \<rparr>)"
  using find_in_segment [OF assms] by (simp add: adjust_skipped_before_def Let_def)

lemma adjust_after_spec:
  assumes "strictly_sorted H" "H = ps @ builder_ids b @ qs" "H = xs @ v # ys"
    "v \<in> set (builder_ids b)"
  shows "adjust_skipped_after v (int (length ys)) b =
    Inr (b\<lparr> builder_skipped_after := Some (int (length qs)) \<rparr>)"
proof -
  have "int (length ys) - (int (length (builder_ids b)) - int (set_find (<) v (builder_ids b)) - 1) =
      int (length qs)"
    using find_in_segment [OF assms] by linarith
  then show ?thesis
    using find_in_segment [OF assms] by (simp add: adjust_skipped_after_def Let_def)
qed
section \<open>Merging keeps the window in the history\<close>

lemma merge_slice_data_follows:
  assumes H: "strictly_sorted H" "H = H0 @ N" and w: "follows H0 b" "limits_ok b"
    and cnt: "\<And>n. cnt = Some n \<Longrightarrow> n = int (length H)"
    and stale: "N \<noteq> [] \<Longrightarrow> cnt \<noteq> None \<or> builder_full_count b = None"
    and met: "N \<noteq> [] \<Longrightarrow> msgs \<noteq> [] \<Longrightarrow> set N \<subseteq> set msgs"
    and quiet: "N \<noteq> [] \<Longrightarrow> msgs = [] \<Longrightarrow>
      builder_skipped_after b = None \<and> (\<forall>m\<in>set N. builder_key b \<le> m)"
    and msgs: "msgs \<noteq> [] \<Longrightarrow> H = us @ msgs @ vs \<and>
      H = ps @ set_merge (<) msgs (builder_ids b) @ qs"
    and before: "\<And>k. msgs \<noteq> [] \<Longrightarrow> skippedBefore = Some k \<Longrightarrow> k = int (length us)"
    and after: "\<And>k. msgs \<noteq> [] \<Longrightarrow> skippedAfter = Some k \<Longrightarrow> k = int (length vs)"
    and key: "\<And>x. msgs \<noteq> [] \<Longrightarrow> x \<in> set ps \<Longrightarrow> x < builder_key b"
      "\<And>y. msgs \<noteq> [] \<Longrightarrow> y \<in> set qs \<Longrightarrow> builder_key b \<le> y"
    and kind: "\<not> kind_possible kind (kind_impossible kind)"
  shows "\<exists>b'. merge_slice_data kind cnt msgs skippedBefore skippedAfter b = Inr b' \<and> follows H b'"
proof -
  obtain xs ys where f: "H0 = xs @ builder_ids b @ ys"
    "\<And>k. builder_skipped_before b = Some k \<Longrightarrow> k = int (length xs)"
    "\<And>k. builder_skipped_after b = Some k \<Longrightarrow> k = int (length ys)"
    "\<And>n. builder_full_count b = Some n \<Longrightarrow> n = int (length H0)"
    "\<And>x. x \<in> set xs \<Longrightarrow> x < builder_key b"
    "\<And>y. y \<in> set ys \<Longrightarrow> builder_key b \<le> y"
    using followsE [OF w(1)] by blast
  have finish: "follows H (fill_skipped_and_slice_to_limits kind b')"
    if "follows H b'" "limits_ok b'" for b'
  proof -
    have "limits_ok (fill_skipped b')"
      using that(2) by (auto simp: limits_ok_def fill_skipped_def split: option.splits)
    then show ?thesis
      using that(1) H(1) by (simp add: fill_skipped_and_slice_to_limits_def follows_slice_to_limits follows_fill)
  qed
  show ?thesis
  proof (cases "msgs = []")
    case True
    have len: "length H = length xs + length (builder_ids b) + length ys + length N"
      using f(1) H(2) by simp
    have none: "int (length xs) + int (length ys) + int (length N) \<le> 0 \<longleftrightarrow> xs = [] \<and> ys = [] \<and> N = []"
      by (cases xs; cases ys; cases N) auto
    have after0: "k = int (length (ys @ N))" if "builder_skipped_after b = Some k" for k
      using that f(3) quiet True by (cases "N = []") auto
    have full0: "n = int (length H)" if "builder_full_count b = Some n" "cnt = None" for n
      using that f(4) stale H(2) by (cases "N = []") auto
    have key0: "builder_key b \<le> y" if "y \<in> set (ys @ N)" for y
      using that f(6) quiet True by (cases "N = []") auto
    let ?b = "case cnt of None \<Rightarrow> b | Some n \<Rightarrow>
       if builder_full_count b \<noteq> Some n then
         if not_above_size n (builder_ids b) then
           b\<lparr> builder_full_count := Some (int (length (builder_ids b))),
              builder_skipped_before := Some 0, builder_skipped_after := Some 0 \<rparr>
         else b\<lparr> builder_full_count := Some n \<rparr>
       else b"
    have "follows H ?b"
    proof (rule followsI [of _ xs _ "ys @ N"])
      show "H = xs @ builder_ids ?b @ ys @ N" using f(1) H(2) by (auto split: option.splits)
      show "k = int (length xs)" if "builder_skipped_before ?b = Some k" for k
        using that f(2) len cnt none by (auto simp: not_above_size_def split: option.splits if_splits)
      show "k = int (length (ys @ N))" if "builder_skipped_after ?b = Some k" for k
        using that after0 len cnt none by (auto simp: not_above_size_def split: option.splits if_splits)
      show "n = int (length H)" if "builder_full_count ?b = Some n" for n
        using that full0 len cnt none by (auto simp: not_above_size_def split: option.splits if_splits)
      show "x < builder_key ?b" if "x \<in> set xs" for x using that f(5) by (auto split: option.splits)
      show "builder_key ?b \<le> y" if "y \<in> set (ys @ N)" for y using key0 [OF that] by (auto split: option.splits)
    qed
    moreover have "limits_ok ?b"
      using w(2) by (auto simp: limits_ok_def split: option.splits)
    ultimately show ?thesis using True finish [of ?b] by (auto simp: merge_slice_data_def)
  next
    case False
    define b0 where "b0 = (if cnt \<noteq> None then b\<lparr> builder_full_count := cnt \<rparr> else b)"
    define b1 where "b1 = b0\<lparr> builder_ids := set_merge (<) msgs (builder_ids b0) \<rparr>"
    have b0: "builder_ids b0 = builder_ids b" by (simp add: b0_def)
    have b1: "builder_ids b1 = set_merge (<) msgs (builder_ids b)"
      "builder_skipped_before b1 = builder_skipped_before b"
      "builder_skipped_after b1 = builder_skipped_after b"
      "builder_full_count b1 = (if cnt \<noteq> None then cnt else builder_full_count b)"
      by (simp_all add: b0_def b1_def)
    have cut: "H = ps @ builder_ids b1 @ qs" "H = us @ msgs @ vs"
      using msgs [OF False] unfolding b1(1) by blast+
    have sub: "hd msgs \<in> set (builder_ids b1)" "last msgs \<in> set (builder_ids b1)"
      "builder_ids b \<noteq> [] \<Longrightarrow> hd (builder_ids b) \<in> set (builder_ids b1)"
      "builder_ids b \<noteq> [] \<Longrightarrow> last (builder_ids b) \<in> set (builder_ids b1)"
      using False by (simp_all add: b1)
    have first: "H = xs @ hd (builder_ids b) # tl (builder_ids b) @ ys @ N"
      and final: "H = (xs @ butlast (builder_ids b)) @ last (builder_ids b) # ys @ N"
      if "builder_ids b \<noteq> []"
      using f(1) H(2) that by simp_all
    define wasMin where "wasMin = (if builder_ids b0 = [] then kind_impossible kind else hd (builder_ids b0))"
    define wasMax where "wasMax = (if builder_ids b0 = [] then kind_impossible kind else last (builder_ids b0))"
    obtain b2 where b2: "merge_skipped_before kind msgs skippedBefore wasMin b1 = Inr b2"
      "b2 = b1\<lparr> builder_skipped_before := builder_skipped_before b2 \<rparr>"
      "builder_skipped_before b2 = None \<or> builder_skipped_before b2 = Some (int (length ps))"
    proof (cases skippedBefore)
      case (Some k)
      have "H = us @ hd msgs # tl msgs @ vs" using cut(2) False by simp
      from adjust_before_spec [OF H(1) cut(1) this] show thesis
        using that Some sub(1) before [OF False Some] False by (auto simp: merge_skipped_before_def)
    next
      case None
      show thesis
      proof (cases "builder_ids b = [] \<or> builder_skipped_before b = None \<or> \<not> kind_possible kind (hd (builder_ids b))")
        case True
        then show thesis
          using that [of "b1\<lparr> builder_skipped_before := None \<rparr>"] None b1(2) kind
          by (auto simp: merge_skipped_before_def wasMin_def b0 split: option.splits)
      next
        case False
        then show thesis
          using that None b1(2) f(2) adjust_before_spec [OF H(1) cut(1) first] sub(3)
          by (auto simp: merge_skipped_before_def wasMin_def b0)
      qed
    qed
    have ids2: "builder_ids b2 = builder_ids b1" "builder_skipped_after b2 = builder_skipped_after b"
      "builder_full_count b2 = builder_full_count b1"
      by (subst b2(2), simp add: b1)+
    then have cut2: "H = ps @ builder_ids b2 @ qs" using cut(1) by simp
    obtain b3 where b3: "merge_skipped_after kind msgs skippedAfter wasMax b2 = Inr b3"
      "b3 = b2\<lparr> builder_skipped_after := builder_skipped_after b3 \<rparr>"
      "builder_skipped_after b3 = None \<or> builder_skipped_after b3 = Some (int (length qs))"
    proof (cases skippedAfter)
      case (Some k)
      have "H = (us @ butlast msgs) @ last msgs # vs" using cut(2) False by simp
      from adjust_after_spec [OF H(1) cut2 this] show thesis
        using that Some sub(2) after [OF False Some] False ids2 by (auto simp: merge_skipped_after_def)
    next
      case None
      show thesis
      proof (cases "builder_ids b = [] \<or> builder_skipped_after b = None \<or> \<not> kind_possible kind (last (builder_ids b))")
        case True
        then show thesis
          using that [of "b2\<lparr> builder_skipped_after := None \<rparr>"] None ids2 kind
          by (auto simp: merge_skipped_after_def wasMax_def b0 split: option.splits)
      next
        case False
        have "adjust_skipped_after (last (builder_ids b)) (int (length ys)) b2 =
            Inr (b2\<lparr> builder_skipped_after := Some (int (length qs)) \<rparr>)"
        proof (cases "N = []")
          case True
          then show ?thesis
            using adjust_after_spec [OF H(1) cut2 final] False sub(4) ids2 by simp
        next
          case N: False
          have "set N \<subseteq> set (builder_ids b1)" using met [OF N \<open>msgs \<noteq> []\<close>] b1(1) by auto
          then have "last H \<in> set (builder_ids b1)" using N H(2) by auto
          then have qs: "qs = []"
            using H(1) cut(1) by (cases qs rule: rev_cases) (auto simp: sorted_wrt_append)
          show ?thesis
            using find_in_segment [OF H(1) cut2 final] False sub(4) ids2 qs
            by (simp add: adjust_skipped_after_def Let_def)
        qed
        then show thesis
          using that False None ids2 f(3) by (auto simp: merge_skipped_after_def wasMax_def b0)
      qed
    qed
    have lim: "limits_ok b1" using w(2) by (simp add: b1_def b0_def limits_ok_def)
    then have lim: "limits_ok b2" by (subst b2(2)) (simp add: limits_ok_def)
    have ids3: "builder_ids b3 = builder_ids b1"
      "builder_skipped_before b3 = builder_skipped_before b2"
      "builder_full_count b3 = builder_full_count b1"
      by (subst b3(2), simp add: ids2)+
    have "builder_key b1 = builder_key b" by (simp add: b1_def b0_def)
    then have "builder_key b2 = builder_key b" by (subst b2(2)) simp
    then have key3: "builder_key b3 = builder_key b" by (subst b3(2)) simp
    have lim: "limits_ok b3" using lim by (subst b3(2)) (simp add: limits_ok_def)
    have "follows H b3"
    proof (rule followsI [of _ ps _ qs])
      fix n assume "builder_full_count b3 = Some n"
      then show "n = int (length H)"
        using ids3(3) b1(4) cnt f(4) stale H(2) by (cases "N = []") (auto split: if_splits)
    qed (use cut ids3 b2(3) b3(3) key [OF False] key3 in auto)
    then have "follows H (fill_skipped_and_slice_to_limits kind b3)" using finish lim by blast
    moreover have "merge_slice_data kind cnt msgs skippedBefore skippedAfter b =
        Inr (fill_skipped_and_slice_to_limits kind b3)"
      unfolding merge_slice_data_def Let_def b0_def [symmetric] b1_def [symmetric]
        wasMin_def [symmetric] wasMax_def [symmetric]
      using False b2(1) b3(1) by simp
    ultimately show ?thesis by blast
  qed
qed

lemma interval_segment_exists:
  assumes "strictly_sorted (H :: 'm::linorder list)" "strictly_sorted ids" "a \<le> b"
    "set ids = {m \<in> set H. a \<le> m \<and> m \<le> b}"
  shows "\<exists>ps qs. H = ps @ ids @ qs"
proof -
  have "ids = filter (\<lambda>m. a \<le> m \<and> m \<le> b) H"
    by (rule strictly_sorted_unique) (use assms in \<open>simp_all add: sorted_wrt_filter\<close>)
  then show ?thesis using interval_segment [OF assms(1,3)] by metis
qed

lemma set_merge_Nil: "strictly_sorted ms \<Longrightarrow> set_merge (<) ms [] = (ms :: 'm::linorder list)"
  by (rule strictly_sorted_unique) simp_all

text \<open>Merging a loaded range that meets the window gives a segment again.\<close>

lemma merged_segment:
  assumes H: "strictly_sorted (H :: 'm::linorder list)" "H = xs @ ids @ ys"
    and msgs: "msgs = filter (\<lambda>m. in_range m r) H" "msgs \<noteq> []"
    and meet: "ids \<noteq> [] \<Longrightarrow> range_from r \<le> last ids \<and> hd ids \<le> range_till r"
    and key: "ids = [] \<Longrightarrow> in_range key r" "\<forall>x\<in>set xs. x < key" "\<forall>y\<in>set ys. key \<le> y \<or> in_range y r"
  shows "\<exists>us vs ps qs. H = us @ msgs @ vs \<and> H = ps @ set_merge (<) msgs ids @ qs \<and>
    (\<forall>x\<in>set ps. x < key) \<and> (\<forall>y\<in>set qs. key \<le> y)"
proof -
  obtain m where "m \<in> set msgs" using msgs(2) by (cases msgs) auto
  then have "in_range m r" unfolding msgs(1) by simp
  then have r: "range_from r \<le> range_till r" by (meson order_trans)
  have m: "strictly_sorted msgs" "set msgs = {m \<in> set H. range_from r \<le> m \<and> m \<le> range_till r}"
    using msgs(1) H(1) by (auto simp: sorted_wrt_filter)
  obtain us vs where 1: "H = us @ msgs @ vs"
    using interval_segment_exists [OF H(1) m(1) r m(2)] by blast
  show ?thesis
  proof (cases "ids = []")
    case True
    obtain m0 where m0: "m0 \<in> set msgs" using msgs(2) by (cases msgs) auto
    have m0r: "in_range m0 r" and k: "in_range key r" using m(2) m0 key(1) True by blast+
    have sorted: "strictly_sorted (us @ msgs @ vs)" "set us \<union> set vs \<subseteq> set H"
      using H(1) 1 by auto
    have "x < key" if "x \<in> set us" for x
    proof (rule ccontr)
      assume "\<not> x < key"
      moreover have "x < m0" using sorted(1) that m0 by (auto simp: sorted_wrt_append)
      ultimately have "in_range x r" using m0r k by (meson less_imp_le not_less order_trans)
      then have "x \<in> set msgs" using m(2) that sorted(2) by blast
      then show False using sorted(1) that by (auto simp: sorted_wrt_append)
    qed
    moreover have "key \<le> y" if "y \<in> set vs" for y
    proof (rule ccontr)
      assume "\<not> key \<le> y"
      moreover have "m0 < y" using sorted(1) that m0 by (auto simp: sorted_wrt_append)
      ultimately have "in_range y r" using m0r k by (meson less_imp_le not_le order_trans)
      then have "y \<in> set msgs" using m(2) that sorted(2) by blast
      then show False using sorted(1) that by (auto simp: sorted_wrt_append)
    qed
    ultimately show ?thesis using 1 set_merge_Nil [OF m(1)] True by auto
  next
    case False
    have ids: "strictly_sorted ids" using H by (simp add: sorted_wrt_append)
    have "hd ids \<le> last ids" using hd_in_bounds [OF ids] False by simp
    then have "min (range_from r) (hd ids) \<le> max (range_till r) (last ids)"
      using r by (simp add: min_le_iff_disj le_max_iff_disj)
    moreover have "set (set_merge (<) msgs ids) =
        {m \<in> set H. min (range_from r) (hd ids) \<le> m \<and> m \<le> max (range_till r) (last ids)}"
    proof -
      have "set ids = {m \<in> set H. hd ids \<le> m \<and> m \<le> last ids}"
        using segment_interval [of xs ids ys] H False by simp
      then show ?thesis
        using m(2) meet [OF False] by (auto simp: min_le_iff_disj le_max_iff_disj)
    qed
    ultimately obtain ps qs where c: "H = ps @ set_merge (<) msgs ids @ qs"
      using interval_segment_exists [OF H(1) set_merge_sorted] by blast
    have sorted: "strictly_sorted (ps @ set_merge (<) msgs ids @ qs)"
      "set ps \<union> set qs \<subseteq> set xs \<union> set ids \<union> set ys"
      using H(1) c arg_cong [OF H(2), of set] arg_cong [OF c, of set] by auto
    have ends: "hd ids \<in> set (set_merge (<) msgs ids)" "last ids \<in> set (set_merge (<) msgs ids)"
      using False by simp_all
    have "x < key" if "x \<in> set ps" for x
    proof -
      have "x < hd ids" using sorted(1) that ends(1) by (auto simp: sorted_wrt_append)
      moreover have "hd ids \<le> y" if "y \<in> set ids \<union> set ys" for y
        using H False that hd_in_bounds [OF ids] by (auto simp: sorted_wrt_append intro: less_imp_le)
      ultimately show ?thesis using sorted(2) that key(2) by fastforce
    qed
    moreover have "key \<le> y" if "y \<in> set qs" for y
    proof -
      have y: "last ids < y" "y \<notin> set msgs"
        using sorted(1) that ends(2) by (auto simp: sorted_wrt_append)
      moreover have "x \<le> last ids" if "x \<in> set xs \<union> set ids" for x
        using H False that last_in_bounds [OF ids] by (auto simp: sorted_wrt_append intro: less_imp_le)
      ultimately have "y \<in> set ys" using sorted(2) that by fastforce
      then show ?thesis using key(3) y(2) m(2) H(2) by auto
    qed
    ultimately show ?thesis using 1 c by blast
  qed
qed

text \<open>
  A truthful update of a history to which \<open>N\<close> may have been appended: the slice it points at
  lists what the history has in its range, and its counter is the size of the history.
\<close>

definition truthful_update :: "'m::linorder list \<Rightarrow> 'm slice_update \<Rightarrow> bool" where
  "truthful_update H u \<longleftrightarrow>
     (\<forall>msgs. update_messages u = Some msgs \<longrightarrow> msgs = filter (\<lambda>m. in_range m (update_range u)) H) \<and>
     (\<forall>n. update_count u = Some n \<longrightarrow> n = int (length H))"

definition kind_ok :: "'m::linorder id_kind \<Rightarrow> 'm list \<Rightarrow> bool" where
  "kind_ok kind H \<longleftrightarrow> \<not> kind_possible kind (kind_impossible kind) \<and>
     (\<forall>m\<in>set H. kind_min kind \<le> m \<and> m \<le> kind_max kind)"

lemma empty_side:
  assumes "strictly_sorted (H :: 'm::linorder list)" "msgs = filter (\<lambda>m. in_range m r) H"
    "H = us @ msgs @ vs" "msgs \<noteq> []"
  shows "(\<forall>m\<in>set H. range_from r \<le> m) \<Longrightarrow> us = []"
    and "(\<forall>m\<in>set H. m \<le> range_till r) \<Longrightarrow> vs = []"
proof -
  obtain m where m: "m \<in> set msgs" using assms(4) by (cases msgs) auto
  then have r: "in_range m r" unfolding assms(2) by simp
  have H: "strictly_sorted (us @ msgs @ vs)" "set H = set us \<union> set msgs \<union> set vs" 
    using assms(1,3) by auto
  have d: "x \<notin> set msgs" if "x \<in> set us \<union> set vs" for x
    using H(1) that by (auto simp: sorted_wrt_append)
  show "us = []" if a: "\<forall>m\<in>set H. range_from r \<le> m"
  proof (rule ccontr)
    assume "us \<noteq> []"
    then obtain x where x: "x \<in> set us" by (cases us) auto
    then have "x < m" using H(1) m by (auto simp: sorted_wrt_append)
    then have "in_range x r" using a x H(2) r by auto
    then have "x \<in> set msgs" unfolding assms(2) using x H(2) by auto
    with d x show False by blast
  qed
  show "vs = []" if a: "\<forall>m\<in>set H. m \<le> range_till r"
  proof (rule ccontr)
    assume "vs \<noteq> []"
    then obtain x where x: "x \<in> set vs" by (cases vs) auto
    then have "m < x" using H(1) m by (auto simp: sorted_wrt_append)
    then have "in_range x r" using a x H(2) r by auto
    then have "x \<in> set msgs" unfolding assms(2) using x H(2) by auto
    with d x show False by blast
  qed
qed

text \<open>
  What the builder says of the identifiers from its key on: those it shows and those it skips.
  Cutting to the limits does not change it, and a window that follows a history says the number
  of them in the history.
\<close>

definition after_key :: "'m::linorder slice_builder \<Rightarrow> int option" where
  "after_key b = map_option
     (\<lambda>k. k + int (length (filter (\<lambda>m. builder_key b \<le> m) (builder_ids b)))) (builder_skipped_after b)"

lemma follows_after_key:
  assumes "follows H b" "after_key b = Some n"
  shows "n = int (length (filter (\<lambda>m. builder_key b \<le> m) H))"
proof -
  obtain xs ys where w: "H = xs @ builder_ids b @ ys"
    "\<And>k. builder_skipped_before b = Some k \<Longrightarrow> k = int (length xs)"
    "\<And>k. builder_skipped_after b = Some k \<Longrightarrow> k = int (length ys)"
    "\<And>n. builder_full_count b = Some n \<Longrightarrow> n = int (length H)"
    "\<And>x. x \<in> set xs \<Longrightarrow> x < builder_key b"
    "\<And>y. y \<in> set ys \<Longrightarrow> builder_key b \<le> y"
    using followsE [OF assms(1)] by blast
  have "filter (\<lambda>m. builder_key b \<le> m) xs = []" "filter (\<lambda>m. builder_key b \<le> m) ys = ys"
    using w(5,6) by (auto simp: filter_empty_conv filter_id_conv not_le)
  then show ?thesis using assms(2) w(1,3) by (auto simp: after_key_def)
qed

lemma after_key_request [simp]:
  "after_key (request_messages dir b) = after_key b"
  "after_key (request_messages_count kind b) = after_key b"
  by (simp_all add: after_key_def request_messages_def request_messages_count_def)

lemma after_key_limit_begin:
  assumes "\<And>m. m \<in> set (take (nat r) (builder_ids b)) \<Longrightarrow> m < builder_key b"
  shows "after_key (fst (limit_begin r b)) = after_key b"
proof (cases "r > 0")
  case True
  let ?p = "\<lambda>m. builder_key b \<le> m"
  have "filter ?p (take (nat r) (builder_ids b)) = []"
    using assms by (auto simp: filter_empty_conv not_le)
  then have "filter ?p (builder_ids b) = filter ?p (drop (nat r) (builder_ids b))"
    using filter_append [of ?p "take (nat r) (builder_ids b)" "drop (nat r) (builder_ids b)"] by simp
  then show ?thesis using True by (simp add: limit_begin_def after_key_def)
qed (simp add: limit_begin_def)

lemma after_key_limit_end:
  assumes "nat r \<le> length (builder_ids b)"
    "\<And>m. m \<in> set (drop (length (builder_ids b) - nat r) (builder_ids b)) \<Longrightarrow> builder_key b \<le> m"
  shows "after_key (fst (limit_end r b)) = after_key b"
proof (cases "r > 0")
  case True
  let ?p = "\<lambda>m. builder_key b \<le> m" and ?l = "length (builder_ids b) - nat r"
  have "filter ?p (drop ?l (builder_ids b)) = drop ?l (builder_ids b)"
    using assms(2) by (auto simp: filter_id_conv)
  then have "filter ?p (builder_ids b) = filter ?p (take ?l (builder_ids b)) @ drop ?l (builder_ids b)"
    using filter_append [of ?p "take ?l (builder_ids b)" "drop ?l (builder_ids b)"] by simp
  then have "int (length (filter ?p (builder_ids b))) =
      int (length (filter ?p (take ?l (builder_ids b)))) + r"
    using assms(1) True by simp
  then show ?thesis
    using True by (simp add: limit_end_def after_key_def option.map_comp comp_def algebra_simps)
qed (simp add: limit_end_def)

lemma after_key_slice_to_limits:
  assumes "strictly_sorted (builder_ids b)" "limits_ok b"
  shows "after_key (slice_to_limits kind b) = after_key b"
proof -
  let ?ids = "builder_ids b"
  let ?a = "std_lower_bound (<) (builder_key b) ?ids"
  let ?n = "length ?ids"
  let ?r = "int ?a - builder_limit_before b" and ?e = "int ?n - int ?a - builder_limit_after b - 1"
  let ?b = "fst (limit_begin ?r b)"
  have a: "?a \<le> ?n" by (simp add: std_lower_bound_def)
  have ids: "builder_ids ?b = drop (nat ?r) ?ids" "builder_key ?b = builder_key b"
    by (auto simp: limit_begin_def request_messages_def)
  have "after_key ?b = after_key b"
  proof (rule after_key_limit_begin)
    show "m < builder_key b" if "m \<in> set (take (nat ?r) ?ids)" for m
      by (rule take_below [OF _ that]) (use assms(2) in \<open>simp add: limits_ok_def nat_le_iff\<close>)
  qed
  moreover have "after_key (fst (limit_end ?e ?b)) = after_key ?b"
  proof (rule after_key_limit_end)
    show "nat ?e \<le> length (builder_ids ?b)"
      using a assms(2) by (auto simp: ids(1) limits_ok_def)
    show "builder_key ?b \<le> m"
      if m: "m \<in> set (drop (length (builder_ids ?b) - nat ?e) (builder_ids ?b))" for m
    proof -
      have "length (builder_ids ?b) - nat ?e + nat ?r \<ge> ?a"
        using a assms(2) by (auto simp: ids(1) limits_ok_def)
      then show ?thesis
        using drop_not_below [OF assms(1), of "builder_key b"] m by (simp add: ids)
    qed
  qed
  ultimately show ?thesis by (auto simp: slice_to_limits_def Let_def case_prod_beta)
qed

lemma slice_to_limits_full_count:
  "builder_full_count (slice_to_limits kind b) = builder_full_count b"
  "builder_key (slice_to_limits kind b) = builder_key b"
  by (auto simp: slice_to_limits_def Let_def case_prod_beta limit_begin_def limit_end_def
      request_messages_def request_messages_count_def)

text \<open>
  An update with new identifiers at the end is followed exactly when it tells the new count or
  no count is known, and when it meets the window or nothing is said of what is after it.
\<close>

definition new_end_told :: "'m::linorder slice_update \<Rightarrow> 'm slice_builder \<Rightarrow> bool" where
  "new_end_told u b \<longleftrightarrow> (update_count u \<noteq> None \<or> builder_full_count b = None) \<and>
     (need_merge_messages u b \<or> builder_skipped_after b = None)"

lemma apply_update_follows:
  assumes H: "strictly_sorted (H @ N)" and w: "follows H b" "limits_ok b"
    and u: "truthful_update (H @ N) u" and kind: "kind_ok kind (H @ N)"
    and new: "\<forall>m\<in>set N. in_range m (update_range u)"
      "need_merge_messages u b \<or> (\<forall>m\<in>set N. builder_key b \<le> m)"
    and told: "N = [] \<or> new_end_told u b"
  shows "\<exists>b' changed. apply_update kind u b = Inr (b', changed) \<and> follows (H @ N) b'"
proof (cases "\<not> need_merge_messages u b \<and> update_count u = None")
  case True
  obtain xs ys where f: "H = xs @ builder_ids b @ ys"
    "\<And>k. builder_skipped_before b = Some k \<Longrightarrow> k = int (length xs)"
    "\<And>k. builder_skipped_after b = Some k \<Longrightarrow> k = int (length ys)"
    "\<And>n. builder_full_count b = Some n \<Longrightarrow> n = int (length H)"
    "\<And>x. x \<in> set xs \<Longrightarrow> x < builder_key b"
    "\<And>y. y \<in> set ys \<Longrightarrow> builder_key b \<le> y"
    using followsE [OF w(1)] by blast
  have "follows (H @ N) b"
  proof (cases "N = []")
    case False
    then have "builder_full_count b = None" "builder_skipped_after b = None"
      using told True by (auto simp: new_end_told_def)
    then show ?thesis
      using f True new(2) by (intro followsI [of _ xs _ "ys @ N"]) auto
  qed (use w(1) in simp)
  moreover have "apply_update kind u b = Inr (b, False)" using True by (simp add: apply_update_def)
  ultimately show ?thesis by blast
next
  case False
  let ?r = "update_range u"
  let ?msgs = "if need_merge_messages u b then the (update_messages u) else []"
  let ?sb = "if range_from ?r = kind_min kind then Some 0 else None :: int option"
  let ?sa = "if range_till ?r = kind_max kind then Some 0 else None :: int option"
  obtain xs ys where x: "H = xs @ builder_ids b @ ys" "\<forall>x\<in>set xs. x < builder_key b"
    "\<forall>y\<in>set ys. builder_key b \<le> y" using followsE [OF w(1)] by metis
  have full: "?msgs = filter (\<lambda>m. in_range m ?r) (H @ N)" if "need_merge_messages u b"
    using that u by (auto simp: truthful_update_def need_merge_messages_def)
  have msgs: "?msgs = filter (\<lambda>m. in_range m ?r) (H @ N)" if "?msgs \<noteq> []"
    using that full by (cases "need_merge_messages u b") auto
  have meet: "range_from ?r \<le> last (builder_ids b) \<and> hd (builder_ids b) \<le> range_till ?r"
    if "?msgs \<noteq> []" "builder_ids b \<noteq> []"
    using that by (auto simp: need_merge_messages_def ranges_intersect_def split: if_splits)
  have x': "H @ N = xs @ builder_ids b @ (ys @ N)" using x by simp
  have key: "in_range (builder_key b) ?r" if "?msgs \<noteq> []" "builder_ids b = []"
    using that by (auto simp: need_merge_messages_def ranges_intersect_def split: if_splits)
  have N: "\<forall>y\<in>set (ys @ N). builder_key b \<le> y \<or> in_range y ?r" using x(3) new by auto
  obtain us vs ps qs where c: "?msgs \<noteq> [] \<Longrightarrow> H @ N = us @ ?msgs @ vs \<and>
      H @ N = ps @ set_merge (<) ?msgs (builder_ids b) @ qs \<and>
      (\<forall>x\<in>set ps. x < builder_key b) \<and> (\<forall>y\<in>set qs. builder_key b \<le> y)"
    using merged_segment [OF H x' msgs _ meet key x(2) N] by blast
  have c1: "H @ N = us @ ?msgs @ vs \<and> H @ N = ps @ set_merge (<) ?msgs (builder_ids b) @ qs"
    if "?msgs \<noteq> []" using c [OF that] by blast
  have c2: "x < builder_key b" if "?msgs \<noteq> []" "x \<in> set ps" for x
    using c [OF that(1)] that(2) by blast
  have c3: "builder_key b \<le> y" if "?msgs \<noteq> []" "y \<in> set qs" for y
    using c [OF that(1)] that(2) by blast
  have stale: "update_count u \<noteq> None \<or> builder_full_count b = None" if "N \<noteq> []"
    using told that by (auto simp: new_end_told_def)
  have met: "set N \<subseteq> set ?msgs" if "N \<noteq> []" "?msgs \<noteq> []"
    unfolding msgs [OF that(2)] using new(1) by auto
  have quiet: "builder_skipped_after b = None \<and> (\<forall>m\<in>set N. builder_key b \<le> m)"
    if "N \<noteq> []" "?msgs = []"
  proof -
    have "filter (\<lambda>m. in_range m ?r) (H @ N) \<noteq> []"
      using new(1) that(1) by (cases N) (auto simp: filter_empty_conv)
    then have "\<not> need_merge_messages u b" using full that(2) by force
    then show ?thesis using told that(1) new(2) by (auto simp: new_end_told_def)
  qed
  have "\<exists>b'. merge_slice_data kind (update_count u) ?msgs ?sb ?sa b = Inr b' \<and> follows (H @ N) b'"
  proof (rule merge_slice_data_follows [OF H refl w, where us = us and vs = vs and ps = ps and qs = qs])
    show "\<And>n. update_count u = Some n \<Longrightarrow> n = int (length (H @ N))"
      using u by (auto simp: truthful_update_def)
    show "\<And>k. ?msgs \<noteq> [] \<Longrightarrow> ?sb = Some k \<Longrightarrow> k = int (length us)"
      using empty_side(1) [OF H msgs] c kind by (force simp: kind_ok_def split: if_splits)
    show "\<And>k. ?msgs \<noteq> [] \<Longrightarrow> ?sa = Some k \<Longrightarrow> k = int (length vs)"
      using empty_side(2) [OF H msgs] c kind by (force simp: kind_ok_def split: if_splits)
    show "\<not> kind_possible kind (kind_impossible kind)" using kind by (simp add: kind_ok_def)
  qed (rule stale met quiet c1 c2 c3, assumption+)+
  then show ?thesis using False by (auto simp: apply_update_def Let_def)
qed

text \<open>The counts that are left wrong when the update does not tell the builder enough.\<close>

lemma adjust_skipped_runs:
  assumes "strictly_sorted (builder_ids b)" "v \<in> set (builder_ids b)"
  shows "\<exists>k'. adjust_skipped_before v k b = Inr (b\<lparr> builder_skipped_before := Some k' \<rparr>)"
    and "\<exists>k'. adjust_skipped_after v k b = Inr (b\<lparr> builder_skipped_after := Some k' \<rparr>)"
proof -
  obtain xs ys where "builder_ids b = xs @ v # ys" using split_list [OF assms(2)] by blast
  then have "set_find (<) v (builder_ids b) < length (builder_ids b)"
    by (rule conjunct1 [OF find_in_segment [OF assms(1) _ _ assms(2), of "[]" "[]"], rotated]) simp
  then show "\<exists>k'. adjust_skipped_before v k b = Inr (b\<lparr> builder_skipped_before := Some k' \<rparr>)"
    "\<exists>k'. adjust_skipped_after v k b = Inr (b\<lparr> builder_skipped_after := Some k' \<rparr>)"
    by (simp_all add: adjust_skipped_before_def adjust_skipped_after_def Let_def) blast+
qed

text \<open>Merging never fails, and without a count it keeps the one that is known.\<close>

lemma merge_slice_data_runs:
  assumes kind: "\<not> kind_possible kind (kind_impossible kind)"
  shows "\<exists>b'. merge_slice_data kind cnt msgs sb sa b = Inr b' \<and>
    (cnt = None \<longrightarrow> builder_full_count b' = builder_full_count b)"
proof (cases "msgs = []")
  case True
  then show ?thesis
    by (auto simp: merge_slice_data_def fill_skipped_and_slice_to_limits_def slice_to_limits_full_count
        fill_skipped_def split: option.splits)
next
  case False
  define b0 where "b0 = (if cnt \<noteq> None then b\<lparr> builder_full_count := cnt \<rparr> else b)"
  define b1 where "b1 = b0\<lparr> builder_ids := set_merge (<) msgs (builder_ids b0) \<rparr>"
  define wasMin where "wasMin = (if builder_ids b0 = [] then kind_impossible kind else hd (builder_ids b0))"
  define wasMax where "wasMax = (if builder_ids b0 = [] then kind_impossible kind else last (builder_ids b0))"
  have ids: "strictly_sorted (builder_ids b1)" "set (builder_ids b1) = set msgs \<union> set (builder_ids b0)"
    by (simp_all add: b1_def Un_commute)
  have was: "wasMin \<in> set (builder_ids b1)" if "kind_possible kind wasMin"
    using that kind ids(2) by (auto simp: wasMin_def split: if_splits)
  have was': "wasMax \<in> set (builder_ids b1)" if "kind_possible kind wasMax"
    using that kind ids(2) by (auto simp: wasMax_def split: if_splits)
  have ends: "hd msgs \<in> set (builder_ids b1)" "last msgs \<in> set (builder_ids b1)"
    using False ids(2) by simp_all
  have "\<exists>k2. merge_skipped_before kind msgs sb wasMin b1 = Inr (b1\<lparr> builder_skipped_before := k2 \<rparr>)"
    using adjust_skipped_runs(1) [OF ids(1) ends(1)] adjust_skipped_runs(1) [OF ids(1) was]
    by (cases sb; cases "builder_skipped_before b1"; cases "kind_possible kind wasMin")
      (simp_all add: merge_skipped_before_def, blast+)
  then obtain k2 where 2: "merge_skipped_before kind msgs sb wasMin b1 =
      Inr (b1\<lparr> builder_skipped_before := k2 \<rparr>)" by blast
  define b2 where "b2 = b1\<lparr> builder_skipped_before := k2 \<rparr>"
  have ids2: "builder_ids b2 = builder_ids b1" by (simp add: b2_def)
  have "\<exists>k3. merge_skipped_after kind msgs sa wasMax b2 = Inr (b2\<lparr> builder_skipped_after := k3 \<rparr>)"
    using adjust_skipped_runs(2) [of b2, unfolded ids2, OF ids(1) ends(2)]
      adjust_skipped_runs(2) [of b2, unfolded ids2, OF ids(1) was']
    by (cases sa; cases "builder_skipped_after b2"; cases "kind_possible kind wasMax")
      (simp_all add: merge_skipped_after_def, blast+)
  then obtain k3 where 3: "merge_skipped_after kind msgs sa wasMax b2 =
      Inr (b2\<lparr> builder_skipped_after := k3 \<rparr>)" by blast
  have "merge_slice_data kind cnt msgs sb sa b =
      Inr (fill_skipped_and_slice_to_limits kind (b2\<lparr> builder_skipped_after := k3 \<rparr>))"
    unfolding merge_slice_data_def Let_def b0_def [symmetric] b1_def [symmetric]
      wasMin_def [symmetric] wasMax_def [symmetric]
    using False 2 3 by (simp add: b2_def)
  then show ?thesis
    by (auto simp: fill_skipped_and_slice_to_limits_def slice_to_limits_full_count fill_skipped_def
        b2_def b1_def b0_def split: option.splits)
qed

lemma apply_update_runs:
  assumes kind: "\<not> kind_possible kind (kind_impossible kind)"
  shows "\<exists>b' changed. apply_update kind u b = Inr (b', changed) \<and>
    (update_count u = None \<longrightarrow> builder_full_count b' = builder_full_count b)"
proof (cases "\<not> need_merge_messages u b \<and> update_count u = None")
  case False
  obtain b' where "merge_slice_data kind (update_count u)
      (if need_merge_messages u b then the (update_messages u) else [])
      (if range_from (update_range u) = kind_min kind then Some 0 else None)
      (if range_till (update_range u) = kind_max kind then Some 0 else None) b = Inr b'"
    "update_count u = None \<longrightarrow> builder_full_count b' = builder_full_count b"
    using merge_slice_data_runs [OF kind] by blast
  then have "apply_update kind u b = Inr (b', True)"
    using False by (simp add: apply_update_def Let_def)
  then show ?thesis
    using \<open>update_count u = None \<longrightarrow> _\<close> by (intro exI [of _ b'] exI [of _ True]) simp
next
  case True
  then have "apply_update kind u b = Inr (b, False)" by (simp add: apply_update_def)
  then show ?thesis by blast
qed

lemma apply_update_misses_end:
  assumes H: "strictly_sorted (H @ N)" and w: "follows H b" "limits_ok b"
    and u: "truthful_update (H @ N) u" and N: "N \<noteq> []" and kind: "kind_ok kind (H @ N)"
    and new: "need_merge_messages u b \<or> (\<forall>m\<in>set N. builder_key b \<le> m)"
    and told: "\<not> new_end_told u b" and run: "apply_update kind u b = Inr (b', changed)"
  shows "\<not> follows (H @ N) b'"
proof
  assume f: "follows (H @ N) b'"
  show False
  proof (cases "update_count u = None \<and> builder_full_count b \<noteq> None")
    case True
    then obtain n where n: "builder_full_count b = Some n" by blast
    have "builder_full_count b' = Some n"
      using run True n apply_update_runs [of kind u b] kind by (auto simp: kind_ok_def)
    moreover have "n = int (length H)" using followsE [OF w(1)] n by metis
    ultimately show False using followsE [OF f] N by (metis add_eq_self_zero length_0_conv length_append of_nat_eq_iff)
  next
    case False
    then have 1: "\<not> need_merge_messages u b" and after: "builder_skipped_after b \<noteq> None"
      using told by (auto simp: new_end_told_def)
    then obtain k where k: "builder_skipped_after b = Some k" by blast
    have s: "strictly_sorted (builder_ids b)"
      using follows_sorted [OF w(1)] H by (simp add: sorted_wrt_append)
    have long: "length (builder_ids b) \<le> length H" using followsE [OF w(1)] by (metis length_append le_add1 le_add2 order_trans)
    have "after_key b' = after_key b \<and> builder_key b' = builder_key b"
    proof (cases "update_count u")
      case None
      then show ?thesis using run 1 by (auto simp: apply_update_def)
    next
      case (Some n)
      then have n: "n = int (length (H @ N))" using u by (auto simp: truthful_update_def)
      have "builder_full_count b \<noteq> Some n" using followsE [OF w(1)] n N by (metis add_eq_self_zero length_0_conv length_append of_nat_eq_iff)
      moreover have "\<not> not_above_size n (builder_ids b)"
        using n long N by (cases N) (simp_all add: not_above_size_def)
      ultimately have "b' = slice_to_limits kind (fill_skipped (b\<lparr> builder_full_count := Some n \<rparr>))"
        using run 1 Some
        by (simp add: apply_update_def Let_def merge_slice_data_def fill_skipped_and_slice_to_limits_def)
      moreover have "after_key (fill_skipped (b\<lparr> builder_full_count := Some n \<rparr>)) = after_key b"
        "builder_ids (fill_skipped (b\<lparr> builder_full_count := Some n \<rparr>)) = builder_ids b"
        "builder_key (fill_skipped (b\<lparr> builder_full_count := Some n \<rparr>)) = builder_key b"
        "limits_ok (fill_skipped (b\<lparr> builder_full_count := Some n \<rparr>))"
        using k w(2) by (auto simp: fill_skipped_def after_key_def limits_ok_def split: option.splits)
      ultimately show ?thesis
        using s by (simp add: after_key_slice_to_limits slice_to_limits_full_count)
    qed
    moreover obtain n where n: "after_key b = Some n" using k by (simp add: after_key_def)
    ultimately have "int (length (filter (\<lambda>m. builder_key b \<le> m) H)) =
        int (length (filter (\<lambda>m. builder_key b \<le> m) (H @ N)))"
      using follows_after_key [OF w(1) n] follows_after_key [OF f, of n] by simp
    moreover have "filter (\<lambda>m. builder_key b \<le> m) N = N" using new 1 by (auto simp: filter_id_conv)
    ultimately show False using N by simp
  qed
qed

lemma apply_update_follows_iff:
  assumes H: "strictly_sorted (H @ N)" and w: "follows H b" "limits_ok b"
    and u: "truthful_update (H @ N) u" and kind: "kind_ok kind (H @ N)"
    and new: "\<forall>m\<in>set N. in_range m (update_range u)"
      "need_merge_messages u b \<or> (\<forall>m\<in>set N. builder_key b \<le> m)"
  shows "\<exists>b' changed. apply_update kind u b = Inr (b', changed) \<and>
    (follows (H @ N) b' \<longleftrightarrow> N = [] \<or> new_end_told u b)"
proof -
  obtain b' changed where run: "apply_update kind u b = Inr (b', changed)"
    using apply_update_runs [of kind u b] kind by (auto simp: kind_ok_def)
  then show ?thesis
    using apply_update_follows [OF H w u kind new]
      apply_update_misses_end [OF H w u _ kind new(2) _ run] by auto
qed

section \<open>Removing and slicing\<close>

lemma builder_remove_one_follows:
  assumes H: "strictly_sorted H" "m \<in> set H" and f: "follows H b" and ids: "builder_ids b \<noteq> []"
  shows "follows (filter (\<lambda>x. x \<noteq> m) H) (fst (builder_remove_one m b))"
proof -
  obtain xs ys where w: "H = xs @ builder_ids b @ ys"
    "\<And>k. builder_skipped_before b = Some k \<Longrightarrow> k = int (length xs)"
    "\<And>k. builder_skipped_after b = Some k \<Longrightarrow> k = int (length ys)"
    "\<And>n. builder_full_count b = Some n \<Longrightarrow> n = int (length H)"
    "\<And>x. x \<in> set xs \<Longrightarrow> x < builder_key b"
    "\<And>y. y \<in> set ys \<Longrightarrow> builder_key b \<le> y"
    using followsE [OF f] by blast
  have s: "strictly_sorted xs" "strictly_sorted (builder_ids b)" "strictly_sorted ys"
    "\<And>x y. x \<in> set xs \<Longrightarrow> y \<in> set (builder_ids b) \<union> set ys \<Longrightarrow> x < y"
    "\<And>x y. x \<in> set (builder_ids b) \<Longrightarrow> y \<in> set ys \<Longrightarrow> x < y"
    using H(1) w(1) by (auto simp: sorted_wrt_append)
  have drop_one: "filter (\<lambda>x. x \<noteq> m) zs = zs" if "m \<notin> set zs" for zs
    using that by (auto simp: filter_id_conv)
  have less_one: "int (length (filter (\<lambda>x. x \<noteq> m) zs)) = int (length zs) - 1"
    if "strictly_sorted zs" "m \<in> set zs" for zs
  proof -
    have d: "distinct zs" using that(1) by (induction zs) auto
    have "length (filter (\<lambda>x. x \<noteq> m) zs) = card (set zs - {m})"
      using d distinct_card [of "filter (\<lambda>x. x \<noteq> m) zs"] by (simp add: set_diff_eq)
    then show ?thesis
      using that(2) d distinct_card [OF d] by (cases "length zs") auto
  qed
  have count: "n - 1 = int (length (filter (\<lambda>x. x \<noteq> m) H)) \<and> n > 0"
    if "builder_full_count b = Some n" for n
    using w(4) [OF that] less_one [OF H] H(2) by (cases H) auto
  let ?c = "map_option (\<lambda>n. n - 1) (builder_full_count b)"
  have start: "(case builder_full_count b of
        Some n \<Rightarrow> if n > 0 then (b\<lparr> builder_full_count := Some (n - 1) \<rparr>, True) else (b, False)
      | None \<Rightarrow> (b, False)) = (b\<lparr> builder_full_count := ?c \<rparr>, builder_full_count b \<noteq> None)"
    using count by (cases b) (auto split: option.splits)
  note run = builder_remove_one_def start Let_def
  consider "m \<in> set (builder_ids b)" | "m \<in> set xs" | "m \<in> set ys" using H(2) w(1) by auto
  then show ?thesis
  proof cases
    case 1
    have n: "m \<notin> set xs" "m \<notin> set ys" using s(4,5) 1 by blast+
    have r: "snd (set_remove (<) m (builder_ids b)) = filter (\<lambda>x. x \<noteq> m) (builder_ids b)"
      by (rule strictly_sorted_unique)
        (use s(2) in \<open>auto simp: ids.ok_del ids.elems_del sorted_wrt_filter\<close>)
    have "fst (builder_remove_one m b) =
        b\<lparr> builder_full_count := ?c, builder_ids := filter (\<lambda>x. x \<noteq> m) (builder_ids b) \<rparr>"
      using 1 r by (simp add: run multi_contains_iff [OF s(2)])
    then show ?thesis
      using n w(1-3,5,6) count by (intro followsI [of _ xs _ ys]) (auto simp: drop_one)
  next
    case 2
    have n: "m \<notin> set (builder_ids b)" "m \<notin> set ys" "m < hd (builder_ids b)"
      using s(4) 2 ids by auto
    have "fst (builder_remove_one m b) =
        b\<lparr> builder_full_count := ?c,
           builder_skipped_before := map_option (\<lambda>k. k - 1) (builder_skipped_before b) \<rparr>"
    proof -
      have "k > 0" if "builder_skipped_before b = Some k" for k
        using w(2) [OF that] 2 by (cases xs) auto
      moreover have "\<not> last (builder_ids b) < m"
        using s(4) [OF 2, of "last (builder_ids b)"] ids by auto
      moreover have "b\<lparr> builder_full_count := ?c, builder_skipped_before := None \<rparr> =
          b\<lparr> builder_full_count := ?c \<rparr>" if "builder_skipped_before b = None"
        using that by (cases b) simp
      ultimately show ?thesis
        using n ids by (cases "builder_skipped_before b") (simp_all add: run multi_contains_iff [OF s(2)])
    qed
    then show ?thesis
      using n w(1-3,5,6) count less_one [OF s(1) 2]
      by (intro followsI [of _ "filter (\<lambda>x. x \<noteq> m) xs" _ ys]) (auto simp: drop_one)
  next
    case 3
    have n: "m \<notin> set (builder_ids b)" "m \<notin> set xs" "last (builder_ids b) < m"
      "\<not> m < hd (builder_ids b)"
      using s(4) s(5) [OF _ 3] 3 ids less_asym [of "hd (builder_ids b)" m] by auto
    have "fst (builder_remove_one m b) =
        b\<lparr> builder_full_count := ?c,
           builder_skipped_after := map_option (\<lambda>k. k - 1) (builder_skipped_after b) \<rparr>"
    proof -
      have "k > 0" if "builder_skipped_after b = Some k" for k
        using w(3) [OF that] 3 by (cases ys) auto
      moreover have "b\<lparr> builder_full_count := ?c, builder_skipped_after := None \<rparr> =
          b\<lparr> builder_full_count := ?c \<rparr>" if "builder_skipped_after b = None"
        using that by (cases b) simp
      ultimately show ?thesis
        using n ids by (cases "builder_skipped_after b") (simp_all add: run multi_contains_iff [OF s(2)])
    qed
    then show ?thesis
      using n w(1-3,5,6) count less_one [OF s(3) 3]
      by (intro followsI [of _ xs _ "filter (\<lambda>x. x \<noteq> m) ys"]) (auto simp: drop_one)
  qed
qed
section \<open>A builder that asks for nothing shows everything it should\<close>

lemma limit_begin_ids:
  "builder_ids (fst (limit_begin r b)) = drop (nat r) (builder_ids b)"
  "builder_full_count (fst (limit_begin r b)) = builder_full_count b"
  "builder_skipped_after (fst (limit_begin r b)) = builder_skipped_after b"
  "length (builder_requests (fst (limit_begin r b))) =
     length (builder_requests b) + (if r < 0 \<and> may_have_more (builder_skipped_before b) then 1 else 0)"
  "snd (limit_begin r b) \<longleftrightarrow> r < 0 \<and> may_have_more (builder_skipped_before b)"
  by (auto simp: limit_begin_def request_messages_def)

lemma limit_end_ids:
  "nat r \<le> length (builder_ids b) \<Longrightarrow>
   builder_ids (fst (limit_end r b)) = take (length (builder_ids b) - nat r) (builder_ids b)"
  "builder_full_count (fst (limit_end r b)) = builder_full_count b"
  "length (builder_requests (fst (limit_end r b))) =
     length (builder_requests b) + (if r < 0 \<and> may_have_more (builder_skipped_after b) then 1 else 0)"
  "snd (limit_end r b) \<longleftrightarrow> r < 0 \<and> may_have_more (builder_skipped_after b)"
  by (auto simp: limit_end_def request_messages_def)

text \<open>The window that is left, and the number of requests fired.\<close>

lemma slice_to_limits_result:
  fixes b :: "'m::linorder slice_builder"
  defines "a \<equiv> int (std_lower_bound (<) (builder_key b) (builder_ids b))"
    and "n \<equiv> int (length (builder_ids b))"
  assumes key: "kind_key_set kind (builder_key b)" and l: "limits_ok b"
  shows "builder_ids (slice_to_limits kind b) =
      take (nat (min n (a + builder_limit_after b + 1)) - nat (a - builder_limit_before b))
        (drop (nat (a - builder_limit_before b)) (builder_ids b)) \<and>
    builder_full_count (slice_to_limits kind b) = builder_full_count b \<and>
    length (builder_requests (slice_to_limits kind b)) = length (builder_requests b) +
      (let before = a < builder_limit_before b \<and> may_have_more (builder_skipped_before b);
           after = n - a < builder_limit_after b + 1 \<and> may_have_more (builder_skipped_after b)
       in (if before then 1 else 0) + (if after then 1 else 0) +
          (if builder_full_count b = None \<and> \<not> before \<and> \<not> after then 1 else 0))"
proof -
  let ?r = "a - builder_limit_before b" and ?e = "n - a - builder_limit_after b - 1"
  let ?b1 = "fst (limit_begin ?r b)"
  let ?b2 = "fst (limit_end ?e ?b1)"
  have a: "0 \<le> a" "a \<le> n" by (simp_all add: a_def n_def std_lower_bound_def)
  have e: "nat ?e \<le> length (builder_ids ?b1)"
    using a l by (auto simp: limit_begin_ids n_def limits_ok_def)
  have 1: "slice_to_limits kind b =
      (if builder_full_count b = None \<and> \<not> (snd (limit_begin ?r b) \<or> snd (limit_end ?e ?b1))
       then request_messages_count kind ?b2 else ?b2)"
    using key by (simp add: slice_to_limits_def Let_def case_prod_beta a_def n_def limit_begin_ids limit_end_ids)
  have 2: "builder_ids (slice_to_limits kind b) = builder_ids ?b2"
    "builder_full_count (slice_to_limits kind b) = builder_full_count b"
    by (auto simp: 1 request_messages_count_def limit_begin_ids limit_end_ids)
  have "length (builder_ids b) - nat ?r - nat ?e =
      nat (min n (a + builder_limit_after b + 1)) - nat ?r"
    using a l unfolding n_def by (auto simp: min_def limits_ok_def)
  then show ?thesis
    using 2 by (auto simp: 1 request_messages_count_def limit_begin_ids limit_end_ids(1) [OF e]
        limit_end_ids(2-4) Let_def)
qed
text \<open>The key cuts the history where it cuts the window.\<close>

lemma follows_cut:
  assumes f: "follows H b" and H: "strictly_sorted H"
  obtains xs ys where "H = xs @ builder_ids b @ ys"
    "filter (\<lambda>m. m < builder_key b) H =
       xs @ take (std_lower_bound (<) (builder_key b) (builder_ids b)) (builder_ids b)"
    "filter (\<lambda>m. builder_key b \<le> m) H =
       drop (std_lower_bound (<) (builder_key b) (builder_ids b)) (builder_ids b) @ ys"
    "\<And>k. builder_skipped_before b = Some k \<Longrightarrow> k = int (length xs)"
    "\<And>k. builder_skipped_after b = Some k \<Longrightarrow> k = int (length ys)"
    "\<And>n. builder_full_count b = Some n \<Longrightarrow> n = int (length H)"
proof -
  obtain xs ys where w: "H = xs @ builder_ids b @ ys"
    "\<And>k. builder_skipped_before b = Some k \<Longrightarrow> k = int (length xs)"
    "\<And>k. builder_skipped_after b = Some k \<Longrightarrow> k = int (length ys)"
    "\<And>n. builder_full_count b = Some n \<Longrightarrow> n = int (length H)"
    "\<And>x. x \<in> set xs \<Longrightarrow> x < builder_key b"
    "\<And>y. y \<in> set ys \<Longrightarrow> builder_key b \<le> y"
    using followsE [OF f] by blast
  let ?p = "\<lambda>m. m < builder_key b"
  let ?ids = "builder_ids b"
  have ids: "strictly_sorted ?ids" by (rule follows_sorted [OF f H])
  have not: "(\<lambda>m. \<not> m < builder_key b) = (\<lambda>m. builder_key b \<le> m)" by (auto simp: not_less)
  have "takeWhile ?p ?ids = filter ?p ?ids"
    by (rule takeWhile_filter_sorted [OF ids]) order
  moreover have "dropWhile ?p ?ids = filter (\<lambda>m. builder_key b \<le> m) ?ids"
    unfolding not [symmetric] by (rule dropWhile_filter_sorted [OF ids]) order
  moreover have "filter ?p xs = xs" "filter (\<lambda>m. builder_key b \<le> m) ys = ys"
    using w(5,6) by (simp_all add: filter_id_conv)
  moreover have "filter (\<lambda>m. builder_key b \<le> m) xs = []" "filter ?p ys = []"
    using w(5,6) by (auto simp: filter_empty_conv not_le not_less)
  ultimately show thesis
    using that [OF w(1)] w(2-4) unfolding std_lower_bound_def take_partition_index drop_partition_index
    by (simp add: w(1))
qed

lemma slice_to_limits_complete:
  assumes f: "follows H b" "strictly_sorted H" "limits_ok b"
    and key: "kind_key_set kind (builder_key b)"
    and quiet: "builder_requests (slice_to_limits kind b) = builder_requests b"
  shows "builder_full_count (slice_to_limits kind b) = Some (int (length H)) \<and>
    builder_ids (slice_to_limits kind b) =
      ids_window (builder_limit_before b) (builder_limit_after b) (builder_key b) H"
proof -
  let ?ids = "builder_ids b" and ?k = "std_lower_bound (<) (builder_key b) (builder_ids b)"
  let ?lb = "builder_limit_before b" and ?la = "builder_limit_after b"
  obtain xs ys where c: "H = xs @ ?ids @ ys"
    "filter (\<lambda>m. m < builder_key b) H = xs @ take ?k ?ids"
    "filter (\<lambda>m. builder_key b \<le> m) H = drop ?k ?ids @ ys"
    "\<And>k. builder_skipped_before b = Some k \<Longrightarrow> k = int (length xs)"
    "\<And>k. builder_skipped_after b = Some k \<Longrightarrow> k = int (length ys)"
    "\<And>n. builder_full_count b = Some n \<Longrightarrow> n = int (length H)"
    using follows_cut [OF f(1,2)] by blast
  have k: "?k \<le> length ?ids" by (simp add: std_lower_bound_def)
  have l: "0 \<le> ?lb" "0 \<le> ?la" using f(3) by (simp_all add: limits_ok_def)
  have q: "\<not> (int ?k < ?lb \<and> may_have_more (builder_skipped_before b))"
    "\<not> (int (length ?ids) - int ?k < ?la + 1 \<and> may_have_more (builder_skipped_after b))"
    "builder_full_count b \<noteq> None"
    using slice_to_limits_result [OF key f(3)] quiet by (auto simp: Let_def split: if_splits)
  have xs: "xs = []" if "?k < nat ?lb"
    using q(1) that c(4) by (cases "builder_skipped_before b") auto
  have ys: "ys = []" if "length ?ids - ?k < nat (?la + 1)"
    using q(2) that c(5) k by (cases "builder_skipped_after b") auto
  have 1: "drop (length (xs @ take ?k ?ids) - nat ?lb) (xs @ take ?k ?ids) =
      drop (?k - nat ?lb) (take ?k ?ids)"
    using k xs by (cases "?k < nat ?lb") auto
  have 2: "take (nat (?la + 1)) (drop ?k ?ids @ ys) = take (nat (?la + 1)) (drop ?k ?ids)"
    using ys by (cases "length ?ids - ?k < nat (?la + 1)") auto
  let ?n = "nat (min (int (length ?ids)) (int ?k + ?la + 1))" and ?m = "nat (int ?k - ?lb)"
  have m: "?m = ?k - nat ?lb" "?n = ?k + min (length ?ids - ?k) (nat (?la + 1))"
    using l k by (auto simp: min_def)
  have "take (?n - ?m) (drop ?m ?ids) =
      drop (?k - nat ?lb) (take ?k ?ids) @ take (nat (?la + 1)) (drop ?k ?ids)"
  proof -
    have "take (?n - ?m) (drop ?m ?ids) = drop ?m (take ?n ?ids)" by (simp add: drop_take)
    also have "take ?n ?ids = take ?k ?ids @ take (nat (?la + 1)) (drop ?k ?ids)"
      unfolding m by (simp add: take_add min_def)
    finally show ?thesis using k m by simp
  qed
  then have "builder_ids (slice_to_limits kind b) = ids_window ?lb ?la (builder_key b) H"
    using slice_to_limits_result [OF key f(3)] 1 2 unfolding ids_window_def Let_def c(2,3) by simp
  then show ?thesis
    using slice_to_limits_result [OF key f(3)] q(3) c(6) by auto
qed
end
