(* ===== verification/Sparse_Ids_Slice.thy ===== *)
theory Sparse_Ids_Slice
  imports Slice_Builder
begin

text \<open>
  data/data_sparse_ids.cpp: the slice of identifiers a viewer gets (\<open>SparseIdsSlice\<close>), the builder
  that makes it (\<open>SparseIdsSliceBuilder\<close>, over Slice\_Builder) and the merged slice of a supergroup
  and the group it was migrated from (\<open>SparseIdsMergedSlice\<close>), where a negative universal
  identifier is one of the old group counted down from \<open>ServerMaxMsgId\<close>. A dereference of an
  empty \<open>_migrated\<close> is the value \<open>Undefined_behaviour\<close>.
\<close>

section \<open>SparseIdsSlice\<close>

record sparse_slice =
  ss_ids :: "msg_id list"
  ss_range :: "msg_id msg_range"
  ss_full_count :: "int option"
  ss_skipped_before :: "int option"
  ss_skipped_after :: "int option"

definition empty_sparse_slice :: sparse_slice where
  "empty_sparse_slice =
     \<lparr> ss_ids = [], ss_range = \<lparr> range_from = 0, range_till = 0 \<rparr>, ss_full_count = None,
       ss_skipped_before = None, ss_skipped_after = None \<rparr>"

definition ss_index_of :: "msg_id \<Rightarrow> sparse_slice \<Rightarrow> int option" where
  "ss_index_of msgId s =
     (let i = set_find (<) msgId (ss_ids s)
      in if i \<noteq> length (ss_ids s) then Some (int i) else None)"

definition ss_size :: "sparse_slice \<Rightarrow> int" where
  "ss_size s = int (length (ss_ids s))"

definition ss_at :: "int \<Rightarrow> sparse_slice \<Rightarrow> msg_id outcome" where
  "ss_at index s = expects (index \<ge> 0 \<and> index < ss_size s) (Inr (ss_ids s ! nat index))"

definition ss_distance :: "msg_id \<Rightarrow> msg_id \<Rightarrow> sparse_slice \<Rightarrow> int option" where
  "ss_distance a b s =
     (case ss_index_of a s of
        None \<Rightarrow> None
      | Some i \<Rightarrow> (case ss_index_of b s of None \<Rightarrow> None | Some j \<Rightarrow> Some (j - i)))"

definition ss_nearest :: "msg_id \<Rightarrow> sparse_slice \<Rightarrow> msg_id option" where
  "ss_nearest msgId s =
     (let i = std_lower_bound (<) msgId (ss_ids s)
      in if i \<noteq> length (ss_ids s) then Some (ss_ids s ! i)
         else if ss_ids s = [] then None
         else Some (last (ss_ids s)))"

section \<open>SparseIdsSliceBuilder\<close>

definition sparse_kind :: "msg_id id_kind" where
  "sparse_kind =
     \<lparr> kind_key_set = (\<lambda>k. k \<noteq> 0), kind_min = 0, kind_max = ServerMaxMsgId,
       kind_impossible = - 1, kind_possible = (\<lambda>m. m \<ge> 0), kind_none = 0 \<rparr>"

type_synonym sparse_builder = "msg_id slice_builder"

definition new_sparse_builder :: "msg_id \<Rightarrow> int \<Rightarrow> int \<Rightarrow> sparse_builder" where
  "new_sparse_builder key limitBefore limitAfter =
     new_builder \<lparr> range_from = 0, range_till = 0 \<rparr> key limitBefore limitAfter"


definition sparse_builder_remove_all :: "sparse_builder \<Rightarrow> sparse_builder \<times> bool" where
  "sparse_builder_remove_all b = builder_remove_all sparse_kind b"

definition sparse_builder_invalidate_bottom :: "sparse_builder \<Rightarrow> sparse_builder \<times> bool" where
  "sparse_builder_invalidate_bottom b =
     (let b1 = b\<lparr> builder_full_count := None, builder_skipped_after := None \<rparr>;
          b2 = (if range_till (builder_range b1) = ServerMaxMsgId
                then b1\<lparr> builder_range := (builder_range b1)\<lparr> range_till :=
                       if builder_ids b1 = [] then range_from (builder_range b1)
                       else last (builder_ids b1) \<rparr> \<rparr>
                else b1)
      in (check_insufficient sparse_kind b2, True))"

definition sparse_builder_snapshot :: "sparse_builder \<Rightarrow> sparse_slice" where
  "sparse_builder_snapshot b =
     \<lparr> ss_ids = builder_ids b, ss_range = builder_range b, ss_full_count = builder_full_count b,
       ss_skipped_before = builder_skipped_before b, ss_skipped_after = builder_skipped_after b \<rparr>"

section \<open>SparseIdsMergedSlice\<close>

record merged_key =
  key_peer :: peer_id
  key_migrated_peer :: peer_id
  key_universal :: msg_id

record merged_slice =
  ms_key :: merged_key
  ms_part :: sparse_slice
  ms_migrated :: "sparse_slice option"

definition part_key :: "merged_key \<Rightarrow> msg_id" where
  "part_key k = (if key_universal k < 0 then 1 else key_universal k)"

definition migrated_key :: "merged_key \<Rightarrow> msg_id" where
  "migrated_key k =
     (if key_universal k < 0 then ServerMaxMsgId + key_universal k
      else if key_universal k > 0 then ServerMaxMsgId - 1 else 0)"

definition migrated_slice :: "merged_key \<Rightarrow> sparse_slice option" where
  "migrated_slice k = (if key_migrated_peer k \<noteq> 0 then Some empty_sparse_slice else None)"

definition new_merged_slice :: "merged_key \<Rightarrow> merged_slice" where
  "new_merged_slice k =
     \<lparr> ms_key = k, ms_part = empty_sparse_slice, ms_migrated = migrated_slice k \<rparr>"

definition is_from_slice :: "peer_id \<Rightarrow> full_msg_id \<Rightarrow> bool" where
  "is_from_slice peerId fullId =
     (if peerIsChannel peerId then peerId = peerFromChannel (fid_channel fullId)
      else fid_channel fullId = 0)"

definition compute_id :: "peer_id \<Rightarrow> msg_id \<Rightarrow> full_msg_id" where
  "compute_id peerId msgId =
     FullMsgId (if peerIsChannel peerId then peerToBareInt peerId else 0) msgId"

definition compute_key_id :: "merged_key \<Rightarrow> full_msg_id" where
  "compute_key_id k =
     (if key_universal k \<ge> 0 then compute_id (key_peer k) (key_universal k)
      else compute_id (key_migrated_peer k) (ServerMaxMsgId + key_universal k))"

definition is_from_part :: "full_msg_id \<Rightarrow> merged_slice \<Rightarrow> bool" where
  "is_from_part fullId m = is_from_slice (key_peer (ms_key m)) fullId"

definition is_from_migrated :: "full_msg_id \<Rightarrow> merged_slice \<Rightarrow> bool" where
  "is_from_migrated fullId m =
     (if ms_migrated m \<noteq> None then is_from_slice (key_migrated_peer (ms_key m)) fullId else False)"

text \<open>\<open>*_migrated\<close>, where nothing has checked that there is one.\<close>

definition migrated_part :: "merged_slice \<Rightarrow> sparse_slice outcome" where
  "migrated_part m = (case ms_migrated m of None \<Rightarrow> Inl Undefined_behaviour | Some s \<Rightarrow> Inr s)"

definition isolated_in_part :: "merged_slice \<Rightarrow> bool" where
  "isolated_in_part m \<longleftrightarrow>
     IsServerMsgId (key_universal (ms_key m)) \<and>
     (ms_migrated m = None \<or> ss_skipped_before (ms_part m) \<noteq> Some 0)"

definition isolated_in_migrated :: "merged_slice \<Rightarrow> bool outcome" where
  "isolated_in_migrated m =
     (if IsServerMsgId (ServerMaxMsgId + key_universal (ms_key m))
      then bind_outcome (migrated_part m) (\<lambda>s. Inr (ss_skipped_after s \<noteq> Some 0))
      else Inr False)"

definition migrated_size :: "merged_slice \<Rightarrow> int outcome" where
  "migrated_size m =
     (if isolated_in_part m then Inr 0
      else bind_outcome (migrated_part m) (\<lambda>s. Inr (ss_size s)))"

definition merged_full_count :: "merged_slice \<Rightarrow> int option" where
  "merged_full_count m =
     add_option (ss_full_count (ms_part m))
       (case ms_migrated m of Some s \<Rightarrow> ss_full_count s | None \<Rightarrow> Some 0)"

definition merged_skipped_before :: "merged_slice \<Rightarrow> int option outcome" where
  "merged_skipped_before m =
     bind_outcome (isolated_in_migrated m)
       (\<lambda>isolated. Inr (add_option
          (if isolated then Some 0 else ss_skipped_before (ms_part m))
          (case ms_migrated m of
             Some s \<Rightarrow> if isolated_in_part m then ss_full_count s else ss_skipped_before s
           | None \<Rightarrow> Some 0)))"

definition merged_skipped_after :: "merged_slice \<Rightarrow> int option outcome" where
  "merged_skipped_after m =
     bind_outcome (isolated_in_migrated m)
       (\<lambda>isolated. bind_outcome
          (if isolated_in_part m then Inr (Some 0)
           else bind_outcome (migrated_part m) (\<lambda>s. Inr (ss_skipped_after s)))
          (\<lambda>b. Inr (add_option
             (if isolated then ss_full_count (ms_part m) else ss_skipped_after (ms_part m)) b)))"

definition merged_index_of :: "full_msg_id \<Rightarrow> merged_slice \<Rightarrow> int option outcome" where
  "merged_index_of fullId m =
     (if is_from_part fullId m
      then bind_outcome (migrated_size m)
             (\<lambda>n. Inr (map_option (\<lambda>i. i + n) (ss_index_of (fid_msg fullId) (ms_part m))))
      else if isolated_in_part m then Inr None
      else if is_from_migrated fullId m
      then bind_outcome (migrated_part m) (\<lambda>s. Inr (ss_index_of (fid_msg fullId) s))
      else Inr None)"

definition merged_size :: "merged_slice \<Rightarrow> int outcome" where
  "merged_size m =
     bind_outcome (if isolated_in_part m then Inr 0 else migrated_size m)
       (\<lambda>a. bind_outcome (isolated_in_migrated m)
         (\<lambda>isolated. Inr (a + (if isolated then 0 else ss_size (ms_part m)))))"

definition merged_at :: "int \<Rightarrow> merged_slice \<Rightarrow> full_msg_id outcome" where
  "merged_at index m =
     bind_outcome (merged_size m)
       (\<lambda>n. expects (index \<ge> 0 \<and> index < n)
         (bind_outcome (migrated_size m)
           (\<lambda>size. if size \<noteq> 0 \<and> index < size
             then bind_outcome (migrated_part m) (\<lambda>s. bind_outcome (ss_at index s)
                    (\<lambda>i. Inr (compute_id (key_migrated_peer (ms_key m)) i)))
             else bind_outcome (ss_at (index - size) (ms_part m))
                    (\<lambda>i. Inr (compute_id (key_peer (ms_key m)) i)))))"

definition merged_distance :: "merged_key \<Rightarrow> merged_key \<Rightarrow> merged_slice \<Rightarrow> int option outcome" where
  "merged_distance a b m =
     bind_outcome (merged_index_of (compute_key_id a) m)
       (\<lambda>i. case i of
          None \<Rightarrow> Inr None
        | Some i \<Rightarrow> bind_outcome (merged_index_of (compute_key_id b) m)
            (\<lambda>j. Inr (map_option (\<lambda>j. j - i) j)))"

definition merged_nearest :: "msg_id \<Rightarrow> merged_slice \<Rightarrow> full_msg_id option outcome" where
  "merged_nearest i m =
     (let from_part = map_option (compute_id (key_peer (ms_key m)));
          from_migrated = map_option (compute_id (key_migrated_peer (ms_key m)))
      in if IsServerMsgId i then
           (case ss_nearest i (ms_part m) of
              Some x \<Rightarrow> Inr (from_part (Some x))
            | None \<Rightarrow>
                if isolated_in_part m then Inr None
                else bind_outcome (migrated_part m)
                       (\<lambda>s. Inr (from_migrated (ss_nearest (ServerMaxMsgId - 1) s))))
         else
           (case (case ms_migrated m of Some s \<Rightarrow> ss_nearest (i + ServerMaxMsgId) s | None \<Rightarrow> None) of
              Some x \<Rightarrow> Inr (from_migrated (Some x))
            | None \<Rightarrow>
                bind_outcome (isolated_in_migrated m)
                  (\<lambda>isolated. if isolated then Inr None
                              else Inr (from_part (ss_nearest 0 (ms_part m))))))"

text \<open>
  \<open>CreateViewer\<close>: the merged slice it puts when the simple viewers have their latest values,
  which the parameter gives for a peer, a key and two limits.
\<close>

definition merged_viewer_value ::
    "merged_key \<Rightarrow> int \<Rightarrow> int \<Rightarrow> (peer_id \<Rightarrow> msg_id \<Rightarrow> int \<Rightarrow> int \<Rightarrow> sparse_slice) \<Rightarrow>
     merged_slice outcome" where
  "merged_viewer_value k limitBefore limitAfter simpleViewer =
     expects (IsServerMsgId (key_universal k) \<or> key_universal k = 0 \<or>
              IsServerMsgId (ServerMaxMsgId + key_universal k) \<and> key_migrated_peer k \<noteq> 0)
       (expects (key_universal k \<noteq> 0 \<or> limitBefore = 0 \<and> limitAfter = 0)
         (let part = simpleViewer (key_peer k) (part_key k) limitBefore limitAfter
          in if key_migrated_peer k = 0
             then Inr \<lparr> ms_key = k, ms_part = part, ms_migrated = None \<rparr>
             else Inr \<lparr> ms_key = k, ms_part = part, ms_migrated =
                    Some (simpleViewer (key_migrated_peer k) (migrated_key k) limitBefore limitAfter) \<rparr>))"

section \<open>Lookups in a slice\<close>

lemma ss_index_of_iff:
  assumes "strictly_sorted (ss_ids s)"
  shows "ss_index_of m s = Some i \<longleftrightarrow> 0 \<le> i \<and> i < ss_size s \<and> ss_ids s ! nat i = m"
proof -
  have d: "distinct (ss_ids s)" using assms by (rule linorder_less.sorted_distinct)
  have f: "set_find (<) m (ss_ids s) = (if m \<in> set (ss_ids s) then std_lower_bound (<) m (ss_ids s) else length (ss_ids s))"
    by (rule set_find_eq [OF assms])
  have l: "m \<in> set (ss_ids s) \<Longrightarrow> std_lower_bound (<) m (ss_ids s) < length (ss_ids s) \<and>
      ss_ids s ! std_lower_bound (<) m (ss_ids s) = m"
    using lower_bound_finds [OF assms, of m] by auto
  show ?thesis
  proof (cases "m \<in> set (ss_ids s)")
    case True
    then show ?thesis
      using f l d by (auto simp: ss_index_of_def ss_size_def Let_def nth_eq_iff_index_eq)
  next
    case False
    then show ?thesis using f by (auto simp: ss_index_of_def ss_size_def Let_def dest: nth_mem)
  qed
qed

lemma ss_at_Inr_iff: "ss_at i s = Inr m \<longleftrightarrow> 0 \<le> i \<and> i < ss_size s \<and> ss_ids s ! nat i = m"
  by (auto simp: ss_at_def expects_Inr_iff)

text \<open>
  Where the operations below have a defined result. The key may be of any peer; only a channel has
  a migrated group. A key of zero or less needs one: \<open>CreateViewer\<close> also allows the key 0 without
  a group, and the viewers that only count messages use it, but on such a slice \<open>size\<close>,
  \<open>indexOf\<close> and \<open>skippedAfter\<close> read the empty optional of the group.
\<close>

definition merged_ok :: "merged_slice \<Rightarrow> bool" where
  "merged_ok m \<longleftrightarrow>
     (let k = ms_key m in
      strictly_sorted (ss_ids (ms_part m)) \<and>
      ((\<exists>c. is_int32 c \<and> c \<noteq> 0 \<and> key_peer k = peerFromChannel c) \<or>
       \<not> peerIsChannel (key_peer k) \<and> ms_migrated m = None) \<and>
      (key_universal k \<le> 0 \<longrightarrow> ms_migrated m \<noteq> None) \<and>
      (IsServerMsgId (key_universal k) \<or> key_universal k = 0 \<or>
       IsServerMsgId (ServerMaxMsgId + key_universal k)) \<and>
      (\<forall>s. ms_migrated m = Some s \<longrightarrow> strictly_sorted (ss_ids s) \<and> \<not> peerIsChannel (key_migrated_peer k)))"

lemma isolated_in_migrated_neg:
  assumes "merged_ok m"
  shows "isolated_in_migrated m = Inr (key_universal (ms_key m) < 0 \<and>
    ss_skipped_after (the (ms_migrated m)) \<noteq> Some 0)"
proof (cases "key_universal (ms_key m) < 0")
  case True
  then have "IsServerMsgId (ServerMaxMsgId + key_universal (ms_key m))" "ms_migrated m \<noteq> None"
    using assms by (auto simp: merged_ok_def IsServerMsgId_def Let_def)
  then show ?thesis using True by (auto simp: isolated_in_migrated_def migrated_part_def)
qed (simp add: isolated_in_migrated_def IsServerMsgId_def)

lemma not_isolated_migrated:
  "merged_ok m \<Longrightarrow> \<not> isolated_in_part m \<Longrightarrow> \<exists>s. ms_migrated m = Some s"
  by (cases "ms_migrated m") (auto simp: merged_ok_def isolated_in_part_def Let_def IsServerMsgId_def)

lemma isolated_in_part_pos: "isolated_in_part m \<Longrightarrow> key_universal (ms_key m) > 0"
  by (simp add: isolated_in_part_def IsServerMsgId_def)

lemma merged_at_index_of:
  assumes ok: "merged_ok m"
  shows "\<exists>n. merged_size m = Inr n \<and> (\<forall>i. 0 \<le> i \<longrightarrow> i < n \<longrightarrow>
    (\<exists>fid. merged_at i m = Inr fid \<and> merged_index_of fid m = Inr (Some i)))"
proof -
  have part: "strictly_sorted (ss_ids (ms_part m))" using ok by (simp add: merged_ok_def Let_def)
  have from_part: "is_from_part (compute_id (key_peer (ms_key m)) x) m"
    "fid_msg (compute_id (key_peer (ms_key m)) x) = x" for x
    using ok by (auto simp: merged_ok_def Let_def is_from_part_def is_from_slice_def compute_id_def
        peer_kinds peer_bare)
  show ?thesis
  proof (cases "isolated_in_part m")
    case True
    then have "isolated_in_migrated m = Inr False"
      using isolated_in_migrated_neg [OF ok] isolated_in_part_pos [OF True] by simp
    then show ?thesis
      using True from_part by (auto simp: merged_size_def migrated_size_def merged_at_def
          merged_index_of_def ss_index_of_iff [OF part] ss_at_def)
  next
    case False
    then obtain s where s: "ms_migrated m = Some s" using not_isolated_migrated [OF ok] by blast
    then obtain c where c: "is_int32 c" "c \<noteq> 0" "key_peer (ms_key m) = peerFromChannel c"
      using ok by (auto simp: merged_ok_def Let_def)
    have sorted: "strictly_sorted (ss_ids s)" and mig: "\<not> peerIsChannel (key_migrated_peer (ms_key m))"
      using ok s by (auto simp: merged_ok_def Let_def)
    have old: "\<not> is_from_part (compute_id (key_migrated_peer (ms_key m)) x) m"
      "is_from_migrated (compute_id (key_migrated_peer (ms_key m)) x) m"
      "fid_msg (compute_id (key_migrated_peer (ms_key m)) x) = x" for x
      using c s mig peer_bare(3) [of 0] peer_bare(3) [OF c(1)]
      by (auto simp: is_from_part_def is_from_migrated_def is_from_slice_def compute_id_def
          peer_kinds is_int32_def)
    have "migrated_size m = Inr (ss_size s)" "migrated_part m = Inr s"
      using False s by (simp_all add: migrated_size_def migrated_part_def)
    moreover have "ss_index_of (ss_ids t ! nat j) t = Some j"
      if "strictly_sorted (ss_ids t)" "0 \<le> j" "j < ss_size t" for j t
      using that ss_index_of_iff [OF that(1)] by blast
    ultimately show ?thesis
      using False isolated_in_migrated_neg [OF ok] from_part old part sorted
      by (auto simp: merged_size_def merged_at_def merged_index_of_def ss_at_def)
  qed
qed

definition counts_add_up :: "sparse_slice \<Rightarrow> bool" where
  "counts_add_up s \<longleftrightarrow>
     (\<forall>b a n. ss_skipped_before s = Some b \<longrightarrow> ss_skipped_after s = Some a \<longrightarrow>
        ss_full_count s = Some n \<longrightarrow> b + ss_size s + a = n)"

lemma merged_counts:
  assumes ok: "merged_ok m" and part: "counts_add_up (ms_part m)"
    and mig: "\<forall>s. ms_migrated m = Some s \<longrightarrow> counts_add_up s"
    and b: "merged_skipped_before m = Inr (Some b)" and a: "merged_skipped_after m = Inr (Some a)"
    and n: "merged_full_count m = Some n"
  shows "\<exists>k. merged_size m = Inr k \<and> b + k + a = n"
proof (cases "isolated_in_part m")
  case True
  then have "isolated_in_migrated m = Inr False"
    using isolated_in_migrated_neg [OF ok] isolated_in_part_pos [OF True] by simp
  then show ?thesis
    using True part a b n
    by (auto simp: merged_size_def merged_skipped_before_def merged_skipped_after_def
        merged_full_count_def counts_add_up_def add_option_Some_iff split: option.splits)
next
  case False
  then obtain s where s: "ms_migrated m = Some s" using not_isolated_migrated [OF ok] by blast
  have "migrated_size m = Inr (ss_size s)" "migrated_part m = Inr s"
    using False s by (simp_all add: migrated_size_def migrated_part_def)
  then show ?thesis
    using False s isolated_in_migrated_neg [OF ok] part mig a b n
    by (auto simp: merged_size_def merged_skipped_before_def merged_skipped_after_def
        merged_full_count_def counts_add_up_def add_option_Some_iff split: if_splits)
qed

section \<open>Properties\<close>

text \<open>C20. The identifiers of a merged slice are numbered without gaps: within the bounds of its
  size the element at an index is defined, and \<open>indexOf\<close> gives the index back, whichever of
  the two groups the element is in. The slice is of any peer, with a migrated group or without
  one, with a key that is positive or for which there is a group (\<open>merged_ok\<close>).\<close>

theorem merged_slice_index_roundtrip:
  assumes "merged_ok m"
  shows "\<exists>n. merged_size m = Inr n \<and> (\<forall>i. 0 \<le> i \<longrightarrow> i < n \<longrightarrow>
    (\<exists>fid. merged_at i m = Inr fid \<and> merged_index_of fid m = Inr (Some i)))"
  by (rule merged_at_index_of [OF assms])

definition example_merged :: merged_slice where
  "example_merged =
     \<lparr> ms_key = \<lparr> key_peer = peerFromChannel 7, key_migrated_peer = peerFromChat 3, key_universal = 2 \<rparr>,
       ms_part = \<lparr> ss_ids = [2, 4], ss_range = \<lparr> range_from = 0, range_till = 4 \<rparr>,
         ss_full_count = Some 5, ss_skipped_before = Some 0, ss_skipped_after = Some 3 \<rparr>,
       ms_migrated = Some \<lparr> ss_ids = [10, 20], ss_range = \<lparr> range_from = 0, range_till = 4 \<rparr>,
         ss_full_count = Some 6, ss_skipped_before = Some 4, ss_skipped_after = Some 0 \<rparr> \<rparr>"

lemma example_merged_ok: "merged_ok example_merged"
proof -
  have "is_int32 7 \<and> (7::int) \<noteq> 0 \<and> key_peer (ms_key example_merged) = peerFromChannel 7"
    by (simp add: is_int32_def example_merged_def)
  then show ?thesis
    unfolding merged_ok_def Let_def
    by (auto simp: example_merged_def peer_kinds IsServerMsgId_def ServerMaxMsgId_def)
qed

theorem merged_slice_index_roundtrip_witness:
  "merged_ok example_merged \<and> (\<exists>n. merged_size example_merged = Inr n \<and> n = 4 \<and>
    (\<forall>i. 0 \<le> i \<longrightarrow> i < n \<longrightarrow> (\<exists>fid. merged_at i example_merged = Inr fid \<and>
      merged_index_of fid example_merged = Inr (Some i))))"
proof -
  have "merged_size example_merged = Inr 4"
    by (simp add: example_merged_def merged_size_def isolated_in_part_def migrated_size_def
        migrated_part_def isolated_in_migrated_def IsServerMsgId_def ServerMaxMsgId_def ss_size_def)
  with merged_slice_index_roundtrip [OF example_merged_ok] show ?thesis
    using example_merged_ok by simp
qed

text \<open>C29. When the counters of both parts add up, so do those of the merged slice: what is
  skipped before, what is shown and what is skipped after make the full count, for the same
  slices.\<close>

theorem merged_slice_counts:
  assumes "merged_ok m" "counts_add_up (ms_part m)"
    "\<forall>s. ms_migrated m = Some s \<longrightarrow> counts_add_up s"
    "merged_skipped_before m = Inr (Some b)" "merged_skipped_after m = Inr (Some a)"
    "merged_full_count m = Some n"
  shows "\<exists>k. merged_size m = Inr k \<and> b + k + a = n"
  by (rule merged_counts [OF assms])

theorem merged_slice_counts_witness:
  "\<exists>k. merged_size example_merged = Inr k \<and> 4 + k + 3 = (11::int)"
  by (rule merged_slice_counts [OF example_merged_ok])
    (simp_all add: example_merged_def counts_add_up_def ss_size_def merged_skipped_before_def
      merged_skipped_after_def isolated_in_migrated_def isolated_in_part_def migrated_part_def
      merged_full_count_def add_option_def IsServerMsgId_def ServerMaxMsgId_def)

text \<open>C18. What a chat builder makes of an update. The update tells the truth about the history
  \<open>H @ N\<close>, in which \<open>N\<close> are new messages at the end, all of them in the range of the update, and
  either the update meets the window or the new messages are not before the key. It never fails,
  and afterwards the window is a segment of the new history with every known counter exact if
  and only if there is no new message, or the update tells the new count (or none is known) and it
  meets the window (or nothing is said of what is skipped after it). So a new message after a
  window that does not reach the end leaves a wrong number of skipped messages.\<close>

theorem sparse_builder_update_follows:
  assumes "strictly_sorted (H @ N)" "\<forall>m\<in>set (H @ N). 0 \<le> m \<and> m \<le> ServerMaxMsgId"
    "follows H b" "limits_ok b" "truthful_update (H @ N) u"
    "\<forall>m\<in>set N. in_range m (update_range u)"
    "need_merge_messages u b \<or> (\<forall>m\<in>set N. builder_key b \<le> m)"
  shows "\<exists>b' changed. apply_update sparse_kind u b = Inr (b', changed) \<and>
    (follows (H @ N) b' \<longleftrightarrow>
       N = [] \<or> (update_count u \<noteq> None \<or> builder_full_count b = None) \<and>
                (need_merge_messages u b \<or> builder_skipped_after b = None))"
  unfolding new_end_told_def [symmetric]
  by (rule apply_update_follows_iff [OF assms(1,3,4,5) _ assms(6,7)])
    (use assms(2) in \<open>simp add: kind_ok_def sparse_kind_def\<close>)

definition example_builder :: sparse_builder where
  "example_builder = (new_sparse_builder 30 2 2)\<lparr> builder_ids := [20, 30],
     builder_full_count := Some 3, builder_skipped_before := Some 1, builder_skipped_after := Some 0 \<rparr>"

lemma example_builder_follows:
  "follows [10, 20, 30] example_builder" "limits_ok example_builder"
proof -
  show "follows [10, 20, 30] example_builder"
    by (rule followsI [of _ "[10]" _ "[]"])
      (simp_all add: example_builder_def new_sparse_builder_def new_builder_def)
  show "limits_ok example_builder"
    by (simp add: example_builder_def new_sparse_builder_def new_builder_def limits_ok_def)
qed

lemma lower_builder_follows:
  "follows [10, 20, 30] (example_builder\<lparr> builder_key := 10, builder_ids := [10, 20],
     builder_skipped_before := Some 0, builder_skipped_after := Some 1 \<rparr>)"
  "limits_ok (example_builder\<lparr> builder_key := 10, builder_ids := [10, 20],
     builder_skipped_before := Some 0, builder_skipped_after := Some 1 \<rparr>)"
proof -
  show "follows [10, 20, 30] (example_builder\<lparr> builder_key := 10, builder_ids := [10, 20],
     builder_skipped_before := Some 0, builder_skipped_after := Some 1 \<rparr>)"
    by (rule followsI [of _ "[]" _ "[30]"])
      (simp_all add: example_builder_def new_sparse_builder_def new_builder_def)
  show "limits_ok (example_builder\<lparr> builder_key := 10, builder_ids := [10, 20],
     builder_skipped_before := Some 0, builder_skipped_after := Some 1 \<rparr>)"
    using example_builder_follows(2) by (simp add: limits_ok_def)
qed

text \<open>Message 40 comes, and the update of the storage has 30 and 40: the window of 20 and 30
  follows, the window of 10 and 20 does not.\<close>

theorem sparse_builder_update_follows_witness:
  "(\<exists>b' changed. apply_update sparse_kind
      \<lparr> update_messages = Some [30, 40], update_range = \<lparr> range_from = 25, range_till = ServerMaxMsgId \<rparr>,
        update_count = Some 4 \<rparr> example_builder = Inr (b', changed) \<and> follows ([10, 20, 30] @ [40]) b') \<and>
   (\<exists>b' changed. apply_update sparse_kind
      \<lparr> update_messages = Some [30, 40], update_range = \<lparr> range_from = 25, range_till = ServerMaxMsgId \<rparr>,
        update_count = Some 4 \<rparr> (example_builder\<lparr> builder_key := 10, builder_ids := [10, 20],
     builder_skipped_before := Some 0, builder_skipped_after := Some 1 \<rparr>) = Inr (b', changed) \<and>
     \<not> follows ([10, 20, 30] @ [40]) b')"
  using sparse_builder_update_follows [of "[10, 20, 30]" "[40]", OF _ _ example_builder_follows,
      of "\<lparr> update_messages = Some [30, 40],
        update_range = \<lparr> range_from = 25, range_till = ServerMaxMsgId \<rparr>, update_count = Some 4 \<rparr>"]
    sparse_builder_update_follows [of "[10, 20, 30]" "[40]", OF _ _ lower_builder_follows,
      of "\<lparr> update_messages = Some [30, 40],
        update_range = \<lparr> range_from = 25, range_till = ServerMaxMsgId \<rparr>, update_count = Some 4 \<rparr>"]
  by (simp add: truthful_update_def need_merge_messages_def ranges_intersect_def
      example_builder_def new_sparse_builder_def new_builder_def ServerMaxMsgId_def)



text \<open>C19. A builder that has nothing to ask for is complete: when \<open>checkInsufficient\<close> fires no
  request, the full count is known and the window has every message of the history within the
  limits around the key.\<close>

theorem sparse_builder_quiet_complete:
  assumes "follows H b" "strictly_sorted H" "limits_ok b" "builder_key b \<noteq> 0"
    "builder_requests (check_insufficient sparse_kind b) = builder_requests b"
  shows "builder_full_count (check_insufficient sparse_kind b) = Some (int (length H)) \<and>
    builder_ids (check_insufficient sparse_kind b) =
      ids_window (builder_limit_before b) (builder_limit_after b) (builder_key b) H"
  using slice_to_limits_complete [OF assms(1-3), of sparse_kind] assms(4,5)
  by (simp add: check_insufficient_def sparse_kind_def)

definition quiet_builder :: sparse_builder where
  "quiet_builder = (new_sparse_builder 30 1 0)\<lparr> builder_ids := [10, 20, 30],
     builder_full_count := Some 4, builder_skipped_before := Some 0, builder_skipped_after := Some 1 \<rparr>"

lemma quiet_builder_run:
  "builder_ids (check_insufficient sparse_kind quiet_builder) = [20, 30] \<and>
   builder_requests (check_insufficient sparse_kind quiet_builder) = []"
  by (simp add: quiet_builder_def new_sparse_builder_def new_builder_def check_insufficient_def
      slice_to_limits_def sparse_kind_def std_lower_bound_def partition_index_def limit_begin_def
      limit_end_def Let_def)

theorem sparse_builder_quiet_complete_witness:
  "ids_window 1 0 30 [10, 20, 30, 40::int] = [20, 30] \<and>
   builder_full_count (check_insufficient sparse_kind quiet_builder) = Some 4"
proof -
  have f: "follows [10, 20, 30, 40] quiet_builder"
    by (rule followsI [of _ "[]" _ "[40]"])
      (simp_all add: quiet_builder_def new_sparse_builder_def new_builder_def)
  have fields: "builder_key quiet_builder = 30" "builder_limit_before quiet_builder = 1"
    "builder_limit_after quiet_builder = 0" "builder_requests quiet_builder = []"
    by (simp_all add: quiet_builder_def new_sparse_builder_def new_builder_def)
  show ?thesis
    using sparse_builder_quiet_complete [OF f] fields quiet_builder_run by (simp add: limits_ok_def)
qed

end
