(* ===== verification/Keyed_Lists.thy ===== *)
theory Keyed_Lists
  imports Prelude
begin

text \<open>
  The stores of the storage layer keep one list per key in a \<open>std::map\<close>: adding makes the list
  of its key when there is none (\<open>enforceLists\<close>), removing and querying only look. What the
  stores rely on is the locale \<open>keyed_lists\<close>, interpreted on the functional map that stands for
  \<open>std::map\<close>.
\<close>

definition enforce_lists :: "'l \<Rightarrow> 'k \<Rightarrow> ('k \<rightharpoonup> 'l) \<Rightarrow> ('k \<rightharpoonup> 'l)" where
  "enforce_lists fresh k m = (if m k \<noteq> None then m else m(k \<mapsto> fresh))"

locale keyed_lists =
  fixes find :: "'st \<Rightarrow> 'k \<Rightarrow> 'l option"
    and enforce :: "'k \<Rightarrow> 'st \<Rightarrow> 'st"
    and put :: "'k \<Rightarrow> 'l \<Rightarrow> 'st \<Rightarrow> 'st"
    and fresh :: 'l
  assumes find_enforce: "find (enforce k st) k' =
      (if k' = k then Some (case find st k of None \<Rightarrow> fresh | Some l \<Rightarrow> l) else find st k')"
    and find_put: "find (put k l st) k' = (if k' = k then Some l else find st k')"
begin

definition entry :: "'st \<Rightarrow> 'k \<Rightarrow> 'l" where
  "entry st k = (case find st k of None \<Rightarrow> fresh | Some l \<Rightarrow> l)"

lemma entry_enforce: "entry (enforce k st) k' = entry st k'"
  by (simp add: entry_def find_enforce)

lemma entry_put: "entry (put k l st) k' = (if k' = k then l else entry st k')"
  by (simp add: entry_def find_put)

lemma find_enforce_same: "find (enforce k st) k = Some (entry st k)"
  by (simp add: entry_def find_enforce)

lemma entry_find: "find st k = Some l \<Longrightarrow> entry st k = l"
  by (simp add: entry_def)

lemma all_put:
  "\<forall>k. P k (entry st k) \<Longrightarrow> Q k l \<Longrightarrow> \<forall>k'. k' \<noteq> k \<longrightarrow> P k' (entry st k') \<longrightarrow> Q k' (entry st k') \<Longrightarrow>
   \<forall>k'. Q k' (entry (put k l (enforce k st)) k')"
  by (simp add: entry_put entry_enforce)

lemma all_put_found:
  "\<forall>k. P k (entry st k) \<Longrightarrow> Q k l \<Longrightarrow> \<forall>k'. k' \<noteq> k \<longrightarrow> P k' (entry st k') \<longrightarrow> Q k' (entry st k') \<Longrightarrow>
   \<forall>k'. Q k' (entry (put k l st) k')"
  by (simp add: entry_put)

end

interpretation map_lists: keyed_lists
  "\<lambda>m k. m k" "enforce_lists fresh" "\<lambda>k l m. m(k \<mapsto> l)" fresh for fresh :: 'l
  by unfold_locales (auto simp: enforce_lists_def split: option.splits)

end
