(* ===== verification/Shared_Media.thy ===== *)
theory Shared_Media
  imports Sparse_Ids_List Keyed_Lists
begin

unbundle bit_operations_syntax

text \<open>
  storage/storage\_shared\_media.cpp: the identifiers of the media messages of every chat, one
  list of sparse identifiers per type of media. The state has the lists of each peer and the
  log of what the event streams of the store have fired.
\<close>

section \<open>Types of media and their masks\<close>

datatype shared_media_type =
  Photo | Video | PhotoVideo | MusicFile | File | VoiceFile | Link | ChatPhoto
| RoundVoiceFile | GIF | RoundFile | kCount

fun type_index :: "shared_media_type \<Rightarrow> nat" where
  "type_index Photo = 0" | "type_index Video = 1" | "type_index PhotoVideo = 2"
| "type_index MusicFile = 3" | "type_index File = 4" | "type_index VoiceFile = 5"
| "type_index Link = 6" | "type_index ChatPhoto = 7" | "type_index RoundVoiceFile = 8"
| "type_index GIF = 9" | "type_index RoundFile = 10" | "type_index kCount = 11"

definition all_types :: "shared_media_type list" where
  "all_types = [Photo, Video, PhotoVideo, MusicFile, File, VoiceFile, Link, ChatPhoto,
     RoundVoiceFile, GIF, RoundFile, kCount]"

definition kSharedMediaTypeCount :: nat where
  "kSharedMediaTypeCount = type_index kCount"

definition IsValidSharedMediaType :: "shared_media_type \<Rightarrow> bool" where
  "IsValidSharedMediaType type \<longleftrightarrow> type_index type < kSharedMediaTypeCount"

text \<open>base/enum\_mask.h: a set of enumerators in 32 bits.\<close>

type_synonym types_mask = "32 word"

definition to_bit :: "shared_media_type \<Rightarrow> types_mask" where
  "to_bit value = push_bit (type_index value) 1"

definition mask_set :: "types_mask \<Rightarrow> types_mask \<Rightarrow> types_mask" where
  "mask_set other m = m OR other"

definition mask_added :: "types_mask \<Rightarrow> types_mask \<Rightarrow> types_mask" where
  "mask_added other m = mask_set other m"

definition mask_test :: "shared_media_type \<Rightarrow> types_mask \<Rightarrow> bool" where
  "mask_test value m \<longleftrightarrow> m AND to_bit value \<noteq> 0"

section \<open>The store\<close>

datatype media_event =
    MediaSliceUpdate peer_id shared_media_type "msg_id slice_update"
  | MediaOneRemoved peer_id types_mask msg_id
  | MediaAllRemoved peer_id
  | MediaBottomInvalidated peer_id

record shared_media =
  sm_lists :: "peer_id \<rightharpoonup> sparse_list list"
  sm_events :: "media_event list"

definition empty_lists :: "sparse_list list" where
  "empty_lists = replicate kSharedMediaTypeCount empty_sparse_list"

definition empty_shared_media :: shared_media where
  "empty_shared_media = \<lparr> sm_lists = Map.empty, sm_events = [] \<rparr>"

definition media_enforce :: "peer_id \<Rightarrow> shared_media \<Rightarrow> shared_media" where
  "media_enforce peer sm = sm\<lparr> sm_lists := enforce_lists empty_lists peer (sm_lists sm) \<rparr>"

text \<open>
  The loop of \<open>add\<close> over the types of the mask, from \<open>index\<close> on: \<open>op\<close> is the operation of the
  list; an update of the list is fired on the stream of the store with peer and type.
\<close>

function media_add_loop ::
    "(sparse_list \<Rightarrow> (sparse_list \<times> msg_id slice_update) outcome) \<Rightarrow> peer_id \<Rightarrow> types_mask \<Rightarrow>
     nat \<Rightarrow> sparse_list list \<Rightarrow> media_event list \<Rightarrow> (sparse_list list \<times> media_event list) outcome" where
  "media_add_loop op peer types index ls events =
     (if index \<ge> kSharedMediaTypeCount then Inr (ls, events)
      else
        let type = all_types ! index
        in if mask_test type types
           then bind_outcome (op (ls ! index))
                  (\<lambda>(l, u). media_add_loop op peer types (Suc index) (ls[index := l])
                     (events @ [MediaSliceUpdate peer type u]))
           else media_add_loop op peer types (Suc index) ls events)"
  by pat_completeness auto
termination
  by (relation "measure (\<lambda>(op, peer, types, index, ls, events). kSharedMediaTypeCount - index)") auto

declare media_add_loop.simps [simp del]

definition media_add_masked ::
    "(sparse_list \<Rightarrow> (sparse_list \<times> msg_id slice_update) outcome) \<Rightarrow> peer_id \<Rightarrow> types_mask \<Rightarrow>
     shared_media \<Rightarrow> shared_media outcome" where
  "media_add_masked op peer types sm =
     (let sm' = media_enforce peer sm
      in bind_outcome (media_add_loop op peer types 0 (the (sm_lists sm' peer)) (sm_events sm'))
           (\<lambda>(ls, events). Inr \<lparr> sm_lists = (sm_lists sm')(peer \<mapsto> ls), sm_events = events \<rparr>))"

definition media_add_new ::
    "peer_id \<Rightarrow> types_mask \<Rightarrow> msg_id \<Rightarrow> shared_media \<Rightarrow> shared_media outcome" where
  "media_add_new peer types messageId sm = media_add_masked (sparse_add_new messageId) peer types sm"

definition media_add_existing ::
    "peer_id \<Rightarrow> types_mask \<Rightarrow> msg_id \<Rightarrow> msg_id msg_range \<Rightarrow> shared_media \<Rightarrow> shared_media outcome" where
  "media_add_existing peer types messageId noSkipRange sm =
     media_add_masked (sparse_add_existing messageId noSkipRange) peer types sm"

definition media_add_slice ::
    "peer_id \<Rightarrow> shared_media_type \<Rightarrow> msg_id list \<Rightarrow> msg_id msg_range \<Rightarrow> int option \<Rightarrow>
     shared_media \<Rightarrow> shared_media outcome" where
  "media_add_slice peer type messageIds noSkipRange cnt sm =
     expects (IsValidSharedMediaType type)
       (let sm' = media_enforce peer sm;
            ls = the (sm_lists sm' peer);
            index = type_index type
        in bind_outcome (sparse_add_slice messageIds noSkipRange cnt (ls ! index))
             (\<lambda>(l, u). Inr \<lparr> sm_lists = (sm_lists sm')(peer \<mapsto> ls[index := l]),
                             sm_events = sm_events sm' @ [MediaSliceUpdate peer type u] \<rparr>))"

definition media_remove_one ::
    "peer_id \<Rightarrow> types_mask \<Rightarrow> msg_id \<Rightarrow> shared_media \<Rightarrow> shared_media" where
  "media_remove_one peer types messageId sm =
     (case sm_lists sm peer of
        None \<Rightarrow> sm
      | Some ls \<Rightarrow>
          \<lparr> sm_lists = (sm_lists sm)(peer \<mapsto>
              map (\<lambda>index. if mask_test (all_types ! index) types
                           then sparse_remove_one messageId (ls ! index) else ls ! index)
                [0..<kSharedMediaTypeCount]),
            sm_events = sm_events sm @ [MediaOneRemoved peer types messageId] \<rparr>)"

definition media_remove_all :: "peer_id \<Rightarrow> shared_media \<Rightarrow> shared_media" where
  "media_remove_all peer sm =
     (case sm_lists sm peer of
        None \<Rightarrow> sm
      | Some ls \<Rightarrow>
          \<lparr> sm_lists = (sm_lists sm)(peer \<mapsto>
              map (\<lambda>index. sparse_remove_all (ls ! index)) [0..<kSharedMediaTypeCount]),
            sm_events = sm_events sm @ [MediaAllRemoved peer] \<rparr>)"

definition media_invalidate_bottom :: "peer_id \<Rightarrow> shared_media \<Rightarrow> shared_media" where
  "media_invalidate_bottom peer sm =
     (case sm_lists sm peer of
        None \<Rightarrow> sm
      | Some ls \<Rightarrow>
          \<lparr> sm_lists = (sm_lists sm)(peer \<mapsto>
              map (\<lambda>index. sparse_invalidate_bottom (ls ! index)) [0..<kSharedMediaTypeCount]),
            sm_events = sm_events sm @ [MediaBottomInvalidated peer] \<rparr>)"

definition media_query ::
    "peer_id \<Rightarrow> shared_media_type \<Rightarrow> msg_id list_query \<Rightarrow> shared_media \<Rightarrow>
     msg_id list_result option outcome" where
  "media_query peer type q sm =
     expects (IsValidSharedMediaType type)
       (Inr (case sm_lists sm peer of
               None \<Rightarrow> None
             | Some ls \<Rightarrow> sparse_query q (ls ! type_index type)))"

section \<open>Masks and indices\<close>

lemma type_index_less [simp]: "type_index t < 12"
  by (cases t) simp_all

lemma valid_index: "IsValidSharedMediaType t \<longleftrightarrow> type_index t < 11"
  by (simp add: IsValidSharedMediaType_def kSharedMediaTypeCount_def)

lemma all_types_index [simp]: "all_types ! type_index t = t"
  by (cases t) (simp_all add: all_types_def)

lemma index_all_types: "j < 11 \<Longrightarrow> \<exists>t. j = type_index t \<and> IsValidSharedMediaType t"
proof -
  assume "j < 11"
  then have "j \<in> set (map type_index (butlast all_types))" by (simp add: all_types_def, presburger)
  then obtain t where "j = type_index t" by auto
  then show ?thesis using \<open>j < 11\<close> by (auto simp: valid_index)
qed

lemma mask_test_bit: "mask_test t m \<longleftrightarrow> bit m (type_index t)"
proof -
  have "m AND to_bit t = (if bit m (type_index t) then to_bit t else 0)"
    by (rule bit_word_eqI) (auto simp: to_bit_def bit_simps)
  moreover have "to_bit t \<noteq> 0" by (cases t) (simp_all add: to_bit_def)
  ultimately show ?thesis by (simp add: mask_test_def)
qed

section \<open>What the store knows\<close>

definition media_entry :: "shared_media \<Rightarrow> peer_id \<Rightarrow> sparse_list list" where
  "media_entry sm = map_lists.entry empty_lists (sm_lists sm)"

type_synonym chats = "peer_id \<Rightarrow> shared_media_type \<Rightarrow> msg_id set"

text \<open>The store and what the chats have, each rule one operation as its callers use it.\<close>

inductive media_history :: "shared_media \<Rightarrow> chats \<Rightarrow> bool" where
  media_start: "media_history empty_shared_media H"
| media_new: "media_history sm H \<Longrightarrow> m \<le> ServerMaxMsgId \<Longrightarrow>
    \<forall>t. mask_test t types \<longrightarrow> (\<forall>x\<in>H p t. x < m) \<Longrightarrow> media_add_new p types m sm = Inr sm' \<Longrightarrow>
    media_history sm' (H(p := \<lambda>t. if mask_test t types then insert m (H p t) else H p t))"
| media_existing: "media_history sm H \<Longrightarrow> range_from r \<le> range_till r \<Longrightarrow>
    \<forall>t. mask_test t types \<longrightarrow> {x \<in> H p t. in_range x r} = {m} \<Longrightarrow>
    media_add_existing p types m r sm = Inr sm' \<Longrightarrow> media_history sm' H"
| media_slice: "media_history sm H \<Longrightarrow> range_from r \<le> range_till r \<Longrightarrow>
    set msgs = {x \<in> H p t. in_range x r} \<Longrightarrow>
    media_add_slice p t msgs r cnt sm = Inr sm' \<Longrightarrow> media_history sm' H"
| media_remove: "media_history sm H \<Longrightarrow> media_history (media_remove_one p types m sm)
    (H(p := \<lambda>t. if mask_test t types then H p t - {m} else H p t))"
| media_clear: "media_history sm H \<Longrightarrow> media_history (media_remove_all p sm) (H(p := \<lambda>_. {}))"
| media_missed: "media_history sm H \<Longrightarrow>
    \<forall>t. \<forall>x\<in>N t. (\<forall>h\<in>H p t. h < x) \<and> (\<forall>s\<in>set (sparse_slices (media_entry sm p ! type_index t)).
      slice_from s < x \<and> (slice_till s \<noteq> ServerMaxMsgId \<longrightarrow> slice_till s < x)) \<Longrightarrow>
    media_history (media_invalidate_bottom p sm) (H(p := \<lambda>t. H p t \<union> N t))"

definition media_ok :: "shared_media \<Rightarrow> chats \<Rightarrow> bool" where
  "media_ok sm H \<longleftrightarrow> (\<forall>p. length (media_entry sm p) = 11 \<and>
     (\<forall>t. IsValidSharedMediaType t \<longrightarrow> sparse_history (media_entry sm p ! type_index t) (H p t)))"

lemma media_add_loop_spec:
  "media_add_loop op p types i ls ev = Inr (ls', ev') \<Longrightarrow> length ls = 11 \<Longrightarrow>
   length ls' = 11 \<and> (\<forall>j<11. if i \<le> j \<and> mask_test (all_types ! j) types
     then \<exists>u. op (ls ! j) = Inr (ls' ! j, u) else ls' ! j = ls ! j)"
proof (induction op p types i ls ev rule: media_add_loop.induct)
  case (1 op p types i ls ev)
  show ?case
  proof (cases "i < 11 \<and> mask_test (all_types ! i) types")
    case True
    then obtain l u where l: "op (ls ! i) = Inr (l, u)"
      "media_add_loop op p types (Suc i) (ls[i := l]) (ev @ [MediaSliceUpdate p (all_types ! i) u]) = Inr (ls', ev')"
      using 1(3) by (subst (asm) media_add_loop.simps)
        (auto simp: kSharedMediaTypeCount_def bind_outcome_Inr_iff)
    have "length ls' = 11 \<and> (\<forall>j<11. if Suc i \<le> j \<and> mask_test (all_types ! j) types
        then \<exists>u. op (ls[i := l] ! j) = Inr (ls' ! j, u) else ls' ! j = ls[i := l] ! j)"
      by (rule 1(1) [of "all_types ! i" "(l, u)" l u])
        (use True l 1(4) in \<open>simp_all add: kSharedMediaTypeCount_def\<close>)
    then have n: "length ls' = 11" and all: "\<And>j. j < 11 \<Longrightarrow>
        if Suc i \<le> j \<and> mask_test (all_types ! j) types
        then \<exists>u. op (ls[i := l] ! j) = Inr (ls' ! j, u) else ls' ! j = ls[i := l] ! j" by blast+
    have "if i \<le> j \<and> mask_test (all_types ! j) types
        then \<exists>u. op (ls ! j) = Inr (ls' ! j, u) else ls' ! j = ls ! j" if j: "j < 11" for j
    proof (cases "j = i")
      case eq: True
      then show ?thesis using all [OF j] True l(1) 1(4) by simp
    next
      case False
      then have e: "(i \<le> j) = (Suc i \<le> j)" "ls[i := l] ! j = ls ! j" by auto
      show ?thesis using all [OF j] unfolding e by simp
    qed
    with n show ?thesis by blast
  next
    case skip: False
    show ?thesis
    proof (cases "i < 11")
      case True
      then have "media_add_loop op p types (Suc i) ls ev = Inr (ls', ev')"
        using 1(3) skip by (subst (asm) media_add_loop.simps) (simp add: kSharedMediaTypeCount_def)
      then have "length ls' = 11 \<and> (\<forall>j<11. if Suc i \<le> j \<and> mask_test (all_types ! j) types
          then \<exists>u. op (ls ! j) = Inr (ls' ! j, u) else ls' ! j = ls ! j)"
        by (intro 1(2) [of "all_types ! i"])
          (use True skip 1(4) in \<open>simp_all add: kSharedMediaTypeCount_def\<close>)
      then show ?thesis using skip True by (auto simp: le_less Suc_le_eq split: if_splits)
    next
      case False
      then show ?thesis
        using 1(3,4) by (subst (asm) media_add_loop.simps) (auto simp: kSharedMediaTypeCount_def)
    qed
  qed
qed

lemma media_add_loop_total:
  "length ls = 11 \<Longrightarrow> \<forall>j<11. i \<le> j \<longrightarrow> mask_test (all_types ! j) types \<longrightarrow> (\<exists>r. op (ls ! j) = Inr r) \<Longrightarrow>
   \<exists>r. media_add_loop op p types i ls ev = Inr r"
proof (induction op p types i ls ev rule: media_add_loop.induct)
  case (1 op p types i ls ev)
  show ?case
  proof (cases "i < 11 \<and> mask_test (all_types ! i) types")
    case True
    then obtain l u where l: "op (ls ! i) = Inr (l, u)" using 1(4) by fastforce
    have "\<exists>r. media_add_loop op p types (Suc i) (ls[i := l]) (ev @ [MediaSliceUpdate p (all_types ! i) u]) = Inr r"
      using 1(1) [of "all_types ! i" "(l, u)" l u] True l 1(3,4) by (simp add: kSharedMediaTypeCount_def)
    then show ?thesis
      using True l by (subst media_add_loop.simps) (simp add: kSharedMediaTypeCount_def)
  next
    case False
    then show ?thesis
      using 1(2) [of "all_types ! i"] 1(3,4)
      by (cases "i < 11"; subst media_add_loop.simps) (auto simp: kSharedMediaTypeCount_def)
  qed
qed
lemma media_entry_found: "sm_lists sm p = Some ls \<Longrightarrow> media_entry sm p = ls"
  by (simp add: media_entry_def map_lists.entry_def)

lemma media_entry_update [simp]:
  "media_entry \<lparr> sm_lists = m(p \<mapsto> ls), sm_events = ev \<rparr> q =
     (if q = p then ls else media_entry \<lparr> sm_lists = m, sm_events = ev \<rparr> q)"
  by (simp add: media_entry_def map_lists.entry_def)

lemma media_entry_events: "media_entry \<lparr> sm_lists = sm_lists sm, sm_events = ev \<rparr> = media_entry sm"
  by (simp add: media_entry_def)

lemma media_entry_enforce [simp]: "media_entry (media_enforce p sm) = media_entry sm"
  by (rule ext) (simp add: media_entry_def media_enforce_def map_lists.entry_enforce)

lemma media_enforce_found: "sm_lists (media_enforce p sm) p = Some (media_entry sm p)"
  by (simp add: media_enforce_def media_entry_def map_lists.find_enforce_same)

lemma media_entry_other:
  "media_entry \<lparr> sm_lists = sm_lists (media_enforce p sm), sm_events = ev \<rparr> = media_entry sm"
  using media_entry_enforce [of p sm] by (simp add: media_entry_def)

lemma media_ok_start: "media_ok empty_shared_media H"
  by (simp add: media_ok_def media_entry_def map_lists.entry_def empty_shared_media_def
      empty_lists_def kSharedMediaTypeCount_def valid_index history_start)

text \<open>An operation that changes the lists of one peer.\<close>

lemma media_ok_update:
  assumes "media_ok sm H" "length ls = 11"
    "\<forall>q. q \<noteq> p \<longrightarrow> media_entry sm' q = media_entry sm q" "media_entry sm' p = ls"
    "\<forall>t. IsValidSharedMediaType t \<longrightarrow> sparse_history (ls ! type_index t) (K t)"
  shows "media_ok sm' (H(p := K))"
  using assms by (simp add: media_ok_def)

lemma media_add_masked_spec:
  assumes "media_add_masked op p types sm = Inr sm'" "media_ok sm H"
    "\<And>t l u. IsValidSharedMediaType t \<Longrightarrow> mask_test t types \<Longrightarrow>
       op (media_entry sm p ! type_index t) = Inr (l, u) \<Longrightarrow> sparse_history l (K t)"
    "\<And>t. IsValidSharedMediaType t \<Longrightarrow> \<not> mask_test t types \<Longrightarrow> K t = H p t"
  shows "media_ok sm' (H(p := K))"
proof -
  obtain ls ev where run: "media_add_loop op p types 0 (media_entry sm p) (sm_events (media_enforce p sm)) = Inr (ls, ev)"
    "sm' = \<lparr> sm_lists = (sm_lists (media_enforce p sm))(p \<mapsto> ls), sm_events = ev \<rparr>"
    using assms(1) by (auto simp: media_add_masked_def Let_def bind_outcome_Inr_iff media_enforce_found)
  have n: "length (media_entry sm p) = 11" using assms(2) by (simp add: media_ok_def)
  note loop = media_add_loop_spec [OF run(1) n]
  show ?thesis
  proof (rule media_ok_update [OF assms(2), of ls])
    show "\<forall>t. IsValidSharedMediaType t \<longrightarrow> sparse_history (ls ! type_index t) (K t)"
    proof (intro allI impI)
      fix t assume t: "IsValidSharedMediaType t"
      have l: "if mask_test t types
          then \<exists>u. op (media_entry sm p ! type_index t) = Inr (ls ! type_index t, u)
          else ls ! type_index t = media_entry sm p ! type_index t"
        using conjunct2 [OF loop, rule_format, of "type_index t"] t by (simp add: valid_index)
      show "sparse_history (ls ! type_index t) (K t)"
      proof (cases "mask_test t types")
        case True
        then show ?thesis using l assms(3) [OF t] by auto
      next
        case False
        then show ?thesis using l assms(2,4) t by (simp add: media_ok_def)
      qed
    qed
  qed (use loop run(2) in \<open>simp_all add: media_entry_other\<close>)
qed

lemma media_mapped_spec:
  assumes "media_ok sm H" "sm_lists sm p = Some ls"
    "sm' = \<lparr> sm_lists = (sm_lists sm)(p \<mapsto> map (\<lambda>index. f index (ls ! index)) [0..<kSharedMediaTypeCount]),
             sm_events = ev \<rparr>"
    "\<And>t. IsValidSharedMediaType t \<Longrightarrow> sparse_history (ls ! type_index t) (H p t) \<Longrightarrow>
       sparse_history (f (type_index t) (ls ! type_index t)) (K t)"
  shows "media_ok sm' (H(p := K))"
proof (rule media_ok_update [OF assms(1)])
  show "\<forall>t. IsValidSharedMediaType t \<longrightarrow> sparse_history
      (map (\<lambda>index. f index (ls ! index)) [0..<kSharedMediaTypeCount] ! type_index t) (K t)"
  proof (intro allI impI)
    fix t assume t: "IsValidSharedMediaType t"
    have "sparse_history (ls ! type_index t) (H p t)"
      using assms(1) t media_entry_found [OF assms(2)] by (auto simp: media_ok_def)
    then show "sparse_history
        (map (\<lambda>index. f index (ls ! index)) [0..<kSharedMediaTypeCount] ! type_index t) (K t)"
      using assms(4) [OF t] t by (simp add: kSharedMediaTypeCount_def valid_index)
  qed
qed (simp_all add: assms(3) media_entry_events kSharedMediaTypeCount_def)

text \<open>A peer without lists knows nothing, so any change of its chat is fine.\<close>

lemma media_unknown_spec:
  assumes "media_ok sm H" "sm_lists sm p = None"
  shows "media_ok sm (H(p := K))"
proof (rule media_ok_update [OF assms(1), of empty_lists])
  show "media_entry sm p = empty_lists" using assms(2) by (simp add: media_entry_def map_lists.entry_def)
qed (simp_all add: empty_lists_def kSharedMediaTypeCount_def valid_index history_start)

lemma media_history_ok: "media_history sm H \<Longrightarrow> media_ok sm H"
proof (induction rule: media_history.induct)
  case (media_start H)
  show ?case by (rule media_ok_start)
next
  case (media_new sm H m types p sm')
  show ?case
  proof (rule media_add_masked_spec [OF media_new(4) [unfolded media_add_new_def] media_new(5)])
    fix t l u
    assume t: "IsValidSharedMediaType t" "mask_test t types"
      and run: "sparse_add_new m (media_entry sm p ! type_index t) = Inr (l, u)"
    have "sparse_history l (insert m (H p t))"
      by (rule history_new [OF _ media_new(2) _ run]) (use t media_new(3,5) in \<open>auto simp: media_ok_def\<close>)
    then show "sparse_history l (if mask_test t types then insert m (H p t) else H p t)" using t by simp
  qed simp
next
  case (media_existing sm H r types p m sm')
  have "media_ok sm' (H(p := H p))"
  proof (rule media_add_masked_spec [OF media_existing(4) [unfolded media_add_existing_def] media_existing(5)])
    fix t l u
    assume t: "IsValidSharedMediaType t" "mask_test t types"
      and run: "sparse_add_existing m r (media_entry sm p ! type_index t) = Inr (l, u)"
    show "sparse_history l (H p t)"
      by (rule history_existing [OF _ media_existing(2) _ run])
        (use t media_existing(3,5) in \<open>auto simp: media_ok_def\<close>)
  qed simp
  then show ?case by simp
next
  case (media_slice sm H r msgs p t cnt sm')
  let ?ls = "media_entry sm p"
  obtain l u where run: "sparse_add_slice msgs r cnt (?ls ! type_index t) = Inr (l, u)"
    "sm' = \<lparr> sm_lists = (sm_lists (media_enforce p sm))(p \<mapsto> ?ls[type_index t := l]),
       sm_events = sm_events (media_enforce p sm) @ [MediaSliceUpdate p t u] \<rparr>" and t: "IsValidSharedMediaType t"
    using media_slice(4) by (auto simp: media_add_slice_def Let_def expects_Inr_iff bind_outcome_Inr_iff media_enforce_found)
  have n: "length ?ls = 11" using media_slice(5) by (simp add: media_ok_def)
  have "media_ok sm' (H(p := H p))"
  proof (rule media_ok_update [OF media_slice(5), of "?ls[type_index t := l]"])
    show "\<forall>t'. IsValidSharedMediaType t' \<longrightarrow> sparse_history (?ls[type_index t := l] ! type_index t') (H p t')"
    proof (intro allI impI)
      fix t' assume t': "IsValidSharedMediaType t'"
      show "sparse_history (?ls[type_index t := l] ! type_index t') (H p t')"
      proof (cases "t' = t")
        case True
        then show ?thesis
          using history_slice [OF _ media_slice(2,3) run(1)] media_slice(5) t n
          by (simp add: media_ok_def valid_index)
      next
        case False
        then have "type_index t' \<noteq> type_index t" by (metis all_types_index)
        then show ?thesis using media_slice(5) t' by (simp add: media_ok_def)
      qed
    qed
  qed (simp_all add: run(2) n media_entry_other)
  then show ?case by simp
next
  case (media_remove sm H p types m)
  show ?case
  proof (cases "sm_lists sm p")
    case None
    then have "media_remove_one p types m sm = sm" by (simp add: media_remove_one_def)
    then show ?thesis by (simp only: media_unknown_spec [OF media_remove(2) None])
  next
    case (Some ls)
    show ?thesis
      by (rule media_mapped_spec [OF media_remove(2) Some, where
            f = "\<lambda>index l. if mask_test (all_types ! index) types then sparse_remove_one m l else l"])
        (use Some in \<open>auto simp: media_remove_one_def intro: history_remove\<close>)
  qed
next
  case (media_clear sm H p)
  show ?case
  proof (cases "sm_lists sm p")
    case None
    then have "media_remove_all p sm = sm" by (simp add: media_remove_all_def)
    then show ?thesis by (simp only: media_unknown_spec [OF media_clear(2) None])
  next
    case (Some ls)
    show ?thesis
      by (rule media_mapped_spec [OF media_clear(2) Some, where f = "\<lambda>index l. sparse_remove_all l"])
        (use Some in \<open>auto simp: media_remove_all_def intro: history_clear\<close>)
  qed
next
  case (media_missed sm H N p)
  show ?case
  proof (cases "sm_lists sm p")
    case None
    then have "media_invalidate_bottom p sm = sm" by (simp add: media_invalidate_bottom_def)
    then show ?thesis by (simp only: media_unknown_spec [OF media_missed(3) None])
  next
    case (Some ls)
    show ?thesis
      by (rule media_mapped_spec [OF media_missed(3) Some, where f = "\<lambda>index l. sparse_invalidate_bottom l"])
        (use Some media_missed(2) media_entry_found [OF Some] in
          \<open>auto simp: media_invalidate_bottom_def intro!: history_missed\<close>)
  qed
qed

section \<open>Properties\<close>

lemma type_index_inject: "type_index t = type_index s \<longleftrightarrow> t = s"
  by (metis all_types_index)

lemma mask_set_test: "mask_test t (mask_set (to_bit s) m) \<longleftrightarrow> t = s \<or> mask_test t m"
proof -
  have "bit (to_bit s) n \<longleftrightarrow> n = type_index s" for n
    using order_less_le_trans [OF type_index_less [of s], of 32] by (auto simp: to_bit_def bit_simps)
  then show ?thesis by (auto simp: mask_test_bit mask_set_def bit_or_iff type_index_inject)
qed

lemma media_add_new_total:
  assumes "media_ok sm H" "m \<le> ServerMaxMsgId"
  shows "\<exists>sm'. media_add_new p types m sm = Inr sm'"
proof -
  have n: "length (media_entry sm p) = 11" using assms(1) by (simp add: media_ok_def)
  have "\<exists>r. sparse_add_new m (media_entry sm p ! j) = Inr r" if j: "j < 11" for j
  proof -
    obtain t where t: "j = type_index t" "IsValidSharedMediaType t" using index_all_types [OF j] by blast
    have "sparse_ok (media_entry sm p ! j)"
      using sparse_history_sound_ok assms(1) t by (auto simp: media_ok_def)
    from sparse_add_range_spec [OF this, of "\<lparr> range_from = m, range_till = ServerMaxMsgId \<rparr>" "[m]" None True]
    show ?thesis using assms(2) by (auto simp: sparse_add_new_def)
  qed
  then obtain r where "media_add_loop (sparse_add_new m) p types 0 (media_entry sm p) (sm_events (media_enforce p sm)) = Inr r"
    using media_add_loop_total [OF n] by blast
  then show ?thesis
    by (cases r) (simp add: media_add_new_def media_add_masked_def Let_def media_enforce_found)
qed

text \<open>C7. The store of shared media is never wrong about any type of media of any chat: along
  every history of its operations whatever a list claims to know of an identifier is what the
  chat has, and a new message below the maximum can always be added.\<close>

theorem shared_media_sound:
  assumes "media_history sm H"
  shows "(\<forall>p ls t m b. sm_lists sm p = Some ls \<and> IsValidSharedMediaType t \<and>
      sparse_view (ls ! type_index t) m = Some b \<longrightarrow> (b \<longleftrightarrow> m \<in> H p t)) \<and>
    (\<forall>p types m. m \<le> ServerMaxMsgId \<longrightarrow> (\<exists>sm'. media_add_new p types m sm = Inr sm'))"
proof -
  have ok: "media_ok sm H" by (rule media_history_ok [OF assms])
  have "b \<longleftrightarrow> m \<in> H p t" if "sm_lists sm p = Some ls" "IsValidSharedMediaType t"
    "sparse_view (ls ! type_index t) m = Some b" for p ls t m b
  proof -
    have "sparse_history (ls ! type_index t) (H p t)"
      using ok media_entry_found [OF that(1)] that(2) by (auto simp: media_ok_def)
    then show ?thesis using sparse_history_sound_ok that(3) unfolding view_sound_def by blast
  qed
  then show ?thesis using media_add_new_total [OF ok] by blast
qed

theorem shared_media_sound_witness:
  "\<exists>sm ls. media_add_new 1 (to_bit Video) 5 empty_shared_media = Inr sm \<and> sm_lists sm 1 = Some ls \<and>
     sparse_view (ls ! 1) 5 = Some True"
proof -
  let ?H = "\<lambda>_ _. {} :: msg_id set"
  obtain sm where sm: "media_add_new 1 (to_bit Video) 5 empty_shared_media = Inr sm"
    using conjunct2 [OF shared_media_sound [OF media_start, of ?H], rule_format, of 5]
    unfolding ServerMaxMsgId_def by auto
  have h: "media_history sm (?H(1 := \<lambda>t. if mask_test t (to_bit Video) then insert 5 {} else {}))"
    using media_new [OF media_start _ _ sm, of ?H] by (simp add: ServerMaxMsgId_def)
  obtain ls ev where run: "media_add_loop (sparse_add_new 5) 1 (to_bit Video) 0 empty_lists [] = Inr (ls, ev)"
    "sm_lists sm 1 = Some ls"
    using sm by (auto simp: media_add_new_def media_add_masked_def Let_def bind_outcome_Inr_iff
        media_enforce_def enforce_lists_def empty_shared_media_def)
  have vid: "mask_test Video (to_bit Video)" by (simp add: mask_test_def to_bit_def)
  have one: "all_types ! Suc 0 = Video" by (simp add: all_types_def)
  obtain u where "sparse_add_new 5 (empty_lists ! 1) = Inr (ls ! 1, u)"
    using conjunct2 [OF media_add_loop_spec [OF run(1)], rule_format, of 1] vid one
    by (auto simp: empty_lists_def kSharedMediaTypeCount_def)
  then have "sparse_add_range [5] \<lparr> range_from = 5, range_till = ServerMaxMsgId \<rparr> None True empty_sparse_list =
      Inr (ls ! 1, u)"
    by (simp add: empty_lists_def kSharedMediaTypeCount_def sparse_add_new_def)
  moreover obtain l' u' where "sparse_add_range [5] \<lparr> range_from = 5, range_till = ServerMaxMsgId \<rparr> None True
      empty_sparse_list = Inr (l', u')"
    "sparse_view l' = view_add [5] \<lparr> range_from = 5, range_till = ServerMaxMsgId \<rparr> (sparse_view empty_sparse_list)"
    using sparse_add_range_spec [OF sparse_ok_empty, of "\<lparr> range_from = 5, range_till = ServerMaxMsgId \<rparr>" "[5]" None True]
    by (auto simp: ServerMaxMsgId_def)
  ultimately have "sparse_view (ls ! 1) 5 = Some True"
    by (simp add: view_add_def ServerMaxMsgId_def)
  with sm run(2) show ?thesis by blast
qed

end
