(* ===== verification/Messages.thy ===== *)
theory Messages
  imports Slice_Builder
begin

text \<open>
  data/data_messages.cpp: \<open>MessagesList\<close>, what is known of a history merged from several
  channels and ordered by date (a feed), and \<open>MessagesSliceBuilder\<close>. The list is the class of
  storage/storage\_sparse\_ids\_list.cpp written again over \<open>MessagePosition\<close>, without the lower
  bound it keeps on its counter and with \<open>removeAll\<close> of one channel. What is the same code is
  the same function here, at the order of positions.
\<close>

section \<open>MessagesList\<close>

type_synonym messages_range = "message_position msg_range"
type_synonym messages_slice = "message_position slice"
type_synonym messages_result = "message_position list_result"
type_synonym messages_slice_update = "message_position slice_update"

definition FullMessagesRange :: messages_range where
  "FullMessagesRange = \<lparr> range_from = MinMessagePosition, range_till = MaxMessagePosition \<rparr>"

record messages_list =
  ml_count :: "int option"
  ml_slices :: "messages_slice list"

definition empty_messages_list :: messages_list where
  "empty_messages_list = \<lparr> ml_count = None, ml_slices = [] \<rparr>"

definition messages_unite_and_add ::
    "nat \<Rightarrow> nat \<Rightarrow> message_position list \<Rightarrow> messages_range \<Rightarrow> messages_slice list \<Rightarrow>
     (messages_slice list \<times> messages_slice_update \<times> int) outcome" where
  "messages_unite_and_add uniteFrom uniteTill messages noSkipRange slices =
     (let was = int (length (slice_messages (slices ! uniteFrom)))
      in bind_outcome (unite_slices uniteFrom uniteTill messages noSkipRange slices)
           (\<lambda>united.
              let piece = united ! uniteFrom
              in Inr (united,
                      \<lparr> update_messages = Some (slice_messages piece),
                        update_range = slice_range piece, update_count = None \<rparr>,
                      int (length (slice_messages piece)) - was)))"

definition messages_add_range_items ::
    "message_position list \<Rightarrow> messages_range \<Rightarrow> messages_slice list \<Rightarrow>
     (messages_slice list \<times> messages_slice_update \<times> int) outcome" where
  "messages_add_range_items messages noSkipRange slices =
     expects (range_from noSkipRange \<le> range_till noSkipRange)
       (let uniteFrom = lower_bound_till (range_from noSkipRange) slices;
            uniteTill = upper_bound_from (range_till noSkipRange) slices
        in if uniteFrom < uniteTill
           then messages_unite_and_add uniteFrom uniteTill messages noSkipRange slices
           else
             let (slices', i, _) = set_insert slice_less
                   \<lparr> slice_messages = set_from_range (<) messages, slice_range = noSkipRange \<rparr> slices;
                 piece = slices' ! i
             in Inr (slices',
                     \<lparr> update_messages = Some (slice_messages piece),
                       update_range = slice_range piece, update_count = None \<rparr>,
                     int (length (slice_messages piece))))"

definition messages_add_range ::
    "message_position list \<Rightarrow> messages_range \<Rightarrow> int option \<Rightarrow> bool \<Rightarrow> messages_list \<Rightarrow>
     (messages_list \<times> messages_slice_update) outcome" where
  "messages_add_range messages noSkipRange cnt incrementCount l =
     expects (cnt = None \<or> \<not> incrementCount)
       (bind_outcome (messages_add_range_items messages noSkipRange (ml_slices l))
         (\<lambda>(slices, update, result).
            let count1 = (case cnt of
                    Some c \<Rightarrow> Some c
                  | None \<Rightarrow>
                      (case ml_count l of
                         Some c \<Rightarrow> if incrementCount \<and> result > 0 then Some (c + result) else Some c
                       | None \<Rightarrow> None));
                count2 = (if length slices = 1 \<and> slice_range (hd slices) = FullMessagesRange
                          then Some (int (length (slice_messages (hd slices)))) else count1)
            in Inr (\<lparr> ml_count = count2, ml_slices = slices \<rparr>,
                    update\<lparr> update_count := count2 \<rparr>)))"

definition messages_add_new ::
    "message_position \<Rightarrow> messages_list \<Rightarrow> (messages_list \<times> messages_slice_update) outcome" where
  "messages_add_new messageId l =
     messages_add_range [messageId]
       \<lparr> range_from = messageId, range_till = MaxMessagePosition \<rparr> None True l"

definition messages_add_slice ::
    "message_position list \<Rightarrow> messages_range \<Rightarrow> int option \<Rightarrow> messages_list \<Rightarrow>
     (messages_list \<times> messages_slice_update) outcome" where
  "messages_add_slice messageIds noSkipRange cnt l =
     messages_add_range messageIds noSkipRange cnt False l"

definition messages_remove_one :: "message_position \<Rightarrow> messages_list \<Rightarrow> messages_list" where
  "messages_remove_one messageId l =
     \<lparr> ml_count = map_option (\<lambda>c. c - 1) (ml_count l),
       ml_slices = slices_remove_one messageId (ml_slices l) \<rparr>"

text \<open>
  The two loops of \<open>removeAll\<close>: the inner one erases the messages of the channel and counts
  them, the outer one walks the slices by index and modifies each.
\<close>

fun erase_channel :: "channel_id \<Rightarrow> message_position list \<Rightarrow> message_position list \<times> int" where
  "erase_channel channelId [] = ([], 0)"
| "erase_channel channelId (m # ms) =
     (let (rest, removed) = erase_channel channelId ms
      in if fid_channel (position_id m) = channelId then (rest, removed + 1)
         else (m # rest, removed))"

function messages_remove_all_from ::
    "channel_id \<Rightarrow> nat \<Rightarrow> int \<Rightarrow> messages_slice list \<Rightarrow> messages_slice list \<times> int" where
  "messages_remove_all_from channelId i removed slices =
     (if i < length slices then
        let (rest, n) = erase_channel channelId (slice_messages (slices ! i));
            slices' = set_modify slice_less i (\<lambda>s. s\<lparr> slice_messages := rest \<rparr>) slices
        in messages_remove_all_from channelId (Suc i) (removed + n) slices'
      else (slices, removed))"
  by pat_completeness auto
termination
proof (relation "measure (\<lambda>(c, i, r, slices). length slices - i)", simp_all del: One_nat_def)
  fix i and slices :: "messages_slice list" and rest
  assume "i < length slices"
  then show "length (set_modify slice_less i (slice_messages_update (\<lambda>_. rest)) slices) - Suc i
      < length slices - i"
    using length_set_modify_le [of slice_less i "slice_messages_update (\<lambda>_. rest)" slices] by linarith
qed

declare messages_remove_all_from.simps [simp del]

definition messages_remove_all :: "channel_id \<Rightarrow> messages_list \<Rightarrow> messages_list" where
  "messages_remove_all channelId l =
     (let (slices, removed) = messages_remove_all_from channelId 0 0 (ml_slices l)
      in \<lparr> ml_count = (if removed \<noteq> 0 then map_option (\<lambda>c. c - removed) (ml_count l) else ml_count l),
           ml_slices = slices \<rparr>)"

definition messages_invalidate :: "messages_list \<Rightarrow> messages_list" where
  "messages_invalidate l = \<lparr> ml_count = None, ml_slices = [] \<rparr>"

definition messages_invalidate_bottom :: "messages_list \<Rightarrow> messages_list" where
  "messages_invalidate_bottom l =
     \<lparr> ml_count = None,
       ml_slices = slices_invalidate_bottom MaxMessagePosition (ml_slices l) \<rparr>"

definition messages_query_from_slice ::
    "message_position list_query \<Rightarrow> messages_slice \<Rightarrow> messages_list \<Rightarrow> messages_result" where
  "messages_query_from_slice q piece l = query_from_slice FullMessagesRange (ml_count l) q piece"

definition messages_query ::
    "message_position list_query \<Rightarrow> messages_list \<Rightarrow> messages_result option" where
  "messages_query q l =
     (let slices = ml_slices l;
          i = (if position_set (query_around q) then lower_bound_till (query_around q) slices
               else length slices)
      in if i \<noteq> length slices \<and> slice_from (slices ! i) \<le> query_around q
         then Some (messages_query_from_slice q (slices ! i) l)
         else None)"

section \<open>MessagesSliceBuilder\<close>

definition message_kind :: "message_position id_kind" where
  "message_kind =
     \<lparr> kind_key_set = position_set, kind_min = MinMessagePosition, kind_max = MaxMessagePosition,
       kind_impossible = MessagePosition (- 1) (FullMsgId 0 0),
       kind_possible = (\<lambda>p. p \<noteq> MessagePosition (- 1) (FullMsgId 0 0)),
       kind_none = MessagePosition 0 (FullMsgId 0 0) \<rparr>"

type_synonym messages_builder = "message_position slice_builder"

definition new_messages_builder :: "message_position \<Rightarrow> int \<Rightarrow> int \<Rightarrow> messages_builder" where
  "new_messages_builder key limitBefore limitAfter =
     new_builder \<lparr> range_from = MessagePosition 0 (FullMsgId 0 0),
                   range_till = MessagePosition 0 (FullMsgId 0 0) \<rparr> key limitBefore limitAfter"

definition messages_slice_to_limits :: "messages_builder \<Rightarrow> messages_builder" where
  "messages_slice_to_limits b = slice_to_limits message_kind b"

definition messages_merge_slice_data ::
    "int option \<Rightarrow> message_position list \<Rightarrow> int option \<Rightarrow> int option \<Rightarrow> messages_builder \<Rightarrow>
     messages_builder outcome" where
  "messages_merge_slice_data cnt messageIds skippedBefore skippedAfter b =
     merge_slice_data message_kind cnt messageIds skippedBefore skippedAfter b"

definition messages_apply_initial ::
    "messages_result \<Rightarrow> messages_builder \<Rightarrow> (messages_builder \<times> bool) outcome" where
  "messages_apply_initial result b = apply_initial message_kind result b"

definition messages_apply_update ::
    "messages_slice_update \<Rightarrow> messages_builder \<Rightarrow> (messages_builder \<times> bool) outcome" where
  "messages_apply_update u b = apply_update message_kind u b"

definition messages_builder_remove_one ::
    "message_position \<Rightarrow> messages_builder \<Rightarrow> messages_builder \<times> bool" where
  "messages_builder_remove_one messageId b = builder_remove_one messageId b"

definition messages_builder_remove_all :: "messages_builder \<Rightarrow> messages_builder \<times> bool" where
  "messages_builder_remove_all b = builder_remove_all message_kind b"

definition messages_builder_remove_from_channel ::
    "channel_id \<Rightarrow> messages_builder \<Rightarrow> messages_builder \<times> bool" where
  "messages_builder_remove_from_channel channelId b =
     (let (rest, removed) = erase_channel channelId (builder_ids b)
      in (messages_slice_to_limits
            (b\<lparr> builder_ids := rest,
                builder_full_count := map_option (\<lambda>n. n - removed) (builder_full_count b),
                builder_skipped_before := None, builder_skipped_after := None \<rparr>), True))"

definition messages_builder_invalidated :: "messages_builder \<Rightarrow> messages_builder \<times> bool" where
  "messages_builder_invalidated b =
     (messages_slice_to_limits
        (b\<lparr> builder_full_count := None, builder_skipped_before := None,
            builder_skipped_after := None, builder_ids := [] \<rparr>), False)"

definition messages_builder_bottom_invalidated :: "messages_builder \<Rightarrow> messages_builder \<times> bool" where
  "messages_builder_bottom_invalidated b =
     (messages_slice_to_limits
        (b\<lparr> builder_full_count := None, builder_skipped_after := None \<rparr>), True)"

record messages_snapshot =
  snapshot_ids :: "full_msg_id list"
  snapshot_skipped_before :: "int option"
  snapshot_skipped_after :: "int option"
  snapshot_full_count :: "int option"

definition messages_builder_snapshot :: "messages_builder \<Rightarrow> messages_snapshot" where
  "messages_builder_snapshot b =
     \<lparr> snapshot_ids = map position_id (builder_ids b),
       snapshot_skipped_before = builder_skipped_before b,
       snapshot_skipped_after = builder_skipped_after b,
       snapshot_full_count = builder_full_count b \<rparr>"

section \<open>What the operations do to the view\<close>

abbreviation messages_view :: "messages_list \<Rightarrow> message_position \<Rightarrow> bool option" where
  "messages_view l \<equiv> slices_view (ml_slices l)"

definition messages_ok :: "messages_list \<Rightarrow> bool" where
  "messages_ok l \<longleftrightarrow> slices_ok (ml_slices l)"

text \<open>The list adds as \<open>SparseIdsList\<close> does; it only does not report what was in the slice.\<close>

lemma messages_add_range_items_eq:
  "messages_add_range_items msgs r xs =
     bind_outcome (sparse_add_range_items msgs r xs) (\<lambda>(s, u, res). Inr (s, u, add_added res))"
proof -
  have "messages_unite_and_add i j msgs r xs =
      bind_outcome (sparse_unite_and_add i j msgs r xs) (\<lambda>(s, u, res). Inr (s, u, add_added res))" for i j
    by (cases "unite_slices i j msgs r xs")
      (simp_all add: messages_unite_and_add_def sparse_unite_and_add_def Let_def)
  then show ?thesis
    by (simp add: messages_add_range_items_def sparse_add_range_items_def Let_def expects_def
        split: prod.split)
qed

lemma messages_add_range_spec:
  assumes ok: "messages_ok l" and r: "range_from r \<le> range_till r"
    and msgs: "\<forall>m\<in>set msgs. in_range m r" and cnt: "cnt = None \<or> \<not> increment"
  shows "\<exists>l' u. messages_add_range msgs r cnt increment l = Inr (l', u) \<and> messages_ok l' \<and>
    messages_view l' = view_add msgs r (messages_view l) \<and>
    update_describes u r (messages_view l') \<and> update_count u = ml_count l'"
proof -
  obtain xs' u res where xs': "sparse_add_range_items msgs r (ml_slices l) = Inr (xs', u, res)"
    "slices_ok xs'" "slices_view xs' = view_add msgs r (messages_view l)"
    "update_describes u r (slices_view xs')"
    using sparse_add_range_items_spec [OF _ r msgs] ok unfolding messages_ok_def by metis
  have "update_describes (u\<lparr> update_count := c \<rparr>) r v = update_describes u r v" for c v
    by (simp add: update_describes_def)
  then show ?thesis
    using xs' cnt by (auto simp: messages_add_range_def messages_add_range_items_eq messages_ok_def Let_def)
qed

lemma erase_channel_eq:
  "erase_channel c ms = (filter (\<lambda>m. fid_channel (position_id m) \<noteq> c) ms,
     int (length (filter (\<lambda>m. fid_channel (position_id m) = c) ms)))"
  by (induction ms) auto

definition without_channel :: "channel_id \<Rightarrow> messages_slice \<Rightarrow> messages_slice" where
  "without_channel c s =
     s\<lparr> slice_messages := filter (\<lambda>m. fid_channel (position_id m) \<noteq> c) (slice_messages s) \<rparr>"

definition channel_messages :: "channel_id \<Rightarrow> messages_slice list \<Rightarrow> int" where
  "channel_messages c slices = int (length
     (filter (\<lambda>m. fid_channel (position_id m) = c) (concat (map slice_messages slices))))"

lemma without_channel_ok: "slice_ok s \<Longrightarrow> slice_ok (without_channel c s)"
  by (auto simp: slice_ok_def without_channel_def sorted_wrt_filter)

lemma without_channel_range [simp]: "slice_range (without_channel c s) = slice_range s"
  by (simp add: without_channel_def)

lemma messages_remove_all_from_eq:
  "slices_ok (pre @ post) \<Longrightarrow>
   messages_remove_all_from c (length pre) k (pre @ post) =
     (pre @ map (without_channel c) post, k + channel_messages c post) \<and>
   slices_ok (pre @ map (without_channel c) post)"
proof (induction post arbitrary: pre k)
  case Nil
  then show ?case by (subst messages_remove_all_from.simps) (simp add: channel_messages_def)
next
  case (Cons s post)
  have s: "slice_ok s" using Cons.prems by (simp add: slices_ok_append slices_ok_Cons)
  have step: "set_modify slice_less (length pre)
      (\<lambda>s'. s'\<lparr> slice_messages := slice_messages (without_channel c s) \<rparr>) (pre @ s # post) =
      pre @ without_channel c s # post"
    using modify_one_slice [OF Cons.prems, of "\<lambda>s'. s'\<lparr> slice_messages := slice_messages (without_channel c s) \<rparr>"]
    by (simp add: without_channel_def)
  have ok: "slices_ok ((pre @ [without_channel c s]) @ post)"
    using slices_change_one [OF Cons.prems without_channel_ok [OF s]] by simp
  have "messages_remove_all_from c (length pre) k (pre @ s # post) =
      messages_remove_all_from c (length (pre @ [without_channel c s]))
        (k + int (length (filter (\<lambda>m. fid_channel (position_id m) = c) (slice_messages s))))
        ((pre @ [without_channel c s]) @ post)"
    using step by (subst messages_remove_all_from.simps)
      (simp add: erase_channel_eq without_channel_def)
  then show ?case
    using Cons.IH [OF ok] by (simp add: channel_messages_def)
qed

lemma messages_remove_all_spec:
  assumes "messages_ok l"
  shows "messages_ok (messages_remove_all c l) \<and>
    messages_view (messages_remove_all c l) =
      (\<lambda>m. if fid_channel (position_id m) = c then map_option (\<lambda>_. False) (messages_view l m)
           else messages_view l m) \<and>
    ml_count (messages_remove_all c l) =
      map_option (\<lambda>n. n - channel_messages c (ml_slices l)) (ml_count l)"
proof -
  have run: "messages_remove_all_from c 0 0 (ml_slices l) =
      (map (without_channel c) (ml_slices l), channel_messages c (ml_slices l))"
    "slices_ok (map (without_channel c) (ml_slices l))"
    using messages_remove_all_from_eq [of "[]" "ml_slices l" c 0] assms by (simp_all add: messages_ok_def)
  have slices: "ml_slices (messages_remove_all c l) = map (without_channel c) (ml_slices l)"
    using run by (simp add: messages_remove_all_def)
  have "slices_view (map (without_channel c) (ml_slices l)) m =
      (if fid_channel (position_id m) = c then map_option (\<lambda>_. False) (messages_view l m)
       else messages_view l m)" for m
    by (auto simp: slices_view_def without_channel_def)
  moreover have "map_option (\<lambda>n. n - (0::int)) v = v" for v by (cases v) auto
  ultimately show ?thesis
    using run slices by (auto simp: messages_ok_def messages_remove_all_def fun_eq_iff)
qed

section \<open>Properties\<close>

definition pos :: "int \<Rightarrow> int \<Rightarrow> int \<Rightarrow> message_position" where
  "pos date channel msg = MessagePosition date (FullMsgId channel msg)"

lemma pos_order [simp]:
  "pos d c m < pos d' c' m' \<longleftrightarrow> d < d' \<or> d = d' \<and> (c < c' \<or> c = c' \<and> m < m')"
  "pos d c m \<le> pos d' c' m' \<longleftrightarrow> d < d' \<or> d = d' \<and> (c < c' \<or> c = c' \<and> m \<le> m')"
  "pos d c m = pos d' c' m' \<longleftrightarrow> d = d' \<and> c = c' \<and> m = m'"
  "fid_channel (position_id (pos d c m)) = c"
  by (auto simp: pos_def less_message_position_def less_eq_message_position_def
      less_full_msg_id_def less_eq_full_msg_id_def)

definition example_feed :: messages_list where
  "example_feed = \<lparr> ml_count = Some 3, ml_slices =
     [\<lparr> slice_messages = [pos 1 7 1, pos 2 8 1],
        slice_range = \<lparr> range_from = pos 1 7 1, range_till = pos 2 8 1 \<rparr> \<rparr>,
      \<lparr> slice_messages = [pos 5 7 2], slice_range = \<lparr> range_from = pos 4 7 0, range_till = pos 6 7 0 \<rparr> \<rparr>] \<rparr>"

lemma example_feed_ok: "messages_ok example_feed"
  by (simp add: example_feed_def messages_ok_def slices_ok_Cons slice_ok_def)

text \<open>C25. \<open>MessagesList::addSlice\<close> and \<open>addNew\<close> refine the same specification as the list of sparse
  identifiers, over positions: the view changes exactly on the range and the update describes
  it; a counter is never given together with an increment.\<close>

theorem messages_add_range_refines:
  assumes "messages_ok l" "range_from r \<le> range_till r" "\<forall>m\<in>set msgs. in_range m r"
    "cnt = None \<or> \<not> increment"
  shows "\<exists>l' u. messages_add_range msgs r cnt increment l = Inr (l', u) \<and> messages_ok l' \<and>
    messages_view l' = view_add msgs r (messages_view l) \<and>
    update_describes u r (messages_view l') \<and> update_count u = ml_count l'"
  by (rule messages_add_range_spec [OF assms])

theorem messages_add_range_refines_witness:
  "\<exists>l' u. messages_add_range [pos 3 9 4] \<lparr> range_from = pos 2 7 0, range_till = pos 5 0 0 \<rparr> None True
      example_feed = Inr (l', u) \<and> messages_ok l' \<and>
    messages_view l' = view_add [pos 3 9 4] \<lparr> range_from = pos 2 7 0, range_till = pos 5 0 0 \<rparr>
      (messages_view example_feed) \<and>
    update_describes u \<lparr> range_from = pos 2 7 0, range_till = pos 5 0 0 \<rparr> (messages_view l') \<and>
    update_count u = ml_count l'"
  by (rule messages_add_range_refines) (simp_all add: example_feed_ok)

text \<open>C26. \<open>MessagesList::removeAll\<close> of a channel makes every known message of the channel known
  absent, leaves the rest of the view alone, keeps the slices in order and takes exactly the
  known messages of the channel off the counter.\<close>

theorem messages_remove_all_refines:
  assumes "messages_ok l"
  shows "messages_ok (messages_remove_all c l) \<and>
    messages_view (messages_remove_all c l) =
      (\<lambda>m. if fid_channel (position_id m) = c then map_option (\<lambda>_. False) (messages_view l m)
           else messages_view l m) \<and>
    ml_count (messages_remove_all c l) =
      map_option (\<lambda>n. n - channel_messages c (ml_slices l)) (ml_count l)"
  by (rule messages_remove_all_spec [OF assms])

theorem messages_remove_all_refines_witness:
  "messages_view (messages_remove_all 7 example_feed) (pos 1 7 1) = Some False \<and>
   messages_view (messages_remove_all 7 example_feed) (pos 2 8 1) = Some True \<and>
   ml_count (messages_remove_all 7 example_feed) = Some 1"
  using messages_remove_all_refines [OF example_feed_ok, of 7]
  by (simp add: example_feed_def slices_view_def channel_messages_def)

text \<open>C27. What a feed builder makes of an update, with the same condition as for a chat: the update
  tells the truth about the feed \<open>H @ N\<close>, in which \<open>N\<close> are new messages at the end, all of them in
  the range of the update, and either the update meets the window or the new messages are not
  before the key. \<open>applyUpdate\<close> does not fail, and the window and the known counters are exact
  afterwards if and only if there is no new message, or the update tells the new count (or none
  is known) and it meets the window (or nothing is said of what is skipped after it).\<close>

theorem messages_builder_update_follows:
  assumes "strictly_sorted (H @ N)"
    "\<forall>m\<in>set (H @ N). MinMessagePosition \<le> m \<and> m \<le> MaxMessagePosition"
    "follows H b" "limits_ok b" "truthful_update (H @ N) u"
    "\<forall>m\<in>set N. in_range m (update_range u)"
    "need_merge_messages u b \<or> (\<forall>m\<in>set N. builder_key b \<le> m)"
  shows "\<exists>b' changed. messages_apply_update u b = Inr (b', changed) \<and>
    (follows (H @ N) b' \<longleftrightarrow>
       N = [] \<or> (update_count u \<noteq> None \<or> builder_full_count b = None) \<and>
                (need_merge_messages u b \<or> builder_skipped_after b = None))"
  unfolding messages_apply_update_def new_end_told_def [symmetric]
  by (rule apply_update_follows_iff [OF assms(1,3,4,5) _ assms(6,7)])
    (use assms(2) in \<open>simp add: kind_ok_def message_kind_def\<close>)

definition feed_builder :: "message_position list \<Rightarrow> int \<Rightarrow> messages_builder" where
  "feed_builder shown skippedAfter = (new_messages_builder (pos 1 7 1) 1 3)\<lparr> builder_ids := shown,
     builder_full_count := Some 2, builder_skipped_before := Some 0,
     builder_skipped_after := Some skippedAfter \<rparr>"

definition feed_update :: "message_position slice_update" where
  "feed_update = \<lparr> update_messages = Some [pos 2 8 1, pos 3 7 2],
     update_range = \<lparr> range_from = pos 2 0 0, range_till = MaxMessagePosition \<rparr>, update_count = Some 3 \<rparr>"

lemma feed_builder_follows:
  "follows [pos 1 7 1, pos 2 8 1] (feed_builder [pos 1 7 1, pos 2 8 1] 0)"
  "follows [pos 1 7 1, pos 2 8 1] (feed_builder [pos 1 7 1] 1)"
  "limits_ok (feed_builder shown k)"
proof -
  show "follows [pos 1 7 1, pos 2 8 1] (feed_builder [pos 1 7 1, pos 2 8 1] 0)"
    by (rule followsI [of _ "[]" _ "[]"]) (simp_all add: feed_builder_def)
  show "follows [pos 1 7 1, pos 2 8 1] (feed_builder [pos 1 7 1] 1)"
    by (rule followsI [of _ "[]" _ "[pos 2 8 1]"])
      (simp_all add: feed_builder_def new_messages_builder_def new_builder_def)
  show "limits_ok (feed_builder shown k)"
    by (simp add: feed_builder_def new_messages_builder_def new_builder_def limits_ok_def)
qed

text \<open>A third message comes: the window that shows both messages of the feed follows it, the
  window that shows only the first does not.\<close>

theorem messages_builder_update_follows_witness:
  "(\<exists>b' changed. messages_apply_update feed_update (feed_builder [pos 1 7 1, pos 2 8 1] 0) =
      Inr (b', changed) \<and> follows ([pos 1 7 1, pos 2 8 1] @ [pos 3 7 2]) b') \<and>
   (\<exists>b' changed. messages_apply_update feed_update (feed_builder [pos 1 7 1] 1) =
      Inr (b', changed) \<and> \<not> follows ([pos 1 7 1, pos 2 8 1] @ [pos 3 7 2]) b')"
proof -
  have ends: "MinMessagePosition = pos 0 0 1" "MaxMessagePosition = pos MaxDate 0 (ServerMaxMsgId - 1)"
    by (simp_all add: MinMessagePosition_def MaxMessagePosition_def pos_def MinDate_def NoChannel_def)
  have run: "\<exists>b' changed. messages_apply_update feed_update (feed_builder shown k) = Inr (b', changed) \<and>
      (follows ([pos 1 7 1, pos 2 8 1] @ [pos 3 7 2]) b' \<longleftrightarrow>
         need_merge_messages feed_update (feed_builder shown k))"
    if "follows [pos 1 7 1, pos 2 8 1] (feed_builder shown k)" for shown k
    using messages_builder_update_follows
        [of "[pos 1 7 1, pos 2 8 1]" "[pos 3 7 2]", OF _ _ that feed_builder_follows(3), of feed_update]
    by (simp add: ends MaxDate_def truthful_update_def feed_update_def feed_builder_def
        new_messages_builder_def new_builder_def)
  show ?thesis
    using run [OF feed_builder_follows(1)] run [OF feed_builder_follows(2)]
    by (simp add: ends MaxDate_def need_merge_messages_def ranges_intersect_def feed_update_def
        feed_builder_def new_messages_builder_def new_builder_def)
qed

end
