(* ===== verification/Feed_Messages.thy ===== *)
theory Feed_Messages imports Keyed_Lists Messages begin

text \<open>
  storage/storage\_feed\_messages.h and .cpp: the store of feeds. A feed is a \<open>MessagesList\<close>;
  adding makes the list, removing and invalidating only look it up and fire an event when there
  is a list. An update of a list is fired on the stream of the store with the feed
  (\<open>enforceLists\<close> subscribes it), so it comes before the events of later calls.
\<close>

type_synonym feed_id = int

datatype feed_event =
    FeedSliceUpdate feed_id messages_slice_update
  | FeedOneRemoved feed_id message_position
  | FeedAllRemoved feed_id channel_id
  | FeedInvalidated feed_id
  | FeedBottomInvalidated feed_id

record feed_messages =
  fm_lists :: "feed_id \<rightharpoonup> messages_list"
  fm_events :: "feed_event list"

definition empty_feed_messages :: feed_messages where
  "empty_feed_messages = \<lparr> fm_lists = Map.empty, fm_events = [] \<rparr>"

definition feed_enforce :: "feed_id \<Rightarrow> feed_messages \<Rightarrow> feed_messages" where
  "feed_enforce feedId st = st\<lparr> fm_lists := enforce_lists empty_messages_list feedId (fm_lists st) \<rparr>"

definition feed_add_new ::
    "feed_id \<Rightarrow> message_position \<Rightarrow> feed_messages \<Rightarrow> feed_messages outcome" where
  "feed_add_new feedId messageId st =
     (let st' = feed_enforce feedId st
      in bind_outcome (messages_add_new messageId (the (fm_lists st' feedId)))
           (\<lambda>(l, u). Inr \<lparr> fm_lists = (fm_lists st')(feedId \<mapsto> l),
                           fm_events = fm_events st' @ [FeedSliceUpdate feedId u] \<rparr>))"

definition feed_add_slice ::
    "feed_id \<Rightarrow> message_position list \<Rightarrow> messages_range \<Rightarrow> feed_messages \<Rightarrow> feed_messages outcome" where
  "feed_add_slice feedId messageIds noSkipRange st =
     (let st' = feed_enforce feedId st
      in bind_outcome (messages_add_slice messageIds noSkipRange None (the (fm_lists st' feedId)))
           (\<lambda>(l, u). Inr \<lparr> fm_lists = (fm_lists st')(feedId \<mapsto> l),
                           fm_events = fm_events st' @ [FeedSliceUpdate feedId u] \<rparr>))"

definition feed_remove_one :: "feed_id \<Rightarrow> message_position \<Rightarrow> feed_messages \<Rightarrow> feed_messages" where
  "feed_remove_one feedId messageId st =
     (case fm_lists st feedId of
        None \<Rightarrow> st
      | Some l \<Rightarrow> \<lparr> fm_lists = (fm_lists st)(feedId \<mapsto> messages_remove_one messageId l),
                    fm_events = fm_events st @ [FeedOneRemoved feedId messageId] \<rparr>)"

definition feed_remove_all :: "feed_id \<Rightarrow> channel_id \<Rightarrow> feed_messages \<Rightarrow> feed_messages" where
  "feed_remove_all feedId channelId st =
     (case fm_lists st feedId of
        None \<Rightarrow> st
      | Some l \<Rightarrow> \<lparr> fm_lists = (fm_lists st)(feedId \<mapsto> messages_remove_all channelId l),
                    fm_events = fm_events st @ [FeedAllRemoved feedId channelId] \<rparr>)"

definition feed_invalidate :: "feed_id \<Rightarrow> feed_messages \<Rightarrow> feed_messages" where
  "feed_invalidate feedId st =
     (case fm_lists st feedId of
        None \<Rightarrow> st
      | Some l \<Rightarrow> \<lparr> fm_lists = (fm_lists st)(feedId \<mapsto> messages_invalidate (messages_invalidate_bottom l)),
                    fm_events = fm_events st @ [FeedInvalidated feedId] \<rparr>)"

definition feed_invalidate_bottom :: "feed_id \<Rightarrow> feed_messages \<Rightarrow> feed_messages" where
  "feed_invalidate_bottom feedId st =
     (case fm_lists st feedId of
        None \<Rightarrow> st
      | Some l \<Rightarrow> \<lparr> fm_lists = (fm_lists st)(feedId \<mapsto> messages_invalidate_bottom l),
                    fm_events = fm_events st @ [FeedBottomInvalidated feedId] \<rparr>)"

definition feed_query ::
    "feed_id \<Rightarrow> message_position list_query \<Rightarrow> feed_messages \<Rightarrow> messages_result option" where
  "feed_query feedId q st =
     (case fm_lists st feedId of None \<Rightarrow> None | Some l \<Rightarrow> messages_query q l)"

section \<open>What the store knows of its feeds\<close>

definition feed_entry :: "feed_messages \<Rightarrow> feed_id \<Rightarrow> messages_list" where
  "feed_entry st = map_lists.entry empty_messages_list (fm_lists st)"

abbreviation feed_view :: "feed_messages \<Rightarrow> feed_id \<Rightarrow> message_position \<Rightarrow> bool option" where
  "feed_view st f \<equiv> messages_view (feed_entry st f)"

definition feeds_ok :: "feed_messages \<Rightarrow> bool" where
  "feeds_ok st \<longleftrightarrow> (\<forall>f. messages_ok (feed_entry st f))"

text \<open>
  The store and what the feeds hold, each rule one operation as its callers use it: a new
  message is the latest of its feed, a slice is all the feed has in the range, removing a
  message or a channel takes it out of the feed; \<open>invalidate\<close> goes with any change of the feed,
  \<open>invalidateBottom\<close> with messages above all that is known.
\<close>

inductive feed_history :: "feed_messages \<Rightarrow> (feed_id \<Rightarrow> message_position set) \<Rightarrow> bool" where
  feed_start: "feed_history empty_feed_messages H"
| feed_new: "feed_history st H \<Longrightarrow> m \<le> MaxMessagePosition \<Longrightarrow> \<forall>x\<in>H f. x < m \<Longrightarrow>
    feed_add_new f m st = Inr st' \<Longrightarrow> feed_history st' (H(f := insert m (H f)))"
| feed_slice: "feed_history st H \<Longrightarrow> range_from r \<le> range_till r \<Longrightarrow>
    set msgs = {x \<in> H f. in_range x r} \<Longrightarrow> feed_add_slice f msgs r st = Inr st' \<Longrightarrow>
    feed_history st' H"
| feed_remove: "feed_history st H \<Longrightarrow> feed_history (feed_remove_one f m st) (H(f := H f - {m}))"
| feed_clear: "feed_history st H \<Longrightarrow> feed_history (feed_remove_all f c st)
    (H(f := {m \<in> H f. fid_channel (position_id m) \<noteq> c}))"
| feed_forget: "feed_history st H \<Longrightarrow> feed_history (feed_invalidate f st) (H(f := N))"
| feed_missed: "feed_history st H \<Longrightarrow>
    \<forall>x\<in>N. (\<forall>h\<in>H f. h < x) \<and> (\<forall>s\<in>set (ml_slices (feed_entry st f)).
      slice_from s < x \<and> (slice_till s \<noteq> MaxMessagePosition \<longrightarrow> slice_till s < x)) \<Longrightarrow>
    feed_history (feed_invalidate_bottom f st) (H(f := H f \<union> N))"

definition feeds_sound :: "feed_messages \<Rightarrow> (feed_id \<Rightarrow> message_position set) \<Rightarrow> bool" where
  "feeds_sound st H \<longleftrightarrow> (\<forall>f. messages_ok (feed_entry st f) \<and> view_sound (feed_view st f) (H f))"

lemma feed_entry_found: "fm_lists st f = Some l \<Longrightarrow> feed_entry st f = l"
  by (simp add: feed_entry_def map_lists.entry_find)

lemma feed_entry_put:
  "feed_entry \<lparr> fm_lists = (fm_lists st)(f \<mapsto> l), fm_events = ev \<rparr> =
   (\<lambda>g. if g = f then l else feed_entry st g)"
  by (simp add: feed_entry_def map_lists.entry_def fun_eq_iff)

lemma feed_entry_enforce [simp]:
  "feed_entry (feed_enforce f st) = feed_entry st"
  "fm_lists (feed_enforce f st) f = Some (feed_entry st f)"
  by (simp_all add: feed_entry_def feed_enforce_def map_lists.entry_enforce map_lists.find_enforce_same
      fun_eq_iff)

lemma feeds_sound_put:
  assumes "feeds_sound st H" "messages_ok l" "view_sound (messages_view l) K"
    "feed_entry st' = (\<lambda>g. if g = f then l else feed_entry st g)"
  shows "feeds_sound st' (H(f := K))"
  using assms by (auto simp: feeds_sound_def)

lemma messages_view_empty [simp]: "messages_view empty_messages_list m = None"
  by (simp add: slices_view_def empty_messages_list_def)

lemma feeds_sound_unknown:
  assumes "feeds_sound st H" "fm_lists st f = None"
  shows "feeds_sound st (H(f := K))"
proof (rule feeds_sound_put [OF assms(1), of empty_messages_list])
  have "feed_entry st f = empty_messages_list"
    using assms(2) by (simp add: feed_entry_def map_lists.entry_def)
  then show "feed_entry st = (\<lambda>g. if g = f then empty_messages_list else feed_entry st g)" by auto
qed (simp_all add: messages_ok_def empty_messages_list_def view_sound_def slices_view_def)

text \<open>Removing and invalidating: an operation of the list, when there is one.\<close>

lemma feeds_sound_found:
  assumes "feeds_sound st H"
    "st' = (case fm_lists st f of None \<Rightarrow> st
      | Some l \<Rightarrow> \<lparr> fm_lists = (fm_lists st)(f \<mapsto> op l), fm_events = ev \<rparr>)"
    "\<And>l. l = feed_entry st f \<Longrightarrow> messages_ok l \<Longrightarrow> view_sound (messages_view l) (H f) \<Longrightarrow>
       messages_ok (op l) \<and> view_sound (messages_view (op l)) K"
  shows "feeds_sound st' (H(f := K))"
proof (cases "fm_lists st f")
  case None
  then show ?thesis using feeds_sound_unknown [OF assms(1) None] assms(2) by simp
next
  case (Some l)
  have l: "feed_entry st f = l" by (rule feed_entry_found [OF Some])
  have "messages_ok l" "view_sound (messages_view l) (H f)"
    using assms(1) l by (auto simp: feeds_sound_def)
  with assms(3) [OF l [symmetric]]
  show ?thesis
    by (intro feeds_sound_put [OF assms(1), of "op l"]) (simp_all add: assms(2) Some feed_entry_put)
qed

lemma messages_add_sound:
  assumes "feeds_sound st H" "range_from r \<le> range_till r" "\<forall>m\<in>set msgs. in_range m r"
    "cnt = None \<or> \<not> increment"
    "messages_add_range msgs r cnt increment (feed_entry st f) = Inr (l, u)"
    "\<forall>x. in_range x r \<longrightarrow> (x \<in> set msgs \<or> x \<in> H f \<and> messages_view (feed_entry st f) x = Some True \<longleftrightarrow> x \<in> K)"
    "\<forall>x. \<not> in_range x r \<longrightarrow> (x \<in> H f \<longleftrightarrow> x \<in> K)"
    "feed_entry st' = (\<lambda>g. if g = f then l else feed_entry st g)"
  shows "feeds_sound st' (H(f := K))"
proof -
  have ok: "messages_ok (feed_entry st f)" "view_sound (feed_view st f) (H f)"
    using assms(1) by (simp_all add: feeds_sound_def)
  have "messages_ok l \<and> messages_view l = view_add msgs r (messages_view (feed_entry st f))"
    using messages_add_range_spec [OF ok(1) assms(2-4)] assms(5) by auto
  with view_add_sound [OF ok(2) assms(6,7)] show ?thesis
    by (intro feeds_sound_put [OF assms(1) _ _ assms(8)]) simp_all
qed

lemma feed_history_sound_all: "feed_history st H \<Longrightarrow> feeds_sound st H"
proof (induction rule: feed_history.induct)
  case (feed_start H)
  have "feed_entry empty_feed_messages = (\<lambda>_. empty_messages_list)"
    by (simp add: feed_entry_def map_lists.entry_def empty_feed_messages_def fun_eq_iff)
  then show ?case by (simp add: feeds_sound_def messages_ok_def empty_messages_list_def view_sound_def slices_view_def)
next
  case (feed_new st H m f st')
  obtain l u where run: "messages_add_range [m] \<lparr> range_from = m, range_till = MaxMessagePosition \<rparr> None True
      (feed_entry st f) = Inr (l, u)"
    "st' = \<lparr> fm_lists = (fm_lists (feed_enforce f st))(f \<mapsto> l),
             fm_events = fm_events (feed_enforce f st) @ [FeedSliceUpdate f u] \<rparr>"
    using feed_new.hyps(4)
    by (auto simp: feed_add_new_def messages_add_new_def Let_def bind_outcome_Inr_iff)
  note entry = run(2) [THEN arg_cong [of _ _ feed_entry], unfolded feed_entry_put feed_entry_enforce]
  show ?case
    by (rule messages_add_sound [OF feed_new.IH _ _ _ run(1) _ _ entry])
      (use feed_new.hyps(2,3) in \<open>auto\<close>)
next
  case (feed_slice st H r msgs f st')
  obtain l u where run: "messages_add_range msgs r None False (feed_entry st f) = Inr (l, u)"
    "st' = \<lparr> fm_lists = (fm_lists (feed_enforce f st))(f \<mapsto> l),
             fm_events = fm_events (feed_enforce f st) @ [FeedSliceUpdate f u] \<rparr>"
    using feed_slice.hyps(4)
    by (auto simp: feed_add_slice_def messages_add_slice_def Let_def bind_outcome_Inr_iff)
  note entry = run(2) [THEN arg_cong [of _ _ feed_entry], unfolded feed_entry_put feed_entry_enforce]
  have "feeds_sound st' (H(f := H f))"
    by (rule messages_add_sound [OF feed_slice.IH feed_slice.hyps(2) _ _ run(1) _ _ entry])
      (use feed_slice.hyps(3) in auto)
  then show ?case by simp
next
  case (feed_remove st H f m)
  show ?case
  proof (rule feeds_sound_found [OF feed_remove.IH])
    show "feed_remove_one f m st = (case fm_lists st f of None \<Rightarrow> st
        | Some l \<Rightarrow> \<lparr> fm_lists = (fm_lists st)(f \<mapsto> messages_remove_one m l),
            fm_events = fm_events st @ [FeedOneRemoved f m] \<rparr>)" by (simp add: feed_remove_one_def)
    show "messages_ok (messages_remove_one m l) \<and> view_sound (messages_view (messages_remove_one m l)) (H f - {m})"
      if "messages_ok l" "view_sound (messages_view l) (H f)" for l
      using slices_remove_one_spec [of "ml_slices l" m] that
      by (auto simp: messages_ok_def messages_remove_one_def view_sound_def split: if_splits)
  qed
next
  case (feed_clear st H f c)
  show ?case
  proof (rule feeds_sound_found [OF feed_clear.IH])
    show "feed_remove_all f c st = (case fm_lists st f of None \<Rightarrow> st
        | Some l \<Rightarrow> \<lparr> fm_lists = (fm_lists st)(f \<mapsto> messages_remove_all c l),
            fm_events = fm_events st @ [FeedAllRemoved f c] \<rparr>)" by (simp add: feed_remove_all_def)
    show "messages_ok (messages_remove_all c l) \<and> view_sound (messages_view (messages_remove_all c l))
        {m \<in> H f. fid_channel (position_id m) \<noteq> c}"
      if "messages_ok l" "view_sound (messages_view l) (H f)" for l
      using messages_remove_all_spec [OF that(1), of c] that(2)
      by (auto simp: view_sound_def split: if_splits)
  qed
next
  case (feed_forget st H f N)
  show ?case
    by (rule feeds_sound_found [OF feed_forget.IH feed_invalidate_def])
      (simp add: messages_invalidate_def messages_ok_def view_sound_def slices_view_def)
next
  case (feed_missed st H N f)
  show ?case
  proof (rule feeds_sound_found [OF feed_missed.IH feed_invalidate_bottom_def])
    fix l assume l: "l = feed_entry st f" "messages_ok l" "view_sound (messages_view l) (H f)"
    have "slices_ok (ml_slices l)" using l(2) by (simp add: messages_ok_def)
    with slices_invalidate_sound [OF this l(3), of N MaxMessagePosition] slices_invalidate_bottom_spec [OF this]
    show "messages_ok (messages_invalidate_bottom l) \<and>
        view_sound (messages_view (messages_invalidate_bottom l)) (H f \<union> N)"
      using feed_missed.hyps(2) l(1) by (simp add: messages_ok_def messages_invalidate_bottom_def)
  qed
qed

section \<open>Properties\<close>

text \<open>C8. Whatever the store of feeds was told, in any order, what it knows of every feed is right: a
  position it shows as present is in the feed and one it shows as absent is not, while removals
  of a message or a channel and both invalidations happen in between.\<close>

theorem feed_history_sound:
  assumes "feed_history st H"
  shows "\<forall>f. messages_ok (feed_entry st f) \<and> (\<forall>m b. feed_view st f m = Some b \<longrightarrow> (b \<longleftrightarrow> m \<in> H f))"
  using feed_history_sound_all [OF assms] by (simp add: feeds_sound_def view_sound_def)


definition one_message_feed :: "feed_id \<Rightarrow> message_position set" where
  "one_message_feed = (\<lambda>_. {})(3 := {pos 1 7 1})"

lemma one_message_history:
  "\<exists>st. feed_history st one_message_feed \<and> feed_view st 3 (pos 1 7 1) = Some True"
proof -
  let ?r = "\<lparr> range_from = pos 1 7 1, range_till = MaxMessagePosition \<rparr>"
  have max: "pos 1 7 1 \<le> MaxMessagePosition"
    by (simp add: MaxMessagePosition_def pos_def less_eq_message_position_def less_message_position_def MaxDate_def)
  have empty: "feed_entry empty_feed_messages f = empty_messages_list" for f
    by (simp add: feed_entry_def map_lists.entry_def empty_feed_messages_def)
  obtain l u where l: "messages_add_range [pos 1 7 1] ?r None True empty_messages_list = Inr (l, u)"
    "messages_view l = view_add [pos 1 7 1] ?r (messages_view empty_messages_list)"
    using messages_add_range_spec [of empty_messages_list ?r "[pos 1 7 1]" None True] max
    by (auto simp: messages_ok_def empty_messages_list_def)
  let ?e = "feed_enforce 3 empty_feed_messages"
  let ?st = "\<lparr> fm_lists = (fm_lists ?e)(3 \<mapsto> l), fm_events = fm_events ?e @ [FeedSliceUpdate 3 u] \<rparr>"
  have run: "feed_add_new 3 (pos 1 7 1) empty_feed_messages = Inr ?st"
    using l(1) by (simp add: feed_add_new_def messages_add_new_def Let_def empty)
  have "feed_history ?st ((\<lambda>_. {})(3 := insert (pos 1 7 1) {}))"
    using feed_new [OF feed_start [of "\<lambda>_. {}"] max _ run] by simp
  moreover have "feed_view ?st 3 (pos 1 7 1) = Some True"
    using l(2) max by (simp only: feed_entry_put) (simp add: view_add_def)
  ultimately show ?thesis unfolding one_message_feed_def by blast
qed

theorem feed_history_sound_witness:
  "\<exists>st. feed_history st one_message_feed \<and> feed_view st 3 (pos 1 7 1) = Some True \<and>
     messages_ok (feed_entry st 3) \<and> (\<forall>m b. feed_view st 3 m = Some b \<longrightarrow> (b \<longleftrightarrow> m = pos 1 7 1))"
proof -
  obtain st where st: "feed_history st one_message_feed" "feed_view st 3 (pos 1 7 1) = Some True"
    using one_message_history by blast
  have "messages_ok (feed_entry st 3) \<and> (\<forall>m b. feed_view st 3 m = Some b \<longrightarrow> (b \<longleftrightarrow> m = pos 1 7 1))"
    using feed_history_sound [OF st(1), THEN spec, of 3] by (simp add: one_message_feed_def)
  with st show ?thesis by blast
qed

end
