(* ===== verification/User_Photos.thy ===== *)
theory User_Photos
  imports Data_Types Keyed_Lists
begin

text \<open>
  storage/storage\_user\_photos.cpp and data/data\_user\_photos.cpp: the profile photos of a user,
  oldest first, as the store knows them (\<open>UserPhotos::List\<close>), and the window a viewer shows
  (\<open>UserPhotosSliceBuilder\<close>, \<open>UserPhotosSlice\<close>). An update fired by an operation is returned
  with the new state. \<open>ranges::find\<close> returns the index of the first occurrence, the length when
  there is none.
\<close>

type_synonym photo_id = "64 word"
type_synonym user_id = int

definition ranges_find :: "'a \<Rightarrow> 'a list \<Rightarrow> nat" where
  "ranges_find v xs = length (takeWhile (\<lambda>x. x \<noteq> v) xs)"

section \<open>The list of the store\<close>

record photos_list =
  pl_count :: "int option"
  pl_ids :: "photo_id list"

record photos_update =
  pu_ids :: "photo_id list option"
  pu_count :: "int option"

definition empty_photos_list :: photos_list where
  "empty_photos_list = \<lparr> pl_count = None, pl_ids = [] \<rparr>"

definition photos_send_update :: "photos_list \<Rightarrow> photos_update" where
  "photos_send_update l = \<lparr> pu_ids = Some (pl_ids l), pu_count = pl_count l \<rparr>"

definition photos_add_new :: "photo_id \<Rightarrow> photos_list \<Rightarrow> photos_list \<times> photos_update option" where
  "photos_add_new photoId l =
     (if photoId \<notin> set (pl_ids l) then
        let l' = \<lparr> pl_count = map_option (\<lambda>c. c + 1) (pl_count l), pl_ids = pl_ids l @ [photoId] \<rparr>
        in (l', Some (photos_send_update l'))
      else (l, None))"

definition photos_push_missing :: "photo_id list \<Rightarrow> photo_id list \<Rightarrow> photo_id list" where
  "photos_push_missing photoIds ids =
     fold (\<lambda>photoId ids. if photoId \<notin> set ids then photoId # ids else ids) photoIds ids"

text \<open>\<open>*_count < _photoIds.size()\<close> compares without sign, so a negative count is a large one.\<close>

definition photos_add_slice :: "photo_id list \<Rightarrow> int \<Rightarrow> photos_list \<Rightarrow> photos_list \<times> photos_update" where
  "photos_add_slice photoIds cnt l =
     (let ids = photos_push_missing photoIds (pl_ids l);
          size = int (length ids);
          l' = \<lparr> pl_count = Some (if 0 \<le> cnt \<and> cnt < size \<or> photoIds = [] then size else cnt),
                 pl_ids = ids \<rparr>
      in (l', photos_send_update l'))"

definition photos_remove_one :: "photo_id \<Rightarrow> photos_list \<Rightarrow> photos_list \<times> photos_update" where
  "photos_remove_one photoId l =
     (let position = ranges_find photoId (pl_ids l);
          l' = (if position = length (pl_ids l) then l\<lparr> pl_count := None \<rparr>
                else \<lparr> pl_count = map_option (\<lambda>c. c - 1) (pl_count l),
                       pl_ids = take position (pl_ids l) @ drop (Suc position) (pl_ids l) \<rparr>)
      in (l', photos_send_update l'))"

definition photos_remove_after :: "photo_id \<Rightarrow> photos_list \<Rightarrow> photos_list \<times> photos_update" where
  "photos_remove_after photoId l =
     (let position = ranges_find photoId (pl_ids l);
          l' = (if position = length (pl_ids l) then \<lparr> pl_count = None, pl_ids = [] \<rparr>
                else \<lparr> pl_count = map_option (\<lambda>c. c - (int (length (pl_ids l)) - int position)) (pl_count l),
                       pl_ids = take position (pl_ids l) \<rparr>)
      in (l', photos_send_update l'))"

record photos_query =
  pq_user :: user_id
  pq_photo :: photo_id
  pq_limit_before :: int
  pq_limit_after :: int

record photos_result =
  pr_count :: "int option"
  pr_skipped_before :: "int option"
  pr_skipped_after :: int
  pr_ids :: "photo_id list"

text \<open>
  The first value of \<open>skippedBefore\<close>, from the count, is overwritten before anything reads it.
\<close>

definition photos_query_list :: "photos_query \<Rightarrow> photos_list \<Rightarrow> photos_result option" where
  "photos_query_list q l =
     (let ids = pl_ids l; position = ranges_find (pq_photo q) ids
      in if position \<noteq> length ids then
           let haveBefore = int position;
               haveEqualOrAfter = int (length ids) - int position;
               before = min haveBefore (pq_limit_before q);
               equalOrAfter = min haveEqualOrAfter (pq_limit_after q + 1)
           in Some \<lparr> pr_count = pl_count l, pr_skipped_before = Some (haveBefore - before),
                     pr_skipped_after = haveEqualOrAfter - equalOrAfter,
                     pr_ids = take (nat (before + equalOrAfter)) (drop (nat (haveBefore - before)) ids) \<rparr>
         else if pl_count l \<noteq> None
         then Some \<lparr> pr_count = pl_count l, pr_skipped_before = None, pr_skipped_after = 0, pr_ids = [] \<rparr>
         else None)"

section \<open>The store\<close>

record user_photos =
  up_lists :: "user_id \<rightharpoonup> photos_list"
  up_events :: "(user_id \<times> photos_update) list"

definition photos_enforce :: "user_id \<Rightarrow> user_photos \<Rightarrow> user_photos" where
  "photos_enforce user st = st\<lparr> up_lists := enforce_lists empty_photos_list user (up_lists st) \<rparr>"

definition up_add_new :: "user_id \<Rightarrow> photo_id \<Rightarrow> user_photos \<Rightarrow> user_photos" where
  "up_add_new user photoId st =
     (let st' = photos_enforce user st;
          (l, u) = photos_add_new photoId (the (up_lists st' user))
      in \<lparr> up_lists = (up_lists st')(user \<mapsto> l),
           up_events = up_events st' @ (case u of None \<Rightarrow> [] | Some u \<Rightarrow> [(user, u)]) \<rparr>)"

definition up_add_slice :: "user_id \<Rightarrow> photo_id list \<Rightarrow> int \<Rightarrow> user_photos \<Rightarrow> user_photos" where
  "up_add_slice user photoIds cnt st =
     (let st' = photos_enforce user st;
          (l, u) = photos_add_slice photoIds cnt (the (up_lists st' user))
      in \<lparr> up_lists = (up_lists st')(user \<mapsto> l), up_events = up_events st' @ [(user, u)] \<rparr>)"

definition up_remove_one :: "user_id \<Rightarrow> photo_id \<Rightarrow> user_photos \<Rightarrow> user_photos" where
  "up_remove_one user photoId st =
     (case up_lists st user of
        None \<Rightarrow> st
      | Some l0 \<Rightarrow>
          let (l, u) = photos_remove_one photoId l0
          in \<lparr> up_lists = (up_lists st)(user \<mapsto> l), up_events = up_events st @ [(user, u)] \<rparr>)"

definition up_remove_after :: "user_id \<Rightarrow> photo_id \<Rightarrow> user_photos \<Rightarrow> user_photos" where
  "up_remove_after user photoId st =
     (case up_lists st user of
        None \<Rightarrow> st
      | Some l0 \<Rightarrow>
          let (l, u) = photos_remove_after photoId l0
          in \<lparr> up_lists = (up_lists st)(user \<mapsto> l), up_events = up_events st @ [(user, u)] \<rparr>)"

definition up_query :: "photos_query \<Rightarrow> user_photos \<Rightarrow> photos_result option" where
  "up_query q st =
     (case up_lists st (pq_user q) of None \<Rightarrow> None | Some l \<Rightarrow> photos_query_list q l)"

section \<open>The window of a viewer\<close>

record photos_builder =
  pb_user :: user_id
  pb_photo :: photo_id
  pb_ids :: "photo_id list"
  pb_full_count :: "int option"
  pb_skipped_before :: "int option"
  pb_skipped_after :: int
  pb_limit_before :: int
  pb_limit_after :: int
  pb_requests :: "photo_id list"

definition new_photos_builder :: "user_id \<Rightarrow> photo_id \<Rightarrow> int \<Rightarrow> int \<Rightarrow> photos_builder" where
  "new_photos_builder user photo limitBefore limitAfter =
     \<lparr> pb_user = user, pb_photo = photo, pb_ids = [], pb_full_count = None,
       pb_skipped_before = None, pb_skipped_after = 0, pb_limit_before = limitBefore,
       pb_limit_after = limitAfter, pb_requests = [] \<rparr>"

definition photos_slice_to_limits :: "photos_builder \<Rightarrow> photos_builder" where
  "photos_slice_to_limits b =
     (let around = int (ranges_find (pb_photo b) (pb_ids b));
          removeFromBegin = around - pb_limit_before b;
          removeFromEnd = int (length (pb_ids b)) - around - pb_limit_after b - 1;
          b1 = (if removeFromEnd > 0
                then b\<lparr> pb_ids := take (length (pb_ids b) - nat removeFromEnd) (pb_ids b),
                        pb_skipped_after := pb_skipped_after b + removeFromEnd \<rparr>
                else b)
      in if removeFromBegin > 0
         then b1\<lparr> pb_ids := drop (nat removeFromBegin) (pb_ids b1),
                  pb_skipped_before := map_option (\<lambda>k. k + removeFromBegin) (pb_skipped_before b1) \<rparr>
         else if removeFromBegin < 0 \<and> (case pb_skipped_before b1 of None \<Rightarrow> True | Some k \<Rightarrow> k > 0)
         then b1\<lparr> pb_requests := pb_requests b1 @ [if pb_ids b1 = [] then 0 else hd (pb_ids b1)] \<rparr>
         else b1)"

text \<open>The parameter \<open>skippedBefore\<close> of \<open>mergeSliceData\<close> is not used by it.\<close>

definition photos_merge_slice_data ::
    "int option \<Rightarrow> photo_id list \<Rightarrow> int option \<Rightarrow> int \<Rightarrow> photos_builder \<Rightarrow> photos_builder" where
  "photos_merge_slice_data cnt photoIds skippedBefore skippedAfter b =
     photos_slice_to_limits
       (if photoIds = [] then
          if pb_full_count b \<noteq> cnt then
            (case cnt of
               Some n \<Rightarrow>
                 if 0 \<le> n \<and> n \<le> int (length (pb_ids b))
                 then b\<lparr> pb_full_count := Some (int (length (pb_ids b))),
                         pb_skipped_before := Some 0, pb_skipped_after := 0 \<rparr>
                 else b\<lparr> pb_full_count := Some n \<rparr>
             | None \<Rightarrow> b\<lparr> pb_full_count := None \<rparr>)
          else b
        else
          let full = (if cnt \<noteq> None then cnt else pb_full_count b)
          in b\<lparr> pb_full_count := full, pb_skipped_after := skippedAfter, pb_ids := photoIds,
                pb_skipped_before :=
                  (case full of
                     Some n \<Rightarrow> Some (n - skippedAfter - int (length photoIds))
                   | None \<Rightarrow> pb_skipped_before b) \<rparr>)"

definition photos_apply_result :: "photos_result \<Rightarrow> photos_builder \<Rightarrow> photos_builder \<times> bool" where
  "photos_apply_result r b =
     (photos_merge_slice_data (pr_count r) (pr_ids r) (pr_skipped_before r) (pr_skipped_after r) b, True)"

definition photos_apply_slice_update ::
    "user_id \<Rightarrow> photos_update \<Rightarrow> photos_builder \<Rightarrow> photos_builder \<times> bool" where
  "photos_apply_slice_update user u b =
     (if user \<noteq> pb_user b then (b, False)
      else
        let idsCount = (case pu_ids u of Some ids \<Rightarrow> int (length ids) | None \<Rightarrow> 0)
        in (photos_merge_slice_data (pu_count u) (case pu_ids u of Some ids \<Rightarrow> ids | None \<Rightarrow> [])
              (map_option (\<lambda>c. c + - idsCount) (pu_count u)) 0 b, True))"

definition photos_check_insufficient :: "photos_builder \<Rightarrow> photos_builder" where
  "photos_check_insufficient b = photos_slice_to_limits b"

section \<open>UserPhotosSlice\<close>

record photos_slice =
  ps_user :: user_id
  ps_photo :: photo_id
  ps_ids :: "photo_id list"
  ps_full_count :: "int option"
  ps_skipped_before :: "int option"
  ps_skipped_after :: "int option"

definition photos_snapshot :: "photos_builder \<Rightarrow> photos_slice" where
  "photos_snapshot b =
     \<lparr> ps_user = pb_user b, ps_photo = pb_photo b, ps_ids = pb_ids b,
       ps_full_count = pb_full_count b, ps_skipped_before = pb_skipped_before b,
       ps_skipped_after = Some (pb_skipped_after b) \<rparr>"

definition photos_slice_reverse :: "photos_slice \<Rightarrow> photos_slice" where
  "photos_slice_reverse s =
     s\<lparr> ps_ids := rev (ps_ids s), ps_skipped_before := ps_skipped_after s,
        ps_skipped_after := ps_skipped_before s \<rparr>"

definition photos_slice_index_of :: "photo_id \<Rightarrow> photos_slice \<Rightarrow> int option" where
  "photos_slice_index_of photoId s =
     (let i = ranges_find photoId (ps_ids s)
      in if i \<noteq> length (ps_ids s) then Some (int i) else None)"

definition photos_slice_at :: "int \<Rightarrow> photos_slice \<Rightarrow> photo_id outcome" where
  "photos_slice_at index s =
     expects (index \<ge> 0 \<and> index < int (length (ps_ids s))) (Inr (ps_ids s ! nat index))"

definition photos_slice_distance ::
    "user_id \<times> photo_id \<Rightarrow> user_id \<times> photo_id \<Rightarrow> photos_slice \<Rightarrow> int option" where
  "photos_slice_distance a b s =
     (if fst a \<noteq> ps_user s \<or> fst b \<noteq> ps_user s then None
      else case photos_slice_index_of (snd a) s of
             None \<Rightarrow> None
           | Some i \<Rightarrow> map_option (\<lambda>j. j - i) (photos_slice_index_of (snd b) s))"


section \<open>Finding and removing\<close>

lemma ranges_find_iff: "ranges_find v xs \<noteq> length xs \<longleftrightarrow> v \<in> set xs"
  by (induction xs) (auto simp: ranges_find_def)

lemma ranges_find_le [simp]: "ranges_find v xs \<le> length xs"
  by (simp add: ranges_find_def length_takeWhile_le)

lemma ranges_find_nth: "v \<in> set xs \<Longrightarrow> ranges_find v xs < length xs \<and> xs ! ranges_find v xs = v"
  by (induction xs) (auto simp: ranges_find_def)

lemma ranges_find_cut:
  "distinct xs \<Longrightarrow> take (ranges_find v xs) xs @ drop (Suc (ranges_find v xs)) xs = filter (\<lambda>x. x \<noteq> v) xs"
proof (induction xs)
  case (Cons x xs)
  moreover have "filter (\<lambda>x. x \<noteq> v) xs = xs" if "v \<notin> set xs"
    using that by (auto simp: filter_id_conv)
  ultimately show ?case by (cases "x = v") (auto simp: ranges_find_def)
qed (simp add: ranges_find_def)

section \<open>What the store keeps\<close>

text \<open>A list has every photo once, and a known count is not below what is known.\<close>

definition photos_ok :: "photos_list \<Rightarrow> bool" where
  "photos_ok l \<longleftrightarrow> distinct (pl_ids l) \<and> (\<forall>n. pl_count l = Some n \<longrightarrow> int (length (pl_ids l)) \<le> n)"

lemma photos_push_missing_ok:
  "distinct ids \<Longrightarrow> distinct (photos_push_missing new ids) \<and>
   set (photos_push_missing new ids) = set ids \<union> set new"
  unfolding photos_push_missing_def
  by (induction new arbitrary: ids) auto

lemma photos_add_new_ok: "photos_ok l \<Longrightarrow> photos_ok (fst (photos_add_new p l))"
  by (auto simp: photos_ok_def photos_add_new_def Let_def)

lemma photos_add_slice_ok: "photos_ok l \<Longrightarrow> 0 \<le> cnt \<Longrightarrow> photos_ok (fst (photos_add_slice ps cnt l))"
  using photos_push_missing_ok [of "pl_ids l" ps]
  by (auto simp: photos_ok_def photos_add_slice_def Let_def)

lemma photos_remove_one_ok: "photos_ok l \<Longrightarrow> photos_ok (fst (photos_remove_one p l))"
proof -
  assume ok: "photos_ok l"
  show ?thesis
  proof (cases "p \<in> set (pl_ids l)")
    case True
    then have i: "ranges_find p (pl_ids l) < length (pl_ids l)" by (rule conjunct1 [OF ranges_find_nth])
    have "distinct (take (ranges_find p (pl_ids l)) (pl_ids l) @ drop (Suc (ranges_find p (pl_ids l))) (pl_ids l))"
      using ok by (simp only: photos_ok_def ranges_find_cut distinct_filter)
    then show ?thesis using ok i by (auto simp: photos_ok_def photos_remove_one_def Let_def)
  next
    case False
    then have "ranges_find p (pl_ids l) = length (pl_ids l)" using ranges_find_iff [of p "pl_ids l"] by simp
    then show ?thesis using ok by (simp add: photos_ok_def photos_remove_one_def Let_def)
  qed
qed

lemma photos_remove_after_ok: "photos_ok l \<Longrightarrow> photos_ok (fst (photos_remove_after p l))"
  using ranges_find_le [of p "pl_ids l"] by (auto simp: photos_ok_def photos_remove_after_def Let_def)

definition photos_of :: "user_photos \<Rightarrow> user_id \<Rightarrow> photos_list" where
  "photos_of st = map_lists.entry empty_photos_list (up_lists st)"

definition store_ok :: "user_photos \<Rightarrow> bool" where
  "store_ok st \<longleftrightarrow> (\<forall>u. photos_ok (photos_of st u))"

lemma photos_of_found: "up_lists st u = Some l \<Longrightarrow> photos_of st u = l"
  by (simp add: photos_of_def map_lists.entry_def)

lemma photos_of_enforce: "up_lists (photos_enforce u st) u = Some (photos_of st u)"
  "photos_of (photos_enforce u st) = photos_of st"
  by (simp_all add: photos_enforce_def photos_of_def map_lists.find_enforce_same
      map_lists.entry_enforce fun_eq_iff)

lemma photos_of_put:
  "photos_of \<lparr> up_lists = (up_lists st)(u \<mapsto> l), up_events = ev \<rparr> v = (if v = u then l else photos_of st v)"
  by (simp add: photos_of_def map_lists.entry_def)

text \<open>What an operation of the store is on the list of its user; the others stay.\<close>

lemma up_add_new_of:
  "photos_of (up_add_new u p st) v = (if v = u then fst (photos_add_new p (photos_of st u)) else photos_of st v)"
  by (simp add: up_add_new_def Let_def photos_of_enforce photos_of_put case_prod_beta)

lemma up_add_slice_of:
  "photos_of (up_add_slice u ps cnt st) v =
     (if v = u then fst (photos_add_slice ps cnt (photos_of st u)) else photos_of st v)"
  by (simp add: up_add_slice_def Let_def photos_of_enforce photos_of_put case_prod_beta)

lemma up_remove_one_of:
  "photos_of (up_remove_one u p st) v =
     (if v = u \<and> up_lists st u \<noteq> None then fst (photos_remove_one p (photos_of st u)) else photos_of st v)"
  by (cases "up_lists st u")
    (simp_all add: up_remove_one_def Let_def photos_of_put photos_of_found case_prod_beta)

lemma up_remove_after_of:
  "photos_of (up_remove_after u p st) v =
     (if v = u \<and> up_lists st u \<noteq> None then fst (photos_remove_after p (photos_of st u)) else photos_of st v)"
  by (cases "up_lists st u")
    (simp_all add: up_remove_after_def Let_def photos_of_put photos_of_found case_prod_beta)

section \<open>What a query answers\<close>

lemma three_parts: "xs = take a xs @ take b (drop a xs) @ drop (a + b) xs"
proof -
  have "drop (a + b) xs = drop b (drop a xs)" by (simp add: add.commute)
  then show ?thesis by (simp only: append_take_drop_id)
qed

lemma photos_query_window:
  assumes "p \<in> set (pl_ids l)" "0 \<le> pq_limit_before q" "0 \<le> pq_limit_after q" "pq_photo q = p"
    "photos_query_list q l = Some r"
  shows "\<exists>xs ys. pl_ids l = xs @ pr_ids r @ ys \<and> p \<in> set (pr_ids r) \<and>
    pr_skipped_before r = Some (int (length xs)) \<and> pr_skipped_after r = int (length ys)"
proof -
  let ?i = "ranges_find p (pl_ids l)" and ?n = "length (pl_ids l)"
  let ?b = "min (int ?i) (pq_limit_before q)" and ?e = "min (int ?n - int ?i) (pq_limit_after q + 1)"
  have i: "?i < ?n" "pl_ids l ! ?i = p" using ranges_find_nth [OF assms(1)] by auto
  have r: "pr_ids r = take (nat (?b + ?e)) (drop (nat (int ?i - ?b)) (pl_ids l))"
    "pr_skipped_before r = Some (int ?i - ?b)" "pr_skipped_after r = int ?n - int ?i - ?e"
    using assms(4,5) i by (auto simp: photos_query_list_def Let_def)
  have e: "?e \<ge> 1" "?b \<ge> 0" using i assms(2,3) by auto
  have "p \<in> set (pr_ids r)"
  proof -
    have "nat ?b < length (pr_ids r)" using i e by (auto simp: r(1) min_def split: if_splits)
    moreover have "pr_ids r ! nat ?b = p" using i e by (simp add: r(1) nat_diff_distrib)
    ultimately show ?thesis by (metis nth_mem)
  qed
  moreover define A B where "A = nat (int ?i - ?b)" and "B = nat (?b + ?e)"
  have A: "int A = int ?i - ?b" unfolding A_def using i e by simp
  have B: "int B = ?b + ?e" unfolding B_def using i e by simp
  have en: "?e \<le> int ?n - int ?i" by (rule min.cobounded1)
  have AB: "int A = int ?i - ?b" "int (A + B) = int ?i + ?e" using A B by (simp_all only: of_nat_add)
  have le: "A \<le> ?n" "A + B \<le> ?n" using AB en i e(2) by linarith+
  have "pl_ids l = take A (pl_ids l) @ pr_ids r @ drop (A + B) (pl_ids l)"
    unfolding r(1) A_def B_def by (rule three_parts)
  moreover have "int (length (take A (pl_ids l))) = int ?i - ?b"
    "int (length (drop (A + B) (pl_ids l))) = int ?n - int ?i - ?e"
    using AB le by (simp_all add: of_nat_diff)
  ultimately show ?thesis using r(2,3) by metis
qed

section \<open>What the builder keeps\<close>

definition photos_counts :: "photos_builder \<Rightarrow> bool" where
  "photos_counts b \<longleftrightarrow> (\<forall>n k. pb_full_count b = Some n \<longrightarrow> pb_skipped_before b = Some k \<longrightarrow>
     k + int (length (pb_ids b)) + pb_skipped_after b = n)"

lemma photos_slice_to_limits_counts:
  assumes "photos_counts b" "0 \<le> pb_limit_before b" "0 \<le> pb_limit_after b"
  shows "photos_counts (photos_slice_to_limits b)"
proof -
  define i where "i = ranges_find (pb_photo b) (pb_ids b)"
  have "i \<le> length (pb_ids b)" by (simp add: i_def)
  then show ?thesis
    using assms by (auto simp: photos_counts_def photos_slice_to_limits_def Let_def i_def [symmetric]
        split: option.splits)
qed

lemma photos_slice_to_limits_keeps:
  assumes "pb_photo b \<in> set (pb_ids b)" "0 \<le> pb_limit_before b" "0 \<le> pb_limit_after b"
  shows "pb_photo b \<in> set (pb_ids (photos_slice_to_limits b))"
proof -
  let ?i = "ranges_find (pb_photo b) (pb_ids b)" and ?ids = "pb_ids b"
  have i: "?i < length ?ids" "?ids ! ?i = pb_photo b" using ranges_find_nth [OF assms(1)] by auto
  let ?e = "nat (int (length ?ids) - int ?i - pb_limit_after b - 1)"
  let ?r = "nat (int ?i - pb_limit_before b)"
  have "pb_ids (photos_slice_to_limits b) = drop ?r (take (length ?ids - ?e) ?ids)"
    by (auto simp: photos_slice_to_limits_def Let_def)
  moreover have "?r \<le> ?i" "?i < length ?ids - ?e" using i assms(2,3) by auto
  ultimately have "pb_ids (photos_slice_to_limits b) ! (?i - ?r) = pb_photo b"
    "?i - ?r < length (pb_ids (photos_slice_to_limits b))"
    using i by auto
  then show ?thesis by (metis nth_mem)
qed

section \<open>Properties\<close>

text \<open>C30. The store of profile photos keeps its lists well formed: after any operation every
  user's list has each photo once and no known count below its length, and only the list of
  the user the operation names has changed.\<close>

theorem user_photos_store_ok:
  assumes "store_ok st" "0 \<le> cnt"
    "st' \<in> {up_add_new u p st, up_add_slice u ps cnt st, up_remove_one u p st, up_remove_after u p st}"
  shows "store_ok st' \<and> (\<forall>v. v \<noteq> u \<longrightarrow> photos_of st' v = photos_of st v)"
  using assms photos_add_new_ok photos_add_slice_ok photos_remove_one_ok photos_remove_after_ok
  by (auto simp: store_ok_def up_add_new_of up_add_slice_of up_remove_one_of up_remove_after_of)

definition empty_user_photos :: user_photos where
  "empty_user_photos = \<lparr> up_lists = Map.empty, up_events = [] \<rparr>"

lemma empty_user_photos_ok: "store_ok empty_user_photos"
  by (simp add: store_ok_def photos_of_def map_lists.entry_def empty_user_photos_def photos_ok_def
      empty_photos_list_def)

theorem user_photos_store_ok_witness:
  "store_ok (up_add_slice 5 [7, 8] 3 empty_user_photos) \<and>
   photos_of (up_add_slice 5 [7, 8] 3 empty_user_photos) 5 = \<lparr> pl_count = Some 3, pl_ids = [8, 7] \<rparr>"
proof -
  have "photos_of (up_add_slice 5 [7, 8] 3 empty_user_photos) 5 = \<lparr> pl_count = Some 3, pl_ids = [8, 7] \<rparr>"
  proof -
    have "photos_of empty_user_photos 5 = empty_photos_list"
      by (simp add: photos_of_def map_lists.entry_def empty_user_photos_def)
    then show ?thesis
      by (simp add: up_add_slice_of empty_photos_list_def photos_add_slice_def photos_push_missing_def Let_def)
  qed
  then show ?thesis
    using user_photos_store_ok [OF empty_user_photos_ok, of 3
        "up_add_slice 5 [7, 8] 3 empty_user_photos" 5 0 "[7, 8]"] by simp
qed

text \<open>The counters of a window of photos add up: after the builder has merged photos with a
  known full count, what is skipped before, what is shown and what is skipped after make that
  count, and the photo the viewer is around stays in the window.\<close>

theorem photos_builder_merge_counts:
  assumes "0 \<le> pb_limit_before b" "0 \<le> pb_limit_after b" "photoIds \<noteq> []"
    "b' = photos_merge_slice_data (Some n) photoIds skippedBefore skippedAfter b"
    "pb_photo b \<in> set photoIds"
  shows "photos_counts b' \<and> pb_photo b \<in> set (pb_ids b')"
proof -
  let ?b = "b\<lparr> pb_full_count := Some n, pb_skipped_after := skippedAfter, pb_ids := photoIds,
      pb_skipped_before := Some (n - skippedAfter - int (length photoIds)) \<rparr>"
  have "b' = photos_slice_to_limits ?b"
    using assms(3,4) by (simp add: photos_merge_slice_data_def)
  moreover have "photos_counts (photos_slice_to_limits ?b)"
    by (rule photos_slice_to_limits_counts) (use assms(1,2) in \<open>simp_all add: photos_counts_def\<close>)
  moreover have "pb_photo ?b \<in> set (pb_ids (photos_slice_to_limits ?b))"
    by (rule photos_slice_to_limits_keeps) (use assms(1,2,5) in simp_all)
  ultimately show ?thesis by simp
qed

theorem photos_builder_merge_counts_witness:
  "photos_counts (photos_merge_slice_data (Some 9) [4, 5, 6, 7] None 2 (new_photos_builder 1 5 0 1)) \<and>
   5 \<in> set (pb_ids (photos_merge_slice_data (Some 9) [4, 5, 6, 7] None 2 (new_photos_builder 1 5 0 1)))"
  using photos_builder_merge_counts [of "new_photos_builder 1 5 0 1" "[4, 5, 6, 7]" _ 9 None 2, OF _ _ _ refl]
  by (simp add: new_photos_builder_def)

text \<open>A window that needs no cutting stays as it is when it is cut to the limits.\<close>

definition within_limits :: "photos_builder \<Rightarrow> bool" where
  "within_limits b \<longleftrightarrow>
     (let around = int (ranges_find (pb_photo b) (pb_ids b))
      in around \<le> pb_limit_before b \<and> int (length (pb_ids b)) - around - 1 \<le> pb_limit_after b)"

lemma slice_to_limits_within:
  assumes "within_limits b"
  shows "pb_ids (photos_slice_to_limits b) = pb_ids b \<and>
    pb_full_count (photos_slice_to_limits b) = pb_full_count b \<and>
    pb_skipped_before (photos_slice_to_limits b) = pb_skipped_before b \<and>
    pb_skipped_after (photos_slice_to_limits b) = pb_skipped_after b"
  using assms by (auto simp: within_limits_def photos_slice_to_limits_def Let_def)

text \<open>What any window does with an update that says that there are no photos.\<close>

lemma apply_empty_update:
  assumes "within_limits b" "pb_full_count b \<noteq> Some 0" "pb_user b = user"
    "u = \<lparr> pu_ids = Some [], pu_count = Some 0 \<rparr>"
  shows "pb_ids (fst (photos_apply_slice_update user u b)) = pb_ids b \<and>
    pb_full_count (fst (photos_apply_slice_update user u b)) = Some (int (length (pb_ids b))) \<and>
    pb_skipped_before (fst (photos_apply_slice_update user u b)) = Some 0 \<and>
    pb_skipped_after (fst (photos_apply_slice_update user u b)) = 0"
proof -
  let ?b = "b\<lparr> pb_full_count := Some (int (length (pb_ids b))), pb_skipped_before := Some 0,
      pb_skipped_after := 0 \<rparr>"
  have "within_limits ?b" using assms(1) by (simp add: within_limits_def)
  then show ?thesis
    using slice_to_limits_within [of ?b] assms(2-4)
    by (simp add: photos_apply_slice_update_def photos_merge_slice_data_def)
qed

text \<open>C32. A viewer keeps the last photos after they are removed. Let the store know the photos of a
  user and their number, and let an operation remove all that are left: \<open>removeOne\<close> of the only
  one, or \<open>removeAfter\<close> of the first. Then the store has no photo and the count zero and fires
  that; but any window of the user that does not know a count of zero (and whose photos are
  within its limits, as they are after every cut) takes the update for one without data and
  goes on showing what it has shown, with the number of these photos as the full count.\<close>

theorem photos_last_removed_stays:
  assumes "up_lists st user = Some l" "pl_count l = Some (int (length (pl_ids l)))"
    "pl_ids l = photo # rest"
    "rest = [] \<and> st' = up_remove_one user photo st \<or> st' = up_remove_after user photo st"
    "pb_user b = user" "within_limits b" "pb_full_count b \<noteq> Some 0"
  shows "\<exists>u. up_events st' = up_events st @ [(user, u)] \<and>
    up_lists st' user = Some \<lparr> pl_count = Some 0, pl_ids = [] \<rparr> \<and>
    pb_ids (fst (photos_apply_slice_update user u b)) = pb_ids b \<and>
    pb_full_count (fst (photos_apply_slice_update user u b)) = Some (int (length (pb_ids b)))"
proof -
  have find: "ranges_find photo (photo # rest) = 0" by (simp add: ranges_find_def)
  have "photos_remove_after photo l = (\<lparr> pl_count = Some 0, pl_ids = [] \<rparr>, \<lparr> pu_ids = Some [], pu_count = Some 0 \<rparr>)"
    using assms(2,3) find by (simp add: photos_remove_after_def photos_send_update_def)
  moreover have "photos_remove_one photo l = (\<lparr> pl_count = Some 0, pl_ids = [] \<rparr>, \<lparr> pu_ids = Some [], pu_count = Some 0 \<rparr>)"
    if "rest = []"
    using assms(2,3) find that by (simp add: photos_remove_one_def photos_send_update_def)
  ultimately have "up_events st' = up_events st @ [(user, \<lparr> pu_ids = Some [], pu_count = Some 0 \<rparr>)] \<and>
      up_lists st' user = Some \<lparr> pl_count = Some 0, pl_ids = [] \<rparr>"
    using assms(1,4) by (auto simp: up_remove_one_def up_remove_after_def split: if_splits)
  then show ?thesis using apply_empty_update [OF assms(6,7,5) refl] by blast
qed

theorem photos_last_removed_stays_witness:
  "\<exists>u. up_events (up_remove_one 5 7 (up_add_slice 5 [7] 1 empty_user_photos)) =
      [(5, \<lparr> pu_ids = Some [7], pu_count = Some 1 \<rparr>), (5, u)] \<and>
    pb_ids (fst (photos_apply_slice_update 5 u ((new_photos_builder 5 7 1 1)\<lparr> pb_ids := [7],
      pb_full_count := Some 1, pb_skipped_before := Some 0 \<rparr>))) = [7]"
proof -
  have st: "up_add_slice 5 [7] 1 empty_user_photos =
      \<lparr> up_lists = [5 \<mapsto> \<lparr> pl_count = Some 1, pl_ids = [7] \<rparr>],
        up_events = [(5, \<lparr> pu_ids = Some [7], pu_count = Some 1 \<rparr>)] \<rparr>"
    by (simp add: up_add_slice_def photos_enforce_def enforce_lists_def empty_user_photos_def
        empty_photos_list_def photos_add_slice_def photos_push_missing_def photos_send_update_def Let_def)
  let ?st = "\<lparr> up_lists = [5 \<mapsto> \<lparr> pl_count = Some 1, pl_ids = [7] \<rparr>],
        up_events = [(5, \<lparr> pu_ids = Some [7], pu_count = Some 1 \<rparr>)] \<rparr>"
  let ?b = "(new_photos_builder 5 7 1 1)\<lparr> pb_ids := [7], pb_full_count := Some 1, pb_skipped_before := Some 0 \<rparr>"
  have "\<exists>u. up_events (up_remove_one 5 7 ?st) = up_events ?st @ [(5, u)] \<and>
      up_lists (up_remove_one 5 7 ?st) 5 = Some \<lparr> pl_count = Some 0, pl_ids = [] \<rparr> \<and>
      pb_ids (fst (photos_apply_slice_update 5 u ?b)) = pb_ids ?b \<and>
      pb_full_count (fst (photos_apply_slice_update 5 u ?b)) = Some (int (length (pb_ids ?b)))"
    by (rule photos_last_removed_stays [where l = "\<lparr> pl_count = Some 1, pl_ids = [7] \<rparr>" and rest = "[]" and photo = 7])
      (simp_all add: new_photos_builder_def within_limits_def ranges_find_def)
  then show ?thesis unfolding st by auto
qed

end
