(* ===== verification/Pts_Waiter.thy ===== *)
theory Pts_Waiter
  imports Data_Types
begin

unbundle bit_operations_syntax

text \<open>
  data/data\_pts\_waiter.cpp: the order in which numbered updates of a chat are applied. An update
  \<open>(pts, count)\<close> takes the state from \<open>pts - count\<close> to \<open>pts\<close>; one that comes too early is
  queued until the gap below it is filled. \<open>MTPUpdate\<close> and \<open>MTPUpdates\<close> are the type
  variables \<open>'u\<close> and \<open>'s\<close>. What the waiter does to the rest of the program, applying updates
  and starting the timer of the main widget, is the log \<open>pw_log\<close> of its state; a call of the
  waiter from inside an applied update is a further call on a state with a positive skip level.
  Identifiers of the sequence are \<open>int\<close> (the code adds them without overflow for the values
  the server sends), the keys of the queue are the 64-bit words of the code.
\<close>

section \<open>QMap\<close>

text \<open>\<open>QMap\<close> as the list of its entries in the order of the keys; \<open>insert\<close> replaces.\<close>

type_synonym 'a qmap = "(64 word \<times> 'a) list"

fun qmap_insert :: "64 word \<Rightarrow> 'a \<Rightarrow> 'a qmap \<Rightarrow> 'a qmap" where
  "qmap_insert k v [] = [(k, v)]"
| "qmap_insert k v ((k', v') # m) =
     (if k < k' then (k, v) # (k', v') # m
      else if k' < k then (k', v') # qmap_insert k v m
      else (k, v) # m)"

definition qmap_value :: "'a qmap \<Rightarrow> 64 word \<Rightarrow> 'a option" where
  "qmap_value m k = map_of m k"

section \<open>State\<close>

datatype pts_skipped_queue = SkippedUpdate | SkippedUpdates

text \<open>\<open>value\<close> of a missing key is a default-constructed object, here \<open>None\<close>.\<close>

datatype ('u, 's) pts_event =
    ApplyUpdate "'u option"
  | ApplyUpdates "'s option"
  | StartTimer int

record ('u, 's) pts_waiter =
  pw_queue :: "pts_skipped_queue qmap"
  pw_update_queue :: "'u qmap"
  pw_updates_queue :: "'s qmap"
  pw_good :: int
  pw_last :: int
  pw_count :: int
  pw_apply_level :: int
  pw_requesting :: bool
  pw_waiting_skipped :: bool
  pw_waiting_short_poll :: bool
  pw_skipped_key :: "32 word"
  pw_has_main :: bool
  pw_log :: "('u, 's) pts_event list"

definition kWaitForSkippedTimeout :: int where
  "kWaitForSkippedTimeout = 1000"

definition new_pts_waiter :: "bool \<Rightarrow> ('u, 's) pts_waiter" where
  "new_pts_waiter has_main =
     \<lparr> pw_queue = [], pw_update_queue = [], pw_updates_queue = [], pw_good = 0, pw_last = 0,
       pw_count = 0, pw_apply_level = 0, pw_requesting = False, pw_waiting_skipped = False,
       pw_waiting_short_poll = False, pw_skipped_key = 0, pw_has_main = has_main, pw_log = [] \<rparr>"

definition pw_emit :: "('u, 's) pts_event \<Rightarrow> ('u, 's) pts_waiter \<Rightarrow> ('u, 's) pts_waiter" where
  "pw_emit e w = w\<lparr> pw_log := pw_log w @ [e] \<rparr>"

definition pw_inited :: "('u, 's) pts_waiter \<Rightarrow> bool" where
  "pw_inited w \<longleftrightarrow> pw_good w > 0"

definition clear_skipped_updates :: "('u, 's) pts_waiter \<Rightarrow> ('u, 's) pts_waiter" where
  "clear_skipped_updates w =
     w\<lparr> pw_queue := [], pw_update_queue := [], pw_updates_queue := [], pw_apply_level := 0 \<rparr>"

definition pw_init :: "int \<Rightarrow> ('u, 's) pts_waiter \<Rightarrow> ('u, 's) pts_waiter" where
  "pw_init pts w =
     clear_skipped_updates (w\<lparr> pw_good := pts, pw_last := pts, pw_count := pts \<rparr>)"

definition pw_set_requesting :: "bool \<Rightarrow> ('u, 's) pts_waiter \<Rightarrow> ('u, 's) pts_waiter" where
  "pw_set_requesting isRequesting w =
     (let w' = w\<lparr> pw_requesting := isRequesting \<rparr>
      in if isRequesting then clear_skipped_updates w' else w')"

section \<open>Waiting\<close>

definition check_for_waiting :: "('u, 's) pts_waiter \<Rightarrow> ('u, 's) pts_waiter" where
  "check_for_waiting w =
     (if \<not> pw_waiting_skipped w \<and> \<not> pw_waiting_short_poll w \<and> pw_has_main w
      then pw_emit (StartTimer (- 1)) w else w)"

definition set_waiting_for_skipped :: "int \<Rightarrow> ('u, 's) pts_waiter \<Rightarrow> ('u, 's) pts_waiter" where
  "set_waiting_for_skipped ms w =
     (if ms \<ge> 0
      then (if pw_has_main w then pw_emit (StartTimer ms) w else w)\<lparr> pw_waiting_skipped := True \<rparr>
      else check_for_waiting (w\<lparr> pw_waiting_skipped := False \<rparr>))"

definition set_waiting_for_short_poll :: "int \<Rightarrow> ('u, 's) pts_waiter \<Rightarrow> ('u, 's) pts_waiter" where
  "set_waiting_for_short_poll ms w =
     (if ms \<ge> 0
      then (if pw_has_main w then pw_emit (StartTimer ms) w else w)\<lparr> pw_waiting_short_poll := True \<rparr>
      else check_for_waiting (w\<lparr> pw_waiting_short_poll := False \<rparr>))"

section \<open>The queue\<close>

definition pts_key_of :: "int \<Rightarrow> 32 word \<Rightarrow> 64 word" where
  "pts_key_of pts k = push_bit 32 (bare_to_uint64 pts) OR ucast k"

definition pts_key ::
    "pts_skipped_queue \<Rightarrow> int \<Rightarrow> ('u, 's) pts_waiter \<Rightarrow> 64 word \<times> ('u, 's) pts_waiter" where
  "pts_key queue pts w =
     (let k = pw_skipped_key w + 1; key = pts_key_of pts k
      in (key, w\<lparr> pw_skipped_key := k, pw_queue := qmap_insert key queue (pw_queue w) \<rparr>))"

definition queue_update :: "int \<Rightarrow> 'u \<Rightarrow> ('u, 's) pts_waiter \<Rightarrow> ('u, 's) pts_waiter" where
  "queue_update pts update w =
     (let (key, w') = pts_key SkippedUpdate pts w
      in w'\<lparr> pw_update_queue := qmap_insert key update (pw_update_queue w') \<rparr>)"

definition queue_updates :: "int \<Rightarrow> 's \<Rightarrow> ('u, 's) pts_waiter \<Rightarrow> ('u, 's) pts_waiter" where
  "queue_updates pts updates w =
     (let (key, w') = pts_key SkippedUpdates pts w
      in w'\<lparr> pw_updates_queue := qmap_insert key updates (pw_updates_queue w') \<rparr>)"

definition skipped_event ::
    "('u, 's) pts_waiter \<Rightarrow> 64 word \<times> pts_skipped_queue \<Rightarrow> ('u, 's) pts_event" where
  "skipped_event w entry =
     (case entry of
        (k, SkippedUpdate) \<Rightarrow> ApplyUpdate (qmap_value (pw_update_queue w) k)
      | (k, SkippedUpdates) \<Rightarrow> ApplyUpdates (qmap_value (pw_updates_queue w) k))"

definition apply_skipped_updates :: "('u, 's) pts_waiter \<Rightarrow> ('u, 's) pts_waiter" where
  "apply_skipped_updates w =
     (if \<not> pw_waiting_skipped w then w
      else
        let w1 = set_waiting_for_skipped (- 1) w
        in if pw_queue w1 = [] then w1
           else
             let w2 = w1\<lparr> pw_apply_level := pw_apply_level w1 + 1 \<rparr>;
                 w3 = fold (\<lambda>entry w. pw_emit (skipped_event w entry) w) (pw_queue w2) w2;
                 w4 = w3\<lparr> pw_apply_level := pw_apply_level w3 - 1 \<rparr>
             in clear_skipped_updates w4)"

section \<open>Receiving an update\<close>

definition pw_check :: "int \<Rightarrow> int \<Rightarrow> ('u, 's) pts_waiter \<Rightarrow> bool \<times> ('u, 's) pts_waiter" where
  "pw_check pts cnt w =
     (if \<not> pw_inited w then (True, pw_init pts w)
      else
        let w1 = w\<lparr> pw_last := max (pw_last w) pts, pw_count := pw_count w + cnt \<rparr>
        in if pw_last w1 = pw_count w1 then (True, w1\<lparr> pw_good := pw_last w1 \<rparr>)
           else if pw_last w1 < pw_count w1
           then (cnt = 0, set_waiting_for_skipped 1 w1)
           else (cnt = 0, set_waiting_for_skipped kWaitForSkippedTimeout w1))"

definition updated_updates ::
    "int \<Rightarrow> int \<Rightarrow> 's \<Rightarrow> ('u, 's) pts_waiter \<Rightarrow> bool \<times> ('u, 's) pts_waiter" where
  "updated_updates pts cnt updates w =
     (if pw_requesting w \<or> pw_apply_level w \<noteq> 0 then (True, w)
      else if pts \<le> pw_good w \<and> cnt > 0 then (False, w)
      else
        let (ok, w') = pw_check pts cnt w
        in if ok then (True, w') else (False, queue_updates pts updates w'))"

definition updated_update ::
    "int \<Rightarrow> int \<Rightarrow> 'u \<Rightarrow> ('u, 's) pts_waiter \<Rightarrow> bool \<times> ('u, 's) pts_waiter" where
  "updated_update pts cnt update w =
     (if pw_requesting w \<or> pw_apply_level w \<noteq> 0 then (True, w)
      else if pts \<le> pw_good w \<and> cnt > 0 then (False, w)
      else
        let (ok, w') = pw_check pts cnt w
        in if ok then (True, w') else (False, queue_update pts update w'))"

definition updated_plain ::
    "int \<Rightarrow> int \<Rightarrow> ('u, 's) pts_waiter \<Rightarrow> bool \<times> ('u, 's) pts_waiter" where
  "updated_plain pts cnt w =
     (if pw_requesting w \<or> pw_apply_level w \<noteq> 0 then (True, w)
      else if pts \<le> pw_good w \<and> cnt > 0 then (False, w)
      else pw_check pts cnt w)"

definition update_and_apply_updates ::
    "int \<Rightarrow> int \<Rightarrow> 's \<Rightarrow> ('u, 's) pts_waiter \<Rightarrow> bool \<times> ('u, 's) pts_waiter" where
  "update_and_apply_updates pts cnt updates w =
     (let (ok, w') = updated_updates pts cnt updates w
      in if \<not> ok then (False, w')
         else if \<not> pw_waiting_skipped w' \<or> pw_queue w' = []
         then (True, pw_emit (ApplyUpdates (Some updates)) w')
         else (True, apply_skipped_updates (queue_updates pts updates w')))"

definition update_and_apply_update ::
    "int \<Rightarrow> int \<Rightarrow> 'u \<Rightarrow> ('u, 's) pts_waiter \<Rightarrow> bool \<times> ('u, 's) pts_waiter" where
  "update_and_apply_update pts cnt update w =
     (let (ok, w') = updated_update pts cnt update w
      in if \<not> ok then (False, w')
         else if \<not> pw_waiting_skipped w' \<or> pw_queue w' = []
         then (True, pw_emit (ApplyUpdate (Some update)) w')
         else (True, apply_skipped_updates (queue_update pts update w')))"

definition update_and_apply_plain ::
    "int \<Rightarrow> int \<Rightarrow> ('u, 's) pts_waiter \<Rightarrow> bool \<times> ('u, 's) pts_waiter" where
  "update_and_apply_plain pts cnt w =
     (let (ok, w') = updated_plain pts cnt w
      in if \<not> ok then (False, w') else (True, apply_skipped_updates w'))"

section \<open>Keys of the queue\<close>

lemma uint_pts_key_of:
  assumes "0 \<le> pts" "pts < 2 ^ 31"
  shows "uint (pts_key_of pts k) = pts * 2 ^ 32 + uint k"
proof -
  have b: "uint (bare_to_uint64 pts) = pts"
    using assms by (simp add: bare_to_uint64_def uint_up_ucast is_up uint_word_of_int)
  have "push_bit 32 (bare_to_uint64 pts) OR ucast k = push_bit 32 (bare_to_uint64 pts) + ucast k"
  proof (rule disjunctive_add_eq_or [symmetric])
    show "push_bit 32 (bare_to_uint64 pts) AND ucast k = (0::64 word)"
      by (rule bit_word_eqI) (auto simp: bit_simps dest: bit_imp_le_length)
  qed
  moreover have "uint (push_bit 32 (bare_to_uint64 pts)) = pts * 2 ^ 32"
    using assms b by (simp add: uint_word_ariths push_bit_eq_mult)
  moreover have "uint (ucast k :: 64 word) = uint k"
    by (simp add: uint_up_ucast is_up)
  moreover have "uint k < 2 ^ 32" using uint_lt2p [of k] by simp
  ultimately show ?thesis
    using assms by (simp add: pts_key_of_def uint_word_ariths)
qed

lemma pts_key_of_less:
  assumes "0 \<le> p" "p < q" "q < 2 ^ 31"
  shows "pts_key_of p j < pts_key_of q k"
proof -
  have "uint j < 4294967296" using uint_lt2p [of j] by simp
  moreover have "0 \<le> uint k" by simp
  ultimately have "p * 4294967296 + uint j < q * 4294967296 + uint k" using assms(2) by linarith
  then show ?thesis using assms by (simp add: word_less_def uint_pts_key_of)
qed

section \<open>Chains of updates\<close>

text \<open>The updates that lead from one state to another: each starts where the one before ends.\<close>

type_synonym 'u numbered = "int \<times> int \<times> 'u"

fun update_chain :: "int \<Rightarrow> 'u numbered list \<Rightarrow> bool" where
  "update_chain g [] \<longleftrightarrow> True"
| "update_chain g ((pts, cnt, u) # us) \<longleftrightarrow> cnt > 0 \<and> pts = g + cnt \<and> update_chain pts us"

definition chain_end :: "int \<Rightarrow> 'u numbered list \<Rightarrow> int" where
  "chain_end g us = g + sum_list (map (\<lambda>(pts, cnt, u). cnt) us)"

lemma chain_end_simps [simp]:
  "chain_end g [] = g" "chain_end g ((p, c, u) # us) = chain_end (g + c) us"
  by (simp_all add: chain_end_def)

lemma chain_end_append: "chain_end g (as @ bs) = chain_end (chain_end g as) bs"
  by (simp add: chain_end_def)

lemma chain_append:
  "update_chain g (as @ bs) \<longleftrightarrow> update_chain g as \<and> update_chain (chain_end g as) bs"
  by (induction g as rule: update_chain.induct) auto

lemma chain_above: "update_chain g us \<Longrightarrow> (p, c, u) \<in> set us \<Longrightarrow> g < p \<and> 0 < c"
  by (induction g us rule: update_chain.induct) fastforce+

lemma chain_sorted: "update_chain g us \<Longrightarrow> sorted_wrt (\<lambda>a b. fst a < fst b) us"
  by (induction g us rule: update_chain.induct) (auto dest: chain_above)

lemma chain_last: "update_chain g us \<Longrightarrow> us \<noteq> [] \<Longrightarrow> fst (last us) = chain_end g us"
  by (induction g us rule: update_chain.induct) auto

lemma chain_le_end: "update_chain g us \<Longrightarrow> g \<le> chain_end g us"
  by (induction g us rule: update_chain.induct) auto

text \<open>What has come of a chain reaches its last number exactly when nothing is missing below.\<close>

lemma chain_gap:
  "update_chain g us \<Longrightarrow> filter P us \<noteq> [] \<Longrightarrow>
   chain_end g (filter P us) \<le> fst (last (filter P us)) \<and>
   (chain_end g (filter P us) = fst (last (filter P us)) \<longrightarrow>
     (\<exists>n. filter P us = take n us))"
proof (induction g us rule: update_chain.induct)
  case (2 g p c u us)
  show ?case
  proof (cases "P (p, c, u)")
    case True
    show ?thesis
    proof (cases "filter P us = []")
      case empty: True
      have "\<exists>n. filter P ((p, c, u) # us) = take n ((p, c, u) # us)"
        using True empty by (intro exI [of _ 1]) simp
      then show ?thesis using 2(2) True empty by simp
    next
      case False
      have "filter P ((p, c, u) # us) = take (Suc n) ((p, c, u) # us)" if "filter P us = take n us" for n
        using True that by simp
      then have "(\<exists>n. filter P us = take n us) \<longrightarrow>
          (\<exists>n. filter P ((p, c, u) # us) = take n ((p, c, u) # us))" by blast
      moreover have "p = g + c" "update_chain p us" using 2(2) by auto
      ultimately show ?thesis using 2(1) True False by simp
    qed
  next
    case False
    then have Q: "filter P us \<noteq> []" using 2(3) by simp
    have "p = g + c" "update_chain p us" "0 < c" using 2(2) by auto
    then have "chain_end p (filter P us) \<le> fst (last (filter P us))" using 2(1) Q by simp
    moreover have "chain_end g (filter P us) < chain_end p (filter P us)"
      using \<open>p = g + c\<close> \<open>0 < c\<close> by (simp add: chain_end_def)
    ultimately show ?thesis using False by simp
  qed
qed simp

section \<open>The queue of a waiter\<close>

text \<open>Putting an update where its number belongs.\<close>

fun insert_numbered :: "'u numbered \<Rightarrow> 'u numbered list \<Rightarrow> 'u numbered list" where
  "insert_numbered v [] = [v]"
| "insert_numbered v (w # us) = (if fst v < fst w then v # w # us else w # insert_numbered v us)"

lemma insert_numbered_filter:
  "sorted_wrt (\<lambda>a b. fst a < fst b) us \<Longrightarrow> v \<in> set us \<Longrightarrow> v \<notin> S \<Longrightarrow>
   filter (\<lambda>w. w \<in> insert v S) us = insert_numbered v (filter (\<lambda>w. w \<in> S) us)"
proof (induction us)
  case (Cons w us)
  show ?case
  proof (cases "w = v")
    case True
    have "v \<notin> set us" using Cons.prems True by auto
    then have "filter (\<lambda>w. w \<in> insert v S) us = filter (\<lambda>w. w \<in> S) us"
      by (metis (mono_tags, lifting) filter_cong insert_iff)
    moreover have "insert_numbered v (filter (\<lambda>w. w \<in> S) us) = v # filter (\<lambda>w. w \<in> S) us"
    proof (cases "filter (\<lambda>w. w \<in> S) us")
      case (Cons x xs)
      then have "x \<in> set (filter (\<lambda>w. w \<in> S) us)" by simp
      then have "x \<in> set us" by simp
      then show ?thesis using Cons Cons.prems True \<open>sorted_wrt _ (w # us)\<close> by simp
    qed simp
    ultimately show ?thesis using True Cons.prems(3) by simp
  next
    case False
    then have "v \<in> set us" "fst w < fst v" using Cons.prems by auto
    then show ?thesis using Cons False by auto
  qed
qed simp

definition key_of :: "64 word \<times> 'u \<Rightarrow> 'u numbered \<Rightarrow> bool" where
  "key_of e v \<longleftrightarrow> (\<exists>j. fst e = pts_key_of (fst v) j) \<and> snd e = snd (snd v)"

lemma qmap_insert_numbered:
  assumes "list_all2 key_of L Q" "\<forall>w\<in>set Q. 0 \<le> fst w \<and> fst w < 2 ^ 31 \<and> fst w \<noteq> fst v"
    "0 \<le> fst v" "fst v < 2 ^ 31"
  shows "list_all2 key_of (qmap_insert (pts_key_of (fst v) j) (snd (snd v)) L) (insert_numbered v Q)"
  using assms(1,2)
proof (induction L Q rule: list_all2_induct)
  case Nil
  then show ?case by (auto simp: key_of_def)
next
  case (Cons e L w Q)
  obtain k x where e: "e = (k, x)" by (cases e)
  have new: "key_of (pts_key_of (fst v) j, snd (snd v)) v" by (auto simp: key_of_def)
  obtain i where k: "k = pts_key_of (fst w) i" using Cons(1) e by (auto simp: key_of_def)
  show ?case
  proof (cases "fst v < fst w")
    case True
    then have "pts_key_of (fst v) j < k" using k assms(3) Cons.prems pts_key_of_less by simp
    then show ?thesis using True e new Cons by auto
  next
    case False
    then have "fst w < fst v" using Cons.prems by auto
    then have "k < pts_key_of (fst v) j" using k assms(4) Cons.prems pts_key_of_less by simp
    then show ?thesis using False e new Cons by auto
  qed
qed

lemma qmap_insert_map:
  "qmap_insert k (f v) (map (\<lambda>(k, v). (k, f v)) m) = map (\<lambda>(k, v). (k, f v)) (qmap_insert k v m)"
  by (induction k v m rule: qmap_insert.induct) auto

lemma list_all2_left: "list_all2 P xs ys \<Longrightarrow> x \<in> set xs \<Longrightarrow> \<exists>y. y \<in> set ys \<and> P x y"
  by (induction rule: list_all2_induct) auto

lemma key_of_distinct:
  assumes "list_all2 key_of L Q" "sorted_wrt (\<lambda>a b. fst a < fst b) Q"
    "\<forall>w\<in>set Q. 0 \<le> fst w \<and> fst w < 2 ^ 31"
  shows "distinct (map fst L)"
  using assms
proof (induction L Q rule: list_all2_induct)
  case (Cons e L w Q)
  obtain i where k: "fst e = pts_key_of (fst w) i" using Cons(1) by (auto simp: key_of_def)
  have "fst e < fst e'" if "e' \<in> set L" for e'
  proof -
    from list_all2_left [OF Cons(2) that]
    obtain w' where w': "w' \<in> set Q" "key_of e' w'" by (elim exE conjE)
    obtain j where "fst e' = pts_key_of (fst w') j" using w'(2) by (auto simp: key_of_def)
    moreover have "pts_key_of (fst w) i < pts_key_of (fst w') j"
      by (rule pts_key_of_less) (use w'(1) Cons.prems in auto)
    ultimately show ?thesis using k by simp
  qed
  then have "fst e \<notin> fst ` set L" by force
  then show ?case using Cons by simp
qed simp

definition applied :: "('u, 's) pts_waiter \<Rightarrow> ('u, 's) pts_event list" where
  "applied w = filter (\<lambda>e. \<not> (\<exists>ms. e = StartTimer ms)) (pw_log w)"

lemma applied_emit [simp]:
  "applied (pw_emit (StartTimer ms) w) = applied w"
  "applied (pw_emit (ApplyUpdate u) w) = applied w @ [ApplyUpdate u]"
  by (simp_all add: applied_def pw_emit_def)

lemma fold_emit:
  "fold (\<lambda>entry w. pw_emit (skipped_event w entry) w) q w =
     w\<lparr> pw_log := pw_log w @ map (skipped_event w) q \<rparr>"
proof (induction q arbitrary: w)
  case (Cons e q)
  have "skipped_event (w\<lparr> pw_log := l \<rparr>) = skipped_event w" for l
    by (auto simp: skipped_event_def fun_eq_iff split: prod.split pts_skipped_queue.split)
  then show ?case using Cons by (simp add: pw_emit_def)
qed simp
section \<open>Updates that arrive in any order\<close>

text \<open>
  A waiter that has received the updates \<open>S\<close> of the chain \<open>ch\<close>: those of a first part \<open>A\<close> are
  applied, those of the rest \<open>R\<close> are queued, and the queue has a gap.
\<close>

definition waiter_at ::
    "'u numbered list \<Rightarrow> 'u numbered list \<Rightarrow> int \<Rightarrow> ('u, 's) pts_event list \<Rightarrow>
     'u numbered set \<Rightarrow> ('u, 's) pts_waiter \<Rightarrow> bool" where
  "waiter_at A R g done S w \<longleftrightarrow>
     (\<exists>L. let Q = filter (\<lambda>v. v \<in> S) R; good = chain_end g A in
        pw_good w = good \<and> pw_count w = chain_end good Q \<and>
        pw_last w = (if Q = [] then good else fst (last Q)) \<and>
        (Q \<noteq> [] \<longrightarrow> pw_count w \<noteq> pw_last w) \<and>
        pw_queue w = map (\<lambda>(k, u). (k, SkippedUpdate)) L \<and> pw_update_queue w = L \<and>
        list_all2 key_of L Q \<and> (pw_waiting_skipped w \<longleftrightarrow> Q \<noteq> []) \<and>
        \<not> pw_requesting w \<and> pw_apply_level w = 0 \<and>
        applied w = done @ map (\<lambda>(pts, cnt, u). ApplyUpdate (Some u)) A)"

definition waiter_follows ::
    "'u numbered list \<Rightarrow> int \<Rightarrow> ('u, 's) pts_event list \<Rightarrow> 'u numbered set \<Rightarrow>
     ('u, 's) pts_waiter \<Rightarrow> bool" where
  "waiter_follows ch g done S w \<longleftrightarrow>
     (\<exists>A R. ch = A @ R \<and> set A \<subseteq> S \<and> waiter_at A R g done S w)"

lemma chain_below_end: "update_chain g us \<Longrightarrow> (p, c, u) \<in> set us \<Longrightarrow> p \<le> chain_end g us"
  by (induction g us rule: update_chain.induct) (auto dest: chain_le_end)

lemma sorted_fst_inj:
  "sorted_wrt (\<lambda>a b. fst a < (fst b :: int)) xs \<Longrightarrow> x \<in> set xs \<Longrightarrow> y \<in> set xs \<Longrightarrow> fst x = fst y \<Longrightarrow> x = y"
  by (induction xs) auto

lemma last_insert_numbered:
  "sorted_wrt (\<lambda>a b. fst a < fst b) us \<Longrightarrow>
   fst (last (insert_numbered v us)) = (if us = [] then fst v else max (fst (last us)) (fst v))"
proof (induction us)
  case (Cons w us)
  have "fst w \<le> fst (last (w # us))" using Cons.prems last_in_set [of us] by (cases us) auto
  moreover have "insert_numbered v us \<noteq> []" by (cases us) auto
  ultimately show ?case using Cons by auto
qed simp

lemma chain_end_insert: "chain_end g (insert_numbered (p, c, u) us) = chain_end g us + c"
  by (induction us) (auto simp: chain_end_def)

lemma queue_update_fields [simp]:
  "pw_good (queue_update p u w) = pw_good w" "pw_count (queue_update p u w) = pw_count w"
  "pw_last (queue_update p u w) = pw_last w" "pw_requesting (queue_update p u w) = pw_requesting w"
  "pw_apply_level (queue_update p u w) = pw_apply_level w"
  "pw_waiting_skipped (queue_update p u w) = pw_waiting_skipped w"
  "applied (queue_update p u w) = applied w"
  "pw_queue (queue_update p u w) =
     qmap_insert (pts_key_of p (pw_skipped_key w + 1)) SkippedUpdate (pw_queue w)"
  "pw_update_queue (queue_update p u w) =
     qmap_insert (pts_key_of p (pw_skipped_key w + 1)) u (pw_update_queue w)"
  by (simp_all add: queue_update_def pts_key_def Let_def applied_def)

lemma set_waiting_fields [simp]:
  "pw_good (set_waiting_for_skipped ms w) = pw_good w" "pw_count (set_waiting_for_skipped ms w) = pw_count w"
  "pw_last (set_waiting_for_skipped ms w) = pw_last w"
  "pw_requesting (set_waiting_for_skipped ms w) = pw_requesting w"
  "pw_apply_level (set_waiting_for_skipped ms w) = pw_apply_level w"
  "pw_waiting_skipped (set_waiting_for_skipped ms w) \<longleftrightarrow> ms \<ge> 0"
  "applied (set_waiting_for_skipped ms w) = applied w"
  "pw_queue (set_waiting_for_skipped ms w) = pw_queue w"
  "pw_update_queue (set_waiting_for_skipped ms w) = pw_update_queue w"
  by (simp_all add: set_waiting_for_skipped_def check_for_waiting_def pw_emit_def applied_def)

text \<open>Applying the queue applies its updates in order and empties it.\<close>

lemma apply_skipped_run:
  assumes w: "pw_waiting_skipped w" "pw_queue w = map (\<lambda>(k, u). (k, SkippedUpdate)) L"
    "pw_update_queue w = L" "L \<noteq> []" "distinct (map fst L)"
  shows "applied (apply_skipped_updates w) = applied w @ map (\<lambda>(k, u). ApplyUpdate (Some u)) L \<and>
    pw_queue (apply_skipped_updates w) = [] \<and> pw_update_queue (apply_skipped_updates w) = [] \<and>
    pw_good (apply_skipped_updates w) = pw_good w \<and> pw_count (apply_skipped_updates w) = pw_count w \<and>
    pw_last (apply_skipped_updates w) = pw_last w \<and>
    pw_requesting (apply_skipped_updates w) = pw_requesting w \<and>
    pw_apply_level (apply_skipped_updates w) = 0 \<and> \<not> pw_waiting_skipped (apply_skipped_updates w)"
proof -
  let ?w = "set_waiting_for_skipped (- 1) w"
  let ?w' = "?w\<lparr> pw_apply_level := pw_apply_level ?w + 1 \<rparr>"
  have "skipped_event ?w' (k, SkippedUpdate) = ApplyUpdate (Some u)" if "(k, u) \<in> set L" for k u
    using w(3,5) that by (simp add: skipped_event_def qmap_value_def)
  then have "map (skipped_event (?w\<lparr> pw_apply_level := pw_apply_level w + 1 \<rparr>) \<circ>
      (\<lambda>(k, u). (k, SkippedUpdate))) L = map (\<lambda>(k, u). ApplyUpdate (Some u)) L"
    by auto
  moreover have "applied (?w'\<lparr> pw_log := pw_log ?w' @ map (\<lambda>(k, u). ApplyUpdate (Some u)) L \<rparr>) =
      applied w @ map (\<lambda>(k, u). ApplyUpdate (Some u)) L"
    using set_waiting_fields(7) [of "- 1" w] by (auto simp: applied_def filter_map o_def case_prod_beta)
  ultimately show ?thesis
    using w by (simp add: apply_skipped_updates_def Let_def fold_emit clear_skipped_updates_def
        applied_def del: map_eq_conv)
qed

lemma waiter_step:
  assumes ch: "update_chain g ch" "g > 0" "chain_end g ch < 2 ^ 31"
    and w: "waiter_follows ch g done S w" and v: "(p, c, u) \<in> set ch" "(p, c, u) \<notin> S"
  shows "waiter_follows ch g done (insert (p, c, u) S) (snd (update_and_apply_update p c u w))"
proof -
  obtain A R where AR: "ch = A @ R" "set A \<subseteq> S" "waiter_at A R g done S w"
    using w unfolding waiter_follows_def by blast
  let ?good = "chain_end g A"
  let ?Q = "filter (\<lambda>v. v \<in> S) R" and ?Q' = "filter (\<lambda>v. v \<in> insert (p, c, u) S) R"
  obtain L where L: "pw_good w = ?good" "pw_count w = chain_end ?good ?Q"
    "pw_last w = (if ?Q = [] then ?good else fst (last ?Q))" "?Q \<noteq> [] \<longrightarrow> pw_count w \<noteq> pw_last w"
    "pw_queue w = map (\<lambda>(k, u). (k, SkippedUpdate)) L" "pw_update_queue w = L"
    "list_all2 key_of L ?Q" "pw_waiting_skipped w \<longleftrightarrow> ?Q \<noteq> []" "\<not> pw_requesting w"
    "pw_apply_level w = 0" "applied w = done @ map (\<lambda>(pts, cnt, u). ApplyUpdate (Some u)) A"
    using AR(3) unfolding waiter_at_def Let_def by blast
  have R: "update_chain ?good R" "update_chain g A" using ch(1) AR(1) by (simp_all add: chain_append)
  have sorted: "sorted_wrt (\<lambda>a b. fst a < fst b) R" by (rule chain_sorted [OF R(1)])
  have vR: "(p, c, u) \<in> set R" using v AR by auto
  have pc: "?good < p" "c > 0" using chain_above [OF R(1) vR] by auto
  have good: "0 < ?good" using chain_le_end [OF R(2)] ch(2) by simp
  define k where "k = pts_key_of p (pw_skipped_key w + 1)"
  define L' where "L' = qmap_insert k u L"
  define w1 where "w1 = w\<lparr> pw_last := max (pw_last w) p, pw_count := pw_count w + c \<rparr>"
  have Q': "?Q' = insert_numbered (p, c, u) ?Q"
    by (rule insert_numbered_filter [OF sorted vR v(2)])
  have bounds: "0 \<le> fst x \<and> fst x < 2 ^ 31" if "x \<in> set R" for x
  proof -
    obtain a b y where x: "x = (a, b, y)" by (cases x)
    have "?good < a" using chain_above [OF R(1), of a b y] that x by simp
    moreover have "a \<le> chain_end g ch"
      using chain_below_end [OF R(1), of a b y] that x AR(1) by (simp add: chain_end_append)
    ultimately show ?thesis using good ch(3) x by simp
  qed
  have other: "fst x \<noteq> p" if "x \<in> set ?Q" for x
    using sorted_fst_inj [OF sorted, of x "(p, c, u)"] vR that v(2) by auto
  have key: "list_all2 key_of L' ?Q'"
    unfolding Q' L'_def k_def
    using qmap_insert_numbered [OF L(7), of "(p, c, u)"] bounds other vR by fastforce
  have sQ: "sorted_wrt (\<lambda>a b. fst a < fst b) ?Q" "sorted_wrt (\<lambda>a b. fst a < fst b) ?Q'"
    using sorted by (simp_all add: sorted_wrt_filter)
  have ne: "?Q' \<noteq> []" using vR by (auto simp: filter_empty_conv)
  have "pw_last w1 = fst (last ?Q')" unfolding Q' last_insert_numbered [OF sQ(1)]
    using pc(1) L(3) by (simp add: w1_def)
  moreover have "pw_count w1 = chain_end ?good ?Q'"
    unfolding Q' chain_end_insert using L(2) by (simp add: w1_def)
  ultimately have w1: "pw_last w1 = fst (last ?Q')" "pw_count w1 = chain_end ?good ?Q'"
    "pw_queue w1 = map (\<lambda>(k, u). (k, SkippedUpdate)) L" "pw_update_queue w1 = L"
    "\<not> pw_requesting w1" "pw_apply_level w1 = 0" "pw_waiting_skipped w1 \<longleftrightarrow> ?Q \<noteq> []"
    "applied w1 = applied w" "pw_skipped_key w1 = pw_skipped_key w" "pw_good w1 = ?good"
    using L by (simp_all add: w1_def applied_def)
  have upd: "updated_update p c u w =
      (if pw_last w1 = pw_count w1 then (True, w1\<lparr> pw_good := pw_last w1 \<rparr>)
       else (False, queue_update p u
          (set_waiting_for_skipped (if pw_last w1 < pw_count w1 then 1 else kWaitForSkippedTimeout) w1)))"
    using L(1,9,10) pc good
    by (auto simp: updated_update_def pw_check_def pw_inited_def Let_def w1_def)
  have queued: "pw_queue (queue_update p u w') = map (\<lambda>(k, u). (k, SkippedUpdate)) L'"
    "pw_update_queue (queue_update p u w') = L'"
    if "pw_queue w' = pw_queue w1" "pw_update_queue w' = L" "pw_skipped_key w' = pw_skipped_key w" for w'
    using that w1(3) qmap_insert_map [of k "\<lambda>_. SkippedUpdate" u L]
    by (simp_all add: L'_def k_def)
  show ?thesis
  proof (cases "pw_last w1 = pw_count w1")
    case False
    let ?w = "set_waiting_for_skipped (if pw_last w1 < pw_count w1 then 1 else kWaitForSkippedTimeout) w1"
    have "pw_skipped_key ?w = pw_skipped_key w1"
      by (simp add: set_waiting_for_skipped_def check_for_waiting_def pw_emit_def)
    then have "waiter_at A R g done (insert (p, c, u) S) (queue_update p u ?w)"
      unfolding waiter_at_def Let_def
      by (intro exI [of _ L'])
        (use queued [of ?w] w1 L(11) False ne key in \<open>auto simp: kWaitForSkippedTimeout_def\<close>)
    moreover have "snd (update_and_apply_update p c u w) = queue_update p u ?w"
      using upd False by (simp add: update_and_apply_update_def)
    ultimately show ?thesis
      unfolding waiter_follows_def using AR(1,2) by (metis subset_insertI2)
  next
    case True
    then obtain n where n: "?Q' = take n R" using chain_gap [OF R(1) ne] w1(1,2) by auto
    let ?A = "A @ take n R" and ?R = "drop n R"
    have all: "\<forall>x\<in>set (take n R). x \<in> insert (p, c, u) S"
      unfolding n [symmetric] by simp
    have "filter (\<lambda>v. v \<in> insert (p, c, u) S) (take n R) = take n R"
      using all by (simp only: filter_id_conv)
    moreover have "?Q' = filter (\<lambda>v. v \<in> insert (p, c, u) S) (take n R) @
        filter (\<lambda>v. v \<in> insert (p, c, u) S) ?R"
      by (simp only: filter_append [symmetric] append_take_drop_id)
    ultimately have rest: "filter (\<lambda>v. v \<in> insert (p, c, u) S) ?R = []"
      unfolding n by simp
    have sub: "set ?A \<subseteq> insert (p, c, u) S" using AR(2) all by auto
    define w2 where "w2 = w1\<lparr> pw_good := pw_last w1 \<rparr>"
    have w2: "pw_good w2 = chain_end g ?A" "pw_last w2 = chain_end g ?A" "pw_count w2 = chain_end g ?A"
      "pw_queue w2 = pw_queue w1" "pw_update_queue w2 = L" "\<not> pw_requesting w2"
      "pw_apply_level w2 = 0" "pw_waiting_skipped w2 \<longleftrightarrow> ?Q \<noteq> []" "applied w2 = applied w"
      "pw_skipped_key w2 = pw_skipped_key w"
      using w1 True n by (simp_all add: w2_def chain_end_append applied_def)
    have res: "snd (update_and_apply_update p c u w) =
        (if ?Q = [] then pw_emit (ApplyUpdate (Some u)) w2
         else apply_skipped_updates (queue_update p u w2))"
    proof -
      have "pw_queue w2 = [] \<longleftrightarrow> ?Q = []"
        using w1(3) w2(4) L(7) by (auto simp: list_all2_Nil list_all2_Nil2)
      moreover have "updated_update p c u w = (True, w2)" using upd True by (simp add: w2_def)
      ultimately show ?thesis using w2(8) by (simp add: update_and_apply_update_def)
    qed
    have "waiter_at ?A ?R g done (insert (p, c, u) S) (snd (update_and_apply_update p c u w))"
    proof (cases "?Q = []")
      case empty: True
      then have L0: "L = []" using L(7) by simp
      have one: "take n R = [(p, c, u)]" using n Q' empty by simp
      show ?thesis
        unfolding waiter_at_def Let_def rest res
        using w2 w1(3) empty L0 one L(11) by (intro exI [of _ "[]"]) (auto simp: pw_emit_def applied_def)
    next
      case False
      have dist: "distinct (map fst L')" by (rule key_of_distinct [OF key sQ(2)]) (use bounds in auto)
      have "L' \<noteq> []" using key ne by auto
      have w3: "pw_waiting_skipped (queue_update p u w2)" using False w2(8) by simp
      have "map (\<lambda>(k, u). ApplyUpdate (Some u)) L' = map (\<lambda>(pts, cnt, u). ApplyUpdate (Some u)) ?Q'"
        using key by (induction rule: list_all2_induct) (auto simp: key_of_def)
      then show ?thesis
        unfolding waiter_at_def Let_def rest res
        using apply_skipped_run [OF w3 queued(1) queued(2) \<open>L' \<noteq> []\<close> dist] w2 False n L(11)
        by (intro exI [of _ "[]"]) simp
    qed
    then show ?thesis
      unfolding waiter_follows_def using AR(1) sub by (metis append.assoc append_take_drop_id)
  qed
qed

lemma waiter_fold:
  assumes ch: "update_chain g ch" "g > 0" "chain_end g ch < 2 ^ 31"
  shows "waiter_follows ch g done S w \<Longrightarrow> set us \<subseteq> set ch \<Longrightarrow> distinct us \<Longrightarrow> set us \<inter> S = {} \<Longrightarrow>
    waiter_follows ch g done (set us \<union> S)
      (fold (\<lambda>(p, c, u) w. snd (update_and_apply_update p c u w)) us w)"
proof (induction us arbitrary: S w)
  case (Cons v us)
  obtain p c u where v: "v = (p, c, u)" by (cases v)
  have "waiter_follows ch g done (insert v S) (snd (update_and_apply_update p c u w))"
    unfolding v by (rule waiter_step [OF ch Cons.prems(1)]) (use Cons.prems v in auto)
  from Cons.IH [OF this] Cons.prems v show ?case by simp
qed simp

section \<open>Properties\<close>

definition waiter_idle :: "int \<Rightarrow> ('u, 's) pts_waiter \<Rightarrow> bool" where
  "waiter_idle g w \<longleftrightarrow>
     pw_good w = g \<and> pw_last w = g \<and> pw_count w = g \<and> pw_queue w = [] \<and> pw_update_queue w = [] \<and>
     \<not> pw_waiting_skipped w \<and> \<not> pw_requesting w \<and> pw_apply_level w = 0"

text \<open>C2. Updates are applied in order and once, however they arrive: when some of a chain of
  updates arrive in any order, those that have been applied are a first part of the chain, in
  its order, the state is the end of that part, and the timer for the gap runs while anything is
  queued; when all have arrived, all are applied and nothing is queued.\<close>

theorem pts_updates_in_order:
  assumes "update_chain g ch" "g > 0" "chain_end g ch < 2 ^ 31" "waiter_idle g w"
    "set us \<subseteq> set ch" "distinct us"
    "w' = fold (\<lambda>(p, c, u) w. snd (update_and_apply_update p c u w)) us w"
  shows "\<exists>A R. ch = A @ R \<and> set A \<subseteq> set us \<and> pw_good w' = chain_end g A \<and>
    applied w' = applied w @ map (\<lambda>(pts, cnt, u). ApplyUpdate (Some u)) A \<and>
    (pw_queue w' \<noteq> [] \<longrightarrow> pw_waiting_skipped w') \<and>
    (set us = set ch \<longrightarrow> R = [] \<and> pw_queue w' = [])"
proof -
  have "waiter_at [] ch g (applied w) {} w"
    using assms(4) by (simp add: waiter_at_def waiter_idle_def)
  then have "waiter_follows ch g (applied w) {} w"
    unfolding waiter_follows_def by (metis append_Nil empty_subsetI set_empty)
  from waiter_fold [OF assms(1-3) this assms(5,6)]
  have "waiter_follows ch g (applied w) (set us) w'" using assms(7) by simp
  then obtain A R where AR: "ch = A @ R" "set A \<subseteq> set us" "waiter_at A R g (applied w) (set us) w'"
    unfolding waiter_follows_def by blast
  have "update_chain (chain_end g A) R" using assms(1) AR(1) by (simp add: chain_append)
  moreover have "filter (\<lambda>v. v \<in> set us) R = R" if "set us = set ch"
    using that AR(1) by (auto simp: filter_id_conv)
  ultimately have "R = []" if "set us = set ch"
    using AR(3) chain_last that by (fastforce simp: waiter_at_def Let_def)
  then show ?thesis
    using AR by (intro exI [of _ A] exI [of _ R]) (auto simp: waiter_at_def Let_def)
qed

definition idle_waiter :: "int \<Rightarrow> (string, string) pts_waiter" where
  "idle_waiter g = pw_init g (new_pts_waiter True)"

lemma idle_waiter_idle: "waiter_idle g (idle_waiter g)" "applied (idle_waiter g) = []"
  by (simp_all add: idle_waiter_def waiter_idle_def pw_init_def new_pts_waiter_def
      clear_skipped_updates_def applied_def)

theorem pts_updates_in_order_witness:
  "applied (fold (\<lambda>(p, c, u) w. snd (update_and_apply_update p c u w))
      [(13, 2, ''b''), (14, 1, ''c''), (11, 1, ''a'')] (idle_waiter 10)) =
    [ApplyUpdate (Some ''a''), ApplyUpdate (Some ''b''), ApplyUpdate (Some ''c'')]"
proof -
  let ?ch = "[(11, 1, ''a''), (13, 2, ''b''), (14, 1, ''c'')] :: string numbered list"
  have "\<exists>A R. ?ch = A @ R \<and> R = [] \<and>
      applied (fold (\<lambda>(p, c, u) w. snd (update_and_apply_update p c u w))
        [(13, 2, ''b''), (14, 1, ''c''), (11, 1, ''a'')] (idle_waiter 10)) =
      map (\<lambda>(pts, cnt, u). ApplyUpdate (Some u)) A"
    using pts_updates_in_order [of 10 ?ch "idle_waiter 10" "[(13, 2, ''b''), (14, 1, ''c''), (11, 1, ''a'')]",
        OF _ _ _ idle_waiter_idle(1) _ _ refl]
    by (force simp: idle_waiter_idle)
  then show ?thesis by auto
qed

text \<open>
  What is left of a gap: from \<open>w\<close>, whose queue with the new update is that of \<open>w'\<close>, to \<open>w2\<close> the
  whole queue has been applied in the order of its keys, the queues are empty, the timer of
  the gap is stopped and not started again, and the state stays where it was.
\<close>

definition gap_forgotten ::
    "int \<Rightarrow> ('u, 's) pts_waiter \<Rightarrow> ('u, 's) pts_waiter \<Rightarrow> ('u, 's) pts_waiter \<Rightarrow> bool" where
  "gap_forgotten pts w w' w2 \<longleftrightarrow>
     pw_log w2 = pw_log w @
       (if pw_has_main w
        then [StartTimer (if max (pw_last w) pts < pw_count w then 1 else kWaitForSkippedTimeout)]
        else []) @
       (if pw_has_main w \<and> \<not> pw_waiting_short_poll w then [StartTimer (- 1)] else []) @
       map (skipped_event w') (pw_queue w') \<and>
     pw_queue w2 = [] \<and> pw_update_queue w2 = [] \<and> pw_updates_queue w2 = [] \<and>
     \<not> pw_waiting_skipped w2 \<and> pw_good w2 = pw_good w \<and>
     pw_last w2 = max (pw_last w) pts \<and> pw_count w2 = pw_count w"

lemma skipped_event_cong:
  "pw_update_queue v = pw_update_queue w \<Longrightarrow> pw_updates_queue v = pw_updates_queue w \<Longrightarrow>
   skipped_event v = skipped_event w"
  by (auto simp: skipped_event_def fun_eq_iff split: prod.split pts_skipped_queue.split)

text \<open>Applying the queue of any waiter that waits for a gap.\<close>

lemma apply_skipped_any:
  assumes "pw_waiting_skipped w" "pw_queue w \<noteq> []"
  shows "pw_log (apply_skipped_updates w) = pw_log w @
      (if pw_has_main w \<and> \<not> pw_waiting_short_poll w then [StartTimer (- 1)] else []) @
      map (skipped_event w) (pw_queue w) \<and>
    pw_queue (apply_skipped_updates w) = [] \<and> pw_update_queue (apply_skipped_updates w) = [] \<and>
    pw_updates_queue (apply_skipped_updates w) = [] \<and> \<not> pw_waiting_skipped (apply_skipped_updates w) \<and>
    pw_good (apply_skipped_updates w) = pw_good w \<and> pw_last (apply_skipped_updates w) = pw_last w \<and>
    pw_count (apply_skipped_updates w) = pw_count w"
proof -
  define w1 where "w1 = set_waiting_for_skipped (- 1) w"
  define w2 where "w2 = w1\<lparr> pw_apply_level := pw_apply_level w1 + 1 \<rparr>"
  have w2: "pw_queue w2 = pw_queue w" "skipped_event w2 = skipped_event w"
    "pw_log w2 = pw_log w @ (if pw_has_main w \<and> \<not> pw_waiting_short_poll w then [StartTimer (- 1)] else [])"
    "\<not> pw_waiting_skipped w2" "pw_good w2 = pw_good w" "pw_last w2 = pw_last w" "pw_count w2 = pw_count w"
    by (auto simp: w2_def w1_def set_waiting_for_skipped_def check_for_waiting_def pw_emit_def
        intro!: skipped_event_cong)
  have "pw_queue w1 \<noteq> []"
    using assms(2) by (simp add: w1_def set_waiting_for_skipped_def check_for_waiting_def pw_emit_def)
  then have "apply_skipped_updates w = clear_skipped_updates
      (w2\<lparr> pw_log := pw_log w2 @ map (skipped_event w2) (pw_queue w2),
          pw_apply_level := pw_apply_level w2 - 1 \<rparr>)"
    using assms(1) by (simp add: apply_skipped_updates_def fold_emit Let_def w1_def [symmetric] w2_def [symmetric])
  then show ?thesis using w2 by (simp add: clear_skipped_updates_def)
qed

lemma qmap_insert_not_Nil [simp]: "qmap_insert k v m \<noteq> []"
  by (cases "(k, v, m)" rule: qmap_insert.cases) auto

text \<open>An update without a count passes the check of an open gap.\<close>

lemma pw_check_zero:
  assumes "pw_inited w" "max (pw_last w) pts \<noteq> pw_count w"
  shows "pw_check pts 0 w = (True, set_waiting_for_skipped
    (if max (pw_last w) pts < pw_count w then 1 else kWaitForSkippedTimeout)
    (w\<lparr> pw_last := max (pw_last w) pts \<rparr>))"
  using assms by (auto simp: pw_check_def Let_def)

lemma zero_count_state:
  fixes w :: "('u, 's) pts_waiter" and pts :: int
  defines "t \<equiv> (if max (pw_last w) pts < pw_count w then 1 else kWaitForSkippedTimeout)"
  defines "w1 \<equiv> set_waiting_for_skipped t (w\<lparr> pw_last := max (pw_last w) pts \<rparr>)"
  shows "pw_log w1 = pw_log w @ (if pw_has_main w then [StartTimer t] else [])"
    "pw_queue w1 = pw_queue w" "pw_update_queue w1 = pw_update_queue w"
    "pw_updates_queue w1 = pw_updates_queue w" "pw_waiting_skipped w1" "pw_good w1 = pw_good w"
    "pw_last w1 = max (pw_last w) pts" "pw_count w1 = pw_count w" "pw_has_main w1 = pw_has_main w"
    "pw_waiting_short_poll w1 = pw_waiting_short_poll w" "pw_skipped_key w1 = pw_skipped_key w"
  by (auto simp: w1_def t_def set_waiting_for_skipped_def pw_emit_def kWaitForSkippedTimeout_def)

lemma zero_count_forgets:
  fixes w :: "('u, 's) pts_waiter"
  assumes w: "pw_inited w" "\<not> pw_requesting w" "pw_apply_level w = 0" "pw_queue w \<noteq> []"
    and gap: "max (pw_last w) pts \<noteq> pw_count w"
  shows "gap_forgotten pts w (queue_update pts u w) (snd (update_and_apply_update pts 0 u w))"
    and "gap_forgotten pts w (queue_updates pts us w) (snd (update_and_apply_updates pts 0 us w))"
    and "gap_forgotten pts w w (snd (update_and_apply_plain pts 0 w))"
proof -
  define t where "t = (if max (pw_last w) pts < pw_count w then 1 else kWaitForSkippedTimeout)"
  define w1 where "w1 = set_waiting_for_skipped t (w\<lparr> pw_last := max (pw_last w) pts \<rparr>)"
  note check = pw_check_zero [OF w(1) gap, folded t_def, folded w1_def]
  note s = zero_count_state [where w = w and pts = pts, folded t_def, folded w1_def]
  have q: "pw_queue (queue_update pts u w1) = pw_queue (queue_update pts u w)"
    "skipped_event (queue_update pts u w1) = skipped_event (queue_update pts u w)"
    "pw_queue (queue_updates pts us w1) = pw_queue (queue_updates pts us w)"
    "skipped_event (queue_updates pts us w1) = skipped_event (queue_updates pts us w)"
    "skipped_event w1 = skipped_event w"
    using s by (auto simp: queue_update_def queue_updates_def pts_key_def Let_def intro!: skipped_event_cong)
  have ne: "pw_queue (queue_update pts u w1) \<noteq> []" "pw_queue (queue_updates pts us w1) \<noteq> []"
    "pw_waiting_skipped (queue_update pts u w1)" "pw_waiting_skipped (queue_updates pts us w1)"
    using s by (simp_all add: queue_update_def queue_updates_def pts_key_def Let_def)
  have "snd (update_and_apply_update pts 0 u w) = apply_skipped_updates (queue_update pts u w1)"
    "snd (update_and_apply_updates pts 0 us w) = apply_skipped_updates (queue_updates pts us w1)"
    "snd (update_and_apply_plain pts 0 w) = apply_skipped_updates w1"
    using w check s by (simp_all add: update_and_apply_update_def updated_update_def
        update_and_apply_updates_def updated_updates_def update_and_apply_plain_def updated_plain_def)
  then show "gap_forgotten pts w (queue_update pts u w) (snd (update_and_apply_update pts 0 u w))"
    "gap_forgotten pts w (queue_updates pts us w) (snd (update_and_apply_updates pts 0 us w))"
    "gap_forgotten pts w w (snd (update_and_apply_plain pts 0 w))"
    using apply_skipped_any [OF ne(3,1)] apply_skipped_any [OF ne(4,2)] apply_skipped_any [OF s(5)] w(4) s q
    by (simp_all add: gap_forgotten_def t_def queue_update_def [where w = w1]
        queue_updates_def [where w = w1] pts_key_def [where w = w1] Let_def)
qed

text \<open>C31. An update that counts nothing forgets a gap. Let a waiter that is neither requesting nor
  applying have anything in its queue, and let there be a gap, with the update taken into
  account: the largest number it has seen is not its count. Then an update with count zero, in
  each of the three forms in which it can come, is applied with the whole queue in the order of
  the keys, the queue is emptied, the timer is stopped and the state stays behind the gap, so
  nothing asks for the missing updates.\<close>

theorem pts_zero_count_forgets_gap:
  assumes "pw_inited w" "\<not> pw_requesting w" "pw_apply_level w = 0" "pw_queue w \<noteq> []"
    "max (pw_last w) pts \<noteq> pw_count w"
  shows "gap_forgotten pts w (queue_update pts u w) (snd (update_and_apply_update pts 0 u w)) \<and>
    gap_forgotten pts w (queue_updates pts us w) (snd (update_and_apply_updates pts 0 us w)) \<and>
    gap_forgotten pts w w (snd (update_and_apply_plain pts 0 w))"
  using zero_count_forgets [OF assms] by blast

text \<open>Update 13 has come to a waiter at 10 and waits for 11 and 12 in the queue; an update at 12
  with count zero applies both.\<close>

theorem pts_zero_count_forgets_gap_witness:
  "let w1 = snd (update_and_apply_update 13 1 ''u'' (idle_waiter 10));
       w2 = snd (update_and_apply_update 12 0 ''v'' w1)
   in pw_log w1 = [StartTimer 1000] \<and>
      pw_log w2 = [StartTimer 1000, StartTimer 1000, StartTimer (- 1),
        ApplyUpdate (Some ''v''), ApplyUpdate (Some ''u'')] \<and>
      pw_good w2 = 10 \<and> pw_last w2 = 13 \<and> pw_queue w2 = []"
proof -
  have k: "pts_key_of 12 2 < pts_key_of 13 1" by (rule pts_key_of_less) simp_all
  let ?w1 = "snd (update_and_apply_update 13 1 ''u'' (idle_waiter 10))"
  have w1: "?w1 = (idle_waiter 10)\<lparr> pw_last := 13, pw_count := 11, pw_skipped_key := 1,
      pw_queue := [(pts_key_of 13 1, SkippedUpdate)], pw_update_queue := [(pts_key_of 13 1, ''u'')],
      pw_waiting_skipped := True, pw_log := [StartTimer 1000] \<rparr>"
    by (simp add: update_and_apply_update_def updated_update_def pw_check_def pw_inited_def
        idle_waiter_def pw_init_def new_pts_waiter_def clear_skipped_updates_def
        set_waiting_for_skipped_def pw_emit_def kWaitForSkippedTimeout_def
        queue_update_def pts_key_def Let_def)
  have "gap_forgotten 12 ?w1 (queue_update 12 ''v'' ?w1) (snd (update_and_apply_update 12 0 ''v'' ?w1))"
    by (rule conjunct1 [OF pts_zero_count_forgets_gap]; unfold w1)
      (simp_all add: pw_inited_def idle_waiter_def pw_init_def new_pts_waiter_def clear_skipped_updates_def)
  then show ?thesis
    using k less_not_sym [OF k] unfolding Let_def w1
    by (simp add: Let_def gap_forgotten_def queue_update_def pts_key_def skipped_event_def qmap_value_def
        kWaitForSkippedTimeout_def idle_waiter_def pw_init_def new_pts_waiter_def clear_skipped_updates_def)
qed

end
