(* ===== verification/Plural_Rules.thy ===== *)
theory Plural_Rules
  imports Prelude "HOL-Library.Signed_Division" Complex_Main
begin

text \<open>
  lang/lang\_tag.cpp, the plural rules: one function per group of languages, from the operands of
  a number to the shift of the plural form in the language pack, and the chart of rules the
  file cites, in the syntax of that chart. C++ takes the remainder towards zero, so the
  remainder of \<open>n = - 1\<close>, the value that stands for a number that is not integer, is negative
  (\<open>smod\<close>).
\<close>

section \<open>The functions\<close>

definition kShiftZero :: nat where
  "kShiftZero = 0"

definition kShiftOne :: nat where
  "kShiftOne = 1"

definition kShiftTwo :: nat where
  "kShiftTwo = 2"

definition kShiftFew :: nat where
  "kShiftFew = 3"

definition kShiftMany :: nat where
  "kShiftMany = 4"

definition kShiftOther :: nat where
  "kShiftOther = 5"

lemmas shift_defs = kShiftZero_def kShiftOne_def kShiftTwo_def kShiftFew_def kShiftMany_def
  kShiftOther_def

type_synonym plural_function = "int \<Rightarrow> int \<Rightarrow> int \<Rightarrow> int \<Rightarrow> int \<Rightarrow> int \<Rightarrow> nat"

definition ChoosePlural1 :: plural_function where
  "ChoosePlural1 n i v w f t = kShiftOther"

definition ChoosePlural2fil :: plural_function where
  "ChoosePlural2fil n i v w f t =
     (if v = 0 then
        let mod10 = i smod 10
        in if i = 1 \<or> i = 2 \<or> i = 3 then kShiftOne
           else if mod10 \<noteq> 4 \<and> mod10 \<noteq> 6 \<and> mod10 \<noteq> 9 then kShiftOne
           else kShiftOther
      else
        let mod10 = f smod 10
        in if mod10 \<noteq> 4 \<and> mod10 \<noteq> 6 \<and> mod10 \<noteq> 9 then kShiftOne else kShiftOther)"

definition ChoosePlural2tzm :: plural_function where
  "ChoosePlural2tzm n i v w f t =
     (if n = 0 \<or> n = 1 then kShiftOne
      else if n \<ge> 11 \<and> n \<le> 99 then kShiftOne
      else kShiftOther)"

definition ChoosePlural2is :: plural_function where
  "ChoosePlural2is n i v w f t =
     (if t = 0 then
        let mod10 = i smod 10; mod100 = i smod 100
        in if mod10 = 1 \<and> mod100 \<noteq> 11 then kShiftOne else kShiftOther
      else kShiftOne)"

definition ChoosePlural2mk :: plural_function where
  "ChoosePlural2mk n i v w f t =
     (if v = 0 \<and> (let mod10 = i smod 10; mod100 = i smod 100 in mod10 = 1 \<and> mod100 \<noteq> 11)
      then kShiftOne
      else
        let mod10 = f smod 10; mod100 = f smod 100
        in if mod10 = 1 \<and> mod100 \<noteq> 11 then kShiftOne else kShiftOther)"

definition ChoosePlural2ak :: plural_function where
  "ChoosePlural2ak n i v w f t = (if n = 0 \<or> n = 1 then kShiftOne else kShiftOther)"

definition ChoosePlural2am :: plural_function where
  "ChoosePlural2am n i v w f t = (if i = 0 \<or> n = 1 then kShiftOne else kShiftOther)"

definition ChoosePlural2hy :: plural_function where
  "ChoosePlural2hy n i v w f t = (if i = 0 \<or> i = 1 then kShiftOne else kShiftOther)"

definition ChoosePlural2si :: plural_function where
  "ChoosePlural2si n i v w f t =
     (if n = 0 \<or> n = 1 then kShiftOne
      else if i = 0 \<and> f = 1 then kShiftOne
      else kShiftOther)"

definition ChoosePlural2bh :: plural_function where
  "ChoosePlural2bh n i v w f t = (if n = 0 \<or> n = 1 then kShiftOne else kShiftOther)"

definition ChoosePlural2af :: plural_function where
  "ChoosePlural2af n i v w f t = (if n = 1 then kShiftOne else kShiftOther)"

definition ChoosePlural2ast :: plural_function where
  "ChoosePlural2ast n i v w f t = (if i = 1 \<and> v = 0 then kShiftOne else kShiftOther)"

definition ChoosePlural2da :: plural_function where
  "ChoosePlural2da n i v w f t =
     (if n = 1 then kShiftOne
      else if t \<noteq> 0 \<and> (i = 0 \<or> i = 1) then kShiftOne
      else kShiftOther)"

definition ChoosePlural3lv :: plural_function where
  "ChoosePlural3lv n i v w f t =
     (let nmod10 = n smod 10; nmod100 = n smod 100; fmod10 = f smod 10; fmod100 = f smod 100
      in if nmod10 = 0 then kShiftZero
         else if nmod100 \<ge> 11 \<and> nmod100 \<le> 19 then kShiftZero
         else if v = 2 \<and> fmod100 \<ge> 11 \<and> fmod100 \<le> 19 then kShiftZero
         else if nmod10 = 1 \<and> nmod100 \<noteq> 11 then kShiftOne
         else if v = 2 \<and> fmod10 = 1 \<and> fmod100 \<noteq> 11 then kShiftOne
         else if v \<noteq> 2 \<and> fmod10 = 1 then kShiftOne
         else kShiftOther)"

definition ChoosePlural3ksh :: plural_function where
  "ChoosePlural3ksh n i v w f t =
     (if n = 0 then kShiftZero else if n = 1 then kShiftOne else kShiftOther)"

definition ChoosePlural3lag :: plural_function where
  "ChoosePlural3lag n i v w f t =
     (if n = 0 then kShiftZero
      else if n \<noteq> 0 \<and> (i = 0 \<or> i = 1) then kShiftOne
      else kShiftOther)"

definition ChoosePlural3kw :: plural_function where
  "ChoosePlural3kw n i v w f t =
     (if n = 1 then kShiftOne else if n = 2 then kShiftTwo else kShiftOther)"

definition ChoosePlural3bs :: plural_function where
  "ChoosePlural3bs n i v w f t =
     (if v = 0 then
        let mod10 = i smod 10; mod100 = i smod 100
        in if mod10 \<ge> 2 \<and> mod10 \<le> 4 \<and> (mod100 < 12 \<or> mod100 > 14) then kShiftFew
           else if mod10 = 1 \<and> mod100 \<noteq> 11 then kShiftOne
           else kShiftOther
      else
        let mod10 = f smod 10; mod100 = f smod 100
        in if mod10 \<ge> 2 \<and> mod10 \<le> 4 \<and> (mod100 < 12 \<or> mod100 > 14) then kShiftFew
           else if mod10 = 1 \<and> mod100 \<noteq> 11 then kShiftOne
           else kShiftOther)"

definition ChoosePlural3shi :: plural_function where
  "ChoosePlural3shi n i v w f t =
     (if i = 0 \<or> n = 1 then kShiftOne
      else if n \<ge> 2 \<and> n \<le> 10 then kShiftFew
      else kShiftOther)"

definition ChoosePlural3mo :: plural_function where
  "ChoosePlural3mo n i v w f t =
     (if v = 0 then
        let mod100 = n smod 100
        in if i = 1 then kShiftOne
           else if n = 0 then kShiftFew
           else if n \<noteq> 1 \<and> mod100 \<ge> 1 \<and> mod100 \<le> 19 then kShiftFew
           else kShiftOther
      else kShiftFew)"

definition ChoosePlural4be :: plural_function where
  "ChoosePlural4be n i v w f t =
     (let mod10 = n smod 10; mod100 = n smod 100
      in if mod10 \<ge> 2 \<and> mod10 \<le> 4 \<and> (mod100 < 12 \<or> mod100 > 14) then kShiftFew
         else if mod10 = 1 \<and> mod100 \<noteq> 11 then kShiftOne
         else if mod10 = 0 then kShiftMany
         else if mod10 \<ge> 5 \<and> mod10 \<le> 9 then kShiftMany
         else if mod100 \<ge> 11 \<and> mod100 \<le> 14 then kShiftMany
         else kShiftOther)"

definition ChoosePlural4ru :: plural_function where
  "ChoosePlural4ru n i v w f t =
     (if v = 0 then
        let mod10 = i smod 10; mod100 = i smod 100
        in if mod10 \<ge> 2 \<and> mod10 \<le> 4 \<and> (mod100 < 12 \<or> mod100 > 14) then kShiftFew
           else if mod10 = 1 \<and> mod100 \<noteq> 11 then kShiftOne
           else kShiftMany
      else kShiftOther)"

definition ChoosePlural4pl :: plural_function where
  "ChoosePlural4pl n i v w f t =
     (if v = 0 then
        if i = 1 then kShiftOne
        else
          let mod10 = i smod 10; mod100 = i smod 100
          in if mod10 \<ge> 2 \<and> mod10 \<le> 4 \<and> (mod100 < 12 \<or> mod100 > 14) then kShiftFew
             else kShiftMany
      else kShiftOther)"

definition ChoosePlural4lt :: plural_function where
  "ChoosePlural4lt n i v w f t =
     (let mod10 = n smod 10; mod100 = n smod 100
      in if mod10 \<ge> 2 \<and> mod10 \<le> 9 \<and> (mod100 < 11 \<or> mod100 > 19) then kShiftFew
         else if mod10 = 1 \<and> mod100 \<noteq> 11 then kShiftOne
         else if f \<noteq> 0 then kShiftMany
         else kShiftOther)"

definition ChoosePlural4cs :: plural_function where
  "ChoosePlural4cs n i v w f t =
     (if v = 0 then
        if i = 1 then kShiftOne
        else if i \<ge> 2 \<and> i \<le> 4 then kShiftFew
        else kShiftOther
      else kShiftMany)"

definition ChoosePlural4gd :: plural_function where
  "ChoosePlural4gd n i v w f t =
     (if n = 1 \<or> n = 11 then kShiftOne
      else if n = 2 \<or> n = 12 then kShiftTwo
      else if n \<ge> 3 \<and> n \<le> 10 then kShiftFew
      else if n \<ge> 13 \<and> n \<le> 19 then kShiftFew
      else kShiftOther)"

definition ChoosePlural4dsb :: plural_function where
  "ChoosePlural4dsb n i v w f t =
     (let fraction =
            (let fmod100 = f smod 100
             in if fmod100 = 1 then kShiftOne
                else if fmod100 = 2 then kShiftTwo
                else if fmod100 = 3 \<or> fmod100 = 4 then kShiftFew
                else kShiftOther)
      in if v = 0 then
           let imod100 = i smod 100
           in if imod100 = 1 then kShiftOne
              else if imod100 = 2 then kShiftTwo
              else if imod100 = 3 \<or> imod100 = 4 then kShiftFew
              else fraction
         else fraction)"

definition ChoosePlural4sl :: plural_function where
  "ChoosePlural4sl n i v w f t =
     (if v = 0 then
        let imod100 = i smod 100
        in if imod100 = 3 \<or> imod100 = 4 then kShiftFew
           else if imod100 = 1 then kShiftOne
           else if imod100 = 2 then kShiftTwo
           else kShiftOther
      else kShiftFew)"

definition ChoosePlural4he :: plural_function where
  "ChoosePlural4he n i v w f t =
     (if v = 0 then
        if i = 1 then kShiftOne
        else if i = 2 then kShiftTwo
        else if n \<noteq> 0 \<and> n \<noteq> 10 \<and> n smod 10 = 0 then kShiftMany
        else kShiftOther
      else kShiftOther)"

definition ChoosePlural4mt :: plural_function where
  "ChoosePlural4mt n i v w f t =
     (let mod100 = n smod 100
      in if n = 1 then kShiftOne
         else if n = 0 then kShiftFew
         else if mod100 \<ge> 2 \<and> mod100 \<le> 10 then kShiftFew
         else if mod100 \<ge> 11 \<and> mod100 \<le> 19 then kShiftMany
         else kShiftOther)"

definition ChoosePlural5gv :: plural_function where
  "ChoosePlural5gv n i v w f t =
     (if v = 0 then
        let mod10 = i smod 10; mod20 = i smod 20
        in if mod10 = 1 then kShiftOne
           else if mod10 = 2 then kShiftTwo
           else if mod20 = 0 then kShiftFew
           else kShiftOther
      else kShiftMany)"

definition ChoosePlural5br :: plural_function where
  "ChoosePlural5br n i v w f t =
     (let mod10 = n smod 10; mod100 = n smod 100
      in if mod10 = 1 \<and> mod100 \<noteq> 11 \<and> mod100 \<noteq> 71 \<and> mod100 \<noteq> 91 then kShiftOne
         else if mod10 = 2 \<and> mod100 \<noteq> 12 \<and> mod100 \<noteq> 72 \<and> mod100 \<noteq> 92 then kShiftTwo
         else if (mod10 = 3 \<or> mod10 = 4 \<or> mod10 = 9)
             \<and> (mod100 < 10 \<or> mod100 > 19)
             \<and> (mod100 < 70 \<or> mod100 > 79)
             \<and> (mod100 < 90 \<or> mod100 > 99) then kShiftFew
         else if n \<noteq> 0 \<and> n smod 1000000 = 0 then kShiftMany
         else kShiftOther)"

definition ChoosePlural5ga :: plural_function where
  "ChoosePlural5ga n i v w f t =
     (if n = 1 then kShiftOne
      else if n = 2 then kShiftTwo
      else if n \<ge> 3 \<and> n \<le> 6 then kShiftFew
      else if n \<ge> 7 \<and> n \<le> 10 then kShiftMany
      else kShiftOther)"

definition ChoosePlural6ar :: plural_function where
  "ChoosePlural6ar n i v w f t =
     (if n = 0 then kShiftZero
      else if n = 1 then kShiftOne
      else if n = 2 then kShiftTwo
      else if n < 0 then kShiftOther
      else
        let mod100 = n smod 100
        in if mod100 \<ge> 3 \<and> mod100 \<le> 10 then kShiftFew
           else if mod100 \<ge> 11 \<and> mod100 \<le> 99 then kShiftMany
           else kShiftOther)"

definition ChoosePlural6cy :: plural_function where
  "ChoosePlural6cy n i v w f t =
     (if n = 0 then kShiftZero
      else if n = 1 then kShiftOne
      else if n = 2 then kShiftTwo
      else if n = 3 then kShiftFew
      else if n = 6 then kShiftMany
      else kShiftOther)"

text \<open>
  A pointer to one of the functions: \<open>ChoosePluralMethod\<close>, compared by identity in
  \<open>Lang::Plural\<close>.
\<close>

datatype plural_method =
    Method1 | Method2fil | Method2tzm | Method2is | Method2mk | Method2ak | Method2am | Method2hy
  | Method2si | Method2bh | Method2af | Method2ast | Method2da | Method3lv | Method3ksh
  | Method3lag | Method3kw | Method3bs | Method3shi | Method3mo | Method4be | Method4ru
  | Method4pl | Method4lt | Method4cs | Method4gd | Method4dsb | Method4sl | Method4he
  | Method4mt | Method5gv | Method5br | Method5ga | Method6ar | Method6cy

primrec call_method :: "plural_method \<Rightarrow> plural_function" where
  "call_method Method1 = ChoosePlural1"
| "call_method Method2fil = ChoosePlural2fil"
| "call_method Method2tzm = ChoosePlural2tzm"
| "call_method Method2is = ChoosePlural2is"
| "call_method Method2mk = ChoosePlural2mk"
| "call_method Method2ak = ChoosePlural2ak"
| "call_method Method2am = ChoosePlural2am"
| "call_method Method2hy = ChoosePlural2hy"
| "call_method Method2si = ChoosePlural2si"
| "call_method Method2bh = ChoosePlural2bh"
| "call_method Method2af = ChoosePlural2af"
| "call_method Method2ast = ChoosePlural2ast"
| "call_method Method2da = ChoosePlural2da"
| "call_method Method3lv = ChoosePlural3lv"
| "call_method Method3ksh = ChoosePlural3ksh"
| "call_method Method3lag = ChoosePlural3lag"
| "call_method Method3kw = ChoosePlural3kw"
| "call_method Method3bs = ChoosePlural3bs"
| "call_method Method3shi = ChoosePlural3shi"
| "call_method Method3mo = ChoosePlural3mo"
| "call_method Method4be = ChoosePlural4be"
| "call_method Method4ru = ChoosePlural4ru"
| "call_method Method4pl = ChoosePlural4pl"
| "call_method Method4lt = ChoosePlural4lt"
| "call_method Method4cs = ChoosePlural4cs"
| "call_method Method4gd = ChoosePlural4gd"
| "call_method Method4dsb = ChoosePlural4dsb"
| "call_method Method4sl = ChoosePlural4sl"
| "call_method Method4he = ChoosePlural4he"
| "call_method Method4mt = ChoosePlural4mt"
| "call_method Method5gv = ChoosePlural5gv"
| "call_method Method5br = ChoosePlural5br"
| "call_method Method5ga = ChoosePlural5ga"
| "call_method Method6ar = ChoosePlural6ar"
| "call_method Method6cy = ChoosePlural6cy"

section \<open>The chart\<close>

text \<open>
  A rule of the chart is a disjunction of conjunctions of relations \<open>operand [mod m] = ranges\<close>
  or \<open>operand [mod m] != ranges\<close>; the first category whose rule holds is chosen. The operand
  \<open>n\<close> is the absolute value of the number itself, not the integer the code passes.
\<close>

datatype category = Zero | One | Two | Few | Many | Other

primrec category_shift :: "category \<Rightarrow> nat" where
  "category_shift Zero = kShiftZero"
| "category_shift One = kShiftOne"
| "category_shift Two = kShiftTwo"
| "category_shift Few = kShiftFew"
| "category_shift Many = kShiftMany"
| "category_shift Other = kShiftOther"

datatype operand = OpN | OpI | OpV | OpF | OpT

record operands =
  op_n :: rat
  op_i :: int
  op_v :: int
  op_f :: int
  op_t :: int

primrec operand_value :: "operands \<Rightarrow> operand \<Rightarrow> rat" where
  "operand_value x OpN = op_n x"
| "operand_value x OpI = of_int (op_i x)"
| "operand_value x OpV = of_int (op_v x)"
| "operand_value x OpF = of_int (op_f x)"
| "operand_value x OpT = of_int (op_t x)"

definition rat_mod :: "rat \<Rightarrow> int \<Rightarrow> rat" where
  "rat_mod x m = x - of_int m * of_int \<lfloor>x / of_int m\<rfloor>"

datatype relation =
    Is operand "int option" "(int \<times> int) list"
  | IsNot operand "int option" "(int \<times> int) list"

definition in_ranges :: "rat \<Rightarrow> (int \<times> int) list \<Rightarrow> bool" where
  "in_ranges x rs \<longleftrightarrow> x = of_int \<lfloor>x\<rfloor> \<and> (\<exists>(a, b)\<in>set rs. a \<le> \<lfloor>x\<rfloor> \<and> \<lfloor>x\<rfloor> \<le> b)"

definition reduced :: "rat \<Rightarrow> int option \<Rightarrow> rat" where
  "reduced x m = (case m of None \<Rightarrow> x | Some k \<Rightarrow> rat_mod x k)"

primrec relation_holds :: "operands \<Rightarrow> relation \<Rightarrow> bool" where
  "relation_holds x (Is p m rs) = in_ranges (reduced (operand_value x p) m) rs"
| "relation_holds x (IsNot p m rs) = (\<not> in_ranges (reduced (operand_value x p) m) rs)"

type_synonym rule = "relation list list"

definition rule_holds :: "operands \<Rightarrow> rule \<Rightarrow> bool" where
  "rule_holds x r \<longleftrightarrow> (\<exists>conj\<in>set r. \<forall>rel\<in>set conj. relation_holds x rel)"

fun first_category :: "operands \<Rightarrow> (category \<times> rule) list \<Rightarrow> category" where
  "first_category x [] = Other"
| "first_category x ((c, r) # rest) = (if rule_holds x r then c else first_category x rest)"

abbreviation one_value :: "int \<Rightarrow> (int \<times> int) list" where
  "one_value k \<equiv> [(k, k)]"

primrec chart :: "plural_method \<Rightarrow> (category \<times> rule) list" where
  "chart Method1 = []"
| "chart Method2fil = [(One,
     [[Is OpV None (one_value 0), Is OpI None [(1, 3)]],
      [Is OpV None (one_value 0), IsNot OpI (Some 10) [(4, 4), (6, 6), (9, 9)]],
      [IsNot OpV None (one_value 0), IsNot OpF (Some 10) [(4, 4), (6, 6), (9, 9)]]])]"
| "chart Method2tzm = [(One, [[Is OpN None [(0, 1)]], [Is OpN None [(11, 99)]]])]"
| "chart Method2is = [(One,
     [[Is OpT None (one_value 0), Is OpI (Some 10) (one_value 1), IsNot OpI (Some 100) (one_value 11)],
      [IsNot OpT None (one_value 0)]])]"
| "chart Method2mk = [(One,
     [[Is OpV None (one_value 0), Is OpI (Some 10) (one_value 1), IsNot OpI (Some 100) (one_value 11)],
      [Is OpF (Some 10) (one_value 1), IsNot OpF (Some 100) (one_value 11)]])]"
| "chart Method2ak = [(One, [[Is OpN None [(0, 1)]]])]"
| "chart Method2am = [(One, [[Is OpI None (one_value 0)], [Is OpN None (one_value 1)]])]"
| "chart Method2hy = [(One, [[Is OpI None [(0, 1)]]])]"
| "chart Method2si = [(One,
     [[Is OpN None [(0, 1)]], [Is OpI None (one_value 0), Is OpF None (one_value 1)]])]"
| "chart Method2bh = [(One, [[Is OpN None [(0, 1)]]])]"
| "chart Method2af = [(One, [[Is OpN None (one_value 1)]])]"
| "chart Method2ast = [(One, [[Is OpI None (one_value 1), Is OpV None (one_value 0)]])]"
| "chart Method2da = [(One,
     [[Is OpN None (one_value 1)], [IsNot OpT None (one_value 0), Is OpI None [(0, 1)]]])]"
| "chart Method3lv =
     [(Zero,
       [[Is OpN (Some 10) (one_value 0)], [Is OpN (Some 100) [(11, 19)]],
        [Is OpV None (one_value 2), Is OpF (Some 100) [(11, 19)]]]),
      (One,
       [[Is OpN (Some 10) (one_value 1), IsNot OpN (Some 100) (one_value 11)],
        [Is OpV None (one_value 2), Is OpF (Some 10) (one_value 1), IsNot OpF (Some 100) (one_value 11)],
        [IsNot OpV None (one_value 2), Is OpF (Some 10) (one_value 1)]])]"
| "chart Method3ksh = [(Zero, [[Is OpN None (one_value 0)]]), (One, [[Is OpN None (one_value 1)]])]"
| "chart Method3lag =
     [(Zero, [[Is OpN None (one_value 0)]]),
      (One, [[Is OpI None [(0, 1)], IsNot OpN None (one_value 0)]])]"
| "chart Method3kw = [(One, [[Is OpN None (one_value 1)]]), (Two, [[Is OpN None (one_value 2)]])]"
| "chart Method3bs =
     [(One,
       [[Is OpV None (one_value 0), Is OpI (Some 10) (one_value 1), IsNot OpI (Some 100) (one_value 11)],
        [Is OpF (Some 10) (one_value 1), IsNot OpF (Some 100) (one_value 11)]]),
      (Few,
       [[Is OpV None (one_value 0), Is OpI (Some 10) [(2, 4)], IsNot OpI (Some 100) [(12, 14)]],
        [Is OpF (Some 10) [(2, 4)], IsNot OpF (Some 100) [(12, 14)]]])]"
| "chart Method3shi =
     [(One, [[Is OpI None (one_value 0)], [Is OpN None (one_value 1)]]),
      (Few, [[Is OpN None [(2, 10)]]])]"
| "chart Method3mo =
     [(One, [[Is OpI None (one_value 1), Is OpV None (one_value 0)]]),
      (Few,
       [[IsNot OpV None (one_value 0)], [Is OpN None (one_value 0)],
        [IsNot OpN None (one_value 1), Is OpN (Some 100) [(1, 19)]]])]"
| "chart Method4be =
     [(One, [[Is OpN (Some 10) (one_value 1), IsNot OpN (Some 100) (one_value 11)]]),
      (Few, [[Is OpN (Some 10) [(2, 4)], IsNot OpN (Some 100) [(12, 14)]]]),
      (Many,
       [[Is OpN (Some 10) (one_value 0)], [Is OpN (Some 10) [(5, 9)]],
        [Is OpN (Some 100) [(11, 14)]]])]"
| "chart Method4ru =
     [(One,
       [[Is OpV None (one_value 0), Is OpI (Some 10) (one_value 1), IsNot OpI (Some 100) (one_value 11)]]),
      (Few,
       [[Is OpV None (one_value 0), Is OpI (Some 10) [(2, 4)], IsNot OpI (Some 100) [(12, 14)]]]),
      (Many,
       [[Is OpV None (one_value 0), Is OpI (Some 10) (one_value 0)],
        [Is OpV None (one_value 0), Is OpI (Some 10) [(5, 9)]],
        [Is OpV None (one_value 0), Is OpI (Some 100) [(11, 14)]]])]"
| "chart Method4pl =
     [(One, [[Is OpI None (one_value 1), Is OpV None (one_value 0)]]),
      (Few,
       [[Is OpV None (one_value 0), Is OpI (Some 10) [(2, 4)], IsNot OpI (Some 100) [(12, 14)]]]),
      (Many,
       [[Is OpV None (one_value 0), IsNot OpI None (one_value 1), Is OpI (Some 10) [(0, 1)]],
        [Is OpV None (one_value 0), Is OpI (Some 10) [(5, 9)]],
        [Is OpV None (one_value 0), Is OpI (Some 100) [(12, 14)]]])]"
| "chart Method4lt =
     [(One, [[Is OpN (Some 10) (one_value 1), IsNot OpN (Some 100) [(11, 19)]]]),
      (Few, [[Is OpN (Some 10) [(2, 9)], IsNot OpN (Some 100) [(11, 19)]]]),
      (Many, [[IsNot OpF None (one_value 0)]])]"
| "chart Method4cs =
     [(One, [[Is OpI None (one_value 1), Is OpV None (one_value 0)]]),
      (Few, [[Is OpI None [(2, 4)], Is OpV None (one_value 0)]]),
      (Many, [[IsNot OpV None (one_value 0)]])]"
| "chart Method4gd =
     [(One, [[Is OpN None [(1, 1), (11, 11)]]]),
      (Two, [[Is OpN None [(2, 2), (12, 12)]]]),
      (Few, [[Is OpN None [(3, 10), (13, 19)]]])]"
| "chart Method4dsb =
     [(One,
       [[Is OpV None (one_value 0), Is OpI (Some 100) (one_value 1)], [Is OpF (Some 100) (one_value 1)]]),
      (Two,
       [[Is OpV None (one_value 0), Is OpI (Some 100) (one_value 2)], [Is OpF (Some 100) (one_value 2)]]),
      (Few,
       [[Is OpV None (one_value 0), Is OpI (Some 100) [(3, 4)]], [Is OpF (Some 100) [(3, 4)]]])]"
| "chart Method4sl =
     [(One, [[Is OpV None (one_value 0), Is OpI (Some 100) (one_value 1)]]),
      (Two, [[Is OpV None (one_value 0), Is OpI (Some 100) (one_value 2)]]),
      (Few,
       [[Is OpV None (one_value 0), Is OpI (Some 100) [(3, 4)]], [IsNot OpV None (one_value 0)]])]"
| "chart Method4he =
     [(One, [[Is OpI None (one_value 1), Is OpV None (one_value 0)]]),
      (Two, [[Is OpI None (one_value 2), Is OpV None (one_value 0)]]),
      (Many,
       [[Is OpV None (one_value 0), IsNot OpN None [(0, 10)], Is OpN (Some 10) (one_value 0)]])]"
| "chart Method4mt =
     [(One, [[Is OpN None (one_value 1)]]),
      (Few, [[Is OpN None (one_value 0)], [Is OpN (Some 100) [(2, 10)]]]),
      (Many, [[Is OpN (Some 100) [(11, 19)]]])]"
| "chart Method5gv =
     [(One, [[Is OpV None (one_value 0), Is OpI (Some 10) (one_value 1)]]),
      (Two, [[Is OpV None (one_value 0), Is OpI (Some 10) (one_value 2)]]),
      (Few,
       [[Is OpV None (one_value 0), Is OpI (Some 100) [(0, 0), (20, 20), (40, 40), (60, 60), (80, 80)]]]),
      (Many, [[IsNot OpV None (one_value 0)]])]"
| "chart Method5br =
     [(One,
       [[Is OpN (Some 10) (one_value 1), IsNot OpN (Some 100) [(11, 11), (71, 71), (91, 91)]]]),
      (Two,
       [[Is OpN (Some 10) (one_value 2), IsNot OpN (Some 100) [(12, 12), (72, 72), (92, 92)]]]),
      (Few,
       [[Is OpN (Some 10) [(3, 4), (9, 9)], IsNot OpN (Some 100) [(10, 19), (70, 79), (90, 99)]]]),
      (Many, [[IsNot OpN None (one_value 0), Is OpN (Some 1000000) (one_value 0)]])]"
| "chart Method5ga =
     [(One, [[Is OpN None (one_value 1)]]),
      (Two, [[Is OpN None (one_value 2)]]),
      (Few, [[Is OpN None [(3, 6)]]]),
      (Many, [[Is OpN None [(7, 10)]]])]"
| "chart Method6ar =
     [(Zero, [[Is OpN None (one_value 0)]]),
      (One, [[Is OpN None (one_value 1)]]),
      (Two, [[Is OpN None (one_value 2)]]),
      (Few, [[Is OpN (Some 100) [(3, 10)]]]),
      (Many, [[Is OpN (Some 100) [(11, 99)]]])]"
| "chart Method6cy =
     [(Zero, [[Is OpN None (one_value 0)]]),
      (One, [[Is OpN None (one_value 1)]]),
      (Two, [[Is OpN None (one_value 2)]]),
      (Few, [[Is OpN None (one_value 3)]]),
      (Many, [[Is OpN None (one_value 6)]])]"


section \<open>Operands of the code and of the chart\<close>

text \<open>The operands of a number \<open>i.f\<close> with \<open>v\<close> visible fraction digits.\<close>

definition number_operands :: "operands \<Rightarrow> bool" where
  "number_operands x \<longleftrightarrow> 0 \<le> op_i x \<and> 0 \<le> op_v x \<and> 0 \<le> op_f x \<and> op_f x < 10 ^ nat (op_v x) \<and>
     (op_t x = 0 \<longleftrightarrow> op_f x = 0) \<and> op_n x = of_int (op_i x) + of_int (op_f x) / 10 ^ nat (op_v x)"

text \<open>What the code passes for \<open>n\<close>.\<close>

definition code_n :: "operands \<Rightarrow> int" where
  "code_n x = (if op_f x = 0 then op_i x else - 1)"

lemma in_ranges_of_int [simp]: "in_ranges (of_int k) rs \<longleftrightarrow> (\<exists>(a, b)\<in>set rs. a \<le> k \<and> k \<le> b)"
  by (simp add: in_ranges_def)

lemma rat_mod_of_int [simp]: "rat_mod (of_int k) m = of_int (k mod m)"
proof -
  have "\<lfloor>of_int k / of_int m :: rat\<rfloor> = k div m" by (rule floor_divide_of_int_eq)
  then show ?thesis by (simp add: rat_mod_def minus_div_mult_eq_mod [symmetric] mult.commute)
qed

lemma rat_mod_not_int: "x \<noteq> of_int \<lfloor>x\<rfloor> \<Longrightarrow> rat_mod x m \<noteq> of_int \<lfloor>rat_mod x m\<rfloor>"
proof
  assume x: "x \<noteq> of_int \<lfloor>x\<rfloor>" and "rat_mod x m = of_int \<lfloor>rat_mod x m\<rfloor>"
  then have "x = of_int (\<lfloor>rat_mod x m\<rfloor> + m * \<lfloor>x / of_int m\<rfloor>)" by (simp add: rat_mod_def)
  then have "\<lfloor>x\<rfloor> = \<lfloor>rat_mod x m\<rfloor> + m * \<lfloor>x / of_int m\<rfloor>" by (metis floor_of_int)
  with x \<open>x = of_int (\<lfloor>rat_mod x m\<rfloor> + m * \<lfloor>x / of_int m\<rfloor>)\<close> show False by simp
qed

lemma reduced_of_int [simp]:
  "reduced (of_int k) m = of_int (case m of None \<Rightarrow> k | Some d \<Rightarrow> k mod d)"
  by (simp add: reduced_def split: option.split)

text \<open>The chart over the integers the code passes: a number with a fraction is in no range.\<close>

definition int_operand :: "int \<Rightarrow> int \<Rightarrow> int \<Rightarrow> int \<Rightarrow> int \<Rightarrow> operand \<Rightarrow> int" where
  "int_operand n i v f t p = (case p of OpN \<Rightarrow> n | OpI \<Rightarrow> i | OpV \<Rightarrow> v | OpF \<Rightarrow> f | OpT \<Rightarrow> t)"

definition int_in :: "int \<Rightarrow> int option \<Rightarrow> (int \<times> int) list \<Rightarrow> bool" where
  "int_in k m rs \<longleftrightarrow> 0 \<le> k \<and> list_ex (\<lambda>(a, b).
     a \<le> (case m of None \<Rightarrow> k | Some d \<Rightarrow> k mod d) \<and> (case m of None \<Rightarrow> k | Some d \<Rightarrow> k mod d) \<le> b) rs"

primrec int_relation :: "(operand \<Rightarrow> int) \<Rightarrow> relation \<Rightarrow> bool" where
  "int_relation g (Is p m rs) = int_in (g p) m rs"
| "int_relation g (IsNot p m rs) = (\<not> int_in (g p) m rs)"

definition int_rule :: "(operand \<Rightarrow> int) \<Rightarrow> rule \<Rightarrow> bool" where
  "int_rule g = list_ex (list_all (int_relation g))"

fun int_category :: "(operand \<Rightarrow> int) \<Rightarrow> (category \<times> rule) list \<Rightarrow> category" where
  "int_category g [] = Other"
| "int_category g ((c, r) # rest) = (if int_rule g r then c else int_category g rest)"

lemma fraction_not_int:
  assumes "0 < f" "f < (10::int) ^ k" "x = of_int i + of_int f / 10 ^ k"
  shows "(x::rat) \<noteq> of_int \<lfloor>x\<rfloor>"
proof -
  have lt: "of_int f < (10::rat) ^ k" using assms(2) by (metis of_int_less_iff of_int_numeral of_int_power)
  then have "0 < of_int f / (10::rat) ^ k" "of_int f / (10::rat) ^ k < 1" using assms(1) by simp_all
  then have "\<lfloor>x\<rfloor> = i" unfolding assms(3) by linarith
  then show ?thesis using assms(1,3) by simp
qed

definition code_operand :: "operands \<Rightarrow> operand \<Rightarrow> int" where
  "code_operand x = int_operand (code_n x) (op_i x) (op_v x) (op_f x) (op_t x)"

lemma in_ranges_eq:
  assumes x: "number_operands x" "0 \<le> op_t x"
  shows "in_ranges (reduced (operand_value x p) m) rs = int_in (code_operand x p) m rs"
proof (cases "p = OpN \<and> op_f x \<noteq> 0")
  case True
  then have n: "op_n x \<noteq> of_int \<lfloor>op_n x\<rfloor>"
    using fraction_not_int [of "op_f x" "nat (op_v x)" "op_n x" "op_i x"] x by (auto simp: number_operands_def)
  then have "\<not> in_ranges (reduced (op_n x) m) rs"
    using rat_mod_not_int [OF n] by (auto simp: reduced_def in_ranges_def split: option.splits)
  then show ?thesis using True by (simp add: code_operand_def int_operand_def int_in_def code_n_def)
next
  case False
  have "operand_value x p = of_int (code_operand x p)" "0 \<le> code_operand x p"
    using False x by (cases p; simp add: code_operand_def int_operand_def code_n_def number_operands_def)+
  then show ?thesis by (simp add: int_in_def list_ex_iff)
qed

lemma category_eq:
  assumes x: "number_operands x" "0 \<le> op_t x"
  shows "first_category x rules = int_category (code_operand x) rules"
proof -
  have "relation_holds x rel = int_relation (code_operand x) rel" for rel
    by (cases rel) (simp_all add: in_ranges_eq [OF x])
  then have "rule_holds x r = int_rule (code_operand x) r" for r
    by (auto simp: rule_holds_def int_rule_def list_ex_iff list_all_iff)
  then show ?thesis by (induction rules rule: first_category.induct) simp_all
qed

lemma smod_nonneg [simp]: "0 \<le> a \<Longrightarrow> 0 < b \<Longrightarrow> a smod b = a mod (b::int)"
  by (cases "a = 0") (simp_all add: signed_modulo_int_def signed_divide_int_def minus_div_mult_eq_mod)

lemma smod_minus_one [simp]: "1 < b \<Longrightarrow> (- 1) smod b = - (1::int)"
  by (simp add: signed_modulo_int_def signed_divide_int_def)

text \<open>The last two digits.\<close>

lemma digits: "\<exists>d q. 0 \<le> d \<and> d \<le> 9 \<and> 0 \<le> q \<and> q \<le> 9 \<and> (k::int) mod 10 = q \<and> k mod 100 = 10 * d + q"
proof (intro exI conjI)
  show "k mod 100 = 10 * (k mod 100 div 10) + k mod 10"
    using mod_mod_cancel [of 10 100 k] div_mult_mod_eq [of "k mod 100" 10] by simp
  show "0 \<le> k mod 100 div 10" by (simp add: div_int_pos_iff)
  show "k mod 100 div 10 \<le> 9" using pos_mod_bound [of 100 k] by linarith
qed simp_all

text \<open>The integer operands of a number without and with a fraction, and their last digits.\<close>

definition int_number :: "int \<Rightarrow> int \<Rightarrow> int \<Rightarrow> int \<Rightarrow> int \<Rightarrow> bool" where
  "int_number n i v f t \<longleftrightarrow> 0 \<le> i \<and> 0 \<le> v \<and>
     (n = i \<and> f = 0 \<and> t = 0 \<or> n = - 1 \<and> 0 < f \<and> 0 < t \<and> 0 < v)"

lemmas chart_simps = int_rule_def int_in_def int_operand_def int_number_def shift_defs Let_def

definition two_digits :: "int \<Rightarrow> int \<Rightarrow> bool" where
  "two_digits k d \<longleftrightarrow> 0 \<le> d \<and> d \<le> 9 \<and>
     (k mod 10 = 0 \<and> k mod 100 = 10 * d \<or> k mod 10 = 1 \<and> k mod 100 = 10 * d + 1 \<or>
      k mod 10 = 2 \<and> k mod 100 = 10 * d + 2 \<or> k mod 10 = 3 \<and> k mod 100 = 10 * d + 3 \<or>
      k mod 10 = 4 \<and> k mod 100 = 10 * d + 4 \<or> k mod 10 = 5 \<and> k mod 100 = 10 * d + 5 \<or>
      k mod 10 = 6 \<and> k mod 100 = 10 * d + 6 \<or> k mod 10 = 7 \<and> k mod 100 = 10 * d + 7 \<or>
      k mod 10 = 8 \<and> k mod 100 = 10 * d + 8 \<or> k mod 10 = 9 \<and> k mod 100 = 10 * d + 9)"

lemma two_digits_ex: "\<exists>d. two_digits k d"
proof -
  obtain d q where dq: "0 \<le> d" "d \<le> 9" "0 \<le> q" "q \<le> 9" "k mod 10 = q" "k mod 100 = 10 * d + q"
    using digits [of k] by blast
  have "q = 0 \<or> q = 1 \<or> q = 2 \<or> q = 3 \<or> q = 4 \<or> q = 5 \<or> q = 6 \<or> q = 7 \<or> q = 8 \<or> q = 9"
    using dq(3,4) by presburger
  then show ?thesis using dq by (intro exI [of _ d]) (auto simp: two_digits_def)
qed

lemma int_number_cases:
  assumes "int_number n i v f t"
  obtains d where "two_digits i d" "0 \<le> i" "0 \<le> v" "n = i" "f = 0" "t = 0"
  | d where "two_digits f d" "0 \<le> i" "0 < v" "0 < f" "0 < t" "n = - 1"
  using assms two_digits_ex [of i] two_digits_ex [of f] unfolding int_number_def by auto

lemma same_bounds [simp]: "a \<le> k \<and> k \<le> a \<longleftrightarrow> k = (a::int)"
  by auto

lemma mod_20: "(k::int) mod 20 = 0 \<longleftrightarrow>
    k mod 100 = 0 \<or> k mod 100 = 20 \<or> k mod 100 = 40 \<or> k mod 100 = 60 \<or> k mod 100 = 80"
proof -
  define r where "r = k mod 100"
  have "0 \<le> r" "r < 100" by (simp_all add: r_def)
  then have "r mod 20 = 0 \<longleftrightarrow> r = 0 \<or> r = 20 \<or> r = 40 \<or> r = 60 \<or> r = 80" by presburger
  moreover have "r mod 20 = k mod 20" unfolding r_def by (rule mod_mod_cancel) simp
  ultimately show ?thesis unfolding r_def by simp
qed

lemma mod_at_most_0 [simp]: "0 < m \<Longrightarrow> (k::int) mod m \<le> 0 \<longleftrightarrow> k mod m = 0"
  using pos_mod_sign [of m k] by linarith

definition follows_chart :: "plural_method \<Rightarrow> bool" where
  "follows_chart m \<longleftrightarrow> (\<forall>n i v w f t. int_number n i v f t \<longrightarrow>
     call_method m n i v w f t = category_shift (int_category (int_operand n i v f t) (chart m)))"

lemmas plain_methods =
  ChoosePlural1_def ChoosePlural2tzm_def ChoosePlural2is_def ChoosePlural2ak_def
  ChoosePlural2am_def ChoosePlural2hy_def ChoosePlural2si_def ChoosePlural2bh_def
  ChoosePlural2af_def ChoosePlural2ast_def ChoosePlural2da_def ChoosePlural3ksh_def
  ChoosePlural3lag_def ChoosePlural3kw_def ChoosePlural3shi_def ChoosePlural3mo_def
  ChoosePlural4ru_def ChoosePlural4pl_def ChoosePlural4cs_def ChoosePlural4sl_def
  ChoosePlural5ga_def ChoosePlural6ar_def ChoosePlural6cy_def

lemma plain_charts:
  "follows_chart Method1" "follows_chart Method2tzm" "follows_chart Method2is"
  "follows_chart Method2ak" "follows_chart Method2am" "follows_chart Method2hy"
  "follows_chart Method2si" "follows_chart Method2bh" "follows_chart Method2af"
  "follows_chart Method2ast" "follows_chart Method2da" "follows_chart Method3ksh"
  "follows_chart Method3lag" "follows_chart Method3kw" "follows_chart Method3shi"
  "follows_chart Method3mo" "follows_chart Method4ru" "follows_chart Method4pl"
  "follows_chart Method4cs" "follows_chart Method4sl" "follows_chart Method5ga"
  "follows_chart Method6ar" "follows_chart Method6cy"
  by (auto simp: follows_chart_def plain_methods chart_simps)

text \<open>The methods that look at two last digits: one case for each last digit.\<close>

lemmas digit_methods =
  ChoosePlural2mk_def ChoosePlural3lv_def ChoosePlural3bs_def ChoosePlural4be_def
  ChoosePlural4lt_def ChoosePlural4dsb_def ChoosePlural4mt_def ChoosePlural4gd_def
  ChoosePlural5br_def

lemma digit_charts:
  "follows_chart Method2mk" "follows_chart Method3lv" "follows_chart Method3bs"
  "follows_chart Method4be" "follows_chart Method4lt" "follows_chart Method4dsb"
  "follows_chart Method4mt" "follows_chart Method4gd" "follows_chart Method5br"
  unfolding follows_chart_def
  by (intro allI impI; elim int_number_cases; unfold two_digits_def; elim conjE disjE;
      simp add: digit_methods chart_simps; arith?)+

lemma other_charts: "follows_chart Method2fil" "follows_chart Method4he" "follows_chart Method5gv"
proof -
  show "follows_chart Method2fil"
    unfolding follows_chart_def
    by (intro allI impI; elim int_number_cases; simp add: ChoosePlural2fil_def chart_simps)
  show "follows_chart Method4he"
    unfolding follows_chart_def
    by (intro allI impI; elim int_number_cases; simp add: ChoosePlural4he_def chart_simps; presburger)
  show "follows_chart Method5gv"
    unfolding follows_chart_def
    by (intro allI impI; elim int_number_cases; simp add: ChoosePlural5gv_def chart_simps mod_20; auto)
qed

lemma all_follow_chart: "follows_chart m"
  by (cases m) (simp_all add: plain_charts digit_charts other_charts)

lemma category_of_operands:
  assumes "number_operands x" "0 \<le> op_t x"
  shows "call_method m (code_n x) (op_i x) (op_v x) w (op_f x) (op_t x) =
    category_shift (first_category x (chart m))"
proof -
  have "int_number (code_n x) (op_i x) (op_v x) (op_f x) (op_t x)"
  proof (cases "op_f x = 0")
    case False
    then have "op_v x \<noteq> 0" using assms(1) by (auto simp: number_operands_def)
    then show ?thesis using False assms by (auto simp: int_number_def number_operands_def code_n_def)
  qed (use assms in \<open>simp add: int_number_def number_operands_def code_n_def\<close>)
  then show ?thesis
    using all_follow_chart [of m] by (simp add: follows_chart_def category_eq [OF assms] code_operand_def)
qed

section \<open>Properties\<close>

text \<open>C9. Every plural rule of the file chooses the category of the chart: for a number \<open>i.f\<close> with
  any fraction, passed the way \<open>Lang::Plural\<close> passes it (\<open>n\<close> the integer part of an integer and
  \<open>- 1\<close> otherwise), the function of each group of languages returns the shift of the first
  category whose rule holds of the number itself.\<close>

theorem plural_rules_follow_chart:
  assumes "number_operands x" "0 \<le> op_t x"
  shows "call_method m (code_n x) (op_i x) (op_v x) w (op_f x) (op_t x) =
    category_shift (first_category x (chart m))"
  by (rule category_of_operands [OF assms])

text \<open>1.5 and 21 in Russian.\<close>

theorem plural_rules_follow_chart_witness:
  "first_category \<lparr> op_n = 3 / 2, op_i = 1, op_v = 1, op_f = 5, op_t = 5 \<rparr> (chart Method4ru) = Other \<and>
   call_method Method4ru (- 1) 1 1 1 5 5 = kShiftOther \<and>
   first_category \<lparr> op_n = 21, op_i = 21, op_v = 0, op_f = 0, op_t = 0 \<rparr> (chart Method4ru) = One"
proof -
  let ?x = "\<lparr> op_n = 3 / 2, op_i = 1, op_v = 1, op_f = 5, op_t = 5 \<rparr>"
  let ?y = "\<lparr> op_n = 21, op_i = 21, op_v = 0, op_f = 0, op_t = 0 \<rparr>"
  have inj: "category_shift c = category_shift c' \<Longrightarrow> c = c'" for c c'
    by (cases c; cases c') (simp_all add: shift_defs)
  have x: "call_method Method4ru (code_n ?x) 1 1 1 5 5 = category_shift (first_category ?x (chart Method4ru))"
    using plural_rules_follow_chart [of ?x Method4ru 1] by (simp add: number_operands_def)
  have y: "call_method Method4ru (code_n ?y) 21 0 0 0 0 = category_shift (first_category ?y (chart Method4ru))"
    using plural_rules_follow_chart [of ?y Method4ru 0] by (simp add: number_operands_def)
  have "category_shift (first_category ?x (chart Method4ru)) = category_shift Other"
    using x by (simp add: code_n_def ChoosePlural4ru_def)
  moreover have "category_shift (first_category ?y (chart Method4ru)) = category_shift One"
    using y by (simp add: code_n_def ChoosePlural4ru_def Let_def)
  moreover have "call_method Method4ru (- 1) 1 1 1 5 5 = kShiftOther" by (simp add: ChoosePlural4ru_def)
  ultimately show ?thesis using inj by blast
qed

end
