(* ===== verification/Lang_Tag.thy ===== *)
theory Lang_Tag
  imports Plural_Rules "HOL-Library.Word"
begin

unbundle bit_operations_syntax

text \<open>
  lang/lang\_tag.cpp: which plural function a language has, the tags of a language string and
  their replacement, and the string for a number. A \<open>QString\<close> is the list of its UTF-16 units.
  A language identifier is the list of the characters its units are cut to; \<open>QChar::toLower\<close> is
  given for ASCII, as every identifier is. The language pack and \<open>QString::number\<close> are
  parameters.
\<close>

section \<open>Language identifiers\<close>

definition qchar_to_lower :: "char \<Rightarrow> char" where
  "qchar_to_lower ch =
     (let code = of_char ch :: nat
      in if 65 \<le> code \<and> code \<le> 90 then char_of (code + 32) else ch)"

definition ConvertKeyChar :: "char \<Rightarrow> char" where
  "ConvertKeyChar ch = (if ch = CHR ''_'' then CHR ''-'' else qchar_to_lower ch)"

text \<open>\<open>uint64(char)\<close> extends the sign of the eight bits.\<close>

definition char_to_uint64 :: "char \<Rightarrow> 64 word" where
  "char_to_uint64 ch = scast (of_char ch :: 8 word)"

definition PluralsKey :: "string \<Rightarrow> 64 word" where
  "PluralsKey value =
     fold (\<lambda>ch data. push_bit 8 data OR char_to_uint64 (ConvertKeyChar ch)) value 0"

definition GeneratePluralRulesMap :: "(string \<times> plural_method) list" where
  "GeneratePluralRulesMap =
    [(''fil'', Method2fil), (''tl'', Method2fil), (''tzm'', Method2tzm), (''is'', Method2is),
     (''mk'', Method2mk), (''ak'', Method2ak), (''guw'', Method2ak), (''ln'', Method2ak),
     (''mg'', Method2ak), (''nso'', Method2ak), (''pa'', Method2ak), (''ti'', Method2ak),
     (''wa'', Method2ak), (''am'', Method2am), (''as'', Method2am), (''bn'', Method2am),
     (''gu'', Method2am), (''hi'', Method2am), (''kn'', Method2am), (''mr'', Method2am),
     (''fa'', Method2am), (''zu'', Method2am), (''hy'', Method2hy), (''fr'', Method2hy),
     (''ff'', Method2hy), (''kab'', Method2hy), (''pt'', Method2hy), (''si'', Method2si),
     (''bh'', Method2bh), (''bho'', Method2bh), (''af'', Method2af), (''sq'', Method2af),
     (''asa'', Method2af), (''az'', Method2af), (''eu'', Method2af), (''bem'', Method2af),
     (''bez'', Method2af), (''brx'', Method2af), (''bg'', Method2af), (''ckb'', Method2af),
     (''ce'', Method2af), (''chr'', Method2af), (''cgg'', Method2af), (''dv'', Method2af),
     (''eo'', Method2af), (''ee'', Method2af), (''fo'', Method2af), (''fur'', Method2af),
     (''ka'', Method2af), (''el'', Method2af), (''ha'', Method2af), (''haw'', Method2af),
     (''hu'', Method2af), (''kaj'', Method2af), (''kkj'', Method2af), (''kl'', Method2af),
     (''ks'', Method2af), (''kk'', Method2af), (''ku'', Method2af), (''ky'', Method2af),
     (''lb'', Method2af), (''jmc'', Method2af), (''ml'', Method2af), (''mas'', Method2af),
     (''mgo'', Method2af), (''mn'', Method2af), (''nah'', Method2af), (''ne'', Method2af),
     (''nnh'', Method2af), (''jgo'', Method2af), (''nd'', Method2af), (''no'', Method2af),
     (''nb'', Method2af), (''nn'', Method2af), (''ny'', Method2af), (''nyn'', Method2af),
     (''or'', Method2af), (''om'', Method2af), (''os'', Method2af), (''pap'', Method2af),
     (''ps'', Method2af), (''rm'', Method2af), (''rof'', Method2af), (''rwk'', Method2af),
     (''ssy'', Method2af), (''saq'', Method2af), (''seh'', Method2af), (''ksb'', Method2af),
     (''sn'', Method2af), (''sd'', Method2af), (''xog'', Method2af), (''so'', Method2af),
     (''nr'', Method2af), (''sdh'', Method2af), (''st'', Method2af), (''es'', Method2af),
     (''ss'', Method2af), (''gsw'', Method2af), (''syr'', Method2af), (''ta'', Method2af),
     (''te'', Method2af), (''teo'', Method2af), (''tig'', Method2af), (''ts'', Method2af),
     (''tn'', Method2af), (''tr'', Method2af), (''tk'', Method2af), (''kcg'', Method2af),
     (''ug'', Method2af), (''uz'', Method2af), (''ve'', Method2af), (''vo'', Method2af),
     (''vun'', Method2af), (''wae'', Method2af), (''xh'', Method2af), ('''', Method2ast),
     (''ast'', Method2ast), (''ca'', Method2ast), (''nl'', Method2ast), (''en'', Method2ast),
     (''et'', Method2ast), (''pt_PT'', Method2ast), (''fi'', Method2ast), (''gl'', Method2ast),
     (''lg'', Method2ast), (''de'', Method2ast), (''io'', Method2ast), (''ia'', Method2ast),
     (''it'', Method2ast), (''sc'', Method2ast), (''scn'', Method2ast), (''sw'', Method2ast),
     (''sv'', Method2ast), (''ur'', Method2ast), (''fy'', Method2ast), (''ji'', Method2ast),
     (''yi'', Method2ast), (''da'', Method2da), (''lv'', Method3lv), (''prg'', Method3lv),
     (''ksh'', Method3ksh), (''lag'', Method3lag), (''kw'', Method3kw), (''smn'', Method3kw),
     (''iu'', Method3kw), (''smj'', Method3kw), (''naq'', Method3kw), (''se'', Method3kw),
     (''smi'', Method3kw), (''sms'', Method3kw), (''sma'', Method3kw), (''bs'', Method3bs),
     (''hr'', Method3bs), (''sr'', Method3bs), (''sh'', Method3bs), (''sr_Latn'', Method3bs),
     (''shi'', Method3shi), (''mo'', Method3mo), (''ro_MD'', Method3mo), (''ro'', Method3mo),
     (''be'', Method4be), (''ru'', Method4ru), (''uk'', Method4ru), (''pl'', Method4pl),
     (''lt'', Method4lt), (''cs'', Method4cs), (''sk'', Method4cs), (''gd'', Method4gd),
     (''dsb'', Method4dsb), (''hsb'', Method4dsb), (''sl'', Method4sl), (''he'', Method4he),
     (''iw'', Method4he), (''mt'', Method4mt), (''gv'', Method5gv), (''br'', Method5br),
     (''ga'', Method5ga), (''ar'', Method6ar), (''ars'', Method6ar), (''cy'', Method6cy)]"

text \<open>The \<open>std::map\<close> over the packed keys; of two equal keys the first would stay.\<close>

definition find_plural_method :: "64 word \<Rightarrow> plural_method option" where
  "find_plural_method key =
     map_of (map (\<lambda>(value, method). (PluralsKey value, method)) GeneratePluralRulesMap) key"

definition update_key_step :: "char \<Rightarrow> 64 word \<times> 64 word \<Rightarrow> 64 word \<times> 64 word" where
  "update_key_step ch st =
     (let (parent, key) = st;
          converted = ConvertKeyChar ch;
          parent' = (if converted = CHR ''-'' \<and> parent = 0 then key else parent)
      in (parent', push_bit 8 key OR char_to_uint64 converted))"

definition UpdatePluralRules :: "string \<Rightarrow> plural_method" where
  "UpdatePluralRules languageId =
     (let (parent, key) = fold update_key_step languageId (0, 0);
          result = find_plural_method key;
          i = (if result \<noteq> None \<or> parent = 0 then result else find_plural_method parent)
      in case i of None \<Rightarrow> Method1 | Some method \<Rightarrow> method)"

section \<open>Tags\<close>

type_synonym qstring = "16 word list"

definition TextCommand :: "16 word" where
  "TextCommand = 0x10"

definition TextCommandLangTag :: "16 word" where
  "TextCommandLangTag = 0x20"

definition kTagReplacementSize :: nat where
  "kTagReplacementSize = 4"

text \<open>
  \<open>textSkipCommand\<close> of ui/text/text.cpp on positions of the string: the position after the
  command that starts at \<open>from\<close>, or \<open>from\<close>. The cases of its switch are the bold, italic,
  underline and semibold commands (1 to 8), the link index (9), the link text (10), the skip
  block (13) and the language tag (32).
\<close>

definition command_end :: "qstring \<Rightarrow> nat \<Rightarrow> bool \<Rightarrow> nat option" where
  "command_end s result canLink =
     (let cmd = unat (s ! (result - 1)); arg = unat (s ! result)
      in if cmd = 9 then (if arg > 0x7FFF then None else Some (result + 1))
         else if cmd = 10 then (if arg \<ge> 4096 \<or> \<not> canLink then None else Some (result + arg + 1))
         else if cmd = 13 then Some (result + 2)
         else if cmd = 32 then Some (result + 1)
         else Some result)"

definition textSkipCommand :: "qstring \<Rightarrow> nat \<Rightarrow> bool \<Rightarrow> nat" where
  "textSkipCommand s from canLink =
     (if s ! from \<noteq> TextCommand \<or> from + 1 \<ge> length s then from
      else if from + 2 \<ge> length s then from
      else case command_end s (from + 2) canLink of
             None \<Rightarrow> from
           | Some result \<Rightarrow> if result < length s \<and> s ! result = TextCommand then result + 1 else from)"

lemma textSkipCommand_ge: "from \<le> textSkipCommand s from canLink"
  by (auto simp: textSkipCommand_def command_end_def Let_def split: option.splits if_splits)

function find_tag_from :: "qstring \<Rightarrow> nat \<Rightarrow> nat \<Rightarrow> nat option" where
  "find_tag_from s tag ch =
     (if ch \<ge> length s then None
      else if s ! ch = TextCommand then
        if ch + kTagReplacementSize \<le> length s \<and> s ! (ch + 1) = TextCommandLangTag
            \<and> s ! (ch + 3) = TextCommand
        then if unat (s ! (ch + 2)) = 0x20 + tag then Some ch
             else find_tag_from s tag (ch + kTagReplacementSize)
        else let next = textSkipCommand s ch True
             in find_tag_from s tag (if next = ch then ch + 1 else next)
      else find_tag_from s tag (ch + 1))"
  by pat_completeness auto
termination
proof (relation "measure (\<lambda>(s, tag, ch). length s - ch)")
  fix s tag ch x
  assume "\<not> length s \<le> (ch::nat)" "x = textSkipCommand s ch True"
  then show "((s, tag :: nat, if x = ch then ch + 1 else x), s, tag, ch)
      \<in> measure (\<lambda>(s, tag, ch). length s - ch)"
    using textSkipCommand_ge [of ch s True] by auto
qed (auto simp: kTagReplacementSize_def)

declare find_tag_from.simps [simp del]

definition FindTagReplacementPosition :: "qstring \<Rightarrow> nat \<Rightarrow> int" where
  "FindTagReplacementPosition original tag =
     (case find_tag_from original tag 0 of None \<Rightarrow> - 1 | Some p \<Rightarrow> int p)"

definition replace_tag_at :: "qstring \<Rightarrow> qstring \<Rightarrow> int \<Rightarrow> qstring" where
  "replace_tag_at original replacement replacementPosition =
     (if replacementPosition > 0 then take (nat replacementPosition) original else []) @
     replacement @
     (if replacementPosition + int kTagReplacementSize < int (length original)
      then drop (nat (replacementPosition + int kTagReplacementSize)) original else [])"

definition ReplaceTag :: "qstring \<Rightarrow> nat \<Rightarrow> qstring \<Rightarrow> qstring" where
  "ReplaceTag original tag replacement =
     (let replacementPosition = FindTagReplacementPosition original tag
      in if replacementPosition < 0 then original
         else replace_tag_at original replacement replacementPosition)"

section \<open>The string for a number\<close>

text \<open>\<open>QString::number(value, 'f', 6)\<close> is the parameter \<open>number_f6\<close>.\<close>

definition chop_last :: "char \<Rightarrow> string \<Rightarrow> string" where
  "chop_last c s = (if s \<noteq> [] \<and> last s = c then butlast s else s)"

definition chop_all :: "char \<Rightarrow> string \<Rightarrow> string" where
  "chop_all c s = rev (dropWhile (\<lambda>x. x = c) (rev s))"

definition FormatDouble :: "(rat \<Rightarrow> string) \<Rightarrow> rat \<Rightarrow> string" where
  "FormatDouble number_f6 x = chop_last CHR ''.'' (chop_all CHR ''0'' (number_f6 x))"

definition digit_value :: "char \<Rightarrow> int" where
  "digit_value c = of_char c - 48"

definition is_digit :: "char \<Rightarrow> bool" where
  "is_digit c \<longleftrightarrow> 48 \<le> (of_char c :: nat) \<and> (of_char c :: nat) \<le> 57"

text \<open>\<open>toInt\<close> of a string of digits; 0 when it is not one or does not fit.\<close>

definition digits_to_int :: "string \<Rightarrow> int" where
  "digits_to_int s =
     (let r = foldl (\<lambda>a c. 10 * a + digit_value c) 0 s
      in if s \<noteq> [] \<and> list_all is_digit s \<and> r < 2 ^ 31 then r else 0)"

definition NonZeroPartToInt :: "string \<Rightarrow> int" where
  "NonZeroPartToInt s =
     (let zeros = length (takeWhile (\<lambda>ch. ch = CHR ''0'') s)
      in if zeros > 0 then (if zeros < length s then digits_to_int (drop zeros s) else 0)
         else if s = [] then 0 else digits_to_int s)"

record plural_operands =
  po_n :: int
  po_i :: int
  po_v :: int
  po_w :: int
  po_f :: int
  po_t :: int

text \<open>
  \<open>qFloor\<close> and \<open>qCeil\<close> convert to a 32-bit \<open>int\<close>, which has no defined value when the number
  does not fit. The \<open>float64\<close> is a rational here: every finite one is, and for the others the
  conversion is undefined too.
\<close>

definition to_int :: "int \<Rightarrow> int outcome" where
  "to_int k = (if - (2 ^ 31) \<le> k \<and> k < 2 ^ 31 then Inr k else Inl Undefined_behaviour)"

definition plural_operands_of :: "(rat \<Rightarrow> string) \<Rightarrow> rat \<Rightarrow> plural_operands outcome" where
  "plural_operands_of number_f6 x =
     (let n = \<bar>x\<bar>
      in bind_outcome (to_int \<lfloor>n\<rfloor>) (\<lambda>i. bind_outcome (to_int \<lceil>n\<rceil>) (\<lambda>c.
           let integer = (c = i);
               formatted = (if integer then [] else FormatDouble number_f6 n);
               fraction = (if CHR ''.'' \<in> set formatted
                           then tl (dropWhile (\<lambda>c. c \<noteq> CHR ''.'') formatted) else []);
               v = int (length fraction); f = NonZeroPartToInt fraction
           in Inr \<lparr> po_n = (if integer then i else - 1), po_i = i, po_v = v, po_w = v,
                    po_f = f, po_t = f \<rparr>)))"

definition ChoosePluralDefault :: plural_method where
  "ChoosePluralDefault = Method2ast"

text \<open>
  \<open>Plural\<close>: \<open>current\<close> is the function chosen for the language, \<open>nonDefault\<close> and \<open>getValue\<close> are
  the language pack, \<open>number\<close> prints an integer. The result is the string and its replacement.
\<close>

definition Plural ::
    "(rat \<Rightarrow> string) \<Rightarrow> (int \<Rightarrow> string) \<Rightarrow> (nat \<Rightarrow> bool) \<Rightarrow> (nat \<Rightarrow> 's) \<Rightarrow> plural_method \<Rightarrow>
     nat \<Rightarrow> rat \<Rightarrow> ('s \<times> string) outcome" where
  "Plural number_f6 number nonDefault getValue current keyBase x =
     bind_outcome (plural_operands_of number_f6 x) (\<lambda>p.
      let useNonDefaultPlural = (current \<noteq> ChoosePluralDefault \<and> nonDefault keyBase);
          shift = call_method (if useNonDefaultPlural then current else ChoosePluralDefault)
                    (po_n p) (po_i p) (po_v p) (po_w p) (po_f p) (po_t p);
          str = getValue (keyBase + shift)
      in if \<lceil>\<bar>x\<bar>\<rceil> = \<lfloor>\<bar>x\<bar>\<rfloor> then Inr (str, number (round x))
         else Inr (str, FormatDouble number_f6 x))"


section \<open>Packed identifiers\<close>

text \<open>The bytes of an identifier as a number in base 256, before it is cut to 64 bits.\<close>

definition key_chars :: "string \<Rightarrow> bool" where
  "key_chars s \<longleftrightarrow> (\<forall>c\<in>set s. 0 < (of_char c :: nat) \<and> (of_char c :: nat) < 128)"

fun pack :: "string \<Rightarrow> nat" where
  "pack [] = 0"
| "pack (c # s) = of_char c * 256 ^ length s + pack s"

lemma pack_append: "pack (s @ t) = pack s * 256 ^ length t + pack t"
  by (induction s) (simp_all add: power_add algebra_simps)

lemma of_char_less [simp]: "(of_char c :: nat) < 256"
  using nat_of_char_less_256 [of c] by simp

lemma pack_less: "pack s < 256 ^ length s"
proof (induction s)
  case (Cons c s)
  have "of_char c * 256 ^ length s + pack s < of_char c * 256 ^ length s + (256::nat) ^ length s"
    using Cons by simp
  also have "\<dots> = (of_char c + 1) * 256 ^ length s" by (simp add: algebra_simps)
  also have "\<dots> \<le> 256 * 256 ^ length s"
    by (rule mult_le_mono1) (use of_char_less [of c] in linarith)
  finally show ?case by simp
qed simp

lemma pack_inject:
  assumes "length s = length t" "pack s = pack t"
  shows "s = t"
  using assms
proof (induction s t rule: list_induct2)
  case (Cons c s d t)
  let ?b = "(256::nat) ^ length t"
  have eq: "of_char c * ?b + pack s = of_char d * ?b + pack t" using Cons by simp
  have lt: "pack s < ?b" "pack t < ?b" using pack_less [of s] pack_less [of t] Cons.hyps by simp_all
  have "(of_char c :: nat) = of_char d" using eq lt
    by (metis (no_types) div_mult_self3 div_less add.commute add_0 mult.commute not_less_zero power_not_zero zero_neq_numeral div_mult_self1)
  with eq show ?case using Cons by simp
qed simp


lemma char_to_uint64: "(of_char c :: nat) < 128 \<Longrightarrow> char_to_uint64 c = of_nat (of_char c)"
proof -
  assume c: "(of_char c :: nat) < 128"
  define k where "k = (of_char c :: nat)"
  have w: "(of_char c :: 8 word) = of_nat k" unfolding k_def by (rule of_nat_of_char [symmetric])
  have "k < 128" using c by (simp add: k_def)
  then have "scast (of_nat k :: 8 word) = (of_nat k :: 64 word)"
    by (simp add: signed_of_nat signed_take_bit_int_eq_self)
  then show ?thesis unfolding char_to_uint64_def w k_def [symmetric] .
qed

lemma key_step:
  fixes x :: "64 word"
  assumes "k < 256"
  shows "push_bit 8 x OR of_nat k = 256 * x + of_nat k"
proof -
  have "push_bit 8 x AND of_nat k = (0 :: 64 word)"
  proof (rule bit_word_eqI)
    fix n assume "n < LENGTH(64)"
    have "\<not> bit k n" if "8 \<le> n"
    proof -
      have "(2::nat) ^ 8 \<le> 2 ^ n" using that by (rule power_increasing) simp
      with assms have "k div 2 ^ n = 0" by simp
      then show ?thesis by (simp add: bit_iff_odd)
    qed
    then show "bit (push_bit 8 x AND of_nat k) n = bit (0 :: 64 word) n"
      by (auto simp: bit_simps bit_of_nat_iff)
  qed
  then have "push_bit 8 x OR of_nat k = push_bit 8 x + of_nat k" by (simp add: disjunctive_add_eq_or)
  then show ?thesis by (simp add: push_bit_eq_mult mult.commute)
qed


definition byte_key :: "string \<Rightarrow> 64 word" where
  "byte_key s = of_nat (pack s)"

lemma byte_key_snoc:
  assumes "key_chars (s @ [c])"
  shows "push_bit 8 (byte_key s) OR char_to_uint64 c = byte_key (s @ [c])"
proof -
  have "char_to_uint64 c = of_nat (of_char c)"
    using assms by (intro char_to_uint64) (simp add: key_chars_def)
  then have "push_bit 8 (byte_key s) OR char_to_uint64 c = 256 * byte_key s + of_nat (of_char c)"
    by (simp only: key_step [OF of_char_less])
  then show ?thesis by (simp add: byte_key_def pack_append mult.commute)
qed

lemma PluralsKey_eq:
  "key_chars (map ConvertKeyChar s) \<Longrightarrow> PluralsKey s = byte_key (map ConvertKeyChar s)"
proof (induction s rule: rev_induct)
  case Nil
  then show ?case by (simp add: PluralsKey_def byte_key_def)
next
  case (snoc c s)
  then have "PluralsKey s = byte_key (map ConvertKeyChar s)" by (simp add: key_chars_def)
  then show ?case using byte_key_snoc [of "map ConvertKeyChar s" "ConvertKeyChar c"] snoc.prems
    by (simp add: PluralsKey_def)
qed

lemma pack_at_least: "key_chars s \<Longrightarrow> s \<noteq> [] \<Longrightarrow> 256 ^ (length s - 1) \<le> pack s"
  by (cases s) (auto simp: key_chars_def Suc_le_eq intro: trans_le_add1)

lemma pack_length:
  assumes "key_chars s" "key_chars t" "pack s = pack t"
  shows "length s \<le> length t"
proof (rule ccontr)
  assume "\<not> length s \<le> length t"
  then have "length t \<le> length s - 1" "s \<noteq> []" by auto
  then have "(256::nat) ^ length t \<le> pack s"
    using pack_at_least [OF assms(1)] power_increasing [of "length t" "length s - 1" "256::nat"]
    by linarith
  then show False using pack_less [of t] assms(3) by simp
qed

text \<open>Eight characters fill the key; those before them are shifted out.\<close>

lemma byte_key_inject:
  assumes s: "key_chars s" and t: "key_chars t" "length t \<le> 7"
  shows "byte_key s = byte_key t \<longleftrightarrow> s = t"
proof
  assume eq: "byte_key s = byte_key t"
  have t_less: "pack t < 256 ^ 7"
    using pack_less [of t] power_increasing [OF t(2), of "256::nat"] by simp
  have cut: "pack s mod 2 ^ 64 = pack t mod 2 ^ 64"
    using eq by (simp add: byte_key_def word_of_nat_eq_iff take_bit_eq_mod)
  show "s = t"
  proof (cases "length s \<le> 8")
    case True
    have "pack s < 256 ^ 8"
      using pack_less [of s] power_increasing [OF True, of "256::nat"] by simp
    then have same: "pack s = pack t" using cut t_less by simp
    then show ?thesis
      using pack_inject [OF _ same] pack_length [OF s t(1) same] pack_length [OF t(1) s same [symmetric]]
      by simp
  next
    case False
    let ?u = "drop (length s - 8) s"
    have u: "key_chars ?u" "length ?u = 8" "?u \<noteq> []"
      using s False by (auto simp: key_chars_def dest: in_set_dropD)
    have "pack s = pack (take (length s - 8) s) * 256 ^ 8 + pack ?u"
      using pack_append [of "take (length s - 8) s" ?u] u(2) by (simp only: append_take_drop_id)
    then have "pack s mod 2 ^ 64 = pack ?u mod 2 ^ 64" by simp
    moreover have "pack ?u < 2 ^ 64" using pack_less [of ?u] u(2) by simp
    ultimately have "pack ?u = pack t" using cut t_less by simp
    moreover have "256 ^ 7 \<le> pack ?u" using pack_at_least [OF u(1,3)] u(2) by simp
    ultimately show ?thesis using t_less by simp
  qed
qed simp

text \<open>A key is zero only for the empty identifier.\<close>

lemma byte_key_0: "key_chars s \<Longrightarrow> byte_key s = 0 \<longleftrightarrow> s = []"
  using byte_key_inject [of s "[]"] by (simp add: key_chars_def byte_key_def)


lemma table_keys: "list_all (\<lambda>(v, m). key_chars (map ConvertKeyChar v) \<and> length v \<le> 7) GeneratePluralRulesMap"
  by code_simp

text \<open>The method of a language by its name, and the parent of a name: what comes before a dash
  that is not at its start.\<close>

definition named_method :: "string \<Rightarrow> plural_method option" where
  "named_method s = map_of (map (\<lambda>(v, m). (map ConvertKeyChar v, m)) GeneratePluralRulesMap) s"

definition parent_of :: "string \<Rightarrow> string option" where
  "parent_of s = (case s of [] \<Rightarrow> None
     | c # cs \<Rightarrow> if CHR ''-'' \<in> set cs then Some (c # takeWhile (\<lambda>x. x \<noteq> CHR ''-'') cs) else None)"

lemma find_named:
  assumes s: "key_chars s"
  shows "find_plural_method (byte_key s) = named_method s"
proof -
  have "list_all (\<lambda>(v, m). key_chars (map ConvertKeyChar v) \<and> length v \<le> 7) tab \<Longrightarrow>
      map_of (map (\<lambda>(v, m). (PluralsKey v, m)) tab) (byte_key s) =
      map_of (map (\<lambda>(v, m). (map ConvertKeyChar v, m)) tab) s" for tab :: "(string \<times> plural_method) list"
  proof (induction tab)
    case (Cons e tab)
    obtain v m where e: "e = (v, m)" by (cases e)
    have v: "key_chars (map ConvertKeyChar v)" "length (map ConvertKeyChar v) \<le> 7"
      using Cons.prems e by simp_all
    have "PluralsKey v = byte_key s \<longleftrightarrow> map ConvertKeyChar v = s"
      using byte_key_inject [OF s v] PluralsKey_eq [OF v(1)] by metis
    then show ?case using Cons e by auto
  qed simp
  then show ?thesis using table_keys by (simp add: find_plural_method_def named_method_def)
qed

lemma parent_of_snoc:
  "parent_of (s @ [c]) = (case parent_of s of Some p \<Rightarrow> Some p
     | None \<Rightarrow> if c = CHR ''-'' \<and> s \<noteq> [] then Some s else None)"
proof (cases s)
  case (Cons a cs)
  have "takeWhile (\<lambda>x. x \<noteq> CHR ''-'') (cs @ [c]) =
      (if CHR ''-'' \<in> set cs then takeWhile (\<lambda>x. x \<noteq> CHR ''-'') cs
       else if c = CHR ''-'' then cs else cs @ [c])"
    by (induction cs) auto
  then show ?thesis using Cons by (auto simp: parent_of_def)
qed (simp add: parent_of_def)

lemma parent_of_chars: "key_chars s \<Longrightarrow> parent_of s = Some p \<Longrightarrow> key_chars p \<and> p \<noteq> []"
  by (auto simp: parent_of_def key_chars_def split: list.splits if_splits dest!: set_takeWhileD)

definition parent_key :: "string \<Rightarrow> 64 word" where
  "parent_key s = (case parent_of s of None \<Rightarrow> 0 | Some p \<Rightarrow> byte_key p)"

lemma update_key_fold:
  "key_chars (map ConvertKeyChar s) \<Longrightarrow>
   fold update_key_step s (0, 0) = (parent_key (map ConvertKeyChar s), byte_key (map ConvertKeyChar s))"
proof (induction s rule: rev_induct)
  case Nil
  then show ?case by (simp add: parent_key_def parent_of_def byte_key_def)
next
  case (snoc c s)
  let ?s = "map ConvertKeyChar s" and ?c = "ConvertKeyChar c"
  have s: "key_chars ?s" "key_chars (?s @ [?c])" using snoc.prems by (simp_all add: key_chars_def)
  have zero: "parent_key ?s = 0 \<longleftrightarrow> parent_of ?s = None"
    using parent_of_chars [OF s(1)] byte_key_0 by (auto simp: parent_key_def split: option.splits)
  have "(if ?c = CHR ''-'' \<and> parent_key ?s = 0 then byte_key ?s else parent_key ?s) = parent_key (?s @ [?c])"
    using zero byte_key_0 [OF s(1)] unfolding parent_key_def parent_of_snoc
    by (auto simp: byte_key_def split: option.splits)
  then show ?case using snoc.IH [OF s(1)] byte_key_snoc [OF s(2)] by (simp add: update_key_step_def Let_def)
qed

section \<open>Properties of the rules of a language\<close>

text \<open>C33. Packing the language into 64 bits loses nothing: for every identifier of non-zero
  ASCII characters, of any length, \<open>UpdatePluralRules\<close> chooses the method the table gives to
  the identifier in lower case with dashes, else the one of its parent (the part before the
  first dash that is not at the start), else the rule without plural forms.\<close>

theorem update_plural_rules_by_name:
  assumes "key_chars (map ConvertKeyChar languageId)"
  shows "UpdatePluralRules languageId =
    (case named_method (map ConvertKeyChar languageId) of
       Some m \<Rightarrow> m
     | None \<Rightarrow> (case parent_of (map ConvertKeyChar languageId) of
         Some p \<Rightarrow> (case named_method p of Some m \<Rightarrow> m | None \<Rightarrow> Method1)
       | None \<Rightarrow> Method1))"
proof -
  let ?s = "map ConvertKeyChar languageId"
  have p: "find_plural_method (byte_key p) = named_method p" "byte_key p \<noteq> 0" if "parent_of ?s = Some p" for p
    using parent_of_chars [OF assms that] find_named [of p] byte_key_0 [of p] by simp_all
  show ?thesis
    by (auto simp: UpdatePluralRules_def update_key_fold [OF assms] find_named [OF assms] parent_key_def p
        split: option.split)
qed

theorem update_plural_rules_by_name_witness:
  "UpdatePluralRules ''pt_PT'' = Method2ast \<and> UpdatePluralRules ''pt-BR'' = Method2hy \<and>
   UpdatePluralRules ''zh-Hans-CN'' = Method1"
proof -
  have chars: "key_chars (map ConvertKeyChar ''pt_PT'')" "key_chars (map ConvertKeyChar ''pt-BR'')"
    "key_chars (map ConvertKeyChar ''zh-Hans-CN'')" by code_simp+
  have low: "map ConvertKeyChar ''pt_PT'' = ''pt-pt''" "map ConvertKeyChar ''pt-BR'' = ''pt-br''"
    "map ConvertKeyChar ''zh-Hans-CN'' = ''zh-hans-cn''" by code_simp+
  have names: "named_method ''pt-pt'' = Some Method2ast" "named_method ''pt-br'' = None"
    "named_method ''pt'' = Some Method2hy" "named_method ''zh-hans-cn'' = None" "named_method ''zh'' = None"
    by code_simp+
  have parents: "parent_of ''pt-br'' = Some ''pt''" "parent_of ''zh-hans-cn'' = Some ''zh''"
    by (simp_all add: parent_of_def)
  show ?thesis
    using chars [THEN update_plural_rules_by_name] by (simp only: low names parents option.case simp_thms)
qed


section \<open>Strings with tags\<close>

text \<open>
  A language string in pieces: plain text, a formatting command without an argument and a tag,
  the way \<open>ValueParser\<close> (lang/lang\_instance.cpp) and \<open>PrepareCommandString\<close>
  (codegen/lang/parsed\_file.cpp) write it.
\<close>

datatype piece = Plain qstring | Format "16 word" | Tag nat

primrec piece_units :: "piece \<Rightarrow> qstring" where
  "piece_units (Plain us) = us"
| "piece_units (Format c) = [TextCommand, c, TextCommand]"
| "piece_units (Tag t) = [TextCommand, TextCommandLangTag, of_nat (0x20 + t), TextCommand]"

definition render :: "piece list \<Rightarrow> qstring" where
  "render ps = concat (map piece_units ps)"

primrec piece_ok :: "piece \<Rightarrow> bool" where
  "piece_ok (Plain us) = (TextCommand \<notin> set us)"
| "piece_ok (Format c) = (1 \<le> unat c \<and> unat c \<le> 8)"
| "piece_ok (Tag t) = (0x20 + t < 2 ^ 16)"

lemma render_simps [simp]: "render [] = []" "render (p # ps) = piece_units p @ render ps"
  by (simp_all add: render_def)

lemma find_tag_plain:
  "TextCommand \<notin> set us \<Longrightarrow>
   find_tag_from (pre @ us @ rest) tag (length pre) = find_tag_from (pre @ us @ rest) tag (length pre + length us)"
proof (induction us arbitrary: pre)
  case (Cons u us)
  have "find_tag_from (pre @ (u # us) @ rest) tag (length pre) =
      find_tag_from (pre @ (u # us) @ rest) tag (length pre + 1)"
  proof -
    have "u \<noteq> TextCommand" using Cons.prems by auto
    then show ?thesis by (subst find_tag_from.simps) simp
  qed
  then show ?case using Cons.IH [of "pre @ [u]"] Cons.prems by simp
qed simp

lemma find_tag_format:
  assumes "1 \<le> unat c" "unat c \<le> 8"
  shows "find_tag_from (pre @ [TextCommand, c, TextCommand] @ rest) tag (length pre) =
    find_tag_from (pre @ [TextCommand, c, TextCommand] @ rest) tag (length pre + 3)"
proof -
  let ?s = "pre @ [TextCommand, c, TextCommand] @ rest"
  have "unat TextCommandLangTag = 32" by (simp add: TextCommandLangTag_def)
  then have c: "c \<noteq> TextCommandLangTag" using assms(2) by auto
  have at: "?s ! length pre = TextCommand" "?s ! (length pre + 1) = c" "?s ! (length pre + 2) = TextCommand"
    by (simp_all add: nth_append)
  have "command_end ?s (length pre + 2) True = Some (length pre + 2)"
    using assms at by (simp add: command_end_def Let_def)
  then have "textSkipCommand ?s (length pre) True = length pre + 3"
    using at by (simp add: textSkipCommand_def)
  then show ?thesis using c at by (subst find_tag_from.simps) (simp add: Let_def)
qed

lemma find_tag_tag:
  assumes "0x20 + t < 2 ^ 16"
  shows "find_tag_from (pre @ piece_units (Tag t) @ rest) tag (length pre) =
    (if t = tag then Some (length pre)
     else find_tag_from (pre @ piece_units (Tag t) @ rest) tag (length pre + 4))"
proof -
  let ?s = "pre @ piece_units (Tag t) @ rest"
  have "?s ! length pre = TextCommand" "?s ! (length pre + 1) = TextCommandLangTag"
    "?s ! (length pre + 2) = of_nat (0x20 + t)" "?s ! (length pre + 3) = TextCommand"
    by (simp_all add: nth_append)
  moreover have "unat (of_nat (0x20 + t) :: 16 word) = 0x20 + t"
    using assms by (simp only: unsigned_of_nat) (simp add: take_bit_nat_eq_self)
  ultimately show ?thesis by (subst find_tag_from.simps) (simp add: kTagReplacementSize_def)
qed

lemma find_tag_pieces:
  "\<forall>p\<in>set ps. piece_ok p \<Longrightarrow>
   find_tag_from (pre @ render ps) tag (length pre) =
     (if Tag tag \<in> set ps
      then Some (length pre + length (render (takeWhile (\<lambda>p. p \<noteq> Tag tag) ps))) else None)"
proof (induction ps arbitrary: pre)
  case Nil
  then show ?case by (subst find_tag_from.simps) simp
next
  case (Cons p ps)
  have p: "piece_ok p" and ps: "\<forall>p\<in>set ps. piece_ok p" using Cons.prems by simp_all
  show ?case
  proof (cases "p = Tag tag")
    case True
    then show ?thesis using find_tag_tag [of tag pre "render ps" tag] p by simp
  next
    case False
    have "find_tag_from (pre @ render (p # ps)) tag (length pre) =
        find_tag_from ((pre @ piece_units p) @ render ps) tag (length (pre @ piece_units p))"
    proof (cases p)
      case (Plain us)
      then show ?thesis using find_tag_plain [of us pre "render ps" tag] p by simp
    next
      case (Format c)
      then show ?thesis using find_tag_format [of c pre "render ps" tag] p by (simp add: eval_nat_numeral)
    next
      case (Tag t)
      have "length (pre @ piece_units p) = length pre + 4" by (simp add: Tag)
      moreover have "t \<noteq> tag" using False Tag by simp
      ultimately show ?thesis
        using find_tag_tag [of t pre "render ps" tag] p unfolding Tag
        by (simp only: render_simps append_assoc piece_ok.simps if_False)
    qed
    also have "\<dots> = (if Tag tag \<in> set ps
        then Some (length (pre @ piece_units p) + length (render (takeWhile (\<lambda>p. p \<noteq> Tag tag) ps))) else None)"
      by (rule Cons.IH [OF ps])
    finally show ?thesis using False by simp
  qed
qed

lemma replace_tag_pieces:
  assumes "\<forall>p\<in>set ps. piece_ok p"
  shows "ReplaceTag (render ps) tag replacement =
    (if Tag tag \<in> set ps
     then render (takeWhile (\<lambda>p. p \<noteq> Tag tag) ps) @ replacement @ render (tl (dropWhile (\<lambda>p. p \<noteq> Tag tag) ps))
     else render ps)"
proof -
  note find = find_tag_pieces [OF assms, of "[]" tag]
  show ?thesis
  proof (cases "Tag tag \<in> set ps")
    case False
    then show ?thesis using find by (simp add: ReplaceTag_def FindTagReplacementPosition_def)
  next
    case True
    let ?a = "takeWhile (\<lambda>p. p \<noteq> Tag tag) ps" and ?d = "dropWhile (\<lambda>p. p \<noteq> Tag tag) ps"
    have "?d \<noteq> []" using True by (simp add: dropWhile_eq_Nil_conv)
    then have "?d = Tag tag # tl ?d" using hd_dropWhile [of "\<lambda>p. p \<noteq> Tag tag" ps] by (cases ?d) auto
    then have ps: "ps = ?a @ Tag tag # tl ?d" by (metis takeWhile_dropWhile_id)
    have r: "render ps = render ?a @ piece_units (Tag tag) @ render (tl ?d)"
      by (subst ps) (simp add: render_def)
    have pos: "FindTagReplacementPosition (render ps) tag = int (length (render ?a))"
      using find True by (simp add: FindTagReplacementPosition_def)
    have "replace_tag_at (a @ piece_units (Tag tag) @ b) replacement (int (length a)) = a @ replacement @ b"
      for a b
    proof -
      have "nat (int (length a) + 4) = length a + 4" by simp
      then show ?thesis by (auto simp: replace_tag_at_def kTagReplacementSize_def)
    qed
    then have "replace_tag_at (render ps) replacement (int (length (render ?a))) =
        render ?a @ replacement @ render (tl ?d)" by (simp only: r)
    then show ?thesis using True pos by (simp add: ReplaceTag_def)
  qed
qed

text \<open>C35. Replacing a tag of a language string puts the replacement in the place of its first
  occurrence and changes nothing else; a string without the tag stays as it is. Formatting
  commands and other tags in front are skipped as wholes, so no unit of them is taken for the
  tag.\<close>

theorem replace_tag_in_pieces:
  assumes "\<forall>p\<in>set ps. piece_ok p"
  shows "ReplaceTag (render ps) tag replacement =
    (if Tag tag \<in> set ps
     then render (takeWhile (\<lambda>p. p \<noteq> Tag tag) ps) @ replacement @ render (tl (dropWhile (\<lambda>p. p \<noteq> Tag tag) ps))
     else render ps)"
  by (rule replace_tag_pieces [OF assms])

theorem replace_tag_in_pieces_witness:
  "ReplaceTag (render [Plain [65], Format 1, Tag 3, Tag 7, Plain [66]]) 7 [99, 100] =
   [65, 0x10, 1, 0x10] @ piece_units (Tag 3) @ [99, 100, 66]"
  using replace_tag_in_pieces [of "[Plain [65], Format 1, Tag 3, Tag 7, Plain [66]]" 7 "[99, 100]"]
  by (simp add: TextCommand_def)


section \<open>The operands of a printed number\<close>

definition digits_value :: "string \<Rightarrow> int" where
  "digits_value s = foldl (\<lambda>a c. 10 * a + digit_value c) 0 s"

lemma digits_value_snoc [simp]: "digits_value (s @ [c]) = 10 * digits_value s + digit_value c"
  by (simp add: digits_value_def)

lemma digits_value_Nil [simp]: "digits_value [] = 0"
  by (simp add: digits_value_def)

lemma digit_value_bounds: "is_digit c \<Longrightarrow> 0 \<le> digit_value c \<and> digit_value c \<le> 9"
proof -
  assume "is_digit c"
  moreover have "(of_char c :: int) = int (of_char c :: nat)" by (rule of_nat_of_char [symmetric])
  ultimately show ?thesis by (simp add: is_digit_def digit_value_def)
qed

lemma digits_value_bounds: "list_all is_digit s \<Longrightarrow> 0 \<le> digits_value s \<and> digits_value s < 10 ^ length s"
proof (induction s rule: rev_induct)
  case (snoc c s)
  then show ?case using digit_value_bounds [of c] by (auto simp: list_all_iff)
qed simp

lemma nonzero_digit: "is_digit c \<Longrightarrow> c \<noteq> CHR ''0'' \<Longrightarrow> digit_value c mod 10 \<noteq> 0"
proof -
  assume c: "is_digit c" "c \<noteq> CHR ''0''"
  have "(of_char c :: nat) \<noteq> 48"
  proof
    assume "(of_char c :: nat) = 48"
    then have "(of_char c :: nat) = of_char CHR ''0''" by simp
    then show False using c(2) by (simp only: of_char_eq_iff)
  qed
  moreover have "(of_char c :: int) = int (of_char c :: nat)" by (rule of_nat_of_char [symmetric])
  ultimately show ?thesis using c(1) by (simp add: is_digit_def digit_value_def)
qed

lemma digits_value_zeros: "digits_value (s @ replicate k CHR ''0'') = digits_value s * 10 ^ k"
proof (induction k)
  case (Suc k)
  have "s @ replicate (Suc k) CHR ''0'' = (s @ replicate k CHR ''0'') @ [CHR ''0'']"
    by (simp add: replicate_append_same)
  then show ?case using Suc by (simp only: digits_value_snoc) (simp add: digit_value_def)
qed simp

lemma digits_value_leading: "digits_value (replicate k CHR ''0'' @ s) = digits_value s"
  by (induction k) (simp_all add: digits_value_def digit_value_def)

lemma NonZeroPart_eq:
  assumes "list_all is_digit s" "length s \<le> 9"
  shows "NonZeroPartToInt s = digits_value s"
proof -
  define z where "z = length (takeWhile (\<lambda>ch. ch = CHR ''0'') s)"
  have split: "s = replicate z CHR ''0'' @ drop z s"
  proof -
    have "takeWhile (\<lambda>ch. ch = CHR ''0'') s = replicate z CHR ''0''"
      unfolding z_def by (rule replicate_eqI) (auto dest: set_takeWhileD)
    then show ?thesis by (metis takeWhile_dropWhile_id z_def dropWhile_eq_drop)
  qed
  have v: "digits_value (drop z s) = digits_value s" by (subst (2) split) (rule digits_value_leading [symmetric])
  have d: "list_all is_digit (drop z s)" using assms(1) by (auto simp: list_all_iff dest: in_set_dropD)
  have "digits_value s < 10 ^ 9"
    using digits_value_bounds [OF assms(1)] power_increasing [OF assms(2), of "10::int"] by simp
  then have "digits_value s < 2 ^ 31" by simp
  then have to_int: "digits_to_int (drop z s) = digits_value s" if "drop z s \<noteq> []"
    using that d v by (simp add: digits_to_int_def digits_value_def Let_def)
  show ?thesis
  proof (cases "drop z s = []")
    case True
    then have "digits_value s = 0" using v by simp
    moreover have "digits_to_int s = 0"
      using \<open>digits_value s = 0\<close> by (simp add: digits_to_int_def digits_value_def Let_def)
    ultimately show ?thesis using True by (simp add: NonZeroPartToInt_def z_def [symmetric] Let_def)
  next
    case False
    then show ?thesis using to_int by (auto simp: NonZeroPartToInt_def z_def [symmetric])
  qed
qed

lemma chop_all_split: "\<exists>k. s = chop_all c s @ replicate k c"
proof -
  have "rev s = takeWhile (\<lambda>x. x = c) (rev s) @ dropWhile (\<lambda>x. x = c) (rev s)" by simp
  moreover have "takeWhile (\<lambda>x. x = c) (rev s) = replicate (length (takeWhile (\<lambda>x. x = c) (rev s))) c"
    by (rule replicate_eqI) (auto dest: set_takeWhileD)
  ultimately show ?thesis unfolding chop_all_def by (metis rev_append rev_replicate rev_rev_ident)
qed

lemma chop_all_append: "chop_all c s \<noteq> [] \<Longrightarrow> chop_all c (r @ s) = r @ chop_all c s"
proof -
  assume "chop_all c s \<noteq> []"
  then obtain x where "x \<in> set (rev s)" "x \<noteq> c" by (auto simp: chop_all_def)
  then have "dropWhile (\<lambda>x. x = c) (rev s @ rev r) = dropWhile (\<lambda>x. x = c) (rev s) @ rev r"
    by (rule dropWhile_append1)
  then show ?thesis by (simp add: chop_all_def)
qed

lemma chop_all_last: "chop_all c s \<noteq> [] \<Longrightarrow> last (chop_all c s) \<noteq> c"
  using hd_dropWhile [of "\<lambda>x. x = c" "rev s"] by (simp add: chop_all_def last_rev)

text \<open>What \<open>QString::number(y, 'f', 6)\<close> prints of a number with at most six decimals.\<close>

definition prints_exactly :: "(rat \<Rightarrow> string) \<Rightarrow> rat \<Rightarrow> bool" where
  "prints_exactly number_f6 y \<longleftrightarrow> (\<exists>ip fp. number_f6 y = ip @ ''.'' @ fp \<and> CHR ''.'' \<notin> set ip \<and>
     length fp = 6 \<and> list_all is_digit fp \<and> y = of_int \<lfloor>y\<rfloor> + of_int (digits_value fp) / 10 ^ 6)"

definition decimal_operands :: "rat \<Rightarrow> nat \<Rightarrow> int \<Rightarrow> operands" where
  "decimal_operands y v f =
     \<lparr> op_n = y, op_i = \<lfloor>y\<rfloor>, op_v = int v, op_f = f, op_t = f \<rparr>"

lemma ceiling_eq_floor_iff: "\<lceil>y\<rceil> = \<lfloor>y\<rfloor> \<longleftrightarrow> y = of_int \<lfloor>y::rat\<rfloor>"
  by linarith

lemma to_int_fits:
  "\<bar>x\<bar> \<le> 2 ^ 31 - 1 \<Longrightarrow> to_int \<lfloor>\<bar>x::rat\<bar>\<rfloor> = Inr \<lfloor>\<bar>x\<bar>\<rfloor> \<and> to_int \<lceil>\<bar>x\<bar>\<rceil> = Inr \<lceil>\<bar>x\<bar>\<rceil>"
proof -
  assume x: "\<bar>x\<bar> \<le> 2 ^ 31 - 1"
  have "0 \<le> \<lfloor>\<bar>x\<bar>\<rfloor>" "0 \<le> \<lceil>\<bar>x\<bar>\<rceil>" "\<lfloor>\<bar>x\<bar>\<rfloor> \<le> 2 ^ 31 - 1" "\<lceil>\<bar>x\<bar>\<rceil> \<le> 2 ^ 31 - 1"
    using x by (simp_all add: floor_le_iff ceiling_le_iff)
  then show ?thesis by (simp add: to_int_def)
qed

lemma digits_value_last: "s \<noteq> [] \<Longrightarrow> digits_value s mod 10 = digit_value (last s) mod 10"
  by (cases s rule: rev_cases) simp_all

lemma plural_operands_fraction:
  assumes x: "prints_exactly number_f6 \<bar>x\<bar>" and frac: "\<bar>x\<bar> \<noteq> of_int \<lfloor>\<bar>x\<bar>\<rfloor>"
    and fits: "\<bar>x\<bar> \<le> 2 ^ 31 - 1"
  shows "\<exists>ip fr. let v = length fr; f = digits_value fr in
    0 < f \<and> f mod 10 \<noteq> 0 \<and> number_operands (decimal_operands \<bar>x\<bar> v f) \<and>
    FormatDouble number_f6 \<bar>x\<bar> = ip @ CHR ''.'' # fr \<and>
    plural_operands_of number_f6 x =
      Inr \<lparr> po_n = - 1, po_i = \<lfloor>\<bar>x\<bar>\<rfloor>, po_v = int v, po_w = int v, po_f = f, po_t = f \<rparr>"
proof -
  let ?y = "\<bar>x\<bar>"
  obtain ip fp where fp: "number_f6 ?y = ip @ ''.'' @ fp" "CHR ''.'' \<notin> set ip" "length fp = 6"
    "list_all is_digit fp" "?y = of_int \<lfloor>?y\<rfloor> + of_int (digits_value fp) / 10 ^ 6"
    using x by (auto simp: prints_exactly_def)
  let ?s = "chop_all CHR ''0'' fp"
  obtain k where k: "fp = ?s @ replicate k CHR ''0''" using chop_all_split by blast
  have len: "length ?s + k = 6" using arg_cong [OF k, of length] fp(3) by simp
  have digits: "list_all is_digit ?s"
  proof -
    have "list_all is_digit (?s @ replicate k CHR ''0'')" using fp(4) k by metis
    then show ?thesis by simp
  qed
  have val: "digits_value fp = digits_value ?s * 10 ^ k"
    using arg_cong [OF k, of digits_value] by (simp only: digits_value_zeros)
  have pos: "digits_value fp \<noteq> 0" using fp(5) frac by auto
  then have s0: "?s \<noteq> []" using val by auto
  have chopped: "chop_all CHR ''0'' (number_f6 ?y) = (ip @ ''.'') @ ?s"
    using chop_all_append [OF s0, of "ip @ ''.''"] fp(1) by simp
  have "last ((ip @ ''.'') @ ?s) \<noteq> CHR ''.''"
  proof -
    have "is_digit (last ?s)" using digits s0 by (simp add: list_all_iff)
    then show ?thesis using s0 by (auto simp: is_digit_def)
  qed
  then have formatted: "FormatDouble number_f6 ?y = ip @ CHR ''.'' # ?s"
    using chopped by (simp add: FormatDouble_def chop_last_def)
  have "dropWhile (\<lambda>c. c \<noteq> CHR ''.'') (ip @ CHR ''.'' # ?s) = CHR ''.'' # ?s"
    using fp(2) by (induction ip) auto
  then have fraction: "tl (dropWhile (\<lambda>c. c \<noteq> CHR ''.'') (FormatDouble number_f6 ?y)) = ?s"
    using formatted by simp
  have f: "NonZeroPartToInt ?s = digits_value ?s" by (rule NonZeroPart_eq [OF digits]) (use len in simp)
  have b: "0 \<le> digits_value ?s" "digits_value ?s < 10 ^ length ?s" "digits_value ?s \<noteq> 0"
    using digits_value_bounds [OF digits] pos val by auto
  have "of_int (digits_value fp) / 10 ^ 6 = (of_int (digits_value ?s) * 10 ^ k / 10 ^ (length ?s + k) :: rat)"
    using val len by simp
  then have "?y = of_int \<lfloor>?y\<rfloor> + of_int (digits_value ?s) / 10 ^ length ?s"
    using fp(5) by (simp add: power_add)
  then have "number_operands (decimal_operands ?y (length ?s) (digits_value ?s))"
    using b by (simp add: number_operands_def decimal_operands_def)
  moreover have "plural_operands_of number_f6 x =
      Inr \<lparr> po_n = - 1, po_i = \<lfloor>?y\<rfloor>, po_v = int (length ?s), po_w = int (length ?s),
        po_f = digits_value ?s, po_t = digits_value ?s \<rparr>"
    using frac formatted fraction f ceiling_eq_floor_iff [of ?y] to_int_fits [OF fits]
    by (simp add: plural_operands_of_def Let_def)
  moreover have "digits_value ?s mod 10 \<noteq> 0"
  proof -
    have "is_digit (last ?s)" using digits s0 by (simp add: list_all_iff)
    moreover have "last ?s \<noteq> CHR ''0''" by (rule chop_all_last [OF s0])
    ultimately have "digit_value (last ?s) mod 10 \<noteq> 0" by (rule nonzero_digit)
    then show ?thesis by (simp add: digits_value_last [OF s0])
  qed
  ultimately show ?thesis
    using b formatted by (intro exI [of _ ip] exI [of _ ?s]) (simp add: Let_def)
qed

lemma plural_operands_integer:
  assumes "\<bar>x\<bar> = of_int \<lfloor>\<bar>x\<bar>\<rfloor>" "\<bar>x\<bar> \<le> 2 ^ 31 - 1"
  shows "number_operands (decimal_operands \<bar>x\<bar> 0 0) \<and>
    plural_operands_of number_f6 x =
      Inr \<lparr> po_n = \<lfloor>\<bar>x\<bar>\<rfloor>, po_i = \<lfloor>\<bar>x\<bar>\<rfloor>, po_v = 0, po_w = 0, po_f = 0, po_t = 0 \<rparr>"
  using assms ceiling_eq_floor_iff [of "\<bar>x\<bar>"] to_int_fits [OF assms(2)]
  by (simp add: number_operands_def decimal_operands_def plural_operands_of_def Let_def NonZeroPartToInt_def)

text \<open>C34. \<open>Lang::Plural\<close> chooses the string by the chart, for the number as it is printed. Take a
  number that is an integer or has at most six decimals and whose parts fit an \<open>int\<close>, and
  its digits: \<open>v\<close> decimals with the value \<open>f\<close> and no trailing zero, which are those of the
  printed text when the number is not an integer. The string is the one of the category of
  these digits in the rules of the current language, or of the default one when the pack has
  no own forms for the key; the text is the integer or the decimal number.\<close>

theorem plural_string_follows_chart:
  assumes "prints_exactly number_f6 \<bar>x\<bar> \<or> \<bar>x\<bar> = of_int \<lfloor>\<bar>x\<bar>\<rfloor>" "\<bar>x\<bar> \<le> 2 ^ 31 - 1"
  shows "\<exists>v f. number_operands (decimal_operands \<bar>x\<bar> v f) \<and> (v = 0 \<or> f mod 10 \<noteq> 0) \<and>
    (\<bar>x\<bar> = of_int \<lfloor>\<bar>x\<bar>\<rfloor> \<or> (\<exists>ip fr. FormatDouble number_f6 \<bar>x\<bar> = ip @ CHR ''.'' # fr \<and>
       v = length fr \<and> f = digits_value fr)) \<and>
    Plural number_f6 number nonDefault getValue current keyBase x =
      Inr (getValue (keyBase + category_shift (first_category (decimal_operands \<bar>x\<bar> v f)
            (chart (if nonDefault keyBase then current else ChoosePluralDefault)))),
        if \<bar>x\<bar> = of_int \<lfloor>\<bar>x\<bar>\<rfloor> then number (round x) else FormatDouble number_f6 x)"
proof -
  let ?m = "if nonDefault keyBase then current else ChoosePluralDefault"
  have m: "(if current \<noteq> ChoosePluralDefault \<and> nonDefault keyBase then current else ChoosePluralDefault) = ?m"
    by simp
  obtain v f where vf: "number_operands (decimal_operands \<bar>x\<bar> v f)" "0 \<le> f" "v = 0 \<or> f mod 10 \<noteq> 0"
    "\<bar>x\<bar> = of_int \<lfloor>\<bar>x\<bar>\<rfloor> \<or> (\<exists>ip fr. FormatDouble number_f6 \<bar>x\<bar> = ip @ CHR ''.'' # fr \<and>
       v = length fr \<and> f = digits_value fr)"
    "plural_operands_of number_f6 x = Inr \<lparr> po_n = code_n (decimal_operands \<bar>x\<bar> v f), po_i = \<lfloor>\<bar>x\<bar>\<rfloor>,
       po_v = int v, po_w = int v, po_f = f, po_t = f \<rparr>"
  proof (cases "\<bar>x\<bar> = of_int \<lfloor>\<bar>x\<bar>\<rfloor>")
    case True
    show thesis
      by (rule that [of 0 0])
        (use True plural_operands_integer [OF True assms(2), of number_f6]
          in \<open>simp_all add: code_n_def decimal_operands_def\<close>)
  next
    case False
    then obtain ip fr where "0 < digits_value fr" "digits_value fr mod 10 \<noteq> 0"
      "number_operands (decimal_operands \<bar>x\<bar> (length fr) (digits_value fr))"
      "FormatDouble number_f6 \<bar>x\<bar> = ip @ CHR ''.'' # fr"
      "plural_operands_of number_f6 x = Inr \<lparr> po_n = - 1, po_i = \<lfloor>\<bar>x\<bar>\<rfloor>, po_v = int (length fr),
         po_w = int (length fr), po_f = digits_value fr, po_t = digits_value fr \<rparr>"
      using plural_operands_fraction [of number_f6 x] assms by (auto simp: Let_def)
    then show thesis
      by (intro that [of "length fr" "digits_value fr"]) (auto simp: code_n_def decimal_operands_def)
  qed
  have "call_method ?m (code_n (decimal_operands \<bar>x\<bar> v f)) \<lfloor>\<bar>x\<bar>\<rfloor> (int v) (int v) f f =
      category_shift (first_category (decimal_operands \<bar>x\<bar> v f) (chart ?m))"
    using category_of_operands [OF vf(1), of ?m "int v"] vf(2) by (simp add: decimal_operands_def)
  then have "Plural number_f6 number nonDefault getValue current keyBase x =
      Inr (getValue (keyBase + category_shift (first_category (decimal_operands \<bar>x\<bar> v f) (chart ?m))),
        if \<bar>x\<bar> = of_int \<lfloor>\<bar>x\<bar>\<rfloor> then number (round x) else FormatDouble number_f6 x)"
    by (simp add: Plural_def Let_def vf(5) m ceiling_eq_floor_iff)
  with vf(1,3,4) show ?thesis by blast
qed

text \<open>1.5 in Latvian, with the forms of the pack from key 100 on: one decimal, not six.\<close>

theorem plural_string_follows_chart_witness:
  "\<exists>v f. number_operands (decimal_operands (3 / 2) v f) \<and> v = 1 \<and> f = 5 \<and>
     Plural (\<lambda>_. ''1.500000'') (\<lambda>_. []) (\<lambda>_. True) id Method3lv 100 (3 / 2) =
       Inr (100 + category_shift (first_category (decimal_operands (3 / 2) v f) (chart Method3lv)), ''1.5'')"
proof -
  have fl: "\<lfloor>3 / 2 :: rat\<rfloor> = 1" by (rule floor_unique) simp_all
  have p: "prints_exactly (\<lambda>_. ''1.500000'') (3 / 2)"
    unfolding prints_exactly_def
    by (rule exI [of _ "''1''"], rule exI [of _ "''500000''"])
      (simp add: fl is_digit_def digits_value_def digit_value_def)
  have shown: "FormatDouble (\<lambda>_. ''1.500000'') y = ''1.5''" for y
    by (simp add: FormatDouble_def chop_all_def chop_last_def)
  have cut: "fr = ''5''" if "''1.5'' = ip @ CHR ''.'' # fr" for ip fr
    using that by (cases ip; cases "tl ip"; cases "tl (tl ip)") auto
  show ?thesis
    using plural_string_follows_chart [of "\<lambda>_. ''1.500000''" "3 / 2" "\<lambda>_. []" "\<lambda>_. True" id Method3lv 100] p
    by (auto simp: fl shown dest!: cut simp: digits_value_def digit_value_def)
qed

end
