(* ===== verification/Lang_File.thy ===== *)
theory Lang_File
  imports Lang_Tag
begin

text \<open>
  Language files: base/parse\_helper.cpp (comments are stripped first), lang/lang\_file\_parser.cpp
  (the key and value pairs of a file) and \<open>ValueParser\<close> of lang/lang\_instance.cpp (the tags of
  a value). Bytes are characters. A pointer into a text with its end is the list of what is left
  of it; \<open>stripComments\<close>, which looks back, keeps the positions. The generated functions over
  the keys and tags and \<open>QString::fromUtf8\<close> are parameters.
\<close>

section \<open>stripComments\<close>

datatype inside_comment = NoComment | SingleLine | MultiLine

record strip_state =
  st_ch :: nat
  st_offset :: nat
  st_comment :: inside_comment
  st_string :: bool
  st_result :: string

definition sub_bytes :: "string \<Rightarrow> nat \<Rightarrow> nat \<Rightarrow> string" where
  "sub_bytes content a b = take (b - a) (drop a content)"

definition feed_content :: "string \<Rightarrow> nat \<Rightarrow> strip_state \<Rightarrow> strip_state" where
  "feed_content content ch st =
     (if ch > st_offset st
      then st\<lparr> st_result := st_result st @ sub_bytes content (st_offset st) ch, st_offset := ch \<rparr>
      else st)"

definition feed_comment :: "nat \<Rightarrow> strip_state \<Rightarrow> strip_state" where
  "feed_comment ch st =
     (if ch > st_offset st then st\<lparr> st_result := st_result st @ '' '', st_offset := ch \<rparr> else st)"

text \<open>
  The test for an escaped quote. \<open>ch - 1 < begin\<close> never holds, so a quote that follows a
  backslash at the very start reads the byte before the content.
\<close>

definition quote_escaped :: "string \<Rightarrow> nat \<Rightarrow> bool outcome" where
  "quote_escaped content ch =
     (if ch > 0 \<and> content ! (ch - 1) = CHR 0x5C
      then if ch = 1 then Inl Undefined_behaviour else Inr (content ! (ch - 2) \<noteq> CHR 0x5C)
      else Inr False)"

definition toggle_string :: "string \<Rightarrow> strip_state \<Rightarrow> strip_state outcome" where
  "toggle_string content st =
     (if st_comment st = NoComment \<and> content ! st_ch st = CHR 0x22
      then bind_outcome (quote_escaped content (st_ch st))
             (\<lambda>escaped. Inr (if \<not> escaped then st\<lparr> st_string := \<not> st_string st \<rparr> else st))
      else Inr st)"

definition strip_char :: "string \<Rightarrow> strip_state \<Rightarrow> strip_state" where
  "strip_char content st =
     (let ch = st_ch st; currentChar = content ! ch;
          nextChar = (if ch + 1 = length content then CHR 0x00 else content ! (ch + 1));
          inside = st_comment st
      in if st_string st then st\<lparr> st_ch := ch + 1 \<rparr>
         else if inside = NoComment \<and> currentChar = CHR ''/'' \<and> nextChar = CHR ''/''
         then (feed_content content ch st)\<lparr> st_comment := SingleLine, st_ch := ch + 2 \<rparr>
         else if inside = SingleLine \<and> currentChar = CHR 0x0D \<and> nextChar = CHR 0x0A
         then (feed_comment ch st)\<lparr> st_ch := ch + 2, st_comment := NoComment \<rparr>
         else if inside = SingleLine \<and> currentChar = CHR 0x0A
         then (feed_comment ch st)\<lparr> st_ch := ch + 1, st_comment := NoComment \<rparr>
         else if inside = NoComment \<and> currentChar = CHR ''/'' \<and> nextChar = CHR ''*''
         then (feed_content content ch st)\<lparr> st_ch := ch + 2, st_comment := MultiLine \<rparr>
         else if inside = MultiLine \<and> currentChar = CHR ''*'' \<and> nextChar = CHR ''/''
         then (feed_comment (ch + 2) st)\<lparr> st_ch := ch + 2, st_comment := NoComment \<rparr>
         else if inside = MultiLine \<and> currentChar = CHR 0x0D \<and> nextChar = CHR 0x0A
         then (feed_content content (ch + 2) (feed_comment ch st))\<lparr> st_ch := ch + 2 \<rparr>
         else if inside = MultiLine \<and> currentChar = CHR 0x0A
         then (feed_content content (ch + 1) (feed_comment ch st))\<lparr> st_ch := ch + 1 \<rparr>
         else st\<lparr> st_ch := ch + 1 \<rparr>)"

lemma strip_char_advances: "st_ch st < st_ch (strip_char content st)"
  by (simp add: strip_char_def Let_def)

lemma toggle_string_ch: "toggle_string content st = Inr st' \<Longrightarrow> st_ch st' = st_ch st"
  by (auto simp: toggle_string_def bind_outcome_Inr_iff split: if_splits)

function strip_loop :: "string \<Rightarrow> strip_state \<Rightarrow> strip_state outcome" where
  "strip_loop content st =
     (if st_ch st \<ge> length content then Inr st
      else bind_outcome (toggle_string content st) (\<lambda>st'. strip_loop content (strip_char content st')))"
  by pat_completeness auto
termination
proof (relation "measure (\<lambda>(content, st). length content - st_ch st)")
  fix content st st'
  assume "\<not> length content \<le> st_ch st" "toggle_string content st = Inr st'"
  then show "((content, strip_char content st'), content, st) \<in> measure (\<lambda>(content, st). length content - st_ch st)"
    using strip_char_advances [of st' content] toggle_string_ch [of content st st'] by simp
qed simp

declare strip_loop.simps [simp del]

definition stripComments :: "string \<Rightarrow> string outcome" where
  "stripComments content =
     bind_outcome
       (strip_loop content
          \<lparr> st_ch = 0, st_offset = 0, st_comment = NoComment, st_string = False, st_result = [] \<rparr>)
       (\<lambda>st. Inr (if st_comment st = NoComment \<and> length content > st_offset st
                 then if st_result st = [] then content
                      else st_result st @ sub_bytes content (st_offset st) (length content)
                 else st_result st))"

section \<open>FileParser\<close>

definition is_whitespace :: "char \<Rightarrow> bool" where
  "is_whitespace c \<longleftrightarrow> c = CHR '' '' \<or> c = CHR 0x0A \<or> c = CHR 0x09 \<or> c = CHR 0x0D"

definition skipWhitespaces :: "string \<Rightarrow> string" where
  "skipWhitespaces from = dropWhile is_whitespace from"

definition is_key_char :: "char \<Rightarrow> bool" where
  "is_key_char c \<longleftrightarrow>
     (let k = of_char c :: nat
      in 97 \<le> k \<and> k \<le> 122 \<or> 65 \<le> k \<and> k \<le> 90 \<or> c = CHR ''_'' \<or> 48 \<le> k \<and> k \<le> 57 \<or> c = CHR ''#'')"

datatype lang_error =
    EmptyContent
  | ExpectedQuoteBeforeKey
  | ExpectedQuoteAfterKey string
  | UnexpectedEndOfFile string
  | ExpectedEquals string
  | ExpectedStringAfterEquals string
  | UnexpectedEndOfString string
  | ExpectedSemicolon string

text \<open>
  The loop over a quoted value: what is already appended, what is between \<open>start\<close> and \<open>from\<close>,
  and the rest. The result is the value with its last segment and the rest from the quote on.
\<close>

fun read_value :: "string \<Rightarrow> string \<Rightarrow> string \<Rightarrow> string \<Rightarrow> lang_error + string \<times> string" where
  "read_value key acc pending [] = Inl (UnexpectedEndOfFile key)"
| "read_value key acc pending (c # from) =
     (if c = CHR 0x22 then Inr (acc @ pending, c # from)
      else if c = CHR 0x0A then Inl (UnexpectedEndOfString key)
      else if c = CHR 0x5C then
        (case from of
           [] \<Rightarrow> Inl (UnexpectedEndOfFile key)
         | d # rest \<Rightarrow>
             if d = CHR 0x22 \<or> d = CHR 0x5C then read_value key (acc @ pending) [d] rest
             else if d = CHR ''n'' then read_value key (acc @ pending @ [CHR 0x0A]) [] rest
             else read_value key acc (pending @ [c]) from)
      else read_value key acc (pending @ [c]) from)"

text \<open>A pair with the text after it, \<open>None\<close> at the end of the file.\<close>

definition read_pair :: "string \<Rightarrow> lang_error + ((string \<times> string) \<times> string) option" where
  "read_pair from =
     (case skipWhitespaces from of
        [] \<Rightarrow> Inr None
      | q # from1 \<Rightarrow>
          if q \<noteq> CHR 0x22 then Inl ExpectedQuoteBeforeKey
          else
            let key = takeWhile is_key_char from1; from2 = dropWhile is_key_char from1
            in if from2 = [] \<or> hd from2 \<noteq> CHR 0x22 then Inl (ExpectedQuoteAfterKey key)
               else case skipWhitespaces (tl from2) of
                  [] \<Rightarrow> Inl (UnexpectedEndOfFile key)
                | e # from3 \<Rightarrow>
                    if e \<noteq> CHR ''='' then Inl (ExpectedEquals key)
                    else case skipWhitespaces from3 of
                        [] \<Rightarrow> Inl (UnexpectedEndOfFile key)
                      | q2 # from4 \<Rightarrow>
                          if q2 \<noteq> CHR 0x22 then Inl (ExpectedStringAfterEquals key)
                          else case read_value key [] [] from4 of
                              Inl err \<Rightarrow> Inl err
                            | Inr (val, from5) \<Rightarrow>
                                (case skipWhitespaces (tl from5) of
                                   [] \<Rightarrow> Inl (UnexpectedEndOfFile key)
                                 | sc # from6 \<Rightarrow>
                                     if sc \<noteq> CHR '';'' then Inl (ExpectedSemicolon key)
                                     else Inr (Some ((key, val), skipWhitespaces from6))))"

record 's lang_parser =
  lp_result :: "nat \<rightharpoonup> 's"
  lp_calls :: "(string \<times> string) list"
  lp_errors :: "lang_error list"

text \<open>
  How a pair is kept: with a callback it is passed on, without one the value of a requested key
  is inserted. A key that is not requested has an empty value that nobody sees.
\<close>

datatype parse_mode = Callback | Request "nat set"

definition keep_pair ::
    "(string \<Rightarrow> nat) \<Rightarrow> (string \<Rightarrow> 's) \<Rightarrow> parse_mode \<Rightarrow> string \<times> string \<Rightarrow> 's lang_parser \<Rightarrow> 's lang_parser" where
  "keep_pair key_index from_utf8 mode p st =
     (case mode of
        Callback \<Rightarrow> st\<lparr> lp_calls := lp_calls st @ [p] \<rparr>
      | Request keys \<Rightarrow>
          if key_index (fst p) \<in> keys
          then st\<lparr> lp_result := (lp_result st)(key_index (fst p) \<mapsto> from_utf8 (snd p)) \<rparr>
          else st)"

lemma skipWhitespaces_length: "length (skipWhitespaces s) \<le> length s"
  by (simp add: skipWhitespaces_def length_dropWhile_le)

lemma read_value_length: "read_value key acc pending from = Inr (val, rest) \<Longrightarrow> length rest \<le> length from"
  by (induction key acc pending "from" rule: read_value.induct)
    (auto split: if_splits list.splits)

lemma read_pair_shorter:
  assumes "read_pair from = Inr (Some (p, rest))"
  shows "length rest < length from"
proof -
  obtain q f1 where f1: "skipWhitespaces from = q # f1"
    using assms by (cases "skipWhitespaces from") (simp_all add: read_pair_def)
  let ?f2 = "dropWhile is_key_char f1"
  obtain e f3 where f3: "skipWhitespaces (tl ?f2) = e # f3"
    using assms f1 by (cases "skipWhitespaces (tl ?f2)") (simp_all add: read_pair_def Let_def split: if_splits)
  obtain q2 f4 where f4: "skipWhitespaces f3 = q2 # f4"
    using assms f1 f3 by (cases "skipWhitespaces f3") (simp_all add: read_pair_def Let_def split: if_splits)
  obtain val f5 where f5: "read_value (takeWhile is_key_char f1) [] [] f4 = Inr (val, f5)"
    using assms f1 f3 f4 by (auto simp: read_pair_def Let_def split: if_splits sum.splits)
  obtain sc f6 where f6: "skipWhitespaces (tl f5) = sc # f6"
    using assms f1 f3 f4 f5 by (cases "skipWhitespaces (tl f5)") (simp_all add: read_pair_def Let_def split: if_splits)
  have rest: "rest = skipWhitespaces f6"
    using assms f1 f3 f4 f5 f6 by (auto simp: read_pair_def Let_def split: if_splits)
  have "length (q # f1) \<le> length from" "length ?f2 \<le> length f1" "length (e # f3) \<le> length (tl ?f2)"
    "length (q2 # f4) \<le> length f3" "length f5 \<le> length f4" "length (sc # f6) \<le> length (tl f5)"
    "length rest \<le> length f6"
    using f1 f3 f4 f6 skipWhitespaces_length read_value_length [OF f5] rest length_dropWhile_le by metis+
  then show ?thesis by simp
qed

function parse_pairs ::
    "(string \<Rightarrow> nat) \<Rightarrow> (string \<Rightarrow> 's) \<Rightarrow> parse_mode \<Rightarrow> string \<Rightarrow> 's lang_parser \<Rightarrow> 's lang_parser" where
  "parse_pairs key_index from_utf8 mode content st =
     (if content = [] then st
      else case read_pair content of
          Inl err \<Rightarrow> st\<lparr> lp_errors := lp_errors st @ [err] \<rparr>
        | Inr None \<Rightarrow> st
        | Inr (Some (p, rest)) \<Rightarrow>
            parse_pairs key_index from_utf8 mode rest (keep_pair key_index from_utf8 mode p st))"
  by pat_completeness auto
termination
  by (relation "measure (\<lambda>(ki, fu, mode, content, st). length content)") (auto dest: read_pair_shorter)

declare parse_pairs.simps [simp del]

definition empty_parser :: "'s lang_parser" where
  "empty_parser = \<lparr> lp_result = Map.empty, lp_calls = [], lp_errors = [] \<rparr>"

definition parse_file ::
    "(string \<Rightarrow> nat) \<Rightarrow> (string \<Rightarrow> 's) \<Rightarrow> parse_mode \<Rightarrow> string \<Rightarrow> 's lang_parser" where
  "parse_file key_index from_utf8 mode content =
     (if content = [] then empty_parser\<lparr> lp_errors := [EmptyContent] \<rparr>
      else parse_pairs key_index from_utf8 mode content empty_parser)"

text \<open>The constructor over the content of a file: the comments are stripped first.\<close>

definition FileParser ::
    "(string \<Rightarrow> nat) \<Rightarrow> (string \<Rightarrow> 's) \<Rightarrow> parse_mode \<Rightarrow> string \<Rightarrow> 's lang_parser outcome" where
  "FileParser key_index from_utf8 mode content =
     bind_outcome (stripComments content) (\<lambda>stripped. Inr (parse_file key_index from_utf8 mode stripped))"


section \<open>Stripping\<close>

text \<open>
  Where the stripper is: \<open>pre\<close> of the content \<open>pre @ rest\<close> is read, \<open>out\<close> is what the result
  with the segment not yet fed would be.
\<close>

definition strip_at :: "string \<Rightarrow> inside_comment \<Rightarrow> bool \<Rightarrow> string \<Rightarrow> strip_state \<Rightarrow> bool" where
  "strip_at pre inside in_string out st \<longleftrightarrow>
     st_ch st = length pre \<and> st_offset st \<le> length pre \<and> st_comment st = inside \<and>
     st_string st = in_string \<and> st_result st @ drop (st_offset st) pre = out \<and>
     (st_result st = [] \<longrightarrow> st_offset st = 0)"

text \<open>One loop of the stripper takes it from one place to another.\<close>

definition strips_to :: "string \<Rightarrow> strip_state \<Rightarrow> (strip_state \<Rightarrow> bool) \<Rightarrow> bool" where
  "strips_to content st P \<longleftrightarrow> (\<exists>st'. strip_loop content st = strip_loop content st' \<and> P st')"

lemma strips_to_refl: "P st \<Longrightarrow> strips_to content st P"
  by (auto simp: strips_to_def)

lemma strips_to_trans:
  "strips_to content st P \<Longrightarrow> (\<And>st'. P st' \<Longrightarrow> strips_to content st' Q) \<Longrightarrow> strips_to content st Q"
  by (fastforce simp: strips_to_def)

lemma strips_to_mono: "strips_to content st P \<Longrightarrow> (\<And>st'. P st' \<Longrightarrow> Q st') \<Longrightarrow> strips_to content st Q"
  by (auto simp: strips_to_def)

lemma strip_loop_step:
  assumes "st_ch st < length content" "toggle_string content st = Inr st'"
  shows "strip_loop content st = strip_loop content (strip_char content st')"
  using assms by (subst strip_loop.simps) simp

lemma strips_step:
  assumes "st_ch st < length content" "toggle_string content st = Inr st'" "P (strip_char content st')"
  shows "strips_to content st P"
  using strip_loop_step [OF assms(1,2)] assms(3) by (auto simp: strips_to_def)

lemma strip_at_advance:
  assumes "strip_at pre inside s out st"
  shows "strip_at (pre @ [c]) inside s (out @ [c]) (st\<lparr> st_ch := st_ch st + 1 \<rparr>)"
  using assms by (auto simp: strip_at_def)

text \<open>A character that is no quote: in a string it is kept, outside when it starts no comment.\<close>

lemma strips_char:
  assumes "strip_at pre NoComment s out st" "c \<noteq> CHR 0x22" "s \<or> c \<noteq> CHR ''/''"
  shows "strips_to (pre @ c # rest) st (strip_at (pre @ [c]) NoComment s (out @ [c]))"
proof (rule strips_step)
  have ch: "st_ch st = length pre" "st_comment st = NoComment" "st_string st = s"
    using assms(1) by (simp_all add: strip_at_def)
  show "st_ch st < length (pre @ c # rest)" using ch by simp
  show "toggle_string (pre @ c # rest) st = Inr st" using ch assms(2) by (simp add: toggle_string_def)
  have "strip_char (pre @ c # rest) st = st\<lparr> st_ch := st_ch st + 1 \<rparr>"
    using ch assms(3) by (auto simp: strip_char_def Let_def)
  then show "strip_at (pre @ [c]) NoComment s (out @ [c]) (strip_char (pre @ c # rest) st)"
    using strip_at_advance [OF assms(1)] by simp
qed

lemma strips_chars:
  assumes "strip_at pre NoComment s out st" "CHR 0x22 \<notin> set cs" "s \<or> CHR ''/'' \<notin> set cs"
  shows "strips_to (pre @ cs @ rest) st (strip_at (pre @ cs) NoComment s (out @ cs))"
  using assms
proof (induction cs arbitrary: pre out st)
  case Nil
  then show ?case by (simp add: strips_to_refl)
next
  case (Cons c cs)
  have "strips_to (pre @ c # (cs @ rest)) st (strip_at (pre @ [c]) NoComment s (out @ [c]))"
    by (rule strips_char) (use Cons.prems in auto)
  then have "strips_to (pre @ c # (cs @ rest)) st (strip_at (pre @ c # cs) NoComment s (out @ c # cs))"
  proof (rule strips_to_trans)
    fix st' assume "strip_at (pre @ [c]) NoComment s (out @ [c]) st'"
    then show "strips_to (pre @ c # cs @ rest) st' (strip_at (pre @ c # cs) NoComment s (out @ c # cs))"
      using Cons.IH [of "pre @ [c]" "out @ [c]" st'] Cons.prems by auto
  qed
  then show ?case by simp
qed

text \<open>A quote that no backslash escapes opens or closes a string.\<close>

definition closes_string :: "string \<Rightarrow> bool" where
  "closes_string pre \<longleftrightarrow> pre = [] \<or> last pre \<noteq> CHR 0x5C \<or>
     (length pre \<ge> 2 \<and> pre ! (length pre - 2) = CHR 0x5C)"

lemma quote_escaped_at:
  assumes "length pre \<noteq> 1 \<or> last pre \<noteq> CHR 0x5C"
  shows "quote_escaped (pre @ rest) (length pre) = Inr (\<not> closes_string pre)"
proof (cases "pre = []")
  case False
  then have "(pre @ rest) ! (length pre - 1) = last pre"
    by (simp add: nth_append last_conv_nth)
  moreover have "(pre @ rest) ! (length pre - 2) = pre ! (length pre - 2)"
    using False by (simp add: nth_append)
  moreover have "length pre = 1 \<or> 2 \<le> length pre" using False by (cases pre) (auto simp: Suc_le_eq)
  ultimately show ?thesis using assms False by (auto simp: quote_escaped_def closes_string_def)
qed (simp add: quote_escaped_def closes_string_def)

lemma strips_quote:
  assumes "strip_at pre NoComment s out st" "closes_string pre"
  shows "strips_to (pre @ CHR 0x22 # rest) st (strip_at (pre @ [CHR 0x22]) NoComment (\<not> s) (out @ [CHR 0x22]))"
proof (rule strips_step)
  let ?st = "st\<lparr> st_string := \<not> s \<rparr>"
  have ch: "st_ch st = length pre" "st_comment st = NoComment" "st_string st = s"
    using assms(1) by (simp_all add: strip_at_def)
  show "st_ch st < length (pre @ CHR 0x22 # rest)" using ch by simp
  have "length pre \<noteq> 1 \<or> last pre \<noteq> CHR 0x5C" using assms(2) by (auto simp: closes_string_def)
  then show "toggle_string (pre @ CHR 0x22 # rest) st = Inr ?st"
    using ch assms(2) quote_escaped_at [of pre "CHR 0x22 # rest"] by (simp add: toggle_string_def)
  have "strip_char (pre @ CHR 0x22 # rest) ?st = ?st\<lparr> st_ch := st_ch ?st + 1 \<rparr>"
    using ch by (auto simp: strip_char_def Let_def)
  moreover have "strip_at pre NoComment (\<not> s) out ?st" using assms(1) by (simp add: strip_at_def)
  ultimately show "strip_at (pre @ [CHR 0x22]) NoComment (\<not> s) (out @ [CHR 0x22])
      (strip_char (pre @ CHR 0x22 # rest) ?st)"
    using strip_at_advance by metis
qed

lemma strips_escaped_quote:
  assumes "strip_at pre NoComment True out st" "\<not> closes_string pre" "length pre \<noteq> 1"
  shows "strips_to (pre @ CHR 0x22 # rest) st (strip_at (pre @ [CHR 0x22]) NoComment True (out @ [CHR 0x22]))"
proof (rule strips_step)
  have ch: "st_ch st = length pre" "st_comment st = NoComment" "st_string st"
    using assms(1) by (simp_all add: strip_at_def)
  show "st_ch st < length (pre @ CHR 0x22 # rest)" using ch by simp
  show "toggle_string (pre @ CHR 0x22 # rest) st = Inr st"
    using ch assms(2,3) quote_escaped_at [of pre "CHR 0x22 # rest"] by (simp add: toggle_string_def)
  have "strip_char (pre @ CHR 0x22 # rest) st = st\<lparr> st_ch := st_ch st + 1 \<rparr>"
    using ch by (simp add: strip_char_def Let_def)
  then show "strip_at (pre @ [CHR 0x22]) NoComment True (out @ [CHR 0x22]) (strip_char (pre @ CHR 0x22 # rest) st)"
    using strip_at_advance [OF assms(1)] by simp
qed


section \<open>The text of a language file\<close>

text \<open>How a value is quoted, and a file of pairs and of comments on lines of their own.\<close>

fun escape_value :: "string \<Rightarrow> string" where
  "escape_value [] = []"
| "escape_value (c # s) =
     (if c = CHR 0x22 \<or> c = CHR 0x5C then [CHR 0x5C, c]
      else if c = CHR 0x0A then [CHR 0x5C, CHR ''n'']
      else [c]) @ escape_value s"

datatype file_item = Pair string string | Comment string

primrec item_text :: "file_item \<Rightarrow> string" where
  "item_text (Pair k v) =
     CHR 0x22 # k @ [CHR 0x22, CHR '' '', CHR ''='', CHR '' '', CHR 0x22] @ escape_value v @
     [CHR 0x22, CHR '';'', CHR 0x0A]"
| "item_text (Comment s) = [CHR ''/'', CHR ''/''] @ s @ [CHR 0x0A]"

primrec stripped_text :: "file_item \<Rightarrow> string" where
  "stripped_text (Pair k v) = item_text (Pair k v)"
| "stripped_text (Comment s) = [CHR '' '', CHR 0x0A]"

text \<open>No quote right after a backslash: the look-back of the stripper sees only two bytes.\<close>

fun no_backslash_quote :: "string \<Rightarrow> bool" where
  "no_backslash_quote (c # d # s) \<longleftrightarrow>
     \<not> (c = CHR 0x5C \<and> d = CHR 0x22) \<and> no_backslash_quote (d # s)"
| "no_backslash_quote _ \<longleftrightarrow> True"

primrec item_ok :: "file_item \<Rightarrow> bool" where
  "item_ok (Pair k v) \<longleftrightarrow> list_all is_key_char k \<and> no_backslash_quote v"
| "item_ok (Comment s) \<longleftrightarrow> CHR 0x0A \<notin> set s \<and> CHR 0x0D \<notin> set s"

lemma no_backslash_quote_tl: "no_backslash_quote (c # s) \<Longrightarrow> no_backslash_quote s"
  by (cases s) auto

lemma strips_value:
  assumes "strip_at pre NoComment True out st" "no_backslash_quote v" "pre \<noteq> []"
    "v \<noteq> [] \<longrightarrow> hd v = CHR 0x22 \<longrightarrow> last pre \<noteq> CHR 0x5C"
  shows "strips_to (pre @ escape_value v @ rest) st
    (strip_at (pre @ escape_value v) NoComment True (out @ escape_value v))"
  using assms
proof (induction v arbitrary: pre out st)
  case Nil
  then show ?case by (simp add: strips_to_refl)
next
  case (Cons c v)
  define e where "e = (if c = CHR 0x22 \<or> c = CHR 0x5C then [CHR 0x5C, c]
      else if c = CHR 0x0A then [CHR 0x5C, CHR ''n''] else [c])"
  have split: "escape_value (c # v) = e @ escape_value v" by (simp add: e_def)
  have first: "strips_to (pre @ e @ (escape_value v @ rest)) st (strip_at (pre @ e) NoComment True (out @ e))"
  proof (cases "c = CHR 0x22")
    case False
    then have "CHR 0x22 \<notin> set e" by (auto simp: e_def)
    then show ?thesis by (intro strips_chars Cons.prems(1)) auto
  next
    case True
    let ?rest = "escape_value v @ rest"
    have slash: "strips_to (pre @ CHR 0x5C # CHR 0x22 # ?rest) st
        (strip_at (pre @ [CHR 0x5C]) NoComment True (out @ [CHR 0x5C]))"
      by (rule strips_char [OF Cons.prems(1)]) simp_all
    have not_closed: "\<not> closes_string (pre @ [CHR 0x5C])"
    proof -
      have "(pre @ [CHR 0x5C]) ! (length (pre @ [CHR 0x5C]) - 2) = last pre"
        using Cons.prems(3) by (simp add: nth_append last_conv_nth)
      then show ?thesis using Cons.prems(4) True by (simp add: closes_string_def)
    qed
    have "strips_to (pre @ CHR 0x5C # CHR 0x22 # ?rest) st
        (strip_at (pre @ [CHR 0x5C, CHR 0x22]) NoComment True (out @ [CHR 0x5C, CHR 0x22]))"
    proof (rule strips_to_trans [OF slash])
      fix st' assume st': "strip_at (pre @ [CHR 0x5C]) NoComment True (out @ [CHR 0x5C]) st'"
      show "strips_to (pre @ CHR 0x5C # CHR 0x22 # ?rest) st'
          (strip_at (pre @ [CHR 0x5C, CHR 0x22]) NoComment True (out @ [CHR 0x5C, CHR 0x22]))"
        using strips_escaped_quote [OF st' not_closed, of ?rest] Cons.prems(3) by simp
    qed
    then show ?thesis using True by (simp add: e_def)
  qed
  have next_ok: "v \<noteq> [] \<longrightarrow> hd v = CHR 0x22 \<longrightarrow> last (pre @ e) \<noteq> CHR 0x5C"
    using Cons.prems(2) by (cases v) (auto simp: e_def)
  have "strips_to (pre @ e @ (escape_value v @ rest)) st
      (strip_at (pre @ e @ escape_value v) NoComment True (out @ e @ escape_value v))"
  proof (rule strips_to_trans [OF first])
    fix st' assume st': "strip_at (pre @ e) NoComment True (out @ e) st'"
    show "strips_to (pre @ e @ escape_value v @ rest) st'
        (strip_at (pre @ e @ escape_value v) NoComment True (out @ e @ escape_value v))"
      using Cons.IH [OF st' no_backslash_quote_tl [OF Cons.prems(2)] _ next_ok] Cons.prems(3) by simp
  qed
  then show ?case unfolding split by simp
qed

lemma closes_after_value:
  assumes "closes_string pre" "pre \<noteq> []" "last pre \<noteq> CHR 0x5C"
  shows "closes_string (pre @ escape_value v)"
proof (cases v rule: rev_cases)
  case Nil
  then show ?thesis using assms by simp
next
  case (snoc w c)
  have app: "escape_value (w @ [c]) = escape_value w @ escape_value [c]"
    by (induction w) auto
  show ?thesis
    unfolding snoc app closes_string_def by (auto simp: nth_append)
qed


text \<open>Inside a comment of one line.\<close>

definition in_comment :: "string \<Rightarrow> string \<Rightarrow> strip_state \<Rightarrow> bool" where
  "in_comment pre out st \<longleftrightarrow>
     st_ch st = length pre \<and> st_offset st < length pre \<and> st_comment st = SingleLine \<and>
     \<not> st_string st \<and> st_result st = out"

lemma strips_comment_start:
  assumes "strip_at pre NoComment False out st"
  shows "strips_to (pre @ [CHR ''/'', CHR ''/''] @ rest) st (in_comment (pre @ [CHR ''/'', CHR ''/'']) out)"
proof (rule strips_step)
  let ?c = "pre @ [CHR ''/'', CHR ''/''] @ rest"
  have ch: "st_ch st = length pre" "st_comment st = NoComment" "\<not> st_string st"
    "st_offset st \<le> length pre" "st_result st @ drop (st_offset st) pre = out"
    using assms by (simp_all add: strip_at_def)
  show "st_ch st < length ?c" using ch by simp
  show "toggle_string ?c st = Inr st" using ch by (simp add: toggle_string_def)
  have sub: "sub_bytes ?c (st_offset st) (length pre) = drop (st_offset st) pre"
    using ch(4) by (simp add: sub_bytes_def)
  have "strip_char ?c st = (feed_content ?c (length pre) st)\<lparr> st_comment := SingleLine, st_ch := length pre + 2 \<rparr>"
    using ch by (simp add: strip_char_def Let_def nth_append)
  then show "in_comment (pre @ [CHR ''/'', CHR ''/'']) out (strip_char ?c st)"
    using ch sub by (auto simp: in_comment_def feed_content_def)
qed

lemma strips_comment_chars:
  assumes "in_comment pre out st" "CHR 0x0A \<notin> set s" "CHR 0x0D \<notin> set s"
  shows "strips_to (pre @ s @ rest) st (in_comment (pre @ s) out)"
  using assms
proof (induction s arbitrary: pre st)
  case Nil
  then show ?case by (simp add: strips_to_refl)
next
  case (Cons c s)
  have ch: "st_ch st = length pre" "st_comment st = SingleLine" "\<not> st_string st"
    using Cons.prems(1) by (simp_all add: in_comment_def)
  have "strips_to (pre @ c # (s @ rest)) st (in_comment (pre @ [c]) out)"
  proof (rule strips_step)
    show "st_ch st < length (pre @ c # (s @ rest))" using ch by simp
    show "toggle_string (pre @ c # (s @ rest)) st = Inr st" using ch by (simp add: toggle_string_def)
    have "strip_char (pre @ c # (s @ rest)) st = st\<lparr> st_ch := st_ch st + 1 \<rparr>"
      using ch Cons.prems(2,3) by (auto simp: strip_char_def Let_def)
    then show "in_comment (pre @ [c]) out (strip_char (pre @ c # (s @ rest)) st)"
      using Cons.prems(1) by (simp add: in_comment_def)
  qed
  then have "strips_to (pre @ c # (s @ rest)) st (in_comment (pre @ c # s) out)"
  proof (rule strips_to_trans)
    fix st' assume "in_comment (pre @ [c]) out st'"
    then show "strips_to (pre @ c # s @ rest) st' (in_comment (pre @ c # s) out)"
      using Cons.IH [of "pre @ [c]" st'] Cons.prems by simp
  qed
  then show ?case by simp
qed

lemma strips_comment_end:
  assumes "in_comment pre out st"
  shows "strips_to (pre @ CHR 0x0A # rest) st
    (strip_at (pre @ [CHR 0x0A]) NoComment False (out @ [CHR '' '', CHR 0x0A]))"
proof (rule strips_step)
  have ch: "st_ch st = length pre" "st_comment st = SingleLine" "\<not> st_string st" "st_offset st < length pre"
    "st_result st = out"
    using assms by (simp_all add: in_comment_def)
  show "st_ch st < length (pre @ CHR 0x0A # rest)" using ch by simp
  show "toggle_string (pre @ CHR 0x0A # rest) st = Inr st" using ch by (simp add: toggle_string_def)
  have "strip_char (pre @ CHR 0x0A # rest) st =
      (feed_comment (length pre) st)\<lparr> st_ch := length pre + 1, st_comment := NoComment \<rparr>"
    using ch by (simp add: strip_char_def Let_def)
  then show "strip_at (pre @ [CHR 0x0A]) NoComment False (out @ [CHR '' '', CHR 0x0A])
      (strip_char (pre @ CHR 0x0A # rest) st)"
    using ch by (simp add: strip_at_def feed_comment_def)
qed

lemma strips_comment:
  assumes "strip_at pre NoComment False out st" "item_ok (Comment s)"
  shows "strips_to (pre @ item_text (Comment s) @ rest) st
    (strip_at (pre @ item_text (Comment s)) NoComment False (out @ stripped_text (Comment s)))"
proof -
  let ?open = "[CHR ''/'', CHR ''/'']" and ?close = "[CHR 0x0A]"
  have "strips_to (pre @ ?open @ (s @ ?close @ rest)) st
      (strip_at (pre @ ?open @ s @ ?close) NoComment False (out @ [CHR '' '', CHR 0x0A]))"
  proof (rule strips_to_trans [OF strips_comment_start [OF assms(1)]])
    fix st1 assume st1: "in_comment (pre @ ?open) out st1"
    have "strips_to ((pre @ ?open) @ s @ (?close @ rest)) st1
        (strip_at (pre @ ?open @ s @ ?close) NoComment False (out @ [CHR '' '', CHR 0x0A]))"
    proof (rule strips_to_trans [OF strips_comment_chars [OF st1]])
      fix st2 assume "in_comment ((pre @ ?open) @ s) out st2"
      then show "strips_to ((pre @ ?open) @ s @ ?close @ rest) st2
          (strip_at (pre @ ?open @ s @ ?close) NoComment False (out @ [CHR '' '', CHR 0x0A]))"
        using strips_comment_end [of "(pre @ ?open) @ s" out st2 rest] by simp
    qed (use assms(2) in simp_all)
    then show "strips_to (pre @ ?open @ (s @ ?close @ rest)) st1
        (strip_at (pre @ ?open @ s @ ?close) NoComment False (out @ [CHR '' '', CHR 0x0A]))" by simp
  qed
  then show ?thesis by simp
qed

text \<open>A pair: four quotes, with the key and the value between them.\<close>

lemma key_chars_plain: "list_all is_key_char k \<Longrightarrow> CHR 0x22 \<notin> set k \<and> CHR 0x5C \<notin> set k"
  by (auto simp: list_all_iff is_key_char_def)

text \<open>The start of a pair, up to the quote that opens the value.\<close>

definition pair_start :: "string \<Rightarrow> string" where
  "pair_start k = CHR 0x22 # k @ [CHR 0x22, CHR '' '', CHR ''='', CHR '' '', CHR 0x22]"

lemma strips_pair_start:
  assumes "strip_at pre NoComment False out st" "list_all is_key_char k" "pre = [] \<or> last pre = CHR 0x0A"
  shows "strips_to (pre @ pair_start k @ rest) st
    (strip_at (pre @ pair_start k) NoComment True (out @ pair_start k))"
proof -
  let ?q = "CHR 0x22" and ?eq = "[CHR '' '', CHR ''='', CHR '' '']"
  note k = key_chars_plain [of k]
  let ?p1 = "pre @ [?q]" and ?o1 = "out @ [?q]"
  let ?p2 = "?p1 @ k" and ?o2 = "?o1 @ k"
  let ?p3 = "?p2 @ [?q]" and ?o3 = "?o2 @ [?q]"
  let ?p4 = "?p3 @ ?eq" and ?o4 = "?o3 @ ?eq"
  let ?p5 = "?p4 @ [?q]" and ?o5 = "?o4 @ [?q]"
  define content where "content = ?p5 @ rest"
  have c2: "closes_string ?p2"
  proof (cases "k = []")
    case False
    have "CHR 0x5C \<notin> set k" using k assms(2) by simp
    then have "last k \<noteq> CHR 0x5C" using last_in_set [OF False] by metis
    then show ?thesis using False by (simp add: closes_string_def)
  qed (simp add: closes_string_def)
  have s1: "strips_to content st (strip_at ?p1 NoComment True ?o1)"
    using strips_quote [OF assms(1), of "k @ [?q] @ ?eq @ [?q] @ rest"] assms(3)
    by (auto simp: content_def closes_string_def)
  have s2: "strips_to content s (strip_at ?p2 NoComment True ?o2)" if "strip_at ?p1 NoComment True ?o1 s" for s
    using strips_chars [OF that, of k "[?q] @ ?eq @ [?q] @ rest"] k assms(2) by (simp add: content_def)
  have s3: "strips_to content s (strip_at ?p3 NoComment False ?o3)" if "strip_at ?p2 NoComment True ?o2 s" for s
    using strips_quote [OF that c2, of "?eq @ [?q] @ rest"] by (simp add: content_def)
  have s4: "strips_to content s (strip_at ?p4 NoComment False ?o4)" if "strip_at ?p3 NoComment False ?o3 s" for s
    using strips_chars [OF that, of ?eq "[?q] @ rest"] by (simp add: content_def)
  have s5: "strips_to content s (strip_at ?p5 NoComment True ?o5)" if "strip_at ?p4 NoComment False ?o4 s" for s
    using strips_quote [OF that, of rest] by (simp add: content_def closes_string_def)
  have "strips_to content st (strip_at ?p5 NoComment True ?o5)"
    by (rule strips_to_trans [OF strips_to_trans [OF strips_to_trans [OF strips_to_trans [OF s1 s2] s3] s4] s5])
  then show ?thesis by (simp add: content_def pair_start_def)
qed

lemma strips_pair:
  assumes "strip_at pre NoComment False out st" "item_ok (Pair k v)" "pre = [] \<or> last pre = CHR 0x0A"
  shows "strips_to (pre @ item_text (Pair k v) @ rest) st
    (strip_at (pre @ item_text (Pair k v)) NoComment False (out @ item_text (Pair k v)))"
proof -
  let ?q = "CHR 0x22" and ?sc = "[CHR '';'', CHR 0x0A]"
  let ?e = "escape_value v"
  let ?p5 = "pre @ pair_start k" and ?o5 = "out @ pair_start k"
  let ?p6 = "?p5 @ ?e" and ?o6 = "?o5 @ ?e"
  let ?p7 = "?p6 @ [?q]" and ?o7 = "?o6 @ [?q]"
  define content where "content = ?p7 @ ?sc @ rest"
  have c6: "closes_string ?p6"
    by (rule closes_after_value) (simp_all add: closes_string_def pair_start_def)
  have s5: "strips_to content st (strip_at ?p5 NoComment True ?o5)"
    using strips_pair_start [OF assms(1) _ assms(3), of k "?e @ [?q] @ ?sc @ rest"] assms(2)
    by (simp add: content_def)
  have s6: "strips_to content s (strip_at ?p6 NoComment True ?o6)" if "strip_at ?p5 NoComment True ?o5 s" for s
    using strips_value [OF that, of v "[?q] @ ?sc @ rest"] assms(2) by (simp add: content_def pair_start_def)
  have s7: "strips_to content s (strip_at ?p7 NoComment False ?o7)" if "strip_at ?p6 NoComment True ?o6 s" for s
    using strips_quote [OF that c6, of "?sc @ rest"] by (simp add: content_def)
  have s8: "strips_to content s (strip_at (?p7 @ ?sc) NoComment False (?o7 @ ?sc))"
    if "strip_at ?p7 NoComment False ?o7 s" for s
    using strips_chars [OF that, of ?sc rest] by (simp add: content_def)
  have "strips_to content st (strip_at (?p7 @ ?sc) NoComment False (?o7 @ ?sc))"
    by (rule strips_to_trans [OF strips_to_trans [OF strips_to_trans [OF s5 s6] s7] s8])
  then show ?thesis by (simp add: content_def pair_start_def)
qed

lemma item_text_last: "item_text it \<noteq> [] \<and> last (item_text it) = CHR 0x0A"
  by (cases it) simp_all

lemma strips_items:
  assumes "strip_at pre NoComment False out st" "list_all item_ok items" "pre = [] \<or> last pre = CHR 0x0A"
  shows "strips_to (pre @ concat (map item_text items) @ rest) st
    (strip_at (pre @ concat (map item_text items)) NoComment False (out @ concat (map stripped_text items)))"
  using assms
proof (induction items arbitrary: pre out st)
  case Nil
  then show ?case by (simp add: strips_to_refl)
next
  case (Cons it items)
  let ?rest = "concat (map item_text items)"
  have "strips_to (pre @ item_text it @ ?rest @ rest) st
      (strip_at (pre @ item_text it) NoComment False (out @ stripped_text it))"
  proof (cases it)
    case (Pair k v)
    then show ?thesis using strips_pair [OF Cons.prems(1), of k v "?rest @ rest"] Cons.prems(2,3) by simp
  next
    case (Comment s)
    then show ?thesis using strips_comment [OF Cons.prems(1), of s "?rest @ rest"] Cons.prems(2) by simp
  qed
  then have "strips_to (pre @ item_text it @ ?rest @ rest) st
      (strip_at (pre @ item_text it @ ?rest) NoComment False
        (out @ stripped_text it @ concat (map stripped_text items)))"
  proof (rule strips_to_trans)
    fix st' assume st': "strip_at (pre @ item_text it) NoComment False (out @ stripped_text it) st'"
    show "strips_to (pre @ item_text it @ ?rest @ rest) st'
      (strip_at (pre @ item_text it @ ?rest) NoComment False
        (out @ stripped_text it @ concat (map stripped_text items)))"
      using Cons.IH [OF st'] Cons.prems(2) item_text_last [of it] by simp
  qed
  then show ?case by simp
qed

text \<open>Where the loop ends outside of comments, the result is what has come out.\<close>

definition strip_start :: strip_state where
  "strip_start = \<lparr> st_ch = 0, st_offset = 0, st_comment = NoComment, st_string = False, st_result = [] \<rparr>"

lemma strip_at_start: "strip_at [] NoComment False [] strip_start"
  by (simp add: strip_at_def strip_start_def)

lemma stripComments_out:
  assumes "strips_to c strip_start (strip_at c NoComment False out)"
  shows "stripComments c = Inr out"
proof -
  obtain st' where st': "strip_loop c strip_start = strip_loop c st'" "strip_at c NoComment False out st'"
    using assms by (auto simp: strips_to_def)
  have "strip_loop c st' = Inr st'" using st'(2) by (subst strip_loop.simps) (simp add: strip_at_def)
  then have run: "strip_loop c \<lparr> st_ch = 0, st_offset = 0, st_comment = NoComment, st_string = False,
      st_result = [] \<rparr> = Inr st'" using st'(1) by (simp add: strip_start_def)
  have o: "st_result st' @ drop (st_offset st') c = out" "st_comment st' = NoComment"
    "st_offset st' \<le> length c" "st_result st' = [] \<longrightarrow> st_offset st' = 0"
    using st'(2) by (simp_all add: strip_at_def)
  show ?thesis
    unfolding stripComments_def run bind_outcome.simps sum.inject(2)
    using o by (auto simp: sub_bytes_def)
qed

lemma stripComments_items:
  assumes "list_all item_ok items"
  shows "stripComments (concat (map item_text items)) = Inr (concat (map stripped_text items))"
  using stripComments_out strips_items [OF strip_at_start assms, of "[]"] by simp

text \<open>
  A value with a quote after a backslash, then no quote and no slash, then two slashes: the
  stripper takes the quote for the end of the string and the rest of the line for a comment.
\<close>

definition breaking_value :: "string \<Rightarrow> string \<Rightarrow> string \<Rightarrow> string" where
  "breaking_value a b c = a @ [CHR 0x5C, CHR 0x22] @ b @ [CHR ''/'', CHR ''/''] @ c"

definition broken_text :: "string \<Rightarrow> string \<Rightarrow> string \<Rightarrow> string" where
  "broken_text k a b = pair_start k @ escape_value (a @ [CHR 0x5C, CHR 0x22] @ b @ '' '') @ [CHR 0x0A]"

lemma escape_value_append [simp]: "escape_value (v @ w) = escape_value v @ escape_value w"
  by (induction v) auto

lemma escape_value_set: "set (escape_value v) \<subseteq> set v \<union> {CHR 0x5C, CHR ''n''}" "CHR 0x0A \<notin> set (escape_value v)"
  by (induction v) auto

lemma strips_breaking:
  assumes "strip_at pre NoComment False out st" "list_all is_key_char k" "pre = [] \<or> last pre = CHR 0x0A"
    "no_backslash_quote a" "CHR 0x22 \<notin> set b" "CHR ''/'' \<notin> set b" "CHR 0x0D \<notin> set c"
  shows "strips_to (pre @ item_text (Pair k (breaking_value a b c)) @ rest) st
    (strip_at (pre @ item_text (Pair k (breaking_value a b c))) NoComment False (out @ broken_text k a b))"
proof -
  let ?q = "CHR 0x22" and ?bs = "[CHR 0x5C, CHR 0x5C, CHR 0x5C]" and ?cm = "[CHR ''/'', CHR ''/'']"
  let ?ea = "escape_value a" and ?eb = "escape_value b" and ?ec = "escape_value c @ [CHR 0x22, CHR '';'']"
  let ?p1 = "pre @ pair_start k" and ?o1 = "out @ pair_start k"
  let ?p2 = "?p1 @ ?ea" and ?o2 = "?o1 @ ?ea"
  let ?p3 = "?p2 @ ?bs" and ?o3 = "?o2 @ ?bs"
  let ?p4 = "?p3 @ [?q]" and ?o4 = "?o3 @ [?q]"
  let ?p5 = "?p4 @ ?eb" and ?o5 = "?o4 @ ?eb"
  let ?p6 = "?p5 @ ?cm"
  let ?p7 = "?p6 @ ?ec"
  let ?p8 = "?p7 @ [CHR 0x0A]" and ?o8 = "?o5 @ [CHR '' '', CHR 0x0A]"
  define content where "content = ?p8 @ rest"
  have s1: "strips_to content st (strip_at ?p1 NoComment True ?o1)"
    using strips_pair_start [OF assms(1,2,3), of "?ea @ ?bs @ ?q # ?eb @ ?cm @ ?ec @ CHR 0x0A # rest"]
    by (simp add: content_def)
  have s2: "strips_to content s (strip_at ?p2 NoComment True ?o2)" if "strip_at ?p1 NoComment True ?o1 s" for s
    using strips_value [OF that assms(4), of "?bs @ ?q # ?eb @ ?cm @ ?ec @ CHR 0x0A # rest"]
    by (simp add: content_def pair_start_def)
  have s3: "strips_to content s (strip_at ?p3 NoComment True ?o3)" if "strip_at ?p2 NoComment True ?o2 s" for s
    using strips_chars [OF that, of ?bs "?q # ?eb @ ?cm @ ?ec @ CHR 0x0A # rest"] by (simp add: content_def)
  have c3: "closes_string ?p3" by (simp add: closes_string_def nth_append)
  have s4: "strips_to content s (strip_at ?p4 NoComment False ?o4)" if "strip_at ?p3 NoComment True ?o3 s" for s
    using strips_quote [OF that c3, of "?eb @ ?cm @ ?ec @ CHR 0x0A # rest"] by (simp add: content_def)
  have eb: "CHR 0x22 \<notin> set ?eb" "CHR ''/'' \<notin> set ?eb" using assms(5,6) escape_value_set(1) [of b] by auto
  have s5: "strips_to content s (strip_at ?p5 NoComment False ?o5)" if "strip_at ?p4 NoComment False ?o4 s" for s
    using strips_chars [OF that eb(1), of "?cm @ ?ec @ CHR 0x0A # rest"] eb(2) by (simp add: content_def)
  have s6: "strips_to content s (in_comment ?p6 ?o5)" if "strip_at ?p5 NoComment False ?o5 s" for s
    using strips_comment_start [OF that, of "?ec @ CHR 0x0A # rest"] by (simp add: content_def)
  have ec: "CHR 0x0A \<notin> set ?ec" "CHR 0x0D \<notin> set ?ec"
    using assms(7) escape_value_set [of c] by auto
  have s7: "strips_to content s (in_comment ?p7 ?o5)" if "in_comment ?p6 ?o5 s" for s
    using strips_comment_chars [OF that ec, of "CHR 0x0A # rest"] by (simp add: content_def)
  have s8: "strips_to content s (strip_at ?p8 NoComment False ?o8)" if "in_comment ?p7 ?o5 s" for s
    using strips_comment_end [OF that, of rest] by (simp add: content_def)
  have "strips_to content st (strip_at ?p8 NoComment False ?o8)"
    by (rule strips_to_trans [OF strips_to_trans [OF strips_to_trans [OF strips_to_trans
          [OF strips_to_trans [OF strips_to_trans [OF strips_to_trans [OF s1 s2] s3] s4] s5] s6] s7] s8])
  then show ?thesis by (simp add: content_def pair_start_def breaking_value_def broken_text_def)
qed

lemma stripComments_breaking:
  assumes "list_all item_ok items" "list_all item_ok later" "list_all is_key_char k"
    "no_backslash_quote a" "CHR 0x22 \<notin> set b" "CHR ''/'' \<notin> set b" "CHR 0x0D \<notin> set c"
  shows "stripComments (concat (map item_text items) @ item_text (Pair k (breaking_value a b c)) @
      concat (map item_text later)) =
    Inr (concat (map stripped_text items) @ broken_text k a b @ concat (map stripped_text later))"
proof (rule stripComments_out)
  let ?i = "concat (map item_text items)" and ?p = "item_text (Pair k (breaking_value a b c))"
    and ?l = "concat (map item_text later)"
  let ?oi = "concat (map stripped_text items)" and ?op = "broken_text k a b"
  have i: "?i = [] \<or> last ?i = CHR 0x0A"
  proof (cases items rule: rev_cases)
    case (snoc its it)
    then show ?thesis using item_text_last [of it] by simp
  qed simp
  have s1: "strips_to (?i @ ?p @ ?l) strip_start (strip_at ?i NoComment False ?oi)"
    using strips_items [OF strip_at_start assms(1), of "?p @ ?l"] by simp
  have s2: "strips_to (?i @ ?p @ ?l) s (strip_at (?i @ ?p) NoComment False (?oi @ ?op))"
    if "strip_at ?i NoComment False ?oi s" for s
    by (rule strips_breaking [OF that assms(3) i assms(4-7)])
  have s3: "strips_to (?i @ ?p @ ?l) s (strip_at (?i @ ?p @ ?l) NoComment False
      (?oi @ ?op @ concat (map stripped_text later)))"
    if "strip_at (?i @ ?p) NoComment False (?oi @ ?op) s" for s
    using strips_items [OF that assms(2), of "[]"] by simp
  show "strips_to (?i @ ?p @ ?l) strip_start (strip_at (?i @ ?p @ ?l) NoComment False
      (?oi @ ?op @ concat (map stripped_text later)))"
    by (rule strips_to_trans [OF strips_to_trans [OF s1 s2] s3])
qed


section \<open>Parsing what was written\<close>

lemma read_escaped: "read_value key acc pending (escape_value v @ CHR 0x22 # rest) =
    Inr (acc @ pending @ v, CHR 0x22 # rest)"
proof (induction v arbitrary: acc pending)
  case (Cons c v)
  show ?case
  proof (cases "c = CHR 0x22 \<or> c = CHR 0x5C")
    case True
    then show ?thesis using Cons.IH [of "acc @ pending" "[c]"] by auto
  next
    case False
    then show ?thesis
      using Cons.IH [of "acc @ pending @ [CHR 0x0A]" "[]"] Cons.IH [of acc "pending @ [c]"] by simp
  qed
qed simp

lemma skip_white_append: "list_all is_whitespace ws \<Longrightarrow> skipWhitespaces (ws @ s) = skipWhitespaces s"
  by (induction ws) (simp_all add: skipWhitespaces_def)

lemma skip_visible: "\<not> is_whitespace c \<Longrightarrow> skipWhitespaces (c # s) = c # s"
  by (simp add: skipWhitespaces_def)

lemma key_then_quote:
  "list_all is_key_char k \<Longrightarrow> takeWhile is_key_char (k @ CHR 0x22 # s) = k \<and>
   dropWhile is_key_char (k @ CHR 0x22 # s) = CHR 0x22 # s"
  by (induction k) (auto simp: is_key_char_def)

lemma read_pair_text:
  assumes "list_all is_whitespace ws" "list_all is_key_char k"
  shows "read_pair (ws @ item_text (Pair k v) @ rest) = Inr (Some ((k, v), skipWhitespaces rest))"
proof -
  have w: "is_whitespace CHR '' ''" "is_whitespace CHR 0x0A" "\<not> is_whitespace CHR 0x22"
    "\<not> is_whitespace CHR ''=''" "\<not> is_whitespace CHR '';''"
    by (simp_all add: is_whitespace_def)
  have skip1: "skipWhitespaces (CHR '' '' # CHR ''='' # s) = CHR ''='' # s"
    "skipWhitespaces (CHR '' '' # CHR 0x22 # s) = CHR 0x22 # s"
    "skipWhitespaces (CHR 0x22 # s) = CHR 0x22 # s"
    "skipWhitespaces (CHR '';'' # s) = CHR '';'' # s"
    "skipWhitespaces (CHR 0x0A # s) = skipWhitespaces s" for s
    using w by (simp_all add: skipWhitespaces_def)
  let ?tail = "[CHR '' '', CHR ''='', CHR '' '', CHR 0x22] @ escape_value v @ [CHR 0x22, CHR '';'', CHR 0x0A] @ rest"
  have start: "skipWhitespaces (ws @ item_text (Pair k v) @ rest) = CHR 0x22 # k @ CHR 0x22 # ?tail"
    by (simp add: skip_white_append [OF assms(1)] skip1)
  note kq = key_then_quote [OF assms(2), of ?tail]
  show ?thesis
    unfolding read_pair_def start list.case Let_def conjunct1 [OF kq] conjunct2 [OF kq]
    by (simp add: skip1 read_escaped)
qed

fun pairs_of :: "file_item list \<Rightarrow> (string \<times> string) list" where
  "pairs_of [] = []"
| "pairs_of (Pair k v # items) = (k, v) # pairs_of items"
| "pairs_of (Comment s # items) = pairs_of items"

text \<open>
  The white space the parser starts a pair with does not matter, and what is skipped after one
  does not either.
\<close>

lemma read_pair_skip: "read_pair (skipWhitespaces s) = read_pair s"
proof -
  have "skipWhitespaces (skipWhitespaces s) = skipWhitespaces s"
    unfolding skipWhitespaces_def by (metis dropWhile_idem)
  then show ?thesis by (simp add: read_pair_def)
qed

lemma parse_pairs_skip: "parse_pairs ki fu mode (skipWhitespaces s) st = parse_pairs ki fu mode s st"
proof (cases "skipWhitespaces s = []")
  case True
  then have "read_pair s = Inr None" by (simp add: read_pair_def)
  then show ?thesis using True
    by (subst (1 2) parse_pairs.simps) simp
next
  case False
  then have "s \<noteq> []" by (auto simp: skipWhitespaces_def)
  then show ?thesis using False
    by (subst (1 2) parse_pairs.simps) (simp add: read_pair_skip)
qed

lemma parse_stripped:
  assumes "list_all item_ok items" "list_all is_whitespace ws"
  shows "parse_pairs ki fu mode (ws @ concat (map stripped_text items) @ tail) st =
    parse_pairs ki fu mode tail (fold (keep_pair ki fu mode) (pairs_of items) st)"
  using assms
proof (induction items arbitrary: ws st rule: pairs_of.induct)
  case 1
  have "skipWhitespaces (ws @ tail) = skipWhitespaces tail" by (rule skip_white_append [OF 1(2)])
  then show ?case
    using parse_pairs_skip [of ki fu mode "ws @ tail" st] parse_pairs_skip [of ki fu mode tail st] by simp
next
  case (2 k v items)
  let ?rest = "concat (map stripped_text items) @ tail"
  have "parse_pairs ki fu mode (ws @ item_text (Pair k v) @ ?rest) st =
      parse_pairs ki fu mode (skipWhitespaces ?rest) (keep_pair ki fu mode (k, v) st)"
    using 2(2) read_pair_text [OF 2(3), of k v ?rest] by (subst parse_pairs.simps) simp
  also have "\<dots> = parse_pairs ki fu mode ([] @ ?rest) (keep_pair ki fu mode (k, v) st)"
    by (simp add: parse_pairs_skip)
  also have "\<dots> = parse_pairs ki fu mode tail
      (fold (keep_pair ki fu mode) (pairs_of items) (keep_pair ki fu mode (k, v) st))"
    by (rule 2(1)) (use 2(2) in simp_all)
  finally show ?case by simp
next
  case (3 s items)
  have "is_whitespace CHR '' ''" "is_whitespace CHR 0x0A" by (simp_all add: is_whitespace_def)
  then have "list_all is_whitespace (ws @ [CHR '' '', CHR 0x0A])" using 3(3) by simp
  from 3(1) [OF _ this] 3(2) show ?case by simp
qed

text \<open>A value whose line ends before its quote.\<close>

lemma read_unclosed: "read_value key acc pending (escape_value v @ CHR 0x0A # rest) = Inl (UnexpectedEndOfString key)"
proof (induction v arbitrary: acc pending)
  case (Cons c v)
  then show ?case by (cases "c = CHR 0x22 \<or> c = CHR 0x5C") auto
qed simp

lemma read_pair_broken:
  assumes "list_all is_key_char k"
  shows "read_pair (broken_text k a b @ rest) = Inl (UnexpectedEndOfString k)"
proof -
  have w: "\<not> is_whitespace CHR 0x22" "\<not> is_whitespace CHR ''=''" "is_whitespace CHR '' ''"
    by (simp_all add: is_whitespace_def)
  have skip: "skipWhitespaces (CHR '' '' # CHR ''='' # s) = CHR ''='' # s"
    "skipWhitespaces (CHR '' '' # CHR 0x22 # s) = CHR 0x22 # s"
    "skipWhitespaces (CHR 0x22 # s) = CHR 0x22 # s" for s
    using w by (simp_all add: skipWhitespaces_def)
  let ?v = "escape_value (a @ [CHR 0x5C, CHR 0x22] @ b @ '' '') @ CHR 0x0A # rest"
  have start: "skipWhitespaces (broken_text k a b @ rest) =
      CHR 0x22 # k @ CHR 0x22 # [CHR '' '', CHR ''='', CHR '' '', CHR 0x22] @ ?v"
    by (simp add: broken_text_def pair_start_def skip del: escape_value_append)
  note kq = key_then_quote [OF assms, of "[CHR '' '', CHR ''='', CHR '' '', CHR 0x22] @ ?v"]
  show ?thesis
    unfolding read_pair_def start list.case Let_def conjunct1 [OF kq] conjunct2 [OF kq]
    by (simp add: skip read_unclosed del: escape_value_append)
qed

section \<open>Properties\<close>

text \<open>C10. A language file gives back what was written to it: when pairs and comment lines are
  written with the quoting of the format, stripping and parsing them keeps exactly the pairs,
  in order, with every quote, backslash and line end of the values, and reports no error; the
  comments may hold quotes. Values have no quote right after a backslash.\<close>

theorem lang_file_roundtrip:
  assumes "list_all item_ok items" "items \<noteq> []"
  shows "FileParser ki fu mode (concat (map item_text items)) =
    Inr (fold (keep_pair ki fu mode) (pairs_of items) empty_parser)"
proof -
  define body where "body = concat (map stripped_text items)"
  have "body \<noteq> []"
  proof (cases items)
    case (Cons it rest)
    then show ?thesis unfolding body_def by (cases it) simp_all
  qed (use assms(2) in simp)
  then have "parse_file ki fu mode body = fold (keep_pair ki fu mode) (pairs_of items) empty_parser"
    using parse_stripped [OF assms(1), of "[]" ki fu mode "[]" empty_parser, simplified, folded body_def]
    by (simp add: parse_file_def parse_pairs.simps [of _ _ _ "[]"])
  then show ?thesis
    unfolding FileParser_def stripComments_items [OF assms(1)] body_def by simp
qed

definition example_file :: "file_item list" where
  "example_file = [Comment ''a \"quoted\" word'', Pair ''lng_ok'' ''say \"hi\" // no comment'',
     Pair ''lng_cancel'' [CHR ''a'', CHR 0x5C, CHR 0x0A]]"

theorem lang_file_roundtrip_witness:
  "FileParser (\<lambda>_. 0) id Callback (concat (map item_text example_file)) =
   Inr (empty_parser\<lparr> lp_calls := [(''lng_ok'', ''say \"hi\" // no comment''),
     (''lng_cancel'', [CHR ''a'', CHR 0x5C, CHR 0x0A])] \<rparr>)"
proof -
  have "list_all item_ok example_file" by code_simp
  moreover have "example_file \<noteq> []" by (simp add: example_file_def)
  ultimately show ?thesis
    using lang_file_roundtrip [of example_file "\<lambda>_. 0" id Callback]
    by (simp add: example_file_def keep_pair_def empty_parser_def)
qed

text \<open>C36. A value with a quote after a backslash can break its file: the stripper looks at two bytes
  before a quote and takes the escaped quote after an escaped backslash for the end of the
  string. If the value goes on without a quote or a slash up to two slashes (and then without a
  carriage return), the rest of the line is removed as a comment. In any file that is
  otherwise well formed the pairs before it are then kept, and the file ends there with the
  error of an unended string: this pair and all the later ones are lost.\<close>

theorem lang_file_backslash_quote_breaks:
  assumes "list_all item_ok items" "list_all item_ok later" "list_all is_key_char k"
    "no_backslash_quote a" "CHR 0x22 \<notin> set b" "CHR ''/'' \<notin> set b" "CHR 0x0D \<notin> set c"
    "v = a @ [CHR 0x5C, CHR 0x22] @ b @ [CHR ''/'', CHR ''/''] @ c"
    "kept = fold (keep_pair ki fu mode) (pairs_of items) empty_parser"
  shows "FileParser ki fu mode (concat (map item_text (items @ [Pair k v] @ later))) =
    Inr (kept\<lparr> lp_errors := lp_errors kept @ [UnexpectedEndOfString k] \<rparr>)"
proof -
  let ?tail = "broken_text k a b @ concat (map stripped_text later)"
  have broken: "broken_text k a b \<noteq> []" by (simp add: broken_text_def)
  then have ne: "?tail \<noteq> []" by simp
  have "parse_pairs ki fu mode (concat (map stripped_text items) @ ?tail) empty_parser =
      parse_pairs ki fu mode ?tail kept"
    using parse_stripped [OF assms(1), of "[]" ki fu mode ?tail empty_parser] assms(9) by simp
  also have "\<dots> = kept\<lparr> lp_errors := lp_errors kept @ [UnexpectedEndOfString k] \<rparr>"
    using ne read_pair_broken [OF assms(3)] by (subst parse_pairs.simps) simp
  finally show ?thesis
    using stripComments_breaking [OF assms(1-7)] broken assms(8)
    by (simp add: FileParser_def parse_file_def breaking_value_def)
qed

text \<open>The value is a backslash, a quote and two slashes; the pair before it is kept, that after it is not.\<close>

theorem lang_file_backslash_quote_breaks_witness:
  "\<exists>p. FileParser (\<lambda>_. 0) id Callback (concat (map item_text
      [Pair ''a'' ''x'', Pair ''k'' [CHR 0x5C, CHR 0x22, CHR ''/'', CHR ''/''], Pair ''b'' ''y''])) = Inr p \<and>
    lp_calls p = [(''a'', ''x'')] \<and> lp_errors p = [UnexpectedEndOfString ''k'']"
  using lang_file_backslash_quote_breaks [of "[Pair ''a'' ''x'']" "[Pair ''b'' ''y'']" "''k''" "[]" "[]" "[]",
      OF _ _ _ _ _ _ _ refl refl, of "\<lambda>_. 0" id Callback]
  by (simp add: is_key_char_def keep_pair_def empty_parser_def)

end
