(* ===== verification/Lang_Value.thy ===== *)
theory Lang_Value
  imports Lang_File
begin

text \<open>
  \<open>ValueParser\<close> of lang/lang\_instance.cpp: a value of the language pack with its tags \<open>{name}\<close>
  becomes a string in which every tag is the four units that \<open>ReplaceTag\<close> looks for. The
  generated \<open>GetTagIndex\<close> (with \<open>kTagsCount\<close> for a name that is no tag) and \<open>IsTagReplaced\<close> of
  the key, and \<open>QString::fromUtf8\<close> are parameters.
\<close>

section \<open>The parser\<close>

datatype value_error = ExpectedTagName | ExpectedBrace string | UnknownTag string
  | UnexpectedTag string | RepeatedTag string

text \<open>As written: from \<open>A\<close> to lower case \<open>z\<close>, with the six characters between the alphabets.\<close>

definition is_tag_char :: "char \<Rightarrow> bool" where
  "is_tag_char c \<longleftrightarrow>
     (let k = of_char c :: nat
      in 97 \<le> k \<and> k \<le> 122 \<or> 65 \<le> k \<and> k \<le> 122 \<or> 48 \<le> k \<and> k \<le> 57 \<or> c = CHR ''_'')"

record value_context =
  vc_tag_index :: "string \<Rightarrow> nat"
  vc_tags_count :: nat
  vc_replaced :: "nat \<Rightarrow> bool"
  vc_from_utf8 :: "string \<Rightarrow> qstring"

text \<open>The tag at the start of the text, and the text after its brace.\<close>

definition read_tag :: "value_context \<Rightarrow> nat set \<Rightarrow> string \<Rightarrow> value_error + nat \<times> string" where
  "read_tag vc used from =
     (let tag = takeWhile is_tag_char from; rest = dropWhile is_tag_char from; i = vc_tag_index vc tag
      in if tag = [] then Inl ExpectedTagName
         else if rest = [] \<or> hd rest \<noteq> CHR ''}'' then Inl (ExpectedBrace tag)
         else if i = vc_tags_count vc then Inl (UnknownTag tag)
         else if \<not> vc_replaced vc i then Inl (UnexpectedTag tag)
         else if i \<in> used then Inl (RepeatedTag tag)
         else Inr (i, tl rest))"

definition tag_replacer :: "nat \<Rightarrow> qstring" where
  "tag_replacer i = [TextCommand, TextCommandLangTag, of_nat (0x20 + i), TextCommand]"

definition append_to_result :: "value_context \<Rightarrow> string \<Rightarrow> qstring \<Rightarrow> qstring" where
  "append_to_result vc segment result = (if segment \<noteq> [] then result @ vc_from_utf8 vc segment else result)"

lemma read_tag_shorter: "read_tag vc used from = Inr (i, rest) \<Longrightarrow> length rest < length from"
proof -
  assume "read_tag vc used from = Inr (i, rest)"
  then have r: "dropWhile is_tag_char from \<noteq> []" "rest = tl (dropWhile is_tag_char from)"
    by (auto simp: read_tag_def Let_def split: if_splits)
  have "length (dropWhile is_tag_char from) \<le> length from" by (rule length_dropWhile_le)
  with r show ?thesis by (cases "dropWhile is_tag_char from") auto
qed

text \<open>The segment is what is between \<open>_begin\<close> and \<open>_ch\<close>.\<close>

function parse_value ::
    "value_context \<Rightarrow> string \<Rightarrow> qstring \<Rightarrow> nat set \<Rightarrow> string \<Rightarrow> value_error + qstring" where
  "parse_value vc segment result used [] = Inr (append_to_result vc segment result)"
| "parse_value vc segment result used (c # from) =
     (if c = CHR ''{'' then
        (case read_tag vc used from of
           Inl e \<Rightarrow> Inl e
         | Inr (i, rest) \<Rightarrow>
             parse_value vc [] (append_to_result vc segment result @ tag_replacer i) (insert i used) rest)
      else parse_value vc (segment @ [c]) result used from)"
  by pat_completeness auto
termination
  by (relation "measure (\<lambda>(vc, segment, result, used, from). length from)")
    (auto dest!: read_tag_shorter)

definition ValueParser :: "value_context \<Rightarrow> string \<Rightarrow> value_error + qstring" where
  "ValueParser vc val = parse_value vc [] [] {} val"

section \<open>A value with tags\<close>

text \<open>A value is a text and then tags, each followed by a text.\<close>

definition value_text :: "string \<Rightarrow> (string \<times> string) list \<Rightarrow> string" where
  "value_text s tags = s @ concat (map (\<lambda>(name, t). CHR ''{'' # name @ CHR ''}'' # t) tags)"

definition value_pieces :: "value_context \<Rightarrow> string \<Rightarrow> (string \<times> string) list \<Rightarrow> piece list" where
  "value_pieces vc s tags = Plain (append_to_result vc s []) #
     concat (map (\<lambda>(name, t). [Tag (vc_tag_index vc name), Plain (append_to_result vc t [])]) tags)"

definition tags_known :: "value_context \<Rightarrow> (string \<times> string) list \<Rightarrow> bool" where
  "tags_known vc tags \<longleftrightarrow>
     (\<forall>(name, t)\<in>set tags. name \<noteq> [] \<and> list_all is_tag_char name \<and>
        vc_tag_index vc name < vc_tags_count vc \<and> vc_replaced vc (vc_tag_index vc name)) \<and>
     distinct (map (vc_tag_index vc \<circ> fst) tags)"

lemma append_to_result_app: "append_to_result vc s r = r @ append_to_result vc s []"
  by (simp add: append_to_result_def)

lemma parse_segment:
  "CHR ''{'' \<notin> set s \<Longrightarrow> parse_value vc segment result used (s @ rest) = parse_value vc (segment @ s) result used rest"
  by (induction s arbitrary: segment) auto

lemma read_tag_text:
  assumes "name \<noteq> []" "list_all is_tag_char name" "vc_tag_index vc name < vc_tags_count vc"
    "vc_replaced vc (vc_tag_index vc name)" "vc_tag_index vc name \<notin> used"
  shows "read_tag vc used (name @ CHR ''}'' # rest) = Inr (vc_tag_index vc name, rest)"
proof -
  have "takeWhile is_tag_char (name @ CHR ''}'' # rest) = name \<and>
      dropWhile is_tag_char (name @ CHR ''}'' # rest) = CHR ''}'' # rest"
    using assms(2) by (induction name) (auto simp: is_tag_char_def)
  then show ?thesis using assms by (simp add: read_tag_def)
qed

lemma parse_value_text:
  assumes "CHR ''{'' \<notin> set s" "\<forall>(name, t)\<in>set tags. CHR ''{'' \<notin> set t" "tags_known vc tags"
    "used \<inter> set (map (vc_tag_index vc \<circ> fst) tags) = {}"
  shows "parse_value vc [] result used (value_text s tags) = Inr (result @ render (value_pieces vc s tags))"
  using assms
proof (induction tags arbitrary: s result used)
  case Nil
  then show ?case
    using parse_segment [of s vc "[]" result used "[]"] append_to_result_app [of vc s result]
    by (simp add: value_text_def value_pieces_def)
next
  case (Cons e tags)
  obtain name t where e: "e = (name, t)" by (cases e)
  let ?i = "vc_tag_index vc name"
  have tag: "name \<noteq> []" "list_all is_tag_char name" "?i < vc_tags_count vc" "vc_replaced vc ?i" "?i \<notin> used"
    "tags_known vc tags" "?i \<notin> set (map (vc_tag_index vc \<circ> fst) tags)" "CHR ''{'' \<notin> set t"
    using Cons.prems e by (auto simp: tags_known_def)
  have "parse_value vc [] result used (s @ CHR ''{'' # name @ CHR ''}'' # value_text t tags) =
      parse_value vc [] (append_to_result vc s result @ tag_replacer ?i) (insert ?i used) (value_text t tags)"
    using parse_segment [OF Cons.prems(1), of vc "[]" result used] read_tag_text [OF tag(1-5)] by simp
  also have "\<dots> = Inr ((append_to_result vc s result @ tag_replacer ?i) @ render (value_pieces vc t tags))"
    by (rule Cons.IH) (use Cons.prems tag e in auto)
  finally show ?case
    using append_to_result_app [of vc s result]
    by (simp add: value_text_def value_pieces_def e tag_replacer_def)
qed

lemma cut_at_first:
  "x \<notin> set a \<Longrightarrow> takeWhile (\<lambda>p. p \<noteq> x) (a @ x # b) = a \<and> dropWhile (\<lambda>p. p \<noteq> x) (a @ x # b) = x # b"
  by (induction a) auto

lemma value_pieces_ok:
  assumes utf8: "\<forall>x. CHR 0x10 \<notin> set x \<longrightarrow> TextCommand \<notin> set (vc_from_utf8 vc x)"
    and count: "vc_tags_count vc \<le> 2 ^ 16 - 0x20" and known: "tags_known vc tags"
    and s: "CHR 0x10 \<notin> set s" and tags: "\<And>n x. (n, x) \<in> set tags \<Longrightarrow> CHR 0x10 \<notin> set x"
  shows "\<forall>p\<in>set (value_pieces vc s tags). piece_ok p"
proof
  have plain: "piece_ok (Plain (append_to_result vc x []))" if "CHR 0x10 \<notin> set x" for x
    using utf8 that by (simp add: append_to_result_def)
  have tag: "piece_ok (Tag (vc_tag_index vc n))" if "(n, x) \<in> set tags" for n x
  proof -
    have "vc_tag_index vc n < vc_tags_count vc"
      using bspec [OF conjunct1 [OF known [unfolded tags_known_def]] that] by simp
    then show ?thesis using count by simp
  qed
  fix p assume "p \<in> set (value_pieces vc s tags)"
  then consider "p = Plain (append_to_result vc s [])"
    | n x where "(n, x) \<in> set tags" "p = Tag (vc_tag_index vc n) \<or> p = Plain (append_to_result vc x [])"
    by (auto simp: value_pieces_def)
  then show "piece_ok p"
    by cases (use plain tag s tags in blast)+
qed

lemma tag_not_before:
  assumes "tags_known vc (before @ (name, t) # after)"
  shows "Tag (vc_tag_index vc name) \<notin> set (value_pieces vc s before)"
proof
  assume "Tag (vc_tag_index vc name) \<in> set (value_pieces vc s before)"
  then obtain n x where n: "(n, x) \<in> set before" "vc_tag_index vc n = vc_tag_index vc name"
    by (auto simp: value_pieces_def)
  have "(vc_tag_index vc \<circ> fst) (n, x) \<in> set (map (vc_tag_index vc \<circ> fst) before)"
    unfolding set_map using n(1) by (rule imageI)
  then show False using assms n(2) by (simp add: tags_known_def)
qed

section \<open>Properties\<close>

text \<open>C11. Tags survive from the language file to the shown string: a value with tags that the key
  knows, none twice, is parsed without error, and \<open>ReplaceTag\<close> with the index of one of them
  puts the replacement exactly in its place between the texts of the value. Bytes that are no
  text command decode to no text command.\<close>

theorem tagged_value_replaced:
  assumes "\<forall>s. CHR 0x10 \<notin> set s \<longrightarrow> TextCommand \<notin> set (vc_from_utf8 vc s)"
    "vc_tags_count vc \<le> 2 ^ 16 - 0x20" "tags_known vc (before @ (name, t) # after)"
    "\<forall>x\<in>set (s # map snd (before @ (name, t) # after)). CHR ''{'' \<notin> set x \<and> CHR 0x10 \<notin> set x"
  shows "\<exists>r. ValueParser vc (value_text s (before @ (name, t) # after)) = Inr r \<and>
    ReplaceTag r (vc_tag_index vc name) replacement =
      render (value_pieces vc s before) @ replacement @ render (value_pieces vc t after)"
proof -
  let ?tags = "before @ (name, t) # after" and ?i = "vc_tag_index vc name"
  let ?ps = "value_pieces vc s ?tags"
  have texts: "CHR ''{'' \<notin> set x" "CHR 0x10 \<notin> set x" if "(n, x) \<in> set ?tags" for n x
  proof -
    have "x \<in> set (map snd ?tags)" using imageI [OF that, of snd] by (simp only: set_map snd_conv)
    then have "x \<in> set (s # map snd ?tags)" unfolding list.set(2) by (rule insertI2)
    then show "CHR ''{'' \<notin> set x" "CHR 0x10 \<notin> set x" using assms(4) by blast+
  qed
  then have "\<forall>(n, x)\<in>set ?tags. CHR ''{'' \<notin> set x" by blast
  then have parsed: "ValueParser vc (value_text s ?tags) = Inr (render ?ps)"
    using parse_value_text [of s ?tags vc "{}" "[]"] assms(3,4) by (simp add: ValueParser_def)
  have ok: "\<forall>p\<in>set ?ps. piece_ok p"
    by (rule value_pieces_ok [OF assms(1-3) _ texts(2)]) (use assms(4) in simp_all)
  have split: "?ps = value_pieces vc s before @ Tag ?i # value_pieces vc t after"
    by (simp add: value_pieces_def)
  note cut = cut_at_first [OF tag_not_before [OF assms(3), of s], of "value_pieces vc t after", folded split]
  have "Tag ?i \<in> set ?ps" unfolding split by simp
  then have "ReplaceTag (render ?ps) ?i replacement =
      render (value_pieces vc s before) @ replacement @ render (value_pieces vc t after)"
    unfolding replace_tag_pieces [OF ok, of ?i replacement] conjunct1 [OF cut] conjunct2 [OF cut]
    by (simp only: if_True list.sel)
  with parsed show ?thesis by blast
qed

text \<open>\<open>Hi {name}!\<close> with tag 3 and bytes that are units.\<close>

definition example_context :: value_context where
  "example_context = \<lparr> vc_tag_index = (\<lambda>s. if s = ''name'' then 3 else 20), vc_tags_count = 20,
     vc_replaced = (\<lambda>i. i = 3), vc_from_utf8 = map (\<lambda>c. of_nat (of_char c)) \<rparr>"

theorem tagged_value_replaced_witness:
  "\<exists>r. ValueParser example_context (value_text ''Hi '' [(''name'', ''!'')]) = Inr r \<and>
     ReplaceTag r 3 [77] = [72, 105, 32, 77, 33]"
proof -
  have units: "TextCommand \<notin> set (vc_from_utf8 example_context s)" if "CHR 0x10 \<notin> set s" for s
  proof
    assume "TextCommand \<in> set (vc_from_utf8 example_context s)"
    then obtain c where c: "c \<in> set s" "(of_nat (of_char c) :: 16 word) = 16"
      by (auto simp: example_context_def TextCommand_def)
    have "(of_char c :: nat) < 2 ^ 16" using less_trans [OF of_char_less [of c], of "2 ^ 16"] by simp
    then have "unat (of_nat (of_char c) :: 16 word) = of_char c"
      by (simp only: unsigned_of_nat) (simp add: take_bit_nat_eq_self)
    then have "(of_char c :: nat) = of_char CHR 0x10" using c(2) by simp
    then show False using c(1) that by (simp only: of_char_eq_iff)
  qed
  have "tags_known example_context ([] @ (''name'', ''!'') # [])"
    by (simp add: tags_known_def example_context_def is_tag_char_def)
  then obtain r where
    "ValueParser example_context (value_text ''Hi '' ([] @ (''name'', ''!'') # [])) = Inr r"
    "ReplaceTag r (vc_tag_index example_context ''name'') [77] =
      render (value_pieces example_context ''Hi '' []) @ [77] @ render (value_pieces example_context ''!'' [])"
    using tagged_value_replaced [of example_context "[]" "''name''" "''!''" "[]" "''Hi ''" "[77]"] units
    by (auto simp: example_context_def)
  then show ?thesis
    by (simp add: example_context_def value_pieces_def append_to_result_def)
qed

end
