(* ===== verification/Bytes.thy ===== *)
theory Bytes
  imports Prelude "HOL-Library.Word"
begin

text \<open>
  Bytes in memory and in files: a structure of the code is written as the bytes it has in
  memory, the numbers with the lowest byte first. A file is a list of bytes; writing at a
  position replaces what is there and makes the file longer when it has to.
\<close>

type_synonym byte = "8 word"
type_synonym bytes = "byte list"

section \<open>Numbers as bytes\<close>

primrec le_bytes :: "nat \<Rightarrow> nat \<Rightarrow> bytes" where
  "le_bytes 0 n = []"
| "le_bytes (Suc k) n = of_nat n # le_bytes k (n div 256)"

primrec le_value :: "bytes \<Rightarrow> nat" where
  "le_value [] = 0"
| "le_value (b # bs) = unat b + 256 * le_value bs"

lemma length_le_bytes [simp]: "length (le_bytes k n) = k"
  by (induction k arbitrary: n) simp_all

lemma unat_byte_less [simp]: "unat (b :: byte) < 256"
  using unsigned_less [where 'a = nat and w = b] by simp

lemma unat_of_nat_byte: "unat (of_nat n :: byte) = n mod 256"
  by (simp add: unat_of_nat)

lemma le_value_less: "le_value bs < 256 ^ length bs"
proof (induction bs)
  case (Cons b bs)
  then have "Suc (le_value bs) * 256 \<le> 256 ^ length bs * 256"
    by (intro mult_le_mono1) simp
  moreover have "unat b + 256 * le_value bs < Suc (le_value bs) * 256"
    using unat_byte_less [of b] by (simp del: unat_byte_less)
  ultimately show ?case
    by (simp only: le_value.simps list.size power_Suc mult.commute One_nat_def add_Suc_right add_0_right)
qed simp

lemma le_value_le_bytes: "le_value (le_bytes k n) = n mod 256 ^ k"
proof (induction k arbitrary: n)
  case (Suc k)
  have "n mod (256 * 256 ^ k) = n mod 256 + 256 * (n div 256 mod 256 ^ k)"
    by (simp add: mod_mult2_eq)
  then show ?case
    by (simp add: Suc unat_of_nat_byte)
qed simp

lemma le_value_le_bytes_id: "n < 256 ^ k \<Longrightarrow> le_value (le_bytes k n) = n"
  by (simp add: le_value_le_bytes)

lemma le_bytes_le_value: "le_bytes (length bs) (le_value bs) = bs"
proof (induction bs)
  case (Cons b bs)
  have "of_nat (unat b + 256 * le_value bs) = b"
    by (metis mod_mult_self2 of_nat_unat unat_byte_less mod_less unat_of_nat_byte word_unat_eq_iff)
  moreover have "(unat b + 256 * le_value bs) div 256 = le_value bs"
    by simp
  ultimately show ?case
    by (simp only: list.size le_value.simps le_bytes.simps One_nat_def add_Suc_right add_0_right Cons)
qed simp

lemma le_bytes_mod: "le_bytes k (n mod 256 ^ k) = le_bytes k n"
  by (metis le_bytes_le_value le_value_le_bytes length_le_bytes)

lemma le_bytes_eq_iff: "le_bytes k m = le_bytes k n \<longleftrightarrow> m mod 256 ^ k = n mod 256 ^ k"
  by (metis le_bytes_mod le_value_le_bytes)

section \<open>Bytes in files\<close>

definition overwrite :: "nat \<Rightarrow> bytes \<Rightarrow> bytes \<Rightarrow> bytes" where
  "overwrite pos new old =
     take pos old @ replicate (pos - length old) 0 @ new @ drop (pos + length new) old"

lemma length_overwrite: "length (overwrite pos new old) = max (pos + length new) (length old)"
  by (simp add: overwrite_def)

lemma overwrite_Nil: "pos \<le> length old \<Longrightarrow> overwrite pos [] old = old"
  by (simp add: overwrite_def)

lemma overwrite_end [simp]: "overwrite (length old) new old = old @ new"
  by (simp add: overwrite_def)

lemma overwrite_append:
  "pos \<le> length old \<Longrightarrow>
   overwrite (pos + length xs) ys (overwrite pos xs old) = overwrite pos (xs @ ys) old"
  by (simp add: overwrite_def min_def add.commute add.left_commute)

lemma take_overwrite: "pos \<le> length old \<Longrightarrow> take pos (overwrite pos new old) = take pos old"
  by (simp add: overwrite_def)

lemma take_drop_overwrite:
  "pos \<le> length old \<Longrightarrow> take (length new) (drop pos (overwrite pos new old)) = new"
  by (simp add: overwrite_def)

lemma overwrite_prefix: "overwrite (length pre + pos) new (pre @ old) = pre @ overwrite pos new old"
  by (simp add: overwrite_def)

lemma overwrite_suffix:
  "pos \<le> length old \<Longrightarrow>
   overwrite pos new (old @ tail) = overwrite pos new old @ drop (pos + length new - length old) tail"
  by (simp add: overwrite_def)

end
