(* ===== verification/Cache_Types.thy ===== *)
theory Cache_Types
  imports Bytes
begin

text \<open>
  storage/cache/storage\_cache\_types.h and .cpp: keys, settings, points of time and the records
  of the log of the cache. A record is kept with its fields and is written with the bytes
  its structure has in memory; a \<open>StoreWithTime\<close> is a \<open>Store\<close> that has a time. The lemmas
  say that the packed numbers and the records are read back as they were written.
\<close>

unbundle bit_operations_syntax

section \<open>Keys\<close>

datatype cache_key = Cache_key (key_high: "64 word") (key_low: "64 word")

instantiation cache_key :: linorder
begin

definition less_cache_key :: "cache_key \<Rightarrow> cache_key \<Rightarrow> bool" where
  "a < b \<longleftrightarrow> key_high a < key_high b \<or> key_high a = key_high b \<and> key_low a < key_low b"

definition less_eq_cache_key :: "cache_key \<Rightarrow> cache_key \<Rightarrow> bool" where
  "a \<le> b \<longleftrightarrow> a = b \<or> a < (b :: cache_key)"

instance
proof
  fix x y z :: cache_key
  show "x < y \<longleftrightarrow> x \<le> y \<and> \<not> y \<le> x" "x \<le> x"
    by (auto simp: less_eq_cache_key_def less_cache_key_def)
  show "x \<le> y \<Longrightarrow> y \<le> z \<Longrightarrow> x \<le> z" "x \<le> y \<Longrightarrow> y \<le> x \<Longrightarrow> x = y" "x \<le> y \<or> y \<le> x"
    by (cases x; cases y; cases z; auto simp: less_eq_cache_key_def less_cache_key_def)+
qed

end

section \<open>Errors and settings\<close>

datatype cache_error_type = Error_None | Error_IO | Error_WrongKey | Error_LockFailed

record cache_error =
  err_type :: cache_error_type
  err_path :: string

definition NoError :: cache_error where
  "NoError = \<lparr> err_type = Error_None, err_path = '''' \<rparr>"

definition kRecordSizeUnknown :: int where "kRecordSizeUnknown = - 1"
definition kRecordSizeInvalid :: int where "kRecordSizeInvalid = - 2"
definition kBundledRecordsLimit :: int where "kBundledRecordsLimit = 2 ^ (3 * 8)"
definition kDataSizeLimit :: int where "kDataSizeLimit = 2 ^ (3 * 8)"

record cache_settings =
  maxBundledRecords :: int
  readBlockSize :: int
  maxDataSize :: int
  writeBundleDelay :: int
  staleRemoveChunk :: int
  compactAfterExcess :: int
  compactAfterFullSize :: int
  compactChunkSize :: int
  trackEstimatedTime :: bool
  totalSizeLimit :: int
  totalTimeLimit :: int
  pruneTimeout :: int
  maxPruneCheckTimeout :: int
  clearOnWrongKey :: bool

definition default_settings :: cache_settings where
  "default_settings = \<lparr>
     maxBundledRecords = 16 * 1024,
     readBlockSize = 8 * 1024 * 1024,
     maxDataSize = kDataSizeLimit - 1,
     writeBundleDelay = 15 * 60 * 1000,
     staleRemoveChunk = 256,
     compactAfterExcess = 8 * 1024 * 1024,
     compactAfterFullSize = 0,
     compactChunkSize = 16 * 1024,
     trackEstimatedTime = True,
     totalSizeLimit = 1024 * 1024 * 1024,
     totalTimeLimit = 31 * 24 * 60 * 60,
     pruneTimeout = 5 * 1000,
     maxPruneCheckTimeout = 3600 * 1000,
     clearOnWrongKey = False \<rparr>"

record tagged_value =
  tv_bytes :: bytes
  tv_tag :: byte

record tagged_summary =
  sum_count :: int
  sum_size :: int

record cache_stats =
  stats_full :: tagged_summary
  stats_tagged :: "byte \<Rightarrow> tagged_summary option"
  stats_clearing :: bool

section \<open>Packed numbers\<close>

text \<open>\<open>ReadTo\<close> packs a count into an array of bytes, \<open>ReadFrom\<close> reads it.\<close>

primrec read_to_loop :: "nat \<Rightarrow> int \<Rightarrow> bytes" where
  "read_to_loop 0 n = []"
| "read_to_loop (Suc k) n = word_of_int (n AND 0xFF) # read_to_loop k (drop_bit 8 n)"

definition ReadTo :: "nat \<Rightarrow> int \<Rightarrow> bytes outcome" where
  "ReadTo k n = expects (0 \<le> n \<and> n < 2 ^ (k * 8)) (Inr (read_to_loop k n))"

definition ReadFrom :: "bytes \<Rightarrow> int" where
  "ReadFrom packed = foldl (\<lambda>result element. push_bit 8 result OR uint element) 0 (rev packed)"

definition ValidateStrictCount :: "bytes \<Rightarrow> int" where
  "ValidateStrictCount packed = (let result = ReadFrom packed in if result \<noteq> 0 then result else - 1)"

lemma read_to_loop_le_bytes: "0 \<le> n \<Longrightarrow> read_to_loop k n = le_bytes k (nat n)"
proof (induction k arbitrary: n)
  case (Suc k)
  have "word_of_int (n AND 0xFF) = (of_nat (nat n) :: byte)"
  proof -
    have "n AND 0xFF = take_bit 8 n"
      by (simp add: take_bit_eq_mask mask_eq_exp_minus_1)
    then show ?thesis
      using Suc.prems by (simp add: word_of_int_eq_iff flip: word_of_int_nat)
  qed
  moreover have "drop_bit 8 n = int (nat n div 256)"
    using Suc.prems by (simp add: drop_bit_eq_div nat_div_distrib)
  ultimately show ?case
    using Suc.IH [of "drop_bit 8 n"] by simp
qed simp

lemma ReadFrom_le_value: "ReadFrom packed = int (le_value packed)"
proof (induction packed)
  case (Cons b packed)
  have "push_bit 8 (int n) OR uint b = int (unat b + 256 * n)" for n
  proof -
    have "push_bit 8 (int n) AND uint b = 0"
    proof (rule bit_eqI)
      fix i
      have "\<not> bit (uint b) i" if "8 \<le> i"
        using that by (simp add: bit_uint_iff)
      then show "bit (push_bit 8 (int n) AND uint b) i \<longleftrightarrow> bit 0 i"
        by (cases "8 \<le> i") (simp_all add: bit_and_iff bit_push_bit_iff)
    qed
    then show ?thesis
      by (simp add: disjunctive_add_eq_or [symmetric] push_bit_eq_mult)
  qed
  then show ?case
    using Cons by (simp add: ReadFrom_def)
qed (simp add: ReadFrom_def)

lemma ReadFrom_ReadTo:
  assumes "ReadTo k n = Inr packed"
  shows "ReadFrom packed = n" "length packed = k"
proof -
  have n: "0 \<le> n" "n < 2 ^ (k * 8)" "packed = le_bytes k (nat n)"
    using assms by (auto simp: ReadTo_def expects_Inr_iff read_to_loop_le_bytes)
  then have "nat n < 256 ^ k"
    by (simp add: nat_less_iff power_mult mult.commute [of k] )
  then show "ReadFrom packed = n" "length packed = k"
    using n by (simp_all add: ReadFrom_le_value le_value_le_bytes_id)
qed

lemma ReadFrom_bounds: "0 \<le> ReadFrom packed" "ReadFrom packed < 256 ^ length packed"
  using le_value_less [of packed] by (simp_all add: ReadFrom_le_value flip: of_nat_less_iff)

section \<open>Points of time\<close>

record time_point =
  tp_relative1 :: "32 word"
  tp_relative2 :: "32 word"
  tp_system :: "32 word"

definition setRelative :: "64 word \<Rightarrow> time_point \<Rightarrow> time_point" where
  "setRelative n t = t\<lparr> tp_relative1 := ucast (n AND 0xFFFFFFFF),
     tp_relative2 := ucast (drop_bit 32 n AND 0xFFFFFFFF) \<rparr>"

definition getRelative :: "time_point \<Rightarrow> 64 word" where
  "getRelative t = ucast (tp_relative1 t) OR push_bit 32 (ucast (tp_relative2 t))"

definition zero_time :: time_point where
  "zero_time = \<lparr> tp_relative1 = 0, tp_relative2 = 0, tp_system = 0 \<rparr>"

lemma getRelative_setRelative [simp]: "getRelative (setRelative n t) = n"
proof (rule bit_word_eqI)
  fix i assume i: "i < LENGTH(64)"
  have m: "(0xFFFFFFFF :: 64 word) = mask 32"
    by (simp add: mask_eq_exp_minus_1)
  have "getRelative (setRelative n t) =
      ucast (ucast (take_bit 32 n) :: 32 word) OR push_bit 32 (ucast (ucast (take_bit 32 (drop_bit 32 n)) :: 32 word))"
    by (simp add: getRelative_def setRelative_def m take_bit_eq_mask del: mask_numeral)
  then show "bit (getRelative (setRelative n t)) i = bit n i"
    using i by (auto simp: bit_simps)
qed

lemma tp_system_setRelative [simp]: "tp_system (setRelative n t) = tp_system t"
  by (simp add: setRelative_def)

lemma getRelative_system_update [simp]: "getRelative (t\<lparr> tp_system := s \<rparr>) = getRelative t"
  by (simp add: getRelative_def)

definition time_bytes :: "time_point \<Rightarrow> bytes" where
  "time_bytes t = le_bytes 4 (unat (tp_relative1 t)) @ le_bytes 4 (unat (tp_relative2 t)) @
     le_bytes 4 (unat (tp_system t))"

definition bytes_time :: "bytes \<Rightarrow> time_point" where
  "bytes_time bs = \<lparr> tp_relative1 = of_nat (le_value (take 4 bs)),
     tp_relative2 = of_nat (le_value (take 4 (drop 4 bs))),
     tp_system = of_nat (le_value (take 4 (drop 8 bs))) \<rparr>"

lemma unat_word32_less [simp]: "unat (w :: 32 word) < 256 ^ 4"
  using unsigned_less [where 'a = nat and w = w] by simp

lemma unat_word64_less [simp]: "unat (w :: 64 word) < 256 ^ 8"
  using unsigned_less [where 'a = nat and w = w] by simp

lemma word_bytes_roundtrip [simp]:
  "of_nat (le_value (le_bytes 4 (unat w))) = (w :: 32 word)"
  "of_nat (le_value (le_bytes 8 (unat v))) = (v :: 64 word)"
  by (simp_all only: le_value_le_bytes_id unat_word32_less unat_word64_less of_nat_unat ucast_id)

lemma length_time_bytes [simp]: "length (time_bytes t) = 12"
  by (simp add: time_bytes_def)

lemma bytes_time_time_bytes [simp]: "bytes_time (time_bytes t @ xs) = t"
  by (simp add: bytes_time_def time_bytes_def del: le_bytes.simps)

section \<open>The records of the log\<close>

text \<open>
  \<open>Store\<close> and \<open>StoreWithTime\<close>: the packed size and place are arrays of bytes. The reserved word
  at the end of a \<open>StoreWithTime\<close> is written as zero.
\<close>

record store_record =
  sr_tag :: byte
  sr_size :: bytes
  sr_place :: bytes
  sr_checksum :: "32 word"
  sr_key :: cache_key
  sr_time :: "time_point option"

definition new_store :: "time_point option \<Rightarrow> store_record" where
  "new_store time = \<lparr> sr_tag = 0, sr_size = replicate 3 0, sr_place = replicate 7 0, sr_checksum = 0,
     sr_key = Cache_key 0 0, sr_time = time \<rparr>"

definition setSize :: "int \<Rightarrow> store_record \<Rightarrow> store_record outcome" where
  "setSize n r = bind_outcome (ReadTo 3 n) (\<lambda>packed. Inr (r\<lparr> sr_size := packed \<rparr>))"

definition getSize :: "store_record \<Rightarrow> int" where
  "getSize r = ReadFrom (sr_size r)"

definition kStoreType :: byte where "kStoreType = 0x01"
definition kMultiStoreType :: byte where "kMultiStoreType = 0x02"
definition kMultiRemoveType :: byte where "kMultiRemoveType = 0x03"
definition kMultiAccessType :: byte where "kMultiAccessType = 0x04"

definition key_bytes :: "cache_key \<Rightarrow> bytes" where
  "key_bytes k = le_bytes 8 (unat (key_high k)) @ le_bytes 8 (unat (key_low k))"

definition bytes_key :: "bytes \<Rightarrow> cache_key" where
  "bytes_key bs = Cache_key (of_nat (le_value (take 8 bs))) (of_nat (le_value (take 8 (drop 8 bs))))"

definition store_bytes :: "store_record \<Rightarrow> bytes" where
  "store_bytes r = kStoreType # sr_tag r # sr_size r @ sr_place r @
     le_bytes 4 (unat (sr_checksum r)) @ key_bytes (sr_key r) @
     (case sr_time r of None \<Rightarrow> [] | Some t \<Rightarrow> time_bytes t @ replicate 4 0)"

definition bytes_store :: "bool \<Rightarrow> bytes \<Rightarrow> store_record" where
  "bytes_store with_time bs =
     \<lparr> sr_tag = bs ! 1, sr_size = take 3 (drop 2 bs), sr_place = take 7 (drop 5 bs),
       sr_checksum = of_nat (le_value (take 4 (drop 12 bs))), sr_key = bytes_key (drop 16 bs),
       sr_time = (if with_time then Some (bytes_time (drop 32 bs)) else None) \<rparr>"

text \<open>The heads of the records with several parts.\<close>

definition multi_head :: "byte \<Rightarrow> bytes \<Rightarrow> bytes" where
  "multi_head kind packed = kind # packed @ replicate 12 0"

definition MultiStoreHead :: "int \<Rightarrow> bytes outcome" where
  "MultiStoreHead n = bind_outcome (ReadTo 3 n) (\<lambda>packed.
     expects (0 \<le> n \<and> n < kBundledRecordsLimit) (Inr (multi_head kMultiStoreType packed)))"

definition MultiRemoveHead :: "int \<Rightarrow> bytes outcome" where
  "MultiRemoveHead n = bind_outcome (ReadTo 3 n) (\<lambda>packed.
     expects (0 \<le> n \<and> n < kBundledRecordsLimit) (Inr (multi_head kMultiRemoveType packed)))"

definition MultiAccessHead :: "time_point \<Rightarrow> int \<Rightarrow> bytes outcome" where
  "MultiAccessHead time n = bind_outcome (ReadTo 3 n) (\<lambda>packed.
     expects (0 \<le> n \<and> n < kBundledRecordsLimit)
       (Inr (kMultiAccessType # packed @ time_bytes time)))"

lemma length_key_bytes [simp]: "length (key_bytes k) = 16"
  by (simp add: key_bytes_def)

lemma bytes_key_key_bytes [simp]: "bytes_key (key_bytes k @ xs) = k"
  by (simp add: bytes_key_def key_bytes_def del: le_bytes.simps)

definition store_ok :: "bool \<Rightarrow> store_record \<Rightarrow> bool" where
  "store_ok with_time r \<longleftrightarrow> length (sr_size r) = 3 \<and> length (sr_place r) = 7 \<and>
     (sr_time r \<noteq> None \<longleftrightarrow> with_time)"

definition store_size :: "bool \<Rightarrow> nat" where
  "store_size with_time = (if with_time then 48 else 32)"

lemma length_store_bytes: "store_ok with_time r \<Longrightarrow> length (store_bytes r) = store_size with_time"
  by (auto simp: store_ok_def store_bytes_def store_size_def split: option.splits)

lemma bytes_store_store_bytes:
  assumes "store_ok with_time r"
  shows "bytes_store with_time (store_bytes r @ xs) = r"
proof -
  have len: "length (sr_size r) = 3" "length (sr_place r) = 7"
    using assms by (simp_all add: store_ok_def)
  show ?thesis
    using assms len
    by (cases r) (auto simp: bytes_store_def store_bytes_def store_ok_def drop_Cons' simp del: le_bytes.simps
        split: option.splits)
qed

section \<open>The header of the log\<close>

text \<open>The format has the low eight bits of the first word, the flags the others.\<close>

definition kLogFormat_0 :: byte where "kLogFormat_0 = 0"
definition kTrackEstimatedTime :: "32 word" where "kTrackEstimatedTime = 0x01"

record log_header =
  hdr_format :: byte
  hdr_flags :: "32 word"
  hdr_time :: "32 word"

definition BasicHeader :: log_header where
  "BasicHeader = \<lparr> hdr_format = kLogFormat_0, hdr_flags = 0, hdr_time = 0 \<rparr>"

definition header_bytes :: "log_header \<Rightarrow> bytes" where
  "header_bytes h = hdr_format h # le_bytes 3 (unat (hdr_flags h)) @
     le_bytes 4 (unat (hdr_time h)) @ replicate 8 0"

definition bytes_header :: "bytes \<Rightarrow> log_header" where
  "bytes_header bs = \<lparr> hdr_format = bs ! 0, hdr_flags = of_nat (le_value (take 3 (drop 1 bs))),
     hdr_time = of_nat (le_value (take 4 (drop 4 bs))) \<rparr>"

lemma length_header_bytes [simp]: "length (header_bytes h) = 16"
  by (simp add: header_bytes_def)

lemma bytes_header_header_bytes:
  "unat (hdr_flags h) < 2 ^ 24 \<Longrightarrow> bytes_header (header_bytes h @ xs) = h"
  by (simp add: bytes_header_def header_bytes_def le_value_le_bytes_id del: le_bytes.simps)

end
