(* ===== verification/Encryption.thy ===== *)
theory Encryption
  imports Bytes
begin

text \<open>
  storage/storage\_encryption.cpp: the counter mode files are encrypted with. The AES counter
  mode of OpenSSL is a parameter, \<open>ctr128\<close> of the data, the key and the first counter block;
  its documented behaviour is \<open>counter_mode\<close>. The lemmas say that the code, which computes the
  counter block of an offset itself, encrypts every byte with the byte of one key stream that
  belongs to its position, so that a file can be written and read in any pieces.
\<close>

unbundle bit_operations_syntax

definition kSaltSize :: nat where "kSaltSize = 64"
definition kBlockSize :: nat where "kBlockSize = 16"
definition kKeySize :: nat where "kKeySize = 32"
definition kIvSize :: nat where "kIvSize = kBlockSize"

record ctr_state =
  ctr_key :: bytes
  ctr_iv :: bytes

definition make_ctr_state :: "bytes \<Rightarrow> bytes \<Rightarrow> ctr_state outcome" where
  "make_ctr_state key iv =
     expects (length key = kKeySize) (expects (length iv = kIvSize) (Inr \<lparr> ctr_key = key, ctr_iv = iv \<rparr>))"

text \<open>The loop of \<open>incrementedIv\<close> from the last digit on: the digits come lowest first.\<close>

primrec increment_digits :: "64 word \<Rightarrow> bytes \<Rightarrow> bytes" where
  "increment_digits increment [] = []"
| "increment_digits increment (digit # digits) =
     (let total = increment + ucast digit; rest = drop_bit 8 total
      in ucast (total AND 0xFF) # (if rest \<noteq> 0 then increment_digits rest digits else digits))"

definition incremented_iv :: "ctr_state \<Rightarrow> int \<Rightarrow> bytes outcome" where
  "incremented_iv st blockIndex =
     expects (0 \<le> blockIndex)
       (if blockIndex = 0 then Inr (ctr_iv st)
        else Inr (rev (increment_digits (word_of_int blockIndex) (rev (ctr_iv st)))))"

type_synonym counter_cipher = "bytes \<Rightarrow> bytes \<Rightarrow> bytes \<Rightarrow> bytes"

definition ctr_process :: "counter_cipher \<Rightarrow> ctr_state \<Rightarrow> bytes \<Rightarrow> int \<Rightarrow> bytes outcome" where
  "ctr_process ctr128 st xs off =
     expects (length xs mod kBlockSize = 0)
       (expects (off mod int kBlockSize = 0)
          (bind_outcome (incremented_iv st (off div int kBlockSize))
             (\<lambda>iv. Inr (ctr128 xs (ctr_key st) iv))))"

definition ctr_encrypt :: "counter_cipher \<Rightarrow> ctr_state \<Rightarrow> bytes \<Rightarrow> int \<Rightarrow> bytes outcome" where
  "ctr_encrypt = ctr_process"

definition ctr_decrypt :: "counter_cipher \<Rightarrow> ctr_state \<Rightarrow> bytes \<Rightarrow> int \<Rightarrow> bytes outcome" where
  "ctr_decrypt = ctr_process"

text \<open>
  An \<open>EncryptionKey\<close> is its bytes, 256 of them, or none. The contract of \<open>subspan\<close> asks for the
  first half of the key, so one without bytes stops the program. \<open>Sha256\<close> is a parameter.
\<close>

definition key_size :: nat where "key_size = 256"

definition prepareCtrState :: "(bytes \<Rightarrow> bytes) \<Rightarrow> bytes \<Rightarrow> bytes \<Rightarrow> ctr_state outcome" where
  "prepareCtrState sha256 key salt =
     expects (length salt = kSaltSize) (expects (key_size div 2 \<le> length key)
       (let ctrKey = sha256 (take (key_size div 2) key @ take (kSaltSize div 2) salt);
            iv = sha256 (drop (key_size div 2) key @ drop (kSaltSize div 2) salt)
        in make_ctr_state ctrKey (take kIvSize iv)))"

section \<open>The counter\<close>

text \<open>
  The counter block \<open>n\<close> blocks after \<open>iv\<close>, a number of 128 bits with the highest byte first,
  and the counter mode over a block cipher \<open>cipher\<close> (NIST SP 800-38A, 6.5).
\<close>

definition next_iv :: "bytes \<Rightarrow> nat \<Rightarrow> bytes" where
  "next_iv iv n = rev (le_bytes 16 (le_value (rev iv) + n))"

definition counter_mode :: "(bytes \<Rightarrow> bytes \<Rightarrow> bytes) \<Rightarrow> counter_cipher" where
  "counter_mode cipher xs key iv =
     map (\<lambda>i. xs ! i XOR cipher key (next_iv iv (i div 16)) ! (i mod 16)) [0..<length xs]"

definition is_counter_mode :: "(bytes \<Rightarrow> bytes \<Rightarrow> bytes) \<Rightarrow> counter_cipher \<Rightarrow> bool" where
  "is_counter_mode cipher ctr128 \<longleftrightarrow>
     (\<forall>xs key iv. length iv = 16 \<longrightarrow> ctr128 xs key iv = counter_mode cipher xs key iv)"

lemma increment_digits_adds:
  "unat increment < 2 ^ 63 \<Longrightarrow>
   increment_digits increment ds = le_bytes (length ds) (le_value ds + unat increment)"
proof (induction ds arbitrary: increment)
  case (Cons d ds)
  define s :: "64 word" where "s = increment + ucast d"
  have s: "unat s = unat increment + unat d"
    unfolding s_def using Cons.prems unat_byte_less [of d]
    by (subst unat_add_lem [THEN iffD1])
      (simp_all add: unsigned_ucast_eq take_bit_eq_mod del: unat_byte_less)
  have low: "ucast (s AND 0xFF) = (of_nat (unat d + 256 * le_value ds + unat increment) :: byte)"
  proof -
    have low8: "unat (ucast (s AND 0xFF) :: byte) = unat s mod 256"
    proof -
      have "(0xFF :: 64 word) = mask 8"
        by (simp add: mask_eq_exp_minus_1)
      then have "ucast (s AND 0xFF) = (ucast (take_bit 8 s) :: byte)"
        by (simp only: take_bit_eq_mask)
      then show ?thesis
        by (simp only: unsigned_ucast_eq unsigned_take_bit_eq) (simp add: take_bit_eq_mod)
    qed
    have swap: "(a + b) mod 256 = (b + 256 * c + a) mod 256" for a b c :: nat
      using mod_mult_self2 [of "a + b" 256 c] by (simp add: ac_simps)
    show ?thesis
      unfolding word_unat_eq_iff low8 unat_of_nat_byte s by (rule swap)
  qed
  have rest: "unat (drop_bit 8 s) = unat s div 256"
    by (simp only: unat_drop_bit_eq) (simp add: drop_bit_eq_div)
  have tail: "(unat d + 256 * le_value ds + unat increment) div 256 = le_value ds + unat s div 256"
    unfolding s by simp
  show ?case
  proof (cases "drop_bit 8 s = 0")
    case True
    then have "unat s div 256 = 0"
      using rest by simp
    then show ?thesis
      using True low tail by (simp add: s_def [symmetric] Let_def le_bytes_le_value)
  next
    case False
    have "unat (drop_bit 8 s) < 2 ^ 63"
      unfolding rest using unsigned_less [where 'a = nat and w = s] by simp
    then show ?thesis
      using False low tail rest Cons.IH by (simp add: s_def [symmetric] Let_def)
  qed
qed simp

lemma incremented_iv_next:
  assumes "length (ctr_iv st) = 16" "0 \<le> n" "n < 2 ^ 63"
  shows "incremented_iv st n = Inr (next_iv (ctr_iv st) (nat n))"
proof -
  have num: "unat (word_of_int n :: 64 word) = nat n"
    using assms by (simp add: unsigned_of_int take_bit_eq_mod)
  have zero: "next_iv (ctr_iv st) 0 = ctr_iv st"
    using le_bytes_le_value [of "rev (ctr_iv st)"] assms(1) by (simp add: next_iv_def)
  show ?thesis
    using assms increment_digits_adds [of "word_of_int n" "rev (ctr_iv st)"] num zero
    by (auto simp: incremented_iv_def next_iv_def nat_less_iff)
qed

lemma length_next_iv [simp]: "length (next_iv iv n) = 16"
  by (simp add: next_iv_def)

lemma next_iv_next: "next_iv (next_iv iv m) n = next_iv iv (m + n)"
  by (simp add: next_iv_def le_value_le_bytes le_bytes_eq_iff mod_simps add.assoc)

section \<open>The key stream\<close>

definition key_stream :: "(bytes \<Rightarrow> bytes \<Rightarrow> bytes) \<Rightarrow> ctr_state \<Rightarrow> nat \<Rightarrow> byte" where
  "key_stream cipher st p = cipher (ctr_key st) (next_iv (ctr_iv st) (p div 16)) ! (p mod 16)"

definition xor_stream :: "(nat \<Rightarrow> byte) \<Rightarrow> nat \<Rightarrow> bytes \<Rightarrow> bytes" where
  "xor_stream s p xs = map (\<lambda>i. xs ! i XOR s (p + i)) [0..<length xs]"

lemma length_xor_stream [simp]: "length (xor_stream s p xs) = length xs"
  by (simp add: xor_stream_def)

lemma xor_stream_twice [simp]: "xor_stream s p (xor_stream s p xs) = xs"
  by (rule nth_equalityI) (simp_all add: xor_stream_def xor.assoc)

lemma xor_stream_Nil [simp]: "xor_stream s p [] = []"
  by (simp add: xor_stream_def)

lemma xor_stream_append:
  "xor_stream s p (xs @ ys) = xor_stream s p xs @ xor_stream s (p + length xs) ys"
  by (rule nth_equalityI) (auto simp: xor_stream_def nth_append)

lemma xor_stream_take: "xor_stream s p (take n xs) = take n (xor_stream s p xs)"
  by (rule nth_equalityI) (simp_all add: xor_stream_def)

lemma xor_stream_nth [simp]: "i < length xs \<Longrightarrow> xor_stream s p xs ! i = xs ! i XOR s (p + i)"
  by (simp add: xor_stream_def)

lemma xor_stream_drop: "xor_stream s (p + n) (drop n xs) = drop n (xor_stream s p xs)"
  by (rule nth_equalityI) (simp_all add: add.assoc)

lemma xor_stream_overwrite:
  assumes "pos \<le> length xs"
  shows "xor_stream s p (overwrite pos ys xs) = overwrite pos (xor_stream s (p + pos) ys) (xor_stream s p xs)"
  using assms xor_stream_drop [of s p "pos + length ys" xs]
  by (simp add: overwrite_def xor_stream_append xor_stream_take add.assoc)

theorem ctr_process_xor:
  assumes "is_counter_mode cipher ctr128" "length (ctr_iv st) = 16"
    "length xs mod 16 = 0" "p mod 16 = 0" "p < 2 ^ 63"
  shows "ctr_process ctr128 st xs (int p) = Inr (xor_stream (key_stream cipher st) p xs)"
proof -
  have iv: "incremented_iv st (int p div 16) = Inr (next_iv (ctr_iv st) (p div 16))"
    using assms(5) incremented_iv_next [OF assms(2), of "int p div 16"] by (simp add: nat_div_distrib)
  have "(p + i) div 16 = p div 16 + i div 16" "(p + i) mod 16 = i mod 16" for i
    using assms(4) by (auto elim: dvdE simp: mod_0_imp_dvd)
  then have "counter_mode cipher xs (ctr_key st) (next_iv (ctr_iv st) (p div 16))
      = xor_stream (key_stream cipher st) p xs"
    by (simp add: counter_mode_def xor_stream_def key_stream_def next_iv_next)
  moreover have "int p mod 16 = 0"
    using assms(4) by presburger
  ultimately show ?thesis
    using assms(1,3) iv by (simp add: ctr_process_def kBlockSize_def is_counter_mode_def)
qed

end
