(* ===== verification/Encrypted_File.thy ===== *)
theory Encrypted_File
  imports Encryption "HOL-Library.Signed_Division"
begin

text \<open>
  storage/storage\_encrypted\_file.cpp: a file on disk that is encrypted in place. The state has
  the bytes on disk with the position of the \<open>QFile\<close>, and the two numbers the class keeps:
  the offset in the key stream and the size of the data. What the disk and the system do,
  short reads, failing seeks, a lock that is not given, comes with an environment.
\<close>

unbundle bit_operations_syntax

datatype file_mode = Mode_Read | Mode_ReadAppend | Mode_Write

datatype file_result = Result_Failed | Result_LockFailed | Result_WrongKey | Result_Success

record enc_file =
  ef_open :: bool
  ef_raw :: bytes
  ef_pos :: nat
  ef_offset :: int
  ef_size :: int
  ef_state :: "ctr_state option"

record file_env =
  fe_ctr128 :: counter_cipher
  fe_sha256 :: "bytes \<Rightarrow> bytes"
  fe_salt :: bytes
  fe_padding :: bytes
  fe_mkpath :: bool
  fe_open :: bool
  fe_lock :: bool
  fe_read :: "nat \<Rightarrow> nat \<Rightarrow> int"
  fe_write :: "nat \<Rightarrow> nat \<Rightarrow> int"
  fe_seek :: "int \<Rightarrow> bool"

section \<open>The file under the encryption\<close>

text \<open>
  \<open>QFile::read\<close> and \<open>QFile::write\<close> return how many bytes they have taken, -1 on an error;
  opening for writing truncates.
\<close>

definition readPlain :: "file_env \<Rightarrow> nat \<Rightarrow> enc_file \<Rightarrow> bytes \<times> int \<times> enc_file" where
  "readPlain env n f =
     (let k = fe_read env (ef_pos f) n; got = take (nat k) (take n (drop (ef_pos f) (ef_raw f)))
      in if k < 0 then ([], -1, f)
         else (got, int (length got), f\<lparr> ef_pos := ef_pos f + length got \<rparr>))"

definition writePlain :: "file_env \<Rightarrow> bytes \<Rightarrow> enc_file \<Rightarrow> int \<times> enc_file" where
  "writePlain env xs f =
     (let k = fe_write env (ef_pos f) (length xs); out = take (nat k) xs
      in if k < 0 then (-1, f)
         else (int (length out),
           f\<lparr> ef_raw := overwrite (ef_pos f) out (ef_raw f), ef_pos := ef_pos f + length out \<rparr>))"

definition seekPlain :: "file_env \<Rightarrow> int \<Rightarrow> enc_file \<Rightarrow> bool \<times> enc_file" where
  "seekPlain env to f =
     (if 0 \<le> to \<and> fe_seek env to then (True, f\<lparr> ef_pos := nat to \<rparr>) else (False, f))"

section \<open>Encrypting in place\<close>

definition kSkipBytes :: nat where "kSkipBytes = 4"
definition header_size :: nat where "header_size = 112"

definition file_decrypt :: "file_env \<Rightarrow> bytes \<Rightarrow> enc_file \<Rightarrow> (bytes \<times> enc_file) outcome" where
  "file_decrypt env xs f =
     (case ef_state f of
        None \<Rightarrow> Inl Expects_failed
      | Some st \<Rightarrow> bind_outcome (ctr_decrypt (fe_ctr128 env) st xs (ef_offset f))
          (\<lambda>ys. Inr (ys, f\<lparr> ef_offset := ef_offset f + int (length xs) \<rparr>)))"

definition file_encrypt :: "file_env \<Rightarrow> bytes \<Rightarrow> enc_file \<Rightarrow> (bytes \<times> enc_file) outcome" where
  "file_encrypt env xs f =
     (case ef_state f of
        None \<Rightarrow> Inl Expects_failed
      | Some st \<Rightarrow> bind_outcome (ctr_encrypt (fe_ctr128 env) st xs (ef_offset f))
          (\<lambda>ys. Inr (ys, f\<lparr> ef_offset := ef_offset f + int (length xs) \<rparr>)))"

definition decryptBack :: "file_env \<Rightarrow> bytes \<Rightarrow> enc_file \<Rightarrow> (bytes \<times> enc_file) outcome" where
  "decryptBack env xs f =
     expects (int (length xs) \<le> ef_offset f)
       (bind_outcome (file_decrypt env xs (f\<lparr> ef_offset := ef_offset f - int (length xs) \<rparr>))
          (\<lambda>(ys, f1). Inr (ys, f1\<lparr> ef_offset := ef_offset f1 - int (length xs) \<rparr>)))"

definition file_offset :: "enc_file \<Rightarrow> int" where
  "file_offset f =
     (let realOffset = int kSaltSize + ef_offset f
      in if int header_size \<le> realOffset then realOffset - int header_size else 0)"

text \<open>
  The bytes a read gives back and the number it returns. A count that is not a whole number of
  blocks is taken back; the remainder has the sign of the count.
\<close>

definition file_read :: "file_env \<Rightarrow> nat \<Rightarrow> enc_file \<Rightarrow> (bytes \<times> int \<times> enc_file) outcome" where
  "file_read env n f =
     expects (n mod kBlockSize = 0)
       (let (got, cnt, f1) = readPlain env n f;
            back = - (cnt smod int kBlockSize);
            (ok, f2) = (if back \<noteq> 0 then seekPlain env (int (ef_pos f1) + back) f1 else (True, f1));
            cnt2 = cnt + back
        in if \<not> ok then Inr ([], 0, f2)
           else if cnt2 \<noteq> 0
           then bind_outcome (file_decrypt env (take (nat cnt2) got) f2)
                  (\<lambda>(ys, f3). Inr (ys, cnt2, f3))
           else Inr ([], 0, f2))"

text \<open>The buffer after a write is encrypted when the write succeeds.\<close>

definition file_write :: "file_env \<Rightarrow> bytes \<Rightarrow> enc_file \<Rightarrow> (bytes \<times> bool \<times> enc_file) outcome" where
  "file_write env xs f =
     expects (length xs mod kBlockSize = 0)
       (if \<not> ef_open f then Inr (xs, False, f)
        else bind_outcome (file_encrypt env xs f) (\<lambda>(ys, f1).
          let (cnt, f2) = writePlain env ys f1
          in if cnt = int (length ys)
             then Inr (ys, True, f2\<lparr> ef_size := max (ef_size f2) (file_offset f2) \<rparr>)
             else bind_outcome (decryptBack env ys f2) (\<lambda>(zs, f3).
               Inr (zs, False,
                 if cnt > 0 then snd (seekPlain env (int (ef_pos f3) - cnt) f3) else f3))))"

definition file_seek :: "file_env \<Rightarrow> int \<Rightarrow> enc_file \<Rightarrow> bool \<times> enc_file" where
  "file_seek env off f =
     (let realOffset = int header_size + off
      in if off < 0 \<or> off > ef_size f then (False, f)
         else let (ok, f1) = seekPlain env (int kSkipBytes + realOffset) f
              in if \<not> ok then (False, f)
                 else (True, f1\<lparr> ef_offset := realOffset - int kSaltSize \<rparr>))"

definition readWithPadding :: "file_env \<Rightarrow> nat \<Rightarrow> enc_file \<Rightarrow> (bytes \<times> int \<times> enc_file) outcome" where
  "readWithPadding env asked f =
     (let part = asked mod kBlockSize; good = asked - part
      in bind_outcome (if good \<noteq> 0 then file_read env good f else Inr ([], 0, f))
        (\<lambda>(xs, succeed, f1).
          if good \<noteq> 0 \<and> succeed \<noteq> int good then Inr (xs, succeed, f1)
          else if part = 0 then Inr (xs, int good, f1)
          else bind_outcome (file_read env kBlockSize f1) (\<lambda>(padded, succeed, f2).
            if succeed = 0 then Inr (xs, int good, f2)
            else asserts (succeed = int kBlockSize)
              (Inr (xs @ take part padded, int asked, f2)))))"

text \<open>The padding is random.\<close>

definition writeWithPadding :: "file_env \<Rightarrow> bytes \<Rightarrow> enc_file \<Rightarrow> (bool \<times> enc_file) outcome" where
  "writeWithPadding env xs f =
     (let part = length xs mod kBlockSize; good = length xs - part
      in bind_outcome (if good \<noteq> 0 then file_write env (take good xs) f else Inr ([], True, f))
        (\<lambda>(ys, ok, f1).
          if \<not> ok then Inr (False, f1)
          else if part = 0 then Inr (True, f1)
          else bind_outcome
            (file_write env (drop good xs @ take (kBlockSize - part) (fe_padding env)) f1)
            (\<lambda>(zs, ok, f2).
              if ok then Inr (True, f2)
              else if good \<noteq> 0
              then bind_outcome (decryptBack env ys f2)
                     (\<lambda>(_, f3). Inr (False, snd (seekPlain env (int (ef_pos f3) - int good) f3)))
              else Inr (False, f2))))"

section \<open>Opening\<close>

text \<open>\<open>BasicHeader\<close> after the salt: the format, the reserved words, the version, the checksum.\<close>

definition kFormat_0 :: byte where "kFormat_0 = 0"

definition magic_bytes :: bytes where
  "magic_bytes = [0x54, 0x44, 0x45, 0x46]"

definition header_plain :: bytes where
  "header_plain = kFormat_0 # replicate 15 0"

definition header_checksum :: "file_env \<Rightarrow> bytes \<Rightarrow> bytes \<Rightarrow> bytes \<Rightarrow> bytes" where
  "header_checksum env key salt head = fe_sha256 env (key @ salt @ head)"

definition file_writeHeader :: "file_env \<Rightarrow> bytes \<Rightarrow> enc_file \<Rightarrow> (bool \<times> enc_file) outcome" where
  "file_writeHeader env key f =
     expects (ef_state f = None) (expects (ef_pos f = 0)
       (let (cnt, f1) = writePlain env (take kSkipBytes magic_bytes) f
        in if cnt = 0 then Inr (False, f1)
           else bind_outcome (prepareCtrState (fe_sha256 env) key (fe_salt env)) (\<lambda>st.
             let f2 = f1\<lparr> ef_state := Some st \<rparr>;
                 (cnt, f3) = writePlain env (fe_salt env) f2
             in if cnt \<noteq> int kSaltSize then Inr (False, f3)
                else bind_outcome
                  (file_write env (header_plain @ header_checksum env key (fe_salt env) header_plain) f3)
                  (\<lambda>(_, ok, f4).
                    if \<not> ok then Inr (False, f4) else Inr (True, f4\<lparr> ef_size := 0 \<rparr>)))))"

definition file_readHeader :: "file_env \<Rightarrow> bytes \<Rightarrow> enc_file \<Rightarrow> (file_result \<times> enc_file) outcome" where
  "file_readHeader env key f =
     expects (ef_state f = None) (expects (ef_pos f = 0)
       (let (ok, f1) = seekPlain env (int kSkipBytes) f
        in if \<not> ok then Inr (Result_Failed, f1)
           else let (head, cnt, f2) = readPlain env header_size f1
             in if cnt \<noteq> int header_size then Inr (Result_Failed, f2)
                else bind_outcome (prepareCtrState (fe_sha256 env) key (take kSaltSize head)) (\<lambda>st.
                  bind_outcome (file_decrypt env (drop kSaltSize head) (f2\<lparr> ef_state := Some st \<rparr>))
                  (\<lambda>(rest, f3).
                    if drop 16 rest \<noteq> header_checksum env key (take kSaltSize head) (take 16 rest)
                    then Inr (Result_WrongKey, f3)
                    else if rest ! 0 \<noteq> kFormat_0 then Inr (Result_Failed, f3)
                    else let dataSize = int (length (ef_raw f3)) - int header_size - int kSkipBytes
                      in asserts (0 \<le> dataSize)
                           (Inr (Result_Success,
                              f3\<lparr> ef_size := dataSize - dataSize mod int kBlockSize \<rparr>))))))"

definition file_close :: "enc_file \<Rightarrow> enc_file" where
  "file_close f = f\<lparr> ef_open := False, ef_pos := 0, ef_size := 0, ef_offset := 0, ef_state := None \<rparr>"

definition attemptOpenForRead :: "file_env \<Rightarrow> bytes \<Rightarrow> enc_file \<Rightarrow> (file_result \<times> enc_file) outcome" where
  "attemptOpenForRead env key f =
     (if \<not> fe_open env then Inr (Result_Failed, f)
      else file_readHeader env key (f\<lparr> ef_open := True \<rparr>))"

definition attemptOpenForReadAppend ::
    "file_env \<Rightarrow> bytes \<Rightarrow> enc_file \<Rightarrow> (file_result \<times> enc_file) outcome" where
  "attemptOpenForReadAppend env key f =
     (if \<not> fe_lock env then Inr (Result_LockFailed, f)
      else let f1 = f\<lparr> ef_open := True \<rparr>
           in if ef_raw f = []
              then bind_outcome (file_writeHeader env key f1)
                     (\<lambda>(ok, f2). Inr (if ok then Result_Success else Result_Failed, f2))
              else file_readHeader env key f1)"

definition attemptOpenForWrite :: "file_env \<Rightarrow> bytes \<Rightarrow> enc_file \<Rightarrow> (file_result \<times> enc_file) outcome" where
  "attemptOpenForWrite env key f =
     (if \<not> fe_lock env then Inr (Result_LockFailed, f)
      else bind_outcome (file_writeHeader env key (f\<lparr> ef_open := True, ef_raw := [] \<rparr>))
             (\<lambda>(ok, f2). Inr (if ok then Result_Success else Result_Failed, f2)))"

definition attemptOpen ::
    "file_env \<Rightarrow> file_mode \<Rightarrow> bytes \<Rightarrow> enc_file \<Rightarrow> (file_result \<times> enc_file) outcome" where
  "attemptOpen env mode key f =
     (case mode of
        Mode_Read \<Rightarrow> attemptOpenForRead env key f
      | Mode_ReadAppend \<Rightarrow> attemptOpenForReadAppend env key f
      | Mode_Write \<Rightarrow> attemptOpenForWrite env key f)"

text \<open>The path is that of the bytes in \<open>ef_raw\<close>.\<close>

definition file_open ::
    "file_env \<Rightarrow> file_mode \<Rightarrow> bytes \<Rightarrow> enc_file \<Rightarrow> (file_result \<times> enc_file) outcome" where
  "file_open env mode key f =
     (let f1 = file_close f
      in if mode \<noteq> Mode_Read \<and> \<not> fe_mkpath env then Inr (Result_Failed, f1)
         else bind_outcome (attemptOpen env mode key f1) (\<lambda>(result, f2).
           Inr (result, if result \<noteq> Result_Success then file_close f2 else f2)))"


section \<open>A plain file\<close>

text \<open>
  What the class promises: a file of whole blocks with a position in it. Reading and writing
  with padding go to the next block.
\<close>

record plain_file =
  pf_data :: bytes
  pf_offset :: nat

definition plain_read :: "nat \<Rightarrow> plain_file \<Rightarrow> bytes \<times> plain_file" where
  "plain_read n p =
     (let got = take n (drop (pf_offset p) (pf_data p))
      in (got, p\<lparr> pf_offset := pf_offset p + length got \<rparr>))"

definition plain_write :: "bytes \<Rightarrow> plain_file \<Rightarrow> plain_file" where
  "plain_write xs p =
     \<lparr> pf_data = overwrite (pf_offset p) xs (pf_data p), pf_offset = pf_offset p + length xs \<rparr>"

definition plain_seek :: "int \<Rightarrow> plain_file \<Rightarrow> bool \<times> plain_file" where
  "plain_seek off p =
     (if 0 \<le> off \<and> off \<le> int (length (pf_data p)) then (True, p\<lparr> pf_offset := nat off \<rparr>)
      else (False, p))"

definition blocks_up :: "nat \<Rightarrow> nat" where
  "blocks_up n = n + (16 - n mod 16) mod 16"

definition reliable :: "file_env \<Rightarrow> bool" where
  "reliable env \<longleftrightarrow>
     fe_mkpath env \<and> fe_open env \<and> fe_lock env \<and>
     (\<forall>p n. fe_read env p n = int n) \<and> (\<forall>p n. fe_write env p n = int n) \<and>
     (\<forall>q\<ge>0. fe_seek env q) \<and>
     length (fe_salt env) = kSaltSize \<and> length (fe_padding env) = kBlockSize \<and>
     (\<forall>xs. length (fe_sha256 env xs) = 32)"

section \<open>The file as a plain file\<close>

text \<open>The bytes a file with this salt has before its data, and the key stream of its data.\<close>

definition header_image :: "(bytes \<Rightarrow> bytes \<Rightarrow> bytes) \<Rightarrow> file_env \<Rightarrow> bytes \<Rightarrow> bytes \<Rightarrow> ctr_state \<Rightarrow> bytes" where
  "header_image cipher env key salt st =
     magic_bytes @ salt @ xor_stream (key_stream cipher st) 0
       (header_plain @ header_checksum env key salt header_plain)"

record file_ghost =
  fg_salt :: bytes
  fg_state :: ctr_state

definition disk_ok :: "(bytes \<Rightarrow> bytes \<Rightarrow> bytes) \<Rightarrow> file_env \<Rightarrow> bytes \<Rightarrow> file_ghost \<Rightarrow> bytes \<Rightarrow> bytes \<Rightarrow> bool" where
  "disk_ok cipher env key g raw xs \<longleftrightarrow>
     length (fg_salt g) = kSaltSize \<and>
     prepareCtrState (fe_sha256 env) key (fg_salt g) = Inr (fg_state g) \<and>
     length (ctr_iv (fg_state g)) = 16 \<and> length xs mod 16 = 0 \<and>
     (\<exists>tail. length tail < 16 \<and>
        raw = header_image cipher env key (fg_salt g) (fg_state g) @
          xor_stream (key_stream cipher (fg_state g)) 48 xs @ tail)"

definition file_is :: "(bytes \<Rightarrow> bytes \<Rightarrow> bytes) \<Rightarrow> file_env \<Rightarrow> bytes \<Rightarrow> file_ghost \<Rightarrow> enc_file \<Rightarrow> plain_file \<Rightarrow> bool" where
  "file_is cipher env key g f p \<longleftrightarrow>
     disk_ok cipher env key g (ef_raw f) (pf_data p) \<and>
     ef_open f \<and> ef_state f = Some (fg_state g) \<and>
     pf_offset p \<le> length (pf_data p) \<and> pf_offset p mod 16 = 0 \<and>
     ef_pos f = 116 + pf_offset p \<and> ef_offset f = int (48 + pf_offset p) \<and>
     ef_size f = int (length (pf_data p))"

lemma length_header_plain [simp]: "length header_plain = 16"
  by (simp add: header_plain_def)

lemma length_magic [simp]: "length magic_bytes = 4"
  by (simp add: magic_bytes_def)

lemma length_header_image:
  "reliable env \<Longrightarrow> length salt = kSaltSize \<Longrightarrow> length (header_image cipher env key salt st) = 116"
  by (simp add: header_image_def header_checksum_def reliable_def kSaltSize_def)

lemma readPlain_reliable:
  "reliable env \<Longrightarrow> readPlain env n f =
     (let got = take n (drop (ef_pos f) (ef_raw f))
      in (got, int (length got), f\<lparr> ef_pos := ef_pos f + length got \<rparr>))"
  by (simp add: readPlain_def reliable_def Let_def)

lemma writePlain_reliable:
  "reliable env \<Longrightarrow> writePlain env xs f =
     (int (length xs), f\<lparr> ef_raw := overwrite (ef_pos f) xs (ef_raw f), ef_pos := ef_pos f + length xs \<rparr>)"
  by (simp add: writePlain_def reliable_def)

lemma seekPlain_reliable: "reliable env \<Longrightarrow> 0 \<le> q \<Longrightarrow> seekPlain env q f = (True, f\<lparr> ef_pos := nat q \<rparr>)"
  by (simp add: seekPlain_def reliable_def)

lemma smod_16_nat: "int n smod 16 = int (n mod 16)"
  by (cases "n = 0") (simp_all add: signed_modulo_int_def zmod_int)

lemma file_decrypt_stream:
  assumes "is_counter_mode cipher (fe_ctr128 env)" "ef_state f = Some st" "length (ctr_iv st) = 16"
    "length xs mod 16 = 0" "ef_offset f = int p" "p mod 16 = 0" "p < 2 ^ 63"
  shows "file_decrypt env xs f =
      Inr (xor_stream (key_stream cipher st) p xs, f\<lparr> ef_offset := int (p + length xs) \<rparr>)"
    and "file_encrypt env xs f = file_decrypt env xs f"
proof -
  show "file_decrypt env xs f =
      Inr (xor_stream (key_stream cipher st) p xs, f\<lparr> ef_offset := int (p + length xs) \<rparr>)"
    using assms(2,5) ctr_process_xor [OF assms(1,3,4,6,7)]
    by (simp add: file_decrypt_def ctr_decrypt_def)
  show "file_encrypt env xs f = file_decrypt env xs f"
    unfolding file_encrypt_def file_decrypt_def ctr_encrypt_def ctr_decrypt_def by (rule refl)
qed

lemma whole_blocks_read:
  assumes "n mod 16 = 0" "a mod 16 = 0" "t < (16::nat)"
  shows "min n (a + t) - min n (a + t) mod 16 = min n a"
proof (cases "n \<le> a")
  case True
  then show ?thesis
    using assms(1) by (simp add: min_def)
next
  case False
  have "a + t \<le> n"
  proof -
    have "16 dvd n - a"
      using assms(1,2) by (intro dvd_diff_nat) (simp_all add: mod_0_imp_dvd)
    then have "16 \<le> n - a"
      using False by (intro dvd_imp_le) auto
    then show ?thesis
      using assms(3) by simp
  qed
  moreover have "(a + t) mod 16 = t"
    using assms(2,3) by (metis add_0 mod_add_left_eq mod_less)
  ultimately show ?thesis
    using False by (simp add: min_def)
qed

lemma min_mod_16: "a mod 16 = 0 \<Longrightarrow> b mod 16 = 0 \<Longrightarrow> min a b mod (16::nat) = 0"
  by (simp add: min_def)

lemma file_is_raw:
  assumes "reliable env" "file_is cipher env key g f p"
  obtains tail where "length tail < 16"
    "ef_raw f = header_image cipher env key (fg_salt g) (fg_state g) @
       xor_stream (key_stream cipher (fg_state g)) 48 (pf_data p) @ tail"
    "length (header_image cipher env key (fg_salt g) (fg_state g)) = 116"
  using assms length_header_image [OF assms(1)] unfolding file_is_def disk_ok_def by blast

lemma file_is_read:
  assumes "is_counter_mode cipher (fe_ctr128 env)" "reliable env" "file_is cipher env key g f p"
    "n mod 16 = 0" "length (pf_data p) < 2 ^ 62"
  obtains f' where
    "file_read env n f = Inr (fst (plain_read n p), int (length (fst (plain_read n p))), f')"
    "file_is cipher env key g f' (snd (plain_read n p))" "ef_raw f' = ef_raw f"
proof -
  let ?ks = "key_stream cipher (fg_state g)" and ?d = "pf_data p" and ?o = "pf_offset p"
  let ?k = "min n (length ?d - ?o)"
  note facts = assms(3) [unfolded file_is_def disk_ok_def]
  obtain tail where tail: "length tail < 16"
    and raw: "ef_raw f = header_image cipher env key (fg_salt g) (fg_state g) @ xor_stream ?ks 48 ?d @ tail"
    and head: "length (header_image cipher env key (fg_salt g) (fg_state g)) = 116"
    by (rule file_is_raw [OF assms(2,3)])
  have o: "?o \<le> length ?d" "?o mod 16 = 0" "length ?d mod 16 = 0"
    using facts by simp_all
  have left: "(length ?d - ?o) mod 16 = 0"
    using o by (simp add: mod_eq_dvd_iff_nat dvd_diff_nat mod_0_imp_dvd)
  define got where "got = take n (drop (ef_pos f) (ef_raw f))"
  have got: "got = take n (drop ?o (xor_stream ?ks 48 ?d) @ tail)"
    using facts o(1) head by (simp add: got_def raw)
  have cnt: "length got = min n (length ?d - ?o + length tail)"
    using o(1) by (simp add: got)
  define undo where "undo = - (int (length got) smod 16)"
  have count: "int (length got) + undo = int ?k"
  proof -
    have "int (length got) - int (length got mod 16) = int (length got - length got mod 16)"
      by (simp add: of_nat_diff)
    then show ?thesis
      using whole_blocks_read [OF assms(4) left tail] by (simp add: undo_def smod_16_nat cnt)
  qed
  let ?f1 = "f\<lparr> ef_pos := ef_pos f + length got \<rparr>" and ?f2 = "f\<lparr> ef_pos := 116 + ?o + ?k \<rparr>"
  have moved: "(if undo \<noteq> 0 then seekPlain env (int (ef_pos ?f1) + undo) ?f1 else (True, ?f1)) = (True, ?f2)"
  proof -
    have pos: "int (ef_pos f + length got) + undo = int (116 + ?o + ?k)"
      using count facts by simp
    have "seekPlain env (int (ef_pos ?f1) + undo) ?f1 = seekPlain env (int (116 + ?o + ?k)) ?f1"
      by (rule arg_cong [where f = "\<lambda>q. seekPlain env q ?f1"]) (use pos in simp)
    also have "\<dots> = (True, ?f2)"
      by (subst seekPlain_reliable [OF assms(2)]) (simp_all only: nat_int, simp_all)
    finally have "seekPlain env (int (ef_pos ?f1) + undo) ?f1 = (True, ?f2)" .
    moreover have "?f1 = ?f2" if "undo = 0"
      using that count facts by simp
    ultimately show ?thesis
      by (cases "undo = 0") simp_all
  qed
  have data: "take ?k got = take ?k (drop ?o (xor_stream ?ks 48 ?d))"
    by (simp add: got)
  let ?f3 = "?f2\<lparr> ef_offset := int (48 + ?o + ?k) \<rparr>"
  have dec: "file_decrypt env (take ?k got) ?f2 = Inr (take n (drop ?o ?d), ?f3)"
  proof -
    have "xor_stream ?ks (48 + ?o) (take ?k got) = take n (drop ?o ?d)"
      unfolding data xor_stream_take xor_stream_drop by (simp add: min_def)
    moreover have k: "length (take ?k got) = ?k" "?k mod 16 = 0"
      using cnt left assms(4) by (auto simp: min_mod_16)
    moreover have o48: "(48 + ?o) mod 16 = 0"
      using o(2) by presburger
    have "file_decrypt env (take ?k got) ?f2 =
        Inr (xor_stream ?ks (48 + ?o) (take ?k got), ?f2\<lparr> ef_offset := int (48 + ?o + length (take ?k got)) \<rparr>)"
      by (rule file_decrypt_stream(1) [OF assms(1)]; use facts k o(1) o48 assms(5) in simp)
    ultimately show ?thesis
      by simp
  qed
  have result: "file_read env n f = Inr (take n (drop ?o ?d), int ?k, ?f3)"
  proof -
    have "readPlain env n f = (got, int (length got), ?f1)"
      using readPlain_reliable [OF assms(2), of n f] by (simp add: got_def Let_def)
    then have "file_read env n f = (if int ?k \<noteq> 0
        then bind_outcome (file_decrypt env (take ?k got) ?f2) (\<lambda>(ys, f3). Inr (ys, int ?k, f3))
        else Inr ([], 0, ?f2))"
      using assms(4) count moved
      by (simp only: file_read_def Let_def case_prod_conv kBlockSize_def expects_True of_nat_numeral
          undo_def [symmetric] nat_int not_True_eq_False if_False simp_thms)
    moreover have "?f3 = ?f2" "take n (drop ?o ?d) = []" if "?k = 0"
      using that facts by auto
    ultimately show ?thesis
      using dec by (cases "?k = 0") simp_all
  qed
  have "file_is cipher env key g ?f3 (snd (plain_read n p))"
    using facts assms(4) left
    by (auto simp: file_is_def disk_ok_def plain_read_def Let_def min.commute min_mod_16 mod_simps)
  then show thesis
    using that [OF _ _ _, of ?f3] result by (simp add: plain_read_def Let_def min.commute)
qed


lemma add_mod_16: "a mod 16 = 0 \<Longrightarrow> b mod 16 = 0 \<Longrightarrow> (a + b) mod (16::nat) = 0"
  by (simp add: mod_add_eq [symmetric])

lemma file_is_write:
  assumes "is_counter_mode cipher (fe_ctr128 env)" "reliable env" "file_is cipher env key g f p"
    "length xs mod 16 = 0" "length (pf_data p) < 2 ^ 62"
  obtains f' ys where "file_write env xs f = Inr (ys, True, f')" "file_is cipher env key g f' (plain_write xs p)"
proof -
  let ?ks = "key_stream cipher (fg_state g)" and ?d = "pf_data p" and ?o = "pf_offset p"
  let ?ys = "xor_stream ?ks (48 + ?o) xs" and ?d' = "overwrite ?o xs ?d"
  note facts = assms(3) [unfolded file_is_def disk_ok_def]
  obtain tail where tail: "length tail < 16"
    and raw: "ef_raw f = header_image cipher env key (fg_salt g) (fg_state g) @ xor_stream ?ks 48 ?d @ tail"
    and head: "length (header_image cipher env key (fg_salt g) (fg_state g)) = 116"
    by (rule file_is_raw [OF assms(2,3)])
  have o: "?o \<le> length ?d" "length ?d mod 16 = 0" "?o mod 16 = 0"
    using facts by simp_all
  then have o48: "(48 + ?o) mod 16 = 0"
    by presburger
  let ?f1 = "f\<lparr> ef_offset := int (48 + ?o + length xs) \<rparr>"
  have enc: "file_encrypt env xs f = Inr (?ys, ?f1)"
    unfolding file_decrypt_stream(2) [OF assms(1) _ _ assms(4)]
    by (subst file_decrypt_stream(2) [OF assms(1) _ _ assms(4), where p = "48 + ?o" and st = "fg_state g"])
      (use file_decrypt_stream(1) [OF assms(1) _ _ assms(4), of f "fg_state g" "48 + ?o"] facts o o48 assms(5) in simp_all)
  let ?f2 = "?f1\<lparr> ef_raw := overwrite (ef_pos f) ?ys (ef_raw f), ef_pos := ef_pos f + length xs \<rparr>"
  let ?f3 = "?f2\<lparr> ef_size := max (ef_size ?f2) (file_offset ?f2) \<rparr>"
  have result: "file_write env xs f = Inr (?ys, True, ?f3)"
    using facts assms(4) enc writePlain_reliable [OF assms(2), of ?ys ?f1]
    by (simp add: file_write_def kBlockSize_def)
  have size: "ef_size ?f3 = int (length ?d')"
    using facts by (simp add: file_offset_def kSaltSize_def header_size_def length_overwrite)
  have d': "length ?d' mod 16 = 0"
    using o assms(4) by (auto simp: length_overwrite max_def add_mod_16)
  have "ef_raw ?f3 = header_image cipher env key (fg_salt g) (fg_state g) @ xor_stream ?ks 48 ?d' @
      drop (?o + length xs - length ?d) tail"
    using o(1) overwrite_prefix [of "header_image cipher env key (fg_salt g) (fg_state g)" ?o ?ys]
    by (simp add: raw facts head overwrite_suffix xor_stream_overwrite)
  moreover have "length (drop (?o + length xs - length ?d) tail) < 16"
    using tail by simp
  ultimately have "disk_ok cipher env key g (ef_raw ?f3) ?d'"
    using facts d' unfolding disk_ok_def by blast
  then have "file_is cipher env key g ?f3 (plain_write xs p)"
    using facts o assms(4) size
    by (simp add: file_is_def plain_write_def length_overwrite add_mod_16)
  with result show thesis
    by (rule that)
qed

lemma file_is_seek:
  assumes "reliable env" "file_is cipher env key g f p" "off mod 16 = 0"
  shows "fst (file_seek env off f) = fst (plain_seek off p)"
    "file_is cipher env key g (snd (file_seek env off f)) (snd (plain_seek off p))"
  using assms(2,3)
  by (simp_all add: file_seek_def plain_seek_def file_is_def seekPlain_reliable [OF assms(1)] kSkipBytes_def
      header_size_def kSaltSize_def nat_add_distrib Let_def)
    (auto simp: nat_le_iff nat_mod_as_int)

lemma prepareCtrState_ok:
  assumes "reliable env" "length salt = kSaltSize" "length key = key_size"
  obtains st where "prepareCtrState (fe_sha256 env) key salt = Inr st" "length (ctr_iv st) = 16"
  using assms
  by (simp add: prepareCtrState_def key_size_def make_ctr_state_def reliable_def kKeySize_def kIvSize_def kBlockSize_def Let_def)

lemma file_is_write_header:
  assumes "is_counter_mode cipher (fe_ctr128 env)" "reliable env"
    "ef_open f" "ef_raw f = []" "ef_pos f = 0" "ef_offset f = 0" "ef_size f = 0" "ef_state f = None"
    "length key = key_size"
  obtains f' g where "file_writeHeader env key f = Inr (True, f')"
    "file_is cipher env key g f' \<lparr> pf_data = [], pf_offset = 0 \<rparr>"
proof -
  have salt: "length (fe_salt env) = kSaltSize"
    using assms(2) by (simp add: reliable_def)
  obtain st where st: "prepareCtrState (fe_sha256 env) key (fe_salt env) = Inr st" "length (ctr_iv st) = 16"
    by (rule prepareCtrState_ok [OF assms(2) salt assms(9)])
  let ?h = "header_plain @ header_checksum env key (fe_salt env) header_plain"
  let ?f3 = "f\<lparr> ef_state := Some st, ef_raw := magic_bytes @ fe_salt env, ef_pos := 68 \<rparr>"
  have h: "length ?h = 48"
    using assms(2) by (simp add: header_checksum_def reliable_def)
  let ?img = "header_image cipher env key (fe_salt env) st"
  let ?f4 = "?f3\<lparr> ef_raw := ?img, ef_pos := 116, ef_offset := 48 \<rparr>"
  have enc: "file_encrypt env ?h ?f3 = Inr (xor_stream (key_stream cipher st) 0 ?h, ?f3\<lparr> ef_offset := 48 \<rparr>)"
    by (subst file_decrypt_stream(2) [OF assms(1), where p = 0 and st = st])
      (use file_decrypt_stream(1) [OF assms(1), of ?f3 st ?h 0] st(2) h assms(6) in simp_all)
  have "overwrite 68 (xor_stream (key_stream cipher st) 0 ?h) (magic_bytes @ fe_salt env) = ?img"
    using overwrite_end [of "magic_bytes @ fe_salt env"] salt by (simp add: header_image_def kSaltSize_def)
  then have wrote: "file_write env ?h ?f3 = Inr (xor_stream (key_stream cipher st) 0 ?h, True, ?f4)"
    using enc h assms(3,7) by (simp add: file_write_def kBlockSize_def writePlain_reliable [OF assms(2)]
        file_offset_def kSaltSize_def header_size_def)
  have "file_writeHeader env key f = Inr (True, ?f4\<lparr> ef_size := 0 \<rparr>)"
    using assms(4,5,8) st(1) salt wrote overwrite_end [of magic_bytes "fe_salt env"]
    by (simp add: file_writeHeader_def writePlain_reliable [OF assms(2)] kSkipBytes_def kSaltSize_def
        overwrite_def)
  moreover have "file_is cipher env key \<lparr> fg_salt = fe_salt env, fg_state = st \<rparr> (?f4\<lparr> ef_size := 0 \<rparr>)
      \<lparr> pf_data = [], pf_offset = 0 \<rparr>"
    using st salt assms(3) by (simp add: file_is_def disk_ok_def)
  ultimately show thesis
    by (rule that)
qed

lemma file_is_read_header:
  assumes "is_counter_mode cipher (fe_ctr128 env)" "reliable env" "disk_ok cipher env key g (ef_raw f) xs"
    "ef_open f" "ef_pos f = 0" "ef_offset f = 0" "ef_state f = None"
  obtains f' where "file_readHeader env key f = Inr (Result_Success, f')"
    "file_is cipher env key g f' \<lparr> pf_data = xs, pf_offset = 0 \<rparr>" "ef_raw f' = ef_raw f"
proof -
  let ?salt = "fg_salt g" and ?st = "fg_state g"
  note facts = assms(3) [unfolded disk_ok_def]
  obtain tail where tail: "length tail < 16"
    and raw: "ef_raw f = header_image cipher env key ?salt ?st @ xor_stream (key_stream cipher ?st) 48 xs @ tail"
    using facts by blast
  have img: "length (header_image cipher env key ?salt ?st) = 116"
    using length_header_image [OF assms(2)] facts by blast
  let ?sum = "header_checksum env key ?salt header_plain"
  have sum: "length ?sum = 32"
    using assms(2) by (simp add: header_checksum_def reliable_def)
  let ?x = "xor_stream (key_stream cipher ?st) 0 (header_plain @ ?sum)"
  let ?f2 = "f\<lparr> ef_pos := 116, ef_state := Some ?st \<rparr>"
  have head: "take header_size (drop 4 (ef_raw f)) = ?salt @ ?x"
    using facts sum by (simp add: raw header_image_def header_size_def kSaltSize_def)
  have dec: "file_decrypt env ?x ?f2 = Inr (header_plain @ ?sum, ?f2\<lparr> ef_offset := 48 \<rparr>)"
    using file_decrypt_stream(1) [OF assms(1), of ?f2 ?st ?x 0] facts sum assms(6) by simp
  have size: "int (length (ef_raw f)) - int header_size - int kSkipBytes = int (length xs + length tail)"
    "int (length xs + length tail) - int (length xs + length tail) mod 16 = int (length xs)"
  proof -
    show "int (length (ef_raw f)) - int header_size - int kSkipBytes = int (length xs + length tail)"
      by (simp add: raw img header_size_def kSkipBytes_def)
    have "(length xs + length tail) mod 16 = length tail"
      using facts tail by (metis add_0 mod_add_left_eq mod_less)
    then show "int (length xs + length tail) - int (length xs + length tail) mod 16 = int (length xs)"
      by (metis zmod_int of_nat_numeral of_nat_add add_diff_cancel_right')
  qed
  have "file_readHeader env key f = Inr (Result_Success, ?f2\<lparr> ef_offset := 48, ef_size := int (length xs) \<rparr>)"
    using assms(5,7) facts dec size head sum
    by (simp add: file_readHeader_def seekPlain_reliable [OF assms(2)] readPlain_reliable [OF assms(2)]
        Let_def kSkipBytes_def header_size_def kSaltSize_def kBlockSize_def header_plain_def)
  moreover have "file_is cipher env key g (?f2\<lparr> ef_offset := 48, ef_size := int (length xs) \<rparr>)
      \<lparr> pf_data = xs, pf_offset = 0 \<rparr>"
    using assms(3,4) by (simp add: file_is_def)
  ultimately show thesis
    using that by simp
qed

text \<open>Opening for writing starts an empty file; opening what is on disk finds its data.\<close>

lemma file_is_open_write:
  assumes "is_counter_mode cipher (fe_ctr128 env)" "reliable env" "length key = key_size"
  obtains f' g where "file_open env Mode_Write key f = Inr (Result_Success, f')"
    "file_is cipher env key g f' \<lparr> pf_data = [], pf_offset = 0 \<rparr>"
proof -
  let ?f1 = "file_close f\<lparr> ef_open := True, ef_raw := [] \<rparr>"
  obtain f' g where "file_writeHeader env key ?f1 = Inr (True, f')"
    "file_is cipher env key g f' \<lparr> pf_data = [], pf_offset = 0 \<rparr>"
    by (rule file_is_write_header [OF assms(1,2), of ?f1 key]) (simp_all add: file_close_def assms(3))
  with that show thesis
    using assms(2) by (simp add: file_open_def attemptOpen_def attemptOpenForWrite_def reliable_def)
qed

lemma disk_ok_nonempty: "reliable env \<Longrightarrow> disk_ok cipher env key g raw xs \<Longrightarrow> raw \<noteq> []"
  using length_header_image [of env "fg_salt g" cipher key "fg_state g"] by (auto simp: disk_ok_def)

lemma file_is_open_again:
  assumes "is_counter_mode cipher (fe_ctr128 env)" "reliable env"
    "disk_ok cipher env key g (ef_raw f) xs" "mode \<noteq> Mode_Write"
  obtains f' where "file_open env mode key f = Inr (Result_Success, f')"
    "file_is cipher env key g f' \<lparr> pf_data = xs, pf_offset = 0 \<rparr>" "ef_raw f' = ef_raw f"
proof -
  let ?f1 = "file_close f\<lparr> ef_open := True \<rparr>"
  obtain f' where f': "file_readHeader env key ?f1 = Inr (Result_Success, f')"
    "file_is cipher env key g f' \<lparr> pf_data = xs, pf_offset = 0 \<rparr>" "ef_raw f' = ef_raw f"
    by (rule file_is_read_header [OF assms(1,2), of key g ?f1 xs])
      (use assms(3) in \<open>simp_all add: file_close_def\<close>)
  have "attemptOpen env mode key (file_close f) = Inr (Result_Success, f')"
    using assms(2,4) f'(1) disk_ok_nonempty [OF assms(2,3)]
    by (cases mode) (simp_all add: attemptOpen_def attemptOpenForRead_def attemptOpenForReadAppend_def
        reliable_def file_close_def)
  then have "file_open env mode key f = Inr (Result_Success, f')"
    using assms(2) by (simp add: file_open_def reliable_def)
  then show thesis
    using f'(2,3) by (rule that)
qed

section \<open>Padding\<close>

definition plain_read_padded :: "nat \<Rightarrow> plain_file \<Rightarrow> bytes \<times> plain_file" where
  "plain_read_padded n p =
     (let good = n - n mod 16; (xs, p1) = plain_read good p
      in if length xs \<noteq> good \<or> n mod 16 = 0 then (xs, p1)
         else let (ys, p2) = plain_read 16 p1 in (xs @ take (n mod 16) ys, p2))"

definition plain_write_padded :: "bytes \<Rightarrow> bytes \<Rightarrow> plain_file \<Rightarrow> plain_file" where
  "plain_write_padded padding xs p =
     plain_write (if length xs mod 16 = 0 then xs else xs @ take (16 - length xs mod 16) padding) p"

lemma plain_read_length:
  "pf_offset p \<le> length (pf_data p) \<Longrightarrow> length (fst (plain_read n p)) = min n (length (pf_data p) - pf_offset p)"
  by (simp add: plain_read_def Let_def min.commute)

lemma file_is_bounds: "file_is cipher env key g f p \<Longrightarrow> pf_offset p \<le> length (pf_data p)"
  by (simp add: file_is_def)

lemma file_is_read_padded:
  assumes "is_counter_mode cipher (fe_ctr128 env)" "reliable env" "file_is cipher env key g f p"
    "length (pf_data p) < 2 ^ 62"
  obtains f' where
    "readWithPadding env n f =
       Inr (fst (plain_read_padded n p), int (length (fst (plain_read_padded n p))), f')"
    "file_is cipher env key g f' (snd (plain_read_padded n p))" "ef_raw f' = ef_raw f"
proof -
  let ?good = "n - n mod 16" and ?p1 = "snd (plain_read (n - n mod 16) p)"
  have good: "?good mod 16 = 0"
    by (simp add: minus_mod_eq_mult_div)
  obtain f1 where f1: "(if ?good \<noteq> 0 then file_read env ?good f else Inr ([], 0, f)) =
      Inr (fst (plain_read ?good p), int (length (fst (plain_read ?good p))), f1)"
    "file_is cipher env key g f1 ?p1" "ef_raw f1 = ef_raw f"
  proof (cases "?good = 0")
    case True
    then have "plain_read ?good p = ([], p)"
      by (simp add: plain_read_def)
    then show thesis
      using that [of f] assms(3) True by simp
  next
    case False
    obtain f' where "file_read env ?good f =
        Inr (fst (plain_read ?good p), int (length (fst (plain_read ?good p))), f')"
      "file_is cipher env key g f' ?p1" "ef_raw f' = ef_raw f"
      by (rule file_is_read [OF assms(1-3) good assms(4)])
    then show thesis
      using that [of f'] False by simp
  qed
  have p1: "length (pf_data ?p1) < 2 ^ 62"
    using assms(4) by (simp add: plain_read_def Let_def)
  obtain f2 where f2: "file_read env 16 f1 =
      Inr (fst (plain_read 16 ?p1), int (length (fst (plain_read 16 ?p1))), f2)"
    "file_is cipher env key g f2 (snd (plain_read 16 ?p1))" "ef_raw f2 = ef_raw f1"
    by (rule file_is_read [OF assms(1,2) f1(2), of 16]) (use p1 in simp_all)
  have "length (fst (plain_read 16 ?p1)) mod 16 = 0"
  proof -
    have "16 dvd length (pf_data ?p1) - pf_offset ?p1"
      using f1(2) unfolding file_is_def disk_ok_def by (intro dvd_diff_nat) (auto simp only: mod_0_imp_dvd)
    then show ?thesis
      unfolding plain_read_length [OF file_is_bounds [OF f1(2)]] by (simp add: min_def)
  qed
  moreover have "length (fst (plain_read 16 ?p1)) \<le> 16"
    by (simp add: plain_read_def Let_def)
  ultimately have len16: "length (fst (plain_read 16 ?p1)) = 0 \<or> length (fst (plain_read 16 ?p1)) = 16"
    by (metis le_neq_implies_less mod_less)
  have small: "length (fst (plain_read ?good p)) \<le> ?good"
    by (simp add: plain_read_def Let_def)
  show thesis
  proof (cases "length (fst (plain_read ?good p)) \<noteq> ?good \<or> n mod 16 = 0")
    case True
    then have "plain_read_padded n p = plain_read ?good p"
      by (simp add: plain_read_padded_def Let_def case_prod_beta)
    moreover have "readWithPadding env n f =
        Inr (fst (plain_read ?good p), int (length (fst (plain_read ?good p))), f1)"
      unfolding readWithPadding_def kBlockSize_def Let_def f1(1) bind_outcome.simps case_prod_conv
      using True small by auto
    ultimately show thesis
      using that [of f1] f1(2,3) by simp
  next
    case False
    then have pad: "plain_read_padded n p =
        (fst (plain_read ?good p) @ take (n mod 16) (fst (plain_read 16 ?p1)), snd (plain_read 16 ?p1))"
      by (simp add: plain_read_padded_def Let_def case_prod_beta)
    have "readWithPadding env n f =
        Inr (fst (plain_read_padded n p), int (length (fst (plain_read_padded n p))), f2)"
      unfolding readWithPadding_def kBlockSize_def Let_def f1(1) bind_outcome.simps case_prod_conv f2(1)
      using False len16 by (auto simp: pad)
    then show thesis
      using that [of f2] f1(3) f2(2,3) pad by simp
  qed
qed


lemma plain_write_Nil: "pf_offset p \<le> length (pf_data p) \<Longrightarrow> plain_write [] p = p"
  by (simp add: plain_write_def overwrite_Nil)

lemma plain_write_append:
  "pf_offset p \<le> length (pf_data p) \<Longrightarrow> plain_write ys (plain_write xs p) = plain_write (xs @ ys) p"
  by (simp add: plain_write_def overwrite_append)

lemma length_plain_write:
  "length (pf_data (plain_write xs p)) = max (pf_offset p + length xs) (length (pf_data p))"
  by (simp add: plain_write_def length_overwrite)

lemma file_is_write_padded:
  assumes "is_counter_mode cipher (fe_ctr128 env)" "reliable env" "file_is cipher env key g f p"
    "length (pf_data p) + length xs < 2 ^ 62"
  obtains f' where "writeWithPadding env xs f = Inr (True, f')"
    "file_is cipher env key g f' (plain_write_padded (fe_padding env) xs p)"
proof -
  let ?part = "length xs mod 16"
  let ?good = "length xs - ?part"
  have good: "length (take ?good xs) mod 16 = 0"
    by (simp add: minus_mod_eq_mult_div)
  obtain f1 ys where f1: "(if ?good \<noteq> 0 then file_write env (take ?good xs) f else Inr ([], True, f)) = Inr (ys, True, f1)"
    "file_is cipher env key g f1 (plain_write (take ?good xs) p)"
  proof (cases "?good = 0")
    case True
    then show thesis
      using that [of "[]" f] assms(3) plain_write_Nil [OF file_is_bounds [OF assms(3)]] by simp
  next
    case False
    obtain f' ys where "file_write env (take ?good xs) f = Inr (ys, True, f')"
      "file_is cipher env key g f' (plain_write (take ?good xs) p)"
      by (rule file_is_write [OF assms(1-3) good]) (use assms(4) in simp)
    then show thesis
      using that [of ys f'] False by simp
  qed
  show thesis
  proof (cases "?part = 0")
    case True
    then have "plain_write_padded (fe_padding env) xs p = plain_write (take ?good xs) p"
      by (simp add: plain_write_padded_def)
    moreover have "writeWithPadding env xs f = Inr (True, f1)"
      unfolding writeWithPadding_def kBlockSize_def Let_def f1(1) bind_outcome.simps case_prod_conv
      using True by simp
    ultimately show thesis
      using that [of f1] f1(2) by simp
  next
    case False
    let ?pad = "drop ?good xs @ take (16 - ?part) (fe_padding env)"
    have "length (fe_padding env) = 16"
      using assms(2) by (simp add: reliable_def kBlockSize_def)
    then have pad: "length ?pad mod 16 = 0"
      using False by (simp add: min_def)
    obtain f2 zs where f2: "file_write env ?pad f1 = Inr (zs, True, f2)"
      "file_is cipher env key g f2 (plain_write ?pad (plain_write (take ?good xs) p))"
      by (rule file_is_write [OF assms(1,2) f1(2) pad])
        (use assms(4) file_is_bounds [OF assms(3)] in \<open>simp add: length_plain_write\<close>)
    have "plain_write_padded (fe_padding env) xs p = plain_write ?pad (plain_write (take ?good xs) p)"
      using False plain_write_append [OF file_is_bounds [OF assms(3)], of ?pad "take ?good xs"]
      by (simp add: plain_write_padded_def append_assoc [symmetric])
    moreover have "writeWithPadding env xs f = Inr (True, f2)"
      unfolding writeWithPadding_def kBlockSize_def Let_def f1(1) bind_outcome.simps case_prod_conv f2(1)
      using False by simp
    ultimately show thesis
      using that [of f2] f2(2) by simp
  qed
qed

section \<open>Any use of a file\<close>

datatype file_op = Op_read nat | Op_write bytes | Op_seek int | Op_read_padded nat
  | Op_write_padded bytes | Op_reopen

datatype file_reply = Got bytes int | Done bool | Opened file_result

definition file_run_op :: "file_env \<Rightarrow> bytes \<Rightarrow> file_op \<Rightarrow> enc_file \<Rightarrow> (file_reply \<times> enc_file) outcome" where
  "file_run_op env key cmd f =
     (case cmd of
        Op_read n \<Rightarrow> bind_outcome (file_read env n f) (\<lambda>(xs, k, f'). Inr (Got xs k, f'))
      | Op_write xs \<Rightarrow> bind_outcome (file_write env xs f) (\<lambda>(_, ok, f'). Inr (Done ok, f'))
      | Op_seek off \<Rightarrow> (let (ok, f') = file_seek env off f in Inr (Done ok, f'))
      | Op_read_padded n \<Rightarrow> bind_outcome (readWithPadding env n f) (\<lambda>(xs, k, f'). Inr (Got xs k, f'))
      | Op_write_padded xs \<Rightarrow> bind_outcome (writeWithPadding env xs f) (\<lambda>(ok, f'). Inr (Done ok, f'))
      | Op_reopen \<Rightarrow> bind_outcome (file_open env Mode_ReadAppend key (file_close f))
          (\<lambda>(result, f'). Inr (Opened result, f')))"

definition plain_run_op :: "bytes \<Rightarrow> file_op \<Rightarrow> plain_file \<Rightarrow> file_reply \<times> plain_file" where
  "plain_run_op padding cmd p =
     (case cmd of
        Op_read n \<Rightarrow> (let (xs, p') = plain_read n p in (Got xs (int (length xs)), p'))
      | Op_write xs \<Rightarrow> (Done True, plain_write xs p)
      | Op_seek off \<Rightarrow> (let (ok, p') = plain_seek off p in (Done ok, p'))
      | Op_read_padded n \<Rightarrow> (let (xs, p') = plain_read_padded n p in (Got xs (int (length xs)), p'))
      | Op_write_padded xs \<Rightarrow> (Done True, plain_write_padded padding xs p)
      | Op_reopen \<Rightarrow> (Opened Result_Success, p\<lparr> pf_offset := 0 \<rparr>))"

fun file_run :: "file_env \<Rightarrow> bytes \<Rightarrow> file_op list \<Rightarrow> enc_file \<Rightarrow> (file_reply list \<times> enc_file) outcome" where
  "file_run env key [] f = Inr ([], f)"
| "file_run env key (cmd # cmds) f =
     bind_outcome (file_run_op env key cmd f) (\<lambda>(reply, f1).
       bind_outcome (file_run env key cmds f1) (\<lambda>(replies, f2). Inr (reply # replies, f2)))"

fun plain_run :: "bytes \<Rightarrow> file_op list \<Rightarrow> plain_file \<Rightarrow> file_reply list \<times> plain_file" where
  "plain_run padding [] p = ([], p)"
| "plain_run padding (cmd # cmds) p =
     (let (reply, p1) = plain_run_op padding cmd p; (replies, p2) = plain_run padding cmds p1
      in (reply # replies, p2))"

text \<open>Whole blocks, where the class asks for them; \<open>written\<close> bounds how much the file grows.\<close>

fun op_in_blocks :: "file_op \<Rightarrow> bool" where
  "op_in_blocks (Op_read n) \<longleftrightarrow> n mod 16 = 0"
| "op_in_blocks (Op_write xs) \<longleftrightarrow> length xs mod 16 = 0"
| "op_in_blocks (Op_seek off) \<longleftrightarrow> off mod 16 = 0"
| "op_in_blocks _ \<longleftrightarrow> True"

fun written :: "file_op \<Rightarrow> nat" where
  "written (Op_write xs) = length xs"
| "written (Op_write_padded xs) = length xs + 16"
| "written _ = 0"

lemma file_run_op_plain:
  assumes "is_counter_mode cipher (fe_ctr128 env)" "reliable env" "file_is cipher env key g f p"
    "op_in_blocks cmd" "length (pf_data p) + written cmd < 2 ^ 62"
  obtains f' where "file_run_op env key cmd f = Inr (fst (plain_run_op (fe_padding env) cmd p), f')"
    "file_is cipher env key g f' (snd (plain_run_op (fe_padding env) cmd p))"
proof (cases cmd)
  case (Op_read n)
  obtain f' where "file_read env n f = Inr (fst (plain_read n p), int (length (fst (plain_read n p))), f')"
    "file_is cipher env key g f' (snd (plain_read n p))" "ef_raw f' = ef_raw f"
    by (rule file_is_read [OF assms(1-3), of n]) (use assms(4,5) Op_read in simp_all)
  then show thesis
    using that [of f'] Op_read by (simp add: file_run_op_def plain_run_op_def case_prod_beta)
next
  case (Op_write xs)
  obtain f' ys where "file_write env xs f = Inr (ys, True, f')" "file_is cipher env key g f' (plain_write xs p)"
    by (rule file_is_write [OF assms(1-3), of xs]) (use assms(4,5) Op_write in simp_all)
  then show thesis
    using that [of f'] Op_write by (simp add: file_run_op_def plain_run_op_def)
next
  case (Op_seek off)
  then show thesis
    using that file_is_seek [OF assms(2,3), of off] assms(4)
    by (simp add: file_run_op_def plain_run_op_def case_prod_beta)
next
  case (Op_read_padded n)
  obtain f' where "readWithPadding env n f =
       Inr (fst (plain_read_padded n p), int (length (fst (plain_read_padded n p))), f')"
    "file_is cipher env key g f' (snd (plain_read_padded n p))" "ef_raw f' = ef_raw f"
    by (rule file_is_read_padded [OF assms(1-3)]) (use assms(5) in simp_all)
  then show thesis
    using that [of f'] Op_read_padded by (simp add: file_run_op_def plain_run_op_def case_prod_beta)
next
  case (Op_write_padded xs)
  obtain f' where "writeWithPadding env xs f = Inr (True, f')"
    "file_is cipher env key g f' (plain_write_padded (fe_padding env) xs p)"
    by (rule file_is_write_padded [OF assms(1-3), of xs]) (use assms(5) Op_write_padded in simp_all)
  then show thesis
    using that [of f'] Op_write_padded by (simp add: file_run_op_def plain_run_op_def)
next
  case Op_reopen
  have "disk_ok cipher env key g (ef_raw (file_close f)) (pf_data p)"
    using assms(3) by (simp add: file_is_def file_close_def)
  then obtain f' where "file_open env Mode_ReadAppend key (file_close f) = Inr (Result_Success, f')"
    "file_is cipher env key g f' \<lparr> pf_data = pf_data p, pf_offset = 0 \<rparr>" "ef_raw f' = ef_raw (file_close f)"
    by (rule file_is_open_again [OF assms(1,2), where mode = Mode_ReadAppend]) simp_all
  moreover from this(2) have "file_is cipher env key g f' (p\<lparr> pf_offset := 0 \<rparr>)"
    by (cases p) simp
  ultimately show thesis
    using that [of f'] Op_reopen by (simp add: file_run_op_def plain_run_op_def)
qed

lemma plain_run_op_growth:
  assumes "pf_offset p \<le> length (pf_data p)" "length padding = 16"
  shows "length (pf_data (snd (plain_run_op padding cmd p))) \<le> length (pf_data p) + written cmd"
  using assms
  by (cases cmd) (auto simp: plain_run_op_def plain_read_def plain_seek_def plain_read_padded_def
      plain_write_padded_def length_plain_write Let_def case_prod_beta)

lemma file_run_plain:
  assumes "is_counter_mode cipher (fe_ctr128 env)" "reliable env"
  shows "file_is cipher env key g f p \<Longrightarrow> list_all op_in_blocks cmds \<Longrightarrow>
    length (pf_data p) + sum_list (map written cmds) < 2 ^ 62 \<Longrightarrow>
    \<exists>f'. file_run env key cmds f = Inr (fst (plain_run (fe_padding env) cmds p), f') \<and>
      file_is cipher env key g f' (snd (plain_run (fe_padding env) cmds p))"
proof (induction cmds arbitrary: f p)
  case (Cons cmd cmds)
  have pad: "length (fe_padding env) = 16"
    using assms(2) by (simp add: reliable_def kBlockSize_def)
  let ?r = "plain_run_op (fe_padding env) cmd p"
  obtain f1 where f1: "file_run_op env key cmd f = Inr (fst ?r, f1)" "file_is cipher env key g f1 (snd ?r)"
    by (rule file_run_op_plain [OF assms Cons.prems(1), of cmd]) (use Cons.prems(2,3) in simp_all)
  have "length (pf_data (snd ?r)) + sum_list (map written cmds) < 2 ^ 62"
    using plain_run_op_growth [OF file_is_bounds [OF Cons.prems(1)] pad, of cmd] Cons.prems(3) by simp
  then obtain f2 where "file_run env key cmds f1 = Inr (fst (plain_run (fe_padding env) cmds (snd ?r)), f2)"
    "file_is cipher env key g f2 (snd (plain_run (fe_padding env) cmds (snd ?r)))"
    using Cons.IH [OF f1(2)] Cons.prems(2) by auto
  then show ?case
    using f1(1) by (simp add: case_prod_beta Let_def)
qed simp

text \<open>C13. A file that is opened for writing and then used in any way, written and read in blocks or
  with padding, moved in, closed and opened again, gives the answers a plain file would, for
  every encryption key (256 bytes, as its constructor expects), salt and block cipher, as long as
  the disk does what it is asked.\<close>

theorem encrypted_file_is_plain_file:
  assumes "is_counter_mode cipher (fe_ctr128 env)" "reliable env" "list_all op_in_blocks cmds"
    "sum_list (map written cmds) < 2 ^ 62" "length key = key_size"
  shows "\<exists>f f'. file_open env Mode_Write key f0 = Inr (Result_Success, f) \<and>
    file_run env key cmds f =
      Inr (fst (plain_run (fe_padding env) cmds \<lparr> pf_data = [], pf_offset = 0 \<rparr>), f')"
proof -
  obtain f g where f: "file_open env Mode_Write key f0 = Inr (Result_Success, f)"
    "file_is cipher env key g f \<lparr> pf_data = [], pf_offset = 0 \<rparr>"
    by (rule file_is_open_write [OF assms(1,2,5)])
  then show ?thesis
    using file_run_plain [OF assms(1,2) f(2) assms(3)] assms(4) by auto
qed

definition sample_cipher :: "bytes \<Rightarrow> bytes \<Rightarrow> bytes" where
  "sample_cipher key iv = map (\<lambda>b. b + hd key) iv"

definition sample_file_env :: file_env where
  "sample_file_env = \<lparr> fe_ctr128 = counter_mode sample_cipher, fe_sha256 = (\<lambda>xs. replicate 32 7),
     fe_salt = replicate 64 1, fe_padding = replicate 16 2, fe_mkpath = True, fe_open = True,
     fe_lock = True, fe_read = (\<lambda>p n. int n), fe_write = (\<lambda>p n. int n), fe_seek = (\<lambda>q. True) \<rparr>"

definition no_file :: enc_file where
  "no_file = \<lparr> ef_open = False, ef_raw = [], ef_pos = 0, ef_offset = 0, ef_size = 0, ef_state = None \<rparr>"

lemma sample_file_env_ok:
  "is_counter_mode sample_cipher (fe_ctr128 sample_file_env)" "reliable sample_file_env"
  by (simp_all add: sample_file_env_def is_counter_mode_def reliable_def kSaltSize_def kBlockSize_def)

theorem encrypted_file_is_plain_file_witness:
  "\<exists>f f'. file_open sample_file_env Mode_Write (replicate 256 3) no_file = Inr (Result_Success, f) \<and>
    file_run sample_file_env (replicate 256 3) [Op_write_padded [1, 2, 3], Op_reopen, Op_read_padded 3] f =
      Inr ([Done True, Opened Result_Success, Got [1, 2, 3] 3], f')"
proof -
  have "fst (plain_run (fe_padding sample_file_env) [Op_write_padded [1, 2, 3], Op_reopen, Op_read_padded 3]
      \<lparr> pf_data = [], pf_offset = 0 \<rparr>) = [Done True, Opened Result_Success, Got [1, 2, 3] 3]"
    by code_simp
  then show ?thesis
    using encrypted_file_is_plain_file [OF sample_file_env_ok,
        of "[Op_write_padded [1, 2, 3], Op_reopen, Op_read_padded 3]" "replicate 256 3" no_file]
    by (simp add: key_size_def del: plain_run.simps file_run.simps)
qed

end
