(* ===== verification/Cache_Binlog.thy ===== *)
theory Cache_Binlog
  imports Cache_Types Encrypted_File
begin

text \<open>
  storage/cache/storage\_cache\_binlog\_reader.h and .cpp: reading the log of the cache in blocks.
  The log is a plain file; \<open>Encrypted_File\<close> shows that the encrypted one is the same. The
  templates over the kinds of records are functions of a list of kinds. A handler gets a
  record of the log and gives back whether reading goes on. The specification is the parser
  \<open>parse_log\<close>, which has the whole log at once.
\<close>

unbundle bit_operations_syntax

section \<open>Kinds of records\<close>

text \<open>
  The type byte, the size of the record or of its head, the size of a part for a record of
  several parts, and whether \<open>validateCount\<close> rejects a count of zero.
\<close>

record record_kind =
  rk_type :: byte
  rk_size :: nat
  rk_part :: "nat option"
  rk_strict :: bool

definition binlog_kinds :: "bool \<Rightarrow> record_kind list" where
  "binlog_kinds with_time =
     \<lparr> rk_type = kStoreType, rk_size = store_size with_time, rk_part = None, rk_strict = True \<rparr> #
     \<lparr> rk_type = kMultiStoreType, rk_size = 16, rk_part = Some (store_size with_time), rk_strict = True \<rparr> #
     \<lparr> rk_type = kMultiRemoveType, rk_size = 16, rk_part = Some 16, rk_strict = True \<rparr> #
     (if with_time
      then [\<lparr> rk_type = kMultiAccessType, rk_size = 16, rk_part = Some 16, rk_strict = False \<rparr>]
      else [])"

definition validateCount :: "record_kind \<Rightarrow> bytes \<Rightarrow> int" where
  "validateCount kind xs =
     (let packed = take 3 (drop 1 xs)
      in if rk_strict kind then ValidateStrictCount packed else ReadFrom packed)"

fun CheckSettings :: "record_kind list \<Rightarrow> cache_settings \<Rightarrow> bool" where
  "CheckSettings [] st \<longleftrightarrow> True"
| "CheckSettings (kind # kinds) st \<longleftrightarrow>
     (case rk_part kind of
        Some part \<Rightarrow> readBlockSize st \<ge> int (rk_size kind) + maxBundledRecords st * int part
      | None \<Rightarrow> readBlockSize st \<ge> int (rk_size kind)) \<and> CheckSettings kinds st"

fun kinds_record_size :: "record_kind list \<Rightarrow> byte \<Rightarrow> bytes \<Rightarrow> int \<Rightarrow> int" where
  "kinds_record_size [] type xs partsLimit = kRecordSizeInvalid"
| "kinds_record_size (kind # kinds) type xs partsLimit =
     (if type \<noteq> rk_type kind then kinds_record_size kinds type xs partsLimit
      else case rk_part kind of
        Some part \<Rightarrow>
          if length xs < rk_size kind then kRecordSizeUnknown
          else let cnt = validateCount kind xs
            in if 0 \<le> cnt \<and> cnt \<le> partsLimit then int (rk_size kind) + cnt * int part
               else kRecordSizeInvalid
      | None \<Rightarrow> int (rk_size kind))"

definition ReadRecordSize :: "record_kind list \<Rightarrow> cache_settings \<Rightarrow> bytes \<Rightarrow> int" where
  "ReadRecordSize kinds st xs =
     (if xs = [] then kRecordSizeUnknown else kinds_record_size kinds (hd xs) xs (maxBundledRecords st))"

datatype log_record =
    Log_store store_record
  | Log_multi_store "store_record list"
  | Log_multi_remove "cache_key list"
  | Log_multi_access time_point "cache_key list"

fun split_parts :: "nat \<Rightarrow> nat \<Rightarrow> bytes \<Rightarrow> bytes list" where
  "split_parts 0 n xs = []"
| "split_parts (Suc k) n xs = take n xs # split_parts k n (drop n xs)"

text \<open>The structure the bytes are taken for, by the kind.\<close>

definition decode_record :: "bool \<Rightarrow> record_kind \<Rightarrow> bytes \<Rightarrow> log_record" where
  "decode_record with_time kind xs =
     (let parts = (case rk_part kind of
            Some n \<Rightarrow> split_parts (nat (validateCount kind xs)) n (drop (rk_size kind) xs)
          | None \<Rightarrow> [])
      in if rk_type kind = kStoreType then Log_store (bytes_store with_time xs)
         else if rk_type kind = kMultiStoreType then Log_multi_store (map (bytes_store with_time) parts)
         else if rk_type kind = kMultiRemoveType then Log_multi_remove (map bytes_key parts)
         else Log_multi_access (bytes_time (drop 4 xs)) (map bytes_key parts))"

type_synonym 's log_handler = "log_record \<Rightarrow> 's \<Rightarrow> (bool \<times> 's) outcome"

text \<open>\<open>Unexpected\<close>, for a type that is of no kind, ends the process as an assertion does.\<close>

fun kinds_handle_record ::
    "record_kind list \<Rightarrow> bool \<Rightarrow> byte \<Rightarrow> bytes \<Rightarrow> 's log_handler \<Rightarrow> 's \<Rightarrow> (bool \<times> 's) outcome" where
  "kinds_handle_record [] with_time type xs handler s = Inl Assert_failed"
| "kinds_handle_record (kind # kinds) with_time type xs handler s =
     (if type \<noteq> rk_type kind then kinds_handle_record kinds with_time type xs handler s
      else case rk_part kind of
        Some part \<Rightarrow>
          asserts (rk_size kind \<le> length xs)
            (asserts (int (length xs) = int (rk_size kind) + validateCount kind xs * int part)
              (handler (decode_record with_time kind xs) s))
      | None \<Rightarrow> asserts (length xs = rk_size kind) (handler (decode_record with_time kind xs) s))"

definition handle_record ::
    "record_kind list \<Rightarrow> bool \<Rightarrow> bytes \<Rightarrow> 's log_handler \<Rightarrow> 's \<Rightarrow> (bool \<times> 's) outcome" where
  "handle_record kinds with_time xs handler s =
     expects (xs \<noteq> []) (kinds_handle_record kinds with_time (hd xs) xs handler s)"

section \<open>Reading in blocks\<close>

record binlog_wrapper =
  bw_till :: int
  bw_part :: bytes
  bw_finished :: bool
  bw_failed :: bool

definition BinlogWrapper :: "plain_file \<Rightarrow> int \<Rightarrow> binlog_wrapper" where
  "BinlogWrapper f till =
     \<lparr> bw_till = (if till \<noteq> 0 then till else int (length (pf_data f))), bw_part = [],
       bw_finished = False, bw_failed = False \<rparr>"

definition ReadHeader :: "cache_settings \<Rightarrow> plain_file \<Rightarrow> log_header option \<times> plain_file" where
  "ReadHeader st f =
     (if pf_offset f \<noteq> 0 then (None, f)
      else let (got, f1) = plain_read 16 f; h = bytes_header got
        in if length got \<noteq> 16 then (None, f1)
           else if hdr_format h \<noteq> kLogFormat_0 then (None, f1)
           else if trackEstimatedTime st \<noteq> (hdr_flags h AND kTrackEstimatedTime \<noteq> 0) then (None, f1)
           else (Some h, f1))"

definition wrapper_finish ::
    "int \<Rightarrow> binlog_wrapper \<Rightarrow> plain_file \<Rightarrow> (binlog_wrapper \<times> plain_file) outcome" where
  "wrapper_finish rollback w f =
     expects (0 \<le> rollback)
       (Inr (if rollback > 0 then w\<lparr> bw_failed := True \<rparr> else w,
          snd (plain_seek (int (pf_offset f) - (rollback + int (length (bw_part w)))) f)))"

definition readPart ::
    "cache_settings \<Rightarrow> binlog_wrapper \<Rightarrow> plain_file \<Rightarrow> (bool \<times> binlog_wrapper \<times> plain_file) outcome" where
  "readPart st w f =
     (if bw_finished w then Inr (False, w, f)
      else let left = bw_till w - int (pf_offset f);
               no = (\<lambda>f. bind_outcome (wrapper_finish 0 w f) (\<lambda>(w, f). Inr (False, w, f)))
        in if left = 0 then no f
           else let amount = min left (readBlockSize st - int (length (bw_part w)))
             in asserts (amount > 0) (expects (amount mod 16 = 0)
                  (let (got, f1) = plain_read (nat amount) f
                   in if got = [] then no f1
                      else Inr (True, w\<lparr> bw_part := bw_part w @ got \<rparr>, f1))))"

definition readRecord ::
    "record_kind list \<Rightarrow> cache_settings \<Rightarrow> binlog_wrapper \<Rightarrow> plain_file \<Rightarrow>
     (bytes \<times> binlog_wrapper \<times> plain_file) outcome" where
  "readRecord kinds st w f =
     (if bw_finished w then Inr ([], w, f)
      else let size = ReadRecordSize kinds st (bw_part w)
        in if size = kRecordSizeUnknown \<or> size > int (length (bw_part w)) then Inr ([], w, f)
           else if size = kRecordSizeInvalid
           then bind_outcome (wrapper_finish 0 w f) (\<lambda>(w1, f1).
             Inr ([], w1\<lparr> bw_finished := True, bw_failed := True \<rparr>, f1))
           else asserts (0 \<le> size)
             (Inr (take (nat size) (bw_part w), w\<lparr> bw_part := drop (nat size) (bw_part w) \<rparr>, f)))"

lemma readRecord_shrinks:
  "readRecord kinds st w f = Inr (xs, w1, f1) \<Longrightarrow> xs \<noteq> [] \<Longrightarrow> length (bw_part w1) < length (bw_part w)"
  by (auto simp: readRecord_def Let_def bind_outcome_Inr_iff asserts_def split: if_splits)

text \<open>The loop of \<open>readTillEnd\<close> over the records of a block.\<close>

function handle_records ::
    "record_kind list \<Rightarrow> bool \<Rightarrow> cache_settings \<Rightarrow> 's log_handler \<Rightarrow> binlog_wrapper \<Rightarrow> plain_file \<Rightarrow> 's \<Rightarrow>
     (bool \<times> binlog_wrapper \<times> plain_file \<times> 's) outcome" where
  "handle_records kinds with_time st handler w f s =
     bind_outcome (readRecord kinds st w f) (\<lambda>(xs, w1, f1).
       if xs = [] then Inr (False, w1, f1, s)
       else bind_outcome (handle_record kinds with_time xs handler s) (\<lambda>(ok, s1).
         if ok then handle_records kinds with_time st handler w1 f1 s1
         else bind_outcome (wrapper_finish (int (length xs)) w1 f1)
           (\<lambda>(w2, f2). Inr (True, w2, f2, s1))))"
  by pat_completeness auto

termination
  by (relation "measure (\<lambda>(kinds, with_time, st, handler, w, f, s). length (bw_part w))")
    (auto dest: readRecord_shrinks)

declare handle_records.simps [simp del]

definition readTillEnd ::
    "record_kind list \<Rightarrow> bool \<Rightarrow> cache_settings \<Rightarrow> 's log_handler \<Rightarrow> binlog_wrapper \<Rightarrow> plain_file \<Rightarrow> 's \<Rightarrow>
     (bool \<times> binlog_wrapper \<times> plain_file \<times> 's) outcome" where
  "readTillEnd kinds with_time st handler w f s =
     bind_outcome (readPart st w f) (\<lambda>(more, w1, f1).
       if \<not> more then Inr (True, w1, f1, s)
       else handle_records kinds with_time st handler w1 f1 s)"

text \<open>A block that does not end the reading brings the file forward, or the log is broken.\<close>

lemma readRecord_frame:
  "readRecord kinds st w f = Inr (xs, w1, f1) \<Longrightarrow>
   bw_till w1 = bw_till w \<and> (f1 = f \<or> bw_finished w1) \<and> (xs \<noteq> [] \<longrightarrow> f1 = f)"
  by (auto simp: readRecord_def Let_def bind_outcome_Inr_iff asserts_def wrapper_finish_def split: if_splits)

lemma handle_records_frame:
  "handle_records kinds with_time st handler w f s = Inr (False, w', f', s') \<Longrightarrow>
   bw_till w' = bw_till w \<and> (f' = f \<or> bw_finished w')"
proof (induction kinds with_time st handler w f s rule: handle_records.induct)
  case (1 kinds with_time st handler w f s)
  obtain xs w1 f1 where step: "readRecord kinds st w f = Inr (xs, w1, f1)"
    using "1.prems" by (auto simp: handle_records.simps [of kinds] bind_outcome_Inr_iff)
  note frame = readRecord_frame [OF step]
  show ?case
  proof (cases "xs = []")
    case True
    then show ?thesis
      using "1.prems" step frame by (simp add: handle_records.simps [of kinds])
  next
    case False
    then obtain s1 where "handle_record kinds with_time xs handler s = Inr (True, s1)"
      "handle_records kinds with_time st handler w1 f1 s1 = Inr (False, w', f', s')"
      using "1.prems" step
      by (auto simp: handle_records.simps [of kinds with_time st handler w] bind_outcome_Inr_iff split: if_splits)
    then show ?thesis
      using "1.IH" [OF step refl refl False] frame False by auto
  qed
qed

lemma readTillEnd_advances:
  assumes "readTillEnd kinds with_time st handler w f s = Inr (False, w', f', s')"
  shows "\<not> bw_finished w" "bw_till w' = bw_till w"
    "bw_finished w' \<or> (pf_offset f < pf_offset f' \<and> int (pf_offset f) < bw_till w)"
proof -
  obtain w1 f1 where part: "readPart st w f = Inr (True, w1, f1)"
    and records: "handle_records kinds with_time st handler w1 f1 s = Inr (False, w', f', s')"
    using assms by (auto simp: readTillEnd_def bind_outcome_Inr_iff split: if_splits)
  have "\<not> bw_finished w \<and> bw_till w1 = bw_till w \<and> pf_offset f < pf_offset f1 \<and> int (pf_offset f) < bw_till w"
    using part by (auto simp: readPart_def Let_def bind_outcome_Inr_iff asserts_def expects_def
        plain_read_def wrapper_finish_def split: if_splits)
  then show "\<not> bw_finished w" "bw_till w' = bw_till w"
    "bw_finished w' \<or> (pf_offset f < pf_offset f' \<and> int (pf_offset f) < bw_till w)"
    using handle_records_frame [OF records] by auto
qed

text \<open>\<open>readBinlogHelper\<close> of the database calls \<open>readTillEnd\<close> until it is done.\<close>

function readBinlogHelper ::
    "record_kind list \<Rightarrow> bool \<Rightarrow> cache_settings \<Rightarrow> 's log_handler \<Rightarrow> binlog_wrapper \<Rightarrow> plain_file \<Rightarrow> 's \<Rightarrow>
     (binlog_wrapper \<times> plain_file \<times> 's) outcome" where
  "readBinlogHelper kinds with_time st handler w f s =
     bind_outcome (readTillEnd kinds with_time st handler w f s) (\<lambda>(done, w1, f1, s1).
       if done then Inr (w1, f1, s1) else readBinlogHelper kinds with_time st handler w1 f1 s1)"
  by pat_completeness auto

termination
proof (relation "measure (\<lambda>(kinds, with_time, st, handler, w, f, s).
    if bw_finished w then 0 else Suc (nat (bw_till w - int (pf_offset f))))", goal_cases)
  case (2 kinds with_time st handler w f s x d y w1 z f1 s1)
  then show ?case
    using readTillEnd_advances [of kinds with_time st handler w f s w1 f1 s1] by auto
qed simp

declare readBinlogHelper.simps [simp del]

section \<open>The log as a whole\<close>

text \<open>
  What is left of the log, whether reading failed, and the state of the handlers: the records
  one after the other until one is cut off, is of no known kind or is refused.
\<close>

function parse_log ::
    "record_kind list \<Rightarrow> bool \<Rightarrow> cache_settings \<Rightarrow> 's log_handler \<Rightarrow> bytes \<Rightarrow> 's \<Rightarrow> (bytes \<times> bool \<times> 's) outcome" where
  "parse_log kinds with_time st handler xs s =
     (let size = ReadRecordSize kinds st xs
      in if size = kRecordSizeUnknown \<or> size > int (length xs) then Inr (xs, False, s)
         else if size \<le> 0 then Inr (xs, True, s)
         else bind_outcome (handle_record kinds with_time (take (nat size) xs) handler s) (\<lambda>(ok, s1).
           if ok then parse_log kinds with_time st handler (drop (nat size) xs) s1
           else Inr (xs, True, s1)))"
  by pat_completeness auto

termination
  by (relation "measure (\<lambda>(kinds, with_time, st, handler, xs, s). length xs)")
    (auto simp: kRecordSizeUnknown_def ReadRecordSize_def split: if_splits)

declare parse_log.simps [simp del]


section \<open>Sizes of records\<close>

definition kinds_ok :: "record_kind list \<Rightarrow> bool" where
  "kinds_ok kinds \<longleftrightarrow> list_all (\<lambda>k. rk_size k mod 16 = 0 \<and> 16 \<le> rk_size k \<and>
     (case rk_part k of None \<Rightarrow> True | Some n \<Rightarrow> n mod 16 = 0)) kinds"

lemma kinds_ok_binlog: "kinds_ok (binlog_kinds with_time)"
  by (simp add: kinds_ok_def binlog_kinds_def store_size_def)

lemma validateCount_append: "4 \<le> length xs \<Longrightarrow> validateCount kind (xs @ ys) = validateCount kind xs"
  by (simp add: validateCount_def)

lemma mod_16_sum: "a mod 16 = 0 \<Longrightarrow> b mod 16 = 0 \<Longrightarrow> (a + c * b) mod (16 :: int) = 0"
  by (metis add.right_neutral mod_add_eq mod_mult_right_eq mult_zero_right mod_0)

lemma kinds_record_size_cases:
  assumes "kinds_ok kinds" "CheckSettings kinds st" "0 \<le> maxBundledRecords st" "n = kinds_record_size kinds type xs (maxBundledRecords st)"
  shows "n = kRecordSizeUnknown \<and> int (length xs) < readBlockSize st \<or> n = kRecordSizeInvalid \<or>
    16 \<le> n \<and> n mod 16 = 0 \<and> n \<le> readBlockSize st"
  using assms
proof (induction kinds)
  case (Cons kind kinds)
  show ?case
  proof (cases "type = rk_type kind")
    case False
    then show ?thesis
      using Cons by (simp add: kinds_ok_def)
  next
    case True
    have size: "int (rk_size kind) mod 16 = 0" "16 \<le> rk_size kind"
      using Cons.prems(1) by (auto simp: kinds_ok_def zmod_int [symmetric] simp flip: of_nat_0_eq_iff)
    show ?thesis
    proof (cases "rk_part kind")
      case None
      then show ?thesis
        using True Cons.prems size by (simp add: kinds_ok_def)
    next
      case (Some part)
      have part: "int part mod 16 = 0"
        using Cons.prems(1) Some by (auto simp: kinds_ok_def zmod_int [symmetric] simp flip: of_nat_0_eq_iff)
      have block: "int (rk_size kind) + maxBundledRecords st * int part \<le> readBlockSize st"
        using Cons.prems(2) Some by simp
      have part_pos: "0 \<le> maxBundledRecords st * int part"
        using Cons.prems(3) by simp
      let ?c = "validateCount kind xs"
      consider "length xs < rk_size kind" "n = kRecordSizeUnknown"
        | "0 \<le> ?c" "?c \<le> maxBundledRecords st" "n = int (rk_size kind) + ?c * int part"
        | "n = kRecordSizeInvalid"
        using Cons.prems(4) True Some by (auto simp: Let_def split: if_splits)
      then show ?thesis
      proof cases
        case 1
        then have "int (length xs) < readBlockSize st"
          using block part_pos by linarith
        then show ?thesis
          using 1 by blast
      next
        case 2
        have "?c * int part \<le> maxBundledRecords st * int part" "0 \<le> ?c * int part"
          using 2 by (simp_all add: mult_right_mono)
        then have "16 \<le> n" "n \<le> readBlockSize st"
          using 2(3) block size(2) by linarith+
        then show ?thesis
          using 2(3) mod_16_sum [OF size(1) part, of ?c] by blast
      qed blast
    qed
  qed
qed simp

lemma record_size_cases:
  assumes "kinds_ok kinds" "CheckSettings kinds st" "0 \<le> maxBundledRecords st" "readBlockSize st > 0"
  shows "ReadRecordSize kinds st xs = kRecordSizeUnknown \<and> int (length xs) < readBlockSize st \<or>
    ReadRecordSize kinds st xs = kRecordSizeInvalid \<or>
    16 \<le> ReadRecordSize kinds st xs \<and> ReadRecordSize kinds st xs mod 16 = 0 \<and>
      ReadRecordSize kinds st xs \<le> readBlockSize st"
  using kinds_record_size_cases [OF assms(1-3) refl, of "hd xs" xs] assms(4)
  by (auto simp: ReadRecordSize_def)

lemma kinds_record_size_append:
  "kinds_ok kinds \<Longrightarrow> kinds_record_size kinds type xs limit \<noteq> kRecordSizeUnknown \<Longrightarrow>
   kinds_record_size kinds type (xs @ ys) limit = kinds_record_size kinds type xs limit"
proof (induction kinds)
  case (Cons kind kinds)
  then show ?case
    by (auto simp: kinds_ok_def validateCount_append split: option.splits if_splits)
qed simp

lemma record_size_append:
  "kinds_ok kinds \<Longrightarrow> ReadRecordSize kinds st xs \<noteq> kRecordSizeUnknown \<Longrightarrow>
   ReadRecordSize kinds st (xs @ ys) = ReadRecordSize kinds st xs"
  by (auto simp: ReadRecordSize_def kinds_record_size_append split: if_splits)

definition waiting :: "record_kind list \<Rightarrow> cache_settings \<Rightarrow> bytes \<Rightarrow> bool" where
  "waiting kinds st xs \<longleftrightarrow>
     ReadRecordSize kinds st xs = kRecordSizeUnknown \<or> ReadRecordSize kinds st xs > int (length xs)"

lemma waiting_Nil [simp]: "waiting kinds st []"
  by (simp add: waiting_def ReadRecordSize_def)

lemma waiting_small:
  assumes "kinds_ok kinds" "CheckSettings kinds st" "0 \<le> maxBundledRecords st" "readBlockSize st > 0" "waiting kinds st xs"
  shows "int (length xs) < readBlockSize st"
  using record_size_cases [OF assms(1-4), of xs] assms(5)
  by (auto simp: waiting_def kRecordSizeUnknown_def kRecordSizeInvalid_def)

section \<open>Reading in blocks reads the log as a whole\<close>

text \<open>What a reader that has come to an end in the file has found.\<close>

definition reader_result ::
    "bytes \<Rightarrow> nat \<Rightarrow> (bytes \<times> bool \<times> 's) outcome \<Rightarrow> (binlog_wrapper \<times> plain_file \<times> 's) outcome \<Rightarrow> bool" where
  "reader_result xs till parsed result \<longleftrightarrow>
     (case parsed of
        Inl e \<Rightarrow> result = Inl e
      | Inr (rest, failed, s) \<Rightarrow>
          \<exists>w. bw_failed w = failed \<and>
            result = Inr (w, \<lparr> pf_data = xs, pf_offset = till - length rest \<rparr>, s))"

text \<open>One block: the parser and the loop over the records of the block go together.\<close>

definition block_result ::
    "record_kind list \<Rightarrow> bool \<Rightarrow> cache_settings \<Rightarrow> 's log_handler \<Rightarrow> bytes \<Rightarrow> bytes \<Rightarrow> nat \<Rightarrow>
     (bytes \<times> bool \<times> 's) outcome \<Rightarrow> (bool \<times> binlog_wrapper \<times> plain_file \<times> 's) outcome \<Rightarrow> bool" where
  "block_result kinds with_time st handler xs tail off parsed result \<longleftrightarrow>
     (case result of
        Inl e \<Rightarrow> parsed = Inl e
      | Inr (done, w, f, s) \<Rightarrow>
          pf_data f = xs \<and>
          (if done \<or> bw_finished w
           then bw_failed w \<and> (\<exists>rest. parsed = Inr (rest, True, s) \<and>
             pf_offset f + length rest = off + length tail)
           else \<not> bw_failed w \<and> pf_offset f = off \<and> waiting kinds st (bw_part w) \<and> length (bw_part w) mod 16 = 0 \<and>
             length (bw_part w) \<le> off \<and>
             parsed = parse_log kinds with_time st handler (bw_part w @ tail) s))"

lemma handle_records_parses:
  assumes "kinds_ok kinds" "CheckSettings kinds st" "0 \<le> maxBundledRecords st" "readBlockSize st > 0"
  shows "\<not> bw_finished w \<Longrightarrow> \<not> bw_failed w \<Longrightarrow> length (bw_part w) mod 16 = 0 \<Longrightarrow>
    length (bw_part w) \<le> pf_offset f \<Longrightarrow> pf_offset f \<le> length (pf_data f) \<Longrightarrow>
    block_result kinds with_time st handler (pf_data f) tail (pf_offset f)
      (parse_log kinds with_time st handler (bw_part w @ tail) s)
      (handle_records kinds with_time st handler w f s)"
proof (induction "length (bw_part w)" arbitrary: w s rule: less_induct)
  case less
  let ?n = "ReadRecordSize kinds st (bw_part w)"
  note cases = record_size_cases [OF assms, of "bw_part w"]
  show ?case
  proof (cases "waiting kinds st (bw_part w)")
    case True
    then have "handle_records kinds with_time st handler w f s = Inr (False, w, f, s)"
      using less.prems(1)
      by (simp add: handle_records.simps [of kinds with_time st handler w] readRecord_def waiting_def Let_def)
    then show ?thesis
      using less.prems True by (simp add: block_result_def)
  next
    case False
    then have known: "?n \<noteq> kRecordSizeUnknown" "?n \<le> int (length (bw_part w))"
      by (simp_all add: waiting_def)
    note same = record_size_append [OF assms(1) known(1), of tail]
    show ?thesis
    proof (cases "?n = kRecordSizeInvalid")
      case True
      then have "handle_records kinds with_time st handler w f s = Inr (False, w\<lparr> bw_finished := True, bw_failed := True \<rparr>,
          f\<lparr> pf_offset := pf_offset f - length (bw_part w) \<rparr>, s)"
        using less.prems known
        by (simp add: handle_records.simps [of kinds with_time st handler w] readRecord_def Let_def
            wrapper_finish_def plain_seek_def nat_diff_distrib')
      moreover have "parse_log kinds with_time st handler (bw_part w @ tail) s = Inr (bw_part w @ tail, True, s)"
        using True same known by (simp add: parse_log.simps [of kinds] kRecordSizeInvalid_def kRecordSizeUnknown_def Let_def)
      ultimately show ?thesis
        using less.prems by (simp add: block_result_def)
    next
      case valid: False
      have n: "16 \<le> ?n" "?n mod 16 = 0"
        using cases known valid by auto
      let ?k = "nat ?n"
      have "?k mod nat 16 = nat (?n mod 16)"
        using n(1) by (intro nat_mod_distrib [symmetric]) auto
      then have "?k mod 16 = 0"
        by (simp only: n(2) nat_numeral nat_0)
      with n(1) known have k: "?k \<le> length (bw_part w)" "?k \<noteq> 0" "?k mod 16 = 0" "int ?k = ?n"
        by auto
      let ?w = "w\<lparr> bw_part := drop ?k (bw_part w) \<rparr>"
      have nonempty: "take ?k (bw_part w) \<noteq> []"
        using k by auto
      have read: "readRecord kinds st w f = Inr (take ?k (bw_part w), ?w, f)"
        using less.prems(1) known valid n by (simp add: readRecord_def Let_def)
      let ?h = "handle_record kinds with_time (take ?k (bw_part w)) handler s"
      have parse: "parse_log kinds with_time st handler (bw_part w @ tail) s = bind_outcome ?h (\<lambda>(ok, s1).
          if ok then parse_log kinds with_time st handler (drop ?k (bw_part w) @ tail) s1
          else Inr (bw_part w @ tail, True, s1))"
      proof -
        have "\<not> ?n > int (length (bw_part w @ tail))" "\<not> ?n \<le> 0"
          using known(2) n(1) by simp_all
        moreover have "take ?k (bw_part w @ tail) = take ?k (bw_part w)"
          "drop ?k (bw_part w @ tail) = drop ?k (bw_part w) @ tail"
          using k(1) by simp_all
        ultimately show ?thesis
          by (simp only: parse_log.simps [of kinds with_time st handler "bw_part w @ tail"] Let_def same
              known(1) simp_thms if_False)
      qed
      have loop: "handle_records kinds with_time st handler w f s = bind_outcome ?h (\<lambda>(ok, s1).
          if ok then handle_records kinds with_time st handler ?w f s1
          else bind_outcome (wrapper_finish (int ?k) ?w f) (\<lambda>(w2, f2). Inr (True, w2, f2, s1)))"
      proof -
        have "length (take ?k (bw_part w)) = ?k"
          using k(1) by simp
        then show ?thesis
          using nonempty by (simp only: handle_records.simps [of kinds with_time st handler w] read
              bind_outcome.simps case_prod_conv if_False)
      qed
      show ?thesis
      proof (cases ?h)
        case (Inl e)
        then show ?thesis
          by (simp add: parse loop block_result_def)
      next
        case (Inr r)
        obtain ok s1 where r: "r = (ok, s1)"
          by (cases r)
        show ?thesis
        proof (cases ok)
          case False
          have "int ?k + int (length (bw_part w) - ?k) = int (length (bw_part w))"
            using k by linarith
          then have "wrapper_finish (int ?k) ?w f =
              Inr (?w\<lparr> bw_failed := True \<rparr>, f\<lparr> pf_offset := pf_offset f - length (bw_part w) \<rparr>)"
            using less.prems k by (simp add: wrapper_finish_def plain_seek_def nat_diff_distrib')
          then show ?thesis
            using Inr r False less.prems by (simp add: parse loop block_result_def)
        next
          case True
          have "block_result kinds with_time st handler (pf_data f) tail (pf_offset f)
              (parse_log kinds with_time st handler (bw_part ?w @ tail) s1)
              (handle_records kinds with_time st handler ?w f s1)"
          proof (rule less.hyps)
            show "length (bw_part ?w) < length (bw_part w)"
              using k by simp
            show "length (bw_part ?w) mod 16 = 0"
              using k less.prems(3) by (simp add: mod_eq_dvd_iff_nat mod_0_imp_dvd dvd_diff_nat)
          qed (use less.prems in simp_all)
          then show ?thesis
            using Inr r True by (simp add: parse loop)
        qed
      qed
    qed
  qed
qed

lemma parse_log_waiting: "waiting kinds st xs \<Longrightarrow> parse_log kinds with_time st handler xs s = Inr (xs, False, s)"
  by (simp add: parse_log.simps [of kinds with_time st handler xs] waiting_def Let_def)

lemma int_mod_16: "n mod 16 = 0 \<Longrightarrow> int n mod 16 = 0"
  by presburger

lemma readPart_reads:
  assumes "\<not> bw_finished w" "bw_till w = int till" "pf_offset f < till" "till \<le> length (pf_data f)"
    "pf_offset f mod 16 = 0" "till mod 16 = 0" "length (bw_part w) mod 16 = 0"
    "readBlockSize st mod 16 = 0" "int (length (bw_part w)) < readBlockSize st"
  obtains n where "0 < n" "pf_offset f + n \<le> till" "n mod 16 = 0"
    "readPart st w f = Inr (True, w\<lparr> bw_part := bw_part w @ take n (drop (pf_offset f) (pf_data f)) \<rparr>,
       f\<lparr> pf_offset := pf_offset f + n \<rparr>)"
proof -
  let ?a = "min (int till - int (pf_offset f)) (readBlockSize st - int (length (bw_part w)))"
  have pos: "0 < ?a"
    using assms(3,9) by simp
  have "int till mod 16 = 0" "int (pf_offset f) mod 16 = 0" "int (length (bw_part w)) mod 16 = 0"
    by (rule int_mod_16, fact)+
  then have block: "?a mod 16 = 0"
    using assms(8) by (auto simp: min_def mod_eq_0_iff_dvd)
  let ?n = "nat ?a"
  have n: "0 < ?n" "pf_offset f + ?n \<le> till" "int ?n = ?a"
    using pos assms(3) by auto
  have "?n mod nat 16 = nat (?a mod 16)"
    using pos by (intro nat_mod_distrib [symmetric]) auto
  then have "?n mod 16 = 0"
    by (simp only: block nat_numeral nat_0)
  moreover have "plain_read ?n f = (take ?n (drop (pf_offset f) (pf_data f)), f\<lparr> pf_offset := pf_offset f + ?n \<rparr>)"
    using n assms(4) by (simp add: plain_read_def Let_def)
  moreover have "take ?n (drop (pf_offset f) (pf_data f)) \<noteq> []"
    using n assms(3,4) by simp
  ultimately show thesis
    using that [of ?n] n assms(1-3) pos block
    by (simp only: readPart_def Let_def if_False simp_thms asserts_True expects_True case_prod_conv) simp
qed

lemma readBinlogHelper_parses:
  assumes "kinds_ok kinds" "CheckSettings kinds st" "0 \<le> maxBundledRecords st" "readBlockSize st > 0"
    "readBlockSize st mod 16 = 0" "till \<le> length xs" "till mod 16 = 0"
  shows "\<not> bw_finished w \<Longrightarrow> \<not> bw_failed w \<Longrightarrow> bw_till w = int till \<Longrightarrow> waiting kinds st (bw_part w) \<Longrightarrow>
    length (bw_part w) mod 16 = 0 \<Longrightarrow> length (bw_part w) \<le> off \<Longrightarrow> off \<le> till \<Longrightarrow> off mod 16 = 0 \<Longrightarrow>
    reader_result xs till
      (parse_log kinds with_time st handler (bw_part w @ take (till - off) (drop off xs)) s)
      (readBinlogHelper kinds with_time st handler w \<lparr> pf_data = xs, pf_offset = off \<rparr> s)"
proof (induction "till - off" arbitrary: off w s rule: less_induct)
  case less
  let ?f = "\<lparr> pf_data = xs, pf_offset = off \<rparr>"
  show ?case
  proof (cases "off = till")
    case True
    have "readPart st w ?f = Inr (False, w, \<lparr> pf_data = xs, pf_offset = till - length (bw_part w) \<rparr>)"
      using less.prems True assms(6)
      by (simp add: readPart_def wrapper_finish_def plain_seek_def nat_diff_distrib')
    then have "readBinlogHelper kinds with_time st handler w ?f s =
        Inr (w, \<lparr> pf_data = xs, pf_offset = till - length (bw_part w) \<rparr>, s)"
      by (simp add: readBinlogHelper.simps [of kinds with_time st handler w] readTillEnd_def)
    then show ?thesis
      using less.prems(2,4) True by (simp add: parse_log_waiting reader_result_def)
  next
    case False
    obtain n where n: "0 < n" "off + n \<le> till" "n mod 16 = 0"
      and part: "readPart st w ?f = Inr (True, w\<lparr> bw_part := bw_part w @ take n (drop off xs) \<rparr>,
         \<lparr> pf_data = xs, pf_offset = off + n \<rparr>)"
      by (rule readPart_reads [of w till ?f st])
        (use less.prems False assms waiting_small [OF assms(1-4) less.prems(4)] in simp_all)
    let ?w = "w\<lparr> bw_part := bw_part w @ take n (drop off xs) \<rparr>"
    let ?f1 = "\<lparr> pf_data = xs, pf_offset = off + n \<rparr>"
    let ?tail = "take (till - (off + n)) (drop (off + n) xs)"
    have whole: "bw_part w @ take (till - off) (drop off xs) = bw_part ?w @ ?tail"
    proof -
      have "take (n + (till - (off + n))) (drop off xs) = take n (drop off xs) @ take (till - (off + n)) (drop n (drop off xs))"
        by (rule take_add)
      then show ?thesis
        using n by (simp add: add.commute)
    qed
    let ?p = "parse_log kinds with_time st handler (bw_part ?w @ ?tail) s"
    let ?r = "handle_records kinds with_time st handler ?w ?f1 s"
    have block: "block_result kinds with_time st handler xs ?tail (off + n) ?p ?r"
      using handle_records_parses [OF assms(1-4), of ?w ?f1 with_time handler ?tail s] less.prems n assms(6)
      by (simp add: add_mod_16)
    have helper: "readBinlogHelper kinds with_time st handler w ?f s = bind_outcome ?r (\<lambda>(done, w1, f1, s1).
        if done then Inr (w1, f1, s1) else readBinlogHelper kinds with_time st handler w1 f1 s1)"
      using part by (simp add: readBinlogHelper.simps [of kinds with_time st handler w] readTillEnd_def)
    show ?thesis
    proof (cases ?r)
      case (Inl e)
      then show ?thesis
        using block by (simp add: whole helper reader_result_def block_result_def)
    next
      case (Inr r)
      obtain fin w1 f1 s1 where r: "?r = Inr (fin, w1, f1, s1)"
        using Inr by (cases r) auto
      show ?thesis
      proof (cases "fin \<or> bw_finished w1")
        case True
        obtain rest where rest: "pf_data f1 = xs" "bw_failed w1" "?p = Inr (rest, True, s1)"
          "pf_offset f1 + length rest = off + n + length ?tail"
          using block r True by (auto simp: block_result_def)
        have "readBinlogHelper kinds with_time st handler w ?f s = Inr (w1, f1, s1)"
          using True by (cases fin) (simp_all add: helper r readBinlogHelper.simps [of kinds with_time st handler w1]
              readTillEnd_def readPart_def)
        moreover have "f1 = \<lparr> pf_data = xs, pf_offset = till - length rest \<rparr>"
          using rest n assms(6) by (cases f1) simp
        ultimately show ?thesis
          using rest by (simp add: whole reader_result_def)
      next
        case False
        have next_block: "pf_data f1 = xs" "\<not> bw_failed w1" "pf_offset f1 = off + n" "waiting kinds st (bw_part w1)"
          "length (bw_part w1) mod 16 = 0" "length (bw_part w1) \<le> off + n"
          "?p = parse_log kinds with_time st handler (bw_part w1 @ ?tail) s1"
          using block r False by (simp_all add: block_result_def)
        have f1: "f1 = ?f1"
          using next_block by (cases f1) simp
        have "bw_till w1 = int till"
          using handle_records_frame [of kinds with_time st handler ?w ?f1 s w1 f1 s1] r False less.prems(3) by simp
        then have "reader_result xs till (parse_log kinds with_time st handler (bw_part w1 @ ?tail) s1)
            (readBinlogHelper kinds with_time st handler w1 ?f1 s1)"
          using less.hyps [of "off + n" w1 s1] False next_block n less.prems by (simp add: add_mod_16)
        then show ?thesis
          using False unfolding whole next_block(7) helper r f1 bind_outcome.simps case_prod_conv by simp
      qed
    qed
  qed
qed

lemma reader_from_offset:
  assumes "CheckSettings (binlog_kinds with_time) st" "0 \<le> maxBundledRecords st"
    "readBlockSize st mod 16 = 0" "off \<le> length xs" "off mod 16 = 0" "length xs mod 16 = 0" "xs \<noteq> []"
  shows "reader_result xs (length xs) (parse_log (binlog_kinds with_time) with_time st handler (drop off xs) s)
    (readBinlogHelper (binlog_kinds with_time) with_time st handler
      (BinlogWrapper \<lparr> pf_data = xs, pf_offset = off \<rparr> 0) \<lparr> pf_data = xs, pf_offset = off \<rparr> s)"
proof -
  let ?w = "BinlogWrapper \<lparr> pf_data = xs, pf_offset = off \<rparr> 0"
  have "0 < readBlockSize st"
    using assms(1) by (auto simp: binlog_kinds_def store_size_def split: if_splits)
  then have "reader_result xs (length xs)
      (parse_log (binlog_kinds with_time) with_time st handler
        (bw_part ?w @ take (length xs - off) (drop off xs)) s)
      (readBinlogHelper (binlog_kinds with_time) with_time st handler ?w \<lparr> pf_data = xs, pf_offset = off \<rparr> s)"
    by (intro readBinlogHelper_parses kinds_ok_binlog assms order_refl) (simp_all add: BinlogWrapper_def assms)
  moreover have "bw_part ?w @ take (length xs - off) (drop off xs) = drop off xs"
    by (simp add: BinlogWrapper_def)
  ultimately show ?thesis
    by (simp only:)
qed

text \<open>C12. Reading the log in blocks ends, whatever bytes the log has, and comes to the same as
  parsing the log as a whole: the handlers get the same records in the same order, the reader
  fails on the same record, and the file is left at the first byte that was not used.\<close>

theorem binlog_read_in_blocks:
  assumes "CheckSettings (binlog_kinds with_time) st" "0 \<le> maxBundledRecords st"
    "readBlockSize st mod 16 = 0" "off \<le> length xs" "off mod 16 = 0" "length xs mod 16 = 0" "xs \<noteq> []"
  shows "case parse_log (binlog_kinds with_time) with_time st handler (drop off xs) s of
      Inl e \<Rightarrow> readBinlogHelper (binlog_kinds with_time) with_time st handler
          (BinlogWrapper \<lparr> pf_data = xs, pf_offset = off \<rparr> 0) \<lparr> pf_data = xs, pf_offset = off \<rparr> s = Inl e
    | Inr (rest, failed, s') \<Rightarrow>
        \<exists>w. bw_failed w = failed \<and>
          readBinlogHelper (binlog_kinds with_time) with_time st handler
            (BinlogWrapper \<lparr> pf_data = xs, pf_offset = off \<rparr> 0) \<lparr> pf_data = xs, pf_offset = off \<rparr> s =
          Inr (w, \<lparr> pf_data = xs, pf_offset = length xs - length rest \<rparr>, s')"
  using reader_from_offset [OF assms, of handler s] by (simp only: reader_result_def)


section \<open>Records that are written\<close>

text \<open>The bytes a record is written with, and the records the code writes.\<close>

definition record_bytes :: "log_record \<Rightarrow> bytes" where
  "record_bytes r =
     (case r of
        Log_store s \<Rightarrow> store_bytes s
      | Log_multi_store ss \<Rightarrow>
          multi_head kMultiStoreType (le_bytes 3 (length ss)) @ concat (map store_bytes ss)
      | Log_multi_remove ks \<Rightarrow>
          multi_head kMultiRemoveType (le_bytes 3 (length ks)) @ concat (map key_bytes ks)
      | Log_multi_access t ks \<Rightarrow>
          kMultiAccessType # le_bytes 3 (length ks) @ time_bytes t @ concat (map key_bytes ks))"

definition parts_ok :: "cache_settings \<Rightarrow> nat \<Rightarrow> bool" where
  "parts_ok st n \<longleftrightarrow> int n \<le> maxBundledRecords st \<and> int n < kBundledRecordsLimit"

definition record_ok :: "bool \<Rightarrow> cache_settings \<Rightarrow> log_record \<Rightarrow> bool" where
  "record_ok with_time st r \<longleftrightarrow>
     (case r of
        Log_store s \<Rightarrow> store_ok with_time s
      | Log_multi_store ss \<Rightarrow> ss \<noteq> [] \<and> parts_ok st (length ss) \<and> list_all (store_ok with_time) ss
      | Log_multi_remove ks \<Rightarrow> ks \<noteq> [] \<and> parts_ok st (length ks)
      | Log_multi_access t ks \<Rightarrow> with_time \<and> parts_ok st (length ks))"

lemma split_parts_concat:
  "(\<And>x. x \<in> set xs \<Longrightarrow> length (f x) = n) \<Longrightarrow> split_parts (length xs) n (concat (map f xs) @ tail) = map f xs"
  by (induction xs) simp_all

lemma length_concat_parts:
  "(\<And>x. x \<in> set xs \<Longrightarrow> length (f x) = n) \<Longrightarrow> length (concat (map f xs)) = length xs * n"
  by (induction xs) simp_all

lemma bytes_key_key_bytes' [simp]: "bytes_key (key_bytes k) = k"
  using bytes_key_key_bytes [of k "[]"] by simp

lemma bytes_store_store_bytes': "store_ok with_time r \<Longrightarrow> bytes_store with_time (store_bytes r) = r"
  using bytes_store_store_bytes [of with_time r "[]"] by simp

lemma kinds_distinct [simp]:
  "kMultiStoreType \<noteq> kStoreType" "kMultiRemoveType \<noteq> kStoreType" "kMultiRemoveType \<noteq> kMultiStoreType"
  "kMultiAccessType \<noteq> kStoreType" "kMultiAccessType \<noteq> kMultiStoreType" "kMultiAccessType \<noteq> kMultiRemoveType"
  by (simp_all add: kStoreType_def kMultiStoreType_def kMultiRemoveType_def kMultiAccessType_def)

text \<open>A record of several parts: its head has the type and the number of the parts.\<close>

lemma packed_count:
  assumes "int n < kBundledRecordsLimit"
  shows "ReadFrom (le_bytes 3 n) = int n"
  using assms by (simp add: ReadFrom_le_value le_value_le_bytes_id kBundledRecordsLimit_def del: le_bytes.simps)

lemma multi_record:
  fixes ty :: byte
  assumes "length head = 12" "parts_ok st n" "strict \<longrightarrow> n \<noteq> 0" "length body = n * part"
  defines "kind \<equiv> \<lparr> rk_type = ty, rk_size = 16, rk_part = Some part, rk_strict = strict \<rparr>"
    and "xs \<equiv> ty # le_bytes 3 n @ head @ body"
  shows "validateCount kind (xs @ tail) = int n"
    "kinds_record_size (kind # kinds) ty (xs @ tail) (maxBundledRecords st) = int (length xs)"
    "kinds_handle_record (kind # kinds) with_time ty xs handler s = handler (decode_record with_time kind xs) s"
proof -
  have "ReadFrom (le_bytes 3 n) = int n"
    using assms(2) packed_count by (simp add: parts_ok_def)
  then have cnt: "validateCount kind (xs @ tail) = int n" for tail
    using assms(3) by (simp add: validateCount_def kind_def xs_def ValidateStrictCount_def Let_def del: le_bytes.simps)
  then show "validateCount kind (xs @ tail) = int n" .
  have len: "length xs = 16 + n * part"
    using assms(1,4) by (simp add: xs_def)
  have k: "rk_type kind = ty" "rk_size kind = 16" "rk_part kind = Some part"
    by (simp_all add: kind_def)
  show "kinds_record_size (kind # kinds) ty (xs @ tail) (maxBundledRecords st) = int (length xs)"
    using assms(2) cnt [of tail] by (simp add: k len parts_ok_def)
  show "kinds_handle_record (kind # kinds) with_time ty xs handler s = handler (decode_record with_time kind xs) s"
    using cnt [of "[]"] by (simp add: k len)
qed

lemma parse_log_record:
  assumes "record_ok with_time st r" "0 \<le> maxBundledRecords st"
  shows "parse_log (binlog_kinds with_time) with_time st handler (record_bytes r @ tail) s =
    bind_outcome (handler r s) (\<lambda>(ok, s1).
      if ok then parse_log (binlog_kinds with_time) with_time st handler tail s1
      else Inr (record_bytes r @ tail, True, s1))"
proof -
  let ?kinds = "binlog_kinds with_time" and ?xs = "record_bytes r"
  have "?xs \<noteq> [] \<and> ReadRecordSize ?kinds st (?xs @ tail) = int (length ?xs) \<and>
      handle_record ?kinds with_time ?xs handler s = handler r s"
  proof (cases r)
    case (Log_store rec)
    then have "store_ok with_time rec"
      using assms(1) by (simp add: record_ok_def)
    note rec = bytes_store_store_bytes' [OF this] length_store_bytes [OF this]
    have "hd (store_bytes rec @ tail) = kStoreType" "store_bytes rec \<noteq> []" for tail
      by (simp_all add: store_bytes_def)
    then show ?thesis
      using Log_store rec by (simp add: record_bytes_def ReadRecordSize_def handle_record_def binlog_kinds_def
          decode_record_def hd_append)
  next
    case (Log_multi_store ss)
    let ?kind = "\<lparr> rk_type = kMultiStoreType, rk_size = 16, rk_part = Some (store_size with_time), rk_strict = True \<rparr>"
    let ?body = "concat (map store_bytes ss)"
    have ok: "parts_ok st (length ss)" "ss \<noteq> []" "\<And>s. s \<in> set ss \<Longrightarrow> store_ok with_time s"
      using assms(1) Log_multi_store by (simp_all add: record_ok_def list_all_iff)
    have body: "length ?body = length ss * (store_size with_time)"
      by (rule length_concat_parts) (use ok(3) in \<open>simp add: length_store_bytes\<close>)
    have xs: "?xs = kMultiStoreType # le_bytes 3 (length ss) @ replicate 12 0 @ ?body"
      using Log_multi_store by (simp add: record_bytes_def multi_head_def)
    have head: "length (replicate 12 0) = 12" "True \<longrightarrow> length ss \<noteq> 0"
      using ok by simp_all
    note multi = multi_record [of "replicate 12 0" st "length ss" "True" ?body "(store_size with_time)" kMultiStoreType,
        OF head(1) ok(1) head(2) body, folded xs]
    have "split_parts (length ss) (store_size with_time) ?body = map store_bytes ss"
      using split_parts_concat [of ss store_bytes "(store_size with_time)" "[]"] length_store_bytes ok(3) by simp
    moreover have "drop 16 ?xs = ?body"
      by (simp add: xs drop_Cons' del: le_bytes.simps)
    moreover have "map (bytes_store with_time \<circ> store_bytes) ss = ss"
      using ok(3) by (simp add: map_idI bytes_store_store_bytes')
    ultimately have "decode_record with_time ?kind ?xs = Log_multi_store ss"
      using multi(1) [where tail = "[]"] by (simp add: decode_record_def)
    then have "decode_record with_time ?kind ?xs = r"
      using Log_multi_store by simp
    moreover have "?xs \<noteq> []" "hd (?xs @ tail) = kMultiStoreType" "hd ?xs = kMultiStoreType"
      by (simp_all add: xs)
    ultimately show ?thesis
      using multi(2) [where tail = tail] multi(3) ok
      by (simp add: ReadRecordSize_def handle_record_def binlog_kinds_def)
  next
    case (Log_multi_remove ks)
    let ?kind = "\<lparr> rk_type = kMultiRemoveType, rk_size = 16, rk_part = Some 16, rk_strict = True \<rparr>"
    let ?body = "concat (map key_bytes ks)"
    have ok: "parts_ok st (length ks)" "ks \<noteq> []"
      using assms(1) Log_multi_remove by (simp_all add: record_ok_def list_all_iff)
    have body: "length ?body = length ks * 16"
      by (rule length_concat_parts) simp
    have xs: "?xs = kMultiRemoveType # le_bytes 3 (length ks) @ replicate 12 0 @ ?body"
      using Log_multi_remove by (simp add: record_bytes_def multi_head_def)
    have head: "length (replicate 12 0) = 12" "True \<longrightarrow> length ks \<noteq> 0"
      using ok by simp_all
    note multi = multi_record [of "replicate 12 0" st "length ks" "True" ?body "16" kMultiRemoveType,
        OF head(1) ok(1) head(2) body, folded xs]
    have "split_parts (length ks) 16 ?body = map key_bytes ks"
      using split_parts_concat [of ks key_bytes "16" "[]"] length_key_bytes by simp
    moreover have "drop 16 ?xs = ?body"
      by (simp_all add: xs drop_Cons' del: le_bytes.simps)
    ultimately have "decode_record with_time ?kind ?xs = Log_multi_remove ks"
      using multi(1) [where tail = "[]"] by (simp add: decode_record_def map_idI)
    then have "decode_record with_time ?kind ?xs = r"
      using Log_multi_remove by simp
    moreover have "?xs \<noteq> []" "hd (?xs @ tail) = kMultiRemoveType" "hd ?xs = kMultiRemoveType"
      by (simp_all add: xs)
    ultimately show ?thesis
      using multi(2) [where tail = tail] multi(3) ok
      by (simp add: ReadRecordSize_def handle_record_def binlog_kinds_def)
  next
    case (Log_multi_access t ks)
    let ?kind = "\<lparr> rk_type = kMultiAccessType, rk_size = 16, rk_part = Some 16, rk_strict = False \<rparr>"
    let ?body = "concat (map key_bytes ks)"
    have ok: "parts_ok st (length ks)" "with_time"
      using assms(1) Log_multi_access by (simp_all add: record_ok_def list_all_iff)
    have body: "length ?body = length ks * 16"
      by (rule length_concat_parts) simp
    have xs: "?xs = kMultiAccessType # le_bytes 3 (length ks) @ time_bytes t @ ?body"
      using Log_multi_access by (simp add: record_bytes_def multi_head_def)
    have head: "length (time_bytes t) = 12" "False \<longrightarrow> length ks \<noteq> 0"
      using ok by simp_all
    note multi = multi_record [of "time_bytes t" st "length ks" "False" ?body "16" kMultiAccessType,
        OF head(1) ok(1) head(2) body, folded xs]
    have "split_parts (length ks) 16 ?body = map key_bytes ks"
      using split_parts_concat [of ks key_bytes "16" "[]"] length_key_bytes by simp
    moreover have "drop 16 ?xs = ?body" "bytes_time (drop 4 ?xs) = t"
      by (simp_all add: xs drop_Cons' del: le_bytes.simps)
    ultimately have "decode_record with_time ?kind ?xs = Log_multi_access t ks"
      using multi(1) [where tail = "[]"] by (simp add: decode_record_def map_idI)
    then have "decode_record with_time ?kind ?xs = r"
      using Log_multi_access by simp
    moreover have "?xs \<noteq> []" "hd (?xs @ tail) = kMultiAccessType" "hd ?xs = kMultiAccessType"
      by (simp_all add: xs)
    ultimately show ?thesis
      using multi(2) [where tail = tail] multi(3) ok
      by (simp add: ReadRecordSize_def handle_record_def binlog_kinds_def)
  qed
  then have size: "ReadRecordSize ?kinds st (?xs @ tail) = int (length ?xs)" "0 < length ?xs"
    and handle: "handle_record ?kinds with_time ?xs handler s = handler r s"
    by auto
  have "int (length ?xs) \<noteq> kRecordSizeUnknown" "\<not> int (length ?xs) > int (length (?xs @ tail))"
    "\<not> int (length ?xs) \<le> 0" "take (nat (int (length ?xs))) (?xs @ tail) = ?xs"
    "drop (nat (int (length ?xs))) (?xs @ tail) = tail"
    using size(2) by (simp_all add: kRecordSizeUnknown_def)
  then show ?thesis
    by (simp only: parse_log.simps [of ?kinds with_time st handler "?xs @ tail"] Let_def size(1) handle
        simp_thms if_False)
qed

text \<open>Each record of a log goes through the handler, in order.\<close>

fun handle_all :: "'s log_handler \<Rightarrow> log_record list \<Rightarrow> 's \<Rightarrow> (bool \<times> 's) outcome" where
  "handle_all handler [] s = Inr (True, s)"
| "handle_all handler (r # rs) s = bind_outcome (handler r s) (\<lambda>(ok, s1).
     if ok then handle_all handler rs s1 else Inr (False, s1))"

lemma parse_log_records:
  assumes "0 \<le> maxBundledRecords st"
  shows "list_all (record_ok with_time st) rs \<Longrightarrow> handle_all handler rs s = Inr (True, s') \<Longrightarrow>
    parse_log (binlog_kinds with_time) with_time st handler (concat (map record_bytes rs) @ tail) s =
    parse_log (binlog_kinds with_time) with_time st handler tail s'"
proof (induction rs arbitrary: s)
  case (Cons r rs)
  then obtain s1 where "handler r s = Inr (True, s1)" "handle_all handler rs s1 = Inr (True, s')"
    by (auto simp: bind_outcome_Inr_iff split: if_splits)
  then show ?case
    using Cons parse_log_record [of with_time st r handler "concat (map record_bytes rs) @ tail" s] assms by simp
qed simp

lemma parse_log_Nil: "parse_log kinds with_time st handler [] s = Inr ([], False, s)"
  by (simp add: parse_log_waiting)

lemma length_record_bytes: "record_ok with_time st r \<Longrightarrow> length (record_bytes r) mod 16 = 0"
proof (cases r)
  case (Log_multi_store ss)
  assume "record_ok with_time st r"
  then have "\<And>s. s \<in> set ss \<Longrightarrow> length (store_bytes s) = store_size with_time"
    using Log_multi_store by (simp add: record_ok_def list_all_iff length_store_bytes)
  then have "length (concat (map store_bytes ss)) = length ss * store_size with_time"
    by (rule length_concat_parts)
  then show ?thesis
    using Log_multi_store by (simp add: record_bytes_def multi_head_def store_size_def del: length_concat)
qed (auto simp: record_ok_def record_bytes_def multi_head_def length_store_bytes store_size_def
    length_concat_parts [OF length_key_bytes] simp del: length_concat)


section \<open>Witnesses\<close>

definition small_blocks :: cache_settings where
  "small_blocks = default_settings\<lparr> maxBundledRecords := 1, readBlockSize := 48 \<rparr>"

text \<open>A record and sixteen bytes that are none: the reader fails there and stays before them.\<close>

theorem binlog_read_in_blocks_witness:
  "\<exists>w. bw_failed w \<and>
    readBinlogHelper (binlog_kinds False) False small_blocks (\<lambda>r rs. Inr (True, r # rs))
      (BinlogWrapper \<lparr> pf_data = store_bytes (new_store None) @ replicate 16 9, pf_offset = 0 \<rparr> 0)
      \<lparr> pf_data = store_bytes (new_store None) @ replicate 16 9, pf_offset = 0 \<rparr> [] =
    Inr (w, \<lparr> pf_data = store_bytes (new_store None) @ replicate 16 9, pf_offset = 32 \<rparr>,
      [Log_store (new_store None)])"
proof -
  have ok: "record_ok False small_blocks (Log_store (new_store None))"
    by (simp add: record_ok_def store_ok_def new_store_def)
  have len: "length (store_bytes (new_store None)) = 32"
    by (simp add: store_bytes_def new_store_def)
  have "parse_log (binlog_kinds False) False small_blocks (\<lambda>r rs. Inr (True, r # rs))
      (store_bytes (new_store None) @ replicate 16 9) [] =
    parse_log (binlog_kinds False) False small_blocks (\<lambda>r rs. Inr (True, r # rs))
      (replicate 16 9) [Log_store (new_store None)]"
    using parse_log_record [OF ok, of "\<lambda>r rs. Inr (True, r # rs)" "replicate 16 9" "[]"]
    by (simp add: record_bytes_def small_blocks_def default_settings_def)
  also have "\<dots> = Inr (replicate 16 9, True, [Log_store (new_store None)])"
    by (subst parse_log.simps) (simp add: ReadRecordSize_def binlog_kinds_def kStoreType_def
        kMultiStoreType_def kMultiRemoveType_def kRecordSizeInvalid_def kRecordSizeUnknown_def Let_def)
  finally show ?thesis
    using binlog_read_in_blocks [of False small_blocks 0 "store_bytes (new_store None) @ replicate 16 9"
        "\<lambda>r rs. Inr (True, r # rs)" "[]"] len
    by (simp add: binlog_kinds_def small_blocks_def default_settings_def store_size_def)
qed

end
