(* ===== verification/Cache_Database.thy ===== *)
theory Cache_Database
  imports Cache_Binlog Flat_Set Flat_Map "HOL-Library.AList"
begin

text \<open>
  storage/cache/storage\_cache\_database\_object.cpp: the cache of downloaded files. The state has
  the fields of \<open>DatabaseObject\<close> and the files of the cache, by path, with their contents as
  \<open>Encrypted_File\<close> gives them. What an operation meets outside the program comes with an
  environment: the clocks, the outcome of every access to the disk, random places, the order
  in which the hash map of the entries is run through. Callbacks get the result an operation
  returns; what is fired or queued is added to a log of events.
\<close>

unbundle bit_operations_syntax

section \<open>The state\<close>

record cache_entry =
  en_use_time :: "64 word"
  en_size :: int
  en_checksum :: "32 word"
  en_place :: bytes
  en_tag :: byte

definition empty_entry :: cache_entry where
  "empty_entry = \<lparr> en_use_time = 0, en_size = 0, en_checksum = 0, en_place = replicate 7 0, en_tag = 0 \<rparr>"

type_synonym cache_map = "(cache_key \<times> cache_entry) list"

record compactor_wrap =
  cw_object :: bool
  cw_excess :: int
  cw_next :: int
  cw_delay :: int

definition no_compactor :: compactor_wrap where
  "no_compactor = \<lparr> cw_object = False, cw_excess = 0, cw_next = 0, cw_delay = 10 * 1000 \<rparr>"

record compactor_info =
  ci_till :: int
  ci_system_time :: "32 word"
  ci_keys_count :: int

datatype cache_event =
    Push_stats_later
  | Fire_stats cache_stats
  | Clear_chunk_later
  | Cleaner_started
  | Compactor_started compactor_info

record cache_db =
  db_base :: string
  db_path :: string
  db_settings :: cache_settings
  db_key :: bytes
  db_disk :: "string \<Rightarrow> bytes option"
  db_binlog :: "(string \<times> nat) option"
  db_map :: cache_map
  db_removing :: "cache_key list"
  db_accessed :: "cache_key list"
  db_stale :: "cache_key list"
  db_time :: time_point
  db_excess :: int
  db_total_size :: int
  db_minimal_time :: "64 word"
  db_minimal_count :: int
  db_tagged :: "byte \<Rightarrow> tagged_summary option"
  db_has_consumers :: bool
  db_pushing_stats :: bool
  db_clearing_stale :: bool
  db_bundles_timer :: "int option"
  db_prune_timer :: "int option"
  db_cleaner :: bool
  db_compactor :: compactor_wrap
  db_events :: "cache_event list"

record cache_env =
  ce_unixtime :: int
  ce_now :: int
  ce_number :: "int \<Rightarrow> string"
  ce_open :: "string \<Rightarrow> file_mode \<Rightarrow> file_result"
  ce_write_log :: "bytes \<Rightarrow> bool"
  ce_written_log :: "bytes \<Rightarrow> nat"
  ce_write_file :: "string \<Rightarrow> bool"
  ce_remove_file :: "string \<Rightarrow> bool"
  ce_move_file :: "string \<Rightarrow> string \<Rightarrow> bool"
  ce_write_version :: bool
  ce_versions :: "int list"
  ce_checksum :: "bytes \<Rightarrow> 32 word"
  ce_padding :: bytes
  ce_places :: "bytes list"
  ce_order :: "cache_map \<Rightarrow> cache_map"

definition ioError :: "string \<Rightarrow> cache_error" where
  "ioError path = \<lparr> err_type = Error_IO, err_path = path \<rparr>"

definition GetUnixtime :: "cache_env \<Rightarrow> int" where
  "GetUnixtime env = max (ce_unixtime env) 1"

section \<open>Paths\<close>

definition hex_digit :: "byte \<Rightarrow> char" where
  "hex_digit digit =
     (if digit < 0x0A then char_of (48 + unat digit) else char_of (65 + (unat digit - 0x0A)))"

definition push_hex :: "byte \<Rightarrow> string" where
  "push_hex value = [hex_digit (value AND 0x0F), hex_digit (drop_bit 4 value)]"

text \<open>The slash comes after the first byte.\<close>

definition PlaceFromId :: "bytes \<Rightarrow> string" where
  "PlaceFromId place =
     concat (map (\<lambda>i. push_hex (place ! i) @ (if i = 0 then ''/'' else '''')) [0..<length place])"

definition BinlogFilename :: string where "BinlogFilename = ''binlog''"
definition CompactReadyFilename :: string where "CompactReadyFilename = ''binlog-ready''"

definition computePath :: "cache_env \<Rightarrow> int \<Rightarrow> cache_db \<Rightarrow> string" where
  "computePath env version db = db_base db @ ce_number env version @ ''/''"

definition binlogPathOf :: "cache_env \<Rightarrow> int \<Rightarrow> cache_db \<Rightarrow> string" where
  "binlogPathOf env version db = computePath env version db @ BinlogFilename"

definition binlogPath :: "cache_db \<Rightarrow> string" where
  "binlogPath db = db_path db @ BinlogFilename"

definition compactReadyPathOf :: "cache_env \<Rightarrow> int \<Rightarrow> cache_db \<Rightarrow> string" where
  "compactReadyPathOf env version db = computePath env version db @ CompactReadyFilename"

definition compactReadyPath :: "cache_db \<Rightarrow> string" where
  "compactReadyPath db = db_path db @ CompactReadyFilename"

definition versionPath :: "cache_db \<Rightarrow> string" where
  "versionPath db = db_base db @ ''version''"

definition placePath :: "bytes \<Rightarrow> cache_db \<Rightarrow> string" where
  "placePath place db = db_path db @ PlaceFromId place"

definition isFreePlace :: "bytes \<Rightarrow> cache_db \<Rightarrow> bool" where
  "isFreePlace place db \<longleftrightarrow> db_disk db (placePath place db) = None"

section \<open>The log as an open file\<close>

definition binlog_is_open :: "cache_db \<Rightarrow> bool" where
  "binlog_is_open db \<longleftrightarrow> db_binlog db \<noteq> None"

definition binlog_content :: "cache_db \<Rightarrow> bytes" where
  "binlog_content db =
     (case db_binlog db of
        None \<Rightarrow> []
      | Some (path, off) \<Rightarrow> (case db_disk db path of None \<Rightarrow> [] | Some xs \<Rightarrow> xs))"

definition binlog_size :: "cache_db \<Rightarrow> int" where
  "binlog_size db = int (length (binlog_content db))"

text \<open>
  A write that fails may have put a first part of the bytes into the file; the position is taken
  back over them. The caller then closes the log.
\<close>

definition binlog_write :: "cache_env \<Rightarrow> bytes \<Rightarrow> cache_db \<Rightarrow> bool \<times> cache_db" where
  "binlog_write env xs db =
     (case db_binlog db of
        None \<Rightarrow> (False, db)
      | Some (path, off) \<Rightarrow>
          let p = plain_write (if ce_write_log env xs then xs else take (ce_written_log env xs) xs)
                    \<lparr> pf_data = binlog_content db, pf_offset = off \<rparr>;
              db1 = db\<lparr> db_disk := (db_disk db)(path \<mapsto> pf_data p) \<rparr>
          in if ce_write_log env xs then (True, db1\<lparr> db_binlog := Some (path, pf_offset p) \<rparr>)
             else (False, db1))"

definition binlog_close :: "cache_db \<Rightarrow> cache_db" where
  "binlog_close db = db\<lparr> db_binlog := None \<rparr>"

section \<open>Time\<close>

definition seconds_since :: "cache_env \<Rightarrow> cache_db \<Rightarrow> 64 word" where
  "seconds_since env db = word_of_int (max (GetUnixtime env - uint (tp_system (db_time db))) 0)"

definition countRelativeTime :: "cache_env \<Rightarrow> cache_db \<Rightarrow> 64 word" where
  "countRelativeTime env db = getRelative (db_time db) + seconds_since env db"

definition pruneBeforeTime :: "cache_env \<Rightarrow> cache_db \<Rightarrow> 64 word" where
  "pruneBeforeTime env db =
     (let relative = countRelativeTime env db; limit = totalTimeLimit (db_settings db)
      in if limit \<noteq> 0 \<and> relative > word_of_int limit then relative - word_of_int limit else 0)"

definition countTimePoint :: "cache_env \<Rightarrow> cache_db \<Rightarrow> time_point" where
  "countTimePoint env db =
     setRelative (getRelative (db_time db) + seconds_since env db)
       (zero_time\<lparr> tp_system := word_of_int (GetUnixtime env) \<rparr>)"

definition applyTimePoint :: "time_point \<Rightarrow> cache_db \<Rightarrow> cache_db" where
  "applyTimePoint t db =
     (if getRelative t > getRelative (db_time db) then db\<lparr> db_time := t \<rparr> else db)"

section \<open>Statistics\<close>

definition collectStats :: "cache_db \<Rightarrow> cache_stats" where
  "collectStats db =
     \<lparr> stats_full = \<lparr> sum_count = int (length (db_map db)), sum_size = db_total_size db \<rparr>,
       stats_tagged = db_tagged db,
       stats_clearing = (db_cleaner db \<or> db_stale db \<noteq> []) \<rparr>"

definition pushStats :: "cache_db \<Rightarrow> cache_db" where
  "pushStats db =
     (if db_has_consumers db then db\<lparr> db_events := db_events db @ [Fire_stats (collectStats db)] \<rparr> else db)"

definition pushStatsDelayed :: "cache_db \<Rightarrow> cache_db" where
  "pushStatsDelayed db =
     (if db_pushing_stats db then db
      else db\<lparr> db_pushing_stats := True, db_events := db_events db @ [Push_stats_later] \<rparr>)"

text \<open>The task \<open>pushStatsDelayed\<close> has queued.\<close>

definition push_stats_task :: "cache_db \<Rightarrow> cache_db" where
  "push_stats_task db =
     (if db_pushing_stats db then pushStats (db\<lparr> db_pushing_stats := False \<rparr>) else db)"

definition tagged_summary_of :: "byte \<Rightarrow> (byte \<Rightarrow> tagged_summary option) \<Rightarrow> tagged_summary" where
  "tagged_summary_of tag m = (case m tag of None \<Rightarrow> \<lparr> sum_count = 0, sum_size = 0 \<rparr> | Some s \<Rightarrow> s)"

definition add_summary ::
    "byte \<Rightarrow> int \<Rightarrow> int \<Rightarrow> (byte \<Rightarrow> tagged_summary option) \<Rightarrow> byte \<Rightarrow> tagged_summary option" where
  "add_summary tag cnt amount m =
     (let s = tagged_summary_of tag m
      in m(tag \<mapsto> \<lparr> sum_count = sum_count s + cnt, sum_size = sum_size s + amount \<rparr>))"

definition has_size :: "cache_entry \<Rightarrow> int" where
  "has_size e = (if en_size e \<noteq> 0 then 1 else 0)"

definition updateStats :: "cache_entry \<Rightarrow> cache_entry \<Rightarrow> cache_db \<Rightarrow> cache_db" where
  "updateStats was cur db =
     (let tagged =
        (if en_tag cur = en_tag was
         then if en_tag cur \<noteq> 0
              then add_summary (en_tag cur) (has_size cur - has_size was) (en_size cur - en_size was) (db_tagged db)
              else db_tagged db
         else let tagged1 = (if en_tag cur \<noteq> 0
                    then add_summary (en_tag cur) (has_size cur) (en_size cur) (db_tagged db)
                    else db_tagged db)
              in if en_tag was \<noteq> 0
                 then add_summary (en_tag was) (- has_size was) (- en_size was) tagged1
                 else tagged1)
      in pushStatsDelayed (db\<lparr> db_total_size := db_total_size db + (en_size cur - en_size was),
           db_tagged := tagged \<rparr>))"

section \<open>Entries\<close>

definition map_entry :: "cache_key \<Rightarrow> cache_db \<Rightarrow> cache_entry option" where
  "map_entry key db = map_of (db_map db) key"

text \<open>\<open>_map[key]\<close> makes a default entry where there is none.\<close>

definition setMapEntry :: "cache_key \<Rightarrow> cache_entry \<Rightarrow> cache_db \<Rightarrow> cache_db outcome" where
  "setMapEntry key entry db =
     (let already = (case map_entry key db of None \<Rightarrow> empty_entry | Some e \<Rightarrow> e);
          db1 = updateStats already entry db;
          db2 = (if en_size already \<noteq> 0
            then db1\<lparr> db_excess := db_excess db1 + int (store_size (trackEstimatedTime (db_settings db1))) \<rparr>
            else db1);
          store = (\<lambda>db. Inr (db\<lparr> db_map := AList.update key entry (db_map db) \<rparr>));
          minimal = db_minimal_time db2; cnt = db_minimal_count db2
      in if en_use_time entry \<noteq> 0 \<and> (en_use_time entry < minimal \<or> minimal = 0)
         then store (db2\<lparr> db_minimal_time := en_use_time entry, db_minimal_count := 1 \<rparr>)
         else if minimal \<noteq> 0 \<and> en_use_time already \<noteq> en_use_time entry
         then if en_use_time entry = minimal
              then asserts (cnt > 0) (store (db2\<lparr> db_minimal_count := cnt + 1 \<rparr>))
              else if en_use_time already = minimal
              then asserts (cnt > 0) (store (db2\<lparr> db_minimal_count := cnt - 1,
                     db_minimal_time := (if cnt - 1 = 0 then 0 else minimal) \<rparr>))
              else store db2
         else store db2)"

definition eraseMapEntry :: "cache_key \<Rightarrow> cache_db \<Rightarrow> cache_db outcome" where
  "eraseMapEntry key db =
     (case map_entry key db of
        None \<Rightarrow> Inr db
      | Some entry \<Rightarrow>
          let db1 = updateStats entry empty_entry db;
              erase = (\<lambda>db. Inr (db\<lparr> db_map := AList.delete key (db_map db) \<rparr>));
              minimal = db_minimal_time db1; cnt = db_minimal_count db1
          in if minimal \<noteq> 0 \<and> en_use_time entry = minimal
             then asserts (cnt > 0) (erase (db1\<lparr> db_minimal_count := cnt - 1,
                    db_minimal_time := (if cnt - 1 = 0 then 0 else minimal) \<rparr>))
             else erase db1)"

definition set_use_time :: "64 word \<Rightarrow> cache_key \<Rightarrow> cache_db \<Rightarrow> cache_db" where
  "set_use_time relative key db =
     (case map_entry key db of
        None \<Rightarrow> db
      | Some e \<Rightarrow> db\<lparr> db_map := AList.update key (e\<lparr> en_use_time := relative \<rparr>) (db_map db) \<rparr>)"

section \<open>Records that are read or applied\<close>

text \<open>
  \<open>processRecordStore\<close> for both kinds of records: a time, where the record has one, is applied
  and becomes the time of the entry.
\<close>

definition processRecordStore :: "store_record \<Rightarrow> cache_db \<Rightarrow> (bool \<times> cache_db) outcome" where
  "processRecordStore r db =
     (let n = getSize r
      in if n \<le> 0 \<or> n > maxDataSize (db_settings db) then Inr (False, db)
         else let entry = \<lparr> en_use_time = getRelative (db_time db), en_size = n,
                     en_checksum = sr_checksum r, en_place = sr_place r, en_tag = sr_tag r \<rparr>;
                  (entry1, db1) = (case sr_time r of
                     None \<Rightarrow> (entry, db)
                   | Some t \<Rightarrow> (entry\<lparr> en_use_time := getRelative t \<rparr>, applyTimePoint t db))
              in bind_outcome (setMapEntry (sr_key r) entry1 db1) (\<lambda>db2. Inr (True, db2)))"

fun processRecordMultiStore :: "store_record list \<Rightarrow> cache_db \<Rightarrow> (bool \<times> cache_db) outcome" where
  "processRecordMultiStore [] db = Inr (True, db)"
| "processRecordMultiStore (r # rs) db =
     bind_outcome (processRecordStore r db) (\<lambda>(ok, db1).
       if ok then processRecordMultiStore rs db1 else Inr (False, db1))"

fun remove_keys :: "cache_key list \<Rightarrow> cache_db \<Rightarrow> cache_db outcome" where
  "remove_keys [] db = Inr db"
| "remove_keys (key # keys) db =
     bind_outcome (eraseMapEntry key (db\<lparr> db_excess := db_excess db + 16 \<rparr>)) (remove_keys keys)"

definition processRecordMultiRemove :: "cache_key list \<Rightarrow> cache_db \<Rightarrow> (bool \<times> cache_db) outcome" where
  "processRecordMultiRemove keys db =
     bind_outcome (remove_keys keys (db\<lparr> db_excess := db_excess db + 16 \<rparr>)) (\<lambda>db1. Inr (True, db1))"

fun access_keys :: "64 word \<Rightarrow> cache_key list \<Rightarrow> cache_db \<Rightarrow> cache_db" where
  "access_keys relative [] db = db"
| "access_keys relative (key # keys) db =
     access_keys relative keys (set_use_time relative key (db\<lparr> db_excess := db_excess db + 16 \<rparr>))"

definition processRecordMultiAccess ::
    "time_point \<Rightarrow> cache_key list \<Rightarrow> cache_db \<Rightarrow> (bool \<times> cache_db) outcome" where
  "processRecordMultiAccess time keys db =
     expects (trackEstimatedTime (db_settings db))
       (let db1 = applyTimePoint time db
        in Inr (True, access_keys (getRelative time) keys (db1\<lparr> db_excess := db_excess db1 + 16 \<rparr>)))"

definition process_record :: "log_record \<Rightarrow> cache_db \<Rightarrow> (bool \<times> cache_db) outcome" where
  "process_record r db =
     (case r of
        Log_store s \<Rightarrow> processRecordStore s db
      | Log_multi_store ss \<Rightarrow> processRecordMultiStore ss db
      | Log_multi_remove keys \<Rightarrow> processRecordMultiRemove keys db
      | Log_multi_access time keys \<Rightarrow> processRecordMultiAccess time keys db)"

section \<open>Writing bundles\<close>

text \<open>\<open>callOnce\<close> of a timer: when it is due.\<close>

definition writeBundlesLazy :: "cache_env \<Rightarrow> cache_db \<Rightarrow> cache_db" where
  "writeBundlesLazy env db =
     (if db_bundles_timer db = None
      then db\<lparr> db_bundles_timer := Some (ce_now env + writeBundleDelay (db_settings db)) \<rparr> else db)"

definition writeMultiRemove :: "cache_env \<Rightarrow> cache_db \<Rightarrow> (cache_error \<times> cache_db) outcome" where
  "writeMultiRemove env db =
     expects (int (length (db_removing db)) \<le> maxBundledRecords (db_settings db))
       (if db_removing db = [] then Inr (NoError, db)
        else let keys = db_removing db
          in bind_outcome (MultiRemoveHead (int (length keys))) (\<lambda>header.
               let db1 = db\<lparr> db_removing := [] \<rparr>;
                   (ok1, db2) = binlog_write env header db1;
                   (ok2, db3) = (if ok1 then binlog_write env (concat (map key_bytes keys)) db2 else (False, db2))
               in Inr (if ok1 \<and> ok2
                    then (NoError, db3\<lparr> db_excess := db_excess db3 + 16 + 16 * int (length keys) \<rparr>)
                    else (ioError (binlogPath db3), binlog_close db3))))"

definition writeMultiRemoveLazy :: "cache_env \<Rightarrow> cache_db \<Rightarrow> cache_db outcome" where
  "writeMultiRemoveLazy env db =
     (if int (length (db_removing db)) = maxBundledRecords (db_settings db)
      then bind_outcome (writeMultiRemove env db) (\<lambda>(_, db1). Inr db1)
      else Inr (writeBundlesLazy env db))"

definition writeMultiAccessBlock :: "cache_env \<Rightarrow> cache_db \<Rightarrow> (cache_error \<times> cache_db) outcome" where
  "writeMultiAccessBlock env db =
     expects (trackEstimatedTime (db_settings db))
       (expects (int (length (db_accessed db)) \<le> maxBundledRecords (db_settings db))
         (let time = countTimePoint env db; keys = db_accessed db
          in bind_outcome (MultiAccessHead time (int (length keys))) (\<lambda>header.
               let db1 = fold (set_use_time (getRelative time)) keys (db\<lparr> db_accessed := [], db_time := time \<rparr>);
                   (ok1, db2) = binlog_write env header db1;
                   (ok2, db3) = (if ok1 \<and> keys \<noteq> [] then binlog_write env (concat (map key_bytes keys)) db2
                     else (ok1, db2))
               in Inr (if ok1 \<and> ok2
                    then (NoError, db3\<lparr> db_excess := db_excess db3 + 16 + 16 * int (length keys) \<rparr>)
                    else (ioError (binlogPath db3), binlog_close db3)))))"

definition writeMultiAccess :: "cache_env \<Rightarrow> cache_db \<Rightarrow> (cache_error \<times> cache_db) outcome" where
  "writeMultiAccess env db =
     (if db_accessed db = [] then Inr (NoError, db) else writeMultiAccessBlock env db)"

definition writeMultiAccessLazy :: "cache_env \<Rightarrow> cache_db \<Rightarrow> cache_db outcome" where
  "writeMultiAccessLazy env db =
     (if int (length (db_accessed db)) = maxBundledRecords (db_settings db)
      then bind_outcome (writeMultiAccess env db) (\<lambda>(_, db1). Inr db1)
      else Inr (writeBundlesLazy env db))"

definition writeBundles :: "cache_env \<Rightarrow> cache_db \<Rightarrow> cache_db outcome" where
  "writeBundles env db =
     bind_outcome (writeMultiRemove env db) (\<lambda>(_, db1).
       if trackEstimatedTime (db_settings db1)
       then bind_outcome (writeMultiAccess env db1) (\<lambda>(_, db2). Inr db2)
       else Inr db1)"

section \<open>Compacting and pruning are started\<close>

definition checkCompactor :: "cache_env \<Rightarrow> cache_db \<Rightarrow> cache_db" where
  "checkCompactor env db =
     (let st = db_settings db; cw = db_compactor db
      in if cw_object cw \<or> compactAfterExcess st = 0 \<or> db_excess db < compactAfterExcess st then db
         else if compactAfterFullSize st \<noteq> 0 \<and>
           db_excess db * compactAfterFullSize st < compactAfterExcess st * binlog_size db then db
         else if ce_now env < cw_next cw \<or> \<not> binlog_is_open db then db
         else db\<lparr> db_compactor := cw\<lparr> cw_object := True, cw_excess := db_excess db \<rparr>,
                db_events := db_events db @ [Compactor_started
                  \<lparr> ci_till = binlog_size db, ci_system_time = tp_system (db_time db),
                    ci_keys_count = int (length (db_map db)) \<rparr>] \<rparr>)"

definition writeBundles_timer :: "cache_env \<Rightarrow> cache_db \<Rightarrow> cache_db outcome" where
  "writeBundles_timer env db =
     bind_outcome (writeBundles env (db\<lparr> db_bundles_timer := None \<rparr>)) (\<lambda>db1. Inr (checkCompactor env db1))"

definition remaining :: "cache_env \<Rightarrow> int \<Rightarrow> int" where
  "remaining env due = max (due - ce_now env) 0"

text \<open>
  The product is one of 64 bits; above \<open>2 ^ 53\<close> seconds, which no clock of the cache reaches, it
  overflows, which is shown as wrapping around.
\<close>

definition milliseconds :: "int \<Rightarrow> int" where
  "milliseconds seconds = sint (word_of_int (seconds * 1000) :: 64 word)"

definition startDelayedPruning :: "cache_env \<Rightarrow> cache_db \<Rightarrow> (bool \<times> cache_db) outcome" where
  "startDelayedPruning env db =
     (let st = db_settings db
      in if \<not> trackEstimatedTime st \<or> db_map db = [] then Inr (False, db)
         else let before_time = pruneBeforeTime env db;
                  pruning = (totalSizeLimit st > 0 \<and> db_total_size db > totalSizeLimit st) \<or>
                    db_minimal_time db = 0 \<or> db_minimal_time db \<le> before_time
           in if pruning
              then Inr (True, if (case db_prune_timer db of None \<Rightarrow> True | Some due \<Rightarrow> remaining env due > pruneTimeout st)
                     then db\<lparr> db_prune_timer := Some (ce_now env + pruneTimeout st) \<rparr> else db)
              else if db_minimal_time db \<noteq> 0
              then asserts (db_minimal_time db > before_time)
                (let seconds = sint (db_minimal_time db - before_time)
                 in Inr (False, if db_prune_timer db = None
                      then db\<lparr> db_prune_timer := Some (ce_now env + min (milliseconds seconds) (maxPruneCheckTimeout st)) \<rparr>
                      else db))
              else Inr (False, db))"

definition optimize :: "cache_env \<Rightarrow> cache_db \<Rightarrow> cache_db outcome" where
  "optimize env db =
     bind_outcome (startDelayedPruning env db) (\<lambda>(started, db1).
       Inr (if started then db1 else checkCompactor env db1))"

section \<open>Getting and removing\<close>

text \<open>
  A data file is read through the padded interface of the file. Reading takes no lock, so
  \<open>LockFailed\<close> is \<open>Unexpected\<close>.
\<close>

definition readValueData :: "cache_env \<Rightarrow> bytes \<Rightarrow> int \<Rightarrow> cache_db \<Rightarrow> bytes outcome" where
  "readValueData env place n db =
     (let path = placePath place db
      in case db_disk db path of
           None \<Rightarrow> Inr []
         | Some content \<Rightarrow>
             (case ce_open env path Mode_Read of
                Result_Failed \<Rightarrow> Inr []
              | Result_WrongKey \<Rightarrow> Inr []
              | Result_LockFailed \<Rightarrow> Inl Assert_failed
              | Result_Success \<Rightarrow>
                  let got = fst (plain_read_padded (nat n) \<lparr> pf_data = content, pf_offset = 0 \<rparr>)
                  in Inr (if int (length got) \<noteq> n then [] else got)))"

definition recordEntryAccess :: "cache_env \<Rightarrow> cache_key \<Rightarrow> cache_db \<Rightarrow> cache_db outcome" where
  "recordEntryAccess env key db =
     (if \<not> trackEstimatedTime (db_settings db) then Inr db
      else bind_outcome (writeMultiAccessLazy env (db\<lparr> db_accessed := List.insort_insert key (db_accessed db) \<rparr>))
             (optimize env))"

definition remove_file :: "cache_env \<Rightarrow> string \<Rightarrow> cache_db \<Rightarrow> bool \<times> cache_db" where
  "remove_file env path db =
     (if db_disk db path = None then (True, db)
      else if ce_remove_file env path then (True, db\<lparr> db_disk := (db_disk db)(path := None) \<rparr>)
      else (False, db))"

definition db_remove :: "cache_env \<Rightarrow> cache_key \<Rightarrow> cache_db \<Rightarrow> (cache_error \<times> cache_db) outcome" where
  "db_remove env key db =
     (case map_entry key db of
        None \<Rightarrow> Inr (NoError, db)
      | Some entry \<Rightarrow>
          bind_outcome (writeMultiRemoveLazy env (db\<lparr> db_removing := List.insort_insert key (db_removing db) \<rparr>))
            (\<lambda>db1. let path = placePath (en_place entry) db1
              in bind_outcome (eraseMapEntry key db1) (\<lambda>db2.
                   let (removed, db3) = remove_file env path db2
                   in Inr (if removed then NoError else ioError path, db3))))"

definition empty_value :: tagged_value where
  "empty_value = \<lparr> tv_bytes = [], tv_tag = 0 \<rparr>"

text \<open>The callback of \<open>get\<close> runs before the access is recorded.\<close>

definition db_get_with ::
    "cache_env \<Rightarrow> cache_key \<Rightarrow> (tagged_value \<Rightarrow> cache_db \<Rightarrow> ('r \<times> cache_db) outcome) \<Rightarrow> cache_db \<Rightarrow>
     ('r \<times> cache_db) outcome" where
  "db_get_with env key callback db =
     (case map_entry key db of
        None \<Rightarrow> callback empty_value db
      | Some entry \<Rightarrow>
          bind_outcome (readValueData env (en_place entry) (en_size entry) db) (\<lambda>xs.
            if xs = [] \<or> ce_checksum env xs \<noteq> en_checksum entry
            then bind_outcome (db_remove env key db) (\<lambda>(_, db1). callback empty_value db1)
            else bind_outcome (callback \<lparr> tv_bytes = xs, tv_tag = en_tag entry \<rparr> db) (\<lambda>(r, db1).
              bind_outcome (recordEntryAccess env key db1) (\<lambda>db2. Inr (r, db2)))))"

definition db_get :: "cache_env \<Rightarrow> cache_key \<Rightarrow> cache_db \<Rightarrow> (tagged_value \<times> cache_db) outcome" where
  "db_get env key db = db_get_with env key (\<lambda>v db. Inr (v, db)) db"

section \<open>Putting\<close>

definition time_for_record :: "cache_env \<Rightarrow> cache_db \<Rightarrow> time_point option outcome" where
  "time_for_record env db =
     (if \<not> trackEstimatedTime (db_settings db) then Inr None
      else let time = countTimePoint env db; writing = getRelative time; current = getRelative (db_time db)
        in asserts (writing \<ge> current)
          (Inr (Some (if (writing - current) * 1000 < word_of_int (writeBundleDelay (db_settings db))
             then db_time db else time))))"

text \<open>
  \<open>writeKeyPlaceGeneric\<close>: no value when the caller has to report an error of the log, the empty
  path when nothing changed. When the log cannot be written it returns the empty path too.
  A place is drawn until one is free.
\<close>

definition write_store ::
    "cache_env \<Rightarrow> store_record \<Rightarrow> cache_db \<Rightarrow> (bool \<times> cache_db) outcome" where
  "write_store env r db =
     (let (success, db1) = binlog_write env (store_bytes r) db
      in if \<not> success then Inr (False, binlog_close db1)
         else bind_outcome (processRecordStore r db1) (\<lambda>(applied, db2). asserts applied (Inr (True, db2))))"

definition writeKeyPlaceGeneric ::
    "cache_env \<Rightarrow> store_record \<Rightarrow> cache_key \<Rightarrow> tagged_value \<Rightarrow> 32 word \<Rightarrow> cache_db \<Rightarrow>
     (string option \<times> cache_db) outcome" where
  "writeKeyPlaceGeneric env record key v checksum db =
     (let n = int (length (tv_bytes v))
      in expects (n \<le> maxDataSize (db_settings db))
        (bind_outcome (setSize n (record\<lparr> sr_tag := tv_tag v, sr_key := key \<rparr>)) (\<lambda>r.
          let r1 = r\<lparr> sr_checksum := checksum \<rparr>;
              write = (\<lambda>place. let path = placePath place db
                in bind_outcome (write_store env (r1\<lparr> sr_place := place \<rparr>) db)
                  (\<lambda>(success, db1). Inr (Some (if success then path else ''''), db1)))
          in case map_entry key db of
               Some already \<Rightarrow>
                 bind_outcome
                   (if en_tag already = sr_tag r1 \<and> en_size already = n \<and> en_checksum already = checksum
                    then bind_outcome (readValueData env (en_place already) n db) (\<lambda>xs. Inr (xs = tv_bytes v))
                    else Inr False)
                   (\<lambda>same. if same then Inr (Some '''', db) else write (en_place already))
             | None \<Rightarrow>
                 (case find (\<lambda>place. isFreePlace place db) (ce_places env) of
                    None \<Rightarrow> Inl Still_running
                  | Some place \<Rightarrow> write place))))"

definition writeKeyPlace ::
    "cache_env \<Rightarrow> cache_key \<Rightarrow> tagged_value \<Rightarrow> 32 word \<Rightarrow> cache_db \<Rightarrow> (string option \<times> cache_db) outcome" where
  "writeKeyPlace env key v checksum db =
     bind_outcome (time_for_record env db) (\<lambda>time. writeKeyPlaceGeneric env (new_store time) key v checksum db)"

definition write_value ::
    "cache_env \<Rightarrow> cache_key \<Rightarrow> tagged_value \<Rightarrow> string \<Rightarrow> cache_db \<Rightarrow> (cache_error \<times> cache_db) outcome" where
  "write_value env key v path db =
     (case ce_open env path Mode_Write of
        Result_Failed \<Rightarrow> bind_outcome (db_remove env key db) (\<lambda>(_, db1). Inr (ioError path, db1))
      | Result_LockFailed \<Rightarrow> bind_outcome (db_remove env key db) (\<lambda>(_, db1).
          Inr (\<lparr> err_type = Error_LockFailed, err_path = path \<rparr>, db1))
      | Result_WrongKey \<Rightarrow> Inl Assert_failed
      | Result_Success \<Rightarrow>
          if \<not> ce_write_file env path
          then bind_outcome (db_remove env key (db\<lparr> db_disk := (db_disk db)(path \<mapsto> []) \<rparr>))
                 (\<lambda>(_, db1). Inr (ioError path, db1))
          else let written = pf_data (plain_write_padded (ce_padding env) (tv_bytes v)
                   \<lparr> pf_data = [], pf_offset = 0 \<rparr>)
            in bind_outcome (optimize env (db\<lparr> db_disk := (db_disk db)(path \<mapsto> written) \<rparr>))
                 (\<lambda>db1. Inr (NoError, db1)))"

definition db_put :: "cache_env \<Rightarrow> cache_key \<Rightarrow> tagged_value \<Rightarrow> cache_db \<Rightarrow> (cache_error \<times> cache_db) outcome" where
  "db_put env key v db =
     (if tv_bytes v = [] then db_remove env key db
      else let db1 = db\<lparr> db_removing := remove1 key (db_removing db), db_stale := removeAll key (db_stale db) \<rparr>;
               checksum = ce_checksum env (tv_bytes v)
        in bind_outcome (writeKeyPlace env key v checksum db1) (\<lambda>(maybepath, db2).
             case maybepath of
               None \<Rightarrow> Inr (ioError (binlogPath db2), db2)
             | Some path \<Rightarrow>
                 if path = '''' then bind_outcome (recordEntryAccess env key db2) (\<lambda>db3. Inr (NoError, db3))
                 else write_value env key v path db2))"

definition putIfEmpty :: "cache_env \<Rightarrow> cache_key \<Rightarrow> tagged_value \<Rightarrow> cache_db \<Rightarrow> (cache_error \<times> cache_db) outcome" where
  "putIfEmpty env key v db =
     (if map_entry key db \<noteq> None then Inr (NoError, db) else db_put env key v db)"

definition copyIfEmpty :: "cache_env \<Rightarrow> cache_key \<Rightarrow> cache_key \<Rightarrow> cache_db \<Rightarrow> (cache_error \<times> cache_db) outcome" where
  "copyIfEmpty env from to db =
     (if map_entry to db \<noteq> None then Inr (NoError, db)
      else db_get_with env from (\<lambda>v db1. db_put env to v db1) db)"

definition writeExistingPlaceGeneric ::
    "cache_env \<Rightarrow> store_record \<Rightarrow> cache_key \<Rightarrow> cache_entry \<Rightarrow> cache_db \<Rightarrow> (cache_error \<times> cache_db) outcome" where
  "writeExistingPlaceGeneric env record key entry db =
     bind_outcome (setSize (en_size entry) (record\<lparr> sr_key := key, sr_tag := en_tag entry \<rparr>)) (\<lambda>r.
       let r1 = r\<lparr> sr_checksum := en_checksum entry \<rparr>
       in bind_outcome
         (case map_entry key db of
            None \<Rightarrow> Inr False
          | Some already \<Rightarrow>
              if en_tag already = en_tag entry \<and> en_size already = en_size entry \<and>
                en_checksum already = en_checksum entry
              then bind_outcome (readValueData env (en_place already) (en_size already) db) (\<lambda>xs.
                bind_outcome (readValueData env (en_place entry) (en_size entry) db) (\<lambda>ys. Inr (xs = ys)))
              else Inr False)
         (\<lambda>same. if same then Inr (NoError, db)
           else bind_outcome (write_store env (r1\<lparr> sr_place := en_place entry \<rparr>) db)
             (\<lambda>(success, db1). Inr (if success then NoError else ioError (binlogPath db1), db1))))"

definition writeExistingPlace ::
    "cache_env \<Rightarrow> cache_key \<Rightarrow> cache_entry \<Rightarrow> cache_db \<Rightarrow> (cache_error \<times> cache_db) outcome" where
  "writeExistingPlace env key entry db =
     bind_outcome (time_for_record env db) (\<lambda>time. writeExistingPlaceGeneric env (new_store time) key entry db)"

definition moveIfEmpty :: "cache_env \<Rightarrow> cache_key \<Rightarrow> cache_key \<Rightarrow> cache_db \<Rightarrow> (cache_error \<times> cache_db) outcome" where
  "moveIfEmpty env from to db =
     (if map_entry to db \<noteq> None then Inr (NoError, db)
      else case map_entry from db of
          None \<Rightarrow> Inr (NoError, db)
        | Some entry \<Rightarrow>
            bind_outcome (eraseMapEntry from (db\<lparr> db_removing := List.insort_insert from (db_removing db) \<rparr>))
              (\<lambda>db1. bind_outcome (writeMultiRemove env db1) (\<lambda>(result, db2).
                if err_type result \<noteq> Error_None then Inr (result, db2)
                else writeExistingPlace env to entry
                  (db2\<lparr> db_removing := remove1 to (db_removing db2), db_stale := removeAll to (db_stale db2) \<rparr>))))"

definition getManyRaw :: "cache_key list \<Rightarrow> cache_db \<Rightarrow> (cache_key \<times> cache_entry) list" where
  "getManyRaw keys db =
     concat (map (\<lambda>key. case map_entry key db of None \<Rightarrow> [] | Some e \<Rightarrow> [(key, e)]) keys)"

section \<open>Pruning\<close>

text \<open>The entries, in the order the hash map is run through.\<close>

definition buckets :: "cache_env \<Rightarrow> cache_db \<Rightarrow> cache_map" where
  "buckets env db = ce_order env (db_map db)"

fun time_stale_loop ::
    "64 word \<Rightarrow> cache_map \<Rightarrow> cache_key list \<Rightarrow> int \<Rightarrow> 64 word \<Rightarrow> int \<Rightarrow> cache_key list \<times> int \<times> 64 word \<times> int" where
  "time_stale_loop before_time [] stale sizes minimal cnt = (stale, sizes, minimal, cnt)"
| "time_stale_loop before_time ((key, entry) # rest) stale sizes minimal cnt =
     (if en_use_time entry \<le> before_time
      then time_stale_loop before_time rest (fst (set_insert (<) key stale)) (sizes + en_size entry) minimal cnt
      else if minimal = 0 \<or> minimal > en_use_time entry
      then time_stale_loop before_time rest stale sizes (en_use_time entry) 1
      else if minimal = en_use_time entry
      then time_stale_loop before_time rest stale sizes minimal (cnt + 1)
      else time_stale_loop before_time rest stale sizes minimal cnt)"

definition collectTimeStale ::
    "cache_env \<Rightarrow> cache_key list \<Rightarrow> int \<Rightarrow> cache_db \<Rightarrow> cache_key list \<times> int \<times> cache_db" where
  "collectTimeStale env stale sizes db =
     (if totalTimeLimit (db_settings db) = 0 then (stale, sizes, db)
      else let before_time = pruneBeforeTime env db
        in if db_minimal_time db = 0 \<or> db_minimal_time db > before_time then (stale, sizes, db)
           else let (stale1, total1, minimal, cnt) = time_stale_loop before_time (buckets env db) stale sizes 0 0
             in (stale1, total1, db\<lparr> db_minimal_time := minimal, db_minimal_count := cnt \<rparr>))"

text \<open>
  The oldest entries found so far, in a \<open>flat_multi_map\<close> by time with \<open>std::greater\<close>, so that the
  newest of them is the first.
\<close>

type_synonym oldest_map = "(int, cache_key \<times> cache_entry) pairs"

definition can_remove_first :: "int \<Rightarrow> cache_entry \<Rightarrow> cache_entry \<Rightarrow> int \<Rightarrow> bool" where
  "can_remove_first removeSize adding first oldestTotal \<longleftrightarrow>
     en_use_time adding \<le> en_use_time first \<and> oldestTotal + en_size adding - removeSize \<ge> en_size first"

fun remove_first :: "int \<Rightarrow> cache_entry \<Rightarrow> oldest_map \<Rightarrow> int \<Rightarrow> oldest_map \<times> int" where
  "remove_first removeSize adding [] oldestTotal = ([], oldestTotal)"
| "remove_first removeSize adding (p # oldest) oldestTotal =
     (if can_remove_first removeSize adding (snd (snd p)) oldestTotal
      then remove_first removeSize adding oldest (oldestTotal - en_size (snd (snd p)))
      else (p # oldest, oldestTotal))"

definition size_stale_step ::
    "int \<Rightarrow> cache_key list \<Rightarrow> cache_key \<times> cache_entry \<Rightarrow> oldest_map \<times> int \<Rightarrow> oldest_map \<times> int" where
  "size_stale_step removeSize stale bucket acc =
     (let (oldest, oldestTotal) = acc; entry = snd bucket
      in if multi_contains (<) (fst bucket) stale then acc
         else if \<not> (oldestTotal < removeSize \<or> en_use_time entry < en_use_time (snd (snd (hd oldest)))) then acc
         else let (oldest1, total1) = remove_first removeSize entry oldest oldestTotal
           in (fst (multi_map_insert (>) (sint (en_use_time entry), bucket) oldest1), total1 + en_size entry))"

definition collectSizeStale ::
    "cache_env \<Rightarrow> cache_key list \<Rightarrow> int \<Rightarrow> cache_db \<Rightarrow> cache_key list \<times> int" where
  "collectSizeStale env stale sizes db =
     (let limit = totalSizeLimit (db_settings db);
          removeSize = (if limit > 0 then db_total_size db - sizes - limit else 0)
      in if removeSize \<le> 0 then (stale, sizes)
         else let (oldest, oldestTotal) = fold (size_stale_step removeSize stale) (buckets env db) ([], 0)
           in (fold (\<lambda>p stale. fst (set_insert (<) (fst (snd p)) stale)) oldest stale, sizes + oldestTotal))"

fun remove_all :: "cache_env \<Rightarrow> cache_key list \<Rightarrow> cache_db \<Rightarrow> cache_db outcome" where
  "remove_all env [] db = Inr db"
| "remove_all env (key # keys) db = bind_outcome (db_remove env key db) (\<lambda>(_, db1). remove_all env keys db1)"

definition clearStaleChunkDelayed :: "cache_db \<Rightarrow> cache_db" where
  "clearStaleChunkDelayed db =
     (if db_clearing_stale db then db
      else db\<lparr> db_clearing_stale := True, db_events := db_events db @ [Clear_chunk_later] \<rparr>)"

definition clearStaleChunk :: "cache_env \<Rightarrow> cache_db \<Rightarrow> cache_db outcome" where
  "clearStaleChunk env db =
     (if db_stale db = [] then Inr db
      else let cnt = int (length (db_stale db));
               clear = min cnt (staleRemoveChunk (db_settings db));
               keep = nat (cnt - clear)
        in bind_outcome (remove_all env (drop keep (db_stale db)) db) (\<lambda>db1.
             let db2 = db1\<lparr> db_stale := take keep (db_stale db1) \<rparr>
             in if db_stale db2 = [] then optimize env db2 else Inr (clearStaleChunkDelayed db2)))"

text \<open>The task \<open>clearStaleChunkDelayed\<close> has queued.\<close>

definition clear_chunk_task :: "cache_env \<Rightarrow> cache_db \<Rightarrow> cache_db outcome" where
  "clear_chunk_task env db =
     (if db_clearing_stale db then clearStaleChunk env (db\<lparr> db_clearing_stale := False \<rparr>) else Inr db)"

definition startStaleClear :: "cache_env \<Rightarrow> cache_db \<Rightarrow> cache_db outcome" where
  "startStaleClear env db = clearStaleChunk env (pushStats db)"

definition clearStaleNow :: "cache_env \<Rightarrow> cache_key list \<Rightarrow> cache_db \<Rightarrow> cache_db outcome" where
  "clearStaleNow env stale db =
     (if stale = [] then Inr db
      else bind_outcome (remove_all env stale (pushStats (db\<lparr> db_stale := db_stale db @ [hd stale] \<rparr>)))
             (\<lambda>db1. optimize env (db1\<lparr> db_stale := [] \<rparr>)))"

definition prune :: "cache_env \<Rightarrow> cache_db \<Rightarrow> cache_db outcome" where
  "prune env db =
     (if db_stale db \<noteq> [] then Inr db
      else let (stale1, total1, db1) = collectTimeStale env [] 0 db;
               (stale2, total2) = collectSizeStale env stale1 total1 db1
        in if int (length stale2) \<le> staleRemoveChunk (db_settings db1)
           then clearStaleNow env stale2 db1
           else startStaleClear env (db1\<lparr> db_stale := stale2 \<rparr>))"

definition prune_timer :: "cache_env \<Rightarrow> cache_db \<Rightarrow> cache_db outcome" where
  "prune_timer env db = prune env (db\<lparr> db_prune_timer := None \<rparr>)"

definition clearByTag :: "cache_env \<Rightarrow> byte \<Rightarrow> cache_db \<Rightarrow> (cache_error \<times> cache_db) outcome" where
  "clearByTag env tag db =
     (let hadStale = db_stale db \<noteq> [];
          db1 = db\<lparr> db_stale := db_stale db @
            map fst (filter (\<lambda>b. en_tag (snd b) = tag) (buckets env db)) \<rparr>
      in bind_outcome (if \<not> hadStale then startStaleClear env db1 else Inr db1) (\<lambda>db2. Inr (NoError, db2)))"

section \<open>Settings\<close>

definition checkSettings :: "cache_settings \<Rightarrow> bool" where
  "checkSettings st \<longleftrightarrow>
     staleRemoveChunk st > 0 \<and>
     (maxDataSize st > 0 \<and> maxDataSize st < kDataSizeLimit) \<and>
     (maxBundledRecords st > 0 \<and> maxBundledRecords st < kBundledRecordsLimit) \<and>
     (totalTimeLimit st = 0 \<or> totalTimeLimit st > 0) \<and>
     (totalSizeLimit st = 0 \<or> totalSizeLimit st > maxDataSize st)"

definition reconfigure :: "cache_settings \<Rightarrow> cache_db \<Rightarrow> cache_db outcome" where
  "reconfigure st db =
     expects (db_key db = []) (expects (checkSettings st) (Inr (db\<lparr> db_settings := st \<rparr>)))"

definition updateSettings :: "cache_env \<Rightarrow> int \<Rightarrow> int \<Rightarrow> cache_db \<Rightarrow> cache_db outcome" where
  "updateSettings env sizeLimit timeLimit db =
     (let st = db_settings db\<lparr> totalSizeLimit := sizeLimit, totalTimeLimit := timeLimit \<rparr>
      in expects (checkSettings st) (optimize env (db\<lparr> db_settings := st \<rparr>)))"

section \<open>Opening and closing\<close>

definition createCleaner :: "cache_db \<Rightarrow> cache_db" where
  "createCleaner db =
     pushStatsDelayed (db\<lparr> db_cleaner := True, db_events := db_events db @ [Cleaner_started] \<rparr>)"

definition cleanerDone :: "cache_db \<Rightarrow> cache_db" where
  "cleanerDone db = pushStatsDelayed (db\<lparr> db_cleaner := False \<rparr>)"

text \<open>\<open>waitForCleaner\<close> clears what is stale; \<open>checkSettings\<close> has seen to it that a chunk is not empty.\<close>

function waitForCleaner :: "cache_env \<Rightarrow> cache_db \<Rightarrow> cache_db outcome" where
  "waitForCleaner env db =
     (if db_stale db = [] then Inr db
      else bind_outcome (clearStaleChunk env db) (\<lambda>db1.
        if length (db_stale db1) < length (db_stale db) then waitForCleaner env db1 else Inl Still_running))"
  by pat_completeness auto

termination
  by (relation "measure (\<lambda>(env, db). length (db_stale db))") auto

declare waitForCleaner.simps [simp del]

definition compactorFail :: "cache_env \<Rightarrow> cache_db \<Rightarrow> cache_db" where
  "compactorFail env db =
     (let delay = cw_delay (db_compactor db)
      in snd (remove_file env (compactReadyPath db)
           (db\<lparr> db_compactor := no_compactor\<lparr> cw_next := ce_now env + delay,
              cw_delay := min (delay * 2) (24 * 60 * 60 * 1000) \<rparr> \<rparr>)))"

definition clearState :: "cache_db \<Rightarrow> cache_db" where
  "clearState db = db\<lparr> db_path := '''', db_key := [], db_map := [], db_removing := [], db_accessed := [],
     db_stale := [], db_time := zero_time, db_excess := 0, db_total_size := 0, db_minimal_time := 0,
     db_minimal_count := 0, db_tagged := (\<lambda>_. None), db_pushing_stats := False,
     db_bundles_timer := None, db_prune_timer := None, db_compactor := no_compactor \<rparr>"

definition db_close :: "cache_env \<Rightarrow> cache_db \<Rightarrow> cache_db outcome" where
  "db_close env db =
     bind_outcome
       (if binlog_is_open db then bind_outcome (writeBundles env db) (\<lambda>db1. Inr (binlog_close db1)) else Inr db)
       (\<lambda>db1. Inr (clearState db1))"

text \<open>
  \<open>File::Move\<close> removes the file in its way before it renames, so when the renaming fails that
  one is gone.
\<close>

definition move_file :: "cache_env \<Rightarrow> string \<Rightarrow> string \<Rightarrow> cache_db \<Rightarrow> bool \<times> cache_db" where
  "move_file env from to db =
     (case db_disk db from of
        None \<Rightarrow> (False, db)
      | Some xs \<Rightarrow>
          if ce_move_file env from to then (True, db\<lparr> db_disk := (db_disk db)(from := None, to \<mapsto> xs) \<rparr>)
          else (False, if ce_remove_file env to then db\<lparr> db_disk := (db_disk db)(to := None) \<rparr> else db))"

definition open_log_file :: "cache_env \<Rightarrow> string \<Rightarrow> file_mode \<Rightarrow> cache_db \<Rightarrow> file_result \<times> cache_db" where
  "open_log_file env path mode db =
     (let result = ce_open env path mode
      in if result \<noteq> Result_Success then (result, binlog_close db)
         else let xs = (if mode = Mode_Write then [] else case db_disk db path of None \<Rightarrow> [] | Some xs \<Rightarrow> xs)
           in (result, db\<lparr> db_disk := (db_disk db)(path \<mapsto> xs), db_binlog := Some (path, 0) \<rparr>))"

definition db_readHeader :: "cache_db \<Rightarrow> bool \<times> cache_db" where
  "db_readHeader db =
     (case db_binlog db of
        None \<Rightarrow> (False, db)
      | Some (path, off) \<Rightarrow>
          let (header, f) = ReadHeader (db_settings db) \<lparr> pf_data = binlog_content db, pf_offset = off \<rparr>;
              db1 = db\<lparr> db_binlog := Some (path, pf_offset f) \<rparr>
          in case header of
               None \<Rightarrow> (False, db1)
             | Some h \<Rightarrow> (True, db1\<lparr> db_time :=
                 setRelative (ucast (hdr_time h)) ((db_time db1)\<lparr> tp_system := hdr_time h \<rparr>) \<rparr>))"

definition db_writeHeader :: "cache_env \<Rightarrow> cache_db \<Rightarrow> bool \<times> cache_db" where
  "db_writeHeader env db =
     (let track = trackEstimatedTime (db_settings db);
          cur = (if track then word_of_int (GetUnixtime env) else 0);
          db1 = db\<lparr> db_time := setRelative (ucast cur) ((db_time db)\<lparr> tp_system := cur \<rparr>) \<rparr>;
          header = BasicHeader\<lparr> hdr_time := cur,
            hdr_flags := (if track then hdr_flags BasicHeader OR kTrackEstimatedTime else hdr_flags BasicHeader) \<rparr>
      in binlog_write env (header_bytes header) db1)"

definition adjustRelativeTime :: "cache_env \<Rightarrow> cache_db \<Rightarrow> cache_db outcome" where
  "adjustRelativeTime env db =
     (if \<not> trackEstimatedTime (db_settings db) then Inr db
      else if GetUnixtime env < uint (tp_system (db_time db))
      then bind_outcome (writeMultiAccessBlock env db) (\<lambda>(_, db1). Inr db1)
      else Inr db)"

definition readBinlog :: "cache_env \<Rightarrow> cache_db \<Rightarrow> cache_db outcome" where
  "readBinlog env db =
     (case db_binlog db of
        None \<Rightarrow> Inr db
      | Some (path, off) \<Rightarrow>
          let st = db_settings db; track = trackEstimatedTime st;
              f = \<lparr> pf_data = binlog_content db, pf_offset = off \<rparr>
          in asserts (CheckSettings (binlog_kinds track) st)
            (bind_outcome (readBinlogHelper (binlog_kinds track) track st process_record (BinlogWrapper f 0) f db)
              (\<lambda>(w, f1, db1).
                bind_outcome (adjustRelativeTime env (db1\<lparr> db_binlog := Some (path, pf_offset f1) \<rparr>))
                  (optimize env))))"

definition openBinlog ::
    "cache_env \<Rightarrow> int \<Rightarrow> file_mode \<Rightarrow> bytes \<Rightarrow> cache_db \<Rightarrow> (file_result \<times> cache_db) outcome" where
  "openBinlog env version mode key db =
     (let ready = compactReadyPathOf env version db; path = binlogPathOf env version db;
          (moved, db1) = (if db_disk db ready \<noteq> None then move_file env ready path db else (True, db))
      in if \<not> moved then Inr (Result_Failed, db1)
         else let (result, db2) = open_log_file env path mode db1
           in if result \<noteq> Result_Success then Inr (result, db2)
              else let headerRequired = mode = Mode_Read \<or> (mode = Mode_ReadAppend \<and> binlog_size db2 > 0);
                       (headerResult, db3) = (if headerRequired then db_readHeader db2 else db_writeHeader env db2)
                in if \<not> headerResult then Inr (Result_Failed, db3)
                   else bind_outcome (readBinlog env (createCleaner
                       (db3\<lparr> db_path := computePath env version db3, db_key := key \<rparr>)))
                     (\<lambda>db4. Inr (Result_Success, db4)))"

fun available_from :: "int \<Rightarrow> int list \<Rightarrow> int" where
  "available_from result [] = result"
| "available_from result (version # versions) =
     (if result \<noteq> version then result else available_from (result + 1) versions)"

definition findAvailableVersion :: "cache_env \<Rightarrow> int" where
  "findAvailableVersion env =
     available_from 0 (fold (\<lambda>v versions. fst (set_insert (<) v versions)) (ce_versions env) [])"

definition writeVersion :: "cache_env \<Rightarrow> int \<Rightarrow> cache_db \<Rightarrow> bool \<times> cache_db" where
  "writeVersion env version db =
     (if ce_write_version env
      then (True, db\<lparr> db_disk := (db_disk db)(versionPath db \<mapsto> le_bytes 4 (unat (word_of_int version :: 32 word))) \<rparr>)
      else (False, db))"

definition readVersion :: "cache_db \<Rightarrow> int" where
  "readVersion db =
     (case db_disk db (versionPath db) of
        None \<Rightarrow> 0
      | Some xs \<Rightarrow> if length (take 4 xs) \<noteq> 4 then 0 else sint (of_nat (le_value (take 4 xs)) :: 32 word))"

definition openNewBinlog :: "cache_env \<Rightarrow> bytes \<Rightarrow> cache_db \<Rightarrow> (cache_error \<times> cache_db) outcome" where
  "openNewBinlog env key db =
     (let available = findAvailableVersion env;
          (written, db1) = writeVersion env available db
      in if \<not> written then Inr (ioError (versionPath db1), db1)
         else bind_outcome (openBinlog env available Mode_Write key db1) (\<lambda>(result, db2).
           Inr (if result \<noteq> Result_Success then ioError (binlogPathOf env available db2) else NoError, db2)))"

definition openSomeBinlog :: "cache_env \<Rightarrow> bytes \<Rightarrow> cache_db \<Rightarrow> (cache_error \<times> cache_db) outcome" where
  "openSomeBinlog env key db =
     (let version = readVersion db
      in bind_outcome (openBinlog env version Mode_ReadAppend key db) (\<lambda>(result, db1).
           case result of
             Result_Success \<Rightarrow> Inr (NoError, db1)
           | Result_Failed \<Rightarrow> openNewBinlog env key db1
           | Result_LockFailed \<Rightarrow>
               Inr (\<lparr> err_type = Error_LockFailed, err_path = binlogPathOf env version db1 \<rparr>, db1)
           | Result_WrongKey \<Rightarrow>
               if clearOnWrongKey (db_settings db1) then openNewBinlog env key db1
               else Inr (\<lparr> err_type = Error_WrongKey, err_path = binlogPathOf env version db1 \<rparr>, db1)))"

definition db_open :: "cache_env \<Rightarrow> bytes \<Rightarrow> cache_db \<Rightarrow> (cache_error \<times> cache_db) outcome" where
  "db_open env key db =
     bind_outcome (db_close env db) (\<lambda>db1.
       bind_outcome (openSomeBinlog env key db1) (\<lambda>(err, db2).
         if err_type err \<noteq> Error_None then bind_outcome (db_close env db2) (\<lambda>db3. Inr (err, db3))
         else Inr (err, db2)))"

definition db_clear :: "cache_env \<Rightarrow> cache_db \<Rightarrow> (cache_error \<times> cache_db) outcome" where
  "db_clear env db =
     (let key = db_key db; db0 = db\<lparr> db_key := [] \<rparr>
      in bind_outcome (if key \<noteq> [] then db_close env db0 else Inr db0) (\<lambda>db1.
           let (written, db2) = writeVersion env (findAvailableVersion env) db1
           in if \<not> written then Inr (ioError (versionPath db2), db2)
              else if key = [] then Inr (NoError, createCleaner db2)
              else db_open env key db2))"

end
