(* ===== verification/Cache_Invariant.thy ===== *)
theory Cache_Invariant
  imports Cache_Database
begin

text \<open>
  What holds of the cache database all the time, whatever the disk does. The counters are those
  of the entries; no assertion of the code fails; and as long as the log is open, reading it
  again would give the entries, less those whose removal waits to be written.
\<close>

section \<open>Maps as lists\<close>

lemma sum_list_update:
  fixes f :: "'k \<times> 'v \<Rightarrow> int"
  assumes "distinct (map fst m)"
  shows "sum_list (map f (AList.update k v m)) =
    sum_list (map f m) - (case map_of m k of None \<Rightarrow> 0 | Some w \<Rightarrow> f (k, w)) + f (k, v)"
  using assms by (induction m) (auto split: option.splits dest: map_of_SomeD)

lemma sum_list_delete:
  fixes f :: "'k \<times> 'v \<Rightarrow> int"
  assumes "distinct (map fst m)"
  shows "sum_list (map f (AList.delete k m)) =
    sum_list (map f m) - (case map_of m k of None \<Rightarrow> 0 | Some w \<Rightarrow> f (k, w))"
  using assms
proof (induction m)
  case (Cons p m)
  then have "AList.delete (fst p) m = m"
    by (simp add: delete_id)
  then show ?case
    using Cons by (cases p) (auto split: option.splits)
qed simp

lemma set_update_subset: "set (AList.update k v m) \<subseteq> insert (k, v) (set m)"
  by (induction m) auto

lemma set_delete_subset: "set (AList.delete k m) \<subseteq> set m"
  by (simp add: AList.delete_eq)

lemma distinct_delete_keys: "distinct (map fst m) \<Longrightarrow> distinct (map fst (AList.delete k m))"
  by (rule AList.distinct_delete)

section \<open>Counters\<close>

definition tag_count :: "byte \<Rightarrow> cache_map \<Rightarrow> int" where
  "tag_count tag m = sum_list (map (\<lambda>b. if en_tag (snd b) = tag then 1 else 0) m)"

definition tag_size :: "byte \<Rightarrow> cache_map \<Rightarrow> int" where
  "tag_size tag m = sum_list (map (\<lambda>b. if en_tag (snd b) = tag then en_size (snd b) else 0) m)"

definition map_size :: "cache_map \<Rightarrow> int" where
  "map_size m = sum_list (map (\<lambda>b. en_size (snd b)) m)"

definition entry_ok :: "cache_settings \<Rightarrow> cache_entry \<Rightarrow> bool" where
  "entry_ok st e \<longleftrightarrow> 0 < en_size e \<and> en_size e \<le> maxDataSize st \<and> length (en_place e) = 7"

definition map_ok_for :: "cache_settings \<Rightarrow> cache_map \<Rightarrow> bool" where
  "map_ok_for st m \<longleftrightarrow> distinct (map fst m) \<and> (\<forall>b\<in>set m. entry_ok st (snd b))"

definition stats_exact :: "cache_map \<Rightarrow> int \<Rightarrow> (byte \<Rightarrow> tagged_summary option) \<Rightarrow> bool" where
  "stats_exact m sizes tagged \<longleftrightarrow>
     sizes = map_size m \<and>
     (\<forall>tag. tag \<noteq> 0 \<longrightarrow> tagged_summary_of tag tagged = \<lparr> sum_count = tag_count tag m, sum_size = tag_size tag m \<rparr>)"

definition minimal_ok :: "64 word \<Rightarrow> int \<Rightarrow> bool" where
  "minimal_ok minimal cnt \<longleftrightarrow> minimal \<noteq> 0 \<longrightarrow> cnt > 0"

lemma summary_add_summary:
  "tagged_summary_of tag (add_summary t c s m) =
    (let r = tagged_summary_of tag m
     in if tag = t then \<lparr> sum_count = sum_count r + c, sum_size = sum_size r + s \<rparr> else r)"
  by (simp add: tagged_summary_of_def add_summary_def Let_def)

definition entry_of :: "cache_key \<Rightarrow> cache_map \<Rightarrow> cache_entry" where
  "entry_of key m = (case map_of m key of None \<Rightarrow> empty_entry | Some e \<Rightarrow> e)"

lemma entry_ok_of:
  assumes "map_ok_for st m" "map_of m key = Some e"
  shows "entry_ok st e"
proof -
  have "\<forall>b\<in>set m. entry_ok st (snd b)"
    using assms(1) by (simp add: map_ok_for_def)
  from bspec [OF this map_of_SomeD [OF assms(2)]] show ?thesis
    by simp
qed

lemma push_stats_frame [simp]:
  "db_total_size (pushStatsDelayed db) = db_total_size db" "db_tagged (pushStatsDelayed db) = db_tagged db"
  by (simp_all add: pushStatsDelayed_def)

lemma updateStats_total [simp]:
  "db_total_size (updateStats was cur db) = db_total_size db + (en_size cur - en_size was)"
  by (simp add: updateStats_def)

lemma updateStats_tagged:
  assumes "tag \<noteq> 0"
  shows "tagged_summary_of tag (db_tagged (updateStats was cur db)) =
    (let r = tagged_summary_of tag (db_tagged db)
     in \<lparr> sum_count = sum_count r + (if en_tag cur = tag then has_size cur else 0)
            - (if en_tag was = tag then has_size was else 0),
          sum_size = sum_size r + (if en_tag cur = tag then en_size cur else 0)
            - (if en_tag was = tag then en_size was else 0) \<rparr>)"
  using assms by (auto simp: updateStats_def summary_add_summary Let_def)

lemma counters_update:
  assumes "distinct (map fst m)"
  shows "map_size (AList.update k e m) = map_size m - (case map_of m k of None \<Rightarrow> 0 | Some w \<Rightarrow> en_size w) + en_size e"
    "tag_count tag (AList.update k e m) = tag_count tag m
       - (case map_of m k of None \<Rightarrow> 0 | Some w \<Rightarrow> if en_tag w = tag then 1 else 0) + (if en_tag e = tag then 1 else 0)"
    "tag_size tag (AList.update k e m) = tag_size tag m
       - (case map_of m k of None \<Rightarrow> 0 | Some w \<Rightarrow> if en_tag w = tag then en_size w else 0)
       + (if en_tag e = tag then en_size e else 0)"
  by (simp_all add: map_size_def tag_count_def tag_size_def sum_list_update [OF assms] split: option.split)

lemma counters_delete:
  assumes "distinct (map fst m)"
  shows "map_size (AList.delete k m) = map_size m - (case map_of m k of None \<Rightarrow> 0 | Some w \<Rightarrow> en_size w)"
    "tag_count tag (AList.delete k m) = tag_count tag m
       - (case map_of m k of None \<Rightarrow> 0 | Some w \<Rightarrow> if en_tag w = tag then 1 else 0)"
    "tag_size tag (AList.delete k m) = tag_size tag m
       - (case map_of m k of None \<Rightarrow> 0 | Some w \<Rightarrow> if en_tag w = tag then en_size w else 0)"
  by (simp_all add: map_size_def tag_count_def tag_size_def sum_list_delete [OF assms] split: option.split)

lemma stats_exact_update:
  assumes "map_ok_for st m" "stats_exact m (db_total_size db) (db_tagged db)" "entry_ok st e"
  shows "stats_exact (AList.update key e m) (db_total_size (updateStats (entry_of key m) e db))
    (db_tagged (updateStats (entry_of key m) e db))"
proof -
  have d: "distinct (map fst m)" "has_size e = 1"
    using assms by (simp_all add: map_ok_for_def entry_ok_def has_size_def)
  show ?thesis
  proof (cases "map_of m key")
    case None
    then have "entry_of key m = empty_entry" "en_tag empty_entry = 0" "en_size empty_entry = 0"
      by (simp_all add: entry_of_def empty_entry_def)
    then show ?thesis
      using assms(2) d None by (simp add: stats_exact_def counters_update updateStats_tagged Let_def)
  next
    case (Some w)
    then have "entry_of key m = w" "has_size w = 1"
      using entry_ok_of [OF assms(1) Some] by (simp_all add: entry_of_def entry_ok_def has_size_def)
    then show ?thesis
      using assms(2) d Some by (simp add: stats_exact_def counters_update updateStats_tagged Let_def)
  qed
qed

lemma stats_exact_delete:
  assumes "map_ok_for st m" "stats_exact m (db_total_size db) (db_tagged db)" "map_of m key = Some e"
  shows "stats_exact (AList.delete key m) (db_total_size (updateStats e empty_entry db))
    (db_tagged (updateStats e empty_entry db))"
proof -
  have d: "distinct (map fst m)" "has_size e = 1"
    using assms(1) entry_ok_of [OF assms(1,3)] by (simp_all add: map_ok_for_def entry_ok_def has_size_def)
  show ?thesis
    using assms(2,3) d
    by (auto simp: stats_exact_def counters_delete updateStats_tagged Let_def empty_entry_def has_size_def)
qed

lemma map_ok_update: "map_ok_for st m \<Longrightarrow> entry_ok st e \<Longrightarrow> map_ok_for st (AList.update key e m)"
  using set_update_subset [of key e m] by (auto simp: map_ok_for_def AList.distinct_update)

lemma map_ok_delete: "map_ok_for st m \<Longrightarrow> map_ok_for st (AList.delete key m)"
  using set_delete_subset [of key m] by (auto simp: map_ok_for_def distinct_delete_keys)

text \<open>An entry that only changes its time.\<close>

lemma stats_exact_touch:
  assumes "map_ok_for st m" "stats_exact m sizes tagged" "map_of m key = Some e"
  shows "stats_exact (AList.update key (e\<lparr> en_use_time := t \<rparr>) m) sizes tagged"
  using assms by (auto simp: stats_exact_def counters_update map_ok_for_def)

end
