(* ===== verification/Cache_Log.thy ===== *)
theory Cache_Log
  imports Cache_Invariant
begin

text \<open>
  The log of the cache and the state it stands for. Applying a record, as reading the log does,
  changes the entries and the time as the record says, fails no assertion and keeps the counters
  exact. As long as the log is open its bytes are a header and valid records, and these records
  give the entries of the database, less the ones whose removal waits to be written.
\<close>

section \<open>The state without its queues\<close>

definition core_ok :: "cache_db \<Rightarrow> bool" where
  "core_ok db \<longleftrightarrow>
     checkSettings (db_settings db) \<and>
     map_ok_for (db_settings db) (db_map db) \<and>
     stats_exact (db_map db) (db_total_size db) (db_tagged db) \<and>
     minimal_ok (db_minimal_time db) (db_minimal_count db)"

lemma core_ok_frame [simp]:
  "core_ok (db\<lparr> db_base := x0 \<rparr>) = core_ok db"
  "core_ok (db\<lparr> db_path := x1 \<rparr>) = core_ok db"
  "core_ok (db\<lparr> db_key := x2 \<rparr>) = core_ok db"
  "core_ok (db\<lparr> db_disk := x3 \<rparr>) = core_ok db"
  "core_ok (db\<lparr> db_binlog := x4 \<rparr>) = core_ok db"
  "core_ok (db\<lparr> db_removing := x5 \<rparr>) = core_ok db"
  "core_ok (db\<lparr> db_accessed := x6 \<rparr>) = core_ok db"
  "core_ok (db\<lparr> db_stale := x7 \<rparr>) = core_ok db"
  "core_ok (db\<lparr> db_time := x8 \<rparr>) = core_ok db"
  "core_ok (db\<lparr> db_excess := x9 \<rparr>) = core_ok db"
  "core_ok (db\<lparr> db_has_consumers := x10 \<rparr>) = core_ok db"
  "core_ok (db\<lparr> db_pushing_stats := x11 \<rparr>) = core_ok db"
  "core_ok (db\<lparr> db_clearing_stale := x12 \<rparr>) = core_ok db"
  "core_ok (db\<lparr> db_bundles_timer := x13 \<rparr>) = core_ok db"
  "core_ok (db\<lparr> db_prune_timer := x14 \<rparr>) = core_ok db"
  "core_ok (db\<lparr> db_cleaner := x15 \<rparr>) = core_ok db"
  "core_ok (db\<lparr> db_compactor := x16 \<rparr>) = core_ok db"
  "core_ok (db\<lparr> db_events := x17 \<rparr>) = core_ok db"
  by (simp_all add: core_ok_def)

text \<open>What the bookkeeping of entries leaves alone.\<close>

definition same_outside :: "cache_db \<Rightarrow> cache_db \<Rightarrow> bool" where
  "same_outside db db' \<longleftrightarrow>
     db_base db' = db_base db \<and> db_path db' = db_path db \<and> db_settings db' = db_settings db \<and>
     db_key db' = db_key db \<and> db_disk db' = db_disk db \<and> db_binlog db' = db_binlog db \<and>
     db_removing db' = db_removing db \<and> db_accessed db' = db_accessed db \<and>
     db_stale db' = db_stale db \<and> db_time db' = db_time db"

lemma same_outside_refl [simp]: "same_outside db db"
  by (simp add: same_outside_def)

lemma same_outside_trans: "same_outside a b \<Longrightarrow> same_outside b c \<Longrightarrow> same_outside a c"
  by (simp add: same_outside_def)

lemma updateStats_frame [simp]:
  "same_outside db (updateStats was cur db)" "db_map (updateStats was cur db) = db_map db"
  "db_excess (updateStats was cur db) = db_excess db"
  "db_minimal_time (updateStats was cur db) = db_minimal_time db"
  "db_minimal_count (updateStats was cur db) = db_minimal_count db"
  "db_settings (updateStats was cur db) = db_settings db"
  by (simp_all add: updateStats_def pushStatsDelayed_def same_outside_def Let_def)

lemma setMapEntry_ok:
  assumes "core_ok db" "entry_ok (db_settings db) e"
  shows "ensures (setMapEntry key e db) (\<lambda>db'. core_ok db' \<and> same_outside db db' \<and>
    db_map db' = AList.update key e (db_map db) \<and> db_excess db \<le> db_excess db')"
proof -
  let ?was = "entry_of key (db_map db)"
  have facts: "checkSettings (db_settings db)" "map_ok_for (db_settings db) (db_map db)"
    "minimal_ok (db_minimal_time db) (db_minimal_count db)"
    using assms(1) by (simp_all add: core_ok_def)
  have map: "map_ok_for (db_settings db) (AList.update key e (db_map db))"
    by (rule map_ok_update [OF facts(2) assms(2)])
  have stats: "stats_exact (AList.update key e (db_map db)) (db_total_size (updateStats ?was e db))
      (db_tagged (updateStats ?was e db))"
    by (rule stats_exact_update [OF facts(2) _ assms(2)]) (use assms(1) in \<open>simp add: core_ok_def\<close>)
  have same: "same_outside db (updateStats ?was e db)"
    by simp
  have "(case map_entry key db of None \<Rightarrow> empty_entry | Some e \<Rightarrow> e) = ?was"
    by (simp add: map_entry_def entry_of_def)
  then show ?thesis
    using facts map stats same
    by (auto simp: setMapEntry_def Let_def core_ok_def minimal_ok_def same_outside_def simp del: updateStats_total)
qed

lemma eraseMapEntry_ok:
  assumes "core_ok db"
  shows "ensures (eraseMapEntry key db) (\<lambda>db'. core_ok db' \<and> same_outside db db' \<and>
    map_of (db_map db') = (map_of (db_map db))(key := None) \<and> db_excess db' = db_excess db)"
proof (cases "map_of (db_map db) key")
  case None
  then show ?thesis
    using assms by (simp add: eraseMapEntry_def map_entry_def fun_upd_idem)
next
  case (Some e)
  have facts: "checkSettings (db_settings db)" "map_ok_for (db_settings db) (db_map db)"
    "minimal_ok (db_minimal_time db) (db_minimal_count db)"
    using assms(1) by (simp_all add: core_ok_def)
  have map: "map_ok_for (db_settings db) (AList.delete key (db_map db))"
    by (rule map_ok_delete [OF facts(2)])
  have stats: "stats_exact (AList.delete key (db_map db)) (db_total_size (updateStats e empty_entry db))
      (db_tagged (updateStats e empty_entry db))"
    by (rule stats_exact_delete [OF facts(2) _ Some]) (use assms(1) in \<open>simp add: core_ok_def\<close>)
  have same: "same_outside db (updateStats e empty_entry db)"
    by simp
  show ?thesis
    using facts map stats same Some
    by (auto simp: eraseMapEntry_def map_entry_def Let_def core_ok_def minimal_ok_def same_outside_def
        AList.delete_conv' simp del: updateStats_total)
qed

lemma set_use_time_ok:
  assumes "core_ok db"
  shows "core_ok (set_use_time t key db)" "same_outside db (set_use_time t key db)"
    "map_of (db_map (set_use_time t key db)) =
       (\<lambda>k. if k = key then map_option (\<lambda>e. e\<lparr> en_use_time := t \<rparr>) (map_of (db_map db) k) else map_of (db_map db) k)"
    "db_excess (set_use_time t key db) = db_excess db"
proof -
  have "core_ok (set_use_time t key db) \<and> same_outside db (set_use_time t key db) \<and>
    map_of (db_map (set_use_time t key db)) =
      (\<lambda>k. if k = key then map_option (\<lambda>e. e\<lparr> en_use_time := t \<rparr>) (map_of (db_map db) k) else map_of (db_map db) k) \<and>
    db_excess (set_use_time t key db) = db_excess db"
  proof (cases "map_of (db_map db) key")
    case None
    then show ?thesis
      using assms by (auto simp: set_use_time_def map_entry_def)
  next
    case (Some e)
    have facts: "map_ok_for (db_settings db) (db_map db)"
      "stats_exact (db_map db) (db_total_size db) (db_tagged db)"
      using assms by (simp_all add: core_ok_def)
    have "map_ok_for (db_settings db) (AList.update key (e\<lparr> en_use_time := t \<rparr>) (db_map db))"
      by (rule map_ok_update [OF facts(1)]) (use entry_ok_of [OF facts(1) Some] in \<open>simp add: entry_ok_def\<close>)
    then show ?thesis
      using assms Some stats_exact_touch [OF facts Some, of t]
      by (auto simp: set_use_time_def map_entry_def core_ok_def same_outside_def update_conv' fun_eq_iff)
  qed
  then show "core_ok (set_use_time t key db)" "same_outside db (set_use_time t key db)"
    "map_of (db_map (set_use_time t key db)) =
       (\<lambda>k. if k = key then map_option (\<lambda>e. e\<lparr> en_use_time := t \<rparr>) (map_of (db_map db) k) else map_of (db_map db) k)"
    "db_excess (set_use_time t key db) = db_excess db"
    by simp_all
qed

section \<open>What the log says\<close>

text \<open>
  The entries and the relative time a log stands for, record by record, without the counters
  of the database.
\<close>

type_synonym log_view = "(cache_key \<Rightarrow> cache_entry option) \<times> 64 word"

definition store_entry :: "64 word \<Rightarrow> store_record \<Rightarrow> cache_entry" where
  "store_entry relative r =
     \<lparr> en_use_time = (case sr_time r of None \<Rightarrow> relative | Some t \<Rightarrow> getRelative t), en_size = getSize r,
       en_checksum = sr_checksum r, en_place = sr_place r, en_tag = sr_tag r \<rparr>"

definition replay_store :: "store_record \<Rightarrow> log_view \<Rightarrow> log_view" where
  "replay_store r v =
     ((fst v)(sr_key r \<mapsto> store_entry (snd v) r),
      (case sr_time r of None \<Rightarrow> snd v | Some t \<Rightarrow> max (snd v) (getRelative t)))"

definition touch_keys :: "64 word \<Rightarrow> cache_key set \<Rightarrow> (cache_key \<Rightarrow> cache_entry option) \<Rightarrow> cache_key \<Rightarrow> cache_entry option" where
  "touch_keys t ks m = (\<lambda>k. if k \<in> ks then map_option (\<lambda>e. e\<lparr> en_use_time := t \<rparr>) (m k) else m k)"

definition replay :: "log_record \<Rightarrow> log_view \<Rightarrow> log_view" where
  "replay r v =
     (case r of
        Log_store s \<Rightarrow> replay_store s v
      | Log_multi_store ss \<Rightarrow> fold replay_store ss v
      | Log_multi_remove ks \<Rightarrow> (\<lambda>k. if k \<in> set ks then None else fst v k, snd v)
      | Log_multi_access t ks \<Rightarrow> (touch_keys (getRelative t) (set ks) (fst v), max (snd v) (getRelative t)))"

definition store_valid :: "cache_settings \<Rightarrow> store_record \<Rightarrow> bool" where
  "store_valid st r \<longleftrightarrow> 0 < getSize r \<and> getSize r \<le> maxDataSize st \<and> length (sr_place r) = 7"

definition record_valid :: "cache_settings \<Rightarrow> log_record \<Rightarrow> bool" where
  "record_valid st r \<longleftrightarrow> record_ok (trackEstimatedTime st) st r \<and>
     (case r of
        Log_store s \<Rightarrow> store_valid st s
      | Log_multi_store ss \<Rightarrow> list_all (store_valid st) ss
      | _ \<Rightarrow> True)"

definition view_of :: "cache_db \<Rightarrow> log_view" where
  "view_of db = (map_of (db_map db), getRelative (db_time db))"

text \<open>Applying a record, as reading the log does, gives the entries the record stands for.\<close>

definition applies :: "cache_db \<Rightarrow> cache_db \<Rightarrow> bool" where
  "applies db db' \<longleftrightarrow>
     core_ok db' \<and> same_outside (db\<lparr> db_time := zero_time \<rparr>) (db'\<lparr> db_time := zero_time \<rparr>) \<and>
     db_excess db \<le> db_excess db'"

lemma applies_trans: "applies a b \<Longrightarrow> applies b c \<Longrightarrow> applies a c"
  by (simp add: applies_def same_outside_def)

lemma applyTimePoint_ok:
  assumes "core_ok db"
  shows "core_ok (applyTimePoint t db)"
    "same_outside (db\<lparr> db_time := zero_time \<rparr>) ((applyTimePoint t db)\<lparr> db_time := zero_time \<rparr>)"
    "db_map (applyTimePoint t db) = db_map db" "db_excess (applyTimePoint t db) = db_excess db"
    "getRelative (db_time (applyTimePoint t db)) = max (getRelative (db_time db)) (getRelative t)"
    "db_settings (applyTimePoint t db) = db_settings db"
  using assms by (auto simp: applyTimePoint_def core_ok_def same_outside_def max_def)

definition record_time :: "store_record \<Rightarrow> cache_db \<Rightarrow> time_point" where
  "record_time r db = (case sr_time r of None \<Rightarrow> db_time db | Some t \<Rightarrow> db_time (applyTimePoint t db))"

lemma processRecordStore_ok:
  assumes "core_ok db" "store_valid (db_settings db) r"
  shows "ensures (processRecordStore r db) (\<lambda>(ok, db'). ok \<and> applies db db' \<and>
    view_of db' = replay_store r (view_of db) \<and> db_time db' = record_time r db)"
proof -
  define db1 where "db1 = (case sr_time r of None \<Rightarrow> db | Some t \<Rightarrow> applyTimePoint t db)"
  define e where "e = store_entry (getRelative (db_time db)) r"
  have e: "entry_ok (db_settings db1) e"
    using assms(2) by (auto simp: e_def db1_def store_entry_def entry_ok_def store_valid_def applyTimePoint_def
        split: option.split)
  have core: "core_ok db1"
    using assms(1) applyTimePoint_ok(1) by (simp add: db1_def split: option.split)
  have db1: "same_outside (db\<lparr> db_time := zero_time \<rparr>) (db1\<lparr> db_time := zero_time \<rparr>)" "db_map db1 = db_map db"
    "db_excess db1 = db_excess db"
    "getRelative (db_time db1) = (case sr_time r of None \<Rightarrow> getRelative (db_time db)
       | Some t \<Rightarrow> max (getRelative (db_time db)) (getRelative t))"
    "db_time db1 = record_time r db"
    using applyTimePoint_ok [OF assms(1)] by (auto simp: db1_def applyTimePoint_def record_time_def split: option.split)
  have size: "\<not> (getSize r \<le> 0 \<or> getSize r > maxDataSize (db_settings db))"
    using assms(2) by (simp add: store_valid_def)
  have "processRecordStore r db = bind_outcome (setMapEntry (sr_key r) e db1) (\<lambda>db2. Inr (True, db2))"
    using size by (cases "sr_time r") (simp_all add: processRecordStore_def Let_def e_def store_entry_def db1_def)
  moreover have "ensures (setMapEntry (sr_key r) e db1) (\<lambda>db2. applies db db2 \<and>
    view_of db2 = replay_store r (view_of db) \<and> db_time db2 = record_time r db)"
  proof (rule ensures_mono [OF setMapEntry_ok [OF core e]], elim conjE)
    fix db2
    assume "core_ok db2" "same_outside db1 db2" "db_map db2 = AList.update (sr_key r) e (db_map db1)"
      "db_excess db1 \<le> db_excess db2"
    then show "applies db db2 \<and> view_of db2 = replay_store r (view_of db) \<and>
        db_time db2 = record_time r db"
      using db1 by (auto simp: applies_def view_of_def replay_store_def update_conv' same_outside_def e_def
          split: option.split)
  qed
  ultimately show ?thesis
    by simp
qed

lemma ensures_okE:
  assumes "ensures m (\<lambda>(ok, s). ok \<and> Q s)"
  obtains s where "m = Inr (True, s)" "Q s"
  using assms by (cases m) (auto simp: ensures_def)

lemma ensures_pair: "m = Inr (a, s) \<Longrightarrow> Q a s \<Longrightarrow> ensures m (\<lambda>(a, s). Q a s)"
  by simp

lemma processRecordMultiStore_ok:
  "core_ok db \<Longrightarrow> list_all (store_valid (db_settings db)) rs \<Longrightarrow>
   ensures (processRecordMultiStore rs db) (\<lambda>(ok, db'). ok \<and> applies db db' \<and>
     view_of db' = fold replay_store rs (view_of db))"
proof (induction rs arbitrary: db)
  case Nil
  then show ?case
    by (simp add: applies_def)
next
  case (Cons r rs)
  obtain db1 where one: "processRecordStore r db = Inr (True, db1)"
    and facts: "applies db db1 \<and> view_of db1 = replay_store r (view_of db) \<and>
      db_time db1 = record_time r db"
    using processRecordStore_ok [OF Cons.prems(1), of r] Cons.prems(2) by (auto elim: ensures_okE)
  have "core_ok db1" "list_all (store_valid (db_settings db1)) rs"
    using facts Cons.prems(2) by (simp_all add: applies_def same_outside_def)
  from Cons.IH [OF this] obtain db2 where "processRecordMultiStore rs db1 = Inr (True, db2)"
    "applies db1 db2 \<and> view_of db2 = fold replay_store rs (view_of db1)"
    by (rule ensures_okE)
  then show ?case
    using one facts by (auto intro: applies_trans)
qed

lemma remove_keys_ok:
  "core_ok db \<Longrightarrow> ensures (remove_keys keys db) (\<lambda>db'. core_ok db' \<and> same_outside db db' \<and> db_excess db \<le> db_excess db' \<and>
     map_of (db_map db') = (\<lambda>k. if k \<in> set keys then None else map_of (db_map db) k))"
proof (induction keys arbitrary: db)
  case (Cons key keys)
  have "core_ok (db\<lparr> db_excess := db_excess db + 16 \<rparr>)"
    using Cons.prems by simp
  from eraseMapEntry_ok [OF this, of key] obtain db1 where
    step: "eraseMapEntry key (db\<lparr> db_excess := db_excess db + 16 \<rparr>) = Inr db1" and
    one: "core_ok db1 \<and> same_outside (db\<lparr> db_excess := db_excess db + 16 \<rparr>) db1 \<and>
      map_of (db_map db1) = (map_of (db_map db))(key := None) \<and> db_excess db1 = db_excess db + 16"
    by (auto elim: ensuresE)
  from one have "core_ok db1" by simp
  from Cons.IH [OF this] show ?case
    using one step by (auto simp: same_outside_def fun_eq_iff elim!: ensures_mono)
qed simp

lemma access_keys_ok:
  "core_ok db \<Longrightarrow> core_ok (access_keys t keys db) \<and> same_outside db (access_keys t keys db) \<and>
     db_excess db \<le> db_excess (access_keys t keys db) \<and>
     map_of (db_map (access_keys t keys db)) = touch_keys t (set keys) (map_of (db_map db))"
proof (induction keys arbitrary: db)
  case (Cons key keys)
  let ?db1 = "set_use_time t key (db\<lparr> db_excess := db_excess db + 16 \<rparr>)"
  have ok: "core_ok (db\<lparr> db_excess := db_excess db + 16 \<rparr>)"
    using Cons.prems by simp
  note one = set_use_time_ok [OF ok, of t key]
  note Cons.IH [OF one(1)]
  then show ?case
    using one by (auto simp: same_outside_def touch_keys_def fun_eq_iff option.map_comp comp_def)
qed (simp add: touch_keys_def)

lemma process_record_ok:
  assumes "core_ok db" "record_valid (db_settings db) r"
  shows "ensures (process_record r db) (\<lambda>(ok, db'). ok \<and> applies db db' \<and> view_of db' = replay r (view_of db))"
proof (cases r)
  case (Log_store s)
  then show ?thesis
    using processRecordStore_ok [OF assms(1), of s] assms(2)
    by (auto simp: process_record_def record_valid_def replay_def elim!: ensures_mono)
next
  case (Log_multi_store ss)
  then show ?thesis
    using processRecordMultiStore_ok [OF assms(1), of ss] assms(2)
    by (auto simp: process_record_def record_valid_def replay_def elim!: ensures_mono)
next
  case (Log_multi_remove keys)
  have "core_ok (db\<lparr> db_excess := db_excess db + 16 \<rparr>)"
    using assms(1) by simp
  from remove_keys_ok [OF this, of keys] show ?thesis
    using Log_multi_remove
    by (auto simp: process_record_def processRecordMultiRemove_def replay_def applies_def view_of_def
        same_outside_def fun_eq_iff elim!: ensures_mono)
next
  case (Log_multi_access t keys)
  have track: "trackEstimatedTime (db_settings db)"
    using assms(2) Log_multi_access by (simp add: record_valid_def record_ok_def)
  let ?db1 = "applyTimePoint t db"
  note time = applyTimePoint_ok [OF assms(1), of t]
  have "core_ok (?db1\<lparr> db_excess := db_excess ?db1 + 16 \<rparr>)"
    using time(1) by simp
  note access = access_keys_ok [OF this, of "getRelative t" keys]
  show ?thesis
    using access time track Log_multi_access
    by (simp add: process_record_def processRecordMultiAccess_def Let_def replay_def applies_def view_of_def
        same_outside_def)
qed

section \<open>The bytes of the log\<close>

definition log_says :: "cache_settings \<Rightarrow> bytes \<Rightarrow> log_view \<Rightarrow> bool" where
  "log_says st xs v \<longleftrightarrow> (\<exists>h recs. xs = header_bytes h @ concat (map record_bytes recs) \<and>
     hdr_format h = kLogFormat_0 \<and>
     hdr_flags h = (if trackEstimatedTime st then kTrackEstimatedTime else 0) \<and>
     list_all (record_valid st) recs \<and> v = fold replay recs (Map.empty, ucast (hdr_time h)))"

lemma log_says_append:
  assumes "log_says st xs v" "record_valid st r"
  shows "log_says st (xs @ record_bytes r) (replay r v)"
proof -
  obtain h recs where facts: "xs = header_bytes h @ concat (map record_bytes recs)" "hdr_format h = kLogFormat_0"
    "hdr_flags h = (if trackEstimatedTime st then kTrackEstimatedTime else 0)"
    "list_all (record_valid st) recs" "v = fold replay recs (Map.empty, ucast (hdr_time h))"
    using assms(1) unfolding log_says_def by blast
  have "xs @ record_bytes r = header_bytes h @ concat (map record_bytes (recs @ [r]))"
    "list_all (record_valid st) (recs @ [r])"
    "replay r v = fold replay (recs @ [r]) (Map.empty, ucast (hdr_time h))"
    using facts assms(2) by simp_all
  then show ?thesis
    using facts(2,3) unfolding log_says_def by blast
qed

text \<open>The settings that change while a cache is open do not matter to its records.\<close>

lemma record_valid_limits [simp]:
  "record_valid (st\<lparr> totalSizeLimit := a, totalTimeLimit := b \<rparr>) r = record_valid st r"
proof -
  have "store_valid (st\<lparr> totalSizeLimit := a, totalTimeLimit := b \<rparr>) = store_valid st"
    by (simp add: fun_eq_iff store_valid_def)
  then show ?thesis
    by (simp add: record_valid_def record_ok_def parts_ok_def split: log_record.split)
qed

lemma log_says_limits [simp]: "log_says (st\<lparr> totalSizeLimit := a, totalTimeLimit := b \<rparr>) xs v = log_says st xs v"
proof -
  have "record_valid (st\<lparr> totalSizeLimit := a, totalTimeLimit := b \<rparr>) = record_valid st"
    by (simp add: fun_eq_iff)
  then show ?thesis
    by (simp add: log_says_def)
qed

definition hidden :: "cache_key set \<Rightarrow> (cache_key \<Rightarrow> cache_entry option) \<Rightarrow> cache_key \<Rightarrow> cache_entry option" where
  "hidden R m = (\<lambda>k. if k \<in> R then None else m k)"

lemma hidden_empty [simp]: "hidden {} m = m"
  by (simp add: hidden_def)

definition open_log :: "cache_db \<Rightarrow> bytes \<Rightarrow> bool" where
  "open_log db xs \<longleftrightarrow> db_binlog db = Some (binlogPath db, length xs) \<and> db_disk db (binlogPath db) = Some xs"

text \<open>
  \<open>R\<close> is the set of keys whose entries are gone but not yet in the log: those of \<open>_removing\<close>, and
  for a moment the key that \<open>put\<close> has taken out of it. The log may stand for an earlier time than the
  cache keeps, since compacting drops the times of entries that are gone; where no times are kept,
  none is dropped.
\<close>

definition time_says :: "cache_settings \<Rightarrow> 64 word \<Rightarrow> 64 word \<Rightarrow> bool" where
  "time_says st t rel \<longleftrightarrow> t \<le> rel \<and> (trackEstimatedTime st \<or> t = rel)"

lemma time_says_refl [simp]: "time_says st t t"
  by (simp add: time_says_def)

lemma time_says_limits [simp]: "time_says (st\<lparr> totalSizeLimit := a, totalTimeLimit := b \<rparr>) t rel = time_says st t rel"
  by (simp add: time_says_def)

definition log_for :: "cache_key set \<Rightarrow> (cache_key \<Rightarrow> cache_entry option) \<Rightarrow> cache_db \<Rightarrow> bool" where
  "log_for R M db \<longleftrightarrow> db_binlog db = None \<or> (\<exists>xs m t. open_log db xs \<and>
     log_says (db_settings db) xs (m, t) \<and> time_says (db_settings db) t (getRelative (db_time db)) \<and> M = hidden R m)"

abbreviation log_ok :: "cache_key set \<Rightarrow> cache_db \<Rightarrow> bool" where
  "log_ok R db \<equiv> log_for R (map_of (db_map db)) db"

definition log_appended :: "bytes \<Rightarrow> bytes \<Rightarrow> cache_db \<Rightarrow> cache_db" where
  "log_appended xs ys db = db\<lparr> db_disk := (db_disk db)(binlogPath db \<mapsto> xs @ ys),
     db_binlog := Some (binlogPath db, length (xs @ ys)) \<rparr>"

lemma log_appended_fields [simp]:
  "db_base (log_appended xs ys db) = db_base db" "db_path (log_appended xs ys db) = db_path db"
  "db_settings (log_appended xs ys db) = db_settings db" "db_key (log_appended xs ys db) = db_key db"
  "db_map (log_appended xs ys db) = db_map db" "db_removing (log_appended xs ys db) = db_removing db"
  "db_accessed (log_appended xs ys db) = db_accessed db" "db_stale (log_appended xs ys db) = db_stale db"
  "db_time (log_appended xs ys db) = db_time db" "db_excess (log_appended xs ys db) = db_excess db"
  "binlogPath (log_appended xs ys db) = binlogPath db" "core_ok (log_appended xs ys db) = core_ok db"
  "db_disk (log_appended xs ys db) = (db_disk db)(binlogPath db \<mapsto> xs @ ys)"
  "open_log (log_appended xs ys db) (xs @ ys)"
  "db_binlog (log_appended xs ys db) = Some (binlogPath db, length (xs @ ys))"
  by (simp_all add: log_appended_def binlogPath_def core_ok_def open_log_def)

lemma log_appended_twice [simp]:
  "log_appended (xs @ ys) zs (log_appended xs ys db) = log_appended xs (ys @ zs) db"
  by (simp add: log_appended_def binlogPath_def)

text \<open>What a write that fails leaves: a part of the bytes behind the log.\<close>

definition log_torn :: "bytes \<Rightarrow> bytes \<Rightarrow> cache_db \<Rightarrow> cache_db" where
  "log_torn xs ys db = db\<lparr> db_disk := (db_disk db)(binlogPath db \<mapsto> xs @ ys) \<rparr>"

lemma binlog_write_closed: "db_binlog db = None \<Longrightarrow> binlog_write env ys db = (False, db)"
  by (simp add: binlog_write_def)

lemma binlog_write_open:
  assumes "open_log db xs"
  shows "binlog_write env ys db = (if ce_write_log env ys then (True, log_appended xs ys db)
    else (False, log_torn xs (take (ce_written_log env ys) ys) db))"
proof -
  have "binlog_content db = xs"
    using assms by (simp add: open_log_def binlog_content_def)
  then show ?thesis
    using assms by (simp add: open_log_def binlog_write_def plain_write_def log_appended_def log_torn_def Let_def)
qed

lemma binlog_write_fails:
  assumes "db_binlog db \<noteq> None \<longrightarrow> open_log db xs" "db_binlog db = None \<or> \<not> ce_write_log env ys"
  obtains d where "binlog_write env ys db = (False, db\<lparr> db_disk := d \<rparr>)"
    "\<And>p. p \<noteq> binlogPath db \<Longrightarrow> d p = db_disk db p"
proof (cases "db_binlog db = None")
  case True
  then show thesis using that [of "db_disk db"] by (simp add: binlog_write_closed)
next
  case False
  then have "binlog_write env ys db = (False, log_torn xs (take (ce_written_log env ys) ys) db)"
    using assms binlog_write_open by auto
  then show thesis
    using that [of "(db_disk db)(binlogPath db \<mapsto> xs @ take (ce_written_log env ys) ys)"]
    by (simp add: log_torn_def)
qed

text \<open>A record is written in one or two parts; when a part fails the log is closed.\<close>

definition write_two :: "cache_env \<Rightarrow> bytes \<Rightarrow> bytes \<Rightarrow> cache_db \<Rightarrow> bool \<times> cache_db" where
  "write_two env a b db =
     (let (ok1, db1) = binlog_write env a db;
          (ok2, db2) = (if ok1 \<and> b \<noteq> [] then binlog_write env b db1 else (ok1, db1))
      in (ok2, db2))"

lemma log_for_cases:
  assumes "log_for R M db"
  obtains xs m t where "db_binlog db \<noteq> None \<longrightarrow> open_log db xs"
    "db_binlog db \<noteq> None \<longrightarrow> log_says (db_settings db) xs (m, t)"
    "db_binlog db \<noteq> None \<longrightarrow> time_says (db_settings db) t (getRelative (db_time db))"
    "db_binlog db \<noteq> None \<longrightarrow> M = hidden R m"
  using assms unfolding log_for_def by blast

lemma write_two_cases:
  assumes "db_binlog db \<noteq> None \<longrightarrow> open_log db xs"
  obtains (failed) db' d where "write_two env a b db = (False, db')"
      "binlog_close db' = db\<lparr> db_disk := d, db_binlog := None \<rparr>"
      "\<And>p. p \<noteq> binlogPath db \<Longrightarrow> d p = db_disk db p"
    | (written) "write_two env a b db = (True, log_appended xs (a @ b) db)" "db_binlog db \<noteq> None"
proof (cases "db_binlog db = None")
  case True
  then show ?thesis
    using failed [of db "db_disk db"] by (simp add: write_two_def binlog_write_closed binlog_close_def)
next
  case False
  note w1 = binlog_write_open [OF assms [rule_format, OF False], of env a]
    and w2 = binlog_write_open [OF log_appended_fields(14), of env b xs a db]
  consider "\<not> ce_write_log env a" | "ce_write_log env a" "b = []"
    | "ce_write_log env a" "b \<noteq> []" "ce_write_log env b" | "ce_write_log env a" "b \<noteq> []" "\<not> ce_write_log env b"
    by blast
  then show ?thesis
  proof cases
    case 1
    let ?t = "log_torn xs (take (ce_written_log env a) a) db"
    from 1 show ?thesis
      using failed [of ?t "db_disk ?t"] by (simp add: write_two_def w1 binlog_close_def log_torn_def)
  next
    case 2
    then show ?thesis
      using written False by (simp add: write_two_def w1)
  next
    case 3
    then show ?thesis
      using written False by (simp add: write_two_def w1 w2)
  next
    case 4
    let ?t = "log_torn (xs @ a) (take (ce_written_log env b) b) (log_appended xs a db)"
    from 4 show ?thesis
      using failed [of ?t "db_disk ?t"]
      by (simp add: write_two_def w1 w2) (simp add: log_torn_def log_appended_def binlogPath_def binlog_close_def)
  qed
qed

section \<open>The invariant\<close>

definition queues_ok :: "cache_db \<Rightarrow> bool" where
  "queues_ok db \<longleftrightarrow> distinct (db_removing db) \<and>
     int (length (db_removing db)) < maxBundledRecords (db_settings db) \<and>
     int (length (db_accessed db)) < maxBundledRecords (db_settings db) \<and>
     (\<forall>k\<in>set (db_removing db). map_of (db_map db) k = None)"

text \<open>The clock fits the 32 bits it is kept in, and the relative time is far from its end.\<close>

definition clock_ok :: "cache_env \<Rightarrow> bool" where
  "clock_ok env \<longleftrightarrow> GetUnixtime env < 2 ^ 32"

definition time_ok :: "cache_env \<Rightarrow> cache_db \<Rightarrow> bool" where
  "time_ok env db \<longleftrightarrow>
     uint (getRelative (db_time db)) + max (GetUnixtime env - uint (tp_system (db_time db))) 0 < 2 ^ 63"

definition db_ok :: "cache_env \<Rightarrow> cache_db \<Rightarrow> bool" where
  "db_ok env db \<longleftrightarrow> core_ok db \<and> queues_ok db \<and> log_ok (set (db_removing db)) db \<and> time_ok env db"

definition untimed :: "cache_entry option \<Rightarrow> cache_entry option" where
  "untimed e = map_option (\<lambda>e. e\<lparr> en_use_time := 0 \<rparr>) e"

text \<open>Nothing changes but the queues, the log and the times.\<close>

definition quiet :: "cache_db \<Rightarrow> cache_db \<Rightarrow> bool" where
  "quiet db db' \<longleftrightarrow>
     db_base db' = db_base db \<and> db_path db' = db_path db \<and> db_settings db' = db_settings db \<and>
     db_key db' = db_key db \<and> db_stale db' = db_stale db \<and>
     (\<forall>p. p \<noteq> binlogPath db \<longrightarrow> db_disk db' p = db_disk db p) \<and>
     (\<forall>k. untimed (map_of (db_map db') k) = untimed (map_of (db_map db) k))"

lemma quiet_refl [simp]: "quiet db db"
  by (simp add: quiet_def)

lemma quiet_trans: "quiet a b \<Longrightarrow> quiet b c \<Longrightarrow> quiet a c"
  by (simp add: quiet_def binlogPath_def)

lemma quiet_dom: "quiet db db' \<Longrightarrow> map_of (db_map db') k = None \<longleftrightarrow> map_of (db_map db) k = None"
  by (metis (no_types, lifting) quiet_def untimed_def map_option_is_None)

lemma clock_word: "clock_ok env \<Longrightarrow> uint (word_of_int (GetUnixtime env) :: 32 word) = GetUnixtime env"
  by (simp add: clock_ok_def GetUnixtime_def uint_word_of_int_eq take_bit_int_eq_self max_def)

lemma uint_seconds_since:
  assumes "clock_ok env"
  shows "uint (seconds_since env db) = max (GetUnixtime env - uint (tp_system (db_time db))) 0"
proof -
  let ?n = "max (GetUnixtime env - uint (tp_system (db_time db))) 0"
  have "GetUnixtime env - uint (tp_system (db_time db)) < 2 ^ 32"
    using assms uint_ge_0 [of "tp_system (db_time db)"] unfolding clock_ok_def by linarith
  then have "?n < 2 ^ 64" "0 \<le> ?n"
    by auto
  then show ?thesis
    by (simp add: seconds_since_def uint_word_of_int_eq take_bit_int_eq_self)
qed

lemma countTimePoint_ok:
  assumes "clock_ok env" "time_ok env db"
  shows "uint (getRelative (countTimePoint env db)) =
      uint (getRelative (db_time db)) + max (GetUnixtime env - uint (tp_system (db_time db))) 0"
    "getRelative (db_time db) \<le> getRelative (countTimePoint env db)"
    "tp_system (countTimePoint env db) = word_of_int (GetUnixtime env)"
    "time_ok env (db\<lparr> db_time := countTimePoint env db \<rparr>)"
proof -
  have sum: "uint (getRelative (db_time db)) + uint (seconds_since env db) < 2 ^ 63"
    using assms by (simp add: uint_seconds_since time_ok_def)
  then have u: "uint (getRelative (db_time db) + seconds_since env db) =
      uint (getRelative (db_time db)) + uint (seconds_since env db)"
    by (subst uint_plus_simple_iff [symmetric]) (simp add: no_olen_add)
  then show 1: "uint (getRelative (countTimePoint env db)) =
      uint (getRelative (db_time db)) + max (GetUnixtime env - uint (tp_system (db_time db))) 0"
    using uint_seconds_since [OF assms(1)] by (simp add: countTimePoint_def)
  then show "getRelative (db_time db) \<le> getRelative (countTimePoint env db)"
    by (simp add: word_le_def)
  show sys: "tp_system (countTimePoint env db) = word_of_int (GetUnixtime env)"
    by (simp add: countTimePoint_def)
  show "time_ok env (db\<lparr> db_time := countTimePoint env db \<rparr>)"
    using 1 sys clock_word [OF assms(1)] assms(2) by (simp add: time_ok_def)
qed

section \<open>Writing the queues\<close>

lemma ReadTo_small: "int n < kBundledRecordsLimit \<Longrightarrow> ReadTo 3 (int n) = Inr (le_bytes 3 n)"
  by (simp add: ReadTo_def kBundledRecordsLimit_def read_to_loop_le_bytes)

lemma core_bundled: "core_ok db \<Longrightarrow> 0 < maxBundledRecords (db_settings db) \<and>
    maxBundledRecords (db_settings db) < kBundledRecordsLimit"
  by (simp add: core_ok_def checkSettings_def)

lemma log_for_append:
  assumes "log_says (db_settings db') xs (m, t)" "record_valid (db_settings db') r"
    "open_log db' (xs @ record_bytes r)" "time_says (db_settings db') (snd (replay r (m, t))) (getRelative (db_time db'))"
    "M = hidden R (fst (replay r (m, t)))"
  shows "log_for R M db'"
  using log_says_append [OF assms(1,2)] assms(3-5) unfolding log_for_def by (metis prod.collapse)

lemma log_forI:
  "open_log db xs \<Longrightarrow> log_says (db_settings db) xs (m, t) \<Longrightarrow> time_says (db_settings db) t (getRelative (db_time db)) \<Longrightarrow>
   M = hidden R m \<Longrightarrow> log_for R M db"
  unfolding log_for_def by blast

lemma log_for_closed [simp]: "log_for R M (binlog_close db)"
  by (simp add: log_for_def binlog_close_def)

lemma binlog_close_fields [simp]:
  "db_base (binlog_close db) = db_base db" "db_path (binlog_close db) = db_path db"
  "db_settings (binlog_close db) = db_settings db" "db_key (binlog_close db) = db_key db"
  "db_map (binlog_close db) = db_map db" "db_removing (binlog_close db) = db_removing db"
  "db_accessed (binlog_close db) = db_accessed db" "db_stale (binlog_close db) = db_stale db"
  "db_time (binlog_close db) = db_time db" "db_disk (binlog_close db) = db_disk db"
  "db_binlog (binlog_close db) = None" "core_ok (binlog_close db) = core_ok db"
  by (simp_all add: binlog_close_def core_ok_def)

lemma key_bytes_not_Nil [simp]: "key_bytes k \<noteq> []"
  using length_key_bytes [of k] by (metis list.size(3) zero_neq_numeral)

lemma writeMultiRemove_eq:
  assumes "db_removing db \<noteq> []" "int (length (db_removing db)) \<le> maxBundledRecords (db_settings db)"
    "int (length (db_removing db)) < kBundledRecordsLimit"
  shows "writeMultiRemove env db =
    (case write_two env (multi_head kMultiRemoveType (le_bytes 3 (length (db_removing db))))
        (concat (map key_bytes (db_removing db))) (db\<lparr> db_removing := [] \<rparr>) of (ok, db3) \<Rightarrow>
      Inr (if ok then (NoError, db3\<lparr> db_excess := db_excess db3 + 16 + 16 * int (length (db_removing db)) \<rparr>)
        else (ioError (binlogPath db3), binlog_close db3)))"
proof -
  have "concat (map key_bytes (db_removing db)) \<noteq> []"
    using assms(1) by (cases "db_removing db") simp_all
  then show ?thesis
    using assms by (simp add: writeMultiRemove_def MultiRemoveHead_def ReadTo_small write_two_def split: prod.split)
qed

lemma writeMultiAccessBlock_eq:
  assumes "trackEstimatedTime (db_settings db)" "int (length (db_accessed db)) \<le> maxBundledRecords (db_settings db)"
    "int (length (db_accessed db)) < kBundledRecordsLimit"
  shows "writeMultiAccessBlock env db =
    (case write_two env (kMultiAccessType # le_bytes 3 (length (db_accessed db)) @ time_bytes (countTimePoint env db))
        (concat (map key_bytes (db_accessed db)))
        (fold (set_use_time (getRelative (countTimePoint env db))) (db_accessed db)
          (db\<lparr> db_accessed := [], db_time := countTimePoint env db \<rparr>)) of (ok, db3) \<Rightarrow>
      Inr (if ok then (NoError, db3\<lparr> db_excess := db_excess db3 + 16 + 16 * int (length (db_accessed db)) \<rparr>)
        else (ioError (binlogPath db3), binlog_close db3)))"
proof -
  have "(concat (map key_bytes (db_accessed db)) = []) = (db_accessed db = [])"
    by (cases "db_accessed db") simp_all
  then show ?thesis
    using assms by (simp add: writeMultiAccessBlock_def MultiAccessHead_def ReadTo_small write_two_def Let_def split: prod.split)
qed

lemma writeMultiRemove_ok:
  assumes "core_ok db" "log_for (set (db_removing db)) M db"
    "int (length (db_removing db)) \<le> maxBundledRecords (db_settings db)"
  shows "ensures (writeMultiRemove env db) (\<lambda>(err, db'). quiet db db' \<and> core_ok db' \<and> log_for {} M db' \<and>
    db_removing db' = [] \<and> db_accessed db' = db_accessed db \<and> db_time db' = db_time db \<and> db_map db' = db_map db \<and>
    (if err_type err = Error_None then db_binlog db = None \<longleftrightarrow> db_binlog db' = None else db_binlog db' = None))"
proof (cases "db_removing db = []")
  case True
  then show ?thesis
    using assms by (simp add: writeMultiRemove_def NoError_def)
next
  case False
  let ?keys = "db_removing db" and ?db1 = "db\<lparr> db_removing := [] \<rparr>"
  let ?head = "multi_head kMultiRemoveType (le_bytes 3 (length ?keys))" and ?body = "concat (map key_bytes ?keys)"
  have small: "int (length ?keys) < kBundledRecordsLimit"
    using assms(1,3) core_bundled [of db] by linarith
  note eq = writeMultiRemove_eq [OF False assms(3) small, of env]
  have rec: "record_bytes (Log_multi_remove ?keys) = ?head @ ?body"
    by (simp add: record_bytes_def)
  have valid: "record_valid (db_settings ?db1) (Log_multi_remove ?keys)"
    using False small assms(3) by (simp add: record_valid_def record_ok_def parts_ok_def)
  obtain xs m t where log: "db_binlog db \<noteq> None \<longrightarrow> open_log db xs"
    "db_binlog db \<noteq> None \<longrightarrow> log_says (db_settings db) xs (m, t)"
    "db_binlog db \<noteq> None \<longrightarrow> time_says (db_settings db) t (getRelative (db_time db))"
    "db_binlog db \<noteq> None \<longrightarrow> M = hidden (set ?keys) m"
    using assms(2) by (rule log_for_cases)
  have "db_binlog ?db1 \<noteq> None \<longrightarrow> open_log ?db1 xs"
    using log(1) by (simp add: open_log_def binlogPath_def)
  then show ?thesis
  proof (cases rule: write_two_cases [where env = env and a = ?head and b = ?body])
    case (failed db' d)
    then show ?thesis
      using assms(1) unfolding eq by (simp add: ioError_def quiet_def binlogPath_def log_for_def)
  next
    case written
    let ?db2 = "log_appended xs (?head @ ?body) ?db1"
    have "db_binlog db \<noteq> None"
      using written(2) by simp
    note log = log [rule_format, OF this]
    have "log_for {} M (?db2\<lparr> db_excess := n \<rparr>)" for n
    proof (rule log_for_append)
      show "log_says (db_settings (?db2\<lparr> db_excess := n \<rparr>)) xs (m, t)"
        using log(2) by simp
      show "record_valid (db_settings (?db2\<lparr> db_excess := n \<rparr>)) (Log_multi_remove ?keys)"
        using valid by simp
    qed (use log(3,4) rec log_appended_fields(14) in \<open>auto simp: replay_def hidden_def open_log_def binlogPath_def\<close>)
    then show ?thesis
      using written assms(1) unfolding eq by (simp add: quiet_def NoError_def binlogPath_def)
  qed
qed

lemma untimed_touch: "untimed (touch_keys t ks m k) = untimed (m k)"
  by (cases "m k") (simp_all add: untimed_def touch_keys_def)

lemma touch_hidden: "touch_keys t ks (hidden R m) = hidden R (touch_keys t ks m)"
  by (simp add: touch_keys_def hidden_def fun_eq_iff)

lemma fold_set_use_time_ok:
  "core_ok db \<Longrightarrow> core_ok (fold (set_use_time t) keys db) \<and> same_outside db (fold (set_use_time t) keys db) \<and>
     map_of (db_map (fold (set_use_time t) keys db)) = touch_keys t (set keys) (map_of (db_map db)) \<and>
     db_excess (fold (set_use_time t) keys db) = db_excess db"
proof (induction keys arbitrary: db)
  case (Cons key keys)
  note one = set_use_time_ok [OF Cons.prems, of t key]
  note Cons.IH [OF one(1)]
  then show ?case
    using one by (auto simp: same_outside_def touch_keys_def fun_eq_iff option.map_comp comp_def)
qed (simp add: touch_keys_def)

lemma same_outside_log:
  assumes "same_outside a b"
  shows "open_log b xs = open_log a xs" "binlogPath b = binlogPath a" "time_ok env b = time_ok env a"
  using assms by (simp_all add: same_outside_def open_log_def binlogPath_def time_ok_def)

lemma same_outside_log_for: "same_outside a b \<Longrightarrow> log_for R M b = log_for R M a"
  unfolding log_for_def by (simp add: same_outside_log) (simp add: same_outside_def)

lemma writeMultiAccessBlock_ok:
  assumes "core_ok db" "log_ok R db" "trackEstimatedTime (db_settings db)" "clock_ok env" "time_ok env db"
    "int (length (db_accessed db)) \<le> maxBundledRecords (db_settings db)"
  shows "ensures (writeMultiAccessBlock env db) (\<lambda>(err, db'). quiet db db' \<and> core_ok db' \<and> log_ok R db' \<and>
    time_ok env db' \<and> db_removing db' = db_removing db \<and> db_accessed db' = [] \<and> db_time db' = countTimePoint env db \<and>
    map_of (db_map db') = touch_keys (getRelative (countTimePoint env db)) (set (db_accessed db)) (map_of (db_map db)) \<and>
    (if err_type err = Error_None then db_binlog db = None \<longleftrightarrow> db_binlog db' = None else db_binlog db' = None))"
proof -
  let ?keys = "db_accessed db" and ?time = "countTimePoint env db"
  let ?r = "Log_multi_access ?time ?keys"
  let ?head = "kMultiAccessType # le_bytes 3 (length ?keys) @ time_bytes ?time" and ?body = "concat (map key_bytes ?keys)"
  define db0 where "db0 = db\<lparr> db_accessed := [], db_time := ?time \<rparr>"
  define db1 where "db1 = fold (set_use_time (getRelative ?time)) ?keys db0"
  have small: "int (length ?keys) < kBundledRecordsLimit"
    using assms(1,6) core_bundled [of db] by linarith
  have "core_ok db0"
    using assms(1) by (simp add: db0_def)
  then have db1: "core_ok db1" "same_outside db0 db1"
    "map_of (db_map db1) = touch_keys (getRelative ?time) (set ?keys) (map_of (db_map db))"
    using fold_set_use_time_ok [of db0] by (simp_all add: db1_def) (simp_all add: db0_def)
  have fields: "db_base db1 = db_base db" "db_path db1 = db_path db" "db_settings db1 = db_settings db"
    "db_key db1 = db_key db" "db_disk db1 = db_disk db" "db_binlog db1 = db_binlog db"
    "db_removing db1 = db_removing db" "db_accessed db1 = []" "db_stale db1 = db_stale db" "db_time db1 = ?time"
    using db1(2) by (simp_all add: same_outside_def db0_def)
  note eq = writeMultiAccessBlock_eq [OF assms(3,6) small, of env, folded db0_def, folded db1_def]
  have rec: "record_bytes ?r = ?head @ ?body"
    by (simp add: record_bytes_def)
  have valid: "record_valid (db_settings db) ?r"
    using small assms(3,6) by (simp add: record_valid_def record_ok_def parts_ok_def)
  have time: "time_ok env (db2\<lparr> db_excess := n \<rparr>)" "time_ok env db2" if "db_time db2 = ?time" for db2 n
    using countTimePoint_ok(4) [OF assms(4,5)] that by (simp_all add: time_ok_def)
  obtain xs m t where log: "db_binlog db \<noteq> None \<longrightarrow> open_log db xs"
    "db_binlog db \<noteq> None \<longrightarrow> log_says (db_settings db) xs (m, t)"
    "db_binlog db \<noteq> None \<longrightarrow> time_says (db_settings db) t (getRelative (db_time db))"
    "db_binlog db \<noteq> None \<longrightarrow> map_of (db_map db) = hidden R m"
    using assms(2) by (rule log_for_cases)
  have "db_binlog db1 \<noteq> None \<longrightarrow> open_log db1 xs"
    using log(1) fields by (simp add: open_log_def binlogPath_def)
  then show ?thesis
  proof (cases rule: write_two_cases [where env = env and a = ?head and b = ?body])
    case (failed db' d)
    then show ?thesis
      using db1(1,3) time fields unfolding eq
      by (simp add: ioError_def quiet_def binlogPath_def log_for_def untimed_touch)
  next
    case written
    let ?db2 = "log_appended xs (?head @ ?body) db1"
    have "db_binlog db \<noteq> None"
      using written(2) fields by simp
    note log = log [rule_format, OF this]
    have "log_ok R (?db2\<lparr> db_excess := n \<rparr>)" for n
    proof (rule log_for_append)
      show "log_says (db_settings (?db2\<lparr> db_excess := n \<rparr>)) xs (m, t)"
        using log(2) fields by simp
      show "record_valid (db_settings (?db2\<lparr> db_excess := n \<rparr>)) ?r"
        using valid fields by simp
      show "time_says (db_settings (?db2\<lparr> db_excess := n \<rparr>)) (snd (replay ?r (m, t)))
          (getRelative (db_time (?db2\<lparr> db_excess := n \<rparr>)))"
        using countTimePoint_ok(2) [OF assms(4,5)] log(3) fields by (auto simp: replay_def time_says_def)
      show "map_of (db_map (?db2\<lparr> db_excess := n \<rparr>)) = hidden R (fst (replay ?r (m, t)))"
        using log(4) db1(3) by (simp add: replay_def touch_hidden)
    qed (use rec log_appended_fields(14) in \<open>auto simp: open_log_def binlogPath_def\<close>)
    then show ?thesis
      using written db1(1,3) time fields unfolding eq
      by (simp add: quiet_def NoError_def binlogPath_def untimed_touch)
  qed
qed

end
