(* ===== verification/Cache_Operations.thy ===== *)
theory Cache_Operations
  imports Cache_Log
begin

text \<open>
  The operations of the cache database keep its invariant \<open>db_ok\<close>, whatever the disk answers: no
  assertion fails, the counters are those of the entries, and the log, while it is open, says
  what the entries are. Each lemma also says what an operation does to the entries and to the
  files.
\<close>

section \<open>Fields that do not matter\<close>

lemma log_for_frame [simp]:
  "log_for R M (db\<lparr> db_removing := x0 \<rparr>) = log_for R M db"
  "log_for R M (db\<lparr> db_accessed := x1 \<rparr>) = log_for R M db"
  "log_for R M (db\<lparr> db_stale := x2 \<rparr>) = log_for R M db"
  "log_for R M (db\<lparr> db_excess := x3 \<rparr>) = log_for R M db"
  "log_for R M (db\<lparr> db_has_consumers := x4 \<rparr>) = log_for R M db"
  "log_for R M (db\<lparr> db_pushing_stats := x5 \<rparr>) = log_for R M db"
  "log_for R M (db\<lparr> db_clearing_stale := x6 \<rparr>) = log_for R M db"
  "log_for R M (db\<lparr> db_bundles_timer := x7 \<rparr>) = log_for R M db"
  "log_for R M (db\<lparr> db_prune_timer := x8 \<rparr>) = log_for R M db"
  "log_for R M (db\<lparr> db_cleaner := x9 \<rparr>) = log_for R M db"
  "log_for R M (db\<lparr> db_compactor := x10 \<rparr>) = log_for R M db"
  "log_for R M (db\<lparr> db_events := x11 \<rparr>) = log_for R M db"
  "log_for R M (db\<lparr> db_map := x12 \<rparr>) = log_for R M db"
  by (simp_all add: log_for_def open_log_def binlogPath_def)

lemma time_ok_frame [simp]:
  "time_ok env (db\<lparr> db_removing := x0 \<rparr>) = time_ok env db"
  "time_ok env (db\<lparr> db_accessed := x1 \<rparr>) = time_ok env db"
  "time_ok env (db\<lparr> db_stale := x2 \<rparr>) = time_ok env db"
  "time_ok env (db\<lparr> db_excess := x3 \<rparr>) = time_ok env db"
  "time_ok env (db\<lparr> db_has_consumers := x4 \<rparr>) = time_ok env db"
  "time_ok env (db\<lparr> db_pushing_stats := x5 \<rparr>) = time_ok env db"
  "time_ok env (db\<lparr> db_clearing_stale := x6 \<rparr>) = time_ok env db"
  "time_ok env (db\<lparr> db_bundles_timer := x7 \<rparr>) = time_ok env db"
  "time_ok env (db\<lparr> db_prune_timer := x8 \<rparr>) = time_ok env db"
  "time_ok env (db\<lparr> db_cleaner := x9 \<rparr>) = time_ok env db"
  "time_ok env (db\<lparr> db_compactor := x10 \<rparr>) = time_ok env db"
  "time_ok env (db\<lparr> db_events := x11 \<rparr>) = time_ok env db"
  "time_ok env (db\<lparr> db_map := x12 \<rparr>) = time_ok env db"
  "time_ok env (db\<lparr> db_disk := x13 \<rparr>) = time_ok env db"
  "time_ok env (db\<lparr> db_binlog := x14 \<rparr>) = time_ok env db"
  by (simp_all add: time_ok_def)

lemma queues_ok_frame [simp]:
  "queues_ok (db\<lparr> db_stale := x0 \<rparr>) = queues_ok db"
  "queues_ok (db\<lparr> db_excess := x1 \<rparr>) = queues_ok db"
  "queues_ok (db\<lparr> db_has_consumers := x2 \<rparr>) = queues_ok db"
  "queues_ok (db\<lparr> db_pushing_stats := x3 \<rparr>) = queues_ok db"
  "queues_ok (db\<lparr> db_clearing_stale := x4 \<rparr>) = queues_ok db"
  "queues_ok (db\<lparr> db_bundles_timer := x5 \<rparr>) = queues_ok db"
  "queues_ok (db\<lparr> db_prune_timer := x6 \<rparr>) = queues_ok db"
  "queues_ok (db\<lparr> db_cleaner := x7 \<rparr>) = queues_ok db"
  "queues_ok (db\<lparr> db_compactor := x8 \<rparr>) = queues_ok db"
  "queues_ok (db\<lparr> db_events := x9 \<rparr>) = queues_ok db"
  "queues_ok (db\<lparr> db_disk := x10 \<rparr>) = queues_ok db"
  "queues_ok (db\<lparr> db_binlog := x11 \<rparr>) = queues_ok db"
  "queues_ok (db\<lparr> db_time := x12 \<rparr>) = queues_ok db"
  by (simp_all add: queues_ok_def)

lemma db_ok_frame [simp]:
  "db_ok env (db\<lparr> db_stale := x0 \<rparr>) = db_ok env db"
  "db_ok env (db\<lparr> db_excess := x1 \<rparr>) = db_ok env db"
  "db_ok env (db\<lparr> db_has_consumers := x2 \<rparr>) = db_ok env db"
  "db_ok env (db\<lparr> db_pushing_stats := x3 \<rparr>) = db_ok env db"
  "db_ok env (db\<lparr> db_clearing_stale := x4 \<rparr>) = db_ok env db"
  "db_ok env (db\<lparr> db_bundles_timer := x5 \<rparr>) = db_ok env db"
  "db_ok env (db\<lparr> db_prune_timer := x6 \<rparr>) = db_ok env db"
  "db_ok env (db\<lparr> db_cleaner := x7 \<rparr>) = db_ok env db"
  "db_ok env (db\<lparr> db_compactor := x8 \<rparr>) = db_ok env db"
  "db_ok env (db\<lparr> db_events := x9 \<rparr>) = db_ok env db"
  by (simp_all add: db_ok_def)

lemma quiet_frame [simp]:
  "quiet db (db'\<lparr> db_removing := x0 \<rparr>) = quiet db db'"
  "quiet db (db'\<lparr> db_accessed := x1 \<rparr>) = quiet db db'"
  "quiet db (db'\<lparr> db_excess := x2 \<rparr>) = quiet db db'"
  "quiet db (db'\<lparr> db_has_consumers := x3 \<rparr>) = quiet db db'"
  "quiet db (db'\<lparr> db_pushing_stats := x4 \<rparr>) = quiet db db'"
  "quiet db (db'\<lparr> db_clearing_stale := x5 \<rparr>) = quiet db db'"
  "quiet db (db'\<lparr> db_bundles_timer := x6 \<rparr>) = quiet db db'"
  "quiet db (db'\<lparr> db_prune_timer := x7 \<rparr>) = quiet db db'"
  "quiet db (db'\<lparr> db_cleaner := x8 \<rparr>) = quiet db db'"
  "quiet db (db'\<lparr> db_compactor := x9 \<rparr>) = quiet db db'"
  "quiet db (db'\<lparr> db_events := x10 \<rparr>) = quiet db db'"
  by (simp_all add: quiet_def)

section \<open>Timers and the compactor\<close>

definition only_timers :: "cache_db \<Rightarrow> cache_db \<Rightarrow> bool" where
  "only_timers db db' \<longleftrightarrow>
     db_base db' = db_base db \<and> db_path db' = db_path db \<and> db_settings db' = db_settings db \<and>
     db_key db' = db_key db \<and> db_disk db' = db_disk db \<and> db_binlog db' = db_binlog db \<and>
     db_map db' = db_map db \<and> db_removing db' = db_removing db \<and> db_accessed db' = db_accessed db \<and>
     db_stale db' = db_stale db \<and> db_time db' = db_time db \<and> db_excess db' = db_excess db \<and>
     db_total_size db' = db_total_size db \<and> db_minimal_time db' = db_minimal_time db \<and> db_minimal_count db' = db_minimal_count db \<and>
     db_tagged db' = db_tagged db \<and> db_has_consumers db' = db_has_consumers db \<and> db_pushing_stats db' = db_pushing_stats db \<and>
     db_clearing_stale db' = db_clearing_stale db \<and> db_bundles_timer db' = db_bundles_timer db \<and> db_cleaner db' = db_cleaner db"

lemma only_timers_refl [simp]: "only_timers db db"
  by (simp add: only_timers_def)

lemma only_timers_trans: "only_timers a b \<Longrightarrow> only_timers b c \<Longrightarrow> only_timers a c"
  by (simp add: only_timers_def)

lemma only_timers_ok:
  assumes "only_timers db db'"
  shows "db_ok env db' = db_ok env db" "quiet db db'"
proof -
  have "log_for R M db' = log_for R M db" for R M
    using assms by (simp add: only_timers_def log_for_def open_log_def binlogPath_def)
  then show "db_ok env db' = db_ok env db"
    using assms by (simp add: only_timers_def db_ok_def core_ok_def queues_ok_def time_ok_def)
  show "quiet db db'"
    using assms by (simp add: only_timers_def quiet_def)
qed

lemma only_timers_compactor: "only_timers db (checkCompactor env db)"
  by (simp add: checkCompactor_def Let_def only_timers_def)

lemma startDelayedPruning_ok:
  "ensures (startDelayedPruning env db) (\<lambda>(started, db'). only_timers db db')"
  by (auto simp: startDelayedPruning_def Let_def only_timers_def)

lemma optimize_ok: "ensures (optimize env db) (only_timers db)"
  using startDelayedPruning_ok [of env db]
  by (auto simp: optimize_def intro: only_timers_trans [OF _ only_timers_compactor] elim!: ensures_mono)

lemma optimize_quiet:
  assumes "db_ok env db" "quiet a db"
  shows "ensures (optimize env db) (\<lambda>db'. quiet a db' \<and> db_ok env db')"
proof (rule ensures_mono [OF optimize_ok])
  fix db'
  assume "only_timers db db'"
  note frame = only_timers_ok [OF this]
  show "quiet a db' \<and> db_ok env db'"
    using quiet_trans [OF assms(2) frame(2)] assms(1) frame(1) by simp
qed

section \<open>Access\<close>

lemma insort_distinct: "distinct xs \<Longrightarrow> distinct (List.insort_insert x xs)"
  by (simp add: distinct_insort_insert)

lemma insort_length: "length (List.insort_insert x xs) \<le> Suc (length xs)"
  by (simp add: insort_insert_key_def)

lemma writeMultiAccessLazy_ok:
  assumes "core_ok db" "log_ok (set (db_removing db)) db" "clock_ok env" "time_ok env db"
    "trackEstimatedTime (db_settings db)" "distinct (db_removing db)"
    "int (length (db_removing db)) < maxBundledRecords (db_settings db)"
    "\<forall>k\<in>set (db_removing db). map_of (db_map db) k = None"
    "int (length (db_accessed db)) \<le> maxBundledRecords (db_settings db)"
  shows "ensures (writeMultiAccessLazy env db) (\<lambda>db'. quiet db db' \<and> db_ok env db' \<and> db_removing db' = db_removing db)"
proof (cases "int (length (db_accessed db)) = maxBundledRecords (db_settings db)")
  case True
  have pos: "db_accessed db \<noteq> []" "0 < maxBundledRecords (db_settings db)"
    using core_bundled [OF assms(1)] True by auto
  obtain err db' where step: "writeMultiAccessBlock env db = Inr (err, db')"
    and facts: "quiet db db'" "core_ok db'" "log_ok (set (db_removing db)) db'" "time_ok env db'"
      "db_removing db' = db_removing db" "db_accessed db' = []"
      "map_of (db_map db') = touch_keys (getRelative (countTimePoint env db)) (set (db_accessed db)) (map_of (db_map db))"
    using writeMultiAccessBlock_ok [OF assms(1,2,5,3,4,9)] by (auto elim!: ensuresE)
  have "db_settings db' = db_settings db" "\<forall>k\<in>set (db_removing db). map_of (db_map db') k = None"
    using facts(1,7) assms(8) by (simp_all add: quiet_def touch_keys_def)
  then show ?thesis
    using True step pos facts assms(6,7)
    by (simp add: writeMultiAccessLazy_def writeMultiAccess_def db_ok_def queues_ok_def)
next
  case False
  then show ?thesis
    using assms by (simp add: writeMultiAccessLazy_def writeBundlesLazy_def db_ok_def queues_ok_def)
qed

lemma db_okD:
  assumes "db_ok env db"
  shows "core_ok db" "log_ok (set (db_removing db)) db" "time_ok env db" "distinct (db_removing db)"
    "int (length (db_removing db)) < maxBundledRecords (db_settings db)"
    "int (length (db_accessed db)) < maxBundledRecords (db_settings db)"
    "\<forall>k\<in>set (db_removing db). map_of (db_map db) k = None" "queues_ok db"
  using assms by (simp_all add: db_ok_def queues_ok_def)

lemma recordEntryAccess_ok:
  assumes "db_ok env db" "clock_ok env"
  shows "ensures (recordEntryAccess env key db) (\<lambda>db'. quiet db db' \<and> db_ok env db')"
proof (cases "trackEstimatedTime (db_settings db)")
  case False
  then show ?thesis
    using assms by (simp add: recordEntryAccess_def)
next
  case True
  note ok = db_okD [OF assms(1)]
  let ?db1 = "db\<lparr> db_accessed := List.insort_insert key (db_accessed db) \<rparr>"
  have "int (length (db_accessed ?db1)) \<le> maxBundledRecords (db_settings db)"
    using ok(6) insort_length [of key "db_accessed db"] by simp
  then have "ensures (writeMultiAccessLazy env ?db1)
      (\<lambda>db'. quiet ?db1 db' \<and> db_ok env db' \<and> db_removing db' = db_removing ?db1)"
    using ok True assms(2) by (intro writeMultiAccessLazy_ok) simp_all
  then obtain db2 where step: "writeMultiAccessLazy env ?db1 = Inr db2" and db2: "quiet ?db1 db2" "db_ok env db2"
    by (auto elim!: ensuresE)
  have "quiet db db2"
    using db2(1) quiet_trans [of db ?db1 db2] by simp
  then show ?thesis
    using True step optimize_quiet [OF db2(2)] by (simp add: recordEntryAccess_def)
qed

section \<open>Removing\<close>

lemma PlaceFromId_not_log: "PlaceFromId place \<noteq> BinlogFilename"
proof (cases place)
  case (Cons b bs)
  then have "length (PlaceFromId place) \<noteq> length BinlogFilename \<or> PlaceFromId place ! 2 = CHR ''/''"
    by (simp add: PlaceFromId_def push_hex_def upt_conv_Cons)
  then show ?thesis
    by (auto simp: BinlogFilename_def)
qed (simp add: PlaceFromId_def BinlogFilename_def)

lemma hex_digit_inj: "a < 16 \<Longrightarrow> b < 16 \<Longrightarrow> hex_digit a = hex_digit b \<Longrightarrow> a = b"
proof -
  assume "a < 16" "b < 16" "hex_digit a = hex_digit b"
  then have u: "unat a < 16" "unat b < 16"
    by (simp_all add: word_less_nat_alt)
  have "hex_digit x = char_of (if unat x < 10 then 48 + unat x else 55 + unat x)" for x :: byte
    by (auto simp: hex_digit_def word_less_nat_alt)
  then have "(of_char (char_of (if unat a < 10 then 48 + unat a else 55 + unat a)) :: nat) =
      of_char (char_of (if unat b < 10 then 48 + unat b else 55 + unat b))"
    using \<open>hex_digit a = hex_digit b\<close> by simp
  then have "(if unat a < 10 then 48 + unat a else 55 + unat a) mod 256 =
      (if unat b < 10 then 48 + unat b else 55 + unat b) mod 256"
    by (simp only: of_char_of)
  then have "unat a = unat b"
    using u by (auto split: if_splits)
  then show "a = b"
    by (simp add: word_unat_eq_iff)
qed

lemma push_hex_inj: "push_hex a = push_hex b \<Longrightarrow> a = b"
proof -
  assume eq: "push_hex a = push_hex b"
  have "x AND 0x0F < 16" "drop_bit 4 x < 16" for x :: byte
  proof -
    have "x AND 0x0F = take_bit 4 x"
      by (simp add: take_bit_eq_mask mask_eq_exp_minus_1)
    then have "unat (x AND 0x0F) = unat x mod 16"
      by (simp only: unsigned_take_bit_eq) (simp add: take_bit_eq_mod)
    then show "x AND 0x0F < 16"
      by (simp add: word_less_nat_alt)
    have "unat x < 256"
      using unsigned_less [where 'a = nat and w = x] by simp
    then have "unat x div 16 < 16"
      by linarith
    then show "drop_bit 4 x < 16"
      by (simp add: word_less_nat_alt drop_bit_eq_div unat_div)
  qed
  then have parts: "a AND 0x0F = b AND 0x0F" "drop_bit 4 a = drop_bit 4 b"
    using eq by (auto simp: push_hex_def intro: hex_digit_inj)
  have "(0x0F :: byte) = mask 4"
    by (simp add: mask_eq_exp_minus_1)
  then have "take_bit 4 a = take_bit 4 b"
    using parts(1) by (simp add: take_bit_eq_mask)
  then show "a = b"
    using parts(2) by (metis bits_ident)
qed

lemma PlaceFromId_Cons: "PlaceFromId (b # bs) = push_hex b @ ''/'' @ concat (map push_hex bs)"
proof -
  have "[0..<Suc (length bs)] = 0 # map Suc [0..<length bs]"
    by (simp add: upt_conv_Cons map_Suc_upt del: upt_Suc)
  then have "PlaceFromId (b # bs) = push_hex b @ ''/'' @ concat (map (\<lambda>i. push_hex (bs ! i)) [0..<length bs])"
    by (simp add: PlaceFromId_def comp_def del: upt_Suc)
  also have "map (\<lambda>i. push_hex (bs ! i)) [0..<length bs] = map push_hex bs"
    by (rule nth_equalityI) simp_all
  finally show ?thesis .
qed

lemma concat_push_hex_inj:
  "length as = length bs \<Longrightarrow> concat (map push_hex as) = concat (map push_hex bs) \<Longrightarrow> as = bs"
proof (induction as bs rule: list_induct2)
  case (Cons a as b bs)
  then show ?case
    using push_hex_inj [of a b] by (simp add: push_hex_def)
qed simp

lemma placePath_inj:
  assumes "length as = 7" "length bs = 7" "placePath as db = placePath bs db"
  shows "as = bs"
proof -
  obtain a as' b bs' where lists: "as = a # as'" "bs = b # bs'"
    using assms(1,2) by (cases as; cases bs) simp_all
  then show ?thesis
    using assms push_hex_inj [of a b] concat_push_hex_inj [of as' bs']
    by (simp add: placePath_def PlaceFromId_Cons push_hex_def)
qed

lemma placePath_not_log [simp]: "placePath place db \<noteq> binlogPath db" "binlogPath db \<noteq> placePath place db"
  using PlaceFromId_not_log [of place] by (auto simp: placePath_def binlogPath_def)

definition removed_key :: "cache_key \<Rightarrow> cache_db \<Rightarrow> cache_db \<Rightarrow> bool" where
  "removed_key key db db' \<longleftrightarrow>
     db_base db' = db_base db \<and> db_path db' = db_path db \<and> db_settings db' = db_settings db \<and>
     db_key db' = db_key db \<and> db_stale db' = db_stale db \<and>
     (\<forall>p. p \<noteq> binlogPath db \<and> (\<forall>e. map_of (db_map db) key = Some e \<longrightarrow> p \<noteq> placePath (en_place e) db) \<longrightarrow>
        db_disk db' p = db_disk db p) \<and>
     (\<forall>k. untimed (map_of (db_map db') k) = (if k = key then None else untimed (map_of (db_map db) k)))"

lemma log_for_disk:
  assumes "p \<noteq> binlogPath db"
  shows "log_for R M (db\<lparr> db_disk := (db_disk db)(p := x) \<rparr>) = log_for R M db"
  using assms by (simp add: log_for_def open_log_def binlogPath_def)

lemma writeMultiRemoveLazy_ok:
  assumes "core_ok db" "log_for (set (db_removing db)) M db"
    "int (length (db_removing db)) \<le> maxBundledRecords (db_settings db)"
  shows "ensures (writeMultiRemoveLazy env db) (\<lambda>db'. quiet db db' \<and> core_ok db' \<and> log_for (set (db_removing db')) M db' \<and>
    (db_removing db' = [] \<or> db_removing db' = db_removing db) \<and>
    int (length (db_removing db')) < maxBundledRecords (db_settings db) \<and>
    db_accessed db' = db_accessed db \<and> db_time db' = db_time db \<and> db_map db' = db_map db)"
proof (cases "int (length (db_removing db)) = maxBundledRecords (db_settings db)")
  case True
  then show ?thesis
    using ensures_mono [OF writeMultiRemove_ok [OF assms, of env]] core_bundled [OF assms(1)]
    by (auto simp: writeMultiRemoveLazy_def elim!: ensures_mono ensuresE)
next
  case False
  then show ?thesis
    using assms by (simp add: writeMultiRemoveLazy_def writeBundlesLazy_def)
qed

lemma hidden_insert: "hidden (insert k R) m = (hidden R m)(k := None)"
  by (auto simp: hidden_def fun_eq_iff)

lemma db_remove_ok:
  assumes "db_ok env db"
  shows "ensures (db_remove env key db) (\<lambda>(err, db'). db_ok env db' \<and> removed_key key db db')"
proof (cases "map_of (db_map db) key")
  case None
  then show ?thesis
    using assms by (simp add: db_remove_def map_entry_def removed_key_def untimed_def)
next
  case (Some entry)
  note ok = db_okD [OF assms]
  let ?db0 = "db\<lparr> db_removing := List.insort_insert key (db_removing db) \<rparr>"
  let ?M = "(map_of (db_map db))(key := None)"
  have "log_for (insert key (set (db_removing db))) ?M db"
    using ok(2) unfolding log_for_def hidden_insert by metis
  then have "log_for (set (db_removing ?db0)) ?M ?db0"
    by (simp add: set_insort_insert)
  moreover have "int (length (db_removing ?db0)) \<le> maxBundledRecords (db_settings db)"
    using ok(5) insort_length [of key "db_removing db"] by simp
  moreover have "core_ok ?db0"
    using ok(1) by simp
  ultimately obtain db1 where step1: "writeMultiRemoveLazy env ?db0 = Inr db1"
    and db1: "quiet ?db0 db1" "core_ok db1" "log_for (set (db_removing db1)) ?M db1"
      "db_removing db1 = [] \<or> db_removing db1 = List.insort_insert key (db_removing db)"
      "int (length (db_removing db1)) < maxBundledRecords (db_settings db)"
      "db_accessed db1 = db_accessed db" "db_time db1 = db_time db" "db_map db1 = db_map db"
    using writeMultiRemoveLazy_ok [of ?db0 ?M env] by (auto elim!: ensuresE)
  obtain db2 where step2: "eraseMapEntry key db1 = Inr db2"
    and db2: "core_ok db2" "same_outside db1 db2" "map_of (db_map db2) = ?M"
    using eraseMapEntry_ok [OF db1(2), of key] db1(8) by (auto elim!: ensuresE)
  have "log_ok (set (db_removing db2)) db2" "db_settings db2 = db_settings db" "db_path db2 = db_path db"
    "db_removing db2 = db_removing db1" "db_accessed db2 = db_accessed db"
    using db1 db2 same_outside_log_for [OF db2(2)] by (simp_all add: same_outside_def quiet_def)
  then have ok2: "db_ok env db2"
    using db1 db2 ok same_outside_log(3) [OF db2(2), of env]
    by (auto simp: db_ok_def queues_ok_def time_ok_def insort_distinct set_insort_insert)
  have path: "placePath (en_place entry) db1 = placePath (en_place entry) db"
    using db1(1) by (simp add: placePath_def quiet_def)
  define path1 where "path1 = placePath (en_place entry) db"
  have not_log: "path1 \<noteq> binlogPath db2"
    using \<open>db_path db2 = db_path db\<close> placePath_not_log(1) [of "en_place entry" db2] by (simp add: path1_def placePath_def)
  have "removed_key key db db2"
    using db1 db2 by (auto simp: removed_key_def same_outside_def quiet_def binlogPath_def untimed_def)
  then have "removed_key key db (db2\<lparr> db_disk := (db_disk db2)(path1 := x) \<rparr>)" for x
    using Some by (simp add: removed_key_def path1_def)
  moreover have "db_ok env (db2\<lparr> db_disk := (db_disk db2)(path1 := x) \<rparr>)" for x
    using ok2 log_for_disk [OF not_log] by (simp add: db_ok_def)
  ultimately show ?thesis
    using Some ok2 \<open>removed_key key db db2\<close>
    by (simp add: db_remove_def map_entry_def step1 step2 path remove_file_def flip: path1_def)
qed

section \<open>Storing\<close>

text \<open>A record with no time where times are not kept, and otherwise with a time the code gives it.\<close>

definition stamp_ok :: "cache_env \<Rightarrow> cache_db \<Rightarrow> time_point option \<Rightarrow> bool" where
  "stamp_ok env db t \<longleftrightarrow>
     (if trackEstimatedTime (db_settings db) then t = Some (db_time db) \<or> t = Some (countTimePoint env db)
      else t = None)"

lemma time_for_record_ok:
  assumes "clock_ok env" "time_ok env db"
  shows "ensures (time_for_record env db) (stamp_ok env db)"
  using countTimePoint_ok(2) [OF assms] by (simp add: time_for_record_def stamp_ok_def Let_def)

lemma stamp_time_ok:
  assumes "clock_ok env" "time_ok env db" "stamp_ok env db (sr_time r)"
  shows "time_ok env (db'\<lparr> db_time := record_time r db \<rparr>)"
  using assms countTimePoint_ok(4) [OF assms(1,2)]
  by (auto simp: stamp_ok_def record_time_def applyTimePoint_def time_ok_def split: if_splits)

definition stored_key :: "cache_key \<Rightarrow> cache_entry \<Rightarrow> cache_db \<Rightarrow> cache_db \<Rightarrow> bool" where
  "stored_key key e db db' \<longleftrightarrow>
     db_base db' = db_base db \<and> db_path db' = db_path db \<and> db_settings db' = db_settings db \<and>
     db_key db' = db_key db \<and> db_stale db' = db_stale db \<and> db_removing db' = db_removing db \<and> db_binlog db' \<noteq> None \<and>
     (\<forall>p. p \<noteq> binlogPath db \<longrightarrow> db_disk db' p = db_disk db p) \<and>
     (\<forall>k. untimed (map_of (db_map db') k) = (if k = key then untimed (Some e) else untimed (map_of (db_map db) k)))"

text \<open>The record is not written; the log is closed.\<close>

definition kept_queues :: "cache_env \<Rightarrow> cache_db \<Rightarrow> cache_db \<Rightarrow> bool" where
  "kept_queues env db db' \<longleftrightarrow> core_ok db' \<and> log_ok (set (db_removing db)) db' \<and> time_ok env db' \<and>
     db_accessed db' = db_accessed db \<and> db_removing db' = db_removing db"

definition log_lost :: "cache_env \<Rightarrow> cache_db \<Rightarrow> cache_db \<Rightarrow> bool" where
  "log_lost env db db' \<longleftrightarrow> quiet db db' \<and> db_map db' = db_map db \<and> db_binlog db' = None \<and>
     (db_binlog db = None \<or> (\<exists>ys. \<not> ce_write_log env ys))"

lemma write_store_ok:
  assumes "core_ok db" "log_ok R db" "clock_ok env" "time_ok env db"
    "store_valid (db_settings db) r" "length (sr_size r) = 3" "stamp_ok env db (sr_time r)"
    "R - {sr_key r} = set (db_removing db)"
  shows "ensures (write_store env r db) (\<lambda>(success, db'). kept_queues env db db' \<and>
    (if success then stored_key (sr_key r) (store_entry 0 r) db db' else log_lost env db db'))"
proof -
  let ?ys = "store_bytes r" and ?key = "sr_key r"
  obtain xs m t where log: "db_binlog db \<noteq> None \<longrightarrow> open_log db xs"
    "db_binlog db \<noteq> None \<longrightarrow> log_says (db_settings db) xs (m, t)"
    "db_binlog db \<noteq> None \<longrightarrow> time_says (db_settings db) t (getRelative (db_time db))"
    "db_binlog db \<noteq> None \<longrightarrow> map_of (db_map db) = hidden R m"
    using assms(2) by (rule log_for_cases)
  consider "db_binlog db = None \<or> \<not> ce_write_log env ?ys" | "db_binlog db \<noteq> None" "ce_write_log env ?ys"
    by blast
  then show ?thesis
  proof cases
    case 1
    then obtain d where d: "binlog_write env ?ys db = (False, db\<lparr> db_disk := d \<rparr>)"
      "\<And>p. p \<noteq> binlogPath db \<Longrightarrow> d p = db_disk db p"
      using binlog_write_fails [OF log(1)] by metis
    let ?db0 = "binlog_close (db\<lparr> db_disk := d \<rparr>)"
    have "quiet db ?db0" "time_ok env ?db0"
      using assms(4) d(2) by (simp_all add: quiet_def time_ok_def binlog_close_def)
    moreover have "log_ok (set (db_removing db)) ?db0" "core_ok ?db0"
      using assms(1) by (simp_all add: binlog_close_def log_for_def core_ok_def)
    ultimately show ?thesis
      using 1 d(1) by (auto simp: write_store_def kept_queues_def log_lost_def binlog_close_def)
  next
    case 2
    note log = log [rule_format, OF 2(1)]
    let ?db1 = "log_appended xs ?ys db"
    have written: "binlog_write env ?ys db = (True, ?db1)"
      using binlog_write_open [OF log(1)] 2(2) by simp
    have valid: "record_valid (db_settings db) (Log_store r)"
      using assms(5-7) by (auto simp: record_valid_def record_ok_def store_ok_def store_valid_def stamp_ok_def split: if_splits)
    obtain db2 where step: "processRecordStore r ?db1 = Inr (True, db2)"
      and db2: "applies ?db1 db2" "view_of db2 = replay_store r (view_of ?db1)" "db_time db2 = record_time r ?db1"
      using processRecordStore_ok [of ?db1 r] assms(1,5) by (auto elim!: ensures_okE)
    have fields: "db_settings db2 = db_settings db" "binlogPath db2 = binlogPath db" "open_log db2 (xs @ ?ys)"
      "db_removing db2 = db_removing db" "db_accessed db2 = db_accessed db" "db_time db2 = record_time r db" "core_ok db2"
      using db2(1,3) log_appended_fields(14) [of xs ?ys db]
      by (auto simp: applies_def same_outside_def binlogPath_def open_log_def record_time_def applyTimePoint_def
          split: option.split)
    have map2: "map_of (db_map db2) = (map_of (db_map db))(?key \<mapsto> store_entry (getRelative (db_time db)) r)"
      using arg_cong [OF db2(2), of fst] by (simp add: view_of_def replay_store_def)
    have "log_ok (set (db_removing db)) db2"
    proof (rule log_for_append)
      show "log_says (db_settings db2) xs (m, t)" "record_valid (db_settings db2) (Log_store r)"
        using log(2) valid fields by simp_all
      show "open_log db2 (xs @ record_bytes (Log_store r))"
        using fields by (simp add: record_bytes_def)
      show "time_says (db_settings db2) (snd (replay (Log_store r) (m, t))) (getRelative (db_time db2))"
        using arg_cong [OF db2(2), of snd] log(3) fields(1) assms(7)
        by (auto simp: view_of_def replay_def replay_store_def time_says_def stamp_ok_def max_def split: option.splits if_splits)
      show "map_of (db_map db2) = hidden (set (db_removing db)) (fst (replay (Log_store r) (m, t)))"
        using map2 log(3,4) assms(7,8)
        by (auto simp: replay_def replay_store_def hidden_def fun_eq_iff store_entry_def time_says_def stamp_ok_def
            split: option.splits if_splits)
    qed
    moreover have "time_ok env db2"
      using stamp_time_ok [OF assms(3,4,7), of db2] fields by (simp add: time_ok_def)
    moreover have "db_binlog db2 \<noteq> None"
      using fields(3) by (simp add: open_log_def)
    then have "stored_key ?key (store_entry 0 r) db db2"
      using db2(1) fields map2 by (auto simp: stored_key_def applies_def same_outside_def untimed_def store_entry_def
          binlogPath_def)
    ultimately show ?thesis
      using written step fields by (simp add: write_store_def kept_queues_def)
  qed
qed

section \<open>Reading the files\<close>

text \<open>What the files give, with the disk at work.\<close>

definition file_value :: "bytes \<Rightarrow> int \<Rightarrow> cache_db \<Rightarrow> bytes" where
  "file_value place n db =
     (case db_disk db (placePath place db) of
        None \<Rightarrow> []
      | Some content \<Rightarrow>
          let got = fst (plain_read_padded (nat n) \<lparr> pf_data = content, pf_offset = 0 \<rparr>)
          in if int (length got) \<noteq> n then [] else got)"

text \<open>Reading takes no lock, writing does not look at the old contents.\<close>

definition env_ok :: "cache_env \<Rightarrow> bool" where
  "env_ok env \<longleftrightarrow> clock_ok env \<and> (\<forall>p. ce_open env p Mode_Read \<noteq> Result_LockFailed) \<and>
     (\<forall>p. ce_open env p Mode_Write \<noteq> Result_WrongKey) \<and> (\<forall>place\<in>set (ce_places env). length place = 7)"

definition room :: "cache_env \<Rightarrow> cache_db \<Rightarrow> bool" where
  "room env db \<longleftrightarrow> (\<exists>place\<in>set (ce_places env). isFreePlace place db)"

lemma readValueData_ok:
  assumes "env_ok env"
  shows "ensures (readValueData env place n db) (\<lambda>xs. xs = [] \<or> xs = file_value place n db)"
  using assms by (auto simp: readValueData_def env_ok_def file_value_def Let_def split: option.split file_result.split)

lemma readValueData_works:
  "ce_open env (placePath place db) Mode_Read = Result_Success \<Longrightarrow> readValueData env place n db = Inr (file_value place n db)"
  by (simp add: readValueData_def file_value_def Let_def split: option.split)

lemma placePath_not_Nil: "length place = 7 \<Longrightarrow> placePath place db \<noteq> ''''"
  by (cases place) (simp_all add: placePath_def PlaceFromId_Cons)

section \<open>Putting\<close>

text \<open>What \<open>writeKeyPlaceGeneric\<close> has done: nothing, or the log could not be written, or the entry is stored.\<close>

definition value_entry :: "tagged_value \<Rightarrow> 32 word \<Rightarrow> bytes \<Rightarrow> cache_entry" where
  "value_entry v checksum place = \<lparr> en_use_time = 0, en_size = int (length (tv_bytes v)), en_checksum = checksum,
     en_place = place, en_tag = tv_tag v \<rparr>"

definition good_place :: "cache_key \<Rightarrow> bytes \<Rightarrow> cache_db \<Rightarrow> bool" where
  "good_place key place db \<longleftrightarrow> length place = 7 \<and>
     (case map_of (db_map db) key of None \<Rightarrow> isFreePlace place db | Some e \<Rightarrow> place = en_place e)"

definition already_there :: "cache_key \<Rightarrow> tagged_value \<Rightarrow> 32 word \<Rightarrow> cache_db \<Rightarrow> bool" where
  "already_there key v checksum db \<longleftrightarrow>
     (\<exists>e. map_of (db_map db) key = Some e \<and> untimed (Some e) = Some (value_entry v checksum (en_place e)) \<and>
        file_value (en_place e) (en_size e) db = tv_bytes v)"

lemma writeKeyPlaceGeneric_ok:
  assumes "core_ok db" "log_ok R db" "env_ok env" "time_ok env db" "stamp_ok env db (sr_time record)"
    "R - {key} = set (db_removing db)" "map_of (db_map db) key \<noteq> None \<longrightarrow> R = set (db_removing db)"
    "tv_bytes v \<noteq> []" "int (length (tv_bytes v)) \<le> maxDataSize (db_settings db)" "room env db"
  shows "ensures (writeKeyPlaceGeneric env record key v checksum db) (\<lambda>(maybepath, db'). kept_queues env db db' \<and>
    (maybepath = Some '''' \<and> (db' = db \<and> already_there key v checksum db \<or> log_lost env db db') \<or>
     (\<exists>place. maybepath = Some (placePath place db) \<and> good_place key place db \<and>
        stored_key key (value_entry v checksum place) db db')))"
proof -
  let ?n = "int (length (tv_bytes v))"
  have n: "0 < ?n" "?n < 2 ^ (3 * 8)"
    using assms(1,8,9) by (auto simp: core_ok_def checkSettings_def kDataSizeLimit_def)
  define r where "r = record\<lparr> sr_tag := tv_tag v, sr_size := le_bytes 3 (length (tv_bytes v)), sr_key := key, sr_checksum := checksum \<rparr>"
  have setSize: "setSize ?n (record\<lparr> sr_tag := tv_tag v, sr_key := key \<rparr>) =
      Inr (record\<lparr> sr_tag := tv_tag v, sr_size := le_bytes 3 (length (tv_bytes v)), sr_key := key \<rparr>)"
    using n by (simp add: setSize_def ReadTo_small kBundledRecordsLimit_def)
  have get: "getSize (r\<lparr> sr_place := place \<rparr>) = ?n" for place
    using n by (simp add: getSize_def r_def ReadFrom_le_value le_value_le_bytes_id nat_less_iff)
  let ?Q = "\<lambda>(maybepath, db'). kept_queues env db db' \<and>
    (maybepath = Some '''' \<and> (db' = db \<and> already_there key v checksum db \<or> log_lost env db db') \<or>
     (\<exists>place. maybepath = Some (placePath place db) \<and> good_place key place db \<and>
        stored_key key (value_entry v checksum place) db db'))"
  have store: "ensures (write_store env (r\<lparr> sr_place := place \<rparr>) db)
      (\<lambda>(success, db1). ?Q (Some (if success then placePath place db else ''''), db1))"
    if place: "good_place key place db" for place
  proof -
    have "store_valid (db_settings db) (r\<lparr> sr_place := place \<rparr>)"
      using n(1) assms(9) place get by (simp add: store_valid_def good_place_def)
    then have "ensures (write_store env (r\<lparr> sr_place := place \<rparr>) db) (\<lambda>(success, db'). kept_queues env db db' \<and>
      (if success then stored_key (sr_key (r\<lparr> sr_place := place \<rparr>)) (store_entry 0 (r\<lparr> sr_place := place \<rparr>)) db db'
       else log_lost env db db'))"
      using assms by (intro write_store_ok) (simp_all add: r_def env_ok_def)
    moreover have "stored_key key (store_entry 0 (r\<lparr> sr_place := place \<rparr>)) db db' =
        stored_key key (value_entry v checksum place) db db'" for db'
      using get [of place] by (simp add: stored_key_def untimed_def store_entry_def value_entry_def r_def)
    ultimately show ?thesis
      using place by (auto simp: r_def elim!: ensures_mono split: if_splits)
  qed
  define put_at where "put_at place = bind_outcome (write_store env (r\<lparr> sr_place := place \<rparr>) db)
    (\<lambda>(success, db1). Inr (Some (if success then placePath place db else ''''), db1))" for place
  have put_at: "ensures (put_at place) ?Q" if "good_place key place db" for place
    using store [OF that] by (simp add: put_at_def split_def)
  have eq: "writeKeyPlaceGeneric env record key v checksum db =
      (case map_entry key db of
         Some already \<Rightarrow>
           bind_outcome
             (if en_tag already = tv_tag v \<and> en_size already = ?n \<and> en_checksum already = checksum
              then bind_outcome (readValueData env (en_place already) ?n db) (\<lambda>xs. Inr (xs = tv_bytes v))
              else Inr False)
             (\<lambda>same. if same then Inr (Some '''', db) else put_at (en_place already))
       | None \<Rightarrow> (case find (\<lambda>place. isFreePlace place db) (ce_places env) of
           None \<Rightarrow> Inl Still_running | Some place \<Rightarrow> put_at place))"
    using assms(9) by (simp add: writeKeyPlaceGeneric_def Let_def setSize put_at_def r_def cong: if_cong option.case_cong)
  show ?thesis
  proof (cases "map_of (db_map db) key")
    case None
    obtain place where "find (\<lambda>place. isFreePlace place db) (ce_places env) = Some place"
      using assms(10) by (cases "find (\<lambda>place. isFreePlace place db) (ce_places env)") (auto simp: room_def find_None_iff)
    moreover from this have "good_place key place db"
      using None assms(3) by (auto simp: find_Some_iff good_place_def env_ok_def)
    ultimately show ?thesis
      using None put_at unfolding eq by (simp add: map_entry_def)
  next
    case (Some e)
    have "map_ok_for (db_settings db) (db_map db)"
      using assms(1) by (simp add: core_ok_def)
    then have "entry_ok (db_settings db) e"
      using Some by (rule entry_ok_of)
    then have good: "good_place key (en_place e) db"
      using Some by (simp add: good_place_def entry_ok_def)
    have there: "kept_queues env db db \<and> already_there key v checksum db"
      if "en_tag e = tv_tag v" "en_size e = ?n" "en_checksum e = checksum" "file_value (en_place e) ?n db = tv_bytes v"
      using that assms Some by (simp add: kept_queues_def already_there_def value_entry_def untimed_def)
    show ?thesis
      using Some put_at [OF good] there assms(8) readValueData_ok [OF assms(3), of "en_place e" ?n db] unfolding eq
      by (auto simp: map_entry_def elim!: ensures_mono)
  qed
qed

lemma stored_db_ok:
  assumes "kept_queues env db db'" "stored_key key e db db'" "queues_ok db" "key \<notin> set (db_removing db)"
  shows "db_ok env db'"
proof -
  have "map_of (db_map db') k = None" if "k \<in> set (db_removing db)" for k
  proof -
    have "untimed (map_of (db_map db') k) = untimed None"
      using that assms(2-4) by (auto simp: stored_key_def queues_ok_def)
    then show ?thesis
      by (simp add: untimed_def)
  qed
  then show ?thesis
    using assms by (auto simp: db_ok_def queues_ok_def kept_queues_def stored_key_def)
qed

lemma lost_db_ok:
  assumes "kept_queues env db db'" "log_lost env db db'" "queues_ok db"
  shows "db_ok env db'"
  using assms by (auto simp: db_ok_def queues_ok_def kept_queues_def log_lost_def quiet_def)

lemma write_value_ok:
  assumes "db_ok env db" "env_ok env"
  shows "ensures (write_value env key v (placePath place db) db) (\<lambda>(err, db'). db_ok env db')"
proof -
  let ?path = "placePath place db"
  have disk: "db_ok env (db\<lparr> db_disk := (db_disk db)(?path := x) \<rparr>)" for x
    using assms(1) log_for_disk [of ?path db] by (simp add: db_ok_def)
  have remove: "ensures (db_remove env key db') (\<lambda>(err, db'). db_ok env db')" if "db_ok env db'" for db'
    using db_remove_ok [OF that, of key] by (auto elim!: ensures_mono)
  have "ensures (optimize env (db\<lparr> db_disk := (db_disk db)(?path := x) \<rparr>)) (db_ok env)" for x
    using ensures_mono [OF optimize_quiet [OF disk quiet_refl]] by simp
  then show ?thesis
    using disk remove assms(1,2)
    by (auto simp: write_value_def env_ok_def Let_def split_def split: file_result.split elim!: ensures_mono)
qed

definition fits :: "cache_env \<Rightarrow> tagged_value \<Rightarrow> cache_db \<Rightarrow> bool" where
  "fits env v db \<longleftrightarrow> int (length (tv_bytes v)) \<le> maxDataSize (db_settings db) \<and> room env db"

text \<open>What \<open>put\<close> does before it writes: the key is no longer on its way out.\<close>

definition before_put :: "cache_key \<Rightarrow> cache_db \<Rightarrow> cache_db" where
  "before_put key db = db\<lparr> db_removing := remove1 key (db_removing db), db_stale := removeAll key (db_stale db) \<rparr>"

lemma put_key_ok:
  assumes "db_ok env db" "env_ok env" "tv_bytes v \<noteq> []" "fits env v db"
  shows "ensures (writeKeyPlace env key v checksum (before_put key db)) (\<lambda>(maybepath, db').
    db_ok env db' \<and>
    (maybepath = Some '''' \<and> (db' = before_put key db \<and> already_there key v checksum db \<or> log_lost env (before_put key db) db') \<or>
     (\<exists>place. maybepath = Some (placePath place db') \<and> maybepath \<noteq> Some '''' \<and> good_place key place db \<and>
        stored_key key (value_entry v checksum place) (before_put key db) db')))"
proof -
  note ok = db_okD [OF assms(1)]
  let ?db1 = "before_put key db"
  have clock: "clock_ok env"
    using assms(2) by (simp add: env_ok_def)
  have fields: "core_ok ?db1" "log_ok (set (db_removing db)) ?db1" "time_ok env ?db1" "db_settings ?db1 = db_settings db"
    "db_map ?db1 = db_map db" "room env ?db1"
    using ok assms(4) by (simp_all add: before_put_def fits_def room_def isFreePlace_def placePath_def)
  have rem: "set (db_removing db) - {key} = set (db_removing ?db1)" "key \<notin> set (db_removing ?db1)"
    "map_of (db_map ?db1) key \<noteq> None \<longrightarrow> set (db_removing db) = set (db_removing ?db1)"
    using ok(4,7) by (auto simp: before_put_def)
  have queues: "queues_ok ?db1"
    using ok(4-7) length_remove1 [of key "db_removing db"] by (auto simp: queues_ok_def before_put_def notin_set_remove1)
  obtain t where t: "time_for_record env ?db1 = Inr t" "stamp_ok env ?db1 t"
    using time_for_record_ok [OF clock fields(3)] by (auto elim!: ensuresE)
  have "ensures (writeKeyPlaceGeneric env (new_store t) key v checksum ?db1) (\<lambda>(maybepath, db'). kept_queues env ?db1 db' \<and>
    (maybepath = Some '''' \<and> (db' = ?db1 \<and> already_there key v checksum ?db1 \<or> log_lost env ?db1 db') \<or>
     (\<exists>place. maybepath = Some (placePath place ?db1) \<and> good_place key place ?db1 \<and>
        stored_key key (value_entry v checksum place) ?db1 db')))"
    using fields rem assms t by (intro writeKeyPlaceGeneric_ok) (simp_all add: new_store_def fits_def)
  moreover have same: "already_there key v checksum ?db1 = already_there key v checksum db"
    "good_place key place ?db1 = good_place key place db" for place
    by (simp_all add: already_there_def good_place_def before_put_def file_value_def isFreePlace_def placePath_def
        split: option.split)
  moreover have "db_ok env db'" if "kept_queues env ?db1 db'"
    "db' = ?db1 \<and> already_there key v checksum db \<or> log_lost env ?db1 db' \<or>
     stored_key key (value_entry v checksum place) ?db1 db'" for db' place
  proof -
    have "db_ok env ?db1" if "already_there key v checksum db"
    proof -
      have "log_ok (set (db_removing ?db1)) ?db1"
        using that fields rem(3) by (auto simp: already_there_def)
      then show ?thesis
        using fields queues by (simp add: db_ok_def)
    qed
    then show ?thesis
      using that stored_db_ok [OF _ _ queues rem(2)] lost_db_ok [OF _ _ queues] by blast
  qed
  moreover have "placePath place ?db1 = placePath place db'" if "stored_key key e ?db1 db'" for place e db'
    using that by (simp add: stored_key_def placePath_def)
  ultimately show ?thesis
    unfolding writeKeyPlace_def t(1) bind_outcome.simps
    by (elim ensures_mono) (auto simp: good_place_def placePath_not_Nil)
qed

definition keeps :: "cache_env \<Rightarrow> ('r \<times> cache_db) outcome \<Rightarrow> bool" where
  "keeps env m \<longleftrightarrow> ensures m (\<lambda>(r, db'). db_ok env db')"

lemma keeps_Inr [simp]: "keeps env (Inr (r, db)) = db_ok env db"
  by (simp add: keeps_def)

lemma db_remove_keeps: "db_ok env db \<Longrightarrow> keeps env (db_remove env key db)"
  using db_remove_ok [of env db key] by (auto simp: keeps_def elim!: ensures_mono)

lemma keeps_bind:
  "keeps env m \<Longrightarrow> (\<And>r db'. m = Inr (r, db') \<Longrightarrow> db_ok env db' \<Longrightarrow> keeps env (f (r, db'))) \<Longrightarrow>
   keeps env (bind_outcome m f)"
  by (cases m) (auto simp: keeps_def ensures_def)

lemma keeps_single:
  "ensures m (db_ok env) \<Longrightarrow> (\<And>db'. m = Inr db' \<Longrightarrow> db_ok env db' \<Longrightarrow> keeps env (f db')) \<Longrightarrow>
   keeps env (bind_outcome m f)"
  by (cases m) (auto simp: keeps_def ensures_def)

lemma recordEntryAccess_keeps: "db_ok env db \<Longrightarrow> env_ok env \<Longrightarrow> ensures (recordEntryAccess env key db) (db_ok env)"
  using recordEntryAccess_ok [of env db key] by (auto simp: env_ok_def elim!: ensures_mono)

lemma optimize_keeps: "db_ok env db \<Longrightarrow> ensures (optimize env db) (db_ok env)"
  by (rule ensures_mono [OF optimize_quiet [OF _ quiet_refl]]) simp_all

lemma db_put_keeps:
  assumes "db_ok env db" "env_ok env" "fits env v db"
  shows "keeps env (db_put env key v db)"
proof (cases "tv_bytes v = []")
  case True
  then show ?thesis
    using db_remove_keeps [OF assms(1)] by (simp add: db_put_def)
next
  case False
  obtain maybepath db2 where step: "writeKeyPlace env key v (ce_checksum env (tv_bytes v)) (before_put key db) = Inr (maybepath, db2)"
    and ok: "db_ok env db2" "maybepath = Some '''' \<or> (\<exists>place. maybepath = Some (placePath place db2) \<and> maybepath \<noteq> Some '''')"
    using put_key_ok [OF assms(1,2) False assms(3), of key "ce_checksum env (tv_bytes v)"] by (auto elim!: ensuresE)
  have put: "db_put env key v db = (case maybepath of
      None \<Rightarrow> Inr (ioError (binlogPath db2), db2)
    | Some path \<Rightarrow>
        if path = '''' then bind_outcome (recordEntryAccess env key db2) (\<lambda>db3. Inr (NoError, db3))
        else write_value env key v path db2)"
    using step False by (simp add: db_put_def Let_def before_put_def)
  show ?thesis
    using ok unfolding put
  proof (elim disjE exE conjE)
    fix place
    assume "maybepath = Some (placePath place db2)" "maybepath \<noteq> Some ''''"
    then show "keeps env (case maybepath of None \<Rightarrow> Inr (ioError (binlogPath db2), db2)
      | Some path \<Rightarrow> if path = '''' then bind_outcome (recordEntryAccess env key db2) (\<lambda>db3. Inr (NoError, db3))
          else write_value env key v path db2)"
      using write_value_ok [OF ok(1) assms(2)] by (simp add: keeps_def)
  qed (auto intro!: keeps_single recordEntryAccess_keeps assms)
qed

lemma putIfEmpty_keeps:
  "db_ok env db \<Longrightarrow> env_ok env \<Longrightarrow> fits env v db \<Longrightarrow> keeps env (putIfEmpty env key v db)"
  by (simp add: putIfEmpty_def db_put_keeps)

lemma db_get_with_keeps:
  assumes "db_ok env db" "env_ok env"
    "\<And>db'. db_ok env db' \<Longrightarrow> keeps env (callback empty_value db')"
    "\<And>v. tv_bytes v \<noteq> [] \<Longrightarrow> (case map_entry key db of None \<Rightarrow> False | Some e \<Rightarrow>
       readValueData env (en_place e) (en_size e) db = Inr (tv_bytes v)) \<Longrightarrow> keeps env (callback v db)"
  shows "keeps env (db_get_with env key callback db)"
proof (cases "map_entry key db")
  case None
  then show ?thesis
    using assms by (simp add: db_get_with_def)
next
  case (Some e)
  obtain xs where xs: "readValueData env (en_place e) (en_size e) db = Inr xs"
    using readValueData_ok [OF assms(2)] by (rule ensuresE)
  show ?thesis
  proof (cases "xs = [] \<or> ce_checksum env xs \<noteq> en_checksum e")
    case True
    then show ?thesis
      using Some xs assms by (auto simp: db_get_with_def intro!: keeps_bind db_remove_keeps)
  next
    case False
    then show ?thesis
      using Some xs assms(2) by (auto simp: db_get_with_def intro!: keeps_bind keeps_single recordEntryAccess_keeps assms(4))
  qed
qed

lemma db_get_keeps: "db_ok env db \<Longrightarrow> env_ok env \<Longrightarrow> keeps env (db_get env key db)"
  unfolding db_get_def by (rule db_get_with_keeps) simp_all

lemma readValueData_length:
  "env_ok env \<Longrightarrow> readValueData env place n db = Inr xs \<Longrightarrow> xs = [] \<or> int (length xs) = n"
  using readValueData_ok [of env place n db] by (auto simp: file_value_def Let_def split: option.splits if_splits)

lemma copyIfEmpty_keeps:
  assumes "db_ok env db" "env_ok env" "room env db"
  shows "keeps env (copyIfEmpty env from_key to_key db)"
proof -
  have fits: "fits env v db" if v: "tv_bytes v \<noteq> []" and e: "case map_entry from_key db of None \<Rightarrow> False | Some e \<Rightarrow>
      readValueData env (en_place e) (en_size e) db = Inr (tv_bytes v)" for v
  proof -
    obtain e where e: "map_of (db_map db) from_key = Some e" "readValueData env (en_place e) (en_size e) db = Inr (tv_bytes v)"
      using e by (auto simp: map_entry_def split: option.splits)
    have "entry_ok (db_settings db) e"
      using entry_ok_of [OF _ e(1)] db_okD(1) [OF assms(1)] by (simp add: core_ok_def)
    then show ?thesis
      using readValueData_length [OF assms(2) e(2)] v assms(3) by (simp add: fits_def entry_ok_def)
  qed
  have empty: "db_put env to_key empty_value db' = db_remove env to_key db'" for db'
    by (simp add: db_put_def empty_value_def)
  have "keeps env (db_get_with env from_key (\<lambda>v db1. db_put env to_key v db1) db)"
    by (rule db_get_with_keeps [OF assms(1,2)])
      (auto simp only: empty intro: db_remove_keeps db_put_keeps [OF assms(1,2)] fits)
  then show ?thesis
    using assms(1) by (simp add: copyIfEmpty_def)
qed

text \<open>Moving an entry: the old key is written as removed first.\<close>

lemma writeExistingPlaceGeneric_keeps:
  assumes "core_ok db" "queues_ok db" "log_ok R db" "env_ok env" "time_ok env db" "stamp_ok env db (sr_time record)"
    "R - {key} = set (db_removing db)" "key \<notin> set (db_removing db)" "map_of (db_map db) key = None"
    "entry_ok (db_settings db) entry"
  shows "ensures (writeExistingPlaceGeneric env record key entry db) (\<lambda>(err, db'). kept_queues env db db' \<and>
    (if err = NoError then stored_key key entry db db' else log_lost env db db'))"
proof -
  have n: "0 < en_size entry" "en_size entry \<le> maxDataSize (db_settings db)" "en_size entry < 2 ^ (3 * 8)"
    using assms(1,10) by (auto simp: entry_ok_def core_ok_def checkSettings_def kDataSizeLimit_def)
  define r where "r = record\<lparr> sr_key := key, sr_tag := en_tag entry, sr_size := le_bytes 3 (nat (en_size entry)),
    sr_checksum := en_checksum entry, sr_place := en_place entry \<rparr>"
  have get: "getSize r = en_size entry"
    using n by (simp add: getSize_def r_def ReadFrom_le_value le_value_le_bytes_id nat_less_iff)
  have eq: "writeExistingPlaceGeneric env record key entry db = bind_outcome (write_store env r db)
      (\<lambda>(success, db1). Inr (if success then NoError else ioError (binlogPath db1), db1))"
    using assms(9) n by (simp add: writeExistingPlaceGeneric_def setSize_def ReadTo_def read_to_loop_le_bytes map_entry_def r_def)
  have "ensures (write_store env r db) (\<lambda>(success, db'). kept_queues env db db' \<and>
      (if success then stored_key (sr_key r) (store_entry 0 r) db db' else log_lost env db db'))"
    using assms n get by (intro write_store_ok) (simp_all add: r_def env_ok_def store_valid_def entry_ok_def)
  moreover have "untimed (Some (store_entry 0 r)) = untimed (Some entry)" "sr_key r = key"
    using get by (cases entry) (simp_all add: untimed_def store_entry_def r_def)
  then have "stored_key (sr_key r) (store_entry 0 r) db db' = stored_key key entry db db'" for db'
    by (simp add: stored_key_def)
  ultimately show ?thesis
    unfolding eq by (auto simp: NoError_def ioError_def elim!: ensures_mono split: if_splits)
qed

text \<open>The first half of a move: the old key is erased and written as removed.\<close>

lemma move_first_ok:
  assumes "db_ok env db" "map_of (db_map db) key = Some entry"
  shows "ensures (bind_outcome (eraseMapEntry key (db\<lparr> db_removing := List.insort_insert key (db_removing db) \<rparr>))
      (writeMultiRemove env))
    (\<lambda>(err, db'). db_ok env db' \<and> db_removing db' = [] \<and> quiet (db\<lparr> db_map := AList.delete key (db_map db) \<rparr>) db' \<and>
      (if err_type err = Error_None then db_binlog db = None \<longleftrightarrow> db_binlog db' = None else db_binlog db' = None))"
proof -
  note ok = db_okD [OF assms(1)]
  let ?db0 = "db\<lparr> db_removing := List.insort_insert key (db_removing db) \<rparr>"
  have "core_ok ?db0"
    using ok(1) by simp
  from eraseMapEntry_ok [OF this, of key] obtain db1 where step1: "eraseMapEntry key ?db0 = Inr db1"
    and db1: "core_ok db1" "same_outside ?db0 db1" "map_of (db_map db1) = (map_of (db_map db))(key := None)"
    by (auto elim!: ensuresE)
  have "log_for (insert key (set (db_removing db))) ((map_of (db_map db))(key := None)) db"
    using ok(2) unfolding log_for_def hidden_insert by metis
  then have log: "log_for (set (db_removing db1)) (map_of (db_map db1)) db1"
    using db1 same_outside_log_for [OF db1(2)] by (simp add: same_outside_def set_insort_insert)
  have len: "int (length (db_removing db1)) \<le> maxBundledRecords (db_settings db1)"
    using ok(5) insort_length [of key "db_removing db"] db1(2) by (simp add: same_outside_def)
  have fields: "db_settings db1 = db_settings db" "db_accessed db1 = db_accessed db" "db_binlog db1 = db_binlog db"
    "time_ok env db1"
    using db1(2) ok(3) same_outside_log(3) [OF db1(2), of env] by (simp_all add: same_outside_def)
  have quiet: "quiet (db\<lparr> db_map := AList.delete key (db_map db) \<rparr>) db2" if "quiet db1 db2" for db2
    using that db1(2,3) by (simp add: quiet_def same_outside_def binlogPath_def AList.delete_conv')
  obtain err db2 where step2: "writeMultiRemove env db1 = Inr (err, db2)"
    and db2: "quiet db1 db2" "core_ok db2" "log_for {} (map_of (db_map db1)) db2" "db_removing db2 = []"
      "db_accessed db2 = db_accessed db1" "db_time db2 = db_time db1" "db_map db2 = db_map db1"
      "if err_type err = Error_None then db_binlog db1 = None \<longleftrightarrow> db_binlog db2 = None else db_binlog db2 = None"
    using writeMultiRemove_ok [OF db1(1) log len, of env] by (auto elim!: ensuresE)
  have "db_settings db2 = db_settings db" "time_ok env db2"
    using db2(1,6) fields by (simp_all add: quiet_def time_ok_def)
  then have "db_ok env db2"
    using db2 fields ok(6) core_bundled [OF ok(1)] by (simp add: db_ok_def queues_ok_def)
  then show ?thesis
    using step1 step2 db2 quiet fields(3) by (simp split: if_splits)
qed

lemma remove_all_ok:
  "db_ok env db \<Longrightarrow> ensures (remove_all env keys db) (\<lambda>db'. db_ok env db' \<and> db_stale db' = db_stale db \<and>
    db_settings db' = db_settings db)"
proof (induction keys arbitrary: db)
  case (Cons key keys)
  obtain err db1 where "db_remove env key db = Inr (err, db1)" "db_ok env db1" "removed_key key db db1"
    using db_remove_ok [OF Cons.prems, of key] by (auto elim!: ensuresE)
  then show ?case
    using Cons.IH [of db1] by (auto simp: removed_key_def elim!: ensures_mono)
qed simp

lemma clearStaleChunk_ok:
  assumes "db_ok env db"
  shows "ensures (clearStaleChunk env db) (\<lambda>db'. db_ok env db' \<and> (db_stale db \<noteq> [] \<longrightarrow> length (db_stale db') < length (db_stale db)))"
proof (cases "db_stale db = []")
  case True
  then show ?thesis
    using assms by (simp add: clearStaleChunk_def)
next
  case False
  define keep where "keep = nat (int (length (db_stale db)) - min (int (length (db_stale db))) (staleRemoveChunk (db_settings db)))"
  have keep: "keep < length (db_stale db)"
  proof -
    have "0 < staleRemoveChunk (db_settings db)" "0 < int (length (db_stale db))"
      using db_okD(1) [OF assms] False by (simp_all add: core_ok_def checkSettings_def)
    then show ?thesis
      unfolding keep_def by linarith
  qed
  obtain db1 where step: "remove_all env (drop keep (db_stale db)) db = Inr db1" and db1: "db_ok env db1" "db_stale db1 = db_stale db"
    using remove_all_ok [OF assms, of "drop keep (db_stale db)"] by (auto elim!: ensuresE)
  let ?db2 = "db1\<lparr> db_stale := take keep (db_stale db1) \<rparr>"
  have "ensures (optimize env ?db2) (\<lambda>db'. db_ok env db' \<and> db_stale db' = db_stale ?db2)"
    using ensures_mono [OF optimize_quiet [of env ?db2, OF _ quiet_refl]] db1(1) by (simp add: quiet_def)
  moreover have "clearStaleChunk env db = bind_outcome (remove_all env (drop keep (db_stale db)) db) (\<lambda>db1.
      let db2 = db1\<lparr> db_stale := take keep (db_stale db1) \<rparr>
      in if db_stale db2 = [] then optimize env db2 else Inr (clearStaleChunkDelayed db2))"
    using False by (simp add: clearStaleChunk_def keep_def Let_def)
  ultimately show ?thesis
    using step db1 keep
    by (cases "take keep (db_stale db) = []") (auto simp: Let_def clearStaleChunkDelayed_def elim!: ensures_mono)
qed

section \<open>Pruning and settings\<close>

lemma clear_chunk_task_keeps: "db_ok env db \<Longrightarrow> ensures (clear_chunk_task env db) (db_ok env)"
  using clearStaleChunk_ok [of env "db\<lparr> db_clearing_stale := False \<rparr>"]
  by (auto simp: clear_chunk_task_def elim!: ensures_mono)

lemma waitForCleaner_keeps:
  "db_ok env db \<Longrightarrow> ensures (waitForCleaner env db) (\<lambda>db'. db_ok env db' \<and> db_stale db' = [])"
proof (induction env db rule: waitForCleaner.induct)
  case (1 env db)
  show ?case
  proof (cases "db_stale db = []")
    case True
    then show ?thesis
      using "1.prems" by (simp add: waitForCleaner.simps [of env db])
  next
    case False
    obtain db1 where step: "clearStaleChunk env db = Inr db1" "db_ok env db1" "length (db_stale db1) < length (db_stale db)"
      using clearStaleChunk_ok [OF "1.prems"] False by (auto elim!: ensuresE)
    then show ?thesis
      using "1.IH" [OF False step(1,3,2)] False by (simp add: waitForCleaner.simps [of env db])
  qed
qed

lemma startStaleClear_keeps: "db_ok env db \<Longrightarrow> ensures (startStaleClear env db) (db_ok env)"
  using clearStaleChunk_ok [of env "pushStats db"]
  by (auto simp: startStaleClear_def pushStats_def elim!: ensures_mono split: if_splits)

lemma clearStaleNow_keeps:
  assumes "db_ok env db"
  shows "ensures (clearStaleNow env stale db) (db_ok env)"
proof -
  let ?db1 = "pushStats (db\<lparr> db_stale := db_stale db @ [hd stale] \<rparr>)"
  have "db_ok env ?db1"
    using assms by (simp add: pushStats_def)
  then have "ensures (remove_all env stale ?db1) (\<lambda>db1. ensures (optimize env (db1\<lparr> db_stale := [] \<rparr>)) (db_ok env))"
    by (rule ensures_mono [OF remove_all_ok]) (simp add: optimize_keeps)
  then show ?thesis
    using assms by (simp add: clearStaleNow_def)
qed

lemma time_stale_loop_minimal:
  "time_stale_loop before bs stale sizes minimal cnt = (stale', sizes', minimal', cnt') \<Longrightarrow>
   minimal_ok minimal cnt \<Longrightarrow> minimal_ok minimal' cnt'"
proof (induction bs arbitrary: stale sizes minimal cnt)
  case (Cons b bs)
  obtain key entry where b: "b = (key, entry)"
    by force
  show ?case
    using Cons.prems Cons.IH unfolding b by (auto simp: minimal_ok_def split: if_splits)
qed simp

lemma collectTimeStale_ok:
  assumes "db_ok env db" "collectTimeStale env stale sizes db = (stale', sizes', db')"
  shows "db_ok env db'"
proof -
  consider "db' = db" | minimal cnt where "db' = db\<lparr> db_minimal_time := minimal, db_minimal_count := cnt \<rparr>" "minimal_ok minimal cnt"
    using assms(2) by (auto simp: collectTimeStale_def Let_def minimal_ok_def split: if_splits prod.splits
        dest: time_stale_loop_minimal)
  then show ?thesis
  proof cases
    case 2
    have "log_for R M db' = log_for R M db" for R M
      by (simp add: 2(1) log_for_def open_log_def binlogPath_def)
    then show ?thesis
      using assms(1) 2 by (simp add: db_ok_def core_ok_def queues_ok_def time_ok_def)
  qed (use assms(1) in simp)
qed

lemma prune_keeps:
  assumes "db_ok env db"
  shows "ensures (prune env db) (db_ok env)"
proof -
  obtain stale1 total1 db1 stale2 total2 where t: "collectTimeStale env [] 0 db = (stale1, total1, db1)"
    "collectSizeStale env stale1 total1 db1 = (stale2, total2)"
    by (metis prod_cases3 surj_pair)
  have "db_ok env db1"
    by (rule collectTimeStale_ok [OF assms t(1)])
  then show ?thesis
    using assms by (simp add: prune_def t clearStaleNow_keeps startStaleClear_keeps)
qed

lemma prune_timer_keeps: "db_ok env db \<Longrightarrow> ensures (prune_timer env db) (db_ok env)"
  by (simp add: prune_timer_def prune_keeps)

lemma clearByTag_keeps: "db_ok env db \<Longrightarrow> keeps env (clearByTag env tag db)"
  by (auto simp: clearByTag_def Let_def intro!: keeps_single startStaleClear_keeps)

lemma updateSettings_keeps:
  assumes "db_ok env db" "checkSettings (db_settings db\<lparr> totalSizeLimit := a, totalTimeLimit := b \<rparr>)"
  shows "ensures (updateSettings env a b db) (db_ok env)"
proof -
  let ?db1 = "db\<lparr> db_settings := db_settings db\<lparr> totalSizeLimit := a, totalTimeLimit := b \<rparr> \<rparr>"
  have "map_ok_for (db_settings ?db1) (db_map db) = map_ok_for (db_settings db) (db_map db)"
    by (simp add: map_ok_for_def entry_ok_def)
  moreover have "log_for R M ?db1 = log_for R M db" for R M
    by (simp add: log_for_def open_log_def binlogPath_def)
  ultimately have "db_ok env ?db1"
    using assms by (simp add: db_ok_def core_ok_def queues_ok_def time_ok_def)
  then show ?thesis
    using assms(2) optimize_keeps by (simp add: updateSettings_def)
qed

section \<open>Closing\<close>

text \<open>With a disk at work the log stays open.\<close>

lemma binlog_write_works:
  assumes "\<forall>ys. ce_write_log env ys" "db_binlog db \<noteq> None"
  obtains db' where "binlog_write env ys db = (True, db')" "db_binlog db' \<noteq> None"
  using assms by (auto simp: binlog_write_def Let_def)

lemma set_use_time_binlog [simp]: "db_binlog (fold (set_use_time t) keys db) = db_binlog db"
  by (induction keys arbitrary: db) (simp_all add: set_use_time_def split: option.split)

lemma writeMultiRemove_stays:
  assumes "\<forall>ys. ce_write_log env ys" "db_binlog db \<noteq> None" "writeMultiRemove env db = Inr (err, db')"
  shows "err = NoError \<and> db_binlog db' \<noteq> None"
proof (cases "db_removing db = []")
  case True
  then show ?thesis
    using assms by (simp add: writeMultiRemove_def expects_Inr_iff)
next
  case False
  let ?db0 = "db\<lparr> db_removing := [] \<rparr>" and ?body = "concat (map key_bytes (db_removing db))"
  obtain header where header: "MultiRemoveHead (int (length (db_removing db))) = Inr header"
    using assms(3) False by (auto simp: writeMultiRemove_def bind_outcome_Inr_iff expects_Inr_iff Let_def)
  have "db_binlog ?db0 \<noteq> None"
    using assms(2) by simp
  then obtain db1 where 1: "binlog_write env header ?db0 = (True, db1)" "db_binlog db1 \<noteq> None"
    by (rule binlog_write_works [OF assms(1)])
  obtain db2 where 2: "binlog_write env ?body db1 = (True, db2)" "db_binlog db2 \<noteq> None"
    by (rule binlog_write_works [OF assms(1) 1(2)])
  show ?thesis
    using assms(3) False 1 2 header by (auto simp: writeMultiRemove_def expects_Inr_iff)
qed

lemma writeMultiAccessBlock_stays:
  assumes "\<forall>ys. ce_write_log env ys" "db_binlog db \<noteq> None" "writeMultiAccessBlock env db = Inr (err, db')"
  shows "err = NoError \<and> db_binlog db' \<noteq> None"
proof -
  let ?time = "countTimePoint env db" and ?body = "concat (map key_bytes (db_accessed db))"
  let ?db0 = "fold (set_use_time (getRelative ?time)) (db_accessed db) (db\<lparr> db_accessed := [], db_time := ?time \<rparr>)"
  obtain header where header: "MultiAccessHead ?time (int (length (db_accessed db))) = Inr header"
    using assms(3) by (auto simp: writeMultiAccessBlock_def bind_outcome_Inr_iff expects_Inr_iff Let_def)
  have "db_binlog ?db0 \<noteq> None"
    using assms(2) by simp
  then obtain db1 where 1: "binlog_write env header ?db0 = (True, db1)" "db_binlog db1 \<noteq> None"
    by (rule binlog_write_works [OF assms(1)])
  obtain db2 where 2: "binlog_write env ?body db1 = (True, db2)" "db_binlog db2 \<noteq> None"
    by (rule binlog_write_works [OF assms(1) 1(2)])
  show ?thesis
    using assms(3) 1 2 header by (cases "db_accessed db = []") (auto simp: writeMultiAccessBlock_def expects_Inr_iff Let_def)
qed

lemma writeMultiAccess_stays:
  assumes "\<forall>ys. ce_write_log env ys" "db_binlog db \<noteq> None" "writeMultiAccess env db = Inr (err, db')"
  shows "err = NoError \<and> db_binlog db' \<noteq> None"
  using assms(2,3) writeMultiAccessBlock_stays [OF assms(1,2)] by (simp add: writeMultiAccess_def split: if_splits)

lemma eraseMapEntry_binlog: "eraseMapEntry key db = Inr db' \<Longrightarrow> db_binlog db' = db_binlog db"
  by (auto simp: eraseMapEntry_def Let_def asserts_def updateStats_def pushStatsDelayed_def split: option.splits if_splits)

lemma untimed_None [simp]: "untimed x = None \<longleftrightarrow> x = None" "None = untimed x \<longleftrightarrow> x = None" "untimed None = None"
  by (auto simp: untimed_def)

section \<open>Moving\<close>

text \<open>With a disk at work the entry goes over to the new key.\<close>

definition moved_key :: "cache_key \<Rightarrow> cache_key \<Rightarrow> cache_db \<Rightarrow> cache_db \<Rightarrow> bool" where
  "moved_key from_key to_key db db' \<longleftrightarrow> db_binlog db' \<noteq> None \<and> db_path db' = db_path db \<and>
     (\<forall>p. p \<noteq> binlogPath db \<longrightarrow> db_disk db' p = db_disk db p) \<and>
     (\<forall>k. untimed (map_of (db_map db') k) =
        (if k = to_key then untimed (map_of (db_map db) from_key)
         else if k = from_key then None else untimed (map_of (db_map db) k)))"

lemma moveIfEmpty_ok:
  assumes "db_ok env db" "env_ok env" "map_of (db_map db) from_key = Some entry" "map_of (db_map db) to_key = None"
  shows "ensures (moveIfEmpty env from_key to_key db) (\<lambda>(err, db'). db_ok env db' \<and>
    ((\<forall>ys. ce_write_log env ys) \<and> db_binlog db \<noteq> None \<longrightarrow> err = NoError \<and> moved_key from_key to_key db db'))"
proof -
  obtain err db2 where step: "bind_outcome (eraseMapEntry from_key
      (db\<lparr> db_removing := List.insort_insert from_key (db_removing db) \<rparr>)) (writeMultiRemove env) = Inr (err, db2)"
    and db2: "db_ok env db2" "db_removing db2 = []" "quiet (db\<lparr> db_map := AList.delete from_key (db_map db) \<rparr>) db2"
    using move_first_ok [OF assms(1,3)] by (auto elim!: ensuresE)
  have stays: "err = NoError \<and> db_binlog db2 \<noteq> None" if log: "\<forall>ys. ce_write_log env ys" and opened: "db_binlog db \<noteq> None"
  proof -
    obtain db1 where "writeMultiRemove env db1 = Inr (err, db2)" "db_binlog db1 \<noteq> None"
      using step opened by (auto simp: bind_outcome_Inr_iff dest!: eraseMapEntry_binlog)
    then show ?thesis
      using writeMultiRemove_stays [OF log] by blast
  qed
  let ?db3 = "db2\<lparr> db_removing := [], db_stale := removeAll to_key (db_stale db2) \<rparr>"
  have "db2\<lparr> db_removing := [] \<rparr> = db2"
    using db2(2) by (cases db2) simp
  then have db3: "?db3 = db2\<lparr> db_stale := removeAll to_key (db_stale db2) \<rparr>"
    by simp
  note ok2 = db_okD [OF db2(1)]
  have move: "moveIfEmpty env from_key to_key db = (if err_type err \<noteq> Error_None then Inr (err, db2)
      else writeExistingPlace env to_key entry ?db3)"
    using assms(3,4) step db2(2) by (auto simp: moveIfEmpty_def map_entry_def bind_outcome_Inr_iff)
  obtain t where t: "time_for_record env ?db3 = Inr t" "stamp_ok env ?db3 t"
    using time_for_record_ok [of env ?db3] assms(2) ok2(3) by (auto simp: env_ok_def elim!: ensuresE)
  have map2: "\<And>k. untimed (map_of (db_map db2) k) = (if k = from_key then None else untimed (map_of (db_map db) k))"
    "db_settings db2 = db_settings db"
    using db2(3) by (auto simp: quiet_def AList.delete_conv')
  have absent: "map_of (db_map db2) to_key = None"
    using assms(4) map2(1) [of to_key] by (simp split: if_splits)
  have "entry_ok (db_settings db) entry"
    using entry_ok_of [OF _ assms(3)] db_okD(1) [OF assms(1)] by (simp add: core_ok_def)
  then have written: "ensures (writeExistingPlaceGeneric env (new_store t) to_key entry ?db3) (\<lambda>(err, db'). kept_queues env ?db3 db' \<and>
      (if err = NoError then stored_key to_key entry ?db3 db' else log_lost env ?db3 db'))"
    using ok2 db2(2) absent t assms(2) map2(2)
    by (intro writeExistingPlaceGeneric_keeps [where R = "{}"]) (simp_all add: new_store_def db3)
  have queues: "queues_ok ?db3" "to_key \<notin> set (db_removing ?db3)"
    using ok2(8) db2(2) by (simp_all add: db3)
  have "db_ok env db'" if "kept_queues env ?db3 db'" "stored_key to_key entry ?db3 db' \<or> log_lost env ?db3 db'" for db'
    using that stored_db_ok [OF _ _ queues] lost_db_ok [OF _ _ queues(1)] by blast
  moreover have "moved_key from_key to_key db db'" if "stored_key to_key entry ?db3 db'" for db'
    using that db2(3) map2(1) assms(3) by (auto simp: moved_key_def stored_key_def quiet_def binlogPath_def)
  moreover have "\<not> log_lost env ?db3 db'" if "\<forall>ys. ce_write_log env ys" "db_binlog db \<noteq> None" for db'
    using stays [OF that] that(1) by (simp add: log_lost_def)
  ultimately have "ensures (writeExistingPlace env to_key entry ?db3) (\<lambda>(err, db'). db_ok env db' \<and>
      ((\<forall>ys. ce_write_log env ys) \<and> db_binlog db \<noteq> None \<longrightarrow> err = NoError \<and> moved_key from_key to_key db db'))"
    unfolding writeExistingPlace_def t(1) bind_outcome.simps
    by (intro ensures_mono [OF written]) (auto split: if_splits)
  then show ?thesis
    using move db2(1) stays by (auto simp: NoError_def)
qed

lemma moveIfEmpty_keeps:
  assumes "db_ok env db" "env_ok env"
  shows "keeps env (moveIfEmpty env from_key to_key db)"
proof (cases "map_of (db_map db) to_key = None \<and> map_of (db_map db) from_key \<noteq> None")
  case False
  then show ?thesis
    using assms(1) by (auto simp: moveIfEmpty_def map_entry_def split: option.split)
next
  case True
  then obtain entry where "map_of (db_map db) from_key = Some entry" "map_of (db_map db) to_key = None"
    by blast
  from moveIfEmpty_ok [OF assms this] show ?thesis
    unfolding keeps_def by (auto elim!: ensures_mono)
qed

text \<open>All that waits is written; only the times of entries change.\<close>

definition touched :: "cache_key set \<Rightarrow> cache_db \<Rightarrow> cache_db \<Rightarrow> bool" where
  "touched ks db db' \<longleftrightarrow> (\<exists>t. map_of (db_map db') = touch_keys t ks (map_of (db_map db)))"

lemma touch_keys_empty [simp]: "touch_keys t {} m = m"
  by (simp add: touch_keys_def)

lemma writeMultiAccess_ok:
  assumes "db_ok env db" "clock_ok env" "trackEstimatedTime (db_settings db)"
  shows "ensures (writeMultiAccess env db) (\<lambda>(err, db'). db_ok env db' \<and> quiet db db' \<and>
    db_removing db' = db_removing db \<and> db_accessed db' = [] \<and> touched (set (db_accessed db)) db db' \<and>
    (db_time db' = db_time db \<or> db_time db' = countTimePoint env db) \<and>
    (if err_type err = Error_None then db_binlog db = None \<longleftrightarrow> db_binlog db' = None else db_binlog db' = None))"
proof (cases "db_accessed db = []")
  case True
  then show ?thesis
    using assms by (simp add: writeMultiAccess_def NoError_def touched_def)
next
  case False
  note ok = db_okD [OF assms(1)]
  obtain err db' where step: "writeMultiAccessBlock env db = Inr (err, db')"
    and facts: "quiet db db'" "core_ok db'" "log_ok (set (db_removing db)) db'" "time_ok env db'"
      "db_removing db' = db_removing db" "db_accessed db' = []" "touched (set (db_accessed db)) db db'" "db_time db' = countTimePoint env db"
      "if err_type err = Error_None then db_binlog db = None \<longleftrightarrow> db_binlog db' = None else db_binlog db' = None"
    using writeMultiAccessBlock_ok [OF ok(1,2) assms(3,2) ok(3)] ok(6) by (auto simp: touched_def elim!: ensuresE)
  have "queues_ok db'"
    using facts ok quiet_dom [OF facts(1)] core_bundled [OF ok(1)] by (simp add: queues_ok_def quiet_def)
  then have "db_ok env db'"
    using facts by (simp add: db_ok_def)
  then show ?thesis
    using False step facts by (simp add: writeMultiAccess_def)
qed

lemma writeBundles_ok:
  assumes "db_ok env db" "clock_ok env"
  shows "ensures (writeBundles env db) (\<lambda>db'. db_ok env db' \<and> quiet db db' \<and> db_removing db' = [] \<and>
    touched (if trackEstimatedTime (db_settings db) then set (db_accessed db) else {}) db db' \<and>
    (db_time db' = db_time db \<or> db_time db' = countTimePoint env db) \<and>
    ((\<forall>ys. ce_write_log env ys) \<and> db_binlog db \<noteq> None \<longrightarrow> db_binlog db' \<noteq> None))"
proof -
  note ok = db_okD [OF assms(1)]
  have len: "int (length (db_removing db)) \<le> maxBundledRecords (db_settings db)"
    using ok(5) by simp
  obtain err db1 where step: "writeMultiRemove env db = Inr (err, db1)"
    and db1: "quiet db db1" "core_ok db1" "log_for {} (map_of (db_map db)) db1" "db_removing db1 = []"
      "db_accessed db1 = db_accessed db" "db_time db1 = db_time db" "db_map db1 = db_map db"
    using writeMultiRemove_ok [OF ok(1,2) len, of env] by (auto elim!: ensuresE)
  have ok1: "db_ok env db1"
    using db1 ok core_bundled [OF ok(1)] by (simp add: db_ok_def queues_ok_def time_ok_def quiet_def)
  have set1: "db_settings db1 = db_settings db"
    using db1(1) by (simp add: quiet_def)
  have stay: "db_binlog db1 \<noteq> None" "writeMultiAccess env db1 = Inr (e, db2) \<Longrightarrow> db_binlog db2 \<noteq> None"
    if "\<forall>ys. ce_write_log env ys" "db_binlog db \<noteq> None" for e db2
    using that writeMultiRemove_stays [OF that step] writeMultiAccess_stays [of env db1] by blast+
  have count: "countTimePoint env db1 = countTimePoint env db"
    using db1(6) by (simp add: countTimePoint_def seconds_since_def)
  show ?thesis
  proof (cases "trackEstimatedTime (db_settings db)")
    case True
    obtain err2 db2 where step2: "writeMultiAccess env db1 = Inr (err2, db2)" and db2: "db_ok env db2" "quiet db1 db2" "db_removing db2 = []"
      "touched (set (db_accessed db)) db1 db2" "db_time db2 = db_time db \<or> db_time db2 = countTimePoint env db"
      using writeMultiAccess_ok [OF ok1 assms(2)] True set1 db1(4-6) count by (auto elim!: ensuresE)
    then show ?thesis
      using True step set1 step2 db2 stay(2) [OF _ _ step2] db1(7) quiet_trans [OF db1(1)]
      by (simp add: writeBundles_def touched_def)
  next
    case False
    then show ?thesis
      using step set1 ok1 db1 stay by (simp add: writeBundles_def touched_def)
  qed
qed

lemma writeBundles_timer_keeps:
  assumes "db_ok env db" "clock_ok env"
  shows "ensures (writeBundles_timer env db) (db_ok env)"
proof -
  have "db_ok env (db\<lparr> db_bundles_timer := None \<rparr>)"
    using assms(1) by simp
  from ensures_mono [OF writeBundles_ok [OF this assms(2)]] show ?thesis
    by (simp add: writeBundles_timer_def only_timers_ok(1) [OF only_timers_compactor])
qed

end
