(* ===== verification/Cache_Reopen.thy ===== *)
theory Cache_Reopen
  imports Cache_Operations
begin

text \<open>
  Closing the cache and opening it again. The records that wait are written before the log is
  closed; reading the log in blocks then applies the records one after the other, so that the
  entries are found again.
\<close>

section \<open>A closed cache\<close>

definition closed_ok :: "cache_db \<Rightarrow> bool" where
  "closed_ok db \<longleftrightarrow> checkSettings (db_settings db) \<and> db_binlog db = None \<and> db_map db = [] \<and> db_removing db = [] \<and>
     db_accessed db = [] \<and> db_stale db = [] \<and> db_time db = zero_time \<and> db_total_size db = 0 \<and> db_minimal_time db = 0 \<and>
     db_tagged db = (\<lambda>_. None) \<and> db_key db = []"

lemma stats_exact_empty: "stats_exact [] 0 (\<lambda>_. None)"
  by (simp add: stats_exact_def map_size_def tag_count_def tag_size_def tagged_summary_of_def)

lemma closed_db_ok:
  assumes "closed_ok db" "clock_ok env"
  shows "db_ok env db"
proof -
  have "uint (getRelative zero_time) = 0" "uint (tp_system zero_time) = 0"
    by (simp_all add: getRelative_def zero_time_def)
  then show ?thesis
    using assms by (auto simp: db_ok_def core_ok_def closed_ok_def queues_ok_def log_for_def time_ok_def clock_ok_def
        map_ok_for_def stats_exact_empty minimal_ok_def checkSettings_def)
qed

lemma clearState_closed:
  "checkSettings (db_settings db) \<Longrightarrow> db_binlog db = None \<Longrightarrow> closed_ok (clearState db)"
  by (simp add: closed_ok_def clearState_def)

lemma clearState_fields [simp]:
  "db_base (clearState db) = db_base db" "db_settings (clearState db) = db_settings db"
  "db_disk (clearState db) = db_disk db" "db_binlog (clearState db) = db_binlog db"
  by (simp_all add: clearState_def)

text \<open>What closing leaves on the disk.\<close>

lemma db_close_ok:
  assumes "db_ok env db" "clock_ok env"
  shows "ensures (db_close env db) (\<lambda>db'. closed_ok db' \<and> db_ok env db' \<and>
    db_base db' = db_base db \<and> db_settings db' = db_settings db \<and>
    (\<forall>p. p \<noteq> binlogPath db \<longrightarrow> db_disk db' p = db_disk db p))"
proof -
  have settings: "checkSettings (db_settings db)"
    using db_okD(1) [OF assms(1)] by (simp add: core_ok_def)
  have clear: "closed_ok (clearState db1) \<and> db_ok env (clearState db1)"
    if "db_binlog db1 = None" "db_settings db1 = db_settings db" for db1
    using clearState_closed [of db1] that settings closed_db_ok [OF _ assms(2)] by simp
  obtain db1 where step: "writeBundles env db = Inr db1" and db1: "quiet db db1"
    using writeBundles_ok [OF assms] by (auto elim!: ensuresE)
  have "db_base db1 = db_base db" "db_settings db1 = db_settings db" "\<forall>p. p \<noteq> binlogPath db \<longrightarrow> db_disk db1 p = db_disk db p"
    using db1 by (simp_all add: quiet_def)
  then show ?thesis
    using step clear [of db] clear [of "binlog_close db1"]
    by (cases "db_binlog db = None") (simp_all add: db_close_def binlog_is_open_def)
qed

definition log_on_disk :: "cache_db \<Rightarrow> string \<Rightarrow> log_view \<Rightarrow> bool" where
  "log_on_disk db path v \<longleftrightarrow> (\<exists>xs. db_disk db path = Some xs \<and> log_says (db_settings db) xs v)"

lemma db_close_log:
  assumes "db_ok env db" "clock_ok env" "\<forall>ys. ce_write_log env ys" "db_binlog db \<noteq> None"
  shows "ensures (db_close env db) (\<lambda>db'. \<exists>t rel. (rel \<le> getRelative (db_time db) \<or> rel \<le> getRelative (countTimePoint env db)) \<and> log_on_disk db' (binlogPath db)
    (touch_keys t (if trackEstimatedTime (db_settings db) then set (db_accessed db) else {}) (map_of (db_map db)), rel))"
proof -
  obtain db1 where step: "writeBundles env db = Inr db1" and db1: "db_ok env db1" "quiet db db1" "db_removing db1 = []"
    "touched (if trackEstimatedTime (db_settings db) then set (db_accessed db) else {}) db db1" "db_binlog db1 \<noteq> None"
    "db_time db1 = db_time db \<or> db_time db1 = countTimePoint env db"
    using writeBundles_ok [OF assms(1,2)] assms(3,4) by (auto elim!: ensuresE)
  obtain xs rel where xs: "open_log db1 xs" "log_says (db_settings db1) xs (map_of (db_map db1), rel)"
    "rel \<le> getRelative (db_time db1)"
    using db_okD(2) [OF db1(1)] db1(3,5) by (auto simp: log_for_def time_says_def)
  let ?ks = "if trackEstimatedTime (db_settings db) then set (db_accessed db) else {}"
  obtain t where t: "map_of (db_map db1) = touch_keys t ?ks (map_of (db_map db))"
    using db1(4) by (auto simp: touched_def)
  have "db_settings db1 = db_settings db" "binlogPath db1 = binlogPath db"
    using db1(2) by (simp_all add: quiet_def binlogPath_def)
  then have "log_on_disk (clearState (binlog_close db1)) (binlogPath db) (touch_keys t ?ks (map_of (db_map db)), rel)"
    using xs t by (simp add: log_on_disk_def open_log_def)
  moreover have "rel \<le> getRelative (db_time db) \<or> rel \<le> getRelative (countTimePoint env db)"
    using db1(6) xs(3) by auto
  ultimately show ?thesis
    using step assms(4) by (auto simp: db_close_def binlog_is_open_def simp del: if_split_asm split del: if_split)
qed

section \<open>Reading the log\<close>

lemma handle_all_ok:
  "core_ok db \<Longrightarrow> list_all (record_valid (db_settings db)) rs \<Longrightarrow>
   ensures (handle_all process_record rs db) (\<lambda>(ok, db'). ok \<and> applies db db' \<and> view_of db' = fold replay rs (view_of db))"
proof (induction rs arbitrary: db)
  case Nil
  then show ?case
    by (simp add: applies_def)
next
  case (Cons r rs)
  obtain db1 where one: "process_record r db = Inr (True, db1)"
    and facts: "applies db db1 \<and> view_of db1 = replay r (view_of db)"
    using process_record_ok [OF Cons.prems(1), of r] Cons.prems(2) by (auto elim: ensures_okE)
  have "core_ok db1" "list_all (record_valid (db_settings db1)) rs"
    using facts Cons.prems(2) by (simp_all add: applies_def same_outside_def)
  from Cons.IH [OF this] obtain db2 where "handle_all process_record rs db1 = Inr (True, db2)"
    "applies db1 db2 \<and> view_of db2 = fold replay rs (view_of db1)"
    by (rule ensures_okE)
  then show ?case
    using one facts by (auto intro: applies_trans)
qed

definition blocks_ok :: "cache_settings \<Rightarrow> bool" where
  "blocks_ok st \<longleftrightarrow> CheckSettings (binlog_kinds (trackEstimatedTime st)) st \<and> readBlockSize st mod 16 = 0"

lemma read_log_ok:
  fixes db :: cache_db
  assumes "core_ok db" "blocks_ok (db_settings db)" "xs = header_bytes h @ concat (map record_bytes recs)"
    "list_all (record_valid (db_settings db)) recs"
  shows "ensures (readBinlogHelper (binlog_kinds (trackEstimatedTime (db_settings db))) (trackEstimatedTime (db_settings db))
      (db_settings db) process_record (BinlogWrapper \<lparr> pf_data = xs, pf_offset = 16 \<rparr> 0) \<lparr> pf_data = xs, pf_offset = 16 \<rparr> db)
    (\<lambda>(w, f, db'). f = \<lparr> pf_data = xs, pf_offset = length xs \<rparr> \<and> applies db db' \<and> view_of db' = fold replay recs (view_of db))"
proof -
  let ?st = "db_settings db"
  let ?kinds = "binlog_kinds (trackEstimatedTime ?st)" and ?track = "trackEstimatedTime ?st"
  have settings: "0 \<le> maxBundledRecords ?st"
    using core_bundled [OF assms(1)] by simp
  obtain db' where all: "handle_all process_record recs db = Inr (True, db')"
    and db': "applies db db' \<and> view_of db' = fold replay recs (view_of db)"
    using handle_all_ok [OF assms(1,4)] by (rule ensures_okE)
  have recs: "list_all (record_ok ?track ?st) recs"
    using assms(4) by (auto simp: list_all_iff record_valid_def)
  have drop: "drop 16 xs = concat (map record_bytes recs) @ []"
    by (simp add: assms(3))
  have parsed: "parse_log ?kinds ?track ?st process_record (drop 16 xs) db = Inr ([], False, db')"
    unfolding drop parse_log_records [OF settings recs all] by (rule parse_log_Nil)
  have "length (concat (map record_bytes recs)) mod 16 = 0"
    using recs
  proof (induction recs)
    case (Cons r rs)
    then have "16 dvd length (record_bytes r)" "16 dvd length (concat (map record_bytes rs))"
      using length_record_bytes [of ?track ?st r] by (simp_all add: mod_eq_0_iff_dvd del: length_concat)
    then have "16 dvd length (concat (map record_bytes (r # rs)))"
      by (simp del: length_concat)
    then show ?case
      by (simp only: mod_eq_0_iff_dvd)
  qed simp
  moreover have header: "header_bytes h \<noteq> []"
    by (metis length_header_bytes list.size(3) zero_neq_numeral)
  ultimately have len: "length xs mod 16 = 0" "16 \<le> length xs" "xs \<noteq> []"
    using assms(3) header by (simp_all del: length_concat)
  show ?thesis
    using reader_from_offset [of ?track ?st 16 xs process_record db] assms(2) settings len parsed db'
    by (auto simp: blocks_ok_def reader_result_def)
qed

definition same_files :: "cache_db \<Rightarrow> cache_db \<Rightarrow> bool" where
  "same_files db db' \<longleftrightarrow> db_base db' = db_base db \<and> db_path db' = db_path db \<and> db_settings db' = db_settings db \<and>
     db_key db' = db_key db \<and> db_stale db' = db_stale db \<and> (\<forall>p. p \<noteq> binlogPath db \<longrightarrow> db_disk db' p = db_disk db p)"

lemma quiet_files: "quiet db db' \<Longrightarrow> same_files db db'"
  by (simp add: quiet_def same_files_def)

lemma same_files_trans: "same_files a b \<Longrightarrow> same_files b c \<Longrightarrow> same_files a c"
  by (simp add: same_files_def binlogPath_def)

lemma adjustRelativeTime_ok:
  assumes "db_ok env db" "clock_ok env" "db_accessed db = []"
  shows "ensures (adjustRelativeTime env db) (\<lambda>db'. db_ok env db' \<and> quiet db db' \<and> db_removing db' = db_removing db \<and>
    map_of (db_map db') = map_of (db_map db) \<and>
    ((\<forall>ys. ce_write_log env ys) \<and> db_binlog db \<noteq> None \<longrightarrow> db_binlog db' \<noteq> None))"
proof (cases "trackEstimatedTime (db_settings db) \<and> GetUnixtime env < uint (tp_system (db_time db))")
  case False
  then show ?thesis
    using assms(1) by (auto simp: adjustRelativeTime_def)
next
  case True
  note ok = db_okD [OF assms(1)]
  obtain err db' where step: "writeMultiAccessBlock env db = Inr (err, db')"
    and facts: "quiet db db'" "core_ok db'" "log_ok (set (db_removing db)) db'" "time_ok env db'"
      "db_removing db' = db_removing db" "db_accessed db' = []" "map_of (db_map db') = map_of (db_map db)"
    using writeMultiAccessBlock_ok [OF ok(1,2) _ assms(2) ok(3)] True ok(6) assms(3) by (auto elim!: ensuresE)
  have "db_ok env db'"
    using facts ok core_bundled [OF ok(1)] by (simp add: db_ok_def queues_ok_def quiet_def)
  then show ?thesis
    using True step facts writeMultiAccessBlock_stays [OF _ _ step] by (auto simp: adjustRelativeTime_def)
qed

lemma time_ok_bound:
  assumes "clock_ok env" "uint (getRelative (db_time db)) < 2 ^ 62"
  shows "time_ok env db"
proof -
  have "GetUnixtime env - uint (tp_system (db_time db)) < 2 ^ 32"
    using assms(1) uint_ge_0 [of "tp_system (db_time db)"] unfolding clock_ok_def by linarith
  then show ?thesis
    using assms(2) by (auto simp: time_ok_def)
qed

lemma readBinlog_ok:
  assumes "core_ok db" "db_removing db = []" "db_accessed db = []" "db_binlog db = Some (binlogPath db, 16)"
    "db_disk db (binlogPath db) = Some xs" "xs = header_bytes h @ concat (map record_bytes recs)"
    "log_says (db_settings db) xs v" "list_all (record_valid (db_settings db)) recs" "v = fold replay recs (view_of db)"
    "blocks_ok (db_settings db)" "clock_ok env" "uint (snd v) < 2 ^ 62"
  shows "ensures (readBinlog env db) (\<lambda>db'. db_ok env db' \<and> same_files db db' \<and> map_of (db_map db') = fst v \<and> db_removing db' = [] \<and>
    ((\<forall>ys. ce_write_log env ys) \<longrightarrow> db_binlog db' \<noteq> None))"
proof -
  let ?st = "db_settings db" and ?f = "\<lparr> pf_data = xs, pf_offset = 16 \<rparr>"
  obtain w db1 where read: "readBinlogHelper (binlog_kinds (trackEstimatedTime ?st)) (trackEstimatedTime ?st) ?st process_record
      (BinlogWrapper ?f 0) ?f db = Inr (w, \<lparr> pf_data = xs, pf_offset = length xs \<rparr>, db1)"
    and db1: "applies db db1" "view_of db1 = v"
    using read_log_ok [OF assms(1,10,6,8)] assms(9) by (auto elim!: ensuresE)
  let ?db2 = "db1\<lparr> db_binlog := Some (binlogPath db, length xs) \<rparr>"
  have fields: "core_ok db1" "db_settings db1 = ?st" "binlogPath db1 = binlogPath db" "db_disk db1 = db_disk db"
    "db_removing db1 = []" "db_accessed db1 = []" "same_files db ?db2"
    using db1(1) assms(2,3) by (auto simp: applies_def same_outside_def binlogPath_def same_files_def)
  have view: "map_of (db_map db1) = fst v" "getRelative (db_time db1) = snd v"
    using arg_cong [OF db1(2), of fst] arg_cong [OF db1(2), of snd] by (simp_all add: view_of_def)
  have "open_log ?db2 xs"
    using fields assms(5) by (simp add: open_log_def binlogPath_def)
  moreover have "log_says (db_settings ?db2) xs (map_of (db_map db1), getRelative (db_time ?db2))"
    using assms(7) fields view by simp
  ultimately have "log_for {} (map_of (db_map ?db2)) ?db2"
    by (rule log_forI) simp_all
  moreover have "time_ok env ?db2"
    using time_ok_bound [OF assms(11)] view assms(12) by simp
  ultimately have ok: "db_ok env ?db2"
    using fields core_bundled [OF assms(1)] by (simp add: db_ok_def queues_ok_def)
  obtain db3 where step: "adjustRelativeTime env ?db2 = Inr db3" and db3: "db_ok env db3" "quiet ?db2 db3"
    "db_removing db3 = []" "map_of (db_map db3) = fst v" "(\<forall>ys. ce_write_log env ys) \<longrightarrow> db_binlog db3 \<noteq> None"
    using adjustRelativeTime_ok [OF ok assms(11)] fields view by (auto elim!: ensuresE)
  have files: "same_files db db3"
    using same_files_trans [OF fields(7) quiet_files [OF db3(2)]] .
  have "ensures (optimize env db3) (\<lambda>db'. db_ok env db' \<and> same_files db db' \<and> map_of (db_map db') = fst v \<and> db_removing db' = [] \<and>
    ((\<forall>ys. ce_write_log env ys) \<longrightarrow> db_binlog db' \<noteq> None))"
  proof (rule ensures_mono [OF optimize_ok])
    fix db'
    assume t: "only_timers db3 db'"
    then show "db_ok env db' \<and> same_files db db' \<and> map_of (db_map db') = fst v \<and> db_removing db' = [] \<and>
        ((\<forall>ys. ce_write_log env ys) \<longrightarrow> db_binlog db' \<noteq> None)"
      using db3 files only_timers_ok(1) [OF t] same_files_trans [OF files quiet_files [OF only_timers_ok(2) [OF t]]]
      by (simp add: only_timers_def)
  qed
  moreover have "binlog_content db = xs"
    using assms(4,5) by (simp add: binlog_content_def)
  ultimately show ?thesis
    using assms(4,10) read step by (simp add: readBinlog_def Let_def blocks_ok_def)
qed

section \<open>Opening\<close>

definition header_for :: "cache_settings \<Rightarrow> log_header \<Rightarrow> bool" where
  "header_for st h \<longleftrightarrow> hdr_format h = kLogFormat_0 \<and> hdr_flags h = (if trackEstimatedTime st then kTrackEstimatedTime else 0)"

lemma ReadHeader_ok:
  assumes "header_for st h"
  shows "ReadHeader st \<lparr> pf_data = header_bytes h @ xs, pf_offset = 0 \<rparr> =
    (Some h, \<lparr> pf_data = header_bytes h @ xs, pf_offset = 16 \<rparr>)"
proof -
  have "unat (hdr_flags h) < 2 ^ 24"
    using assms by (simp add: header_for_def kTrackEstimatedTime_def)
  then have "bytes_header (header_bytes h) = h"
    using bytes_header_header_bytes [of h "[]"] by simp
  then show ?thesis
    using assms by (simp add: ReadHeader_def plain_read_def Let_def header_for_def kTrackEstimatedTime_def)
qed

lemma versionPath_not_log: "versionPath db \<noteq> binlogPath db'"
proof -
  have "last (versionPath db) \<noteq> last (binlogPath db')"
    by (simp add: versionPath_def binlogPath_def BinlogFilename_def)
  then show ?thesis
    by metis
qed

definition open_path_ok :: "cache_env \<Rightarrow> int \<Rightarrow> cache_db \<Rightarrow> bool" where
  "open_path_ok env version db \<longleftrightarrow> db_disk db (compactReadyPathOf env version db) = None"

lemma openBinlog_read_ok:
  assumes "closed_ok db" "env_ok env" "ce_open env (binlogPathOf env version db) Mode_ReadAppend = Result_Success"
    "open_path_ok env version db" "log_on_disk db (binlogPathOf env version db) v" "blocks_ok (db_settings db)"
    "uint (snd v) < 2 ^ 62"
  shows "ensures (openBinlog env version Mode_ReadAppend key db) (\<lambda>(result, db'). result = Result_Success \<and> db_ok env db' \<and>
    db_base db' = db_base db \<and> db_path db' = computePath env version db \<and> db_settings db' = db_settings db \<and> db_key db' = key \<and>
    (\<forall>p. p \<noteq> binlogPathOf env version db \<longrightarrow> db_disk db' p = db_disk db p) \<and>
    map_of (db_map db') = fst v \<and> db_removing db' = [] \<and> ((\<forall>ys. ce_write_log env ys) \<longrightarrow> db_binlog db' \<noteq> None))"
proof -
  let ?path = "binlogPathOf env version db" and ?st = "db_settings db"
  obtain h recs where disk: "db_disk db ?path = Some (header_bytes h @ concat (map record_bytes recs))"
    and h: "header_for ?st h" "list_all (record_valid ?st) recs" "v = fold replay recs (Map.empty, ucast (hdr_time h))"
    using assms(5) unfolding log_on_disk_def log_says_def header_for_def by blast
  let ?xs = "header_bytes h @ concat (map record_bytes recs)"
  define db3 where "db3 = createCleaner (db\<lparr> db_disk := (db_disk db)(?path \<mapsto> ?xs), db_binlog := Some (?path, 16),
    db_time := setRelative (ucast (hdr_time h)) ((db_time db)\<lparr> tp_system := hdr_time h \<rparr>),
    db_path := computePath env version db, db_key := key \<rparr>)"
  have fields: "core_ok db3" "db_removing db3 = []" "db_accessed db3 = []" "db_binlog db3 = Some (binlogPath db3, 16)"
    "db_disk db3 (binlogPath db3) = Some ?xs" "db_settings db3 = ?st" "view_of db3 = (Map.empty, ucast (hdr_time h))"
    "db_base db3 = db_base db" "db_path db3 = computePath env version db" "db_key db3 = key" "binlogPath db3 = ?path"
    "\<And>p. p \<noteq> ?path \<Longrightarrow> db_disk db3 p = db_disk db p"
    using assms(1) stats_exact_empty
    by (auto simp: db3_def createCleaner_def pushStatsDelayed_def core_ok_def closed_ok_def map_ok_for_def minimal_ok_def
        binlogPath_def binlogPathOf_def view_of_def)
  have read: "ensures (readBinlog env db3) (\<lambda>db'. db_ok env db' \<and> same_files db3 db' \<and> map_of (db_map db') = fst v \<and>
      db_removing db' = [] \<and> ((\<forall>ys. ce_write_log env ys) \<longrightarrow> db_binlog db' \<noteq> None))"
    using assms(2,5,6,7) h fields disk
    by (intro readBinlog_ok [where xs = ?xs]) (simp_all add: env_ok_def log_on_disk_def)
  define db1 where "db1 = db\<lparr> db_disk := (db_disk db)(?path \<mapsto> ?xs), db_binlog := Some (?path, 0) \<rparr>"
  define db2 where "db2 = db\<lparr> db_disk := (db_disk db)(?path \<mapsto> ?xs), db_binlog := Some (?path, 16),
    db_time := setRelative (ucast (hdr_time h)) ((db_time db)\<lparr> tp_system := hdr_time h \<rparr>) \<rparr>"
  have "open_log_file env ?path Mode_ReadAppend db = (Result_Success, db1)"
    using assms(3) disk by (simp add: open_log_file_def db1_def)
  moreover have content: "binlog_content db1 = ?xs"
    by (simp add: db1_def binlog_content_def)
  moreover have "binlog_size db1 > 0"
    unfolding binlog_size_def content using length_header_bytes [of h] by simp
  moreover have "db_readHeader db1 = (True, db2)"
    unfolding db_readHeader_def content using ReadHeader_ok [OF h(1)] by (simp add: db1_def db2_def)
  moreover have "db3 = createCleaner (db2\<lparr> db_path := computePath env version db2, db_key := key \<rparr>)"
    by (simp add: db3_def db2_def computePath_def)
  ultimately have eq: "openBinlog env version Mode_ReadAppend key db =
      bind_outcome (readBinlog env db3) (\<lambda>db4. Inr (Result_Success, db4))"
    using assms(4) by (simp add: openBinlog_def open_path_ok_def)
  show ?thesis
    using read fields unfolding eq by (auto simp: same_files_def elim!: ensures_mono)
qed

lemma touch_keys_dom_hidden: "untimed (touch_keys t ks m k) = untimed (m k)"
  by (rule untimed_touch)

text \<open>The version file names the directory of the log.\<close>

definition version_ok :: "cache_env \<Rightarrow> cache_db \<Rightarrow> bool" where
  "version_ok env db \<longleftrightarrow> db_path db = computePath env (readVersion db) db"
lemma count_bound:
  assumes "clock_ok env" "time_ok env db" "uint (getRelative (db_time db)) < 2 ^ 61"
  shows "uint (getRelative (countTimePoint env db)) < 2 ^ 62"
proof -
  have "GetUnixtime env - uint (tp_system (db_time db)) < 2 ^ 32"
    using assms(1) uint_ge_0 [of "tp_system (db_time db)"] unfolding clock_ok_def by linarith
  then show ?thesis
    using countTimePoint_ok(1) [OF assms(1,2)] assms(3) by auto
qed

text \<open>C5. Closing the cache and opening it again, with a disk that works, fails no assertion and gives
  the same entries, with the same sizes, checksums, places and tags; the times are the same too,
  but for the entries accessed since the last bundle, which get the time of the closing. No file
  but the log changes.\<close>

theorem cache_reopen_same_entries:
  assumes "db_ok env db" "env_ok env" "\<forall>ys. ce_write_log env ys" "db_binlog db \<noteq> None"
    "ce_open env (binlogPath db) Mode_ReadAppend = Result_Success" "db_disk db (compactReadyPath db) = None"
    "version_ok env db" "blocks_ok (db_settings db)" "uint (getRelative (db_time db)) < 2 ^ 61"
  shows "ensures (db_open env key db) (\<lambda>(err, db'). err = NoError \<and> db_ok env db' \<and> db_binlog db' \<noteq> None \<and>
    db_path db' = db_path db \<and> db_settings db' = db_settings db \<and> db_key db' = key \<and>
    (\<exists>t. map_of (db_map db') = touch_keys t (if trackEstimatedTime (db_settings db) then set (db_accessed db) else {})
       (map_of (db_map db))) \<and>
    (\<forall>p. p \<noteq> binlogPath db \<longrightarrow> db_disk db' p = db_disk db p))"
proof -
  define ks where "ks = (if trackEstimatedTime (db_settings db) then set (db_accessed db) else {})"
  have clock: "clock_ok env"
    using assms(2) by (simp add: env_ok_def)
  obtain db1 t rel where close: "db_close env db = Inr db1"
    and db1: "closed_ok db1" "db_base db1 = db_base db" "db_settings db1 = db_settings db"
      "\<And>p. p \<noteq> binlogPath db \<Longrightarrow> db_disk db1 p = db_disk db p"
      "log_on_disk db1 (binlogPath db) (touch_keys t ks (map_of (db_map db)), rel)"
      "rel \<le> getRelative (db_time db) \<or> rel \<le> getRelative (countTimePoint env db)"
    using db_close_ok [OF assms(1) clock] db_close_log [OF assms(1) clock assms(3,4), folded ks_def]
    by (auto elim!: ensuresE)
  have rel: "uint rel < 2 ^ 62"
    using db1(6) count_bound [OF clock db_okD(3) [OF assms(1)] assms(9)] assms(9) by (auto simp: word_le_def)
  define version where "version = readVersion db"
  have version: "readVersion db1 = version" "computePath env version db1 = db_path db"
    "binlogPathOf env version db1 = binlogPath db" "compactReadyPathOf env version db1 = compactReadyPath db"
    using db1(2,4) versionPath_not_log [of db db] assms(7)
    by (simp_all add: version_def readVersion_def versionPath_def version_ok_def computePath_def binlogPathOf_def
        binlogPath_def compactReadyPathOf_def compactReadyPath_def)
  have "compactReadyPath db \<noteq> binlogPath db"
    by (simp add: compactReadyPath_def binlogPath_def CompactReadyFilename_def BinlogFilename_def)
  then have "open_path_ok env version db1"
    using db1(4) version(4) assms(6) by (simp add: open_path_ok_def)
  then have "ensures (openBinlog env version Mode_ReadAppend key db1) (\<lambda>(result, db'). result = Result_Success \<and> db_ok env db' \<and>
    db_base db' = db_base db1 \<and> db_path db' = computePath env version db1 \<and> db_settings db' = db_settings db1 \<and> db_key db' = key \<and>
    (\<forall>p. p \<noteq> binlogPathOf env version db1 \<longrightarrow> db_disk db' p = db_disk db1 p) \<and>
    map_of (db_map db') = fst (touch_keys t ks (map_of (db_map db)), rel) \<and> db_removing db' = [] \<and>
    ((\<forall>ys. ce_write_log env ys) \<longrightarrow> db_binlog db' \<noteq> None))"
    using db1 version assms(2,5,8) rel by (intro openBinlog_read_ok) simp_all
  then obtain db2 where opened: "openBinlog env version Mode_ReadAppend key db1 = Inr (Result_Success, db2)"
    and db2: "db_ok env db2" "db_path db2 = db_path db" "db_settings db2 = db_settings db" "db_key db2 = key"
      "\<forall>p. p \<noteq> binlogPath db \<longrightarrow> db_disk db2 p = db_disk db p" "map_of (db_map db2) = touch_keys t ks (map_of (db_map db))"
      "db_binlog db2 \<noteq> None"
    using db1 version assms(3) by (auto elim!: ensuresE)
  have "db_open env key db = Inr (NoError, db2)"
    using close opened version(1) by (simp add: db_open_def openSomeBinlog_def Let_def NoError_def)
  then show ?thesis
    using db2 by (auto simp flip: ks_def)
qed

section \<open>A cache with one entry\<close>

definition sample_time :: time_point where
  "sample_time = \<lparr> tp_relative1 = 100, tp_relative2 = 0, tp_system = 100 \<rparr>"

definition sample_key :: cache_key where "sample_key = Cache_key 1 2"

definition sample_place :: bytes where "sample_place = [1, 2, 3, 4, 5, 6, 7]"

definition sample_record :: store_record where
  "sample_record = \<lparr> sr_tag = 1, sr_size = [1, 0, 0], sr_place = sample_place, sr_checksum = 0, sr_key = sample_key,
     sr_time = Some sample_time \<rparr>"

definition sample_entry :: cache_entry where
  "sample_entry = \<lparr> en_use_time = 100, en_size = 1, en_checksum = 0, en_place = sample_place, en_tag = 1 \<rparr>"

definition sample_header :: log_header where
  "sample_header = BasicHeader\<lparr> hdr_flags := kTrackEstimatedTime, hdr_time := 100 \<rparr>"

definition sample_log :: bytes where
  "sample_log = header_bytes sample_header @ record_bytes (Log_store sample_record)"

definition sample_db :: cache_db where
  "sample_db =
     \<lparr> db_base = ''c/'', db_path = ''c/0/'', db_settings = default_settings, db_key = [1],
       db_disk = [''c/0/binlog'' \<mapsto> sample_log, ''c/0/'' @ PlaceFromId sample_place \<mapsto> 42 # replicate 15 0],
       db_binlog = Some (''c/0/binlog'', length sample_log), db_map = [(sample_key, sample_entry)],
       db_removing = [], db_accessed = [sample_key], db_stale = [], db_time = sample_time, db_excess = 0,
       db_total_size = 1, db_minimal_time = 100, db_minimal_count = 1,
       db_tagged = [1 \<mapsto> \<lparr> sum_count = 1, sum_size = 1 \<rparr>], db_has_consumers = False, db_pushing_stats = False,
       db_clearing_stale = False, db_bundles_timer = None, db_prune_timer = None, db_cleaner = False,
       db_compactor = no_compactor, db_events = [] \<rparr>"

definition sample_env :: cache_env where
  "sample_env =
     \<lparr> ce_unixtime = 160, ce_now = 0, ce_number = (\<lambda>_. ''0''), ce_open = (\<lambda>_ _. Result_Success),
       ce_write_log = (\<lambda>_. True), ce_written_log = (\<lambda>_. 0), ce_write_file = (\<lambda>_. True), ce_remove_file = (\<lambda>_. True), ce_move_file = (\<lambda>_ _. True),
       ce_write_version = True, ce_versions = [], ce_checksum = (\<lambda>_. 0), ce_padding = replicate 16 0,
       ce_places = [replicate 7 9], ce_order = (\<lambda>m. m) \<rparr>"

lemma sample_relative: "getRelative sample_time = 100"
  by (simp add: sample_time_def getRelative_def)

lemma sample_log_says: "log_says default_settings sample_log ([sample_key \<mapsto> sample_entry], 100)"
  unfolding log_says_def
proof (intro exI conjI)
  show "sample_log = header_bytes sample_header @ concat (map record_bytes [Log_store sample_record])"
    by (simp add: sample_log_def)
  show "hdr_format sample_header = kLogFormat_0"
    "hdr_flags sample_header = (if trackEstimatedTime default_settings then kTrackEstimatedTime else 0)"
    by (simp_all add: sample_header_def BasicHeader_def default_settings_def)
  have size: "getSize sample_record = 1"
    by (simp add: getSize_def sample_record_def ReadFrom_le_value)
  then show "list_all (record_valid default_settings) [Log_store sample_record]"
    by (simp add: record_valid_def record_ok_def store_ok_def store_valid_def sample_record_def sample_place_def
        default_settings_def kDataSizeLimit_def)
  show "([sample_key \<mapsto> sample_entry], 100) =
      fold replay [Log_store sample_record] (Map.empty, ucast (hdr_time sample_header))"
    using size by (simp add: replay_def replay_store_def store_entry_def sample_record_def sample_header_def
        sample_entry_def sample_relative)
qed

lemma sample_path: "binlogPath sample_db = ''c/0/binlog''" "PlaceFromId p \<noteq> ''binlog''"
  using PlaceFromId_not_log [of p] by (simp_all add: sample_db_def binlogPath_def BinlogFilename_def)

lemma sample_db_ok: "db_ok sample_env sample_db"
proof -
  have "core_ok sample_db"
    by (auto simp: core_ok_def sample_db_def default_settings_def checkSettings_def kDataSizeLimit_def kBundledRecordsLimit_def
        map_ok_for_def entry_ok_def sample_entry_def sample_place_def stats_exact_def map_size_def tag_count_def tag_size_def
        tagged_summary_of_def minimal_ok_def)
  moreover have "queues_ok sample_db"
    by (simp add: queues_ok_def sample_db_def default_settings_def)
  moreover have "time_ok sample_env sample_db"
    using sample_relative by (simp add: time_ok_def sample_env_def sample_db_def GetUnixtime_def sample_time_def)
  moreover have "open_log sample_db sample_log"
    unfolding open_log_def sample_path by (simp add: sample_db_def sample_path(2) [symmetric])
  then have "log_ok (set (db_removing sample_db)) sample_db"
  proof (rule log_forI [where t = 100])
    show "log_says (db_settings sample_db) sample_log (map_of (db_map sample_db), 100)"
      using sample_log_says by (simp add: sample_db_def)
  qed (use sample_relative in \<open>simp_all add: sample_db_def\<close>)
  ultimately show ?thesis
    by (simp add: db_ok_def)
qed

lemma sample_blocks: "blocks_ok default_settings"
  by (simp add: blocks_ok_def default_settings_def binlog_kinds_def store_size_def)
theorem cache_reopen_same_entries_witness:
  "ensures (db_open sample_env [7] sample_db) (\<lambda>(err, db'). err = NoError \<and>
    (\<exists>t. map_of (db_map db') sample_key = Some (sample_entry\<lparr> en_use_time := t \<rparr>)))"
proof -
  have env: "env_ok sample_env" "\<forall>ys. ce_write_log sample_env ys"
    "ce_open sample_env (binlogPath sample_db) Mode_ReadAppend = Result_Success"
    by (simp_all add: env_ok_def clock_ok_def sample_env_def GetUnixtime_def)
  have disk: "db_disk sample_db (compactReadyPath sample_db) = None" "version_ok sample_env sample_db"
    by (simp_all add: sample_db_def sample_env_def compactReadyPath_def CompactReadyFilename_def PlaceFromId_Cons sample_place_def
        push_hex_def version_ok_def computePath_def)
  have rest: "db_binlog sample_db \<noteq> None" "blocks_ok (db_settings sample_db)" "uint (getRelative (db_time sample_db)) < 2 ^ 61"
    using sample_blocks sample_relative by (simp_all add: sample_db_def)
  have map: "trackEstimatedTime (db_settings sample_db)" "db_accessed sample_db = [sample_key]"
    "db_map sample_db = [(sample_key, sample_entry)]"
    by (simp_all add: sample_db_def default_settings_def)
  show ?thesis
    using cache_reopen_same_entries [OF sample_db_ok env(1,2) rest(1) env(3) disk rest(2,3), of "[7]"]
    by (rule ensures_mono) (auto simp: map touch_keys_def)
qed

section \<open>The invariant\<close>

text \<open>C4. Whatever the disk answers, no operation of an open cache fails an assertion, and each keeps
  the invariant: the total and the counters per tag are exactly those of the entries, no place in
  a queue is out of bounds, and the log, as long as it is open, stands for the entries, less those
  that wait to be written as removed.\<close>

theorem cache_operations_keep_invariant:
  assumes "db_ok env db" "env_ok env" "fits env v db"
    "checkSettings (db_settings db\<lparr> totalSizeLimit := size_limit, totalTimeLimit := time_limit \<rparr>)"
  shows "keeps env (db_put env key v db) \<and> keeps env (db_get env key db) \<and> keeps env (db_remove env key db) \<and>
    keeps env (putIfEmpty env key v db) \<and> keeps env (copyIfEmpty env key other db) \<and>
    keeps env (moveIfEmpty env key other db) \<and> keeps env (clearByTag env tag db) \<and>
    ensures (prune_timer env db) (db_ok env) \<and> ensures (clear_chunk_task env db) (db_ok env) \<and>
    ensures (writeBundles_timer env db) (db_ok env) \<and> ensures (waitForCleaner env db) (db_ok env) \<and>
    ensures (updateSettings env size_limit time_limit db) (db_ok env) \<and> ensures (db_close env db) (db_ok env)"
proof -
  have clock: "clock_ok env" and room: "room env db"
    using assms(2,3) by (simp_all add: env_ok_def fits_def)
  have "ensures (waitForCleaner env db) (db_ok env)" "ensures (db_close env db) (db_ok env)"
    using waitForCleaner_keeps [OF assms(1)] db_close_ok [OF assms(1) clock] by (auto elim!: ensures_mono)
  then show ?thesis
    using assms clock room
    by (simp add: db_put_keeps db_get_keeps db_remove_keeps putIfEmpty_keeps copyIfEmpty_keeps moveIfEmpty_keeps
        clearByTag_keeps prune_timer_keeps clear_chunk_task_keeps writeBundles_timer_keeps updateSettings_keeps)
qed

lemma sample_free: "isFreePlace (replicate 7 9) sample_db"
proof -
  have "placePath (replicate 7 9) sample_db \<noteq> placePath sample_place sample_db"
    using placePath_inj [of "replicate 7 9" sample_place sample_db] by (auto simp: sample_place_def numeral_eq_Suc)
  then show ?thesis
    using placePath_not_log(1) [of "replicate 7 9" sample_db] unfolding sample_path
    by (simp add: isFreePlace_def) (simp add: sample_db_def placePath_def)
qed

text \<open>A cache whose disk refuses every write.\<close>

definition broken_env :: cache_env where
  "broken_env = sample_env\<lparr> ce_open := (\<lambda>_ _. Result_Failed), ce_write_log := (\<lambda>_. False),
     ce_write_file := (\<lambda>_. False), ce_remove_file := (\<lambda>_. False) \<rparr>"

theorem cache_operations_keep_invariant_witness:
  "keeps broken_env (db_put broken_env (Cache_key 5 5) \<lparr> tv_bytes = [5, 6], tv_tag = 0 \<rparr> sample_db) \<and>
   keeps broken_env (db_get broken_env sample_key sample_db) \<and> ensures (prune_timer broken_env sample_db) (db_ok broken_env)"
proof -
  have fits: "fits broken_env \<lparr> tv_bytes = [5, 6], tv_tag = 0 \<rparr> sample_db"
    using sample_free by (simp add: fits_def room_def sample_env_def broken_env_def) (simp add: sample_db_def default_settings_def kDataSizeLimit_def)
  have env: "env_ok broken_env"
    by (simp add: env_ok_def clock_ok_def broken_env_def sample_env_def GetUnixtime_def)
  have "db_ok broken_env sample_db"
    using sample_db_ok by (simp add: db_ok_def time_ok_def broken_env_def GetUnixtime_def)
  from cache_operations_keep_invariant [OF this env fits, of 0 0] show ?thesis
    by (simp add: sample_db_def checkSettings_def default_settings_def kDataSizeLimit_def kBundledRecordsLimit_def)
qed

end
