(* ===== verification/Cache_Refinement.thy ===== *)
theory Cache_Refinement
  imports Cache_Reopen
begin

text \<open>
  With a disk that works, the cache is a map from keys to values. The abstraction \<open>stored\<close> reads
  the entries and their files; every operation does to it what its name says.
\<close>

section \<open>The abstraction\<close>

definition works :: "cache_env \<Rightarrow> bool" where
  "works env \<longleftrightarrow> clock_ok env \<and> (\<forall>p mode. ce_open env p mode = Result_Success) \<and> (\<forall>ys. ce_write_log env ys) \<and>
     (\<forall>p. ce_write_file env p) \<and> (\<forall>p. ce_remove_file env p) \<and> (\<forall>place\<in>set (ce_places env). length place = 7) \<and>
     16 \<le> length (ce_padding env)"

lemma works_env_ok: "works env \<Longrightarrow> env_ok env"
  by (simp add: works_def env_ok_def)

definition stored :: "cache_env \<Rightarrow> cache_db \<Rightarrow> cache_key \<Rightarrow> tagged_value option" where
  "stored env db key =
     (case map_of (db_map db) key of
        None \<Rightarrow> None
      | Some e \<Rightarrow>
          let xs = file_value (en_place e) (en_size e) db
          in if xs = [] \<or> ce_checksum env xs \<noteq> en_checksum e then None
             else Some \<lparr> tv_bytes = xs, tv_tag = en_tag e \<rparr>)"

text \<open>Every entry has a file of its own.\<close>

definition files_ok :: "cache_db \<Rightarrow> bool" where
  "files_ok db \<longleftrightarrow>
     (\<forall>k e. map_of (db_map db) k = Some e \<longrightarrow> length (en_place e) = 7 \<and> db_disk db (placePath (en_place e) db) \<noteq> None) \<and>
     (\<forall>k e k' e'. map_of (db_map db) k = Some e \<longrightarrow> map_of (db_map db) k' = Some e' \<longrightarrow> k \<noteq> k' \<longrightarrow> en_place e \<noteq> en_place e')"

definition cache_ok :: "cache_env \<Rightarrow> cache_db \<Rightarrow> bool" where
  "cache_ok env db \<longleftrightarrow> db_ok env db \<and> files_ok db \<and> db_binlog db \<noteq> None"

lemma untimed_Some: "untimed x = untimed (Some e) \<Longrightarrow>
    \<exists>e'. x = Some e' \<and> en_place e' = en_place e \<and> en_size e' = en_size e \<and> en_checksum e' = en_checksum e \<and> en_tag e' = en_tag e"
proof (cases x)
  case (Some a)
  assume "untimed x = untimed (Some e)"
  then have "a\<lparr> en_use_time := 0 \<rparr> = e\<lparr> en_use_time := 0 \<rparr>"
    using Some by (simp add: untimed_def)
  then show ?thesis
    using Some by (cases a; cases e) simp
qed (simp add: untimed_def)

text \<open>The entries and the files of some keys are the same.\<close>

definition same_key :: "cache_db \<Rightarrow> cache_db \<Rightarrow> cache_key \<Rightarrow> bool" where
  "same_key db db' k \<longleftrightarrow> untimed (map_of (db_map db') k) = untimed (map_of (db_map db) k) \<and>
     (\<forall>e. map_of (db_map db) k = Some e \<longrightarrow>
        db_disk db' (placePath (en_place e) db) = db_disk db (placePath (en_place e) db))"

lemma stored_same:
  assumes "same_key db db' k" "db_path db' = db_path db"
  shows "stored env db' k = stored env db k"
proof (cases "map_of (db_map db) k")
  case None
  then show ?thesis
    using assms by (simp add: stored_def same_key_def)
next
  case (Some e)
  then obtain e' where "map_of (db_map db') k = Some e'" "en_place e' = en_place e" "en_size e' = en_size e"
    "en_checksum e' = en_checksum e" "en_tag e' = en_tag e"
    using untimed_Some [of "map_of (db_map db') k" e] assms(1) by (auto simp: same_key_def)
  moreover have "file_value (en_place e) (en_size e) db' = file_value (en_place e) (en_size e) db"
    using assms Some by (simp add: same_key_def file_value_def placePath_def)
  ultimately show ?thesis
    using Some by (simp add: stored_def Let_def)
qed

lemma files_ok_same:
  assumes "files_ok db" "\<And>k. map_of (db_map db') k \<noteq> None \<Longrightarrow> same_key db db' k" "db_path db' = db_path db"
  shows "files_ok db'"
proof -
  have origin: "\<exists>e0. map_of (db_map db) k = Some e0 \<and> en_place e0 = en_place e \<and>
      db_disk db' (placePath (en_place e) db') = db_disk db (placePath (en_place e) db)"
    if "map_of (db_map db') k = Some e" for k e
  proof -
    have same: "same_key db db' k"
      using assms(2) that by simp
    then have "untimed (map_of (db_map db) k) = untimed (Some e)"
      unfolding same_key_def that by simp
    then obtain e0 where "map_of (db_map db) k = Some e0" "en_place e0 = en_place e"
      using untimed_Some [of "map_of (db_map db) k" e] by blast
    then show ?thesis
      using same assms(3) by (auto simp: same_key_def placePath_def)
  qed
  show ?thesis
    unfolding files_ok_def
  proof (intro conjI allI impI)
    fix k e
    assume "map_of (db_map db') k = Some e"
    from origin [OF this] show "length (en_place e) = 7" "db_disk db' (placePath (en_place e) db') \<noteq> None"
      using assms(1) unfolding files_ok_def by metis+
  next
    fix k e k' e'
    assume "map_of (db_map db') k = Some e" "map_of (db_map db') k' = Some e'" "k \<noteq> k'"
    then show "en_place e \<noteq> en_place e'"
      using origin assms(1) unfolding files_ok_def by metis
  qed
qed

lemma quiet_same: "quiet db db' \<Longrightarrow> same_key db db' k"
  by (simp add: quiet_def same_key_def)

lemma quiet_stored:
  assumes "quiet db db'"
  shows "stored env db' = stored env db" "files_ok db \<Longrightarrow> files_ok db'"
proof -
  have path: "db_path db' = db_path db"
    using assms by (simp add: quiet_def)
  show "stored env db' = stored env db"
    using stored_same [OF quiet_same [OF assms] path] by (simp add: fun_eq_iff)
  show "files_ok db \<Longrightarrow> files_ok db'"
    using files_ok_same [OF _ quiet_same [OF assms] path] by blast
qed

lemma removed_stored:
  assumes "removed_key key db db'" "files_ok db"
  shows "stored env db' = (stored env db)(key := None)" "files_ok db'"
proof -
  have path: "db_path db' = db_path db"
    using assms by (simp add: removed_key_def)
  have same: "same_key db db' k" if "k \<noteq> key" for k
  proof -
    have "placePath (en_place e) db \<noteq> placePath (en_place e') db"
      if "map_of (db_map db) k = Some e" "map_of (db_map db) key = Some e'" for e e'
      using that \<open>k \<noteq> key\<close> assms(2) placePath_inj unfolding files_ok_def by metis
    then show ?thesis
      using assms(1) \<open>k \<noteq> key\<close> by (simp add: same_key_def removed_key_def)
  qed
  have gone: "map_of (db_map db') key = None"
    using assms(1) unfolding removed_key_def by (metis untimed_None(1))
  then have "stored env db' key = None"
    by (simp add: stored_def)
  then show "stored env db' = (stored env db)(key := None)"
    using stored_same [OF same path] by (simp add: fun_eq_iff)
  show "files_ok db'"
  proof (rule files_ok_same [OF assms(2) _ path])
    fix k
    assume "map_of (db_map db') k \<noteq> None"
    then show "same_key db db' k"
      using gone same by metis
  qed
qed

section \<open>The log stays open\<close>

lemma db_remove_stays:
  assumes "works env" "db_binlog db \<noteq> None" "db_remove env key db = Inr (err, db')"
  shows "db_binlog db' \<noteq> None \<and> err = NoError"
proof (cases "map_of (db_map db) key")
  case None
  then show ?thesis
    using assms by (simp add: db_remove_def map_entry_def)
next
  case (Some entry)
  have log: "\<forall>ys. ce_write_log env ys" and files: "\<forall>p. ce_remove_file env p"
    using assms(1) by (simp_all add: works_def)
  let ?db0 = "db\<lparr> db_removing := List.insort_insert key (db_removing db) \<rparr>"
  obtain db1 db2 where 1: "writeMultiRemoveLazy env ?db0 = Inr db1" and 2: "eraseMapEntry key db1 = Inr db2"
    and 3: "Inr (err, db') = (let (removed, db3) = remove_file env (placePath (en_place entry) db1) db2
      in Inr (if removed then NoError else ioError (placePath (en_place entry) db1), db3) :: (cache_error \<times> cache_db) outcome)"
    using assms(3) Some by (auto simp: db_remove_def map_entry_def bind_outcome_Inr_iff Let_def)
  have "db_binlog db1 \<noteq> None"
    using 1 assms(2) writeMultiRemove_stays [OF log, of ?db0]
    by (auto simp: writeMultiRemoveLazy_def writeBundlesLazy_def bind_outcome_Inr_iff split: if_splits)
  then show ?thesis
    using 3 eraseMapEntry_binlog [OF 2] files by (auto simp: remove_file_def split: if_splits)
qed

lemma optimize_stays:
  assumes "optimize env db = Inr db'"
  shows "db_binlog db' = db_binlog db"
  using optimize_ok [of env db] assms by (simp add: only_timers_def)

lemma recordEntryAccess_stays:
  assumes "works env" "db_binlog db \<noteq> None" "recordEntryAccess env key db = Inr db'"
  shows "db_binlog db' \<noteq> None"
proof (cases "trackEstimatedTime (db_settings db)")
  case True
  have log: "\<forall>ys. ce_write_log env ys"
    using assms(1) by (simp add: works_def)
  let ?db0 = "db\<lparr> db_accessed := List.insort_insert key (db_accessed db) \<rparr>"
  obtain db1 where 1: "writeMultiAccessLazy env ?db0 = Inr db1" and 2: "optimize env db1 = Inr db'"
    using assms(3) True by (auto simp: recordEntryAccess_def bind_outcome_Inr_iff)
  have "db_binlog db1 \<noteq> None"
    using 1 assms(2) writeMultiAccess_stays [OF log, of ?db0]
    by (auto simp: writeMultiAccessLazy_def writeBundlesLazy_def bind_outcome_Inr_iff split: if_splits)
  then show ?thesis
    using optimize_stays [OF 2] by simp
qed (use assms in \<open>simp add: recordEntryAccess_def\<close>)

section \<open>The operations on the abstraction\<close>

definition implements :: "cache_env \<Rightarrow> ('r \<times> cache_db) outcome \<Rightarrow> 'r \<Rightarrow> (cache_key \<Rightarrow> tagged_value option) \<Rightarrow> bool" where
  "implements env m r f \<longleftrightarrow> ensures m (\<lambda>(r', db'). r' = r \<and> cache_ok env db' \<and> stored env db' = f)"

lemma implements_Inr [simp]: "implements env (Inr (r', db)) r f \<longleftrightarrow> r' = r \<and> cache_ok env db \<and> stored env db = f"
  by (simp add: implements_def)

lemma implementsE:
  assumes "implements env m r f"
  obtains db' where "m = Inr (r, db')" "cache_ok env db'" "stored env db' = f"
  using assms by (cases m) (auto simp: implements_def ensures_def)

lemma db_remove_implements:
  assumes "works env" "cache_ok env db"
  shows "implements env (db_remove env key db) NoError ((stored env db)(key := None))"
proof -
  have ok: "db_ok env db" "files_ok db" "db_binlog db \<noteq> None"
    using assms(2) by (simp_all add: cache_ok_def)
  obtain err db' where step: "db_remove env key db = Inr (err, db')" and db': "db_ok env db'" "removed_key key db db'"
    using db_remove_ok [OF ok(1), of key] by (auto elim!: ensuresE)
  show ?thesis
    using step db' removed_stored [OF db'(2) ok(2)] db_remove_stays [OF assms(1) ok(3) step] by (simp add: cache_ok_def)
qed

lemma recordEntryAccess_implements:
  assumes "works env" "cache_ok env db"
  shows "implements env (bind_outcome (recordEntryAccess env key db) (\<lambda>db'. Inr (r, db'))) r (stored env db)"
proof -
  have ok: "db_ok env db" "files_ok db" "db_binlog db \<noteq> None"
    using assms(2) by (simp_all add: cache_ok_def)
  obtain db' where step: "recordEntryAccess env key db = Inr db'" and db': "quiet db db'" "db_ok env db'"
    using recordEntryAccess_ok [OF ok(1), of key] assms(1) by (auto simp: works_def elim!: ensuresE)
  show ?thesis
    using step db' quiet_stored [OF db'(1)] ok(2) recordEntryAccess_stays [OF assms(1) ok(3) step] by (simp add: cache_ok_def)
qed

definition found :: "tagged_value option \<Rightarrow> tagged_value" where
  "found v = (case v of None \<Rightarrow> empty_value | Some w \<Rightarrow> w)"

text \<open>A value is handed to the callback only when it is whole; otherwise its entry is removed.\<close>

lemma db_get_with_implements:
  assumes "works env" "cache_ok env db"
    "\<And>db'. cache_ok env db' \<Longrightarrow> stored env db' = stored env db \<Longrightarrow> (stored env db key = None \<or> db' = db) \<Longrightarrow>
       implements env (callback (found (stored env db key)) db') r f"
  shows "implements env (db_get_with env key callback db) r f"
proof (cases "map_of (db_map db) key")
  case None
  then show ?thesis
    using assms(2) assms(3) [of db] by (simp add: db_get_with_def map_entry_def stored_def found_def)
next
  case (Some e)
  define xs where "xs = file_value (en_place e) (en_size e) db"
  have read: "readValueData env (en_place e) (en_size e) db = Inr xs"
    using assms(1) by (simp add: readValueData_works works_def xs_def)
  show ?thesis
  proof (cases "xs = [] \<or> ce_checksum env xs \<noteq> en_checksum e")
    case True
    then have none: "stored env db key = None"
      using Some by (simp add: stored_def Let_def flip: xs_def)
    obtain db1 where "db_remove env key db = Inr (NoError, db1)" "cache_ok env db1" "stored env db1 = (stored env db)(key := None)"
      using db_remove_implements [OF assms(1,2)] by (rule implementsE)
    then show ?thesis
      using Some read True none assms(3) [of db1] by (simp add: db_get_with_def map_entry_def found_def fun_upd_idem)
  next
    case False
    then have "stored env db key = Some \<lparr> tv_bytes = xs, tv_tag = en_tag e \<rparr>"
      using Some by (simp add: stored_def Let_def flip: xs_def)
    then have "implements env (callback \<lparr> tv_bytes = xs, tv_tag = en_tag e \<rparr> db) r f"
      using assms(2) assms(3) [of db] by (simp add: found_def)
    then obtain db1 where "callback \<lparr> tv_bytes = xs, tv_tag = en_tag e \<rparr> db = Inr (r, db1)" "cache_ok env db1" "stored env db1 = f"
      by (rule implementsE)
    then show ?thesis
      using Some read False recordEntryAccess_implements [OF assms(1), of db1 key r] by (simp add: db_get_with_def map_entry_def)
  qed
qed

section \<open>Putting\<close>

lemma padded_roundtrip:
  assumes "16 \<le> length padding"
  shows "fst (plain_read_padded (length xs)
    \<lparr> pf_data = pf_data (plain_write_padded padding xs \<lparr> pf_data = [], pf_offset = 0 \<rparr>), pf_offset = 0 \<rparr>) = xs"
proof -
  let ?n = "length xs" and ?r = "length xs mod 16"
  let ?good = "?n - ?r"
  have bytes: "pf_data (plain_write_padded padding xs \<lparr> pf_data = [], pf_offset = 0 \<rparr>) =
      xs @ (if ?r = 0 then [] else take (16 - ?r) padding)"
    by (simp add: plain_write_padded_def plain_write_def overwrite_def)
  show ?thesis
  proof (cases "?r = 0")
    case True
    then show ?thesis
      unfolding bytes by (simp add: plain_read_padded_def plain_read_def Let_def)
  next
    case False
    have "?good \<le> ?n" "?r < 16" "?n - ?good = ?r"
      by simp_all
    moreover have "take ?r (take 16 (drop ?good (xs @ take (16 - ?r) padding))) = drop ?good xs"
      using calculation by (simp add: min_def)
    ultimately show ?thesis
      using False append_take_drop_id [of ?good xs] unfolding bytes
      by (simp add: plain_read_padded_def plain_read_def Let_def)
  qed
qed

text \<open>An entry and its file are written.\<close>

lemma stored_written:
  assumes "stored_key key (value_entry v (ce_checksum env (tv_bytes v)) place) db db1" "good_place key place db" "files_ok db"
    "tv_bytes v \<noteq> []" "16 \<le> length (ce_padding env)"
    "db_map db2 = db_map db1" "db_path db2 = db_path db1"
    "db_disk db2 = (db_disk db1)(placePath place db \<mapsto>
       pf_data (plain_write_padded (ce_padding env) (tv_bytes v) \<lparr> pf_data = [], pf_offset = 0 \<rparr>))"
  shows "stored env db2 = (stored env db)(key \<mapsto> v)" "files_ok db2"
proof -
  let ?checksum = "ce_checksum env (tv_bytes v)"
  let ?e = "value_entry v ?checksum place"
  have path: "db_path db2 = db_path db"
    using assms(1,7) by (simp add: stored_key_def)
  have place: "length place = 7"
    using assms(2) by (simp add: good_place_def)
  have other: "en_place e \<noteq> place" if "map_of (db_map db) k = Some e" "k \<noteq> key" for k e
  proof (cases "map_of (db_map db) key")
    case None
    then have "db_disk db (placePath place db) = None"
      using assms(2) by (simp add: good_place_def isFreePlace_def)
    then show ?thesis
      using that(1) assms(3) unfolding files_ok_def by metis
  next
    case (Some e')
    then have "en_place e' = place"
      using assms(2) by (simp add: good_place_def)
    then show ?thesis
      using that Some assms(3) unfolding files_ok_def by metis
  qed
  have same: "same_key db db2 k" if "k \<noteq> key" for k
  proof -
    have "placePath (en_place e) db \<noteq> placePath place db" if "map_of (db_map db) k = Some e" for e
      using other [OF that \<open>k \<noteq> key\<close>] placePath_inj [OF _ place] assms(3) that unfolding files_ok_def by metis
    then show ?thesis
      using assms(1) \<open>k \<noteq> key\<close> by (simp add: same_key_def stored_key_def assms(6,8))
  qed
  have "untimed (map_of (db_map db2) key) = untimed (Some ?e)"
    using assms(1,6) by (simp add: stored_key_def)
  from untimed_Some [OF this] obtain e' where e': "map_of (db_map db2) key = Some e'" "en_place e' = place"
    "en_size e' = int (length (tv_bytes v))" "en_checksum e' = ?checksum" "en_tag e' = tv_tag v"
    by (auto simp: value_entry_def)
  have same_path: "placePath place db2 = placePath place db"
    by (simp add: placePath_def path)
  have "file_value place (int (length (tv_bytes v))) db2 = tv_bytes v"
    by (simp add: file_value_def same_path assms(8) Let_def padded_roundtrip [OF assms(5)])
  then have "stored env db2 key = Some v"
    using e' assms(4) by (simp add: stored_def)
  then show "stored env db2 = (stored env db)(key \<mapsto> v)"
    using stored_same [OF same path] by (simp add: fun_eq_iff)
  have origin: "\<exists>e0. map_of (db_map db) k = Some e0 \<and> en_place e0 = en_place e \<and> db_disk db2 (placePath (en_place e) db2) \<noteq> None"
    if k: "map_of (db_map db2) k = Some e" "k \<noteq> key" for k e
  proof -
    have "untimed (map_of (db_map db) k) = untimed (Some e)"
      using same [OF k(2)] unfolding same_key_def k(1) by simp
    then obtain e0 where e0: "map_of (db_map db) k = Some e0" "en_place e0 = en_place e"
      using untimed_Some [of "map_of (db_map db) k" e] by blast
    then have "db_disk db2 (placePath (en_place e) db) = db_disk db (placePath (en_place e) db)"
      using same [OF k(2)] by (auto simp: same_key_def)
    then show ?thesis
      using e0 assms(3) path unfolding files_ok_def by (metis placePath_def)
  qed
  show "files_ok db2"
    unfolding files_ok_def
  proof (intro conjI allI impI)
    fix k e
    assume k: "map_of (db_map db2) k = Some e"
    show "length (en_place e) = 7"
    proof (cases "k = key")
      case True
      then show ?thesis
        using k e' place by simp
    next
      case False
      then show ?thesis
        using origin [OF k False] assms(3) unfolding files_ok_def by metis
    qed
    show "db_disk db2 (placePath (en_place e) db2) \<noteq> None"
    proof (cases "k = key")
      case True
      then show ?thesis
        using k e' by (simp add: same_path assms(8))
    next
      case False
      then show ?thesis
        using origin [OF k False] by blast
    qed
  next
    fix k e k' e''
    assume k: "map_of (db_map db2) k = Some e" "map_of (db_map db2) k' = Some e''" "k \<noteq> k'"
    have differs: "en_place f \<noteq> place" if "map_of (db_map db2) l = Some f" "l \<noteq> key" for l f
      using origin [OF that] other that(2) by metis
    consider "k = key" | "k' = key" | "k \<noteq> key" "k' \<noteq> key"
      by blast
    then show "en_place e \<noteq> en_place e''"
    proof cases
      case 1
      then show ?thesis
        using k e' differs [OF k(2)] by auto
    next
      case 2
      then show ?thesis
        using k e' differs [OF k(1)] by auto
    next
      case 3
      then show ?thesis
        using origin [OF k(1)] origin [OF k(2)] k(3) assms(3) unfolding files_ok_def by metis
    qed
  qed
qed

lemma before_put_same:
  "stored env (before_put key db) = stored env db" "files_ok (before_put key db) = files_ok db"
  "good_place key place (before_put key db) = good_place key place db" "db_map (before_put key db) = db_map db"
  "db_binlog (before_put key db) = db_binlog db" "placePath place (before_put key db) = placePath place db"
  by (simp_all add: before_put_def stored_def files_ok_def file_value_def placePath_def good_place_def isFreePlace_def fun_eq_iff
      split: option.split)

lemma already_there_stored:
  assumes "already_there key v (ce_checksum env (tv_bytes v)) db" "tv_bytes v \<noteq> []"
  shows "stored env db key = Some v"
proof -
  obtain e where "map_of (db_map db) key = Some e" "file_value (en_place e) (en_size e) db = tv_bytes v"
    "untimed (Some e) = untimed (Some (value_entry v (ce_checksum env (tv_bytes v)) (en_place e)))"
    using assms(1) by (auto simp: already_there_def untimed_def value_entry_def)
  then show ?thesis
    using assms(2) untimed_Some [of "Some e" "value_entry v (ce_checksum env (tv_bytes v)) (en_place e)"]
    by (auto simp: stored_def value_entry_def)
qed

lemma write_value_implements:
  assumes "works env" "db_ok env db1" "stored_key key (value_entry v (ce_checksum env (tv_bytes v)) place) db db1"
    "good_place key place db" "files_ok db" "tv_bytes v \<noteq> []"
  shows "implements env (write_value env key v (placePath place db1) db1) NoError ((stored env db)(key \<mapsto> v))"
proof -
  let ?path = "placePath place db1"
  let ?written = "pf_data (plain_write_padded (ce_padding env) (tv_bytes v) \<lparr> pf_data = [], pf_offset = 0 \<rparr>)"
  let ?db2 = "db1\<lparr> db_disk := (db_disk db1)(?path \<mapsto> ?written) \<rparr>"
  have path: "?path = placePath place db"
    using assms(3) by (simp add: stored_key_def placePath_def)
  have ok2: "db_ok env ?db2"
    using assms(2) log_for_disk [of ?path db1] by (simp add: db_ok_def)
  have "16 \<le> length (ce_padding env)"
    using assms(1) by (simp add: works_def)
  note written = stored_written [OF assms(3,4,5,6) this, of ?db2]
  have s2: "stored env ?db2 = (stored env db)(key \<mapsto> v)" "files_ok ?db2"
    by (rule written; simp add: path)+
  have "db_binlog ?db2 \<noteq> None"
    using assms(3) by (simp add: stored_key_def)
  have "implements env (bind_outcome (optimize env ?db2) (\<lambda>db'. Inr (NoError, db'))) NoError ((stored env db)(key \<mapsto> v))"
    unfolding implements_def ensures_bind ensures_Inr prod.case
  proof (rule ensures_mono [OF optimize_quiet [OF ok2 quiet_refl]], elim conjE)
    fix db'
    assume step: "optimize env ?db2 = Inr db'" and db': "quiet ?db2 db'" "db_ok env db'"
    show "NoError = NoError \<and> cache_ok env db' \<and> stored env db' = (stored env db)(key \<mapsto> v)"
      using db' s2 quiet_stored [OF db'(1)] optimize_stays [OF step] \<open>db_binlog ?db2 \<noteq> None\<close> by (simp add: cache_ok_def)
  qed
  then show ?thesis
    using assms(1) by (simp add: write_value_def works_def)
qed

lemma db_put_implements:
  assumes "works env" "cache_ok env db" "tv_bytes v \<noteq> []" "fits env v db"
  shows "implements env (db_put env key v db) NoError ((stored env db)(key \<mapsto> v))"
proof -
  have ok: "db_ok env db" "files_ok db" "db_binlog db \<noteq> None"
    using assms(2) by (simp_all add: cache_ok_def)
  let ?checksum = "ce_checksum env (tv_bytes v)" and ?db1 = "before_put key db"
  obtain maybepath db2 where step: "writeKeyPlace env key v ?checksum ?db1 = Inr (maybepath, db2)" and db2: "db_ok env db2"
    and result: "maybepath = Some '''' \<and> (db2 = ?db1 \<and> already_there key v ?checksum db \<or> log_lost env ?db1 db2) \<or>
      (\<exists>place. maybepath = Some (placePath place db2) \<and> maybepath \<noteq> Some '''' \<and> good_place key place db \<and>
        stored_key key (value_entry v ?checksum place) ?db1 db2)"
    using put_key_ok [OF ok(1) works_env_ok [OF assms(1)] assms(3,4), of key ?checksum] by (auto elim!: ensuresE)
  have put: "db_put env key v db = (case maybepath of
      None \<Rightarrow> Inr (ioError (binlogPath db2), db2)
    | Some path \<Rightarrow>
        if path = '''' then bind_outcome (recordEntryAccess env key db2) (\<lambda>db3. Inr (NoError, db3))
        else write_value env key v path db2)"
    using step assms(3) by (simp add: db_put_def Let_def before_put_def)
  have "\<not> log_lost env ?db1 db2"
    using assms(1) ok(3) by (auto simp: log_lost_def works_def before_put_same)
  with result show ?thesis
  proof (elim disjE exE conjE, goal_cases)
    case 1
    then have "cache_ok env db2" "stored env db2 = stored env db"
      using db2 ok by (simp_all add: cache_ok_def before_put_same)
    moreover have "(stored env db)(key \<mapsto> v) = stored env db"
      using already_there_stored [OF 1(4) assms(3)] by (simp add: fun_upd_idem)
    ultimately show ?thesis
      using 1 recordEntryAccess_implements [OF assms(1), of db2 key NoError] by (simp add: put)
  next
    case (3 place)
    then show ?thesis
      using write_value_implements [OF assms(1) db2 3(5) _ _ assms(3)] ok(2) by (simp add: put before_put_same)
  qed simp
qed

section \<open>Moving and copying\<close>

lemma moved_stored:
  assumes "\<And>k. untimed (map_of (db_map db') k) =
      (if k = to_key then untimed (map_of (db_map db) from_key) else if k = from_key then None else untimed (map_of (db_map db) k))"
    "\<And>p. p \<noteq> binlogPath db \<Longrightarrow> db_disk db' p = db_disk db p" "db_path db' = db_path db" "to_key \<noteq> from_key" "files_ok db"
  shows "stored env db' = (stored env db)(from_key := None, to_key := stored env db from_key)" "files_ok db'"
proof -
  define origin where "origin k = (if k = to_key then from_key else k)" for k
  have entry: "\<exists>e0. map_of (db_map db) (origin k) = Some e0 \<and> en_place e0 = en_place e \<and> en_size e0 = en_size e \<and>
      en_checksum e0 = en_checksum e \<and> en_tag e0 = en_tag e \<and> k \<noteq> from_key" if "map_of (db_map db') k = Some e" for k e
  proof -
    have "untimed (Some e) \<noteq> None"
      by (simp add: untimed_def)
    then have "k \<noteq> from_key" "untimed (map_of (db_map db) (origin k)) = untimed (Some e)"
      using assms(1) [of k] assms(4) unfolding that by (auto simp: origin_def split: if_splits)
    then show ?thesis
      using untimed_Some [of "map_of (db_map db) (origin k)" e] by blast
  qed
  have same_file: "file_value place n db' = file_value place n db" for place n
    using assms(2) by (simp add: file_value_def placePath_def assms(3) binlogPath_def PlaceFromId_not_log)
  have "stored env db' k = ((stored env db)(from_key := None, to_key := stored env db from_key)) k" for k
  proof (cases "map_of (db_map db') k")
    case None
    then have "k = from_key \<or> map_of (db_map db) (origin k) = None"
      using assms(1) [of k] by (auto simp: origin_def split: if_splits)
    then show ?thesis
      using None assms(4) by (auto simp: stored_def origin_def split: if_splits)
  next
    case (Some e)
    obtain e0 where e0: "map_of (db_map db) (origin k) = Some e0" "en_place e0 = en_place e" "en_size e0 = en_size e"
      "en_checksum e0 = en_checksum e" "en_tag e0 = en_tag e" "k \<noteq> from_key"
      using entry [OF Some] by blast
    then have "stored env db' k = stored env db (origin k)"
      using Some same_file by (simp add: stored_def Let_def)
    then show ?thesis
      using e0(6) by (simp add: origin_def)
  qed
  then show "stored env db' = (stored env db)(from_key := None, to_key := stored env db from_key)"
    by (simp add: fun_eq_iff)
  have inj: "origin k \<noteq> origin k'" if "k \<noteq> k'" "k \<noteq> from_key" "k' \<noteq> from_key" for k k'
    using that by (auto simp: origin_def)
  have "db_disk db' (placePath place db') = db_disk db (placePath place db)" for place
    using assms(2) [of "placePath place db"] by (simp add: placePath_def assms(3) binlogPath_def PlaceFromId_not_log)
  then show "files_ok db'"
    using assms(5) entry inj unfolding files_ok_def by metis
qed

lemma moveIfEmpty_implements:
  assumes "works env" "cache_ok env db"
  shows "implements env (moveIfEmpty env from_key to_key db) NoError
    (if map_entry to_key db = None \<and> map_entry from_key db \<noteq> None
     then (stored env db)(from_key := None, to_key := stored env db from_key) else stored env db)"
proof (cases "map_of (db_map db) to_key = None \<and> map_of (db_map db) from_key \<noteq> None")
  case False
  then show ?thesis
    using assms(2) by (auto simp: moveIfEmpty_def map_entry_def split: option.split)
next
  case True
  have ok: "db_ok env db" "files_ok db" "db_binlog db \<noteq> None" and log: "\<forall>ys. ce_write_log env ys"
    using assms by (simp_all add: cache_ok_def works_def)
  have keys: "to_key \<noteq> from_key"
    using True by auto
  obtain entry where entry: "map_of (db_map db) from_key = Some entry"
    using True by blast
  obtain db' where step: "moveIfEmpty env from_key to_key db = Inr (NoError, db')"
    and db': "db_ok env db'" "moved_key from_key to_key db db'"
    using moveIfEmpty_ok [OF ok(1) works_env_ok [OF assms(1)] entry] True log ok(3) by (auto elim!: ensuresE)
  have "stored env db' = (stored env db)(from_key := None, to_key := stored env db from_key)" "files_ok db'"
    using db'(2) by (auto intro!: moved_stored [OF _ _ _ keys ok(2)] simp: moved_key_def)
  then show ?thesis
    using step db' True by (simp add: cache_ok_def moved_key_def map_entry_def)
qed

lemma stored_fits:
  assumes "db_ok env db" "stored env db key = Some v" "room env db"
  shows "fits env v db \<and> tv_bytes v \<noteq> []"
proof -
  obtain e where e: "map_of (db_map db) key = Some e" "v = \<lparr> tv_bytes = file_value (en_place e) (en_size e) db, tv_tag = en_tag e \<rparr>"
    "file_value (en_place e) (en_size e) db \<noteq> []"
    using assms(2) by (auto simp: stored_def Let_def split: option.splits if_splits)
  have "entry_ok (db_settings db) e"
    using entry_ok_of [OF _ e(1)] db_okD(1) [OF assms(1)] by (simp add: core_ok_def)
  moreover have "int (length (file_value (en_place e) (en_size e) db)) = en_size e"
    using e(3) by (auto simp: file_value_def Let_def split: option.splits if_splits)
  ultimately show ?thesis
    using e assms(3) by (simp add: fits_def entry_ok_def)
qed

lemma copyIfEmpty_implements:
  assumes "works env" "cache_ok env db" "room env db"
  shows "implements env (copyIfEmpty env from_key to_key db) NoError
    (if map_entry to_key db = None then (stored env db)(to_key := stored env db from_key) else stored env db)"
proof (cases "map_entry to_key db = None")
  case False
  then show ?thesis
    using assms(2) by (auto simp: copyIfEmpty_def)
next
  case True
  then have absent: "stored env db to_key = None"
    by (simp add: stored_def map_entry_def)
  have "implements env (db_get_with env from_key (\<lambda>v db1. db_put env to_key v db1) db) NoError
      ((stored env db)(to_key := stored env db from_key))"
  proof (rule db_get_with_implements [OF assms(1,2)])
    fix db'
    assume db': "cache_ok env db'" "stored env db' = stored env db" "stored env db from_key = None \<or> db' = db"
    show "implements env (db_put env to_key (found (stored env db from_key)) db') NoError
        ((stored env db)(to_key := stored env db from_key))"
    proof (cases "stored env db from_key")
      case None
      then show ?thesis
        using db_remove_implements [OF assms(1) db'(1), of to_key] db'(2)
        by (simp add: found_def empty_value_def db_put_def)
    next
      case (Some v)
      then have "fits env v db" "tv_bytes v \<noteq> []"
        using stored_fits [OF _ Some assms(3)] assms(2) by (simp_all add: cache_ok_def)
      then show ?thesis
        using Some db' db_put_implements [OF assms(1,2), of v to_key] by (simp add: found_def)
    qed
  qed
  then show ?thesis
    using True by (simp add: copyIfEmpty_def)
qed

text \<open>C3. With a disk that works the cache is a map from keys to values: every operation answers without
  an error and fails no assertion, keeps the invariant, and changes the values stored as its name
  says. A damaged entry counts as none, and is removed when it is read.\<close>

theorem cache_is_a_map:
  assumes "works env" "cache_ok env db" "fits env v db" "tv_bytes v \<noteq> []"
  shows "implements env (db_get env key db) (found (stored env db key)) (stored env db) \<and>
    implements env (db_put env key v db) NoError ((stored env db)(key \<mapsto> v)) \<and>
    implements env (db_put env key empty_value db) NoError ((stored env db)(key := None)) \<and>
    implements env (db_remove env key db) NoError ((stored env db)(key := None)) \<and>
    implements env (putIfEmpty env key v db) NoError
      (if map_entry key db = None then (stored env db)(key \<mapsto> v) else stored env db) \<and>
    implements env (copyIfEmpty env from_key key db) NoError
      (if map_entry key db = None then (stored env db)(key := stored env db from_key) else stored env db) \<and>
    implements env (moveIfEmpty env from_key key db) NoError
      (if map_entry key db = None \<and> map_entry from_key db \<noteq> None
       then (stored env db)(from_key := None, key := stored env db from_key) else stored env db)"
proof -
  have "implements env (db_get env key db) (found (stored env db key)) (stored env db)"
    unfolding db_get_def by (rule db_get_with_implements [OF assms(1,2)]) simp
  moreover note put = db_put_implements [OF assms(1,2,4,3)] and remove = db_remove_implements [OF assms(1,2), of key]
  moreover have "db_put env key empty_value db = db_remove env key db"
    by (simp add: db_put_def empty_value_def)
  moreover have "room env db"
    using assms(3) by (simp add: fits_def)
  ultimately show ?thesis
    using assms(2) copyIfEmpty_implements [OF assms(1,2)] moveIfEmpty_implements [OF assms(1,2)]
    by (simp add: putIfEmpty_def)
qed

section \<open>Witnesses\<close>

lemma sample_works: "works sample_env"
  by (simp add: works_def clock_ok_def sample_env_def GetUnixtime_def)

lemma sample_cache_ok: "cache_ok sample_env sample_db"
proof -
  have "files_ok sample_db"
    by (simp add: files_ok_def sample_db_def sample_entry_def placePath_def) (simp add: sample_place_def)
  moreover have "db_binlog sample_db \<noteq> None"
    by (simp add: sample_db_def)
  ultimately show ?thesis
    using sample_db_ok by (simp add: cache_ok_def)
qed

lemma sample_stored: "stored sample_env sample_db = [sample_key \<mapsto> \<lparr> tv_bytes = [42], tv_tag = 1 \<rparr>]"
proof -
  have "file_value sample_place 1 sample_db = [42]"
    by (simp add: file_value_def sample_db_def placePath_def plain_read_padded_def plain_read_def Let_def)
  then show ?thesis
    by (simp add: stored_def sample_db_def sample_entry_def sample_env_def fun_eq_iff)
qed

theorem cache_is_a_map_witness:
  "implements sample_env (db_get sample_env sample_key sample_db) \<lparr> tv_bytes = [42], tv_tag = 1 \<rparr>
      [sample_key \<mapsto> \<lparr> tv_bytes = [42], tv_tag = 1 \<rparr>] \<and>
    implements sample_env (db_put sample_env sample_key \<lparr> tv_bytes = [5, 6], tv_tag = 0 \<rparr> sample_db) NoError
      [sample_key \<mapsto> \<lparr> tv_bytes = [5, 6], tv_tag = 0 \<rparr>]"
proof -
  have "fits sample_env \<lparr> tv_bytes = [5, 6], tv_tag = 0 \<rparr> sample_db"
    using sample_free
    by (simp add: fits_def room_def sample_env_def) (simp add: sample_db_def default_settings_def kDataSizeLimit_def)
  then show ?thesis
    using cache_is_a_map [OF sample_works sample_cache_ok, of "\<lparr> tv_bytes = [5, 6], tv_tag = 0 \<rparr>" sample_key] sample_stored
    by (simp add: found_def)
qed

section \<open>Without a log\<close>

lemma binlog_write_refused:
  "\<forall>ys. \<not> ce_write_log env ys \<Longrightarrow> \<exists>d. binlog_write env ys db = (False, db\<lparr> db_disk := d \<rparr>)"
  by (cases db) (simp add: binlog_write_def Let_def split: option.split)

lemma write_store_refused:
  "\<forall>ys. \<not> ce_write_log env ys \<Longrightarrow> \<exists>d. write_store env r db = Inr (False, binlog_close (db\<lparr> db_disk := d \<rparr>))"
  using binlog_write_refused [of env "store_bytes r" db] by (auto simp: write_store_def)

lemma writeKeyPlace_refused:
  assumes "\<forall>ys. \<not> ce_write_log env ys" "writeKeyPlace env key v checksum db = Inr (maybepath, db')"
  shows "db' = db \<or> db_binlog db' = None"
proof -
  obtain d where "\<And>r. write_store env r db = Inr (False, binlog_close (db\<lparr> db_disk := d r \<rparr>))"
    using write_store_refused [OF assms(1), of _ db] by metis
  then show ?thesis
    using assms(2)
    by (auto simp: writeKeyPlace_def writeKeyPlaceGeneric_def Let_def bind_outcome_Inr_iff expects_Inr_iff
        split: option.splits if_splits)
qed

text \<open>C39. When the log refuses a new entry, \<open>put\<close> answers that there was no error, though nothing was stored
  and the log is closed: \<open>writeKeyPlaceGeneric\<close> gives the empty path of an unchanged entry
  instead of none, so the branch of \<open>put\<close> that reports the error of the log is never taken.\<close>

theorem put_without_log_reports_no_error:
  assumes "db_ok env db" "env_ok env" "fits env v db" "tv_bytes v \<noteq> []" "map_of (db_map db) key = None"
    "\<forall>ys. \<not> ce_write_log env ys"
  shows "ensures (db_put env key v db) (\<lambda>(err, db'). err = NoError \<and> map_of (db_map db') key = None)"
proof -
  let ?checksum = "ce_checksum env (tv_bytes v)"
  obtain maybepath db2 where step: "writeKeyPlace env key v ?checksum (before_put key db) = Inr (maybepath, db2)"
    and db2: "db_ok env db2" and result: "maybepath = Some '''' \<and> (db2 = before_put key db \<and> already_there key v ?checksum db \<or>
        log_lost env (before_put key db) db2) \<or>
      (\<exists>place. maybepath = Some (placePath place db2) \<and> maybepath \<noteq> Some '''' \<and> good_place key place db \<and>
        stored_key key (value_entry v ?checksum place) (before_put key db) db2)"
    using put_key_ok [OF assms(1,2,4,3), of key ?checksum] by (auto elim!: ensuresE)
  have "\<not> stored_key key e (before_put key db) db2" for e
    using writeKeyPlace_refused [OF assms(6) step] assms(5) by (auto simp: stored_key_def before_put_def untimed_def)
  then have lost: "maybepath = Some ''''" "log_lost env (before_put key db) db2"
    using result assms(5) by (auto simp: already_there_def)
  have put: "db_put env key v db = bind_outcome (recordEntryAccess env key db2) (\<lambda>db3. Inr (NoError, db3))"
    using step assms(4) lost(1) by (simp add: db_put_def Let_def before_put_def)
  obtain db3 where "recordEntryAccess env key db2 = Inr db3" "quiet db2 db3"
    using recordEntryAccess_ok [OF db2, of key] assms(2) by (auto simp: env_ok_def elim!: ensuresE)
  moreover have "map_of (db_map db2) key = None"
    using lost(2) assms(5) by (simp add: log_lost_def before_put_same)
  ultimately show ?thesis
    using quiet_dom [of db2 db3] by (simp add: put)
qed

theorem put_without_log_reports_no_error_witness:
  "ensures (db_put broken_env (Cache_key 5 5) \<lparr> tv_bytes = [5, 6], tv_tag = 0 \<rparr> sample_db)
    (\<lambda>(err, db'). err = NoError \<and> map_of (db_map db') (Cache_key 5 5) = None)"
proof -
  have "db_ok broken_env sample_db"
    using sample_db_ok by (simp add: db_ok_def time_ok_def broken_env_def GetUnixtime_def)
  moreover have "env_ok broken_env" "\<forall>ys. \<not> ce_write_log broken_env ys"
    by (simp_all add: env_ok_def clock_ok_def broken_env_def sample_env_def GetUnixtime_def)
  moreover have "fits broken_env \<lparr> tv_bytes = [5, 6], tv_tag = 0 \<rparr> sample_db"
    using sample_free
    by (simp add: fits_def room_def sample_env_def broken_env_def) (simp add: sample_db_def default_settings_def kDataSizeLimit_def)
  moreover have "map_of (db_map sample_db) (Cache_key 5 5) = None"
    by (simp add: sample_db_def sample_key_def)
  ultimately show ?thesis
    by (intro put_without_log_reports_no_error) simp_all
qed

end
