(* ===== verification/Cache_Pruning.thy ===== *)
theory Cache_Pruning
  imports Cache_Reopen
begin

text \<open>
  Which entries the cache drops. \<open>collectSizeStale\<close> runs once through the entries, in the order of
  the hash map, and keeps the oldest ones it has seen in a \<open>flat_multi_map\<close>. The lemmas show that
  it ends with the oldest entries, with enough of them and with none too many.
\<close>

type_synonym bucket = "cache_key \<times> cache_entry"

abbreviation bucket_size :: "bucket \<Rightarrow> int" where
  "bucket_size b \<equiv> en_size (snd b)"

definition bucket_time :: "bucket \<Rightarrow> int" where
  "bucket_time b = uint (en_use_time (snd b))"

definition sizes_of :: "bucket list \<Rightarrow> int" where
  "sizes_of bs = sum_list (map (\<lambda>b. en_size (snd b)) bs)"

lemma sizes_of_simps [simp]:
  "sizes_of [] = 0" "sizes_of (b # bs) = bucket_size b + sizes_of bs" "sizes_of (as @ bs) = sizes_of as + sizes_of bs"
  by (simp_all add: sizes_of_def)

text \<open>The entries of a map sorted by time, the newest first.\<close>

definition newest_first :: "oldest_map \<Rightarrow> bool" where
  "newest_first m \<longleftrightarrow> sorted_wrt (\<lambda>p q. fst q \<le> fst p) m \<and> (\<forall>p\<in>set m. fst p = bucket_time (snd p))"

lemma word_times:
  fixes a b :: "64 word"
  assumes "uint a < 2 ^ 63" "uint b < 2 ^ 63"
  shows "sint a = uint a" "a \<le> b \<longleftrightarrow> uint a \<le> uint b" "a < b \<longleftrightarrow> uint a < uint b"
proof -
  have "- (2 ^ 63) \<le> uint a"
    by (rule order_trans [OF _ uint_ge_0]) simp
  then have "signed_take_bit 63 (uint a) = uint a"
    using assms(1) by (simp only: signed_take_bit_int_eq_self_iff simp_thms)
  then show "sint a = uint a"
    by (simp add: sint_uint)
qed (simp_all add: word_le_def word_less_def)

lemma multi_map_insert_newest:
  fixes m :: oldest_map
  assumes "sorted_wrt (\<lambda>p q. fst q \<le> fst p) m"
  obtains as bs where "m = as @ bs" "fst (multi_map_insert (>) value m) = as @ value # bs"
    "\<And>p. p \<in> set as \<Longrightarrow> fst value \<le> fst p" "\<And>p. p \<in> set bs \<Longrightarrow> fst p \<le> fst value"
proof -
  let ?P = "\<lambda>p. \<not> fst value > fst p"
  have split: "m = takeWhile ?P m @ dropWhile ?P m"
    by simp
  have later: "fst p < fst value" if "p \<in> set (dropWhile ?P m)" for p
  proof -
    have "\<not> ?P p"
      by (rule set_dropWhile_sorted [OF assms _ that]) auto
    then show ?thesis by simp
  qed
  consider "m = [] \<or> fst value > fst (hd m)" | "m \<noteq> []" "\<not> fst value > fst (hd m)" "\<not> fst value > fst (last m)"
    | "m \<noteq> []" "\<not> fst value > fst (hd m)" "fst value > fst (last m)"
    by blast
  then show ?thesis
  proof cases
    case 1
    have "fst p \<le> fst value" if "p \<in> set m" for p
      using 1 that sorted_wrt_hd [OF assms that] by (cases m) auto
    then show ?thesis
      using that [of "[]" m] 1 by (auto simp: multi_map_insert_def)
  next
    case 2
    have "fst value \<le> fst p" if "p \<in> set m" for p
      using 2 that sorted_wrt_last [OF assms that] by auto
    then show ?thesis
      using that [of m "[]"] 2 by (auto simp: multi_map_insert_def)
  next
    case 3
    have "fst (multi_map_insert (>) value m) = takeWhile ?P m @ value # dropWhile ?P m"
      using 3 by (simp add: multi_map_insert_def map_upper_bound_def Let_def insert_at_def position_simps)
    moreover have "fst value \<le> fst p" if "p \<in> set (takeWhile ?P m)" for p
      using set_takeWhileD [OF that] by simp
    ultimately show ?thesis
      using that [OF split, of ] later by (meson less_imp_le)
  qed
qed

lemma remove_first_spec:
  assumes "remove_first R adding m bytes_found = (m', bytes_found')"
  obtains as where "m = as @ m'" "bytes_found' = bytes_found - sizes_of (map snd as)"
    "\<And>p. p \<in> set as \<Longrightarrow> en_use_time adding \<le> en_use_time (snd (snd p))"
    "as \<noteq> [] \<Longrightarrow> R \<le> bytes_found' + en_size adding"
    "m' = [] \<or> \<not> can_remove_first R adding (snd (snd (hd m'))) bytes_found'"
  using assms
proof (induction R adding m bytes_found arbitrary: thesis rule: remove_first.induct)
  case (1 R adding bytes_found)
  then show ?case
    by simp
next
  case (2 R adding p m bytes_found)
  show ?case
  proof (cases "can_remove_first R adding (snd (snd p)) bytes_found")
    case False
    then show ?thesis
      using 2(2) [of "[]"] 2(3) by auto
  next
    case True
    then have "remove_first R adding m (bytes_found - en_size (snd (snd p))) = (m', bytes_found')"
      using 2(3) by simp
    then obtain as where as: "m = as @ m'" "bytes_found' = bytes_found - en_size (snd (snd p)) - sizes_of (map snd as)"
      "\<And>q. q \<in> set as \<Longrightarrow> en_use_time adding \<le> en_use_time (snd (snd q))"
      "as \<noteq> [] \<Longrightarrow> R \<le> bytes_found' + en_size adding"
      "m' = [] \<or> \<not> can_remove_first R adding (snd (snd (hd m'))) bytes_found'"
      using 2(1) [OF True] by blast
    have "en_use_time adding \<le> en_use_time (snd (snd p))" "R \<le> bytes_found - en_size (snd (snd p)) + en_size adding"
      using True by (simp_all add: can_remove_first_def)
    then show ?thesis
      using 2(2) [of "p # as"] as by (cases as) auto
  qed
qed

text \<open>
  What holds of the oldest entries found among those that have been looked at: there are enough of
  them, or they are all there are; none that is left out is older; without the newest of them
  there would not be enough.
\<close>

definition oldest_of :: "int \<Rightarrow> bucket list \<Rightarrow> oldest_map \<Rightarrow> int \<Rightarrow> bool" where
  "oldest_of R seen m bytes_found \<longleftrightarrow>
     newest_first m \<and> distinct (map snd m) \<and> set (map snd m) \<subseteq> set seen \<and> bytes_found = sizes_of (map snd m) \<and>
     (bytes_found < R \<longrightarrow> set (map snd m) = set seen) \<and>
     (\<forall>b\<in>set seen - set (map snd m). \<forall>a\<in>set (map snd m). bucket_time a \<le> bucket_time b) \<and>
     (m \<noteq> [] \<longrightarrow> bytes_found - bucket_size (snd (hd m)) < R)"

lemma oldest_of_Nil: "0 < R \<Longrightarrow> oldest_of R [] [] 0"
  by (simp add: oldest_of_def newest_first_def)

lemma newest_first_hd: "newest_first m \<Longrightarrow> p \<in> set m \<Longrightarrow> bucket_time (snd p) \<le> bucket_time (snd (hd m))"
  by (cases m) (auto simp: newest_first_def)

lemma newest_first_suffix: "newest_first (as @ m) \<Longrightarrow> newest_first m"
  by (simp add: newest_first_def sorted_wrt_append)

lemma insert_newest:
  assumes "newest_first m" "t = bucket_time b"
  shows "newest_first (fst (multi_map_insert (>) (t, b) m))"
    "set (map snd (fst (multi_map_insert (>) (t, b) m))) = insert b (set (map snd m))"
    "sizes_of (map snd (fst (multi_map_insert (>) (t, b) m))) = bucket_size b + sizes_of (map snd m)"
    "b \<notin> set (map snd m) \<Longrightarrow> distinct (map snd m) \<Longrightarrow> distinct (map snd (fst (multi_map_insert (>) (t, b) m)))"
proof -
  have sorted: "sorted_wrt (\<lambda>p q. fst q \<le> fst p) m" and times: "\<forall>p\<in>set m. fst p = bucket_time (snd p)"
    using assms(1) by (simp_all add: newest_first_def)
  obtain as bs where parts: "m = as @ bs" "fst (multi_map_insert (>) (t, b) m) = as @ (t, b) # bs"
    "\<And>p. p \<in> set as \<Longrightarrow> t \<le> fst p" "\<And>p. p \<in> set bs \<Longrightarrow> fst p \<le> t"
    using multi_map_insert_newest [OF sorted, of "(t, b)"] by auto
  show "newest_first (fst (multi_map_insert (>) (t, b) m))"
    using sorted times parts(3,4) assms(2) unfolding parts(2) unfolding parts(1)
    by (auto simp: newest_first_def sorted_wrt_append)
  show "set (map snd (fst (multi_map_insert (>) (t, b) m))) = insert b (set (map snd m))"
    "sizes_of (map snd (fst (multi_map_insert (>) (t, b) m))) = bucket_size b + sizes_of (map snd m)"
    unfolding parts(2) unfolding parts(1) by auto
  show "distinct (map snd (fst (multi_map_insert (>) (t, b) m)))" if "b \<notin> set (map snd m)" "distinct (map snd m)"
    using that unfolding parts(2) unfolding parts(1) by auto
qed

definition bucket_ok :: "bucket \<Rightarrow> bool" where
  "bucket_ok b \<longleftrightarrow> 0 < bucket_size b \<and> bucket_time b < 2 ^ 63"

lemma bucket_order:
  assumes "bucket_ok a" "bucket_ok b"
  shows "en_use_time (snd a) \<le> en_use_time (snd b) \<longleftrightarrow> bucket_time a \<le> bucket_time b"
    "en_use_time (snd a) < en_use_time (snd b) \<longleftrightarrow> bucket_time a < bucket_time b"
    "sint (en_use_time (snd a)) = bucket_time a"
  using word_times [of "en_use_time (snd a)" "en_use_time (snd b)"] assms by (simp_all add: bucket_ok_def bucket_time_def)

lemma sizes_nonneg: "\<forall>b\<in>set bs. bucket_ok b \<Longrightarrow> 0 \<le> sizes_of bs"
  by (induction bs) (auto simp: bucket_ok_def)

lemma oldest_of_accept:
  assumes inv: "oldest_of R seen m n" and R: "0 < R" and oks: "\<forall>a\<in>set seen. bucket_ok a" "bucket_ok b" and b: "b \<notin> set seen"
    and accept: "n < R \<or> en_use_time (snd b) < en_use_time (snd (snd (hd m)))"
    and removed: "remove_first R (snd b) m n = (m1, n1)"
  shows "oldest_of R (seen @ [b]) (fst (multi_map_insert (>) (sint (en_use_time (snd b)), b) m1)) (n1 + bucket_size b)"
proof -
  note inv = inv [unfolded oldest_of_def]
  have m: "newest_first m" "distinct (map snd m)" "set (map snd m) \<subseteq> set seen" "n = sizes_of (map snd m)"
    "n < R \<longrightarrow> set (map snd m) = set seen" "m \<noteq> [] \<longrightarrow> n - bucket_size (snd (hd m)) < R"
    using inv by blast+
  have left: "bucket_time a \<le> bucket_time y" if "y \<in> set seen" "y \<notin> set (map snd m)" "a \<in> set (map snd m)" for y a
    using inv that by blast
  have ok_in: "bucket_ok (snd p)" if "p \<in> set m" for p
    using m(3) oks(1) that by auto
  have below: "bucket_time b < bucket_time (snd (hd m)) \<and> m \<noteq> []" if "\<not> n < R"
  proof -
    have "m \<noteq> []"
      using that R m(4) by auto
    then show ?thesis
      using that accept bucket_order(2) [OF oks(2) ok_in, of "hd m"] by simp
  qed
  obtain as where parts: "m = as @ m1" "n1 = n - sizes_of (map snd as)"
    "\<And>p. p \<in> set as \<Longrightarrow> en_use_time (snd b) \<le> en_use_time (snd (snd p))" "as \<noteq> [] \<Longrightarrow> R \<le> n1 + bucket_size b"
    "m1 = [] \<or> \<not> can_remove_first R (snd b) (snd (snd (hd m1))) n1"
    using remove_first_spec [OF removed] by blast
  define m2 where "m2 = fst (multi_map_insert (>) (sint (en_use_time (snd b)), b) m1)"
  have t: "sint (en_use_time (snd b)) = bucket_time b"
    by (rule bucket_order(3) [OF oks(2) oks(2)])
  have m1: "newest_first m1" "distinct (map snd m1)" "set (map snd m1) \<subseteq> set seen" "sizes_of (map snd m1) = n1"
    using m parts(1,2) newest_first_suffix by auto
  have m2: "newest_first m2" "set (map snd m2) = insert b (set (map snd m1))" "sizes_of (map snd m2) = bucket_size b + n1"
    "distinct (map snd m2)"
    using insert_newest [OF m1(1) t] m1 b by (auto simp: m2_def)
  have pos: "0 < bucket_size b"
    using oks(2) by (simp add: bucket_ok_def)
  have all: "set (map snd m2) = set (seen @ [b])" if "n1 + bucket_size b < R"
  proof -
    have "as = []"
      using parts(4) that by force
    then show ?thesis
      using that parts(1,2) m(5) m2(2) pos by auto
  qed
  have oldest: "bucket_time a \<le> bucket_time y" if y: "y \<in> set (seen @ [b])" "y \<notin> set (map snd m2)" and a: "a \<in> set (map snd m2)" for y a
  proof -
    have y1: "y \<in> set seen" "y \<notin> set (map snd m1)" and a1: "a = b \<or> a \<in> set (map snd m1)"
      using y a m2(2) by auto
    show ?thesis
    proof (cases "y \<in> set (map snd m)")
      case True
      then obtain p where p: "p \<in> set as" "y = snd p"
        using y1(2) parts(1) by auto
      show ?thesis
      proof (cases "a = b")
        case True
        then show ?thesis
          using parts(3) [OF p(1)] bucket_order(1) [OF oks(2), of y] oks(1) y1(1) p(2) by simp
      next
        case False
        then obtain q where "q \<in> set m1" "a = snd q"
          using a1 by auto
        then show ?thesis
          using m(1) p unfolding parts(1) newest_first_def by (auto simp: sorted_wrt_append)
      qed
    next
      case False
      show ?thesis
      proof (cases "a = b")
        case True
        have "\<not> n < R"
          using False y1(1) m(5) by blast
        then show ?thesis
          using below left [OF y1(1) False, of "snd (hd m)"] True by auto
      next
        case False
        then show ?thesis
          using left [OF y1(1) \<open>y \<notin> set (map snd m)\<close>, of a] a1 parts(1) by auto
      qed
    qed
  qed
  have minimal: "n1 + bucket_size b - bucket_size (snd (hd m2)) < R"
  proof -
    have "sorted_wrt (\<lambda>p q. fst q \<le> fst p) m1"
      using m1(1) by (simp add: newest_first_def)
    then obtain cs ds where ins: "m1 = cs @ ds" "m2 = cs @ (bucket_time b, b) # ds"
      "\<And>p. p \<in> set cs \<Longrightarrow> bucket_time b \<le> fst p" "\<And>p. p \<in> set ds \<Longrightarrow> fst p \<le> bucket_time b"
      using multi_map_insert_newest [of m1 "(bucket_time b, b)"] unfolding m2_def t by (metis fst_conv)
    show ?thesis
    proof (cases cs)
      case Nil
      have "n1 < R"
      proof (cases as)
        case Nil
        show ?thesis
        proof (rule ccontr)
          assume "\<not> n1 < R"
          then have "bucket_time b < bucket_time (snd (hd m))" "hd m \<in> set ds" "hd m \<in> set m"
            using below Nil \<open>cs = []\<close> parts(1,2) ins(1) by auto
          then show False
            using ins(4) m(1) by (fastforce simp: newest_first_def)
        qed
      next
        case (Cons p as')
        have "0 \<le> sizes_of (map snd as')"
          by (rule sizes_nonneg) (use ok_in parts(1) Cons in auto)
        then show ?thesis
          using m(6) parts(1,2) Cons by simp
      qed
      then show ?thesis
        using Nil ins(2) by simp
    next
      case (Cons c cs')
      then have c: "c \<in> set cs" "c \<in> set m1" "c \<in> set m" "m1 \<noteq> []" "hd m1 = c"
        using ins(1) parts(1) by simp_all
      have "fst c = bucket_time (snd c)"
        using m1(1) c(2) by (simp add: newest_first_def)
      then have "bucket_time b \<le> bucket_time (snd c)" "bucket_ok (snd c)"
        using ins(3) [OF c(1)] ok_in [OF c(3)] by simp_all
      with c(4,5) have "en_use_time (snd b) \<le> en_use_time (snd (snd c))" "\<not> can_remove_first R (snd b) (snd (snd c)) n1"
        using bucket_order(1) [OF oks(2), of "snd c"] parts(5) by simp_all
      then show ?thesis
        using Cons ins(2) by (simp add: can_remove_first_def)
    qed
  qed
  show ?thesis
    using m1 m2 all oldest minimal unfolding oldest_of_def m2_def [symmetric] by (auto simp del: set_map)
qed

lemma size_stale_step_oldest:
  assumes "oldest_of R seen m n" "0 < R" "\<forall>a\<in>set seen. bucket_ok a" "bucket_ok b" "b \<notin> set seen"
    "strictly_sorted stale" "fst b \<notin> set stale" "size_stale_step R stale b (m, n) = (m', n')"
  shows "oldest_of R (seen @ [b]) m' n'"
proof (cases "n < R \<or> en_use_time (snd b) < en_use_time (snd (snd (hd m)))")
  case True
  obtain m1 n1 where removed: "remove_first R (snd b) m n = (m1, n1)"
    by force
  have "size_stale_step R stale b (m, n) =
      (fst (multi_map_insert (>) (sint (en_use_time (snd b)), b) m1), n1 + bucket_size b)"
    using assms(6,7) True removed by (auto simp: size_stale_step_def multi_contains_iff Let_def)
  then show ?thesis
    using oldest_of_accept [OF assms(1-5) True removed] assms(8) by simp
next
  case False
  then have same: "m' = m" "n' = n"
    using assms(6-8) by (auto simp: size_stale_step_def multi_contains_iff)
  note inv = assms(1) [unfolded oldest_of_def]
  have "m \<noteq> []"
    using inv False assms(2) by auto
  then have "snd (hd m) \<in> set (map snd m)"
    by simp
  then have "snd (hd m) \<in> set seen"
    using inv by blast
  then have "bucket_ok (snd (hd m))"
    using assms(3) by (rule bspec [rotated])
  then have new: "bucket_time (snd (hd m)) \<le> bucket_time b"
    using False bucket_order(2) [OF assms(4), of "snd (hd m)"] by simp
  have b: "bucket_time a \<le> bucket_time b" if a: "a \<in> set (map snd m)" for a
  proof -
    obtain p where "p \<in> set m" "a = snd p"
      using a unfolding set_map by blast
    then show ?thesis
      using newest_first_hd [of m p] inv new by simp
  qed
  have "\<forall>y\<in>set (seen @ [b]) - set (map snd m). \<forall>a\<in>set (map snd m). bucket_time a \<le> bucket_time y"
  proof (intro ballI)
    fix y a
    assume y: "y \<in> set (seen @ [b]) - set (map snd m)" and a: "a \<in> set (map snd m)"
    then consider "y = b" | "y \<in> set seen - set (map snd m)"
      by auto
    then show "bucket_time a \<le> bucket_time y"
      using b [OF a] inv a by cases blast+
  qed
  moreover have "set (map snd m) \<subseteq> set (seen @ [b])"
    using inv by auto
  ultimately show ?thesis
    using inv False unfolding same oldest_of_def by blast
qed

lemma size_stale_fold_oldest:
  assumes "0 < R" "strictly_sorted stale"
  shows "distinct (seen @ bs) \<Longrightarrow> \<forall>b\<in>set (seen @ bs). bucket_ok b \<Longrightarrow> oldest_of R (filter (\<lambda>b. fst b \<notin> set stale) seen) m n \<Longrightarrow>
    fold (size_stale_step R stale) bs (m, n) = (m', n') \<Longrightarrow>
    oldest_of R (filter (\<lambda>b. fst b \<notin> set stale) (seen @ bs)) m' n'"
proof (induction bs arbitrary: seen m n)
  case (Cons b bs)
  obtain m1 n1 where step: "size_stale_step R stale b (m, n) = (m1, n1)"
    by force
  have "oldest_of R (filter (\<lambda>b. fst b \<notin> set stale) (seen @ [b])) m1 n1"
  proof (cases "fst b \<in> set stale")
    case True
    then show ?thesis
      using Cons.prems(3) step assms(2) by (simp add: size_stale_step_def multi_contains_iff)
  next
    case False
    then show ?thesis
      using size_stale_step_oldest [OF Cons.prems(3) assms(1) _ _ _ assms(2) False step] Cons.prems(1,2) by simp
  qed
  then show ?case
    using Cons.IH [of "seen @ [b]" m1 n1] Cons.prems step by simp
qed simp

lemma fold_set_insert:
  "strictly_sorted stale \<Longrightarrow> strictly_sorted (fold (\<lambda>p stale. fst (set_insert (<) (f p) stale)) ps stale) \<and>
    set (fold (\<lambda>p stale. fst (set_insert (<) (f p) stale)) ps stale) = set stale \<union> f ` set ps"
proof (induction ps arbitrary: stale)
  case (Cons p ps)
  note linorder_less.set_insert_sorted [OF Cons.prems, of "f p"] set_insert_elems [OF Cons.prems, of "f p"]
  then show ?case
    using Cons.IH [of "fst (set_insert (<) (f p) stale)"] by auto
qed simp

lemma sizes_of_set: "distinct bs \<Longrightarrow> sizes_of bs = (\<Sum>b\<in>set bs. bucket_size b)"
  by (simp add: sizes_of_def sum_list_distinct_conv_sum_set)

text \<open>What is to be freed, and what the entries that are to go take.\<close>

definition stale_size :: "cache_key list \<Rightarrow> cache_map \<Rightarrow> int" where
  "stale_size stale m = (\<Sum>b\<in>{b \<in> set m. fst b \<in> set stale}. bucket_size b)"

lemma stale_size_split:
  assumes "distinct (map fst m)"
  shows "map_size m = stale_size stale m + (\<Sum>b\<in>{b \<in> set m. fst b \<notin> set stale}. bucket_size b)"
proof -
  have "distinct m"
    using assms by (simp add: distinct_map)
  then have "map_size m = (\<Sum>b\<in>set m. bucket_size b)"
    using sizes_of_set by (simp add: map_size_def sizes_of_def)
  also have "\<dots> = stale_size stale m + (\<Sum>b\<in>set m - {b \<in> set m. fst b \<in> set stale}. bucket_size b)"
    unfolding stale_size_def by (rule sum.subset_diff [THEN trans, OF _ _ add.commute]) auto
  also have "set m - {b \<in> set m. fst b \<in> set stale} = {b \<in> set m. fst b \<notin> set stale}"
    by blast
  finally show ?thesis .
qed

text \<open>The entries that \<open>collectSizeStale\<close> finds, when there is something to free.\<close>

lemma size_stale_found:
  assumes "distinct (map fst m)" "\<forall>b\<in>set m. bucket_ok b" "mset bs = mset m" "strictly_sorted stale"
    "R = (\<Sum>b\<in>{b \<in> set m. fst b \<notin> set stale}. bucket_size b) - limit" "0 < limit" "0 < R"
    "fold (size_stale_step R stale) bs ([], 0) = (old, n)"
  shows "set (map snd old) \<subseteq> {b \<in> set m. fst b \<notin> set stale}" "n = (\<Sum>b\<in>set (map snd old). bucket_size b)" "R \<le> n"
    "a \<in> set (map snd old) \<Longrightarrow> b \<in> set m \<Longrightarrow> fst b \<notin> set stale \<Longrightarrow> b \<notin> set (map snd old) \<Longrightarrow> bucket_time a \<le> bucket_time b"
    "old \<noteq> [] \<Longrightarrow> n - bucket_size (snd (hd old)) < R"
proof -
  let ?U = "{b \<in> set m. fst b \<notin> set stale}"
  have bs: "distinct bs" "set bs = set m"
    using assms(1) mset_eq_setD [OF assms(3)] mset_eq_imp_distinct_iff [OF assms(3)] by (simp_all add: distinct_map)
  have "oldest_of R (filter (\<lambda>b. fst b \<notin> set stale) ([] @ bs)) old n"
    by (rule size_stale_fold_oldest [OF assms(7,4) _ _ _ assms(8)]) (use bs assms(2,7) oldest_of_Nil in auto)
  then have inv: "oldest_of R (filter (\<lambda>b. fst b \<notin> set stale) bs) old n"
    by simp
  have U: "set (filter (\<lambda>b. fst b \<notin> set stale) bs) = ?U"
    using bs(2) by auto
  note inv = inv [unfolded oldest_of_def U]
  show Old: "set (map snd old) \<subseteq> ?U" and "old \<noteq> [] \<Longrightarrow> n - bucket_size (snd (hd old)) < R"
    using inv by blast+
  show n: "n = (\<Sum>b\<in>set (map snd old). bucket_size b)"
    using inv sizes_of_set [of "map snd old"] by metis
  have "n < R \<longrightarrow> set (map snd old) = ?U"
    using inv by blast
  then show "R \<le> n"
    using n assms(5,6) by force
  show "a \<in> set (map snd old) \<Longrightarrow> b \<in> set m \<Longrightarrow> fst b \<notin> set stale \<Longrightarrow> b \<notin> set (map snd old) \<Longrightarrow> bucket_time a \<le> bucket_time b"
    using inv by blast
qed

lemma stale_size_add:
  assumes "distinct (map fst m)" "Old \<subseteq> {b \<in> set m. fst b \<notin> set stale}" "set stale' = set stale \<union> fst ` Old"
  shows "stale_size stale' m = stale_size stale m + (\<Sum>b\<in>Old. bucket_size b)"
    "\<And>b. b \<in> set m \<Longrightarrow> fst b \<in> fst ` Old \<Longrightarrow> b \<in> Old"
proof -
  show keys: "b \<in> Old" if "b \<in> set m" "fst b \<in> fst ` Old" for b
    using that assms(1,2) by (fastforce simp: distinct_map inj_on_def)
  then have "{b \<in> set m. fst b \<in> set stale'} = {b \<in> set m. fst b \<in> set stale} \<union> Old"
    using assms(2,3) by blast
  then have "stale_size stale' m = (\<Sum>b\<in>{b \<in> set m. fst b \<in> set stale} \<union> Old. bucket_size b)"
    by (simp only: stale_size_def)
  also have "\<dots> = stale_size stale m + (\<Sum>b\<in>Old. bucket_size b)"
    unfolding stale_size_def by (rule sum.union_disjoint) (use assms(2) in \<open>auto intro: finite_subset\<close>)
  finally show "stale_size stale' m = stale_size stale m + (\<Sum>b\<in>Old. bucket_size b)" .
qed

text \<open>C37. Pruning by size frees what is needed and no more: with the entries it chooses gone the total is
  within the limit, what it counts as freed is exactly their size, none that stays is older than
  one that it chooses, and without the newest of those the total would be above the limit.\<close>

theorem size_pruning_removes_oldest:
  assumes "core_ok db" "mset (buckets env db) = mset (db_map db)" "\<forall>b\<in>set (db_map db). bucket_time b < 2 ^ 63"
    "strictly_sorted stale" "set stale \<subseteq> fst ` set (db_map db)" "sizes = stale_size stale (db_map db)"
    "0 < totalSizeLimit (db_settings db)" "collectSizeStale env stale sizes db = (stale', sizes')"
  shows "strictly_sorted stale' \<and> set stale \<subseteq> set stale' \<and> set stale' \<subseteq> fst ` set (db_map db) \<and>
    sizes' = stale_size stale' (db_map db) \<and> db_total_size db - sizes' \<le> totalSizeLimit (db_settings db) \<and>
    (\<forall>a\<in>set (db_map db). \<forall>b\<in>set (db_map db). fst a \<in> set stale' - set stale \<longrightarrow> fst b \<notin> set stale' \<longrightarrow>
      bucket_time a \<le> bucket_time b) \<and>
    (stale' \<noteq> stale \<longrightarrow> (\<exists>a\<in>set (db_map db). fst a \<in> set stale' - set stale \<and>
      totalSizeLimit (db_settings db) < db_total_size db - (sizes' - bucket_size a)))"
proof -
  let ?m = "db_map db" and ?limit = "totalSizeLimit (db_settings db)"
  have m: "distinct (map fst ?m)" "\<forall>b\<in>set ?m. bucket_ok b" "db_total_size db = map_size ?m"
    using assms(1,3) by (auto simp: core_ok_def map_ok_for_def entry_ok_def bucket_ok_def stats_exact_def)
  define R where "R = db_total_size db - sizes - ?limit"
  have R: "R = (\<Sum>b\<in>{b \<in> set ?m. fst b \<notin> set stale}. bucket_size b) - ?limit"
    using stale_size_split [OF m(1), of stale] m(3) assms(6) by (simp add: R_def)
  show ?thesis
  proof (cases "R \<le> 0")
    case True
    then show ?thesis
      using assms(4-8) by (auto simp: collectSizeStale_def R_def)
  next
    case False
    obtain old n where run: "fold (size_stale_step R stale) (buckets env db) ([], 0) = (old, n)"
      by force
    define Old where "Old = set (map snd old)"
    note found = size_stale_found [OF m(1,2) assms(2,4) R assms(7) _ run, folded Old_def]
    have res: "stale' = fold (\<lambda>p stale. fst (set_insert (<) (fst (snd p)) stale)) old stale" "sizes' = sizes + n"
      using assms(7,8) False run by (simp_all add: collectSizeStale_def Let_def flip: R_def)
    have "(\<lambda>p. fst (snd p)) ` set old = fst ` Old"
      by (auto simp: Old_def image_image)
    then have stale': "strictly_sorted stale'" "set stale' = set stale \<union> fst ` Old"
      using fold_set_insert [OF assms(4), of "\<lambda>p. fst (snd p)" old] unfolding res(1) by auto
    note add = stale_size_add [OF m(1) found(1) stale'(2)]
    have older: "\<forall>a\<in>set ?m. \<forall>b\<in>set ?m. fst a \<in> set stale' - set stale \<longrightarrow> fst b \<notin> set stale' \<longrightarrow> bucket_time a \<le> bucket_time b"
      using found(4) add(2) stale'(2) False by (metis DiffE UnCI UnE imageI not_le)
    have newest: "\<exists>a\<in>set ?m. fst a \<in> set stale' - set stale \<and> ?limit < db_total_size db - (sizes' - bucket_size a)"
      if "stale' \<noteq> stale"
    proof -
      have "old \<noteq> []"
        using that res(1) by auto
      then have "snd (hd old) \<in> Old" "n - bucket_size (snd (hd old)) < R"
        using found(5) False by (simp_all add: Old_def)
      then show ?thesis
        using found(1) False stale'(2) res(2) by (intro bexI [of _ "snd (hd old)"]) (auto simp: R_def)
    qed
    have "sizes' = stale_size stale' ?m" "set stale' \<subseteq> fst ` set ?m" "db_total_size db - sizes' \<le> ?limit"
      using stale'(2) found(1-3) add(1) assms(5,6) res(2) False by (auto simp: R_def)
    then show ?thesis
      using stale' older newest by blast
  qed
qed

section \<open>Pruning by time\<close>

text \<open>C38. While the time of the oldest entry is not known, as after the last entry of that time has been
  written anew, \<open>startDelayedPruning\<close> starts the pruning to find it again; but the pruning itself
  returns at once then. However old the entries are, none is removed, and the time stays unknown.\<close>

theorem time_pruning_without_minimal:
  assumes "trackEstimatedTime (db_settings db)" "db_map db \<noteq> []" "db_minimal_time db = 0" "db_stale db = []"
    "totalSizeLimit (db_settings db) \<le> 0 \<or> db_total_size db \<le> totalSizeLimit (db_settings db)"
    "0 \<le> staleRemoveChunk (db_settings db)" "db_prune_timer db = None"
  shows "startDelayedPruning env db =
      Inr (True, db\<lparr> db_prune_timer := Some (ce_now env + pruneTimeout (db_settings db)) \<rparr>) \<and>
    prune_timer env' (db\<lparr> db_prune_timer := Some (ce_now env + pruneTimeout (db_settings db)) \<rparr>) = Inr db"
proof -
  have same: "db\<lparr> db_prune_timer := None \<rparr> = db"
    using assms(7) by (cases db) simp
  have "prune env' db = Inr db"
    using assms by (auto simp: prune_def collectTimeStale_def collectSizeStale_def clearStaleNow_def Let_def)
  then have "prune env' (db\<lparr> db_prune_timer := None \<rparr>) = Inr db"
    unfolding same .
  then show ?thesis
    using assms by (simp add: startDelayedPruning_def prune_timer_def)
qed

section \<open>Witnesses\<close>

definition full_db :: cache_db where
  "full_db = sample_db\<lparr>
     db_settings := default_settings\<lparr> maxDataSize := 10, totalSizeLimit := 11 \<rparr>,
     db_map := [(Cache_key 0 1, sample_entry\<lparr> en_use_time := 3, en_size := 5, en_tag := 0 \<rparr>),
       (Cache_key 0 2, sample_entry\<lparr> en_use_time := 1, en_size := 6, en_tag := 0 \<rparr>),
       (Cache_key 0 3, sample_entry\<lparr> en_use_time := 2, en_size := 7, en_tag := 0 \<rparr>)],
     db_total_size := 18, db_minimal_time := 0, db_tagged := (\<lambda>_. None) \<rparr>"

lemma full_core_ok: "core_ok full_db"
  by (auto simp: core_ok_def full_db_def sample_db_def default_settings_def checkSettings_def kDataSizeLimit_def
      kBundledRecordsLimit_def map_ok_for_def entry_ok_def sample_entry_def sample_place_def stats_exact_def map_size_def
      tag_count_def tag_size_def tagged_summary_of_def minimal_ok_def)

lemma full_collected: "collectSizeStale sample_env [] 0 full_db = ([Cache_key 0 2, Cache_key 0 3], 13)"
  by code_simp

theorem size_pruning_removes_oldest_witness:
  "collectSizeStale sample_env [] 0 full_db = ([Cache_key 0 2, Cache_key 0 3], 13) \<and>
   db_total_size full_db - 13 \<le> totalSizeLimit (db_settings full_db) \<and>
   stale_size [Cache_key 0 2, Cache_key 0 3] (db_map full_db) = 13"
proof -
  have "mset (buckets sample_env full_db) = mset (db_map full_db)" "\<forall>b\<in>set (db_map full_db). bucket_time b < 2 ^ 63"
    "0 < totalSizeLimit (db_settings full_db)" "0 = stale_size [] (db_map full_db)"
    by (simp_all add: buckets_def sample_env_def full_db_def sample_entry_def bucket_time_def stale_size_def)
  from size_pruning_removes_oldest [OF full_core_ok this(1,2) _ _ this(4,3) full_collected] show ?thesis
    using full_collected by simp
qed

theorem time_pruning_without_minimal_witness:
  "prune_timer sample_env (full_db\<lparr> db_settings := default_settings, db_prune_timer := Some 5000 \<rparr>) =
    Inr (full_db\<lparr> db_settings := default_settings \<rparr>)"
  using time_pruning_without_minimal [of "full_db\<lparr> db_settings := default_settings \<rparr>" sample_env sample_env]
  by (simp add: full_db_def sample_db_def sample_env_def default_settings_def)

end
