(* ===== verification/Cache_Compactor.thy ===== *)
theory Cache_Compactor
  imports Cache_Database
begin

text \<open>
  storage/cache/storage\_cache\_compactor.cpp, and the end of a compaction in
  storage\_cache\_database\_object.cpp. The compactor reads the log up to the size it had at the
  start, asks the database for the entries of the keys it finds there, a chunk at a time, and
  writes them to a new log; then it copies what has been added to the old log meanwhile, and the
  database puts the new log into the place of the old one. It runs on a queue of its own: what it
  sends to the database is a message, and between two of its tasks the database goes on. Both see
  one disk.
\<close>

section \<open>The state\<close>

type_synonym cache_disk = "string \<Rightarrow> bytes option"

text \<open>The messages of the compactor to the database, in the order they were sent.\<close>

datatype co_message =
    Post_fail
  | Post_keys "cache_key list"
  | Post_done int

text \<open>
  The two kinds of \<open>_list\<close> are told apart by \<open>trackEstimatedTime\<close>. An open file is the position in
  it.
\<close>

record compactor =
  co_base :: string
  co_settings :: cache_settings
  co_header :: log_header
  co_info :: compactor_info
  co_binlog :: "nat option"
  co_compact :: "nat option"
  co_wrapper :: binlog_wrapper
  co_part_size :: int
  co_written :: "cache_key list"
  co_list :: "store_record list"
  co_posted :: "co_message list"

definition CompactFilename :: string where "CompactFilename = ''binlog-temp''"

definition co_binlogPath :: "compactor \<Rightarrow> string" where
  "co_binlogPath co = co_base co @ BinlogFilename"

definition compactPath :: "compactor \<Rightarrow> string" where
  "compactPath co = co_base co @ CompactFilename"

definition co_post :: "co_message \<Rightarrow> compactor \<Rightarrow> compactor" where
  "co_post m co = co\<lparr> co_posted := co_posted co @ [m] \<rparr>"

section \<open>Files\<close>

definition disk_file :: "string \<Rightarrow> cache_disk \<Rightarrow> bytes" where
  "disk_file path disk = (case disk path of None \<Rightarrow> [] | Some xs \<Rightarrow> xs)"

definition co_file :: "compactor \<Rightarrow> cache_disk \<Rightarrow> plain_file" where
  "co_file co disk =
     (case co_binlog co of
        None \<Rightarrow> \<lparr> pf_data = [], pf_offset = 0 \<rparr>
      | Some off \<Rightarrow> \<lparr> pf_data = disk_file (co_binlogPath co) disk, pf_offset = off \<rparr>)"

definition co_file_read :: "plain_file \<Rightarrow> compactor \<Rightarrow> compactor" where
  "co_file_read f co = co\<lparr> co_binlog := map_option (\<lambda>_. pf_offset f) (co_binlog co) \<rparr>"

definition co_write :: "cache_env \<Rightarrow> bytes \<Rightarrow> compactor \<Rightarrow> cache_disk \<Rightarrow> bool \<times> compactor \<times> cache_disk" where
  "co_write env xs co disk =
     (case co_compact co of
        None \<Rightarrow> (False, co, disk)
      | Some off \<Rightarrow>
          if ce_write_log env xs
          then let p = plain_write xs \<lparr> pf_data = disk_file (compactPath co) disk, pf_offset = off \<rparr>
            in (True, co\<lparr> co_compact := Some (pf_offset p) \<rparr>, disk(compactPath co \<mapsto> pf_data p))
          else (False, co, disk))"

definition co_openBinlog :: "cache_env \<Rightarrow> compactor \<Rightarrow> cache_disk \<Rightarrow> bool \<times> compactor" where
  "co_openBinlog env co disk =
     (case disk (co_binlogPath co) of
        None \<Rightarrow> (False, co\<lparr> co_binlog := None \<rparr>)
      | Some xs \<Rightarrow>
          if ce_open env (co_binlogPath co) Mode_Read \<noteq> Result_Success then (False, co\<lparr> co_binlog := None \<rparr>)
          else (ci_till (co_info co) \<le> int (length xs), co\<lparr> co_binlog := Some 0 \<rparr>))"

definition co_readHeader :: "compactor \<Rightarrow> cache_disk \<Rightarrow> bool \<times> compactor" where
  "co_readHeader co disk =
     (let (header, f) = ReadHeader (co_settings co) (co_file co disk); co1 = co_file_read f co
      in case header of None \<Rightarrow> (False, co1) | Some h \<Rightarrow> (True, co1\<lparr> co_header := h \<rparr>))"

definition openCompact :: "cache_env \<Rightarrow> compactor \<Rightarrow> cache_disk \<Rightarrow> bool \<times> compactor \<times> cache_disk" where
  "openCompact env co disk =
     (if ce_open env (compactPath co) Mode_Write \<noteq> Result_Success then (False, co\<lparr> co_compact := None \<rparr>, disk)
      else co_write env (header_bytes (co_header co)) (co\<lparr> co_compact := Some 0 \<rparr>) (disk(compactPath co \<mapsto> [])))"

definition co_fail :: "cache_env \<Rightarrow> compactor \<Rightarrow> cache_disk \<Rightarrow> compactor \<times> cache_disk" where
  "co_fail env co disk =
     (co_post Post_fail (co\<lparr> co_compact := None \<rparr>),
      if ce_remove_file env (compactPath co) then disk(compactPath co := None) else disk)"

section \<open>Writing records\<close>

definition addListRecord :: "cache_key \<times> cache_entry \<Rightarrow> compactor \<Rightarrow> compactor outcome" where
  "addListRecord raw co =
     (if fst raw \<in> set (co_written co) then Inr co
      else let entry = snd raw;
               time = (if trackEstimatedTime (co_settings co)
                 then Some (setRelative (en_use_time entry)
                   (zero_time\<lparr> tp_system := ci_system_time (co_info co) \<rparr>))
                 else None)
        in bind_outcome (setSize (en_size entry) ((new_store time)\<lparr> sr_key := fst raw \<rparr>)) (\<lambda>r.
             Inr (co\<lparr> co_written := fst raw # co_written co,
               co_list := co_list co @ [r\<lparr> sr_checksum := en_checksum entry, sr_tag := en_tag entry,
                 sr_place := en_place entry \<rparr>] \<rparr>)))"

fun fillList :: "(cache_key \<times> cache_entry) list \<Rightarrow> compactor \<Rightarrow> (compactor \<times> (cache_key \<times> cache_entry) list) outcome" where
  "fillList [] co = Inr (co, [])"
| "fillList (raw # values) co =
     (if int (length (co_list co)) = co_part_size co then Inr (co, raw # values)
      else bind_outcome (addListRecord raw co) (fillList values))"

text \<open>The list is emptied whether or not it could be written.\<close>

definition writeMultiStore :: "cache_env \<Rightarrow> compactor \<Rightarrow> cache_disk \<Rightarrow> (bool \<times> compactor \<times> cache_disk) outcome" where
  "writeMultiStore env co disk =
     (if co_list co = [] then Inr (True, co, disk)
      else bind_outcome (MultiStoreHead (int (length (co_list co)))) (\<lambda>header.
        let (ok1, co1, disk1) = co_write env header co disk;
            (ok2, co2, disk2) = (if ok1 then co_write env (concat (map store_bytes (co_list co))) co1 disk1
              else (False, co1, disk1))
        in Inr (ok2, co2\<lparr> co_list := [] \<rparr>, disk2)))"

text \<open>With parts of no records the loop of \<open>processValues\<close> goes on for ever.\<close>

lemma fillList_length: "fillList values co = Inr (co1, left) \<Longrightarrow> length left \<le> length values"
  by (induction "values" co rule: fillList.induct) (fastforce simp: bind_outcome_Inr_iff split: if_splits)+

lemma writeMultiStore_empties: "writeMultiStore env co disk = Inr (ok, co1, disk1) \<Longrightarrow> co_list co1 = []"
  by (auto simp: writeMultiStore_def bind_outcome_Inr_iff Let_def case_prod_beta split: if_splits)

lemma fillList_unread:
  "fillList values co = Inr (co1, left) \<Longrightarrow> length left = length values \<Longrightarrow> co1 = co"
proof (cases "values")
  case (Cons raw rest)
  assume run: "fillList values co = Inr (co1, left)" and len: "length left = length values"
  show ?thesis
  proof (cases "int (length (co_list co)) = co_part_size co")
    case False
    then obtain co2 where "fillList rest co2 = Inr (co1, left)"
      using run Cons by (auto simp: bind_outcome_Inr_iff)
    from fillList_length [OF this] show ?thesis
      using len Cons by simp
  qed (use run Cons in simp)
qed simp

function process_values ::
    "cache_env \<Rightarrow> (cache_key \<times> cache_entry) list \<Rightarrow> compactor \<Rightarrow> cache_disk \<Rightarrow>
     (bool \<times> compactor \<times> cache_disk) outcome" where
  "process_values env values co disk =
     bind_outcome (fillList values co) (\<lambda>(co1, left).
       if left = [] then Inr (True, co1, disk)
       else if length left = length values \<and> co_list co1 = [] then Inl Still_running
       else bind_outcome (writeMultiStore env co1 disk) (\<lambda>(ok, co2, disk2).
         if ok then process_values env left co2 disk2 else Inr (False, co2, disk2)))"
  by pat_completeness auto

termination
proof (relation "measure (\<lambda>(env, values, co, disk). 2 * length values + (if co_list co = [] then 0 else 1))", goal_cases)
  case (2 env vals co disk x co1 left y ok z co2 disk2)
  then show ?case
    using fillList_length [of vals co co1 left] fillList_unread [of vals co co1 left]
      writeMultiStore_empties [of env co1 disk True co2 disk2]
    by (cases "length left = length vals") auto
qed simp

declare process_values.simps [simp del]

section \<open>Reading the log\<close>

text \<open>The handlers of \<open>readBlock\<close> collect the keys that are stored.\<close>

definition push_keys :: "cache_key list log_handler" where
  "push_keys r result =
     (case r of
        Log_store s \<Rightarrow> Inr (True, result @ [sr_key s])
      | Log_multi_store ss \<Rightarrow> Inr (True, result @ map sr_key ss)
      | _ \<Rightarrow> Inr (True, result))"

definition readBlock ::
    "cache_settings \<Rightarrow> binlog_wrapper \<Rightarrow> plain_file \<Rightarrow> cache_key list \<Rightarrow>
     (bool \<times> binlog_wrapper \<times> plain_file \<times> cache_key list) outcome" where
  "readBlock st w f result =
     (let track = trackEstimatedTime st; kinds = binlog_kinds track
      in asserts (CheckSettings kinds st)
        (bind_outcome (readTillEnd kinds track st push_keys w f result) (\<lambda>(finished, w1, f1, result1).
          Inr (\<not> finished, w1, f1, result1))))"

function readChunk ::
    "cache_settings \<Rightarrow> binlog_wrapper \<Rightarrow> plain_file \<Rightarrow> cache_key list \<Rightarrow>
     (binlog_wrapper \<times> plain_file \<times> cache_key list) outcome" where
  "readChunk st w f result =
     (if int (length result) < compactChunkSize st
      then bind_outcome (readBlock st w f result) (\<lambda>(more, w1, f1, result1).
        if more then readChunk st w1 f1 result1 else Inr (w1, f1, result1))
      else Inr (w, f, result))"
  by pat_completeness auto

termination
proof (relation "measure (\<lambda>(st, w, f, result). if bw_finished w then 0 else Suc (nat (bw_till w - int (pf_offset f))))",
    goal_cases)
  case (2 st w f result x more y w1 z f1 result1)
  then have "readTillEnd (binlog_kinds (trackEstimatedTime st)) (trackEstimatedTime st) st push_keys w f result =
      Inr (False, w1, f1, result1)"
    by (auto simp: readBlock_def asserts_def bind_outcome_Inr_iff Let_def split: if_splits)
  then show ?case
    using readTillEnd_advances [of "binlog_kinds (trackEstimatedTime st)" "trackEstimatedTime st" st push_keys w f result w1 f1]
    by auto
qed simp

declare readChunk.simps [simp del]

section \<open>Catching up\<close>

text \<open>
  \<open>CatchUp\<close> copies the log from a position to its end behind the new log; zero stands for a
  failure. The file it reads has to exist; the one it appends to is made when it does not.
\<close>

function catch_up_loop ::
    "cache_env \<Rightarrow> int \<Rightarrow> int \<Rightarrow> int \<Rightarrow> plain_file \<Rightarrow> plain_file \<Rightarrow> (int \<times> plain_file) outcome" where
  "catch_up_loop env block till from binlog compact =
     (let limit = min (till - from) block; (got, binlog1) = plain_read (nat limit) binlog
      in expects (limit mod 16 = 0)
        (if got = [] then Inr (0, compact)
         else if \<not> ce_write_log env got then Inr (0, compact)
         else let compact1 = plain_write got compact; from1 = from + int (length got)
           in if from1 \<noteq> till then catch_up_loop env block till from1 binlog1 compact1
              else Inr (till, compact1)))"
  by pat_completeness auto

termination
proof (relation "measure (\<lambda>(env, block, till, from, binlog, compact). nat (till - from))", goal_cases)
  case (2 env block till start binlog compact limit x got binlog1)
  then have got: "got = take (nat (min (till - start) block)) (drop (pf_offset binlog) (pf_data binlog))" "got \<noteq> []"
    by (simp_all add: plain_read_def Let_def)
  have "length got \<le> nat (till - start)"
    unfolding got(1) by auto
  moreover have "0 < length got"
    using got(2) by (simp only: length_greater_0_conv not_False_eq_True)
  moreover have "nat (till - (start + int (length got))) < nat (till - start)"
    using calculation by linarith
  ultimately show ?case
    using 2 by simp
qed simp

declare catch_up_loop.simps [simp del]

definition CatchUp ::
    "cache_env \<Rightarrow> string \<Rightarrow> string \<Rightarrow> int \<Rightarrow> int \<Rightarrow> cache_disk \<Rightarrow> (int \<times> cache_disk) outcome" where
  "CatchUp env compact_path binlog_path from block disk =
     (case disk binlog_path of
        None \<Rightarrow> Inr (0, disk)
      | Some xs \<Rightarrow>
          if ce_open env binlog_path Mode_Read \<noteq> Result_Success then Inr (0, disk)
          else let till = int (length xs); (ok, binlog) = plain_seek from \<lparr> pf_data = xs, pf_offset = 0 \<rparr>
            in if till = from then Inr (till, disk)
               else if till < from \<or> \<not> ok then Inr (0, disk)
               else if ce_open env compact_path Mode_ReadAppend \<noteq> Result_Success then Inr (0, disk)
               else let ys = disk_file compact_path disk;
                        (ok1, compact) = plain_seek (int (length ys)) \<lparr> pf_data = ys, pf_offset = 0 \<rparr>
                 in if \<not> ok1 then Inr (0, disk(compact_path \<mapsto> ys))
                    else bind_outcome (catch_up_loop env block till from binlog compact) (\<lambda>(reached, compact1).
                      Inr (reached, disk(compact_path \<mapsto> pf_data compact1))))"

section \<open>The tasks of the compactor\<close>

text \<open>
  What is next on the compactor's own queue: the start; nothing, until the database answers; the
  values the database has sent; another round of \<open>finalize\<close>, from a position and after one of a given
  length.
\<close>

datatype co_phase =
    Co_starts
  | Co_waits
  | Co_values "(cache_key \<times> cache_entry) list"
  | Co_catches int int

definition co_finish :: "cache_env \<Rightarrow> compactor \<Rightarrow> cache_disk \<Rightarrow> (co_phase \<times> compactor \<times> cache_disk) outcome" where
  "co_finish env co disk =
     bind_outcome (writeMultiStore env co disk) (\<lambda>(ok, co1, disk1).
       Inr (if ok then (Co_catches (ci_till (co_info co1)) 0, co1\<lparr> co_binlog := None, co_compact := None \<rparr>, disk1)
         else (Co_waits, co_fail env co1 disk1)))"

definition parseChunk :: "cache_env \<Rightarrow> compactor \<Rightarrow> cache_disk \<Rightarrow> (co_phase \<times> compactor \<times> cache_disk) outcome" where
  "parseChunk env co disk =
     bind_outcome (readChunk (co_settings co) (co_wrapper co) (co_file co disk) []) (\<lambda>(w, f, keys).
       let co1 = co_file_read f (co\<lparr> co_wrapper := w \<rparr>)
       in if bw_failed w then Inr (Co_waits, co_fail env co1 disk)
          else if keys = [] then co_finish env co1 disk
          else Inr (Co_waits, co_post (Post_keys keys) co1, disk))"

definition CompactorObject :: "string \<Rightarrow> cache_settings \<Rightarrow> compactor_info \<Rightarrow> compactor" where
  "CompactorObject base st info =
     \<lparr> co_base = base, co_settings = st, co_header = BasicHeader, co_info = info, co_binlog = None,
       co_compact = None, co_wrapper = BinlogWrapper \<lparr> pf_data = [], pf_offset = 0 \<rparr> (ci_till info),
       co_part_size = maxBundledRecords st, co_written = [], co_list = [], co_posted = [] \<rparr>"

text \<open>The rest of the constructor; \<open>start\<close> goes on when it has failed.\<close>

definition co_start :: "cache_env \<Rightarrow> compactor \<Rightarrow> cache_disk \<Rightarrow> (co_phase \<times> compactor \<times> cache_disk) outcome" where
  "co_start env co disk =
     expects (compactChunkSize (co_settings co) > 0)
       (let (ok1, co1) = co_openBinlog env co disk;
            (ok2, co2) = (if ok1 then co_readHeader co1 disk else (False, co1));
            (ok3, co3, disk3) = (if ok2 then openCompact env co2 disk else (False, co2, disk));
            (co4, disk4) = (if ok3 then (co3, disk3) else co_fail env co3 disk3)
        in parseChunk env (co4\<lparr> co_list := [] \<rparr>) disk4)"

definition processValues ::
    "cache_env \<Rightarrow> (cache_key \<times> cache_entry) list \<Rightarrow> compactor \<Rightarrow> cache_disk \<Rightarrow>
     (co_phase \<times> compactor \<times> cache_disk) outcome" where
  "processValues env values co disk =
     bind_outcome (process_values env values co disk) (\<lambda>(ok, co1, disk1).
       if ok then parseChunk env co1 disk1 else Inr (Co_waits, co_fail env co1 disk1))"

text \<open>A round of the loop of \<open>finalize\<close>; the length of the last round is kept in 32 bits.\<close>

definition finalize_round ::
    "cache_env \<Rightarrow> int \<Rightarrow> int \<Rightarrow> compactor \<Rightarrow> cache_disk \<Rightarrow> (co_phase \<times> compactor \<times> cache_disk) outcome" where
  "finalize_round env from lastCatchUp co disk =
     bind_outcome (CatchUp env (compactPath co) (co_binlogPath co) from (readBlockSize (co_settings co)) disk)
       (\<lambda>(till, disk1).
         Inr (if till = 0 then (Co_waits, co_fail env co disk1)
           else if till = from \<or> (lastCatchUp > 0 \<and> till - from \<ge> lastCatchUp)
           then (Co_waits, co_post (Post_done till) co, disk1)
           else (Co_catches till (sint (word_of_int (till - from) :: 32 word)), co, disk1)))"

section \<open>The database ends the compaction\<close>

definition compactorDone :: "cache_env \<Rightarrow> string \<Rightarrow> int \<Rightarrow> cache_db \<Rightarrow> cache_db outcome" where
  "compactorDone env path originalReadTill db =
     (let size = binlog_size db; binlog = binlogPath db; ready = compactReadyPath db;
          reset = (\<lambda>db. db\<lparr> db_compactor := no_compactor \<rparr>)
      in bind_outcome
        (if originalReadTill \<noteq> size
         then CatchUp env path binlog originalReadTill (readBlockSize (db_settings db)) (db_disk db)
         else Inr (originalReadTill, db_disk db))
        (\<lambda>(till, disk).
          let db1 = db\<lparr> db_disk := disk \<rparr>
          in if till \<noteq> size then Inr (compactorFail env db1)
             else let (moved, db2) = move_file env path ready db1
               in if \<not> moved then Inr (compactorFail env db2)
                  else let (moved1, db3) = move_file env ready binlog (binlog_close db2)
                    in if \<not> moved1 then Inr (reset (compactorFail env db3))
                       else let (result, db4) = open_log_file env binlog Mode_ReadAppend db3
                         in if result \<noteq> Result_Success then Inr (reset (compactorFail env db4))
                            else let (ok, f) = plain_seek (binlog_size db4)
                                       \<lparr> pf_data = binlog_content db4, pf_offset = 0 \<rparr>
                              in if \<not> ok then Inr (reset (compactorFail env (binlog_close db4)))
                                 else let db5 = db4\<lparr> db_binlog := Some (binlog, pf_offset f),
                                            db_excess := db_excess db4 - cw_excess (db_compactor db4) \<rparr>
                                   in asserts (db_excess db5 \<ge> 0) (Inr (reset db5))))"

end
