(* ===== verification/Cache_Growth.thy ===== *)
theory Cache_Growth
  imports Cache_Reopen Cache_Compactor
begin

text \<open>
  What a compaction relies on while the database goes on: no operation changes what is in the log,
  they only append whole records; a key that has no entry gets one only with a record that stores
  it; and the files of the compactor are left alone.
\<close>

section \<open>Growth of the log\<close>

definition log_bytes :: "log_record list \<Rightarrow> bytes" where
  "log_bytes recs = concat (map record_bytes recs)"

lemma log_bytes_simps [simp]:
  "log_bytes [] = []" "log_bytes (r # rs) = record_bytes r @ log_bytes rs"
  "log_bytes (rs @ rs') = log_bytes rs @ log_bytes rs'"
  by (simp_all add: log_bytes_def)

fun record_keys :: "log_record \<Rightarrow> cache_key list" where
  "record_keys (Log_store s) = [sr_key s]"
| "record_keys (Log_multi_store ss) = map sr_key ss"
| "record_keys (Log_multi_remove ks) = []"
| "record_keys (Log_multi_access t ks) = []"

definition stored_keys :: "log_record list \<Rightarrow> cache_key list" where
  "stored_keys recs = concat (map record_keys recs)"

lemma stored_keys_simps [simp]:
  "stored_keys [] = []" "stored_keys (r # rs) = record_keys r @ stored_keys rs"
  "stored_keys (rs @ rs') = stored_keys rs @ stored_keys rs'"
  by (simp_all add: stored_keys_def)

text \<open>Only the limits of the settings can change while the cache is open.\<close>

definition limits_off :: "cache_settings \<Rightarrow> cache_settings" where
  "limits_off st = st\<lparr> totalSizeLimit := 0, totalTimeLimit := 0 \<rparr>"

lemma limits_off_eqD:
  assumes "limits_off st' = limits_off st"
  shows "maxBundledRecords st' = maxBundledRecords st" "record_valid st' = record_valid st"
    "trackEstimatedTime st' = trackEstimatedTime st" "readBlockSize st' = readBlockSize st"
    "compactChunkSize st' = compactChunkSize st" "maxDataSize st' = maxDataSize st"
proof -
  have "record_valid st = record_valid (limits_off st)" for st
    by (rule ext) (simp add: limits_off_def)
  from this [of st'] this [of st] have "record_valid st' = record_valid st"
    by (simp only: assms)
  then show "record_valid st' = record_valid st"
    by blast
qed (use arg_cong [OF assms, of maxBundledRecords] arg_cong [OF assms, of trackEstimatedTime]
    arg_cong [OF assms, of readBlockSize] arg_cong [OF assms, of compactChunkSize] arg_cong [OF assms, of maxDataSize]
    in \<open>simp_all add: limits_off_def\<close>)

lemma limits_off_update [simp]: "limits_off (st\<lparr> totalSizeLimit := a, totalTimeLimit := b \<rparr>) = limits_off st"
  by (simp add: limits_off_def)

text \<open>The compactor that was started last.\<close>

definition last_start :: "cache_event list \<Rightarrow> compactor_info option" where
  "last_start es = fold (\<lambda>e i. case e of Compactor_started info \<Rightarrow> Some info | _ \<Rightarrow> i) es None"

lemma last_start_simps [simp]:
  "last_start (es @ [Push_stats_later]) = last_start es" "last_start (es @ [Fire_stats s]) = last_start es"
  "last_start (es @ [Clear_chunk_later]) = last_start es" "last_start (es @ [Cleaner_started]) = last_start es"
  "last_start (es @ [Compactor_started info]) = Some info"
  by (simp_all add: last_start_def)

abbreviation compacts :: "cache_db \<Rightarrow> bool" where
  "compacts db \<equiv> cw_object (db_compactor db)"

definition same_place :: "cache_db \<Rightarrow> cache_db \<Rightarrow> bool" where
  "same_place db db' \<longleftrightarrow>
     db_base db' = db_base db \<and> db_path db' = db_path db \<and>
     limits_off (db_settings db') = limits_off (db_settings db) \<and>
     db_disk db' (db_path db @ CompactFilename) = db_disk db (db_path db @ CompactFilename) \<and>
     db_excess db \<le> db_excess db' \<and>
     (compacts db \<longrightarrow> db_compactor db' = db_compactor db \<and> last_start (db_events db') = last_start (db_events db))"

definition entries_from :: "cache_key list \<Rightarrow> cache_db \<Rightarrow> cache_db \<Rightarrow> bool" where
  "entries_from ks db db' \<longleftrightarrow>
     (\<forall>k. map_of (db_map db) k = None \<longrightarrow> k \<notin> set ks \<longrightarrow> map_of (db_map db') k = None)"

definition log_place :: "cache_db \<Rightarrow> bool" where
  "log_place db \<longleftrightarrow> (db_binlog db = None \<or> (\<exists>xs. open_log db xs)) \<and>
     0 < maxBundledRecords (db_settings db) \<and> maxBundledRecords (db_settings db) < kBundledRecordsLimit"

definition log_grows :: "cache_db \<Rightarrow> cache_db \<Rightarrow> bool" where
  "log_grows db db' \<longleftrightarrow> db_binlog db' = None \<or>
     (\<exists>xs recs. open_log db xs \<and> open_log db' (xs @ log_bytes recs) \<and>
       list_all (record_valid (db_settings db)) recs \<and> entries_from (stored_keys recs) db db')"

text \<open>A compactor is started between two records of the log.\<close>

definition begins :: "cache_db \<Rightarrow> cache_db \<Rightarrow> bool" where
  "begins db db' \<longleftrightarrow> (\<not> compacts db \<longrightarrow> compacts db' \<longrightarrow>
     (\<exists>info. last_start (db_events db') = Some info \<and> cw_excess (db_compactor db') \<le> db_excess db' \<and>
       (db_binlog db' \<noteq> None \<longrightarrow> (\<exists>xs recs recs'. open_log db xs \<and> open_log db' (xs @ log_bytes (recs @ recs')) \<and>
         list_all (record_valid (db_settings db)) (recs @ recs') \<and> ci_till info = int (length (xs @ log_bytes recs))))))"

definition evolves :: "cache_db \<Rightarrow> cache_db \<Rightarrow> bool" where
  "evolves db db' \<longleftrightarrow> (log_place db \<longrightarrow> same_place db db' \<and> log_grows db db' \<and> begins db db')"

lemma open_log_inj: "open_log db xs \<Longrightarrow> open_log db ys \<Longrightarrow> xs = ys"
  by (simp add: open_log_def)

lemma open_log_not_closed: "open_log db xs \<Longrightarrow> db_binlog db \<noteq> None"
  by (simp add: open_log_def)

lemma same_place_refl [simp]: "same_place db db"
  by (simp add: same_place_def)

lemma same_place_trans: "same_place a b \<Longrightarrow> same_place b c \<Longrightarrow> same_place a c"
  by (simp add: same_place_def)

lemma log_growsE:
  assumes "log_grows db db'" "db_binlog db' \<noteq> None"
  obtains xs recs where "open_log db xs" "open_log db' (xs @ log_bytes recs)"
    "list_all (record_valid (db_settings db)) recs" "entries_from (stored_keys recs) db db'"
  using assms unfolding log_grows_def by metis

lemma log_grows_trans:
  assumes "log_grows a b" "log_grows b c" "same_place a b"
  shows "log_grows a c"
proof (cases "db_binlog c = None")
  case False
  then obtain ys rs where c: "open_log b ys" "open_log c (ys @ log_bytes rs)" "list_all (record_valid (db_settings b)) rs"
    "entries_from (stored_keys rs) b c"
    using log_growsE [OF assms(2)] by blast
  obtain xs qs where b: "open_log a xs" "open_log b (xs @ log_bytes qs)" "list_all (record_valid (db_settings a)) qs"
    "entries_from (stored_keys qs) a b"
    using log_growsE [OF assms(1) open_log_not_closed [OF c(1)]] by blast
  have ys: "ys = xs @ log_bytes qs"
    using open_log_inj [OF c(1) b(2)] .
  have "record_valid (db_settings b) = record_valid (db_settings a)"
    using assms(3) limits_off_eqD(2) [of "db_settings b" "db_settings a"] by (simp add: same_place_def)
  then have "list_all (record_valid (db_settings a)) (qs @ rs)"
    using b(3) c(3) by simp
  moreover have "entries_from (stored_keys (qs @ rs)) a c"
    using b(4) c(4) by (simp add: entries_from_def)
  moreover have "open_log c (xs @ log_bytes (qs @ rs))"
    using c(2) ys by simp
  ultimately have "open_log a xs \<and> open_log c (xs @ log_bytes (qs @ rs)) \<and> list_all (record_valid (db_settings a)) (qs @ rs) \<and>
      entries_from (stored_keys (qs @ rs)) a c"
    using b(1) by blast
  then show ?thesis
    unfolding log_grows_def by blast
qed (simp add: log_grows_def)

lemma log_place_step: "log_place a \<Longrightarrow> same_place a b \<Longrightarrow> log_grows a b \<Longrightarrow> log_place b"
  using limits_off_eqD(1) [of "db_settings b" "db_settings a"] by (auto simp: log_place_def same_place_def log_grows_def)

lemma begins_same: "(compacts db' \<Longrightarrow> compacts db) \<Longrightarrow> begins db db'"
  by (auto simp: begins_def)

lemma begins_trans:
  assumes "begins a b" "begins b c" "same_place a b" "same_place b c" "log_grows a b" "log_grows b c"
  shows "begins a c"
proof (cases "\<not> compacts a \<and> compacts c")
  case True
  have valid: "record_valid (db_settings b) = record_valid (db_settings a)"
    using assms(3) limits_off_eqD(2) [of "db_settings b" "db_settings a"] by (simp add: same_place_def)
  show ?thesis
  proof (cases "compacts b")
    case started: True
    obtain info where info: "last_start (db_events b) = Some info" "cw_excess (db_compactor b) \<le> db_excess b"
      and log: "db_binlog b \<noteq> None \<Longrightarrow> \<exists>xs recs recs'. open_log a xs \<and> open_log b (xs @ log_bytes (recs @ recs')) \<and>
         list_all (record_valid (db_settings a)) (recs @ recs') \<and> ci_till info = int (length (xs @ log_bytes recs))"
      using assms(1) True started unfolding begins_def by blast
    have "\<exists>xs recs recs'. open_log a xs \<and> open_log c (xs @ log_bytes (recs @ recs')) \<and>
         list_all (record_valid (db_settings a)) (recs @ recs') \<and> ci_till info = int (length (xs @ log_bytes recs))"
      if closed: "db_binlog c \<noteq> None"
    proof -
      obtain ys rs where c: "open_log b ys" "open_log c (ys @ log_bytes rs)" "list_all (record_valid (db_settings b)) rs"
        using assms(6) closed unfolding log_grows_def by blast
      obtain xs recs recs' where b: "open_log a xs" "open_log b (xs @ log_bytes (recs @ recs'))"
        "list_all (record_valid (db_settings a)) (recs @ recs')" "ci_till info = int (length (xs @ log_bytes recs))"
        using log [OF open_log_not_closed [OF c(1)]] by blast
      have "open_log c (xs @ log_bytes (recs @ (recs' @ rs)))"
        using c(2) open_log_inj [OF c(1) b(2)] by simp
      moreover have "list_all (record_valid (db_settings a)) (recs @ (recs' @ rs))"
        using b(3) c(3) valid by simp
      ultimately show ?thesis
        using b(1,4) by blast
    qed
    moreover have "db_compactor c = db_compactor b" "last_start (db_events c) = last_start (db_events b)" "db_excess b \<le> db_excess c"
      using assms(4) started by (simp_all add: same_place_def)
    ultimately show ?thesis
      using info unfolding begins_def by auto
  next
    case False
    obtain info where info: "last_start (db_events c) = Some info" "cw_excess (db_compactor c) \<le> db_excess c"
      and log: "db_binlog c \<noteq> None \<Longrightarrow> \<exists>xs recs recs'. open_log b xs \<and> open_log c (xs @ log_bytes (recs @ recs')) \<and>
         list_all (record_valid (db_settings b)) (recs @ recs') \<and> ci_till info = int (length (xs @ log_bytes recs))"
      using assms(2) True False unfolding begins_def by blast
    have "\<exists>xs recs recs'. open_log a xs \<and> open_log c (xs @ log_bytes (recs @ recs')) \<and>
         list_all (record_valid (db_settings a)) (recs @ recs') \<and> ci_till info = int (length (xs @ log_bytes recs))"
      if closed: "db_binlog c \<noteq> None"
    proof -
      obtain ys recs recs' where c: "open_log b ys" "open_log c (ys @ log_bytes (recs @ recs'))"
        "list_all (record_valid (db_settings b)) (recs @ recs')" "ci_till info = int (length (ys @ log_bytes recs))"
        using log [OF closed] by blast
      obtain xs qs where b: "open_log a xs" "open_log b (xs @ log_bytes qs)" "list_all (record_valid (db_settings a)) qs"
        using assms(5) open_log_not_closed [OF c(1)] unfolding log_grows_def by blast
      have ys: "ys = xs @ log_bytes qs"
        using open_log_inj [OF c(1) b(2)] .
      have "open_log c (xs @ log_bytes ((qs @ recs) @ recs'))" "ci_till info = int (length (xs @ log_bytes (qs @ recs)))"
        using c(2,4) ys by simp_all
      moreover have "list_all (record_valid (db_settings a)) ((qs @ recs) @ recs')"
        using b(3) c(3) valid by simp
      ultimately show ?thesis
        using b(1) by blast
    qed
    then show ?thesis
      using info unfolding begins_def by blast
  qed
qed (auto simp: begins_def)

lemma evolves_trans: "evolves a b \<Longrightarrow> evolves b c \<Longrightarrow> evolves a c"
  unfolding evolves_def using same_place_trans log_grows_trans log_place_step begins_trans by metis

section \<open>Changes that leave the log alone\<close>

definition silent :: "cache_db \<Rightarrow> cache_db \<Rightarrow> bool" where
  "silent db db' \<longleftrightarrow>
     db_base db' = db_base db \<and> db_path db' = db_path db \<and>
     limits_off (db_settings db') = limits_off (db_settings db) \<and>
     db_disk db' (db_path db @ CompactFilename) = db_disk db (db_path db @ CompactFilename) \<and>
     db_disk db' (binlogPath db) = db_disk db (binlogPath db) \<and> db_binlog db' = db_binlog db \<and>
     db_excess db \<le> db_excess db' \<and> entries_from [] db db' \<and>
     (compacts db \<longrightarrow> db_compactor db' = db_compactor db \<and> last_start (db_events db') = last_start (db_events db)) \<and>
     (\<not> compacts db \<longrightarrow> compacts db' \<longrightarrow> (\<exists>info. last_start (db_events db') = Some info \<and>
       cw_excess (db_compactor db') \<le> db_excess db' \<and> (\<forall>xs. open_log db xs \<longrightarrow> ci_till info = int (length xs))))"

lemma entries_from_refl [simp]: "entries_from ks db db"
  by (simp add: entries_from_def)

lemma open_log_silent: "silent db db' \<Longrightarrow> open_log db' xs = open_log db xs"
  by (simp add: silent_def open_log_def binlogPath_def)

lemma silent_evolves:
  assumes "silent db db'"
  shows "evolves db db'"
proof (cases "db_binlog db = None")
  case True
  then show ?thesis
    using assms by (auto simp: evolves_def same_place_def log_grows_def silent_def begins_def)
next
  case False
  have place: "same_place db db'"
    using assms by (simp add: same_place_def silent_def)
  show ?thesis
    unfolding evolves_def
  proof (intro impI conjI place)
    assume "log_place db"
    then obtain xs where "open_log db xs"
      using False by (auto simp: log_place_def)
    then have "open_log db xs \<and> open_log db' (xs @ log_bytes []) \<and> list_all (record_valid (db_settings db)) [] \<and>
        entries_from (stored_keys []) db db'"
      using assms by (simp add: silent_def open_log_def binlogPath_def)
    then show "log_grows db db'"
      unfolding log_grows_def by blast
    have "open_log db' (xs @ log_bytes ([] @ []))" "int (length xs) = int (length (xs @ log_bytes []))"
      using open_log_silent [OF assms] \<open>open_log db xs\<close> by simp_all
    moreover have "list_all (record_valid (db_settings db)) ([] @ [])"
      by simp
    ultimately have "\<exists>recs recs'. open_log db' (xs @ log_bytes (recs @ recs')) \<and>
        list_all (record_valid (db_settings db)) (recs @ recs') \<and> int (length xs) = int (length (xs @ log_bytes recs))"
      by blast
    then show "begins db db'"
      using assms \<open>open_log db xs\<close> False unfolding begins_def silent_def by metis
  qed
qed

lemma evolves_refl [simp]: "evolves db db"
  by (rule silent_evolves) (simp add: silent_def)

lemma silent_refl [simp]: "silent db db"
  by (simp add: silent_def)

lemma entries_from_trans: "entries_from [] a b \<Longrightarrow> entries_from [] b c \<Longrightarrow> entries_from [] a c"
  by (simp add: entries_from_def)

lemma silent_trans: "silent a b \<Longrightarrow> silent b c \<Longrightarrow> silent a c"
  using entries_from_trans [of a b c] open_log_silent [of a b]
  by (cases "compacts b") (auto simp: silent_def binlogPath_def)

lemma silent_frame [simp]:
  "silent db (db'\<lparr> db_removing := x0 \<rparr>) = silent db db'"
  "silent db (db'\<lparr> db_accessed := x1 \<rparr>) = silent db db'"
  "silent db (db'\<lparr> db_stale := x2 \<rparr>) = silent db db'"
  "silent db (db'\<lparr> db_time := x3 \<rparr>) = silent db db'"
  "silent db (db'\<lparr> db_total_size := x4 \<rparr>) = silent db db'"
  "silent db (db'\<lparr> db_minimal_time := x5 \<rparr>) = silent db db'"
  "silent db (db'\<lparr> db_minimal_count := x6 \<rparr>) = silent db db'"
  "silent db (db'\<lparr> db_tagged := x7 \<rparr>) = silent db db'"
  "silent db (db'\<lparr> db_has_consumers := x8 \<rparr>) = silent db db'"
  "silent db (db'\<lparr> db_pushing_stats := x9 \<rparr>) = silent db db'"
  "silent db (db'\<lparr> db_clearing_stale := x10 \<rparr>) = silent db db'"
  "silent db (db'\<lparr> db_bundles_timer := x11 \<rparr>) = silent db db'"
  "silent db (db'\<lparr> db_prune_timer := x12 \<rparr>) = silent db db'"
  "silent db (db'\<lparr> db_cleaner := x13 \<rparr>) = silent db db'"
  by (simp_all add: silent_def entries_from_def)

lemma silent_events [simp]:
  "last_start es = last_start (db_events db') \<Longrightarrow> silent db (db'\<lparr> db_events := es \<rparr>) = silent db db'"
  by (simp add: silent_def entries_from_def)

lemma updateStats_silent [simp]: "silent db (updateStats was cur db)"
  by (simp add: updateStats_def pushStatsDelayed_def Let_def)

lemma pushStats_silent [simp]: "silent db (pushStats db)"
  by (simp add: pushStats_def)

lemma silent_shrink:
  "silent db db' \<Longrightarrow> (\<And>k. map_of (db_map db) k = None \<Longrightarrow> map_of m k = None) \<Longrightarrow> silent db (db'\<lparr> db_map := m \<rparr>)"
  by (simp add: silent_def entries_from_def)

lemma eraseMapEntry_silent: "eraseMapEntry key db = Inr db' \<Longrightarrow> silent db db'"
  by (auto simp: eraseMapEntry_def Let_def asserts_def delete_conv split: option.splits if_splits intro!: silent_shrink)

lemma set_use_time_silent: "silent db db' \<Longrightarrow> silent db (set_use_time t key db')"
  by (auto simp: set_use_time_def map_entry_def silent_def entries_from_def update_conv split: option.split)

lemma fold_use_time_silent: "silent db db' \<Longrightarrow> silent db (fold (set_use_time t) keys db')"
  by (induction keys arbitrary: db') (simp_all add: set_use_time_silent)

lemma open_log_size: "open_log db xs \<Longrightarrow> binlog_size db = int (length xs)"
  by (simp add: open_log_def binlog_size_def binlog_content_def)

lemma checkCompactor_silent [simp]: "silent db (checkCompactor env db)"
  using open_log_size by (simp add: checkCompactor_def Let_def silent_def entries_from_def)

lemma startDelayedPruning_silent: "startDelayedPruning env db = Inr (started, db') \<Longrightarrow> silent db db'"
  by (auto simp: startDelayedPruning_def Let_def asserts_def split: if_splits)

lemma optimize_silent: "optimize env db = Inr db' \<Longrightarrow> silent db db'"
  using startDelayedPruning_silent silent_trans [OF _ checkCompactor_silent]
  by (auto simp: optimize_def bind_outcome_Inr_iff split: if_splits)

lemma writeBundlesLazy_silent [simp]: "silent db (writeBundlesLazy env db)"
  by (simp add: writeBundlesLazy_def)

section \<open>Writing to the log\<close>

lemma closing_evolves:
  "same_place db db' \<Longrightarrow> (compacts db' \<Longrightarrow> compacts db) \<Longrightarrow> evolves db (binlog_close db')"
  by (auto simp: evolves_def log_grows_def same_place_def binlog_close_def begins_def)

lemma CompactFilename_not_log: "CompactFilename \<noteq> BinlogFilename"
  by (simp add: CompactFilename_def BinlogFilename_def)

lemma evolvesI:
  assumes "log_place db \<Longrightarrow> same_place db db'" "log_place db \<Longrightarrow> open_log db xs"
    "log_place db \<Longrightarrow> open_log db' (xs @ log_bytes recs)"
    "log_place db \<Longrightarrow> list_all (record_valid (db_settings db)) recs" "entries_from (stored_keys recs) db db'"
    "compacts db' \<Longrightarrow> compacts db"
  shows "evolves db db'"
  using assms begins_same unfolding evolves_def log_grows_def by blast

text \<open>What follows a record that has been written, and does not touch the log, is in \<open>change\<close>.\<close>

lemma write_two_evolves:
  assumes run: "write_two env a b db = (ok, db')" and r: "a @ b = record_bytes r"
    and valid: "ok \<Longrightarrow> log_place db \<Longrightarrow> record_valid (db_settings db) r"
    and change: "ok \<Longrightarrow> same_place db' db2 \<and> db_disk db2 (binlogPath db') = db_disk db' (binlogPath db') \<and>
      db_binlog db2 = db_binlog db' \<and> entries_from (record_keys r) db db2 \<and> (compacts db2 \<longrightarrow> compacts db')"
  shows "evolves db (if ok then db2 else binlog_close db')"
proof (cases "\<exists>xs. db_binlog db \<noteq> None \<longrightarrow> open_log db xs")
  case False
  then show ?thesis
    by (auto simp: evolves_def log_place_def)
next
  case True
  then obtain xs where "db_binlog db \<noteq> None \<longrightarrow> open_log db xs"
    by blast
  then show ?thesis
  proof (cases rule: write_two_cases [where env = env and a = a and b = b])
    case (failed db1 d)
    have "d (db_path db @ CompactFilename) = db_disk db (db_path db @ CompactFilename)"
      using failed(3) CompactFilename_not_log by (simp add: binlogPath_def)
    then show ?thesis
      using failed(1,2) run by (simp add: evolves_def same_place_def log_grows_def begins_def)
  next
    case written
    have eqs: "ok" "db' = log_appended xs (record_bytes r) db"
      using written run r by simp_all
    have "log_place db \<Longrightarrow> open_log db xs"
      using \<open>db_binlog db \<noteq> None \<longrightarrow> open_log db xs\<close> written(2) by blast
    moreover have "same_place db db'"
      using CompactFilename_not_log unfolding eqs(2) by (simp add: same_place_def log_appended_def binlogPath_def)
    then have "same_place db db2"
      using same_place_trans change [OF eqs(1)] by blast
    moreover have "open_log db2 (xs @ log_bytes [r])"
      using change [OF eqs(1)] log_appended_fields(14) [of xs "record_bytes r" db] unfolding eqs(2)
      by (simp add: open_log_def binlogPath_def same_place_def)
    moreover have "compacts db2 \<Longrightarrow> compacts db"
      using change [OF eqs(1)] unfolding eqs(2) by (simp add: log_appended_def)
    ultimately show ?thesis
      using eqs(1) valid change [OF eqs(1)] by (simp add: evolvesI [where xs = xs and recs = "[r]"])
  qed
qed

lemma binlog_write_map: "binlog_write env ys db = (ok, db') \<Longrightarrow> db_map db' = db_map db"
  by (auto simp: binlog_write_def Let_def split: option.splits if_splits)

lemma write_two_map: "write_two env a b db = (ok, db') \<Longrightarrow> db_map db' = db_map db"
  by (auto simp: write_two_def Let_def split: prod.splits if_splits) (metis binlog_write_map)+

lemma evolves_closed_place: "(log_place db \<Longrightarrow> evolves db db') \<Longrightarrow> evolves db db'"
  by (auto simp: evolves_def)

lemma excess_place [simp]: "0 \<le> n \<Longrightarrow> same_place db (db\<lparr> db_excess := db_excess db + n \<rparr>)"
  by (simp add: same_place_def)

lemma writeMultiRemove_evolves:
  assumes "writeMultiRemove env db = Inr (err, db')"
  shows "evolves db db'"
proof (cases "db_removing db = []")
  case True
  then show ?thesis
    using assms by (simp add: writeMultiRemove_def expects_def split: if_splits)
next
  case False
  let ?keys = "db_removing db" and ?db1 = "db\<lparr> db_removing := [] \<rparr>"
  let ?r = "Log_multi_remove ?keys"
  show ?thesis
  proof (rule evolves_closed_place)
    assume place: "log_place db"
    have small: "int (length ?keys) \<le> maxBundledRecords (db_settings db)" "int (length ?keys) < kBundledRecordsLimit"
      using assms place by (auto simp: writeMultiRemove_def expects_def log_place_def split: if_splits)
    obtain ok db3 where run: "write_two env (multi_head kMultiRemoveType (le_bytes 3 (length ?keys)))
        (concat (map key_bytes ?keys)) ?db1 = (ok, db3)"
      by (metis surj_pair)
    let ?db4 = "db3\<lparr> db_excess := db_excess db3 + (16 + 16 * int (length ?keys)) \<rparr>"
    have "evolves ?db1 (if ok then ?db4 else binlog_close db3)"
    proof (rule write_two_evolves [OF run, where r = ?r])
      show "record_valid (db_settings ?db1) ?r"
        using False small by (simp add: record_valid_def record_ok_def parts_ok_def)
      show "same_place db3 ?db4 \<and> db_disk ?db4 (binlogPath db3) = db_disk db3 (binlogPath db3) \<and>
          db_binlog ?db4 = db_binlog db3 \<and> entries_from (record_keys ?r) ?db1 ?db4 \<and> (compacts ?db4 \<longrightarrow> compacts db3)" if ok
        using write_two_map [OF run] by (simp add: entries_from_def)
    qed (simp add: record_bytes_def)
    moreover have "db' = (if ok then ?db4 else binlog_close db3)"
      using assms run writeMultiRemove_eq [OF False small, of env] by (auto simp: algebra_simps split: if_splits)
    moreover have "evolves db ?db1"
      by (rule silent_evolves) simp
    ultimately show "evolves db db'"
      using evolves_trans by blast
  qed
qed

lemma writeMultiAccessBlock_evolves:
  assumes "writeMultiAccessBlock env db = Inr (err, db')"
  shows "evolves db db'"
proof (rule evolves_closed_place)
  let ?keys = "db_accessed db" and ?time = "countTimePoint env db"
  let ?r = "Log_multi_access ?time ?keys"
  define db1 where "db1 = fold (set_use_time (getRelative ?time)) ?keys (db\<lparr> db_accessed := [], db_time := ?time \<rparr>)"
  assume place: "log_place db"
  have small: "trackEstimatedTime (db_settings db)" "int (length ?keys) \<le> maxBundledRecords (db_settings db)"
    "int (length ?keys) < kBundledRecordsLimit"
    using assms place by (auto simp: writeMultiAccessBlock_def expects_def log_place_def split: if_splits)
  obtain ok db3 where run: "write_two env (kMultiAccessType # le_bytes 3 (length ?keys) @ time_bytes ?time)
      (concat (map key_bytes ?keys)) db1 = (ok, db3)"
    by (metis surj_pair)
  let ?db4 = "db3\<lparr> db_excess := db_excess db3 + (16 + 16 * int (length ?keys)) \<rparr>"
  have silent: "silent db db1"
    unfolding db1_def by (rule fold_use_time_silent) simp
  have "evolves db1 (if ok then ?db4 else binlog_close db3)"
  proof (rule write_two_evolves [OF run, where r = ?r])
    show "record_valid (db_settings db1) ?r"
      using small silent limits_off_eqD(1,3) [of "db_settings db1" "db_settings db"]
      by (simp add: record_valid_def record_ok_def parts_ok_def silent_def)
    show "same_place db3 ?db4 \<and> db_disk ?db4 (binlogPath db3) = db_disk db3 (binlogPath db3) \<and>
        db_binlog ?db4 = db_binlog db3 \<and> entries_from (record_keys ?r) db1 ?db4 \<and> (compacts ?db4 \<longrightarrow> compacts db3)" if ok
      using write_two_map [OF run] by (simp add: entries_from_def)
  qed (simp add: record_bytes_def)
  moreover have "db' = (if ok then ?db4 else binlog_close db3)"
    using assms run writeMultiAccessBlock_eq [OF small, of env] by (auto simp: algebra_simps db1_def split: if_splits)
  ultimately show "evolves db db'"
    using evolves_trans [OF silent_evolves [OF silent]] by blast
qed

lemma writeMultiAccess_evolves: "writeMultiAccess env db = Inr (err, db') \<Longrightarrow> evolves db db'"
  by (auto simp: writeMultiAccess_def split: if_splits intro: writeMultiAccessBlock_evolves)

lemma writeMultiRemoveLazy_evolves: "writeMultiRemoveLazy env db = Inr db' \<Longrightarrow> evolves db db'"
  by (auto simp: writeMultiRemoveLazy_def bind_outcome_Inr_iff split: if_splits
      intro: writeMultiRemove_evolves silent_evolves)

lemma writeMultiAccessLazy_evolves: "writeMultiAccessLazy env db = Inr db' \<Longrightarrow> evolves db db'"
  by (auto simp: writeMultiAccessLazy_def bind_outcome_Inr_iff split: if_splits
      intro: writeMultiAccess_evolves silent_evolves)

lemma writeBundles_evolves: "writeBundles env db = Inr db' \<Longrightarrow> evolves db db'"
  by (auto simp: writeBundles_def bind_outcome_Inr_iff split: if_splits
      intro: writeMultiRemove_evolves evolves_trans [OF writeMultiRemove_evolves writeMultiAccess_evolves])

section \<open>Storing\<close>

definition same_log :: "cache_db \<Rightarrow> cache_db \<Rightarrow> bool" where
  "same_log db db' \<longleftrightarrow> same_place db db' \<and> db_disk db' = db_disk db \<and> db_binlog db' = db_binlog db \<and>
     binlogPath db' = binlogPath db \<and> db_compactor db' = db_compactor db"

lemma same_log_frame [simp]:
  "same_log db (db'\<lparr> db_map := x0 \<rparr>) = same_log db db'"
  "same_log db (db'\<lparr> db_minimal_time := x1 \<rparr>) = same_log db db'"
  "same_log db (db'\<lparr> db_minimal_count := x2 \<rparr>) = same_log db db'"
  "same_log db (db'\<lparr> db_time := x3 \<rparr>) = same_log db db'"
  by (simp_all add: same_log_def same_place_def binlogPath_def)

lemma updateStats_log [simp]:
  "same_log db (updateStats was cur db)"
  "0 \<le> n \<Longrightarrow> same_log db ((updateStats was cur db)\<lparr> db_excess := db_excess db + n \<rparr>)"
  by (simp_all add: updateStats_def pushStatsDelayed_def Let_def same_log_def same_place_def binlogPath_def)

lemma setMapEntry_evolves:
  assumes "setMapEntry key e db = Inr db'"
  shows "same_log db db'" "entries_from [key] db db'"
proof -
  have "same_log db db' \<and> db_map db' = AList.update key e (db_map db)"
    using assms by (simp add: setMapEntry_def Let_def asserts_def split: if_splits; clarsimp)
  then show "same_log db db'" "entries_from [key] db db'"
    by (simp_all add: entries_from_def update_conv)
qed

lemma applyTimePoint_place [simp]: "same_log db (applyTimePoint t db)" "db_map (applyTimePoint t db) = db_map db"
  by (simp_all add: applyTimePoint_def) (simp_all add: same_log_def)

lemma same_log_refl [simp]: "same_log db db"
  by (simp add: same_log_def)

lemma same_log_trans: "same_log a b \<Longrightarrow> same_log b c \<Longrightarrow> same_log a c"
  by (simp add: same_log_def same_place_def)

lemma processRecordStore_evolves:
  assumes "processRecordStore r db = Inr (True, db')"
  shows "0 < getSize r" "getSize r \<le> maxDataSize (db_settings db)" "same_log db db'" "entries_from [sr_key r] db db'"
proof -
  have n: "0 < getSize r \<and> getSize r \<le> maxDataSize (db_settings db)"
    using assms by (auto simp: processRecordStore_def Let_def split: if_splits)
  then show "0 < getSize r" "getSize r \<le> maxDataSize (db_settings db)"
    by simp_all
  obtain e where "setMapEntry (sr_key r) e db = Inr db' \<or> (\<exists>t. setMapEntry (sr_key r) e (applyTimePoint t db) = Inr db')"
    using assms n by (auto simp: processRecordStore_def Let_def bind_outcome_Inr_iff split: option.splits)
  then obtain db1 where db1: "setMapEntry (sr_key r) e db1 = Inr db'" "same_log db db1" "db_map db1 = db_map db"
    using applyTimePoint_place same_log_refl by (elim disjE exE) metis+
  note facts = setMapEntry_evolves [OF db1(1)]
  show "same_log db db'"
    using same_log_trans [OF db1(2) facts(1)] .
  show "entries_from [sr_key r] db db'"
    using facts db1 by (simp add: entries_from_def)
qed

lemma write_two_single: "write_two env a [] db = binlog_write env a db"
  by (simp add: write_two_def split_def)

lemma write_store_evolves:
  assumes run: "write_store env r db = Inr (ok, db')" and len: "length (sr_size r) = 3" "length (sr_place r) = 7"
    and timed: "(sr_time r \<noteq> None) = trackEstimatedTime (db_settings db)"
  shows "evolves db db'"
proof -
  obtain success db1 where written: "binlog_write env (store_bytes r) db = (success, db1)"
    by (metis surj_pair)
  show ?thesis
  proof (cases success)
    case False
    then have "db' = binlog_close db1" using run written by (simp add: write_store_def)
    moreover have "evolves db (if False then db1 else binlog_close db1)"
      by (rule write_two_evolves [where a = "store_bytes r" and b = "[]" and r = "Log_store r"])
        (use False written in \<open>simp_all add: write_two_single record_bytes_def\<close>)
    ultimately show ?thesis by simp
  next
    case True
    then obtain db2 where applied: "processRecordStore r db1 = Inr (True, db2)" and db': "db' = db2"
      using run written by (auto simp: write_store_def bind_outcome_Inr_iff asserts_def split: if_splits)
    note facts = processRecordStore_evolves [OF applied]
    have same: "db_map db1 = db_map db" "db_settings db1 = db_settings db"
      using binlog_write_map [OF written] written by (auto simp: binlog_write_def Let_def split: option.splits if_splits)
    have "evolves db (if True then db2 else binlog_close db1)"
    proof (rule write_two_evolves [where r = "Log_store r"])
      show "write_two env (store_bytes r) [] db = (True, db1)"
        using written True by (simp add: write_two_single)
      show "record_valid (db_settings db) (Log_store r)"
        using facts len timed same by (simp add: record_valid_def record_ok_def store_ok_def store_valid_def)
      show "same_place db1 db2 \<and> db_disk db2 (binlogPath db1) = db_disk db1 (binlogPath db1) \<and>
          db_binlog db2 = db_binlog db1 \<and> entries_from (record_keys (Log_store r)) db db2 \<and>
          (compacts db2 \<longrightarrow> compacts db1)"
        using facts same by (simp add: entries_from_def same_log_def)
    qed (simp add: record_bytes_def)
    then show ?thesis
      using db' by simp
  qed
qed

definition places_seven :: "cache_env \<Rightarrow> cache_db \<Rightarrow> bool" where
  "places_seven env db \<longleftrightarrow> (\<forall>k e. map_of (db_map db) k = Some e \<longrightarrow> length (en_place e) = 7) \<and>
     (\<forall>place\<in>set (ce_places env). length place = 7)"

lemma db_ok_places:
  assumes "db_ok env db" "env_ok env"
  shows "places_seven env db"
proof -
  have "map_ok_for (db_settings db) (db_map db)"
    using db_okD(1) [OF assms(1)] by (simp add: core_ok_def)
  from entry_ok_of [OF this] show ?thesis
    using assms(2) by (auto simp: places_seven_def entry_ok_def env_ok_def)
qed

lemma setSize_length: "setSize n r = Inr r' \<Longrightarrow> length (sr_size r') = 3 \<and> sr_time r' = sr_time r \<and> sr_key r' = sr_key r"
  by (auto simp: setSize_def ReadTo_def expects_def read_to_loop_le_bytes split: if_splits)

lemma time_for_record_track:
  "time_for_record env db = Inr t \<Longrightarrow> (t \<noteq> None) = trackEstimatedTime (db_settings db)"
  by (auto simp: time_for_record_def Let_def asserts_def split: if_splits)

lemma writeKeyPlaceGeneric_evolves:
  assumes run: "writeKeyPlaceGeneric env record key v checksum db = Inr (path, db')" and places: "places_seven env db"
    and timed: "(sr_time record \<noteq> None) = trackEstimatedTime (db_settings db)"
  shows "evolves db db'"
proof -
  define r where "r = record\<lparr> sr_tag := tv_tag v, sr_key := key \<rparr>"
  obtain r1 where r1: "setSize (int (length (tv_bytes v))) r = Inr r1"
    using run by (auto simp: writeKeyPlaceGeneric_def Let_def expects_def bind_outcome_Inr_iff r_def split: if_splits)
  define r2 where "r2 = r1\<lparr> sr_checksum := checksum \<rparr>"
  have step: "evolves db db1" if "write_store env (r2\<lparr> sr_place := place \<rparr>) db = Inr (ok, db1)" "length place = 7" for place ok db1
  proof (rule write_store_evolves [OF that(1)])
    show "length (sr_size (r2\<lparr> sr_place := place \<rparr>)) = 3" "length (sr_place (r2\<lparr> sr_place := place \<rparr>)) = 7"
      "(sr_time (r2\<lparr> sr_place := place \<rparr>) \<noteq> None) = trackEstimatedTime (db_settings db)"
      using setSize_length [OF r1] that(2) timed by (simp_all add: r2_def r_def)
  qed
  have "db' = db \<or> (\<exists>place ok. length place = 7 \<and> write_store env (r2\<lparr> sr_place := place \<rparr>) db = Inr (ok, db'))"
  proof (cases "map_entry key db")
    case None
    then obtain place ok where "find (\<lambda>place. isFreePlace place db) (ce_places env) = Some place"
      "write_store env (r2\<lparr> sr_place := place \<rparr>) db = Inr (ok, db')"
      using run r1
      by (auto simp: writeKeyPlaceGeneric_def Let_def expects_def bind_outcome_Inr_iff r_def r2_def split: if_splits option.splits)
    then show ?thesis
      using places by (auto simp: places_seven_def find_Some_iff)
  next
    case (Some e)
    then have "length (en_place e) = 7"
      using places by (auto simp: places_seven_def map_entry_def)
    moreover have "db' = db \<or> (\<exists>ok. write_store env (r2\<lparr> sr_place := en_place e \<rparr>) db = Inr (ok, db'))"
      using run r1 Some
      by (auto simp: writeKeyPlaceGeneric_def Let_def expects_def bind_outcome_Inr_iff r_def r2_def split: if_splits)
    ultimately show ?thesis
      by blast
  qed
  then show ?thesis
    using step by auto
qed

lemma writeExistingPlaceGeneric_evolves:
  assumes run: "writeExistingPlaceGeneric env record key entry db = Inr (err, db')" and place: "length (en_place entry) = 7"
    and timed: "(sr_time record \<noteq> None) = trackEstimatedTime (db_settings db)"
  shows "evolves db db'"
proof -
  define r where "r = record\<lparr> sr_key := key, sr_tag := en_tag entry \<rparr>"
  obtain r1 where r1: "setSize (en_size entry) r = Inr r1"
    using run by (auto simp: writeExistingPlaceGeneric_def bind_outcome_Inr_iff r_def)
  define r2 where "r2 = r1\<lparr> sr_checksum := en_checksum entry, sr_place := en_place entry \<rparr>"
  have "db' = db \<or> (\<exists>ok. write_store env r2 db = Inr (ok, db'))"
    using run r1
    by (auto simp: writeExistingPlaceGeneric_def Let_def bind_outcome_Inr_iff r_def r2_def split: if_splits option.splits)
  moreover have "evolves db db'" if "write_store env r2 db = Inr (ok, db')" for ok
    using write_store_evolves [OF that] setSize_length [OF r1] place timed by (simp add: r2_def r_def)
  ultimately show ?thesis
    by auto
qed

lemma writeKeyPlace_evolves:
  assumes "writeKeyPlace env key v checksum db = Inr (path, db')" "places_seven env db"
  shows "evolves db db'"
proof -
  obtain t where "time_for_record env db = Inr t" "writeKeyPlaceGeneric env (new_store t) key v checksum db = Inr (path, db')"
    using assms(1) by (auto simp: writeKeyPlace_def bind_outcome_Inr_iff)
  then show ?thesis
    using writeKeyPlaceGeneric_evolves [OF _ assms(2)] time_for_record_track by (simp add: new_store_def)
qed

lemma writeExistingPlace_evolves:
  assumes "writeExistingPlace env key entry db = Inr (err, db')" "length (en_place entry) = 7"
  shows "evolves db db'"
proof -
  obtain t where "time_for_record env db = Inr t" "writeExistingPlaceGeneric env (new_store t) key entry db = Inr (err, db')"
    using assms(1) by (auto simp: writeExistingPlace_def bind_outcome_Inr_iff)
  then show ?thesis
    using writeExistingPlaceGeneric_evolves [OF _ assms(2)] time_for_record_track by (simp add: new_store_def)
qed

section \<open>The operations\<close>

lemma PlaceFromId_not_compact: "PlaceFromId place \<noteq> CompactFilename"
proof (cases place)
  case (Cons b bs)
  then have "length (PlaceFromId place) \<noteq> length CompactFilename \<or> PlaceFromId place ! 2 = CHR ''/''"
    by (simp add: PlaceFromId_def push_hex_def upt_conv_Cons)
  then show ?thesis
    by (auto simp: CompactFilename_def)
qed (simp add: PlaceFromId_def CompactFilename_def)

lemma disk_silent: "silent db (db\<lparr> db_disk := (db_disk db)(placePath place db := x) \<rparr>)"
proof -
  have "placePath place db \<noteq> db_path db @ CompactFilename"
    using PlaceFromId_not_compact by (simp add: placePath_def)
  then show ?thesis
    by (simp add: silent_def entries_from_def)
qed

lemma remove_file_silent: "remove_file env (placePath place db) db = (ok, db') \<Longrightarrow> silent db db'"
  using disk_silent [of db place None] by (auto simp: remove_file_def split: if_splits)

lemma db_remove_evolves:
  assumes "db_remove env key db = Inr (err, db')"
  shows "evolves db db'"
proof (cases "map_entry key db")
  case None
  then show ?thesis
    using assms by (simp add: db_remove_def)
next
  case (Some e)
  let ?db0 = "db\<lparr> db_removing := List.insort_insert key (db_removing db) \<rparr>"
  obtain db1 db2 ok where steps: "writeMultiRemoveLazy env ?db0 = Inr db1" "eraseMapEntry key db1 = Inr db2"
    "remove_file env (placePath (en_place e) db1) db2 = (ok, db')"
    using assms Some by (auto simp: db_remove_def Let_def bind_outcome_Inr_iff split_def) (metis surjective_pairing)
  have "placePath (en_place e) db1 = placePath (en_place e) db2"
    using eraseMapEntry_silent [OF steps(2)] by (simp add: silent_def placePath_def)
  then have "silent db1 db'"
    using silent_trans [OF eraseMapEntry_silent [OF steps(2)]] remove_file_silent steps(3) by metis
  moreover have "evolves db ?db0"
    by (rule silent_evolves) simp
  ultimately show ?thesis
    using evolves_trans silent_evolves writeMultiRemoveLazy_evolves [OF steps(1)] by metis
qed

lemma recordEntryAccess_evolves:
  assumes "recordEntryAccess env key db = Inr db'"
  shows "evolves db db'"
proof (cases "trackEstimatedTime (db_settings db)")
  case False
  then show ?thesis
    using assms by (simp add: recordEntryAccess_def)
next
  case True
  let ?db0 = "db\<lparr> db_accessed := List.insort_insert key (db_accessed db) \<rparr>"
  obtain db1 where steps: "writeMultiAccessLazy env ?db0 = Inr db1" "optimize env db1 = Inr db'"
    using assms True by (auto simp: recordEntryAccess_def bind_outcome_Inr_iff)
  have "evolves db ?db0"
    by (rule silent_evolves) simp
  then show ?thesis
    using evolves_trans silent_evolves [OF optimize_silent [OF steps(2)]] writeMultiAccessLazy_evolves [OF steps(1)] by metis
qed

lemma write_value_evolves:
  assumes "write_value env key v (placePath place db) db = Inr (err, db')"
  shows "evolves db db'"
proof -
  have disk: "evolves db (db\<lparr> db_disk := (db_disk db)(placePath place db \<mapsto> x) \<rparr>)" for x
    by (rule silent_evolves [OF disk_silent])
  show ?thesis
    using assms evolves_trans [OF disk db_remove_evolves] evolves_trans [OF disk silent_evolves [OF optimize_silent]]
    by (auto simp: write_value_def bind_outcome_Inr_iff Let_def split: file_result.splits if_splits dest: db_remove_evolves)
qed

lemma db_put_evolves:
  assumes run: "db_put env key v db = Inr (err, db')" and ok: "db_ok env db" "env_ok env" "fits env v db"
  shows "evolves db db'"
proof (cases "tv_bytes v = []")
  case True
  then show ?thesis
    using run by (auto simp: db_put_def intro: db_remove_evolves)
next
  case False
  obtain maybepath db2 where step: "writeKeyPlace env key v (ce_checksum env (tv_bytes v)) (before_put key db) = Inr (maybepath, db2)"
    and path: "maybepath = Some '''' \<or> (\<exists>place. maybepath = Some (placePath place db2))"
    using put_key_ok [OF ok(1,2) False ok(3), of key "ce_checksum env (tv_bytes v)"] by (auto elim!: ensuresE)
  have "silent db (before_put key db)"
    by (simp add: before_put_def)
  moreover have "places_seven env (before_put key db)"
    using db_ok_places [OF ok(1,2)] by (simp add: places_seven_def before_put_def)
  ultimately have one: "evolves db db2"
    using evolves_trans [OF silent_evolves writeKeyPlace_evolves [OF step]] by blast
  have put: "db_put env key v db = (case maybepath of
      None \<Rightarrow> Inr (ioError (binlogPath db2), db2)
    | Some path \<Rightarrow>
        if path = '''' then bind_outcome (recordEntryAccess env key db2) (\<lambda>db3. Inr (NoError, db3))
        else write_value env key v path db2)"
    using step False by (simp add: db_put_def Let_def before_put_def)
  have "evolves db2 db'"
    using run path unfolding put
    by (auto simp: bind_outcome_Inr_iff split: if_splits intro: recordEntryAccess_evolves write_value_evolves)
  then show ?thesis
    using evolves_trans [OF one] by blast
qed

lemma putIfEmpty_evolves:
  "putIfEmpty env key v db = Inr (err, db') \<Longrightarrow> db_ok env db \<Longrightarrow> env_ok env \<Longrightarrow> fits env v db \<Longrightarrow> evolves db db'"
  by (auto simp: putIfEmpty_def split: if_splits intro: db_put_evolves)

lemma db_get_with_evolves:
  assumes run: "db_get_with env key callback db = Inr (r, db')"
    and empty: "\<And>r db1 db2. callback empty_value db1 = Inr (r, db2) \<Longrightarrow> evolves db1 db2"
    and full: "\<And>e xs r db2. map_entry key db = Some e \<Longrightarrow> readValueData env (en_place e) (en_size e) db = Inr xs \<Longrightarrow>
      xs \<noteq> [] \<Longrightarrow> callback \<lparr> tv_bytes = xs, tv_tag = en_tag e \<rparr> db = Inr (r, db2) \<Longrightarrow> evolves db db2"
  shows "evolves db db'"
proof (cases "map_entry key db")
  case None
  then show ?thesis
    using run empty by (simp add: db_get_with_def)
next
  case (Some e)
  then obtain xs where xs: "readValueData env (en_place e) (en_size e) db = Inr xs"
    using run by (auto simp: db_get_with_def bind_outcome_Inr_iff)
  show ?thesis
  proof (cases "xs = [] \<or> ce_checksum env xs \<noteq> en_checksum e")
    case True
    then obtain err db1 where "db_remove env key db = Inr (err, db1)" "callback empty_value db1 = Inr (r, db')"
      using run Some xs by (auto simp: db_get_with_def bind_outcome_Inr_iff)
    then show ?thesis
      using evolves_trans db_remove_evolves empty by blast
  next
    case False
    then obtain db1 where "callback \<lparr> tv_bytes = xs, tv_tag = en_tag e \<rparr> db = Inr (r, db1)"
      "recordEntryAccess env key db1 = Inr db'"
      using run Some xs by (auto simp: db_get_with_def bind_outcome_Inr_iff)
    then show ?thesis
      using evolves_trans recordEntryAccess_evolves full [OF Some xs] False by blast
  qed
qed

lemma db_get_evolves: "db_get env key db = Inr (v, db') \<Longrightarrow> evolves db db'"
  unfolding db_get_def by (erule db_get_with_evolves) auto

lemma copied_fits:
  assumes "db_ok env db" "env_ok env" "room env db" "map_entry key db = Some e"
    "readValueData env (en_place e) (en_size e) db = Inr xs" "xs \<noteq> []"
  shows "fits env \<lparr> tv_bytes = xs, tv_tag = en_tag e \<rparr> db"
proof -
  have "map_ok_for (db_settings db) (db_map db)"
    using db_okD(1) [OF assms(1)] by (simp add: core_ok_def)
  then have "entry_ok (db_settings db) e"
    using entry_ok_of assms(4) by (simp add: map_entry_def)
  then show ?thesis
    using readValueData_length [OF assms(2,5)] assms(3,6) by (simp add: fits_def entry_ok_def)
qed

lemma copyIfEmpty_evolves:
  assumes run: "copyIfEmpty env source target db = Inr (err, db')" and ok: "db_ok env db" "env_ok env" "room env db"
  shows "evolves db db'"
proof (cases "map_entry target db = None")
  case True
  then have "db_get_with env source (\<lambda>v db1. db_put env target v db1) db = Inr (err, db')"
    using run by (simp add: copyIfEmpty_def)
  then show ?thesis
  proof (rule db_get_with_evolves)
    show "evolves db1 db2" if "db_put env target empty_value db1 = Inr (r, db2)" for r db1 db2
      using that by (auto simp: db_put_def empty_value_def intro: db_remove_evolves)
    show "evolves db db2" if "map_entry source db = Some e" "readValueData env (en_place e) (en_size e) db = Inr xs" "xs \<noteq> []"
      "db_put env target \<lparr> tv_bytes = xs, tv_tag = en_tag e \<rparr> db = Inr (r, db2)" for e xs r db2
      using db_put_evolves [OF that(4) ok(1,2) copied_fits [OF ok that(1-3)]] .
  qed
qed (use run in \<open>simp add: copyIfEmpty_def\<close>)

lemma moveIfEmpty_evolves:
  assumes run: "moveIfEmpty env source target db = Inr (err, db')" and ok: "db_ok env db" "env_ok env"
  shows "evolves db db'"
proof (cases "map_entry target db = None \<and> map_entry source db \<noteq> None")
  case False
  then show ?thesis
    using run by (auto simp: moveIfEmpty_def split: option.splits)
next
  case True
  then obtain e where e: "map_entry source db = Some e"
    by blast
  let ?db0 = "db\<lparr> db_removing := List.insort_insert source (db_removing db) \<rparr>"
  obtain db1 result db2 where steps: "eraseMapEntry source ?db0 = Inr db1" "writeMultiRemove env db1 = Inr (result, db2)"
    and rest: "db' = db2 \<or> writeExistingPlace env target e (db2\<lparr> db_removing := remove1 target (db_removing db2),
      db_stale := removeAll target (db_stale db2) \<rparr>) = Inr (err, db')"
    using run True e by (auto simp: moveIfEmpty_def bind_outcome_Inr_iff split: if_splits)
  have "silent db ?db0"
    by simp
  then have one: "evolves db db2"
    using silent_evolves eraseMapEntry_silent [OF steps(1)] writeMultiRemove_evolves [OF steps(2)] evolves_trans by metis
  have "evolves db2 (db2\<lparr> db_removing := remove1 target (db_removing db2), db_stale := removeAll target (db_stale db2) \<rparr>)"
    by (rule silent_evolves) simp
  moreover have "length (en_place e) = 7"
    using db_ok_places [OF ok] e by (simp add: places_seven_def map_entry_def)
  ultimately have "evolves db2 db'"
    using rest evolves_trans writeExistingPlace_evolves evolves_refl by metis
  then show ?thesis
    using evolves_trans [OF one] by blast
qed

lemma remove_all_evolves: "remove_all env keys db = Inr db' \<Longrightarrow> evolves db db'"
proof (induction keys arbitrary: db)
  case (Cons key keys)
  then obtain err db1 where "db_remove env key db = Inr (err, db1)" "remove_all env keys db1 = Inr db'"
    by (auto simp: bind_outcome_Inr_iff)
  then show ?case
    using Cons.IH evolves_trans db_remove_evolves by blast
qed simp

lemma clearStaleChunk_evolves:
  assumes "clearStaleChunk env db = Inr db'"
  shows "evolves db db'"
proof (cases "db_stale db = []")
  case False
  then obtain ks db1 xs where steps: "remove_all env ks db = Inr db1"
    "db' = clearStaleChunkDelayed (db1\<lparr> db_stale := xs \<rparr>) \<or> optimize env (db1\<lparr> db_stale := xs \<rparr>) = Inr db'"
    using assms by (auto simp: clearStaleChunk_def Let_def bind_outcome_Inr_iff split: if_splits)
  have "silent db1 (clearStaleChunkDelayed (db1\<lparr> db_stale := xs \<rparr>))" "silent db1 (db1\<lparr> db_stale := xs \<rparr>)"
    by (simp_all add: clearStaleChunkDelayed_def)
  then have "silent db1 db'"
    using steps(2) silent_trans optimize_silent by metis
  then show ?thesis
    using evolves_trans [OF remove_all_evolves [OF steps(1)] silent_evolves] by blast
qed (use assms in \<open>simp add: clearStaleChunk_def\<close>)

lemma clear_chunk_task_evolves:
  assumes "clear_chunk_task env db = Inr db'"
  shows "evolves db db'"
proof -
  have "silent db (db\<lparr> db_clearing_stale := False \<rparr>)"
    by simp
  from evolves_trans [OF silent_evolves [OF this] clearStaleChunk_evolves] show ?thesis
    using assms by (auto simp: clear_chunk_task_def split: if_splits)
qed

lemma startStaleClear_evolves: "startStaleClear env db = Inr db' \<Longrightarrow> evolves db db'"
  using evolves_trans [OF silent_evolves [OF pushStats_silent] clearStaleChunk_evolves] by (simp add: startStaleClear_def)

lemma clearStaleNow_evolves:
  assumes "clearStaleNow env stale db = Inr db'"
  shows "evolves db db'"
proof (cases "stale = []")
  case False
  let ?db0 = "db\<lparr> db_stale := db_stale db @ [hd stale] \<rparr>"
  obtain db1 where steps: "remove_all env stale (pushStats ?db0) = Inr db1" "optimize env (db1\<lparr> db_stale := [] \<rparr>) = Inr db'"
    using assms False by (auto simp: clearStaleNow_def bind_outcome_Inr_iff)
  have "silent db ?db0" "silent db1 (db1\<lparr> db_stale := [] \<rparr>)"
    by simp_all
  then have "silent db (pushStats ?db0)" "silent db1 db'"
    using silent_trans pushStats_silent optimize_silent [OF steps(2)] by metis+
  then show ?thesis
    using evolves_trans silent_evolves remove_all_evolves [OF steps(1)] by metis
qed (use assms in \<open>simp add: clearStaleNow_def\<close>)

lemma collectTimeStale_silent: "collectTimeStale env stale sizes db = (stale', sizes', db') \<Longrightarrow> silent db db'"
  by (auto simp: collectTimeStale_def Let_def split: if_splits prod.splits)

lemma prune_evolves:
  assumes "prune env db = Inr db'"
  shows "evolves db db'"
proof (cases "db_stale db = []")
  case True
  obtain stale1 total1 db1 stale2 total2 where t: "collectTimeStale env [] 0 db = (stale1, total1, db1)"
    "collectSizeStale env stale1 total1 db1 = (stale2, total2)"
    by (metis prod_cases3 surj_pair)
  have "evolves db db1"
    using silent_evolves collectTimeStale_silent [OF t(1)] by blast
  moreover have "silent db1 (db1\<lparr> db_stale := stale2 \<rparr>)"
    by simp
  from evolves_trans [OF silent_evolves [OF this] startStaleClear_evolves] have "evolves db1 db'"
    using assms True by (auto simp: prune_def t split: if_splits intro: clearStaleNow_evolves)
  ultimately show ?thesis
    using evolves_trans by blast
qed (use assms in \<open>simp add: prune_def\<close>)

lemma prune_timer_evolves:
  assumes "prune_timer env db = Inr db'"
  shows "evolves db db'"
proof -
  have "silent db (db\<lparr> db_prune_timer := None \<rparr>)"
    by simp
  from evolves_trans [OF silent_evolves [OF this] prune_evolves] show ?thesis
    using assms by (auto simp: prune_timer_def)
qed

lemma clearByTag_evolves:
  assumes "clearByTag env tag db = Inr (err, db')"
  shows "evolves db db'"
proof -
  obtain xs where "silent db (db\<lparr> db_stale := xs \<rparr>)"
    "startStaleClear env (db\<lparr> db_stale := xs \<rparr>) = Inr db' \<or> db' = db\<lparr> db_stale := xs \<rparr>"
    using assms by (auto simp: clearByTag_def Let_def bind_outcome_Inr_iff split: if_splits)
  then show ?thesis
    using evolves_trans silent_evolves startStaleClear_evolves by metis
qed

lemma writeBundles_timer_evolves:
  assumes "writeBundles_timer env db = Inr db'"
  shows "evolves db db'"
proof -
  obtain db1 where "writeBundles env (db\<lparr> db_bundles_timer := None \<rparr>) = Inr db1" "db' = checkCompactor env db1"
    using assms by (auto simp: writeBundles_timer_def bind_outcome_Inr_iff)
  moreover have "silent db (db\<lparr> db_bundles_timer := None \<rparr>)"
    by simp
  ultimately show ?thesis
    using evolves_trans silent_evolves writeBundles_evolves checkCompactor_silent by metis
qed

lemma waitForCleaner_evolves: "waitForCleaner env db = Inr db' \<Longrightarrow> evolves db db'"
proof (induction env db rule: waitForCleaner.induct)
  case (1 env db)
  show ?case
  proof (cases "db_stale db = []")
    case True
    then show ?thesis
      using "1.prems" by (simp add: waitForCleaner.simps [of env db])
  next
    case False
    then obtain db1 where step: "clearStaleChunk env db = Inr db1" "length (db_stale db1) < length (db_stale db)"
      "waitForCleaner env db1 = Inr db'"
      using "1.prems" by (auto simp: waitForCleaner.simps [of env db] bind_outcome_Inr_iff split: if_splits)
    then show ?thesis
      using "1.IH" [OF False step] evolves_trans clearStaleChunk_evolves by blast
  qed
qed

lemma updateSettings_evolves:
  assumes "updateSettings env a b db = Inr db'"
  shows "evolves db db'"
proof -
  let ?db1 = "db\<lparr> db_settings := db_settings db\<lparr> totalSizeLimit := a, totalTimeLimit := b \<rparr> \<rparr>"
  have "silent db ?db1"
    by (simp add: silent_def entries_from_def)
  moreover have "optimize env ?db1 = Inr db'"
    using assms by (simp add: updateSettings_def Let_def expects_def split: if_splits)
  ultimately show ?thesis
    using silent_evolves silent_trans optimize_silent by metis
qed

section \<open>Calls of an open cache\<close>

datatype cache_call =
    Call_put cache_key tagged_value
  | Call_put_if_empty cache_key tagged_value
  | Call_copy_if_empty cache_key cache_key
  | Call_move_if_empty cache_key cache_key
  | Call_get cache_key
  | Call_remove cache_key
  | Call_clear_by_tag byte
  | Call_wait_for_cleaner
  | Call_update_settings int int
  | Task_prune
  | Task_write_bundles
  | Task_clear_chunk

definition no_result :: "('r \<times> cache_db) outcome \<Rightarrow> cache_db outcome" where
  "no_result m = bind_outcome m (\<lambda>(_, db). Inr db)"

fun run_call :: "cache_env \<Rightarrow> cache_call \<Rightarrow> cache_db \<Rightarrow> cache_db outcome" where
  "run_call env (Call_put key v) db = no_result (db_put env key v db)"
| "run_call env (Call_put_if_empty key v) db = no_result (putIfEmpty env key v db)"
| "run_call env (Call_copy_if_empty source target) db = no_result (copyIfEmpty env source target db)"
| "run_call env (Call_move_if_empty source target) db = no_result (moveIfEmpty env source target db)"
| "run_call env (Call_get key) db = no_result (db_get env key db)"
| "run_call env (Call_remove key) db = no_result (db_remove env key db)"
| "run_call env (Call_clear_by_tag tag) db = no_result (clearByTag env tag db)"
| "run_call env Call_wait_for_cleaner db = waitForCleaner env db"
| "run_call env (Call_update_settings a b) db = updateSettings env a b db"
| "run_call env Task_prune db = prune_timer env db"
| "run_call env Task_write_bundles db = writeBundles_timer env db"
| "run_call env Task_clear_chunk db = clear_chunk_task env db"

text \<open>A value fits, there is a free place for it, new settings are sound.\<close>

fun call_ok :: "cache_env \<Rightarrow> cache_call \<Rightarrow> cache_db \<Rightarrow> bool" where
  "call_ok env (Call_put key v) db \<longleftrightarrow> fits env v db"
| "call_ok env (Call_put_if_empty key v) db \<longleftrightarrow> fits env v db"
| "call_ok env (Call_copy_if_empty source target) db \<longleftrightarrow> room env db"
| "call_ok env (Call_update_settings a b) db \<longleftrightarrow>
     checkSettings (db_settings db\<lparr> totalSizeLimit := a, totalTimeLimit := b \<rparr>)"
| "call_ok env call db \<longleftrightarrow> True"

lemma no_result_keeps: "keeps env m \<Longrightarrow> ensures (no_result m) (db_ok env)"
  by (auto simp: no_result_def keeps_def split_def elim!: ensures_mono)

lemma run_call_ok:
  assumes "db_ok env db" "env_ok env" "call_ok env call db"
  shows "ensures (run_call env call db) (db_ok env)"
proof -
  have "clock_ok env"
    using assms(2) by (simp add: env_ok_def)
  moreover have "ensures (waitForCleaner env db) (db_ok env)"
    by (rule ensures_mono [OF waitForCleaner_keeps [OF assms(1)]]) simp
  ultimately show ?thesis
    using assms
    by (cases call) (simp_all add: no_result_keeps db_put_keeps putIfEmpty_keeps copyIfEmpty_keeps moveIfEmpty_keeps
        db_get_keeps db_remove_keeps clearByTag_keeps updateSettings_keeps prune_timer_keeps writeBundles_timer_keeps
        clear_chunk_task_keeps)
qed

lemma run_call_evolves:
  assumes "run_call env call db = Inr db'" "db_ok env db" "env_ok env" "call_ok env call db"
  shows "evolves db db'"
  using assms
  by (cases call) (auto simp: no_result_def bind_outcome_Inr_iff intro: db_put_evolves putIfEmpty_evolves copyIfEmpty_evolves
      moveIfEmpty_evolves db_get_evolves db_remove_evolves clearByTag_evolves waitForCleaner_evolves updateSettings_evolves
      prune_timer_evolves writeBundles_timer_evolves clear_chunk_task_evolves)

end
