(* ===== verification/Cache_Replay.thy ===== *)
theory Cache_Replay
  imports Cache_Growth
begin

text \<open>
  What a log says is unique, and what it makes of a key depends on what was said before only when it
  does not store the key. Hence when two logs agree on a key they still do after the same records,
  which is what a compaction rests on: the new log is written from the entries of the cache while
  the old one grows, and then gets the records that have come meanwhile.
\<close>

section \<open>What a log says\<close>

lemma log_says_unique:
  assumes "log_says st xs v" "log_says st xs v'" "0 \<le> maxBundledRecords st"
  shows "v = v'"
proof -
  let ?track = "trackEstimatedTime st" and ?all = "(\<lambda>r rs. Inr (True, rs @ [r])) :: log_record list log_handler"
  obtain h recs where one: "xs = header_bytes h @ concat (map record_bytes recs)"
    "hdr_flags h = (if ?track then kTrackEstimatedTime else 0)" "list_all (record_valid st) recs"
    "v = fold replay recs (Map.empty, ucast (hdr_time h))"
    using assms(1) unfolding log_says_def by blast
  obtain h' recs' where two: "xs = header_bytes h' @ concat (map record_bytes recs')"
    "hdr_flags h' = (if ?track then kTrackEstimatedTime else 0)" "list_all (record_valid st) recs'"
    "v' = fold replay recs' (Map.empty, ucast (hdr_time h'))"
    using assms(2) unfolding log_says_def by blast
  have all: "handle_all ?all rs s = Inr (True, s @ rs)" for rs s
    by (induction rs arbitrary: s) simp_all
  have parse: "parse_log (binlog_kinds ?track) ?track st ?all (concat (map record_bytes rs)) [] = Inr ([], False, rs)"
    if "list_all (record_valid st) rs" for rs
  proof -
    have "list_all (record_ok ?track st) rs"
      using that by (auto simp: list_all_iff record_valid_def)
    from parse_log_records [OF assms(3) this all] have
      "parse_log (binlog_kinds ?track) ?track st ?all (concat (map record_bytes rs) @ []) [] =
       parse_log (binlog_kinds ?track) ?track st ?all [] ([] @ rs)" .
    then show ?thesis
      by (simp only: append_Nil append_Nil2 parse_log_Nil)
  qed
  have split: "header_bytes h = header_bytes h'" "concat (map record_bytes recs) = concat (map record_bytes recs')"
  proof -
    have "header_bytes h @ concat (map record_bytes recs) = header_bytes h' @ concat (map record_bytes recs')"
      using one(1) two(1) by (simp only:)
    moreover have "length (header_bytes h) = length (header_bytes h')"
      by simp
    ultimately show "header_bytes h = header_bytes h'" "concat (map record_bytes recs) = concat (map record_bytes recs')"
      using append_eq_append_conv by blast+
  qed
  have header: "bytes_header (header_bytes g) = g" if "hdr_flags g = (if ?track then kTrackEstimatedTime else 0)" for g
  proof -
    have "unat (hdr_flags g) < 2 ^ 24"
      using that by (simp add: kTrackEstimatedTime_def)
    from bytes_header_header_bytes [OF this, of "[]"] show ?thesis
      by simp
  qed
  have "bytes_header (header_bytes h) = bytes_header (header_bytes h')"
    by (rule arg_cong [OF split(1)])
  then have "h = h'"
    unfolding header [OF one(2)] header [OF two(2)] .
  moreover have "Inr ([] :: bytes, False, recs) = (Inr ([], False, recs') :: (bytes \<times> bool \<times> log_record list) outcome)"
    using parse [OF one(3)] parse [OF two(3)] unfolding split(2) by (simp only:)
  ultimately show ?thesis
    using one(4) two(4) by simp
qed

lemma log_says_extend:
  "log_says st xs v \<Longrightarrow> list_all (record_valid st) recs \<Longrightarrow> log_says st (xs @ log_bytes recs) (fold replay recs v)"
proof (induction recs arbitrary: xs v)
  case (Cons r rs)
  then show ?case
    using Cons.IH [OF log_says_append [OF Cons.prems(1), of r]] by simp
qed simp

lemma log_bytes_blocks:
  "list_all (record_valid st) recs \<Longrightarrow> length (log_bytes recs) mod 16 = 0"
proof (induction recs)
  case (Cons r rs)
  then show ?case
    using length_record_bytes [of "trackEstimatedTime st" st r] by (simp add: record_valid_def add_mod_16)
qed simp

section \<open>Replaying a log, key by key\<close>

text \<open>Where no times are kept, the time of the header stays.\<close>

definition same_clock :: "cache_settings \<Rightarrow> 64 word \<Rightarrow> 64 word \<Rightarrow> bool" where
  "same_clock st t t' \<longleftrightarrow> trackEstimatedTime st \<or> t = t'"

lemma fold_replay_store_time:
  "list_all (\<lambda>s. sr_time s = None) ss \<Longrightarrow> snd (fold replay_store ss v) = snd v"
  by (induction ss arbitrary: v) (simp_all add: replay_store_def)

lemma replay_untracked:
  assumes "record_valid st r" "\<not> trackEstimatedTime st"
  shows "snd (replay r v) = snd v"
proof (cases r)
  case (Log_multi_store ss)
  then have "list_all (\<lambda>s. sr_time s = None) ss"
    using assms by (auto simp: record_valid_def record_ok_def store_ok_def list_all_iff)
  then show ?thesis
    using Log_multi_store by (simp add: replay_def fold_replay_store_time)
qed (use assms in \<open>auto simp: record_valid_def record_ok_def store_ok_def replay_def replay_store_def\<close>)

lemma replay_clock:
  "record_valid st r \<Longrightarrow> same_clock st (snd v) (snd v') \<Longrightarrow> same_clock st (snd (replay r v)) (snd (replay r v'))"
  using replay_untracked [of st r v] replay_untracked [of st r v']
  by (cases "trackEstimatedTime st") (simp_all add: same_clock_def)

lemma fold_replay_store_key:
  "list_all (store_ok (trackEstimatedTime st)) ss \<Longrightarrow> same_clock st (snd v) (snd v') \<Longrightarrow>
   k \<in> set (map sr_key ss) \<or> fst v k = fst v' k \<Longrightarrow> fst (fold replay_store ss v) k = fst (fold replay_store ss v') k"
proof (induction ss arbitrary: v v')
  case (Cons s ss)
  have entry: "store_entry (snd v) s = store_entry (snd v') s"
    using Cons.prems(1,2) by (auto simp: store_entry_def same_clock_def store_ok_def split: option.split)
  have "same_clock st (snd (replay_store s v)) (snd (replay_store s v'))"
    using Cons.prems(1,2) by (auto simp: replay_store_def same_clock_def store_ok_def split: option.split)
  moreover have "k \<in> set (map sr_key ss) \<or> fst (replay_store s v) k = fst (replay_store s v') k"
    using Cons.prems(3) entry by (auto simp: replay_store_def)
  ultimately show ?case
    using Cons.IH [of "replay_store s v" "replay_store s v'"] Cons.prems(1) by simp
qed simp

lemma replay_key:
  assumes "record_valid st r" "same_clock st (snd v) (snd v')" "k \<in> set (record_keys r) \<or> fst v k = fst v' k"
  shows "fst (replay r v) k = fst (replay r v') k"
proof (cases r)
  case (Log_store s)
  then show ?thesis
    using fold_replay_store_key [of st "[s]" v v' k] assms by (simp add: record_valid_def record_ok_def replay_def)
next
  case (Log_multi_store ss)
  then show ?thesis
    using fold_replay_store_key [of st ss v v' k] assms by (simp add: record_valid_def record_ok_def replay_def)
qed (use assms in \<open>auto simp: replay_def touch_keys_def\<close>)

text \<open>What a log makes of a key depends on what was there only when it does not store the key.\<close>

lemma fold_replay_key:
  "list_all (record_valid st) recs \<Longrightarrow> same_clock st (snd v) (snd v') \<Longrightarrow>
   k \<in> set (stored_keys recs) \<or> fst v k = fst v' k \<Longrightarrow> fst (fold replay recs v) k = fst (fold replay recs v') k"
proof (induction recs arbitrary: v v')
  case (Cons r rs)
  have "k \<in> set (stored_keys rs) \<or> fst (replay r v) k = fst (replay r v') k"
    using Cons.prems replay_key [of st r v v' k] by auto
  then show ?case
    using Cons.IH [OF _ replay_clock] Cons.prems by simp
qed simp

lemma fold_replay_clock:
  "list_all (record_valid st) recs \<Longrightarrow> same_clock st (snd v) (snd v') \<Longrightarrow>
   same_clock st (snd (fold replay recs v)) (snd (fold replay recs v'))"
proof (induction recs arbitrary: v v')
  case (Cons r rs)
  then show ?case
    using Cons.IH [OF _ replay_clock [of st r v v']] by simp
qed simp

text \<open>Otherwise it leaves the entry, removes it, or sets its time.\<close>

definition plain_change :: "(cache_entry option \<Rightarrow> cache_entry option) \<Rightarrow> bool" where
  "plain_change f \<longleftrightarrow> f = id \<or> f = (\<lambda>_. None) \<or> (\<exists>t. f = map_option (\<lambda>e. e\<lparr> en_use_time := t \<rparr>))"

lemma plain_change_comp: "plain_change f \<Longrightarrow> plain_change g \<Longrightarrow> plain_change (f \<circ> g)"
  by (auto simp: plain_change_def comp_def option.map_comp fun_eq_iff)

lemma plain_change_twice: "plain_change f \<Longrightarrow> f (f x) = f x"
  by (cases x) (auto simp: plain_change_def)

lemma plain_change_None: "plain_change f \<Longrightarrow> f None = None"
  by (auto simp: plain_change_def)

lemma fold_replay_store_other: "k \<notin> set (map sr_key ss) \<Longrightarrow> fst (fold replay_store ss v) k = fst v k"
  by (induction ss arbitrary: v) (simp_all add: replay_store_def)

lemma replay_other:
  assumes "k \<notin> set (record_keys r)"
  obtains f where "plain_change f" "\<And>v. fst (replay r v) k = f (fst v k)"
proof (cases r)
  case (Log_store s)
  then show thesis
    using that [of id] assms by (simp add: plain_change_def replay_def replay_store_def)
next
  case (Log_multi_store ss)
  then show thesis
    using that [of id] assms fold_replay_store_other [of k ss] by (simp add: plain_change_def replay_def)
next
  case (Log_multi_remove ks)
  then show thesis
    using that [of "if k \<in> set ks then (\<lambda>_. None) else id"] by (simp add: plain_change_def replay_def)
next
  case (Log_multi_access t ks)
  show thesis
  proof (cases "k \<in> set ks")
    case True
    then show thesis
      using that [of "map_option (\<lambda>e. e\<lparr> en_use_time := getRelative t \<rparr>)"] Log_multi_access
      by (auto simp: plain_change_def replay_def touch_keys_def)
  next
    case False
    then show thesis
      using that [of id] Log_multi_access by (simp add: plain_change_def replay_def touch_keys_def)
  qed
qed

lemma fold_replay_other:
  "k \<notin> set (stored_keys recs) \<Longrightarrow> \<exists>f. plain_change f \<and> (\<forall>v. fst (fold replay recs v) k = f (fst v k))"
proof (induction recs)
  case (Cons r rs)
  obtain f where f: "plain_change f" "\<And>v. fst (replay r v) k = f (fst v k)"
    using replay_other [of k r] Cons.prems by auto
  obtain g where g: "plain_change g" "\<And>v. fst (fold replay rs v) k = g (fst v k)"
    using Cons by auto
  have "fst (fold replay (r # rs) v) k = (g \<circ> f) (fst v k)" for v
    by (simp add: g(2) f(2))
  then show ?case
    using plain_change_comp [OF g(1) f(1)] by blast
qed (auto simp: plain_change_def)

lemma fold_replay_again:
  assumes "list_all (record_valid st) recs" "same_clock st (snd v) (snd v')" "fst v' k = fst (fold replay recs v) k"
  shows "fst (fold replay recs v') k = fst (fold replay recs v) k"
proof (cases "k \<in> set (stored_keys recs)")
  case True
  then show ?thesis
    using fold_replay_key [OF assms(1,2), of k] by simp
next
  case False
  then obtain f where f: "plain_change f" "\<And>v. fst (fold replay recs v) k = f (fst v k)"
    using fold_replay_other by blast
  show ?thesis
    unfolding f(2) assms(3) by (rule plain_change_twice [OF f(1)])
qed

lemma fold_replay_absent:
  "k \<notin> set (stored_keys recs) \<Longrightarrow> fst v k = None \<Longrightarrow> fst (fold replay recs v) k = None"
proof -
  assume "k \<notin> set (stored_keys recs)" and none: "fst v k = None"
  then obtain f where f: "plain_change f" "\<And>v. fst (fold replay recs v) k = f (fst v k)"
    using fold_replay_other by blast
  show ?thesis
    unfolding f(2) none by (rule plain_change_None [OF f(1)])
qed

section \<open>Times\<close>

definition record_clock :: "log_record \<Rightarrow> 64 word" where
  "record_clock r = snd (replay r (Map.empty, 0))"

lemma word_max_0 [simp]: "max 0 (t :: 64 word) = t" "max (t :: 64 word) 0 = t"
  by (simp_all add: max_def)

lemma fold_store_clock: "snd (fold replay_store ss (m, t)) = max t (snd (fold replay_store ss (m', 0)))"
proof (induction ss arbitrary: m m' t)
  case (Cons s ss)
  have step: "replay_store s (m, t) = (m(sr_key s \<mapsto> store_entry t s),
      case sr_time s of None \<Rightarrow> t | Some u \<Rightarrow> max t (getRelative u))" for m t
    by (simp add: replay_store_def split: option.split)
  show ?case
  proof (cases "sr_time s")
    case None
    show ?thesis
      using Cons.IH [of "m(sr_key s \<mapsto> store_entry t s)" t "m'(sr_key s \<mapsto> store_entry 0 s)"]
      by (simp only: fold_simps step None option.case)
  next
    case (Some u)
    note right = Cons.IH [of "m'(sr_key s \<mapsto> store_entry 0 s)" "getRelative u" Map.empty]
    show ?thesis
      using Cons.IH [of "m(sr_key s \<mapsto> store_entry t s)" "max t (getRelative u)" Map.empty]
      by (simp only: fold_simps step Some option.case word_max_0 right max.assoc)
  qed
qed simp

lemma replay_clock_max: "snd (replay r v) = max (snd v) (record_clock r)"
proof (cases r)
  case (Log_store s)
  then show ?thesis
    using fold_store_clock [of "[s]" "fst v" "snd v" "Map.empty"] by (simp add: record_clock_def replay_def)
next
  case (Log_multi_store ss)
  then show ?thesis
    using fold_store_clock [of ss "fst v" "snd v" "Map.empty"] by (simp add: record_clock_def replay_def)
qed (simp_all add: record_clock_def replay_def)

definition log_clock :: "log_record list \<Rightarrow> 64 word" where
  "log_clock recs = fold (\<lambda>r t. max t (record_clock r)) recs 0"

lemma fold_clock_max: "fold (\<lambda>r t. max t (record_clock r)) recs t = max t (log_clock recs)"
proof (induction recs arbitrary: t)
  case (Cons r rs)
  show ?case
    using Cons.IH [of "max t (record_clock r)"] Cons.IH [of "record_clock r"]
    by (simp add: log_clock_def max.assoc)
qed (simp add: log_clock_def)

lemma fold_replay_clock_max: "snd (fold replay recs v) = max (snd v) (log_clock recs)"
proof (induction recs arbitrary: v)
  case (Cons r rs)
  show ?case
    using Cons.IH [of "replay r v"] fold_clock_max [of rs "record_clock r"]
    by (simp add: log_clock_def replay_clock_max max.assoc)
qed (simp add: log_clock_def)

lemma fold_replay_clock_le: "t \<le> snd (fold replay recs v) \<Longrightarrow> snd (fold replay recs (m, t)) \<le> snd (fold replay recs v)"
  by (simp add: fold_replay_clock_max)

text \<open>No entry was used after the time of the log.\<close>

definition times_ok :: "cache_settings \<Rightarrow> log_view \<Rightarrow> bool" where
  "times_ok st v \<longleftrightarrow> (\<forall>k e. fst v k = Some e \<longrightarrow> en_use_time e \<le> snd v \<and> same_clock st (en_use_time e) (snd v))"

lemma replay_store_times:
  assumes "times_ok st v" "(sr_time s \<noteq> None) = trackEstimatedTime st"
  shows "times_ok st (replay_store s v)"
  using assms by (fastforce simp: times_ok_def replay_store_def store_entry_def same_clock_def max.coboundedI1 split: option.splits if_splits)

lemma replay_times:
  assumes "times_ok st v" "record_valid st r"
  shows "times_ok st (replay r v)"
proof (cases r)
  case (Log_store s)
  then show ?thesis
    using replay_store_times [OF assms(1), of s] assms(2) by (simp add: replay_def record_valid_def record_ok_def store_ok_def)
next
  case (Log_multi_store ss)
  have "list_all (\<lambda>s. (sr_time s \<noteq> None) = trackEstimatedTime st) ss"
    using Log_multi_store assms(2) by (simp add: record_valid_def record_ok_def store_ok_def list_all_iff)
  then have "times_ok st (fold replay_store ss v)"
    using assms(1)
  proof (induction ss arbitrary: v)
    case (Cons s ss)
    then show ?case
      using Cons.IH [OF _ replay_store_times [of st v s]] by simp
  qed simp
  then show ?thesis
    using Log_multi_store by (simp add: replay_def)
next
  case (Log_multi_remove ks)
  then show ?thesis
    using assms(1) by (auto simp: replay_def times_ok_def split: if_splits)
next
  case (Log_multi_access t ks)
  then have "trackEstimatedTime st"
    using assms(2) by (simp add: record_valid_def record_ok_def)
  then show ?thesis
    using Log_multi_access assms(1)
    by (fastforce simp: replay_def times_ok_def touch_keys_def same_clock_def max.coboundedI1 split: if_splits)
qed

lemma fold_replay_times: "list_all (record_valid st) recs \<Longrightarrow> times_ok st v \<Longrightarrow> times_ok st (fold replay recs v)"
proof (induction recs arbitrary: v)
  case (Cons r rs)
  then show ?case
    using Cons.IH [OF _ replay_times [of st v r]] by simp
qed simp

lemma log_says_times: "log_says st xs v \<Longrightarrow> times_ok st v"
proof -
  assume "log_says st xs v"
  then obtain h :: log_header and recs where "list_all (record_valid st) recs"
    "v = fold replay recs (Map.empty, ucast (hdr_time h))"
    unfolding log_says_def by blast
  moreover have "times_ok st (Map.empty, t)" for t
    by (simp add: times_ok_def)
  ultimately show ?thesis
    by (simp only: fold_replay_times)
qed

lemma log_says_blocks:
  assumes "log_says st xs v"
  shows "length xs mod 16 = 0" "16 \<le> length xs"
  using assms log_bytes_blocks [of st] length_header_bytes
  unfolding log_says_def log_bytes_def by (auto simp: add_mod_16 simp del: length_concat)

section \<open>The new log agrees with the old one\<close>

text \<open>
  \<open>v0\<close> is what the part of the log says that is compacted, \<open>S\<close> what has been added since, \<open>v\<close> what
  the new log says or will say. A key that is not to be looked up any more has the same entry after
  both, unless the cache has removed it and the new log knows nothing of it.
\<close>

definition agrees ::
    "cache_settings \<Rightarrow> cache_key set \<Rightarrow> (cache_key \<Rightarrow> cache_entry option) \<Rightarrow> log_view \<Rightarrow> log_record list \<Rightarrow> log_view \<Rightarrow> bool" where
  "agrees st P D v0 S v \<longleftrightarrow> same_clock st (snd v) (snd v0) \<and> snd v \<le> snd (fold replay S v0) \<and>
     (\<forall>k. k \<notin> P \<or> fst v k \<noteq> None \<longrightarrow>
       fst (fold replay S v) k = fst (fold replay S v0) k \<or> D k = None \<and> fst (fold replay S v) k = None)"

lemma same_clock_refl [simp]: "same_clock st t t"
  by (simp add: same_clock_def)

lemma agrees_start:
  assumes "list_all (record_valid st) S"
  shows "agrees st (set (stored_keys old)) D (fold replay old (Map.empty, t)) S (Map.empty, t)
    \<longleftrightarrow> same_clock st t (snd (fold replay old (Map.empty, t)))"
proof -
  let ?v0 = "fold replay old (Map.empty, t)"
  have "t \<le> snd (fold replay S ?v0)"
    by (simp add: fold_replay_clock_max max.coboundedI1)
  moreover have "fst (fold replay S (Map.empty, t)) k = fst (fold replay S ?v0) k"
    if "k \<notin> set (stored_keys old)" "same_clock st t (snd ?v0)" for k
    using fold_replay_key [OF assms, of "(Map.empty, t)" ?v0 k] fold_replay_absent [of k old "(Map.empty, t)"] that by simp
  ultimately show ?thesis
    by (auto simp: agrees_def)
qed

lemma agrees_grow:
  assumes "agrees st P D v0 S v" "list_all (record_valid st) (S @ S')"
    "\<And>k. D k = None \<Longrightarrow> k \<notin> set (stored_keys S') \<Longrightarrow> D' k = None"
  shows "agrees st P D' v0 (S @ S') v"
proof -
  let ?n = "fold replay S v" and ?o = "fold replay S v0"
  have clock: "same_clock st (snd v) (snd v0)" "snd v \<le> snd ?o"
    using assms(1) by (simp_all add: agrees_def)
  have "snd v \<le> snd (fold replay S' ?o)"
    using clock(2) by (simp add: fold_replay_clock_max max.coboundedI1)
  moreover have "fst (fold replay S' ?n) k = fst (fold replay S' ?o) k \<or> D' k = None \<and> fst (fold replay S' ?n) k = None"
    if "k \<notin> P \<or> fst v k \<noteq> None" for k
  proof (cases "k \<in> set (stored_keys S') \<or> fst ?n k = fst ?o k")
    case True
    have "same_clock st (snd ?n) (snd ?o)"
      using fold_replay_clock assms(2) clock(1) by simp
    then show ?thesis
      using fold_replay_key [of st S' ?n ?o k] True assms(2) by simp
  next
    case False
    then have "D k = None" "fst ?n k = None"
      using assms(1) that by (auto simp: agrees_def)
    then show ?thesis
      using False assms(3) fold_replay_absent [of k S' ?n] by simp
  qed
  ultimately show ?thesis
    using clock(1) by (simp add: agrees_def)
qed

text \<open>The entries of some keys are looked up.\<close>

lemma agrees_answer:
  assumes "agrees st (K \<union> P) D v0 S v" "list_all (record_valid st) S" "D = hidden R (fst (fold replay S v0))"
    "\<And>k. A k = (if k \<in> K then D k else None)"
  shows "agrees st P D v0 S (A ++ fst v, snd v)"
proof -
  let ?v = "(A ++ fst v, snd v)"
  have clock: "same_clock st (snd ?v) (snd v)" "same_clock st (snd ?v) (snd v0)"
    using assms(1) by (simp_all add: agrees_def)
  have "fst (fold replay S ?v) k = fst (fold replay S v0) k \<or> D k = None \<and> fst (fold replay S ?v) k = None"
    if k: "k \<notin> P \<or> fst ?v k \<noteq> None" for k
  proof (cases "fst v k = None \<and> k \<in> K")
    case True
    then have look: "fst ?v k = D k"
      using assms(4) by (simp add: map_add_def)
    show ?thesis
    proof (cases "D k")
      case None
      then show ?thesis
        using fold_replay_key [OF assms(2) clock(2), of k] fold_replay_absent [of k S ?v] look
        by (cases "k \<in> set (stored_keys S)") auto
    next
      case (Some e)
      then have "fst ?v k = fst (fold replay S v0) k"
        using assms(3) look by (auto simp: hidden_def split: if_splits)
      moreover have "same_clock st (snd v0) (snd ?v)"
        using clock(2) by (auto simp: same_clock_def)
      ultimately show ?thesis
        using fold_replay_again [OF assms(2)] by blast
    qed
  next
    case False
    then have same: "fst ?v k = fst v k"
      using assms(4) by (auto simp: map_add_def split: option.split)
    then have "fst (fold replay S ?v) k = fst (fold replay S v) k"
      using fold_replay_key [OF assms(2) clock(1), of k] by simp
    moreover have "k \<notin> K \<union> P \<or> fst v k \<noteq> None"
      using k False same by auto
    ultimately show ?thesis
      using assms(1) unfolding agrees_def by auto
  qed
  then show ?thesis
    using assms(1) by (simp add: agrees_def)
qed

text \<open>When nothing is left to be looked up, the new log hides what the old one hides.\<close>

lemma agrees_done:
  assumes "agrees st {} D v0 S v" "list_all (record_valid st) S" "D = hidden R (fst (fold replay S v0))"
  shows "D = hidden R (fst (fold replay S v))" "snd (fold replay S v) \<le> snd (fold replay S v0)"
    "same_clock st (snd (fold replay S v)) (snd (fold replay S v0))"
proof -
  have clock: "same_clock st (snd v) (snd v0)" "snd v \<le> snd (fold replay S v0)"
    using assms(1) by (simp_all add: agrees_def)
  have "fst (fold replay S v) k = fst (fold replay S v0) k \<or> D k = None \<and> fst (fold replay S v) k = None" for k
    using assms(1) by (auto simp: agrees_def)
  then show "D = hidden R (fst (fold replay S v))"
    unfolding assms(3) hidden_def fun_eq_iff by metis
  show "snd (fold replay S v) \<le> snd (fold replay S v0)"
    using clock(2) by (simp add: fold_replay_clock_max)
  show "same_clock st (snd (fold replay S v)) (snd (fold replay S v0))"
    by (rule fold_replay_clock [OF assms(2) clock(1)])
qed

end
