(* ===== verification/Cache_Compaction.thy ===== *)
theory Cache_Compaction
  imports Cache_Replay
begin

text \<open>
  The tasks of the compactor (storage\_cache\_compactor.cpp) while the log it compacts grows. It finds
  every key that was stored up to its start, in chunks; the new log gets the entries that the
  database answers with, each key once; and catching up copies whole records. \<open>job_ok\<close> says how far
  the compactor is, and each task goes on from there or reports a failure.
\<close>

section \<open>Catching up\<close>

lemma catch_up_loop_ok:
  assumes "0 < block" "block mod 16 = 0"
  shows "0 \<le> off \<Longrightarrow> off < till \<Longrightarrow> till = int (length xs) \<Longrightarrow> (till - off) mod 16 = 0 \<Longrightarrow>
    pf_offset c = length (pf_data c) \<Longrightarrow>
    ensures (catch_up_loop env block till off \<lparr> pf_data = xs, pf_offset = nat off \<rparr> c) (\<lambda>(reached, c').
      reached = 0 \<or> reached = till \<and> pf_data c' = pf_data c @ drop (nat off) xs)"
proof (induction "nat (till - off)" arbitrary: off c rule: less_induct)
  case less
  let ?limit = "min (till - off) block"
  have limit: "0 < ?limit" "?limit mod 16 = 0" "?limit \<le> till - off"
    using less.prems assms by (auto simp: min_def)
  define got where "got = take (nat ?limit) (drop (nat off) xs)"
  have len: "int (length got) = ?limit"
    using limit less.prems(1-3) by (simp add: got_def)
  then have got: "got \<noteq> []"
    using limit(1) by auto
  have read: "plain_read (nat ?limit) \<lparr> pf_data = xs, pf_offset = nat off \<rparr> =
      (got, \<lparr> pf_data = xs, pf_offset = nat (off + ?limit) \<rparr>)"
  proof -
    have "nat off + length got = nat (off + ?limit)"
      using len less.prems(1) limit(1) by linarith
    then show ?thesis
      by (simp add: plain_read_def Let_def flip: got_def)
  qed
  let ?c1 = "plain_write got c"
  have c1: "pf_offset ?c1 = length (pf_data ?c1)" "pf_data ?c1 = pf_data c @ got"
    using less.prems(5) by (simp_all add: plain_write_def overwrite_def)
  have eq: "catch_up_loop env block till off \<lparr> pf_data = xs, pf_offset = nat off \<rparr> c =
      (if \<not> ce_write_log env got then Inr (0, c)
       else if off + ?limit \<noteq> till
       then catch_up_loop env block till (off + ?limit) \<lparr> pf_data = xs, pf_offset = nat (off + ?limit) \<rparr> ?c1
       else Inr (till, ?c1))"
    using got limit(2) by (subst catch_up_loop.simps) (simp add: read len Let_def)
  have parts: "got @ drop (nat (off + ?limit)) xs = drop (nat off) xs"
  proof -
    have "nat (off + ?limit) = nat ?limit + nat off"
      using less.prems(1) limit(1) by linarith
    then show ?thesis
      unfolding got_def by (simp only: drop_drop [symmetric] append_take_drop_id)
  qed
  show ?case
  proof (cases "ce_write_log env got \<and> off + ?limit \<noteq> till")
    case True
    have "ensures (catch_up_loop env block till (off + ?limit) \<lparr> pf_data = xs, pf_offset = nat (off + ?limit) \<rparr> ?c1)
        (\<lambda>(reached, c'). reached = 0 \<or> reached = till \<and> pf_data c' = pf_data ?c1 @ drop (nat (off + ?limit)) xs)"
    proof (rule less.hyps)
      show "(till - (off + ?limit)) mod 16 = 0"
        using less.prems(4) limit(2) by (metis diff_diff_add diff_zero mod_diff_right_eq)
    qed (use limit less.prems True c1 in auto)
    then show ?thesis
      using True parts unfolding eq c1(2) by simp
  next
    case False
    then show ?thesis
      using parts less.prems(3) unfolding eq by (auto simp: c1(2))
  qed
qed

lemma CatchUp_ok:
  assumes "0 < block" "block mod 16 = 0" "disk b = Some xs" "disk c = Some ys" "c \<noteq> b" "0 \<le> off" "off \<le> int (length xs)"
    "(int (length xs) - off) mod 16 = 0"
  shows "ensures (CatchUp env c b off block disk) (\<lambda>(till, disk'). (\<forall>p. p \<noteq> c \<longrightarrow> disk' p = disk p) \<and>
    (till = 0 \<or> till = int (length xs) \<and> disk' c = Some (ys @ drop (nat off) xs)))"
proof -
  let ?till = "int (length xs)"
  have seek: "plain_seek off \<lparr> pf_data = xs, pf_offset = 0 \<rparr> = (True, \<lparr> pf_data = xs, pf_offset = nat off \<rparr>)"
    "plain_seek (int (length ys)) \<lparr> pf_data = ys, pf_offset = 0 \<rparr> = (True, \<lparr> pf_data = ys, pf_offset = length ys \<rparr>)"
    using assms(6,7) by (simp_all add: plain_seek_def)
  have eq: "CatchUp env c b off block disk =
      (if ce_open env b Mode_Read \<noteq> Result_Success then Inr (0, disk)
       else if ?till = off then Inr (?till, disk)
       else if ce_open env c Mode_ReadAppend \<noteq> Result_Success then Inr (0, disk)
       else bind_outcome (catch_up_loop env block ?till off \<lparr> pf_data = xs, pf_offset = nat off \<rparr>
           \<lparr> pf_data = ys, pf_offset = length ys \<rparr>)
         (\<lambda>(reached, compact1). Inr (reached, disk(c \<mapsto> pf_data compact1))))"
    using assms(3,4,7) by (simp add: CatchUp_def Let_def seek disk_file_def)
  show ?thesis
  proof (cases "?till = off")
    case True
    then show ?thesis
      using assms(4) unfolding eq by auto
  next
    case False
    then have "ensures (catch_up_loop env block ?till off \<lparr> pf_data = xs, pf_offset = nat off \<rparr> \<lparr> pf_data = ys, pf_offset = length ys \<rparr>)
        (\<lambda>(reached, c'). reached = 0 \<or> reached = ?till \<and> pf_data c' = ys @ drop (nat off) xs)"
      using catch_up_loop_ok [OF assms(1,2), of off ?till xs "\<lparr> pf_data = ys, pf_offset = length ys \<rparr>" env] assms(6-8) by simp
    then show ?thesis
      using False unfolding eq by (auto elim!: ensures_mono)
  qed
qed

section \<open>The new log\<close>

definition same_job :: "compactor \<Rightarrow> compactor \<Rightarrow> bool" where
  "same_job co co' \<longleftrightarrow> co_base co' = co_base co \<and> co_settings co' = co_settings co \<and> co_info co' = co_info co \<and>
     co_part_size co' = co_part_size co"

lemma same_job_refl [simp]: "same_job co co"
  by (simp add: same_job_def)

lemma same_job_trans: "same_job a b \<Longrightarrow> same_job b c \<Longrightarrow> same_job a c"
  by (simp add: same_job_def)

lemma same_job_paths: "same_job co co' \<Longrightarrow> compactPath co' = compactPath co \<and> co_binlogPath co' = co_binlogPath co"
  by (simp add: same_job_def compactPath_def co_binlogPath_def)

text \<open>No task touches another file.\<close>

definition only_compact :: "compactor \<Rightarrow> cache_disk \<Rightarrow> cache_disk \<Rightarrow> bool" where
  "only_compact co disk disk' \<longleftrightarrow> (\<forall>p. p \<noteq> compactPath co \<longrightarrow> disk' p = disk p)"

lemma only_compact_refl [simp]: "only_compact co disk disk"
  by (simp add: only_compact_def)

lemma only_compact_trans:
  "only_compact a d e \<Longrightarrow> only_compact b e f \<Longrightarrow> same_job a b \<Longrightarrow> only_compact a d f"
  using same_job_paths [of a b] by (simp add: only_compact_def)

definition compact_holds :: "compactor \<Rightarrow> cache_disk \<Rightarrow> bytes \<Rightarrow> bool" where
  "compact_holds co disk ys \<longleftrightarrow> co_compact co = Some (length ys) \<and> disk (compactPath co) = Some ys"

lemma co_write_eq:
  assumes "compact_holds co disk ys"
  shows "co_write env xs co disk =
    (if ce_write_log env xs then (True, co\<lparr> co_compact := Some (length (ys @ xs)) \<rparr>, disk(compactPath co \<mapsto> ys @ xs))
     else (False, co, disk))"
  using assms by (simp add: compact_holds_def co_write_def plain_write_def disk_file_def overwrite_def Let_def)

lemma compact_holds_written [simp]:
  "compact_holds (co\<lparr> co_compact := Some n \<rparr>) (disk(compactPath co \<mapsto> zs)) ys \<longleftrightarrow> n = length ys \<and> ys = zs"
  by (auto simp: compact_holds_def compactPath_def)

lemma compact_holds_frame [simp]:
  "compact_holds (co\<lparr> co_list := x0 \<rparr>) disk ys = compact_holds co disk ys"
  "compact_holds (co\<lparr> co_written := x1 \<rparr>) disk ys = compact_holds co disk ys"
  "compact_holds (co\<lparr> co_posted := x2 \<rparr>) disk ys = compact_holds co disk ys"
  "compact_holds (co\<lparr> co_wrapper := x3 \<rparr>) disk ys = compact_holds co disk ys"
  "compact_holds (co\<lparr> co_binlog := x4 \<rparr>) disk ys = compact_holds co disk ys"
  by (simp_all add: compact_holds_def compactPath_def)

definition list_record_ok :: "cache_settings \<Rightarrow> store_record \<Rightarrow> bool" where
  "list_record_ok st r \<longleftrightarrow> store_ok (trackEstimatedTime st) r \<and> store_valid st r"

text \<open>The entries that are written or wait in the list, and the time of the new log.\<close>

definition new_view :: "log_header \<Rightarrow> log_record list \<Rightarrow> compactor \<Rightarrow> log_view" where
  "new_view h recs co = fold replay (recs @ [Log_multi_store (co_list co)]) (Map.empty, ucast (hdr_time h))"

definition written_ok :: "log_header \<Rightarrow> log_record list \<Rightarrow> compactor \<Rightarrow> cache_disk \<Rightarrow> bool" where
  "written_ok h recs co disk \<longleftrightarrow>
     compact_holds co disk (header_bytes h @ log_bytes recs) \<and>
     list_all (record_valid (co_settings co)) recs \<and> list_all (list_record_ok (co_settings co)) (co_list co) \<and>
     int (length (co_list co)) \<le> co_part_size co \<and> co_part_size co = maxBundledRecords (co_settings co) \<and>
     0 < co_part_size co \<and> co_part_size co < kBundledRecordsLimit \<and>
     (\<forall>k. k \<in> set (co_written co) \<longleftrightarrow> fst (new_view h recs co) k \<noteq> None)"

lemma writeMultiStore_ok:
  assumes "written_ok h recs co disk"
  shows "ensures (writeMultiStore env co disk) (\<lambda>(ok, co', disk'). same_job co co' \<and> only_compact co disk disk' \<and>
    co_posted co' = co_posted co \<and> (ok \<longrightarrow> (\<exists>recs'. written_ok h recs' co' disk' \<and> co_list co' = [] \<and>
      new_view h recs' co' = new_view h recs co \<and> co_wrapper co' = co_wrapper co \<and> co_binlog co' = co_binlog co)))"
proof (cases "co_list co = []")
  case True
  then show ?thesis
    using assms by (auto simp: writeMultiStore_def)
next
  case False
  let ?list = "co_list co" and ?r = "Log_multi_store (co_list co)"
  define ys where "ys = header_bytes h @ log_bytes recs"
  define head where "head = multi_head kMultiStoreType (le_bytes 3 (length ?list))"
  define body where "body = concat (map store_bytes ?list)"
  have holds: "compact_holds co disk ys"
    using assms by (simp add: written_ok_def ys_def)
  have header: "MultiStoreHead (int (length ?list)) = Inr head"
    using assms by (simp add: written_ok_def MultiStoreHead_def ReadTo_small head_def)
  define co1 where "co1 = co\<lparr> co_compact := Some (length (ys @ head)) \<rparr>"
  define disk1 where "disk1 = disk(compactPath co \<mapsto> ys @ head)"
  define co2 where "co2 = co1\<lparr> co_compact := Some (length ((ys @ head) @ body)), co_list := [] \<rparr>"
  define disk2 where "disk2 = disk1(compactPath co \<mapsto> (ys @ head) @ body)"
  have path: "compactPath co1 = compactPath co" "compactPath co2 = compactPath co"
    by (simp_all add: co1_def co2_def compactPath_def)
  have holds1: "compact_holds co1 disk1 (ys @ head)"
    unfolding compact_holds_def path by (simp add: co1_def disk1_def)
  have "co_write env head co disk = (if ce_write_log env head then (True, co1, disk1) else (False, co, disk))"
    unfolding co_write_eq [OF holds] co1_def disk1_def ..
  moreover have "co_write env body co1 disk1 =
      (if ce_write_log env body then (True, co1\<lparr> co_compact := Some (length ((ys @ head) @ body)) \<rparr>, disk2)
       else (False, co1, disk1))"
    unfolding co_write_eq [OF holds1] disk2_def path ..
  ultimately have eq: "writeMultiStore env co disk =
      (if \<not> ce_write_log env head then Inr (False, co\<lparr> co_list := [] \<rparr>, disk)
       else if \<not> ce_write_log env body then Inr (False, co1\<lparr> co_list := [] \<rparr>, disk1)
       else Inr (True, co2, disk2))"
    using False by (simp add: writeMultiStore_def header co2_def flip: body_def)
  have bytes: "(ys @ head) @ body = header_bytes h @ log_bytes (recs @ [?r])"
    by (simp add: record_bytes_def ys_def head_def body_def)
  have fields: "same_job co co1" "same_job co co2" "co_list co2 = []" "co_posted co1 = co_posted co" "co_posted co2 = co_posted co"
    "co_wrapper co2 = co_wrapper co" "co_binlog co2 = co_binlog co" "co_written co2 = co_written co"
    by (simp_all add: co1_def co2_def same_job_def)
  have view: "new_view h (recs @ [?r]) co2 = new_view h recs co"
    by (simp add: new_view_def replay_def fields)
  have "parts_ok (co_settings co) (length ?list)"
    using assms by (simp add: written_ok_def parts_ok_def)
  then have "record_valid (co_settings co) ?r"
    using assms False
    by (auto simp: record_valid_def record_ok_def written_ok_def list_record_ok_def list_all_iff)
  moreover have "compact_holds co2 disk2 (header_bytes h @ log_bytes (recs @ [?r]))"
    unfolding compact_holds_def path bytes [symmetric] by (simp add: co2_def disk2_def)
  ultimately have "written_ok h (recs @ [?r]) co2 disk2"
    using assms view fields unfolding written_ok_def same_job_def by simp
  moreover have "only_compact co disk disk1" "only_compact co disk disk2"
    by (simp_all add: only_compact_def disk1_def disk2_def)
  ultimately show ?thesis
    using view fields unfolding eq by (auto simp: same_job_def)
qed

lemma fold_replay_untracked:
  "list_all (record_valid st) recs \<Longrightarrow> \<not> trackEstimatedTime st \<Longrightarrow> snd (fold replay recs v) = snd v"
proof (induction recs arbitrary: v)
  case (Cons r rs)
  then show ?case
    using Cons.IH [of "replay r v"] replay_untracked [of st r v] by simp
qed simp

lemma new_view_eq:
  "new_view h recs co = fold replay_store (co_list co) (fold replay recs (Map.empty, ucast (hdr_time h)))"
  by (simp add: new_view_def replay_def)

lemma new_view_untracked:
  assumes "written_ok h recs co disk" "\<not> trackEstimatedTime (co_settings co)"
  shows "snd (new_view h recs co) = ucast (hdr_time h)"
proof -
  have "list_all (\<lambda>s. sr_time s = None) (co_list co)"
    using assms by (auto simp: written_ok_def list_record_ok_def store_ok_def list_all_iff)
  moreover have "list_all (record_valid (co_settings co)) recs"
    using assms(1) by (simp add: written_ok_def)
  ultimately show ?thesis
    using fold_replay_untracked [OF _ assms(2), of recs "(Map.empty, ucast (hdr_time h))"]
    by (simp add: new_view_eq fold_replay_store_time)
qed

definition value_ok :: "cache_settings \<Rightarrow> log_header \<Rightarrow> cache_entry \<Rightarrow> bool" where
  "value_ok st h e \<longleftrightarrow> entry_ok st e \<and> same_clock st (en_use_time e) (ucast (hdr_time h)) \<and> maxDataSize st < kDataSizeLimit"

definition kept_job :: "compactor \<Rightarrow> compactor \<Rightarrow> bool" where
  "kept_job co co' \<longleftrightarrow> same_job co co' \<and> co_posted co' = co_posted co \<and> co_wrapper co' = co_wrapper co \<and>
     co_binlog co' = co_binlog co"

lemma kept_job_refl [simp]: "kept_job co co"
  by (simp add: kept_job_def)

lemma kept_job_trans: "kept_job a b \<Longrightarrow> kept_job b c \<Longrightarrow> kept_job a c"
  by (simp add: kept_job_def same_job_def)

lemma addListRecord_ok:
  assumes "written_ok h recs co disk" "value_ok (co_settings co) h e" "int (length (co_list co)) \<noteq> co_part_size co"
    "snd (new_view h recs co) \<le> bound" "en_use_time e \<le> bound"
  shows "ensures (addListRecord (k, e) co) (\<lambda>co'. kept_job co co' \<and> written_ok h recs co' disk \<and>
    fst (new_view h recs co') = [k \<mapsto> e] ++ fst (new_view h recs co) \<and> snd (new_view h recs co') \<le> bound)"
proof (cases "k \<in> set (co_written co)")
  case True
  then obtain e' where "fst (new_view h recs co) k = Some e'"
    using assms(1) by (auto simp: written_ok_def)
  then have "[k \<mapsto> e] ++ fst (new_view h recs co) = fst (new_view h recs co)"
    by (auto simp: map_add_def fun_eq_iff split: option.split)
  then show ?thesis
    using True assms by (simp add: addListRecord_def)
next
  case False
  let ?st = "co_settings co"
  define time where "time = (if trackEstimatedTime ?st
      then Some (setRelative (en_use_time e) (zero_time\<lparr> tp_system := ci_system_time (co_info co) \<rparr>)) else None)"
  have n: "0 < en_size e" "en_size e \<le> maxDataSize ?st" "en_size e < 2 ^ (3 * 8)" "length (en_place e) = 7"
    using assms(2) by (auto simp: value_ok_def entry_ok_def kDataSizeLimit_def)
  define r where "r = (new_store time)\<lparr> sr_key := k, sr_size := le_bytes 3 (nat (en_size e)),
      sr_checksum := en_checksum e, sr_tag := en_tag e, sr_place := en_place e \<rparr>"
  define co' where "co' = co\<lparr> co_written := k # co_written co, co_list := co_list co @ [r] \<rparr>"
  have run: "addListRecord (k, e) co = Inr co'"
    using False n by (simp add: addListRecord_def setSize_def ReadTo_def read_to_loop_le_bytes r_def co'_def
        flip: time_def)
  have get: "getSize r = en_size e"
    using n by (simp add: getSize_def r_def ReadFrom_le_value le_value_le_bytes_id nat_less_iff)
  have "list_record_ok ?st r"
    using n get by (simp add: list_record_ok_def store_ok_def store_valid_def) (simp add: r_def new_store_def time_def)
  moreover have step: "new_view h recs co' = replay_store r (new_view h recs co)"
    by (simp add: new_view_eq co'_def)
  have entry: "store_entry (snd (new_view h recs co)) r = e"
  proof (cases "trackEstimatedTime ?st")
    case True
    then show ?thesis
      using get by (cases e) (simp add: store_entry_def r_def new_store_def time_def)
  next
    case False
    then have "en_use_time e = snd (new_view h recs co)"
      using new_view_untracked [OF assms(1)] assms(2) by (simp add: value_ok_def same_clock_def)
    then show ?thesis
      using False get by (cases e) (simp add: store_entry_def r_def new_store_def time_def)
  qed
  have key: "sr_key r = k"
    by (simp add: r_def)
  have absent: "fst (new_view h recs co) k = None"
    using assms(1) False by (simp add: written_ok_def)
  have first: "fst (new_view h recs co') = (fst (new_view h recs co))(k \<mapsto> e)"
    unfolding step by (simp add: replay_store_def entry key)
  moreover have "(fst (new_view h recs co))(k \<mapsto> e) = [k \<mapsto> e] ++ fst (new_view h recs co)"
    using absent by (auto simp: map_add_def fun_eq_iff split: option.split)
  moreover have "snd (new_view h recs co') \<le> bound"
    using assms(4,5) unfolding step by (simp add: replay_store_def r_def new_store_def time_def)
  moreover have "kept_job co co'"
    by (simp add: kept_job_def same_job_def co'_def)
  moreover have "int (length (co_list co')) \<le> co_part_size co'"
    using assms(1,3) by (simp add: written_ok_def co'_def)
  ultimately have "kept_job co co' \<and> written_ok h recs co' disk \<and>
    fst (new_view h recs co') = [k \<mapsto> e] ++ fst (new_view h recs co) \<and> snd (new_view h recs co') \<le> bound"
    using assms(1) unfolding written_ok_def by (simp add: co'_def)
  then show ?thesis
    by (simp add: run)
qed

definition values_ok :: "cache_settings \<Rightarrow> log_header \<Rightarrow> 64 word \<Rightarrow> (cache_key \<times> cache_entry) list \<Rightarrow> bool" where
  "values_ok st h bound vals \<longleftrightarrow> list_all (\<lambda>b. value_ok st h (snd b) \<and> en_use_time (snd b) \<le> bound) vals"

lemma fillList_ok:
  "written_ok h recs co disk \<Longrightarrow> values_ok (co_settings co) h bound vals \<Longrightarrow> snd (new_view h recs co) \<le> bound \<Longrightarrow>
   ensures (fillList vals co) (\<lambda>(co', left). kept_job co co' \<and> written_ok h recs co' disk \<and>
     values_ok (co_settings co') h bound left \<and> snd (new_view h recs co') \<le> bound \<and>
     map_of left ++ fst (new_view h recs co') = map_of vals ++ fst (new_view h recs co) \<and>
     (left \<noteq> [] \<longrightarrow> co_list co' \<noteq> []))"
proof (induction vals arbitrary: co)
  case (Cons b vals)
  obtain k e where b: "b = (k, e)"
    by (cases b)
  show ?case
  proof (cases "int (length (co_list co)) = co_part_size co")
    case True
    moreover have "co_list co \<noteq> []"
      using True Cons.prems(1) by (auto simp: written_ok_def)
    ultimately show ?thesis
      using Cons.prems by (simp del: map_of.simps)
  next
    case False
    have "value_ok (co_settings co) h e" "en_use_time e \<le> bound"
      using Cons.prems(2) by (simp_all add: values_ok_def b)
    then obtain co1 where step: "addListRecord (k, e) co = Inr co1" and co1: "kept_job co co1" "written_ok h recs co1 disk"
      "fst (new_view h recs co1) = [k \<mapsto> e] ++ fst (new_view h recs co)" "snd (new_view h recs co1) \<le> bound"
      using addListRecord_ok [OF Cons.prems(1) _ False Cons.prems(3), of e k] by (auto elim!: ensuresE)
    have "values_ok (co_settings co1) h bound vals"
      using Cons.prems(2) co1(1) by (simp add: values_ok_def kept_job_def same_job_def)
    from Cons.IH [OF co1(2) this co1(4)] show ?thesis
      using False step kept_job_trans [OF co1(1)]
      by (simp add: b co1(3) map_add_assoc [symmetric]) (auto simp: fun_upd_def elim!: ensures_mono)
  qed
qed (simp add: values_ok_def)

lemma process_values_ok:
  "written_ok h recs co disk \<Longrightarrow> values_ok (co_settings co) h bound vals \<Longrightarrow> snd (new_view h recs co) \<le> bound \<Longrightarrow>
   ensures (process_values env vals co disk) (\<lambda>(ok, co', disk'). same_job co co' \<and> only_compact co disk disk' \<and>
     co_posted co' = co_posted co \<and>
     (ok \<longrightarrow> kept_job co co' \<and> (\<exists>recs'. written_ok h recs' co' disk' \<and> snd (new_view h recs' co') \<le> bound \<and>
       fst (new_view h recs' co') = map_of vals ++ fst (new_view h recs co))))"
proof (induction env vals co disk arbitrary: recs rule: process_values.induct)
  case (1 env vals co disk)
  obtain co1 left where fill: "fillList vals co = Inr (co1, left)" and kept: "kept_job co co1"
    and co1: "written_ok h recs co1 disk" "values_ok (co_settings co1) h bound left" "snd (new_view h recs co1) \<le> bound"
    and map: "map_of left ++ fst (new_view h recs co1) = map_of vals ++ fst (new_view h recs co)"
    and full: "left \<noteq> [] \<longrightarrow> co_list co1 \<noteq> []"
    using fillList_ok [OF "1.prems"] by (auto elim!: ensuresE)
  show ?case
  proof (cases "left = []")
    case True
    then show ?thesis
      using fill kept co1 map by (auto simp: process_values.simps [of env vals co] kept_job_def)
  next
    case False
    obtain ok co2 disk2 where store: "writeMultiStore env co1 disk = Inr (ok, co2, disk2)"
      and frame: "same_job co1 co2" "only_compact co1 disk disk2" "co_posted co2 = co_posted co1"
      and good: "ok \<longrightarrow> (\<exists>recs'. written_ok h recs' co2 disk2 \<and> co_list co2 = [] \<and>
        new_view h recs' co2 = new_view h recs co1 \<and> co_wrapper co2 = co_wrapper co1 \<and> co_binlog co2 = co_binlog co1)"
      using writeMultiStore_ok [OF co1(1), of env] by (auto elim!: ensuresE)
    have frame2: "same_job co co2" "only_compact co disk disk2" "co_posted co2 = co_posted co"
      using kept frame same_job_paths [of co co1] by (auto simp: kept_job_def only_compact_def intro: same_job_trans)
    have eq: "process_values env vals co disk = (if ok then process_values env left co2 disk2 else Inr (False, co2, disk2))"
      using fill False full store by (simp add: process_values.simps [of env vals co])
    show ?thesis
    proof (cases ok)
      case False
      then show ?thesis
        using frame2 by (simp add: eq)
    next
      case True
      then obtain recs' where recs': "written_ok h recs' co2 disk2" "new_view h recs' co2 = new_view h recs co1"
        "co_wrapper co2 = co_wrapper co1" "co_binlog co2 = co_binlog co1"
        using good by blast
      have kept2: "kept_job co co2"
        using kept frame2 recs' by (simp add: kept_job_def)
      have "values_ok (co_settings co2) h bound left" "snd (new_view h recs' co2) \<le> bound"
        using co1 frame(1) recs'(2) by (simp_all add: same_job_def)
      moreover have "\<not> (length left = length vals \<and> co_list co1 = [])"
        using full False by simp
      ultimately have "ensures (process_values env left co2 disk2) (\<lambda>(ok, co', disk'). same_job co2 co' \<and>
          only_compact co2 disk2 disk' \<and> co_posted co' = co_posted co2 \<and>
          (ok \<longrightarrow> kept_job co2 co' \<and> (\<exists>recs''. written_ok h recs'' co' disk' \<and> snd (new_view h recs'' co') \<le> bound \<and>
            fst (new_view h recs'' co') = map_of left ++ fst (new_view h recs' co2))))"
        using "1.IH" [OF fill refl False _ store refl refl True recs'(1)] by simp
      then show ?thesis
        unfolding eq using True frame2 map recs'(2) kept_job_trans [OF kept2] same_job_trans [OF frame2(1)]
          only_compact_trans [OF frame2(2) _ frame2(1)]
        by (auto elim!: ensures_mono)
    qed
  qed
qed

section \<open>Reading the old log\<close>

lemma push_keys_eq: "push_keys r s = Inr (True, s @ record_keys r)"
  by (cases r) (simp_all add: push_keys_def)

lemma kinds_handle_push:
  "kinds_handle_record kinds with_time type xs push_keys s = Inr (ok, s1) \<Longrightarrow>
   ok \<and> (\<exists>ks. s1 = s @ ks \<and> (\<forall>s. kinds_handle_record kinds with_time type xs push_keys s = Inr (True, s @ ks)))"
proof (induction kinds)
  case (Cons kind kinds)
  show ?case
  proof (cases "type = rk_type kind")
    case True
    then have "kinds_handle_record (kind # kinds) with_time type xs push_keys s = Inr (ok, s1) \<Longrightarrow>
        ok \<and> s1 = s @ record_keys (decode_record with_time kind xs) \<and>
        (\<forall>s. kinds_handle_record (kind # kinds) with_time type xs push_keys s =
          Inr (True, s @ record_keys (decode_record with_time kind xs)))"
      by (auto simp: push_keys_eq asserts_def split: option.splits if_splits)
    then show ?thesis
      using Cons.prems by blast
  next
    case False
    then show ?thesis
      using Cons by simp
  qed
qed simp

lemma handle_push:
  assumes "handle_record kinds with_time xs push_keys s = Inr (ok, s1)"
  obtains ks where "ok" "s1 = s @ ks" "\<And>s. handle_record kinds with_time xs push_keys s = Inr (True, s @ ks)"
proof -
  have "xs \<noteq> []" and run: "kinds_handle_record kinds with_time (hd xs) xs push_keys s = Inr (ok, s1)"
    using assms by (simp_all add: handle_record_def expects_def split: if_splits)
  from kinds_handle_push [OF run] \<open>xs \<noteq> []\<close> show thesis
    by (auto simp: handle_record_def intro: that)
qed

text \<open>The keys that are found do not depend on those found before.\<close>

lemma parse_push:
  "parse_log kinds with_time st push_keys xs s = Inr (rest, failed, s1) \<Longrightarrow>
   \<exists>ks. s1 = s @ ks \<and> (\<forall>s. parse_log kinds with_time st push_keys xs s = Inr (rest, failed, s @ ks))"
proof (induction "length xs" arbitrary: xs s rule: less_induct)
  case less
  define size where "size = ReadRecordSize kinds st xs"
  have eq: "parse_log kinds with_time st push_keys xs s =
     (if size = kRecordSizeUnknown \<or> size > int (length xs) then Inr (xs, False, s)
      else if size \<le> 0 then Inr (xs, True, s)
      else bind_outcome (handle_record kinds with_time (take (nat size) xs) push_keys s) (\<lambda>(ok, s1).
        if ok then parse_log kinds with_time st push_keys (drop (nat size) xs) s1
        else Inr (xs, True, s1)))" for s
    unfolding size_def by (subst parse_log.simps) (simp only: Let_def)
  show ?case
  proof (cases "size = kRecordSizeUnknown \<or> size > int (length xs) \<or> size \<le> 0")
    case True
    then show ?thesis
      using less.prems unfolding eq by (intro exI [of _ "[]"]) (auto split: if_splits)
  next
    case False
    then obtain ok s2 where head: "handle_record kinds with_time (take (nat size) xs) push_keys s = Inr (ok, s2)"
      using less.prems unfolding eq by (auto simp: bind_outcome_Inr_iff)
    obtain ks where ks: "ok" "s2 = s @ ks"
      "\<And>s. handle_record kinds with_time (take (nat size) xs) push_keys s = Inr (True, s @ ks)"
      using handle_push [OF head] by blast
    have tail: "parse_log kinds with_time st push_keys xs s = parse_log kinds with_time st push_keys (drop (nat size) xs) (s @ ks)" for s
      using False by (simp add: eq ks(3))
    have "length (drop (nat size) xs) < length xs"
      using False by (simp only: length_drop) linarith
    from less.hyps [OF this] less.prems obtain ks' where "s1 = (s @ ks) @ ks'"
      "\<forall>s. parse_log kinds with_time st push_keys (drop (nat size) xs) s = Inr (rest, failed, s @ ks')"
      unfolding tail by blast
    then show ?thesis
      by (intro exI [of _ "ks @ ks'"]) (simp add: tail)
  qed
qed

text \<open>The keys that are still to be found.\<close>

definition reading ::
    "cache_settings \<Rightarrow> nat \<Rightarrow> bytes \<Rightarrow> binlog_wrapper \<Rightarrow> nat \<Rightarrow> cache_key list \<Rightarrow> bool" where
  "reading st till xs w off ks \<longleftrightarrow>
     \<not> bw_finished w \<and> \<not> bw_failed w \<and> bw_till w = int till \<and>
     waiting (binlog_kinds (trackEstimatedTime st)) st (bw_part w) \<and>
     length (bw_part w) mod 16 = 0 \<and> length (bw_part w) \<le> off \<and> off \<le> till \<and> till \<le> length xs \<and> off mod 16 = 0 \<and>
     till mod 16 = 0 \<and>
     parse_log (binlog_kinds (trackEstimatedTime st)) (trackEstimatedTime st) st push_keys
       (bw_part w @ take (till - off) (drop off xs)) [] = Inr ([], False, ks)"

lemma reading_longer: "reading st till xs w off ks \<Longrightarrow> reading st till (xs @ ys) w off ks"
  by (simp add: reading_def)

lemma readBlock_ok:
  assumes "blocks_ok st" "0 \<le> maxBundledRecords st" "reading st till xs w off ks"
  shows "ensures (readBlock st w \<lparr> pf_data = xs, pf_offset = off \<rparr> res) (\<lambda>(more, w1, f1, res1).
    \<exists>off1 ks1. f1 = \<lparr> pf_data = xs, pf_offset = off1 \<rparr> \<and> reading st till xs w1 off1 ks1 \<and>
      res1 @ ks1 = res @ ks \<and> (\<not> more \<longrightarrow> ks1 = []))"
proof -
  let ?track = "trackEstimatedTime st" and ?f = "\<lparr> pf_data = xs, pf_offset = off \<rparr>"
  let ?kinds = "binlog_kinds ?track"
  note r = assms(3) [unfolded reading_def]
  have checks: "CheckSettings ?kinds st" "readBlockSize st mod 16 = 0"
    using assms(1) by (simp_all add: blocks_ok_def)
  have pos: "0 < readBlockSize st"
    using checks(1) by (auto simp: binlog_kinds_def store_size_def split: if_splits)
  note kinds = kinds_ok_binlog checks(1) assms(2) pos
  show ?thesis
  proof (cases "off = till")
    case True
    have "parse_log ?kinds ?track st push_keys (bw_part w) [] = Inr (bw_part w, False, [])"
      using r by (simp add: parse_log_waiting)
    then have empty: "bw_part w = []" "ks = []"
      using r True by simp_all
    have "readPart st w ?f = Inr (False, w, ?f)"
      using r True empty by (simp add: readPart_def wrapper_finish_def plain_seek_def)
    then have "readBlock st w ?f res = Inr (False, w, ?f, res)"
      using checks by (simp add: readBlock_def readTillEnd_def Let_def)
    then show ?thesis
      using assms(3) empty by auto
  next
    case False
    obtain n where n: "0 < n" "off + n \<le> till" "n mod 16 = 0"
      and part: "readPart st w ?f = Inr (True, w\<lparr> bw_part := bw_part w @ take n (drop off xs) \<rparr>,
         \<lparr> pf_data = xs, pf_offset = off + n \<rparr>)"
      by (rule readPart_reads [of w till ?f st]) (use r False checks waiting_small [OF kinds, of "bw_part w"] in simp_all)
    let ?w = "w\<lparr> bw_part := bw_part w @ take n (drop off xs) \<rparr>" and ?f1 = "\<lparr> pf_data = xs, pf_offset = off + n \<rparr>"
    let ?tail = "take (till - (off + n)) (drop (off + n) xs)"
    have whole: "bw_part w @ take (till - off) (drop off xs) = bw_part ?w @ ?tail"
    proof -
      have "take (n + (till - (off + n))) (drop off xs) = take n (drop off xs) @ take (till - (off + n)) (drop n (drop off xs))"
        by (rule take_add)
      then show ?thesis
        using n by (simp add: add.commute)
    qed
    have parsed: "parse_log ?kinds ?track st push_keys (bw_part ?w @ ?tail) res = Inr ([], False, res @ ks)"
      using parse_push [of ?kinds ?track st _ "[]" "[]" False ks] r unfolding whole by auto
    let ?run = "handle_records ?kinds ?track st push_keys ?w ?f1 res"
    have "block_result ?kinds ?track st push_keys xs ?tail (off + n)
        (parse_log ?kinds ?track st push_keys (bw_part ?w @ ?tail) res) ?run"
    proof -
      have "min (length xs - off) n = n"
        using n(2) r by (simp add: min_def) linarith
      then have "\<not> bw_finished ?w" "\<not> bw_failed ?w" "length (bw_part ?w) mod 16 = 0" "length (bw_part ?w) \<le> pf_offset ?f1"
        "pf_offset ?f1 \<le> length (pf_data ?f1)"
        using r n by (simp_all add: add_mod_16)
      from handle_records_parses [OF kinds this, of ?track push_keys ?tail res] show ?thesis
        by (simp only: plain_file.simps)
    qed
    then have block: "block_result ?kinds ?track st push_keys xs ?tail (off + n) (Inr ([], False, res @ ks)) ?run"
      unfolding parsed .
    then obtain fin w1 f1 res1 where run: "?run = Inr (fin, w1, f1, res1)"
      by (cases ?run) (auto simp: block_result_def)
    have good: "\<not> (fin \<or> bw_finished w1)" "pf_data f1 = xs" "\<not> bw_failed w1" "pf_offset f1 = off + n"
      "waiting ?kinds st (bw_part w1)" "length (bw_part w1) mod 16 = 0" "length (bw_part w1) \<le> off + n"
      "parse_log ?kinds ?track st push_keys (bw_part w1 @ ?tail) res1 = Inr ([], False, res @ ks)"
      using block run by (auto simp: block_result_def split: if_splits)
    obtain ks1 where ks1: "res @ ks = res1 @ ks1"
      "parse_log ?kinds ?track st push_keys (bw_part w1 @ ?tail) [] = Inr ([], False, ks1)"
      using parse_push [OF good(8)] by auto
    have "bw_till w1 = int till"
      using handle_records_frame [of ?kinds ?track st push_keys ?w ?f1 res w1 f1 res1] run good(1) r by simp
    then have "reading st till xs w1 (off + n) ks1"
      unfolding reading_def using r n good ks1(2) by (simp add: add_mod_16)
    moreover have "readBlock st w ?f res = Inr (True, w1, f1, res1)"
      using checks part run good(1) by (simp add: readBlock_def readTillEnd_def Let_def)
    moreover have "f1 = ?f1"
      using good(2,4) by (cases f1) simp
    ultimately show ?thesis
      using ks1(1) by auto
  qed
qed

lemma readChunk_ok:
  "blocks_ok st \<Longrightarrow> 0 \<le> maxBundledRecords st \<Longrightarrow> f = \<lparr> pf_data = xs, pf_offset = off \<rparr> \<Longrightarrow> reading st till xs w off ks \<Longrightarrow>
   ensures (readChunk st w f res) (\<lambda>(w1, f1, res1). \<exists>off1 ks1. f1 = \<lparr> pf_data = xs, pf_offset = off1 \<rparr> \<and>
      reading st till xs w1 off1 ks1 \<and> res1 @ ks1 = res @ ks \<and> (int (length res1) < compactChunkSize st \<longrightarrow> ks1 = []))"
proof (induction st w f res arbitrary: off ks rule: readChunk.induct)
  case (1 st w f res)
  show ?case
  proof (cases "int (length res) < compactChunkSize st")
    case False
    then have "readChunk st w f res = Inr (w, f, res)"
      by (subst readChunk.simps) simp
    then show ?thesis
      using "1.prems"(3,4) False by auto
  next
    case True
    obtain more w1 off1 res1 ks1 where block: "readBlock st w f res = Inr (more, w1, \<lparr> pf_data = xs, pf_offset = off1 \<rparr>, res1)"
      and next_block: "reading st till xs w1 off1 ks1" "res1 @ ks1 = res @ ks" "\<not> more \<longrightarrow> ks1 = []"
      using readBlock_ok [OF "1.prems"(1,2,4), of res] unfolding "1.prems"(3) by (auto elim!: ensuresE)
    have eq: "readChunk st w f res = (if more then readChunk st w1 \<lparr> pf_data = xs, pf_offset = off1 \<rparr> res1
        else Inr (w1, \<lparr> pf_data = xs, pf_offset = off1 \<rparr>, res1))"
      using True block by (simp add: readChunk.simps [of st w f res])
    show ?thesis
    proof (cases more)
      case True
      note again = "1.IH" [OF \<open>int (length res) < compactChunkSize st\<close> block refl refl refl True "1.prems"(1,2) refl next_block(1)]
      show ?thesis
        unfolding eq using True by (simp, intro ensures_mono [OF again]) (use next_block(2) in auto)
    next
      case False
      then show ?thesis
        using next_block by (simp add: eq)
    qed
  qed
qed

section \<open>The tasks of the compactor\<close>

text \<open>
  The log consists of the header \<open>h\<close>, the records \<open>old\<close> that are compacted and \<open>S\<close>, which have come
  since. \<open>D\<close> are the entries of the cache.
\<close>

definition log_of :: "log_header \<Rightarrow> log_record list \<Rightarrow> bytes" where
  "log_of h recs = header_bytes h @ log_bytes recs"

definition says :: "log_header \<Rightarrow> log_record list \<Rightarrow> log_view" where
  "says h recs = fold replay recs (Map.empty, ucast (hdr_time h))"

definition settings_ok :: "cache_settings \<Rightarrow> bool" where
  "settings_ok st \<longleftrightarrow> blocks_ok st \<and> 0 < maxBundledRecords st \<and> maxBundledRecords st < kBundledRecordsLimit \<and>
     0 < compactChunkSize st \<and> maxDataSize st < kDataSizeLimit"

text \<open>\<open>keys\<close> have been sent to the database, \<open>vals\<close> have been answered.\<close>

definition collects ::
    "log_header \<Rightarrow> log_record list \<Rightarrow> log_record list \<Rightarrow> (cache_key \<Rightarrow> cache_entry option) \<Rightarrow>
     cache_key list \<Rightarrow> (cache_key \<times> cache_entry) list \<Rightarrow> compactor \<Rightarrow> cache_disk \<Rightarrow> bool" where
  "collects h old S D keys vals co disk \<longleftrightarrow> (\<exists>recs off ks. written_ok h recs co disk \<and> co_binlog co = Some off \<and>
     reading (co_settings co) (length (log_of h old)) (log_of h (old @ S)) (co_wrapper co) off ks \<and>
     values_ok (co_settings co) h (snd (says h (old @ S))) vals \<and>
     agrees (co_settings co) (set keys \<union> set ks) D (says h old) S
       (map_of vals ++ fst (new_view h recs co), snd (new_view h recs co)))"

text \<open>The log has been copied up to a position.\<close>

definition copies ::
    "log_header \<Rightarrow> log_record list \<Rightarrow> log_record list \<Rightarrow> (cache_key \<Rightarrow> cache_entry option) \<Rightarrow> int \<Rightarrow> compactor \<Rightarrow>
     cache_disk \<Rightarrow> bool" where
  "copies h old S D pos co disk \<longleftrightarrow> (\<exists>recs S1 S2. S = S1 @ S2 \<and> disk (compactPath co) = Some (log_of h (recs @ S1)) \<and>
     list_all (record_valid (co_settings co)) recs \<and> pos = int (length (log_of h (old @ S1))) \<and>
     agrees (co_settings co) {} D (says h old) S (says h recs))"

definition job_ok ::
    "log_header \<Rightarrow> log_record list \<Rightarrow> log_record list \<Rightarrow> (cache_key \<Rightarrow> cache_entry option) \<Rightarrow> co_phase \<Rightarrow> compactor \<Rightarrow>
     cache_disk \<Rightarrow> bool" where
  "job_ok h old S D phase co disk \<longleftrightarrow> ci_till (co_info co) = int (length (log_of h old)) \<and>
     (case phase of
        Co_starts \<Rightarrow> co = CompactorObject (co_base co) (co_settings co) (co_info co)
      | Co_waits \<Rightarrow> (\<exists>keys. co_posted co = [Post_keys keys] \<and> collects h old S D keys [] co disk) \<or>
          (\<exists>till. co_posted co = [Post_done till] \<and> copies h old S D till co disk)
      | Co_values vals \<Rightarrow> co_posted co = [] \<and> collects h old S D [] vals co disk
      | Co_catches pos len \<Rightarrow> co_posted co = [] \<and> copies h old S D pos co disk)"

definition failing :: "compactor \<Rightarrow> bool" where
  "failing co \<longleftrightarrow> (\<exists>ms. co_posted co = Post_fail # ms)"

text \<open>A task reports a failure or goes on as it should.\<close>

definition task_ok ::
    "log_header \<Rightarrow> log_record list \<Rightarrow> log_record list \<Rightarrow> (cache_key \<Rightarrow> cache_entry option) \<Rightarrow> compactor \<Rightarrow> cache_disk \<Rightarrow>
     co_phase \<times> compactor \<times> cache_disk \<Rightarrow> bool" where
  "task_ok h old S D co disk r \<longleftrightarrow> (case r of (phase', co', disk') \<Rightarrow>
     same_job co co' \<and> only_compact co disk disk' \<and> (failing co' \<or> job_ok h old S D phase' co' disk'))"

lemma compactPath_same: "same_job co co' \<Longrightarrow> compactPath co' = compactPath co"
  using same_job_paths by blast

lemma failed_task:
  assumes "co_posted co' = []" "same_job co co'" "only_compact co disk disk'"
  shows "task_ok h old S D co disk (phase, co_fail env co' disk')"
  using assms compactPath_same [OF assms(2)]
  by (auto simp: task_ok_def co_fail_def co_post_def failing_def same_job_def only_compact_def)

lemma says_append: "says h (a @ b) = fold replay b (says h a)"
  by (simp add: says_def)

lemma new_view_says: "co_list co = [] \<Longrightarrow> new_view h recs co = says h recs"
  by (simp add: new_view_eq says_def)

lemma co_finish_ok:
  assumes w: "written_ok h recs co disk" and agree: "agrees (co_settings co) {} D (says h old) S (new_view h recs co)"
    and posted: "co_posted co = []" and till: "ci_till (co_info co) = int (length (log_of h old))"
  shows "ensures (co_finish env co disk) (task_ok h old S D co disk)"
proof -
  obtain ok co1 disk1 where store: "writeMultiStore env co disk = Inr (ok, co1, disk1)"
    and frame: "same_job co co1" "only_compact co disk disk1" "co_posted co1 = co_posted co"
    and good: "ok \<longrightarrow> (\<exists>recs'. written_ok h recs' co1 disk1 \<and> co_list co1 = [] \<and> new_view h recs' co1 = new_view h recs co)"
    using writeMultiStore_ok [OF w, of env] by (auto elim!: ensuresE)
  show ?thesis
  proof (cases ok)
    case False
    then show ?thesis
      using store frame posted by (simp add: co_finish_def failed_task)
  next
    case True
    then obtain recs' where recs': "written_ok h recs' co1 disk1" "co_list co1 = []" "new_view h recs' co1 = new_view h recs co"
      using good by blast
    let ?co = "co1\<lparr> co_binlog := None, co_compact := None \<rparr>"
    have "S = [] @ S" "disk1 (compactPath ?co) = Some (log_of h (recs' @ []))"
      using recs'(1) by (simp_all add: written_ok_def compact_holds_def log_of_def compactPath_def)
    moreover have "list_all (record_valid (co_settings ?co)) recs'" "ci_till (co_info ?co) = int (length (log_of h (old @ [])))"
      using recs'(1) frame(1) till by (simp_all add: written_ok_def same_job_def)
    moreover have "agrees (co_settings ?co) {} D (says h old) S (says h recs')"
      using agree recs'(3) new_view_says [OF recs'(2)] frame(1) by (simp add: same_job_def)
    ultimately have "copies h old S D (ci_till (co_info ?co)) ?co disk1"
      unfolding copies_def by blast
    then have "job_ok h old S D (Co_catches (ci_till (co_info co1)) 0) ?co disk1"
      using frame posted till by (simp add: job_ok_def same_job_def)
    then show ?thesis
      using store True frame by (simp add: co_finish_def task_ok_def same_job_def)
  qed
qed

lemma written_ok_frame [simp]:
  "written_ok h recs (co\<lparr> co_wrapper := x0 \<rparr>) disk = written_ok h recs co disk"
  "written_ok h recs (co\<lparr> co_binlog := x1 \<rparr>) disk = written_ok h recs co disk"
  "written_ok h recs (co\<lparr> co_posted := x2 \<rparr>) disk = written_ok h recs co disk"
  "new_view h recs (co\<lparr> co_wrapper := x0 \<rparr>) = new_view h recs co"
  "new_view h recs (co\<lparr> co_binlog := x1 \<rparr>) = new_view h recs co"
  "new_view h recs (co\<lparr> co_posted := x2 \<rparr>) = new_view h recs co"
  by (simp_all add: written_ok_def new_view_def)

lemma parseChunk_ok:
  assumes c: "collects h old S D [] [] co disk" and posted: "co_posted co = []"
    and till: "ci_till (co_info co) = int (length (log_of h old))"
    and log: "disk (co_binlogPath co) = Some (log_of h (old @ S))" and st: "settings_ok (co_settings co)"
  shows "ensures (parseChunk env co disk) (task_ok h old S D co disk)"
proof -
  let ?xs = "log_of h (old @ S)" and ?st = "co_settings co"
  obtain recs off ks where w: "written_ok h recs co disk" and off: "co_binlog co = Some off"
    and r: "reading ?st (length (log_of h old)) ?xs (co_wrapper co) off ks"
    and agree: "agrees ?st (set ks) D (says h old) S (new_view h recs co)"
    using c unfolding collects_def by auto
  have old_log: "co_file co disk = \<lparr> pf_data = ?xs, pf_offset = off \<rparr>"
    using off log by (simp add: co_file_def disk_file_def)
  have "blocks_ok ?st" "0 \<le> maxBundledRecords ?st"
    using st by (simp_all add: settings_ok_def)
  from readChunk_ok [OF this old_log r, of "[]"]
  obtain w1 off1 keys ks1 where chunk: "readChunk ?st (co_wrapper co) (co_file co disk) [] =
      Inr (w1, \<lparr> pf_data = ?xs, pf_offset = off1 \<rparr>, keys)"
    and r1: "reading ?st (length (log_of h old)) ?xs w1 off1 ks1" and split: "keys @ ks1 = ks"
    and short: "int (length keys) < compactChunkSize ?st \<longrightarrow> ks1 = []"
    by (auto elim!: ensuresE)
  let ?co = "co\<lparr> co_wrapper := w1, co_binlog := Some off1 \<rparr>"
  have read: "co_file_read \<lparr> pf_data = ?xs, pf_offset = off1 \<rparr> (co\<lparr> co_wrapper := w1 \<rparr>) = ?co"
    using off by (simp add: co_file_read_def)
  have ok: "\<not> bw_failed w1"
    using r1 by (simp add: reading_def)
  have eq: "parseChunk env co disk = (if keys = [] then co_finish env ?co disk
      else Inr (Co_waits, co_post (Post_keys keys) ?co, disk))"
    by (simp add: parseChunk_def chunk read ok Let_def)
  have collect: "collects h old S D keys [] (?co\<lparr> co_posted := x \<rparr>) disk" for x
    unfolding collects_def
  proof (intro exI conjI)
    show "written_ok h recs (?co\<lparr> co_posted := x \<rparr>) disk"
      using w by simp
    show "reading (co_settings (?co\<lparr> co_posted := x \<rparr>)) (length (log_of h old)) ?xs (co_wrapper (?co\<lparr> co_posted := x \<rparr>)) off1 ks1"
      using r1 by simp
    have "set keys \<union> set ks1 = set ks"
      using split by auto
    then show "agrees (co_settings (?co\<lparr> co_posted := x \<rparr>)) (set keys \<union> set ks1) D (says h old) S
        (map_of [] ++ fst (new_view h recs (?co\<lparr> co_posted := x \<rparr>)), snd (new_view h recs (?co\<lparr> co_posted := x \<rparr>)))"
      using agree by simp
  qed (simp_all add: values_ok_def)
  show ?thesis
  proof (cases "keys = []")
    case True
    then have "ks1 = []"
      using short st by (simp add: settings_ok_def)
    then have "agrees ?st {} D (says h old) S (new_view h recs ?co)"
      using agree split True by simp
    then have "ensures (co_finish env ?co disk) (task_ok h old S D ?co disk)"
      using co_finish_ok [of h recs ?co] w posted till by simp
    moreover have "task_ok h old S D ?co disk = task_ok h old S D co disk"
      by (rule ext) (simp add: task_ok_def same_job_def only_compact_def compactPath_def split: prod.split)
    ultimately show ?thesis
      using True by (simp add: eq)
  next
    case False
    then show ?thesis
      using collect posted till by (simp add: eq co_post_def task_ok_def job_ok_def same_job_def)
  qed
qed

lemma agrees_clock:
  assumes "agrees st P D v0 S (c, t)" "list_all (record_valid st) S" "same_clock st t' (snd v0)" "t' \<le> snd (fold replay S v0)"
  shows "agrees st P D v0 S (c, t')"
proof -
  have "same_clock st t' t"
    using assms(1,3) by (auto simp: agrees_def same_clock_def)
  then have "fst (fold replay S (c, t')) k = fst (fold replay S (c, t)) k" for k
    using fold_replay_key [OF assms(2), of "(c, t')" "(c, t)" k] by simp
  then show ?thesis
    using assms(1,3,4) by (simp add: agrees_def)
qed

lemma binlogPath_not_compact: "co_binlogPath co \<noteq> compactPath co"
  using CompactFilename_not_log by (simp add: co_binlogPath_def compactPath_def)

lemma says_untracked:
  "list_all (record_valid st) recs \<Longrightarrow> \<not> trackEstimatedTime st \<Longrightarrow> snd (says h recs) = ucast (hdr_time h)"
  by (simp add: says_def fold_replay_untracked)

lemma task_ok_trans:
  assumes "same_job co co1" "only_compact co disk disk1" "task_ok h old S D co1 disk1 r"
  shows "task_ok h old S D co disk r"
  using assms same_job_trans [OF assms(1)] only_compact_trans [OF assms(2) _ assms(1)]
  by (auto simp: task_ok_def split: prod.splits)

lemma processValues_ok:
  assumes c: "collects h old S D [] vals co disk" and posted: "co_posted co = []"
    and till: "ci_till (co_info co) = int (length (log_of h old))"
    and log: "disk (co_binlogPath co) = Some (log_of h (old @ S))" and st: "settings_ok (co_settings co)"
    and valid: "list_all (record_valid (co_settings co)) (old @ S)"
  shows "ensures (processValues env vals co disk) (task_ok h old S D co disk)"
proof -
  let ?st = "co_settings co" and ?bound = "snd (says h (old @ S))"
  obtain recs off ks where w: "written_ok h recs co disk" and off: "co_binlog co = Some off"
    and r: "reading ?st (length (log_of h old)) (log_of h (old @ S)) (co_wrapper co) off ks"
    and vals: "values_ok ?st h ?bound vals"
    and agree: "agrees ?st (set ks) D (says h old) S (map_of vals ++ fst (new_view h recs co), snd (new_view h recs co))"
    using c unfolding collects_def by auto
  have "snd (new_view h recs co) \<le> ?bound"
    using agree by (simp add: agrees_def says_append)
  from process_values_ok [OF w vals this, of env]
  obtain ok co1 disk1 where run: "process_values env vals co disk = Inr (ok, co1, disk1)"
    and frame: "same_job co co1" "only_compact co disk disk1" "co_posted co1 = co_posted co"
    and good: "ok \<longrightarrow> kept_job co co1 \<and> (\<exists>recs'. written_ok h recs' co1 disk1 \<and> snd (new_view h recs' co1) \<le> ?bound \<and>
       fst (new_view h recs' co1) = map_of vals ++ fst (new_view h recs co))"
    by (auto elim!: ensuresE)
  show ?thesis
  proof (cases ok)
    case False
    then show ?thesis
      using run frame posted by (simp add: processValues_def failed_task)
  next
    case True
    then obtain recs' where recs': "written_ok h recs' co1 disk1" "snd (new_view h recs' co1) \<le> ?bound"
      "fst (new_view h recs' co1) = map_of vals ++ fst (new_view h recs co)" and kept: "kept_job co co1"
      using good by blast
    have same: "co_settings co1 = ?st" "co_wrapper co1 = co_wrapper co" "co_binlog co1 = Some off" "co_info co1 = co_info co"
      using kept off by (simp_all add: kept_job_def same_job_def)
    have "same_clock ?st (snd (new_view h recs' co1)) (snd (says h old))"
      using new_view_untracked [OF recs'(1)] says_untracked [of ?st old h] valid same(1)
      by (cases "trackEstimatedTime ?st") (simp_all add: same_clock_def)
    moreover have "list_all (record_valid ?st) S" "snd (new_view h recs' co1) \<le> snd (fold replay S (says h old))"
      using valid recs'(2) by (simp_all add: says_append)
    ultimately have "agrees ?st (set ks) D (says h old) S (fst (new_view h recs' co1), snd (new_view h recs' co1))"
      unfolding recs'(3) by (intro agrees_clock [OF agree])
    then have "agrees ?st (set ks) D (says h old) S (new_view h recs' co1)"
      by simp
    then have "collects h old S D [] [] co1 disk1"
      unfolding collects_def using recs'(1) r same by (auto simp: values_ok_def)
    moreover have "disk1 (co_binlogPath co1) = Some (log_of h (old @ S))"
      using log frame same_job_paths [OF frame(1)] binlogPath_not_compact [of co] by (simp add: only_compact_def)
    ultimately have "ensures (parseChunk env co1 disk1) (task_ok h old S D co1 disk1)"
      using parseChunk_ok [of h old S D co1 disk1 env] posted till st frame(3) same by simp
    then show ?thesis
      using run True by (auto simp: processValues_def intro: task_ok_trans [OF frame(1,2)] elim!: ensures_mono)
  qed
qed

lemma log_of_append: "log_of h (a @ b) = log_of h a @ log_bytes b"
  by (simp add: log_of_def)

lemma finalize_round_ok:
  assumes c: "copies h old S D pos co disk" and posted: "co_posted co = []"
    and till: "ci_till (co_info co) = int (length (log_of h old))"
    and log: "disk (co_binlogPath co) = Some (log_of h (old @ S))" and st: "settings_ok (co_settings co)"
    and valid: "list_all (record_valid (co_settings co)) (old @ S)"
  shows "ensures (finalize_round env pos len co disk) (task_ok h old S D co disk)"
proof -
  let ?st = "co_settings co" and ?xs = "log_of h (old @ S)"
  obtain recs S1 S2 where S: "S = S1 @ S2" and new: "disk (compactPath co) = Some (log_of h (recs @ S1))"
    and recs: "list_all (record_valid ?st) recs" and pos: "pos = int (length (log_of h (old @ S1)))"
    and agree: "agrees ?st {} D (says h old) S (says h recs)"
    using c unfolding copies_def by blast
  have block: "0 < readBlockSize ?st" "readBlockSize ?st mod 16 = 0"
    using st by (auto simp: settings_ok_def blocks_ok_def binlog_kinds_def store_size_def split: if_splits)
  have xs: "?xs = log_of h (old @ S1) @ log_bytes S2"
    by (simp add: log_of_def S)
  then have tail: "drop (nat pos) ?xs = log_bytes S2" "int (length ?xs) - pos = int (length (log_bytes S2))"
    "0 \<le> pos" "pos \<le> int (length ?xs)"
    by (simp_all add: pos)
  have "int (length (log_bytes S2)) mod 16 = 0"
    using log_bytes_blocks [of ?st S2] valid S by (simp add: int_mod_16)
  then obtain reached disk1 where run: "CatchUp env (compactPath co) (co_binlogPath co) pos (readBlockSize ?st) disk = Inr (reached, disk1)"
    and only: "\<forall>p. p \<noteq> compactPath co \<longrightarrow> disk1 p = disk p"
    and good: "reached = 0 \<or> reached = int (length ?xs) \<and> disk1 (compactPath co) = Some (log_of h (recs @ S1) @ log_bytes S2)"
    using CatchUp_ok [OF block log new, of pos env] binlogPath_not_compact [of co] tail by (auto elim!: ensuresE)
  have frame: "only_compact co disk disk1"
    using only by (simp add: only_compact_def)
  show ?thesis
  proof (cases "reached = 0")
    case True
    then show ?thesis
      using run failed_task [OF posted same_job_refl frame] by (simp add: finalize_round_def)
  next
    case False
    then have "disk1 (compactPath co) = Some (log_of h (recs @ (S1 @ S2)))" "reached = int (length (log_of h (old @ (S1 @ S2))))"
      using good by (simp_all add: log_of_def S)
    then have copied: "copies h old S D reached (co\<lparr> co_posted := x \<rparr>) disk1" for x
      unfolding copies_def using recs agree S by (intro exI [of _ recs] exI [of _ S] exI [of _ "[]"]) (simp add: compactPath_def)
    have "job_ok h old S D Co_waits (co_post (Post_done reached) co) disk1"
      using copied posted till by (simp add: job_ok_def co_post_def)
    moreover have "job_ok h old S D (Co_catches reached n) co disk1" for n
    proof -
      have "copies h old S D reached co disk1"
        using copied [of "co_posted co"] by simp
      then show ?thesis
        using posted till by (simp add: job_ok_def)
    qed
    ultimately show ?thesis
      using run False frame by (auto simp: finalize_round_def task_ok_def co_post_def same_job_def)
  qed
qed

section \<open>The start of the compactor\<close>

definition fresh_wrapper :: "nat \<Rightarrow> binlog_wrapper" where
  "fresh_wrapper till = \<lparr> bw_till = int till, bw_part = [], bw_finished = False, bw_failed = False \<rparr>"

lemma handle_all_push: "handle_all push_keys recs s = Inr (True, s @ stored_keys recs)"
  by (induction recs arbitrary: s) (simp_all add: push_keys_eq)

lemma length_log_of: "length (log_of h recs) = 16 + length (log_bytes recs)"
  by (simp add: log_of_def)

lemma log_of_blocks: "list_all (record_valid st) recs \<Longrightarrow> length (log_of h recs) mod 16 = 0"
  by (simp add: length_log_of log_bytes_blocks mod_add_self1)

lemma fresh_reading:
  assumes "settings_ok st" "list_all (record_valid st) (old @ S)"
  shows "reading st (length (log_of h old)) (log_of h (old @ S)) (fresh_wrapper (length (log_of h old))) 16 (stored_keys old)"
proof -
  have "list_all (record_ok (trackEstimatedTime st) st) old"
    using assms(2) by (auto simp: list_all_iff record_valid_def)
  moreover have "0 \<le> maxBundledRecords st"
    using assms(1) by (simp add: settings_ok_def)
  ultimately have "parse_log (binlog_kinds (trackEstimatedTime st)) (trackEstimatedTime st) st push_keys
      (concat (map record_bytes old) @ []) [] =
    parse_log (binlog_kinds (trackEstimatedTime st)) (trackEstimatedTime st) st push_keys [] ([] @ stored_keys old)"
    by (intro parse_log_records handle_all_push)
  then have "parse_log (binlog_kinds (trackEstimatedTime st)) (trackEstimatedTime st) st push_keys (log_bytes old) [] =
      Inr ([], False, stored_keys old)"
    by (simp only: append_Nil append_Nil2 parse_log_Nil log_bytes_def)
  moreover have "take (length (log_of h old) - 16) (drop 16 (log_of h (old @ S))) = log_bytes old"
    by (simp add: log_of_def)
  moreover have "length (log_of h old) mod 16 = 0"
    using log_of_blocks [of st old h] assms(2) by simp
  ultimately show ?thesis
    by (simp add: reading_def fresh_wrapper_def length_log_of)
qed

text \<open>Nothing is read from a file that could not be opened.\<close>

lemma readChunk_closed:
  assumes "settings_ok st" "0 < till" "till mod 16 = 0"
  shows "ensures (readChunk st (fresh_wrapper till) \<lparr> pf_data = [], pf_offset = 0 \<rparr> []) (\<lambda>(w, f, keys). keys = [])"
proof -
  let ?f = "\<lparr> pf_data = [], pf_offset = 0 \<rparr> :: plain_file"
  have st: "CheckSettings (binlog_kinds (trackEstimatedTime st)) st" "readBlockSize st mod 16 = 0" "0 < compactChunkSize st"
    using assms(1) by (simp_all add: settings_ok_def blocks_ok_def)
  then have "0 < readBlockSize st"
    by (auto simp: binlog_kinds_def store_size_def split: if_splits)
  then have "0 < min (int till) (readBlockSize st)" "min (int till) (readBlockSize st) mod 16 = 0"
    using assms(2) int_mod_16 [OF assms(3)] st(2) by (simp_all add: min_def)
  then have "readPart st (fresh_wrapper till) ?f = Inr (False, fresh_wrapper till, ?f)"
    using assms(2) by (simp add: readPart_def fresh_wrapper_def plain_read_def wrapper_finish_def plain_seek_def Let_def)
  then have "readBlock st (fresh_wrapper till) ?f [] = Inr (False, fresh_wrapper till, ?f, [])"
    using st(1) by (simp add: readBlock_def readTillEnd_def Let_def)
  then show ?thesis
    using st(3) by (simp add: readChunk.simps [of st "fresh_wrapper till"])
qed

text \<open>A compactor that has reported a failure stays so, whatever it still does.\<close>

lemma failing_goes_on:
  assumes "failing co" "co_list co = []" "ensures (readChunk (co_settings co) (co_wrapper co) (co_file co disk) []) P"
  shows "ensures (parseChunk env co disk) (task_ok h old S D co disk)"
proof -
  obtain w f keys where run: "readChunk (co_settings co) (co_wrapper co) (co_file co disk) [] = Inr (w, f, keys)"
    using assms(3) by (auto elim!: ensuresE)
  obtain ms where "co_posted co = Post_fail # ms"
    using assms(1) by (auto simp: failing_def)
  then show ?thesis
    using run assms(2)
    by (auto simp: parseChunk_def co_finish_def writeMultiStore_def co_file_read_def co_fail_def co_post_def task_ok_def
        failing_def same_job_def only_compact_def compactPath_def Let_def)
qed

lemma co_start_ok:
  assumes co: "co = CompactorObject (co_base co) (co_settings co) (co_info co)"
    and till: "ci_till (co_info co) = int (length (log_of h old))"
    and log: "disk (co_binlogPath co) = Some (log_of h (old @ S))" and st: "settings_ok (co_settings co)"
    and header: "header_for (co_settings co) h"
    and valid: "list_all (record_valid (co_settings co)) (old @ S)"
  shows "ensures (co_start env co disk) (task_ok h old S D co disk)"
proof -
  let ?st = "co_settings co" and ?till = "length (log_of h old)" and ?xs = "log_of h (old @ S)"
  let ?co1 = "co\<lparr> co_binlog := Some 16, co_header := h \<rparr>" and ?disk = "disk(compactPath co \<mapsto> [])"
  have fields: "co_posted co = []" "co_list co = []" "co_wrapper co = fresh_wrapper ?till" "co_written co = []"
    "co_part_size co = maxBundledRecords ?st"
    using arg_cong [OF co, of co_posted] arg_cong [OF co, of co_list] arg_cong [OF co, of co_wrapper]
      arg_cong [OF co, of co_written] arg_cong [OF co, of co_part_size] till
    by (simp_all add: CompactorObject_def BinlogWrapper_def fresh_wrapper_def length_log_of)
  have chunk: "0 < compactChunkSize ?st"
    using st by (simp add: settings_ok_def)
  have failed: "ensures (parseChunk env (fst (co_fail env c d)\<lparr> co_list := [] \<rparr>) (snd (co_fail env c d))) (task_ok h old S D co disk)"
    if "same_job co c" "only_compact co disk d" "co_posted c = []"
      "ensures (readChunk ?st (co_wrapper c) (co_file c (snd (co_fail env c d))) []) P" for c d P
  proof -
    let ?c = "fst (co_fail env c d)\<lparr> co_list := [] \<rparr>" and ?d = "snd (co_fail env c d)"
    have "failing ?c" "co_list ?c = []" "same_job co ?c" "only_compact co disk ?d" "co_wrapper ?c = co_wrapper c"
      "co_settings ?c = ?st" "co_file ?c ?d = co_file c ?d"
      using that(1-3) compactPath_same [OF that(1)]
      by (auto simp: co_fail_def co_post_def failing_def same_job_def only_compact_def co_file_def co_binlogPath_def split: option.split)
    then show ?thesis
      using failing_goes_on [of ?c ?d P env h old S D] that(4) task_ok_trans [of co ?c disk ?d]
      by (auto elim!: ensures_mono)
  qed
  have reads: "ensures (readChunk ?st (fresh_wrapper ?till) \<lparr> pf_data = ?xs, pf_offset = 16 \<rparr> []) (\<lambda>_. True)"
  proof -
    have "blocks_ok ?st" "0 \<le> maxBundledRecords ?st"
      using st by (simp_all add: settings_ok_def)
    from readChunk_ok [OF this refl fresh_reading [OF st valid, of h], of "[]"] show ?thesis
      by (rule ensures_mono) simp
  qed
  show ?thesis
  proof (cases "ce_open env (co_binlogPath co) Mode_Read \<noteq> Result_Success")
    case True
    let ?co = "co\<lparr> co_binlog := None \<rparr>"
    have "co_start env co disk =
        parseChunk env (fst (co_fail env ?co disk)\<lparr> co_list := [] \<rparr>) (snd (co_fail env ?co disk))"
      using chunk log True by (simp add: co_start_def co_openBinlog_def split_def Let_def)
    moreover have "ensures (readChunk ?st (co_wrapper ?co) (co_file ?co (snd (co_fail env ?co disk))) []) (\<lambda>(w, f, keys). keys = [])"
      using readChunk_closed [OF st, of ?till] log_of_blocks [of ?st old h] valid by (simp add: fields co_file_def length_log_of)
    ultimately show ?thesis
      using failed [of ?co disk] fields(1) by (simp add: same_job_def)
  next
    case False
    have opened: "co_openBinlog env co disk = (True, co\<lparr> co_binlog := Some 0 \<rparr>)"
      using log False till by (simp add: co_openBinlog_def log_of_def)
    have "co_file (co\<lparr> co_binlog := Some 0 \<rparr>) disk = \<lparr> pf_data = header_bytes h @ log_bytes (old @ S), pf_offset = 0 \<rparr>"
      using log by (simp add: co_file_def disk_file_def co_binlogPath_def log_of_def)
    then have read: "co_readHeader (co\<lparr> co_binlog := Some 0 \<rparr>) disk = (True, ?co1)"
      using ReadHeader_ok [OF header] by (simp add: co_readHeader_def co_file_read_def)
    have start: "co_start env co disk = (case openCompact env ?co1 disk of (ok, co3, disk3) \<Rightarrow>
        if ok then parseChunk env (co3\<lparr> co_list := [] \<rparr>) disk3
        else parseChunk env (fst (co_fail env co3 disk3)\<lparr> co_list := [] \<rparr>) (snd (co_fail env co3 disk3)))"
      using chunk by (simp add: co_start_def opened read split_def Let_def)
    have log_file: "co_file (?co1\<lparr> co_compact := x \<rparr>) d = \<lparr> pf_data = ?xs, pf_offset = 16 \<rparr>"
      if "only_compact co disk d" for x d
      using log that binlogPath_not_compact [of co]
      by (simp add: co_file_def disk_file_def co_binlogPath_def only_compact_def)
    have bad: "ensures (parseChunk env (fst (co_fail env c d)\<lparr> co_list := [] \<rparr>) (snd (co_fail env c d))) (task_ok h old S D co disk)"
      if "c = ?co1\<lparr> co_compact := x \<rparr>" "only_compact co disk d" for c x d
    proof -
      have "only_compact co disk (snd (co_fail env c d))"
        using that by (simp add: co_fail_def only_compact_def compactPath_def)
      then have "ensures (readChunk ?st (co_wrapper c) (co_file c (snd (co_fail env c d))) []) (\<lambda>_. True)"
        using reads that(1) fields(3) by (simp add: log_file)
      then show ?thesis
        using failed [of c d] that fields(1) by (simp add: same_job_def)
    qed
    show ?thesis
    proof (cases "ce_open env (compactPath co) Mode_Write = Result_Success \<and> ce_write_log env (header_bytes h)")
      case False
      then have "openCompact env ?co1 disk = (False, ?co1\<lparr> co_compact := None \<rparr>, disk) \<or>
          openCompact env ?co1 disk = (False, ?co1\<lparr> co_compact := Some 0 \<rparr>, ?disk)"
        by (simp add: openCompact_def co_write_def compactPath_def)
      moreover have "only_compact co disk disk" "only_compact co disk ?disk"
        by (simp_all add: only_compact_def)
      ultimately obtain x d where "openCompact env ?co1 disk = (False, ?co1\<lparr> co_compact := x \<rparr>, d)" "only_compact co disk d"
        by blast
      then show ?thesis
        using bad by (simp add: start)
    next
      case True
      let ?co2 = "?co1\<lparr> co_compact := Some 16, co_list := [] \<rparr>" and ?d = "disk(compactPath co \<mapsto> header_bytes h)"
      have run: "openCompact env ?co1 disk = (True, ?co1\<lparr> co_compact := Some 16 \<rparr>, ?d)"
        using True by (simp add: openCompact_def co_write_def compactPath_def disk_file_def plain_write_def overwrite_def Let_def)
      have list: "new_view h [] ?co2 = (Map.empty, ucast (hdr_time h))"
        by (simp add: new_view_eq)
      have w: "written_ok h [] ?co2 ?d"
        using st fields by (simp add: written_ok_def compact_holds_def compactPath_def list settings_ok_def)
      have "same_clock ?st (ucast (hdr_time h)) (snd (says h old))"
        using says_untracked [of ?st old h] valid by (cases "trackEstimatedTime ?st") (simp_all add: same_clock_def)
      then have "agrees ?st (set (stored_keys old)) D (says h old) S (Map.empty, ucast (hdr_time h))"
        using agrees_start [of ?st S old D "ucast (hdr_time h)"] valid by (simp add: says_def)
      then have "collects h old S D [] [] ?co2 ?d"
        unfolding collects_def using w fresh_reading [OF st valid] fields(3)
        by (intro exI [of _ "[]"] exI [of _ 16] exI [of _ "stored_keys old"]) (simp add: list values_ok_def)
      moreover have "?d (co_binlogPath ?co2) = Some ?xs"
        using log binlogPath_not_compact [of co] by (simp add: co_binlogPath_def)
      ultimately have "ensures (parseChunk env ?co2 ?d) (task_ok h old S D ?co2 ?d)"
        using parseChunk_ok [of h old S D ?co2 ?d env] fields(1) till st by simp
      moreover have "same_job co ?co2" "only_compact co disk ?d"
        by (simp_all add: same_job_def only_compact_def)
      ultimately show ?thesis
        by (auto simp: start run intro: task_ok_trans elim!: ensures_mono)
    qed
  qed
qed

end
