(* ===== verification/Cache_System.thy ===== *)
theory Cache_System
  imports Cache_Compaction
begin

text \<open>
  The database and the compactor, a system of steps: whatever the order of the steps and whatever the
  disk answers, the log that comes into the place of the old one stands for the same entries.
\<close>

section \<open>The database ends a compaction\<close>

text \<open>Only the files of the log and of the compactor change, and what the cache keeps about them.\<close>

definition only_log :: "cache_db \<Rightarrow> cache_db \<Rightarrow> bool" where
  "only_log db db' \<longleftrightarrow> (\<exists>d b e c. db' = db\<lparr> db_disk := d, db_binlog := b, db_excess := e, db_compactor := c \<rparr> \<and>
     (\<forall>p. p \<notin> {db_path db @ CompactFilename, compactReadyPath db, binlogPath db} \<longrightarrow> d p = db_disk db p))"

lemma only_log_refl [simp]: "only_log db db"
  unfolding only_log_def
  by (intro exI [of _ "db_disk db"] exI [of _ "db_binlog db"] exI [of _ "db_excess db"] exI [of _ "db_compactor db"]) simp

definition ended :: "cache_db \<Rightarrow> bytes \<Rightarrow> cache_db \<Rightarrow> bool" where
  "ended db ys db' \<longleftrightarrow> only_log db db' \<and> \<not> compacts db' \<and>
     (db_binlog db' = db_binlog db \<and> db_disk db' (binlogPath db) = db_disk db (binlogPath db) \<or>
      db_binlog db' = None \<or> open_log db' ys)"

lemma log_names_distinct:
  "BinlogFilename \<noteq> CompactFilename" "CompactFilename \<noteq> BinlogFilename" "BinlogFilename \<noteq> CompactReadyFilename"
  "CompactReadyFilename \<noteq> BinlogFilename" "CompactFilename \<noteq> CompactReadyFilename" "CompactReadyFilename \<noteq> CompactFilename"
  by (simp_all add: BinlogFilename_def CompactFilename_def CompactReadyFilename_def)

lemma endedI:
  assumes "db' = db\<lparr> db_disk := d, db_binlog := b, db_excess := e, db_compactor := c \<rparr>" "\<not> cw_object c"
    "\<forall>p. p \<notin> {db_path db @ CompactFilename, compactReadyPath db, binlogPath db} \<longrightarrow> d p = db_disk db p"
    "b = db_binlog db \<and> d (binlogPath db) = db_disk db (binlogPath db) \<or> b = None \<or>
     b = Some (binlogPath db, length ys) \<and> d (binlogPath db) = Some ys"
  shows "ended db ys db'"
proof -
  have "only_log db db'"
    using assms(1,3) unfolding only_log_def by blast
  moreover have "db_binlog db' = b" "db_disk db' = d" "db_compactor db' = c" "binlogPath db' = binlogPath db"
    by (simp_all add: assms(1) binlogPath_def)
  ultimately show ?thesis
    using assms(2,4) by (auto simp: ended_def open_log_def)
qed

lemma compactorFail_ended:
  assumes db1: "db1 = db\<lparr> db_disk := d, db_binlog := b, db_excess := e, db_compactor := c \<rparr>"
    and d: "\<forall>p. p \<notin> {db_path db @ CompactFilename, compactReadyPath db, binlogPath db} \<longrightarrow> d p = db_disk db p"
    and b: "b = db_binlog db \<and> d (binlogPath db) = db_disk db (binlogPath db) \<or> b = None"
  shows "ended db ys (compactorFail env db1)" "ended db ys (compactorFail env db1\<lparr> db_compactor := no_compactor \<rparr>)"
proof -
  let ?ready = "compactReadyPath db"
  define d' where "d' = (if d ?ready \<noteq> None \<and> ce_remove_file env ?ready then d(?ready := None) else d)"
  have ready: "compactReadyPath db1 = ?ready" "binlogPath db \<noteq> ?ready"
    using log_names_distinct by (simp_all add: db1 compactReadyPath_def binlogPath_def)
  define c' where "c' = no_compactor\<lparr> cw_next := ce_now env + cw_delay c, cw_delay := min (cw_delay c * 2) (24 * 60 * 60 * 1000) \<rparr>"
  have fail: "compactorFail env db1 = db\<lparr> db_disk := d', db_binlog := b, db_excess := e, db_compactor := c' \<rparr>"
    using ready(1) by (simp add: compactorFail_def remove_file_def Let_def db1 d'_def c'_def compactReadyPath_def)
  have c': "\<not> cw_object c'"
    by (simp add: c'_def no_compactor_def)
  have d': "\<forall>p. p \<notin> {db_path db @ CompactFilename, ?ready, binlogPath db} \<longrightarrow> d' p = db_disk db p"
    "d' (binlogPath db) = d (binlogPath db)"
    using d ready(2) by (simp_all add: d'_def)
  show "ended db ys (compactorFail env db1)"
    by (rule endedI [OF fail c']) (use d' b in auto)
  have "compactorFail env db1\<lparr> db_compactor := no_compactor \<rparr> =
      db\<lparr> db_disk := d', db_binlog := b, db_excess := e, db_compactor := no_compactor \<rparr>"
    unfolding fail(1) by simp
  then show "ended db ys (compactorFail env db1\<lparr> db_compactor := no_compactor \<rparr>)"
    by (rule endedI) (use d' b in \<open>auto simp: no_compactor_def\<close>)
qed

lemma compactorDone_ended:
  assumes log: "open_log db xs" and new: "db_disk db path = Some ys" and path: "path = db_path db @ CompactFilename"
    and till: "0 \<le> till" "till \<le> int (length xs)" "(int (length xs) - till) mod 16 = 0" "0 < length xs"
    and block: "0 < readBlockSize (db_settings db)" "readBlockSize (db_settings db) mod 16 = 0"
    and excess: "cw_excess (db_compactor db) \<le> db_excess db"
  shows "ensures (compactorDone env path till db) (ended db (ys @ drop (nat till) xs))"
proof -
  let ?zs = "ys @ drop (nat till) xs" and ?log = "binlogPath db" and ?ready = "compactReadyPath db"
  have names: "path \<noteq> ?log" "?log \<noteq> path" "path \<noteq> ?ready" "?ready \<noteq> path" "?log \<noteq> ?ready" "?ready \<noteq> ?log"
    using log_names_distinct by (simp_all add: path compactReadyPath_def binlogPath_def)
  have size: "binlog_size db = int (length xs)"
    by (rule open_log_size [OF log])
  have disk_log: "db_disk db ?log = Some xs"
    using log by (simp add: open_log_def)
  define caught where "caught = (if till \<noteq> binlog_size db
      then CatchUp env path ?log till (readBlockSize (db_settings db)) (db_disk db) else Inr (till, db_disk db))"
  have "ensures caught (\<lambda>(reached, d). (\<forall>p. p \<noteq> path \<longrightarrow> d p = db_disk db p) \<and>
      (reached = 0 \<or> reached = int (length xs) \<and> d path = Some ?zs))"
  proof (cases "till = binlog_size db")
    case True
    then show ?thesis
      using new by (simp add: caught_def size)
  next
    case False
    then show ?thesis
      using CatchUp_ok [OF block disk_log new names(1) till(1-3), of env] by (simp add: caught_def)
  qed
  then obtain reached d where caught: "caught = Inr (reached, d)" and d: "\<forall>p. p \<noteq> path \<longrightarrow> d p = db_disk db p"
    and good: "reached = 0 \<or> reached = int (length xs) \<and> d path = Some ?zs"
    by (auto elim!: ensuresE)
  let ?db1 = "db\<lparr> db_disk := d \<rparr>"
  define rest where "rest = (let (moved, db2) = move_file env path ?ready ?db1
     in if \<not> moved then Inr (compactorFail env db2)
        else let (moved1, db3) = move_file env ?ready ?log (binlog_close db2)
          in if \<not> moved1 then Inr (compactorFail env db3\<lparr> db_compactor := no_compactor \<rparr>)
             else let (result, db4) = open_log_file env ?log Mode_ReadAppend db3
               in if result \<noteq> Result_Success then Inr (compactorFail env db4\<lparr> db_compactor := no_compactor \<rparr>)
                  else let (ok, f) = plain_seek (binlog_size db4) \<lparr> pf_data = binlog_content db4, pf_offset = 0 \<rparr>
                    in if \<not> ok then Inr (compactorFail env (binlog_close db4)\<lparr> db_compactor := no_compactor \<rparr>)
                       else let db5 = db4\<lparr> db_binlog := Some (?log, pf_offset f),
                                  db_excess := db_excess db4 - cw_excess (db_compactor db4) \<rparr>
                         in asserts (db_excess db5 \<ge> 0) (Inr (db5\<lparr> db_compactor := no_compactor \<rparr>)))"
  have eq: "compactorDone env path till db = (if reached \<noteq> binlog_size db then Inr (compactorFail env ?db1) else rest)"
    unfolding compactorDone_def Let_def caught_def [symmetric] caught rest_def by simp
  have same: "ended db ?zs (compactorFail env ?db1)"
    by (rule compactorFail_ended [where db = db and d = d and b = "db_binlog db" and e = "db_excess db" and c = "db_compactor db"])
      (use d names path in auto)
  have moved: "ensures rest (ended db ?zs)" if there: "d path = Some ?zs"
  proof -
    note bad = compactorFail_ended(2) [where db = db and ys = ?zs and env = env and b = None and e = "db_excess db" and
        c = "db_compactor db"]
    let ?d2 = "d(path := None, ?ready \<mapsto> ?zs)" and ?d3 = "d(path := None, ?ready := None, ?log \<mapsto> ?zs)"
    let ?db2 = "db\<lparr> db_disk := ?d2, db_binlog := None \<rparr>" and ?db3 = "db\<lparr> db_disk := ?d3, db_binlog := None \<rparr>"
    let ?db4 = "db\<lparr> db_disk := ?d3, db_binlog := Some (?log, 0) \<rparr>"
    define d1 where "d1 = (if ce_remove_file env ?ready then d(?ready := None) else d)"
    define d2 where "d2 = (if ce_remove_file env ?log then ?d2(?log := None) else ?d2)"
    let ?db1' = "db\<lparr> db_disk := d1 \<rparr>" and ?db2' = "db\<lparr> db_disk := d2, db_binlog := None \<rparr>"
    have frame: "\<forall>p. p \<notin> {db_path db @ CompactFilename, ?ready, ?log} \<longrightarrow> d p = db_disk db p"
      using d path by simp
    have first: "move_file env path ?ready ?db1 = (if ce_move_file env path ?ready then (True, db\<lparr> db_disk := ?d2 \<rparr>) else (False, ?db1'))"
      using there by (simp add: move_file_def d1_def)
    have disk3: "?d2(?ready := None, ?log \<mapsto> ?zs) = ?d3"
      using names by (simp add: fun_eq_iff)
    have second: "move_file env ?ready ?log ?db2 = (if ce_move_file env ?ready ?log then (True, ?db3) else (False, ?db2'))"
      using disk3 by (simp add: move_file_def d2_def)
    have third: "open_log_file env ?log Mode_ReadAppend ?db3 =
        (if ce_open env ?log Mode_ReadAppend \<noteq> Result_Success then (ce_open env ?log Mode_ReadAppend, ?db3)
         else (Result_Success, ?db4))"
      by (simp add: open_log_file_def binlog_close_def)
    have content: "binlog_content ?db4 = ?zs" "binlog_size ?db4 = int (length ?zs)"
      by (simp_all add: binlog_content_def binlog_size_def)
    have opened: "ended db ?zs (db\<lparr> db_disk := ?d3, db_binlog := Some (?log, length ?zs),
        db_excess := db_excess db - cw_excess (db_compactor db), db_compactor := no_compactor \<rparr>)"
      by (rule endedI [OF refl]) (use frame path in \<open>auto simp: no_compactor_def\<close>)
    have failed: "ended db ?zs (compactorFail env ?db2'\<lparr> db_compactor := no_compactor \<rparr>)"
      "ended db ?zs (compactorFail env ?db3\<lparr> db_compactor := no_compactor \<rparr>)"
      by (rule bad, simp, use frame path in \<open>auto simp: d2_def\<close>)+
    have same1: "ended db ?zs (compactorFail env ?db1')"
      by (rule compactorFail_ended [where db = db and d = d1 and b = "db_binlog db" and e = "db_excess db" and
            c = "db_compactor db"])
        (use d names path in \<open>auto simp: d1_def\<close>)
    have close: "binlog_close (db\<lparr> db_disk := ?d2 \<rparr>) = ?db2"
      by (simp add: binlog_close_def)
    have rest: "rest = (if \<not> ce_move_file env path ?ready then Inr (compactorFail env ?db1')
        else if \<not> ce_move_file env ?ready ?log then Inr (compactorFail env ?db2'\<lparr> db_compactor := no_compactor \<rparr>)
        else if ce_open env ?log Mode_ReadAppend \<noteq> Result_Success then Inr (compactorFail env ?db3\<lparr> db_compactor := no_compactor \<rparr>)
        else Inr (db\<lparr> db_disk := ?d3, db_binlog := Some (?log, length ?zs),
          db_excess := db_excess db - cw_excess (db_compactor db), db_compactor := no_compactor \<rparr>))"
      unfolding rest_def first
      using excess by (simp add: close second third content plain_seek_def Let_def)
    then show ?thesis
      using same1 opened failed by simp
  qed
  then show ?thesis
    using same good size till(4) moved by (auto simp: eq)
qed

text \<open>All of the invariant of the cache but the clock, which depends on the environment.\<close>

definition cache_ok :: "cache_db \<Rightarrow> bool" where
  "cache_ok db \<longleftrightarrow> core_ok db \<and> queues_ok db \<and> log_ok (set (db_removing db)) db"

lemma db_ok_split: "db_ok env db \<longleftrightarrow> cache_ok db \<and> time_ok env db"
  by (auto simp: db_ok_def cache_ok_def)

lemma log_says_off: "limits_off st = limits_off st' \<Longrightarrow> log_says st xs v = log_says st' xs v"
  using limits_off_eqD(2,3) [of st st'] by (simp add: log_says_def)

lemma log_says_says:
  "header_for st h \<Longrightarrow> list_all (record_valid st) recs \<Longrightarrow> log_says st (log_of h recs) (says h recs)"
  unfolding log_says_def log_of_def says_def header_for_def log_bytes_def by blast

lemma cache_ok_view:
  assumes "cache_ok db" "open_log db (log_of h recs)" "header_for (db_settings db) h"
    "list_all (record_valid (db_settings db)) recs"
  shows "map_of (db_map db) = hidden (set (db_removing db)) (fst (says h recs))"
    "time_says (db_settings db) (snd (says h recs)) (getRelative (db_time db))"
proof -
  obtain xs m t where xs: "open_log db xs" "log_says (db_settings db) xs (m, t)"
    "time_says (db_settings db) t (getRelative (db_time db))" "map_of (db_map db) = hidden (set (db_removing db)) m"
    using assms(1) open_log_not_closed [OF assms(2)] unfolding cache_ok_def log_for_def by blast
  have "0 \<le> maxBundledRecords (db_settings db)"
    using assms(1) by (simp add: cache_ok_def core_ok_def checkSettings_def)
  then have "says h recs = (m, t)"
    using log_says_unique [OF log_says_says [OF assms(3,4)]] xs(2) open_log_inj [OF assms(2) xs(1)] by simp
  then show "map_of (db_map db) = hidden (set (db_removing db)) (fst (says h recs))"
    "time_says (db_settings db) (snd (says h recs)) (getRelative (db_time db))"
    using xs by simp_all
qed

lemma only_log_ok:
  assumes "cache_ok db" "only_log db db'" "log_ok (set (db_removing db)) db'"
  shows "cache_ok db'"
proof -
  obtain d b e c where "db' = db\<lparr> db_disk := d, db_binlog := b, db_excess := e, db_compactor := c \<rparr>"
    using assms(2) unfolding only_log_def by blast
  then show ?thesis
    using assms(1,3) by (simp add: cache_ok_def core_ok_def queues_ok_def)
qed

lemma only_log_fields:
  assumes "only_log db db'"
  shows "db_map db' = db_map db" "db_removing db' = db_removing db" "db_settings db' = db_settings db"
    "db_time db' = db_time db" "binlogPath db' = binlogPath db" "db_path db' = db_path db"
  using assms by (auto simp: only_log_def binlogPath_def)

lemma ended_ok:
  assumes ok: "cache_ok db" and e: "ended db ys db'" and says: "log_says (db_settings db) ys v"
    and map: "map_of (db_map db) = hidden (set (db_removing db)) (fst v)"
    and clock: "time_says (db_settings db) (snd v) (getRelative (db_time db))"
  shows "cache_ok db'"
proof (rule only_log_ok [OF ok])
  show only: "only_log db db'"
    using e by (simp add: ended_def)
  note fields = only_log_fields [OF only]
  consider "db_binlog db' = db_binlog db" "db_disk db' (binlogPath db) = db_disk db (binlogPath db)" | "db_binlog db' = None"
    | "open_log db' ys"
    using e by (auto simp: ended_def)
  then show "log_ok (set (db_removing db)) db'"
  proof cases
    case 1
    then show ?thesis
      using ok fields by (simp add: cache_ok_def log_for_def open_log_def)
  next
    case 3
    then show ?thesis
      unfolding log_for_def fields using says map clock by (intro disjI2 exI [of _ ys] exI [of _ "fst v"] exI [of _ "snd v"]) simp
  qed (simp add: log_for_def)
qed

text \<open>What the database does with the message that the compactor is done.\<close>

lemma compactorDone_ok:
  assumes ok: "cache_ok db" and log: "open_log db (log_of h (old @ S))" and header: "header_for (db_settings db) h"
    and valid: "list_all (record_valid (db_settings db)) (old @ S)" and st: "settings_ok (db_settings db)"
    and same: "limits_off (co_settings co) = limits_off (db_settings db)" and path: "compactPath co = db_path db @ CompactFilename"
    and copy: "copies h old S (map_of (db_map db)) till co (db_disk db)"
    and excess: "cw_excess (db_compactor db) \<le> db_excess db"
  shows "ensures (compactorDone env (compactPath co) till db) (\<lambda>db'. cache_ok db' \<and> only_log db db' \<and> \<not> compacts db')"
proof -
  let ?st = "db_settings db" and ?xs = "log_of h (old @ S)" and ?R = "set (db_removing db)"
  obtain recs S1 S2 where S: "S = S1 @ S2" and new: "db_disk db (compactPath co) = Some (log_of h (recs @ S1))"
    and recs: "list_all (record_valid (co_settings co)) recs" and till: "till = int (length (log_of h (old @ S1)))"
    and agree: "agrees (co_settings co) {} (map_of (db_map db)) (says h old) S (says h recs)"
    using copy unfolding copies_def by blast
  have st_eq: "record_valid (co_settings co) = record_valid ?st" "trackEstimatedTime (co_settings co) = trackEstimatedTime ?st"
    using limits_off_eqD(2,3) [OF same] by simp_all
  have agree': "agrees ?st {} (map_of (db_map db)) (says h old) S (says h recs)"
    using agree st_eq by (simp add: agrees_def same_clock_def)
  have xs: "?xs = log_of h (old @ S1) @ log_bytes S2"
    by (simp add: log_of_def S)
  have tail: "drop (nat till) ?xs = log_bytes S2" "int (length ?xs) - till = int (length (log_bytes S2))"
    "0 \<le> till" "till \<le> int (length ?xs)"
    using xs by (simp_all add: till)
  have "(int (length ?xs) - till) mod 16 = 0"
    unfolding tail(2) using log_bytes_blocks [of ?st S2] valid S by (simp add: int_mod_16)
  moreover have "0 < readBlockSize ?st" "readBlockSize ?st mod 16 = 0"
    using st by (auto simp: settings_ok_def blocks_ok_def binlog_kinds_def store_size_def split: if_splits)
  ultimately have run: "ensures (compactorDone env (compactPath co) till db) (ended db (log_of h (recs @ S)))"
    using compactorDone_ended [OF log new path tail(3,4) _ _ _ _ excess, of env] tail(1)
    by (simp add: S length_log_of flip: log_of_append)
  note view = cache_ok_view [OF ok log header valid]
  have "log_says ?st (log_of h (recs @ S)) (says h (recs @ S))"
    using log_says_says [OF header] recs valid st_eq by simp
  moreover have "map_of (db_map db) = hidden ?R (fst (fold replay S (says h old)))"
    using view(1) by (simp add: says_append)
  note final = agrees_done [OF agree' _ this]
  have "map_of (db_map db) = hidden ?R (fst (says h (recs @ S)))" "time_says ?st (snd (says h (recs @ S))) (getRelative (db_time db))"
    using final view(2) valid by (auto simp: says_append time_says_def same_clock_def)
  ultimately have "cache_ok db'" if "ended db (log_of h (recs @ S)) db'" for db'
    using ended_ok [OF ok that] by blast
  then show ?thesis
    using run by (auto simp: ended_def elim!: ensures_mono)
qed

section \<open>The compactor and the database\<close>

fun co_task :: "cache_env \<Rightarrow> co_phase \<Rightarrow> compactor \<Rightarrow> cache_disk \<Rightarrow> (co_phase \<times> compactor \<times> cache_disk) outcome" where
  "co_task env Co_starts co disk = co_start env co disk"
| "co_task env Co_waits co disk = Inr (Co_waits, co, disk)"
| "co_task env (Co_values vals) co disk = processValues env vals co disk"
| "co_task env (Co_catches pos len) co disk = finalize_round env pos len co disk"

text \<open>
  A message reaches the database. The compactor has the answer to its keys only while the database
  keeps it, and the guard goes when the database lets the compactor go.
\<close>

fun deliver :: "cache_env \<Rightarrow> co_message \<Rightarrow> cache_db \<Rightarrow> co_phase \<Rightarrow> compactor \<Rightarrow> (cache_db \<times> co_phase) outcome" where
  "deliver env Post_fail db phase co = Inr (compactorFail env db, phase)"
| "deliver env (Post_keys keys) db phase co =
     Inr (db, if compacts db then Co_values (getManyRaw keys db) else phase)"
| "deliver env (Post_done till) db phase co =
     (if compacts db then bind_outcome (compactorDone env (compactPath co) till db) (\<lambda>db'. Inr (db', phase))
      else Inr (db, phase))"

text \<open>No task forgets what is to be done, touches another file, or takes back a message.\<close>

definition goes_on :: "compactor \<Rightarrow> cache_disk \<Rightarrow> compactor \<Rightarrow> cache_disk \<Rightarrow> bool" where
  "goes_on co disk co' disk' \<longleftrightarrow> same_job co co' \<and> only_compact co disk disk' \<and> (\<exists>ms. co_posted co' = co_posted co @ ms)"

lemma goes_on_trans: "goes_on a d b e \<Longrightarrow> goes_on b e c f \<Longrightarrow> goes_on a d c f"
  using same_job_trans only_compact_trans by (fastforce simp: goes_on_def)

lemma goes_on_refl [simp]: "goes_on co disk co disk"
  by (simp add: goes_on_def)

lemmas goes_on_defs = goes_on_def same_job_def only_compact_def compactPath_def

lemma goes_on_frame [simp]:
  "goes_on co disk (co'\<lparr> co_list := x0 \<rparr>) disk' = goes_on co disk co' disk'"
  "goes_on co disk (co'\<lparr> co_compact := x1 \<rparr>) disk' = goes_on co disk co' disk'"
  "goes_on co disk (co'\<lparr> co_binlog := x2 \<rparr>) disk' = goes_on co disk co' disk'"
  "goes_on co disk (co'\<lparr> co_wrapper := x3 \<rparr>) disk' = goes_on co disk co' disk'"
  "goes_on co disk (co'\<lparr> co_header := x4 \<rparr>) disk' = goes_on co disk co' disk'"
  "goes_on co disk (co'\<lparr> co_written := x5 \<rparr>) disk' = goes_on co disk co' disk'"
  by (simp_all add: goes_on_def same_job_def)

lemma goes_on_post [simp]: "goes_on co disk (co_post m co) disk"
  by (simp add: goes_on_defs co_post_def)

lemma goes_on_disk [simp]: "goes_on co disk co (disk(compactPath co := x))"
  by (simp add: goes_on_defs)

lemma co_write_frame: "co_write env xs co disk = (ok, co', disk') \<Longrightarrow> goes_on co disk co' disk'"
  by (auto simp: co_write_def Let_def split: option.splits if_splits)

lemma writeMultiStore_frame:
  assumes "writeMultiStore env co disk = Inr (ok, co', disk')"
  shows "goes_on co disk co' disk'"
proof (cases "co_list co = []")
  case False
  then obtain header where header: "MultiStoreHead (int (length (co_list co))) = Inr header"
    using assms by (auto simp: writeMultiStore_def bind_outcome_Inr_iff)
  obtain ok1 co1 disk1 where one: "co_write env header co disk = (ok1, co1, disk1)"
    by (metis prod_cases3)
  obtain ok2 co2 disk2 where two: "(if ok1 then co_write env (concat (map store_bytes (co_list co))) co1 disk1
      else (False, co1, disk1)) = (ok2, co2, disk2)"
    by (metis prod_cases3)
  have "goes_on co1 disk1 co2 disk2"
    using two co_write_frame by (auto split: if_splits)
  moreover have "co' = co2\<lparr> co_list := [] \<rparr>" "disk' = disk2"
    using assms False header one two by (simp_all add: writeMultiStore_def split: if_splits)
  ultimately show ?thesis
    using goes_on_trans [OF co_write_frame [OF one]] by simp
qed (use assms in \<open>simp add: writeMultiStore_def\<close>)

lemma fillList_frame: "fillList vals co = Inr (co', left) \<Longrightarrow> goes_on co disk co' disk"
proof (induction vals arbitrary: co)
  case (Cons raw vals)
  show ?case
  proof (cases "int (length (co_list co)) = co_part_size co")
    case False
    then obtain co1 where "addListRecord raw co = Inr co1" "fillList vals co1 = Inr (co', left)"
      using Cons.prems by (auto simp: bind_outcome_Inr_iff)
    moreover have "goes_on co disk co1 disk"
      using calculation(1) by (auto simp: addListRecord_def bind_outcome_Inr_iff Let_def split: if_splits)
    ultimately show ?thesis
      using Cons.IH goes_on_trans by blast
  qed (use Cons.prems in simp)
qed simp

lemma process_values_frame:
  "process_values env vals co disk = Inr (ok, co', disk') \<Longrightarrow> goes_on co disk co' disk'"
proof (induction env vals co disk rule: process_values.induct)
  case (1 env vals co disk)
  obtain co1 left where fill: "fillList vals co = Inr (co1, left)"
    using "1.prems" by (auto simp: process_values.simps [of env vals co] bind_outcome_Inr_iff)
  note one = fillList_frame [OF fill]
  show ?case
  proof (cases "left = []")
    case True
    then show ?thesis
      using "1.prems" fill one by (simp add: process_values.simps [of env vals co])
  next
    case False
    then have stuck: "\<not> (length left = length vals \<and> co_list co1 = [])"
      using "1.prems" fill by (auto simp: process_values.simps [of env vals co])
    then obtain ok2 co2 disk2 where store: "writeMultiStore env co1 disk = Inr (ok2, co2, disk2)"
      and rest: "if ok2 then process_values env left co2 disk2 = Inr (ok, co', disk') else co' = co2 \<and> disk' = disk2"
      using "1.prems" fill False by (auto simp: process_values.simps [of env vals co] bind_outcome_Inr_iff split: if_splits)
    have two: "goes_on co disk co2 disk2"
      by (rule goes_on_trans [OF one writeMultiStore_frame [OF store]])
    show ?thesis
    proof (cases ok2)
      case True
      then show ?thesis
        using "1.IH" [OF fill refl False stuck store refl refl True] rest goes_on_trans [OF two] by simp
    qed (use rest two in simp)
  qed
qed

lemma co_fail_frame: "co_fail env co disk = (co', disk') \<Longrightarrow> goes_on co disk co' disk'"
  by (auto simp: co_fail_def co_post_def goes_on_defs)

lemma co_finish_frame:
  assumes "co_finish env co disk = Inr (phase', co', disk')"
  shows "goes_on co disk co' disk'"
proof -
  obtain ok co1 disk1 where store: "writeMultiStore env co disk = Inr (ok, co1, disk1)"
    using assms by (auto simp: co_finish_def bind_outcome_Inr_iff)
  have "goes_on co1 disk1 co' disk'"
    using assms store co_fail_frame [of env co1 disk1 co' disk'] by (auto simp: co_finish_def split: if_splits)
  then show ?thesis
    by (rule goes_on_trans [OF writeMultiStore_frame [OF store]])
qed

lemma parseChunk_frame:
  assumes "parseChunk env co disk = Inr (phase', co', disk')"
  shows "goes_on co disk co' disk'"
proof -
  obtain w f keys where chunk: "readChunk (co_settings co) (co_wrapper co) (co_file co disk) [] = Inr (w, f, keys)"
    using assms by (auto simp: parseChunk_def bind_outcome_Inr_iff)
  let ?co = "co_file_read f (co\<lparr> co_wrapper := w \<rparr>)"
  have "goes_on co disk ?co disk"
    by (simp add: co_file_read_def)
  moreover have "goes_on ?co disk co' disk'"
    using assms chunk co_fail_frame [of env ?co disk co' disk'] co_finish_frame [of env ?co disk phase' co' disk']
    by (auto simp: parseChunk_def Let_def split: if_splits)
  ultimately show ?thesis
    by (rule goes_on_trans)
qed

lemma openCompact_frame: "openCompact env co disk = (ok, co', disk') \<Longrightarrow> goes_on co disk co' disk'"
proof (cases "ce_open env (compactPath co) Mode_Write = Result_Success")
  case True
  let ?co = "co\<lparr> co_compact := Some 0 \<rparr>" and ?disk = "disk(compactPath co \<mapsto> [])"
  assume "openCompact env co disk = (ok, co', disk')"
  then have "goes_on ?co ?disk co' disk'"
    using True co_write_frame by (simp add: openCompact_def)
  moreover have "goes_on co disk ?co ?disk"
    by simp
  ultimately show ?thesis
    using goes_on_trans by blast
qed (auto simp: openCompact_def)

lemma co_start_frame:
  assumes "co_start env co disk = Inr (phase', co', disk')"
  shows "goes_on co disk co' disk'"
proof -
  obtain ok1 co1 where one: "co_openBinlog env co disk = (ok1, co1)"
    by (metis surj_pair)
  obtain ok2 co2 where two: "(if ok1 then co_readHeader co1 disk else (False, co1)) = (ok2, co2)"
    by (metis surj_pair)
  obtain ok3 co3 disk3 where three: "(if ok2 then openCompact env co2 disk else (False, co2, disk)) = (ok3, co3, disk3)"
    by (metis prod_cases3)
  obtain co4 disk4 where four: "(if ok3 then (co3, disk3) else co_fail env co3 disk3) = (co4, disk4)"
    by (metis surj_pair)
  have last: "parseChunk env (co4\<lparr> co_list := [] \<rparr>) disk4 = Inr (phase', co', disk')"
    using assms one two three four by (simp add: co_start_def expects_def split: if_splits)
  have "goes_on co disk co1 disk"
    using one by (auto simp: co_openBinlog_def split: option.splits if_splits)
  moreover have "goes_on co1 disk co2 disk"
    using two by (auto simp: co_readHeader_def co_file_read_def Let_def split: if_splits option.splits prod.splits)
  moreover have "goes_on co2 disk co3 disk3"
    using three openCompact_frame by (auto split: if_splits)
  moreover have "goes_on co3 disk3 (co4\<lparr> co_list := [] \<rparr>) disk4"
    using four co_fail_frame [of env co3 disk3 co4 disk4] by (auto split: if_splits)
  ultimately show ?thesis
    using parseChunk_frame [OF last] goes_on_trans by blast
qed

lemma CatchUp_frame: "CatchUp env path log pos block disk = Inr (till, disk') \<Longrightarrow> p \<noteq> path \<Longrightarrow> disk' p = disk p"
  by (auto simp: CatchUp_def bind_outcome_Inr_iff Let_def split: option.splits if_splits prod.splits)

lemma finalize_round_frame:
  assumes "finalize_round env pos len co disk = Inr (phase', co', disk')"
  shows "goes_on co disk co' disk'"
proof -
  obtain till disk1 where run: "CatchUp env (compactPath co) (co_binlogPath co) pos (readBlockSize (co_settings co)) disk = Inr (till, disk1)"
    using assms by (auto simp: finalize_round_def bind_outcome_Inr_iff)
  have "goes_on co disk co disk1"
    using CatchUp_frame [OF run] by (simp add: goes_on_def only_compact_def)
  moreover have "goes_on co disk1 co' disk'"
    using assms run co_fail_frame [of env co disk1 co' disk'] by (auto simp: finalize_round_def split: if_splits)
  ultimately show ?thesis
    by (rule goes_on_trans)
qed

lemma co_task_frame:
  assumes "co_task env phase co disk = Inr (phase', co', disk')"
  shows "goes_on co disk co' disk'"
proof (cases phase)
  case (Co_values vals)
  then have "processValues env vals co disk = Inr (phase', co', disk')"
    using assms by simp
  then obtain ok co1 disk1 where run: "process_values env vals co disk = Inr (ok, co1, disk1)"
    and rest: "if ok then parseChunk env co1 disk1 = Inr (phase', co', disk') else co_fail env co1 disk1 = (co', disk')"
    by (auto simp: processValues_def bind_outcome_Inr_iff split: if_splits)
  have "goes_on co1 disk1 co' disk'"
    using rest parseChunk_frame co_fail_frame by (cases ok) auto
  then show ?thesis
    by (rule goes_on_trans [OF process_values_frame [OF run]])
qed (use assms co_start_frame finalize_round_frame in auto)

record compacting =
  cs_db :: cache_db
  cs_job :: "(compactor \<times> co_phase) option"

definition start_of :: "cache_db \<Rightarrow> compactor_info \<Rightarrow> (compactor \<times> co_phase) option" where
  "start_of db info = Some (CompactorObject (db_path db) (db_settings db) info, Co_starts)"

text \<open>
  A step of a compaction is a task of the compactor, or what it has sent reaches the database. The
  log has to be open when the compactor is done.
\<close>

inductive job_step :: "compacting \<Rightarrow> compacting \<Rightarrow> bool" where
  Step_task: "cs_job s = Some (co, phase) \<Longrightarrow> co_task env phase co (db_disk (cs_db s)) = Inr (phase', co', disk') \<Longrightarrow>
    job_step s (s\<lparr> cs_db := (cs_db s)\<lparr> db_disk := disk' \<rparr>, cs_job := Some (co', phase') \<rparr>)"
| Step_deliver: "cs_job s = Some (co, phase) \<Longrightarrow> co_posted co = m # ms \<Longrightarrow> deliver env m (cs_db s) phase co = Inr (db', phase') \<Longrightarrow>
    binlog_is_open (cs_db s) \<or> (\<forall>till. m \<noteq> Post_done till) \<Longrightarrow>
    job_step s (s\<lparr> cs_db := db', cs_job := Some (co\<lparr> co_posted := ms \<rparr>, phase') \<rparr>)"

text \<open>
  Between two of them comes any operation of the cache, which may start a compactor. What a compactor
  that was let go still does is over by then: another one is started ten seconds later at least.
\<close>

inductive compacting_step :: "compacting \<Rightarrow> compacting \<Rightarrow> bool" where
  Step_call: "run_call env call (cs_db s) = Inr db' \<Longrightarrow> env_ok env \<Longrightarrow> time_ok env (cs_db s) \<Longrightarrow> call_ok env call (cs_db s) \<Longrightarrow>
    compacts db' = compacts (cs_db s) \<Longrightarrow> compacting_step s (s\<lparr> cs_db := db' \<rparr>)"
| Step_start: "run_call env call (cs_db s) = Inr db' \<Longrightarrow> env_ok env \<Longrightarrow> time_ok env (cs_db s) \<Longrightarrow> call_ok env call (cs_db s) \<Longrightarrow>
    \<not> compacts (cs_db s) \<Longrightarrow> compacts db' \<Longrightarrow> last_start (db_events db') = Some info \<Longrightarrow>
    compacting_step s (s\<lparr> cs_db := db', cs_job := start_of db' info \<rparr>)"
| Step_job: "job_step s s' \<Longrightarrow> compacting_step s s'"

text \<open>The compactor works on the log of the database, or its work will be dropped.\<close>

definition works_on :: "cache_db \<Rightarrow> compactor \<Rightarrow> co_phase \<Rightarrow> bool" where
  "works_on db co phase \<longleftrightarrow> (\<exists>h old S. open_log db (log_of h (old @ S)) \<and> header_for (db_settings db) h \<and>
     list_all (record_valid (db_settings db)) (old @ S) \<and> job_ok h old S (map_of (db_map db)) phase co (db_disk db))"

definition job_for :: "cache_db \<Rightarrow> compactor \<Rightarrow> co_phase \<Rightarrow> bool" where
  "job_for db co phase \<longleftrightarrow> limits_off (co_settings co) = limits_off (db_settings db) \<and>
     cw_excess (db_compactor db) \<le> db_excess db \<and> (failing co \<or> db_binlog db = None \<or> works_on db co phase)"

definition compacting_ok :: "compacting \<Rightarrow> bool" where
  "compacting_ok s \<longleftrightarrow> cache_ok (cs_db s) \<and> settings_ok (db_settings (cs_db s)) \<and>
     (\<forall>co phase. cs_job s = Some (co, phase) \<longrightarrow> co_base co = db_path (cs_db s)) \<and>
     (compacts (cs_db s) \<longrightarrow> (\<exists>co phase. cs_job s = Some (co, phase) \<and> job_for (cs_db s) co phase))"

lemma settings_ok_off: "limits_off st = limits_off st' \<Longrightarrow> settings_ok st = settings_ok st'"
proof -
  have "CheckSettings kinds (limits_off st) = CheckSettings kinds st" for kinds st
    by (induction kinds) (simp_all add: limits_off_def split: option.split)
  then have "settings_ok st = settings_ok (limits_off st)" for st
    by (simp add: settings_ok_def blocks_ok_def) (simp add: limits_off_def)
  then show "limits_off st = limits_off st' \<Longrightarrow> settings_ok st = settings_ok st'"
    by metis
qed

lemma header_for_off: "limits_off st = limits_off st' \<Longrightarrow> header_for st = header_for st'"
  using limits_off_eqD(3) [of st st'] by (simp add: header_for_def fun_eq_iff)

text \<open>The cache goes on, and the log grows.\<close>

lemma job_ok_grow:
  assumes "job_ok h old S D phase co disk" "list_all (record_valid (co_settings co)) (S @ S')"
    "disk' (compactPath co) = disk (compactPath co)"
    "\<And>k. D k = None \<Longrightarrow> k \<notin> set (stored_keys S') \<Longrightarrow> D' k = None"
  shows "job_ok h old (S @ S') D' phase co disk'"
proof -
  have written: "written_ok h recs co disk' = written_ok h recs co disk" for recs
    using assms(3) by (simp add: written_ok_def compact_holds_def)
  have bound: "values_ok (co_settings co) h (snd (says h (old @ S))) vals \<Longrightarrow>
      values_ok (co_settings co) h (snd (says h (old @ S @ S'))) vals" for vals
    by (auto simp: values_ok_def list_all_iff says_def fold_replay_clock_max intro: max.coboundedI1)
  have longer: "reading st till (log_of h (old @ S)) w off ks \<Longrightarrow> reading st till (log_of h (old @ S @ S')) w off ks" for st till w off ks
    using reading_longer [of st till "log_of h (old @ S)" w off ks "log_bytes S'"] by (simp add: log_of_def)
  have grow: "agrees (co_settings co) P D' (says h old) (S @ S') v" if "agrees (co_settings co) P D (says h old) S v" for P v
    by (rule agrees_grow [OF that assms(2)]) (rule assms(4))
  have "collects h old (S @ S') D' keys vals co disk'" if c: "collects h old S D keys vals co disk" for keys vals
  proof -
    obtain recs off ks where "written_ok h recs co disk" "co_binlog co = Some off"
      "reading (co_settings co) (length (log_of h old)) (log_of h (old @ S)) (co_wrapper co) off ks"
      "values_ok (co_settings co) h (snd (says h (old @ S))) vals"
      "agrees (co_settings co) (set keys \<union> set ks) D (says h old) S (map_of vals ++ fst (new_view h recs co), snd (new_view h recs co))"
      using c unfolding collects_def by blast
    note parts = this(1,2) this(3) [THEN longer] this(4) [THEN bound] this(5) [THEN grow]
    then show ?thesis
      unfolding collects_def written by blast
  qed
  moreover have "copies h old (S @ S') D' pos co disk'" if c: "copies h old S D pos co disk" for pos
  proof -
    obtain recs S1 S2 where "S = S1 @ S2" "disk (compactPath co) = Some (log_of h (recs @ S1))"
      "list_all (record_valid (co_settings co)) recs" "pos = int (length (log_of h (old @ S1)))"
      "agrees (co_settings co) {} D (says h old) S (says h recs)"
      using c unfolding copies_def by blast
    note parts = this(1-4) this(5) [THEN grow]
    have "S @ S' = S1 @ (S2 @ S')" "disk' (compactPath co) = Some (log_of h (recs @ S1))"
      using parts(1,2) assms(3) by simp_all
    note parts = this parts(3-5)
    then show ?thesis
      unfolding copies_def by blast
  qed
  ultimately show ?thesis
    using assms(1) by (auto simp: job_ok_def split: co_phase.splits)
qed

lemma cache_ok_log_place: "cache_ok db \<Longrightarrow> log_place db"
  by (auto simp: cache_ok_def log_place_def log_for_def core_ok_def checkSettings_def)

lemma job_for_grows:
  assumes job: "job_for db co phase" and base: "co_base co = db_path db" and run: "compacts db"
    and place: "same_place db db'" and grows: "log_grows db db'"
  shows "job_for db' co phase"
proof -
  have off: "limits_off (db_settings db') = limits_off (db_settings db)" "db_compactor db' = db_compactor db"
    "db_excess db \<le> db_excess db'" "db_disk db' (compactPath co) = db_disk db (compactPath co)"
    using place run by (simp_all add: same_place_def compactPath_def base)
  have co: "limits_off (co_settings co) = limits_off (db_settings db)" "cw_excess (db_compactor db) \<le> db_excess db"
    using job by (simp_all add: job_for_def)
  have "works_on db' co phase" if works: "works_on db co phase" and closed: "db_binlog db' \<noteq> None"
  proof -
    obtain h old S where w: "open_log db (log_of h (old @ S))" "header_for (db_settings db) h"
      "list_all (record_valid (db_settings db)) (old @ S)" "job_ok h old S (map_of (db_map db)) phase co (db_disk db)"
      using works unfolding works_on_def by blast
    obtain xs recs where g: "open_log db xs" "open_log db' (xs @ log_bytes recs)" "list_all (record_valid (db_settings db)) recs"
      "entries_from (stored_keys recs) db db'"
      using grows closed unfolding log_grows_def by blast
    have "open_log db' (log_of h (old @ (S @ recs)))"
      using g(2) unfolding open_log_inj [OF w(1) g(1), symmetric] by (simp add: log_of_def)
    moreover have "header_for (db_settings db') h"
      using w(2) header_for_off [OF off(1)] by simp
    moreover have "list_all (record_valid (db_settings db')) (old @ (S @ recs))"
      using w(3) g(3) limits_off_eqD(2) [OF off(1)] by simp
    moreover have "job_ok h old (S @ recs) (map_of (db_map db')) phase co (db_disk db')"
    proof (rule job_ok_grow [OF w(4)])
      show "list_all (record_valid (co_settings co)) (S @ recs)"
        using w(3) g(3) limits_off_eqD(2) [OF co(1)] by simp
      show "map_of (db_map db') k = None" if "map_of (db_map db) k = None" "k \<notin> set (stored_keys recs)" for k
        using that g(4) by (simp add: entries_from_def)
    qed (rule off(4))
    ultimately show ?thesis
      unfolding works_on_def by blast
  qed
  moreover have "db_binlog db = None \<longrightarrow> db_binlog db' = None"
    using grows by (auto simp: log_grows_def open_log_def)
  moreover have "cw_excess (db_compactor db') \<le> db_excess db'" "limits_off (co_settings co) = limits_off (db_settings db')"
    using co off by simp_all
  ultimately show ?thesis
    using job unfolding job_for_def by (cases "db_binlog db' = None"; cases "db_binlog db = None") auto
qed

lemma started_job:
  assumes ok: "cache_ok db" and "same_place db db'" and begins: "begins db db'" "\<not> compacts db" "compacts db'"
    and info: "last_start (db_events db') = Some info"
  shows "job_for db' (CompactorObject (db_path db') (db_settings db') info) Co_starts"
proof -
  let ?co = "CompactorObject (db_path db') (db_settings db') info"
  have off: "limits_off (db_settings db') = limits_off (db_settings db)"
    using assms(2) by (simp add: same_place_def)
  have co: "co_settings ?co = db_settings db'" "co_info ?co = info" "co_base ?co = db_path db'"
    by (simp_all add: CompactorObject_def)
  have excess: "cw_excess (db_compactor db') \<le> db_excess db'"
    and log: "db_binlog db' \<noteq> None \<Longrightarrow> \<exists>xs recs recs'. open_log db xs \<and> open_log db' (xs @ log_bytes (recs @ recs')) \<and>
         list_all (record_valid (db_settings db)) (recs @ recs') \<and> ci_till info = int (length (xs @ log_bytes recs))"
    using begins info unfolding begins_def by auto
  have "works_on db' ?co Co_starts" if "db_binlog db' \<noteq> None"
  proof -
    obtain xs recs recs' where g: "open_log db xs" "open_log db' (xs @ log_bytes (recs @ recs'))"
      "list_all (record_valid (db_settings db)) (recs @ recs')" "ci_till info = int (length (xs @ log_bytes recs))"
      using log [OF \<open>db_binlog db' \<noteq> None\<close>] by blast
    obtain ys m t where "open_log db ys" "log_says (db_settings db) ys (m, t)"
      using ok open_log_not_closed [OF g(1)] unfolding cache_ok_def log_for_def by blast
    then have "log_says (db_settings db) xs (m, t)"
      using open_log_inj [OF g(1)] by simp
    then obtain h :: log_header and first where h: "xs = log_of h first" "header_for (db_settings db) h"
      "list_all (record_valid (db_settings db)) first"
      unfolding log_says_def log_of_def header_for_def log_bytes_def by blast
    have "open_log db' (log_of h ((first @ recs) @ recs'))" "ci_till info = int (length (log_of h (first @ recs)))"
      using g(2,4) by (simp_all add: h(1) log_of_def)
    moreover have "header_for (db_settings db') h" "list_all (record_valid (db_settings db')) ((first @ recs) @ recs')"
      using h g(3) header_for_off [OF off] limits_off_eqD(2) [OF off] by simp_all
    ultimately have "open_log db' (log_of h ((first @ recs) @ recs')) \<and> header_for (db_settings db') h \<and>
        list_all (record_valid (db_settings db')) ((first @ recs) @ recs') \<and>
        job_ok h (first @ recs) recs' (map_of (db_map db')) Co_starts ?co (db_disk db')"
      unfolding job_ok_def co by simp
    then show ?thesis
      unfolding works_on_def by blast
  qed
  then show ?thesis
    using excess unfolding job_for_def co by blast
qed

lemma call_keeps:
  assumes ok: "compacting_ok s" and run: "run_call env call (cs_db s) = Inr db'" "env_ok env" "time_ok env (cs_db s)"
    "call_ok env call (cs_db s)"
  shows "cache_ok db'" "settings_ok (db_settings db')" "db_path db' = db_path (cs_db s)"
    "same_place (cs_db s) db'" "log_grows (cs_db s) db'" "begins (cs_db s) db'"
proof -
  have db: "db_ok env (cs_db s)" "cache_ok (cs_db s)"
    using ok run(3) by (simp_all add: compacting_ok_def db_ok_split)
  show "cache_ok db'"
    using run_call_ok [OF db(1) run(2,4)] run(1) by (simp add: db_ok_split)
  have "same_place (cs_db s) db' \<and> log_grows (cs_db s) db' \<and> begins (cs_db s) db'"
    using run_call_evolves [OF run(1) db(1) run(2,4)] cache_ok_log_place [OF db(2)] by (simp add: evolves_def)
  then show place: "same_place (cs_db s) db'" "log_grows (cs_db s) db'" "begins (cs_db s) db'"
    by simp_all
  then show "settings_ok (db_settings db')" "db_path db' = db_path (cs_db s)"
    using ok settings_ok_off [of "db_settings db'" "db_settings (cs_db s)"] by (simp_all add: same_place_def compacting_ok_def)
qed

text \<open>A task of the compactor changes the new log only.\<close>

lemma cache_ok_disk:
  assumes "cache_ok db" "d (binlogPath db) = db_disk db (binlogPath db)"
  shows "cache_ok (db\<lparr> db_disk := d \<rparr>)"
  using assms by (simp add: cache_ok_def core_ok_def queues_ok_def log_for_def open_log_def binlogPath_def)

lemma works_on_tasks:
  assumes works: "works_on db co phase" and st: "settings_ok (db_settings db)" and base: "co_base co = db_path db"
    and off: "limits_off (co_settings co) = limits_off (db_settings db)"
  shows "ensures (co_task env phase co (db_disk db)) (\<lambda>(phase', co', disk'). same_job co co' \<and>
    only_compact co (db_disk db) disk' \<and> (failing co' \<or> works_on (db\<lparr> db_disk := disk' \<rparr>) co' phase'))"
proof -
  obtain h old S where w: "open_log db (log_of h (old @ S))" "header_for (db_settings db) h"
    "list_all (record_valid (db_settings db)) (old @ S)" "job_ok h old S (map_of (db_map db)) phase co (db_disk db)"
    using works unfolding works_on_def by blast
  have path: "co_binlogPath co = binlogPath db" "binlogPath db \<noteq> compactPath co"
    using binlogPath_not_compact [of co] by (simp_all add: co_binlogPath_def binlogPath_def base)
  have log: "db_disk db (co_binlogPath co) = Some (log_of h (old @ S))"
    using w(1) by (simp add: path open_log_def)
  have st': "settings_ok (co_settings co)" "header_for (co_settings co) h" "list_all (record_valid (co_settings co)) (old @ S)"
    using st w(2,3) settings_ok_off [OF off] header_for_off [OF off] limits_off_eqD(2) [OF off] by simp_all
  have till: "ci_till (co_info co) = int (length (log_of h old))"
    using w(4) by (simp add: job_ok_def)
  have run: "ensures (co_task env phase co (db_disk db)) (task_ok h old S (map_of (db_map db)) co (db_disk db))"
  proof (cases phase)
    case Co_starts
    then have "co = CompactorObject (co_base co) (co_settings co) (co_info co)"
      using w(4) by (simp add: job_ok_def)
    from co_start_ok [of co h old "db_disk db" S, OF this till log st'] show ?thesis
      using Co_starts by simp
  next
    case Co_waits
    then show ?thesis
      using w(4) by (simp add: task_ok_def)
  next
    case (Co_values vals)
    then show ?thesis
      using processValues_ok [where disk = "db_disk db" and S = S, OF _ _ till log st'(1,3)] w(4) by (simp add: job_ok_def)
  next
    case (Co_catches pos len)
    then show ?thesis
      using finalize_round_ok [where disk = "db_disk db" and S = S, OF _ _ till log st'(1,3)] w(4) by (simp add: job_ok_def)
  qed
  show ?thesis
  proof (rule ensures_mono [OF run])
    fix r
    assume "task_ok h old S (map_of (db_map db)) co (db_disk db) r"
    moreover obtain phase' co' disk' where r: "r = (phase', co', disk')"
      by (rule prod_cases3)
    ultimately have ok: "same_job co co'" "only_compact co (db_disk db) disk'"
      "failing co' \<or> job_ok h old S (map_of (db_map db)) phase' co' disk'"
      by (simp_all add: task_ok_def)
    have "open_log (db\<lparr> db_disk := disk' \<rparr>) (log_of h (old @ S))"
      using w(1) ok(2) path(2) by (simp add: open_log_def only_compact_def binlogPath_def)
    then have "works_on (db\<lparr> db_disk := disk' \<rparr>) co' phase'" if "job_ok h old S (map_of (db_map db)) phase' co' disk'"
      unfolding works_on_def using w(2,3) that by (intro exI [of _ h] exI [of _ old] exI [of _ S]) simp
    then show "case r of (phase', co', disk') \<Rightarrow> same_job co co' \<and> only_compact co (db_disk db) disk' \<and>
        (failing co' \<or> works_on (db\<lparr> db_disk := disk' \<rparr>) co' phase')"
      using ok r by auto
  qed
qed

lemma task_keeps:
  assumes ok: "compacting_ok s" and job: "cs_job s = Some (co, phase)"
    and run: "co_task env phase co (db_disk (cs_db s)) = Inr (phase', co', disk')"
  shows "compacting_ok (s\<lparr> cs_db := (cs_db s)\<lparr> db_disk := disk' \<rparr>, cs_job := Some (co', phase') \<rparr>)"
proof -
  let ?db = "cs_db s" and ?db' = "(cs_db s)\<lparr> db_disk := disk' \<rparr>"
  have base: "co_base co = db_path ?db" and db: "cache_ok ?db" "settings_ok (db_settings ?db)"
    using ok job by (auto simp: compacting_ok_def)
  note frame = co_task_frame [OF run]
  then obtain ms where kept: "same_job co co'" "only_compact co (db_disk ?db) disk'" "co_posted co' = co_posted co @ ms"
    by (auto simp: goes_on_def)
  have "binlogPath ?db \<noteq> compactPath co"
    using binlogPath_not_compact [of co] by (simp add: co_binlogPath_def binlogPath_def base)
  then have "cache_ok ?db'"
    using cache_ok_disk [OF db(1)] kept(2) by (simp add: only_compact_def)
  moreover have "job_for ?db' co' phase'" if "compacts ?db"
  proof -
    have job_is: "job_for ?db co phase"
      using ok job \<open>compacts ?db\<close> by (auto simp: compacting_ok_def)
    have "failing co' \<or> works_on ?db' co' phase'" if "works_on ?db co phase"
      using works_on_tasks [OF that db(2) base, of env] job_is run by (auto simp: job_for_def)
    moreover have "failing co \<longrightarrow> failing co'"
      using kept(3) by (auto simp: failing_def)
    ultimately show ?thesis
      using job_is kept(1) by (auto simp: job_for_def same_job_def)
  qed
  moreover have "co_base co' = db_path ?db"
    using base kept(1) by (simp add: same_job_def)
  ultimately show ?thesis
    using db(2) by (simp add: compacting_ok_def)
qed

lemma getManyRaw_map: "map_of (getManyRaw keys db) k = (if k \<in> set keys then map_of (db_map db) k else None)"
  by (induction keys) (auto simp: getManyRaw_def map_entry_def split: option.split)

lemma getManyRaw_entry: "(k, e) \<in> set (getManyRaw keys db) \<Longrightarrow> map_of (db_map db) k = Some e"
  by (auto simp: getManyRaw_def map_entry_def split: option.splits)

lemma job_ok_fresh: "co = CompactorObject base st info \<Longrightarrow> co_posted co = []"
  by (simp add: CompactorObject_def)

lemma job_ok_keys:
  assumes "job_ok h old S D phase co disk" "co_posted co = Post_keys keys # ms"
  shows "ms = []" "collects h old S D keys [] co disk"
  using assms job_ok_fresh by (fastforce simp: job_ok_def split: co_phase.splits)+

lemma job_ok_done:
  assumes "job_ok h old S D phase co disk" "co_posted co = Post_done till # ms"
  shows "copies h old S D till co disk"
  using assms job_ok_fresh by (fastforce simp: job_ok_def split: co_phase.splits)

lemma compactorFail_ok:
  assumes "cache_ok db"
  shows "cache_ok (compactorFail env db)" "only_log db (compactorFail env db)" "\<not> compacts (compactorFail env db)"
proof -
  have "ended db ys (compactorFail env db)" for ys
    by (rule compactorFail_ended(1) [where d = "db_disk db" and b = "db_binlog db" and e = "db_excess db" and c = "db_compactor db"])
      simp_all
  then show only: "only_log db (compactorFail env db)" "\<not> compacts (compactorFail env db)"
    by (simp_all add: ended_def)
  have "binlogPath db \<noteq> compactReadyPath db"
    using log_names_distinct by (simp add: binlogPath_def compactReadyPath_def)
  then have "db_binlog (compactorFail env db) = db_binlog db"
    "db_disk (compactorFail env db) (binlogPath db) = db_disk db (binlogPath db)"
    by (simp_all add: compactorFail_def remove_file_def Let_def compactReadyPath_def)
  then have "log_ok (set (db_removing db)) (compactorFail env db)"
    using assms only_log_fields [OF only(1)] by (simp add: cache_ok_def log_for_def open_log_def)
  then show "cache_ok (compactorFail env db)"
    by (rule only_log_ok [OF assms only(1)])
qed

lemma answer_works:
  assumes works: "works_on db co phase" and posted: "co_posted co = Post_keys keys # ms" and ok: "cache_ok db"
    and st: "settings_ok (db_settings db)" and off: "limits_off (co_settings co) = limits_off (db_settings db)"
  shows "works_on db (co\<lparr> co_posted := ms \<rparr>) (Co_values (getManyRaw keys db))"
proof -
  let ?co = "co\<lparr> co_posted := ms \<rparr>" and ?vals = "getManyRaw keys db" and ?D = "map_of (db_map db)" and ?st = "co_settings co"
  obtain h old S where w: "open_log db (log_of h (old @ S))" "header_for (db_settings db) h"
    "list_all (record_valid (db_settings db)) (old @ S)" "job_ok h old S ?D phase co (db_disk db)"
    using works unfolding works_on_def by blast
  have till: "ci_till (co_info co) = int (length (log_of h old))" and ms: "ms = []" and
    c: "collects h old S ?D keys [] co (db_disk db)"
    using w(4) job_ok_keys [OF w(4) posted] by (simp_all add: job_ok_def)
  obtain recs pos ks where parts: "written_ok h recs co (db_disk db)" "co_binlog co = Some pos"
    "reading ?st (length (log_of h old)) (log_of h (old @ S)) (co_wrapper co) pos ks"
    "agrees ?st (set keys \<union> set ks) ?D (says h old) S (new_view h recs co)"
    using c unfolding collects_def by auto
  note view = cache_ok_view [OF ok w(1-3)]
  have st': "trackEstimatedTime ?st = trackEstimatedTime (db_settings db)" "maxDataSize ?st = maxDataSize (db_settings db)"
    "record_valid ?st = record_valid (db_settings db)"
    using limits_off_eqD(2,3,6) [OF off] by simp_all
  have "values_ok ?st h (snd (says h (old @ S))) ?vals"
  proof -
    have "value_ok ?st h e \<and> en_use_time e \<le> snd (says h (old @ S))" if "(k, e) \<in> set ?vals" for k e
    proof -
      have e: "?D k = Some e"
        by (rule getManyRaw_entry [OF that])
      then have "fst (says h (old @ S)) k = Some e"
        using view(1) by (auto simp: hidden_def split: if_splits)
      moreover have "times_ok (db_settings db) (says h (old @ S))"
        by (rule log_says_times [OF log_says_says [OF w(2,3)]])
      ultimately have "en_use_time e \<le> snd (says h (old @ S))" "same_clock (db_settings db) (en_use_time e) (snd (says h (old @ S)))"
        by (auto simp: times_ok_def)
      moreover have "entry_ok (db_settings db) e"
        using entry_ok_of [OF _ e] ok by (simp add: cache_ok_def core_ok_def)
      moreover have "\<not> trackEstimatedTime (db_settings db) \<Longrightarrow> snd (says h (old @ S)) = ucast (hdr_time h)"
        by (rule says_untracked [OF w(3)])
      ultimately show ?thesis
        using st st' by (auto simp: value_ok_def entry_ok_def same_clock_def settings_ok_def)
    qed
    then show ?thesis
      by (auto simp: values_ok_def list_all_iff)
  qed
  moreover have "agrees ?st (set ks) ?D (says h old) S (map_of ?vals ++ fst (new_view h recs co), snd (new_view h recs co))"
  proof (rule agrees_answer [OF parts(4)])
    show "list_all (record_valid ?st) S"
      using w(3) st'(3) by simp
    show "?D = hidden (set (db_removing db)) (fst (fold replay S (says h old)))"
      using view(1) by (simp add: says_append)
  qed (rule getManyRaw_map)
  ultimately have "collects h old S ?D [] ?vals ?co (db_disk db)"
    unfolding collects_def using parts(1-3) by auto
  then have "job_ok h old S ?D (Co_values ?vals) ?co (db_disk db)"
    using till ms by (simp add: job_ok_def)
  then show ?thesis
    unfolding works_on_def using w(1-3) by blast
qed

lemma deliver_keeps:
  assumes ok: "compacting_ok s" and job: "cs_job s = Some (co, phase)" and posted: "co_posted co = m # ms"
    and guard: "binlog_is_open (cs_db s) \<or> (\<forall>till. m \<noteq> Post_done till)"
  shows "ensures (deliver env m (cs_db s) phase co) (\<lambda>(db', phase').
    compacting_ok (s\<lparr> cs_db := db', cs_job := Some (co\<lparr> co_posted := ms \<rparr>, phase') \<rparr>) \<and> only_log (cs_db s) db')"
proof -
  let ?db = "cs_db s" and ?co = "co\<lparr> co_posted := ms \<rparr>"
  have base: "co_base co = db_path ?db" and db: "cache_ok ?db" "settings_ok (db_settings ?db)"
    and job_is: "compacts ?db \<Longrightarrow> job_for ?db co phase"
    using ok job by (auto simp: compacting_ok_def)
  have ended_job: "compacting_ok (s\<lparr> cs_db := db', cs_job := Some (?co, phase') \<rparr>)"
    if "cache_ok db'" "only_log ?db db'" "\<not> compacts db'" for db' phase'
    using that only_log_fields [OF that(2)] db(2) base by (simp add: compacting_ok_def)
  have idle: "compacting_ok (s\<lparr> cs_db := ?db, cs_job := Some (?co, phase') \<rparr>)" if "\<not> compacts ?db" for phase'
    using that db base by (simp add: compacting_ok_def)
  show ?thesis
  proof (cases m)
    case Post_fail
    show ?thesis
      using Post_fail ended_job compactorFail_ok [OF db(1), of env] only_log_fields by simp
  next
    case (Post_keys keys)
    have "compacting_ok (s\<lparr> cs_db := ?db, cs_job := Some (?co, Co_values (getManyRaw keys ?db)) \<rparr>)" if "compacts ?db"
    proof -
      have "works_on ?db ?co (Co_values (getManyRaw keys ?db))" if "works_on ?db co phase"
        using answer_works [OF that _ db] posted Post_keys job_is \<open>compacts ?db\<close> by (simp add: job_for_def)
      moreover have "\<not> failing co"
        using posted Post_keys by (simp add: failing_def)
      ultimately have "job_for ?db ?co (Co_values (getManyRaw keys ?db))"
        using job_is [OF \<open>compacts ?db\<close>] by (auto simp: job_for_def)
      then show ?thesis
        using db base \<open>compacts ?db\<close> by (simp add: compacting_ok_def)
    qed
    then show ?thesis
      using Post_keys idle by simp
  next
    case (Post_done till)
    show ?thesis
    proof (cases "compacts ?db")
      case True
      have "db_binlog ?db \<noteq> None"
        using guard Post_done by (simp add: binlog_is_open_def)
      then have works: "works_on ?db co phase"
        using job_is [OF True] posted Post_done by (auto simp: job_for_def failing_def)
      then obtain h old S where w: "open_log ?db (log_of h (old @ S))" "header_for (db_settings ?db) h"
        "list_all (record_valid (db_settings ?db)) (old @ S)" "job_ok h old S (map_of (db_map ?db)) phase co (db_disk ?db)"
        unfolding works_on_def by blast
      have copy: "copies h old S (map_of (db_map ?db)) till co (db_disk ?db)"
        using job_ok_done [OF w(4)] posted Post_done by simp
      have "ensures (compactorDone env (compactPath co) till ?db) (\<lambda>db'. cache_ok db' \<and> only_log ?db db' \<and> \<not> compacts db')"
        using compactorDone_ok [OF db(1) w(1-3) db(2) _ _ copy] job_is [OF True] by (simp add: job_for_def compactPath_def base)
      then show ?thesis
        using Post_done True ended_job only_log_fields by (auto elim!: ensuresE)
    qed (use Post_done idle in simp)
  qed
qed

lemma job_step_keeps:
  assumes "job_step s s'" "compacting_ok s"
  shows "compacting_ok s'" "only_log (cs_db s) (cs_db s')"
proof -
  show "compacting_ok s'"
    using assms
  proof (induction rule: job_step.induct)
    case (Step_task s co phase env phase' co' disk')
    then show ?case
      using task_keeps by blast
  next
    case (Step_deliver s co phase m ms env db' phase')
    then show ?case
      using deliver_keeps [OF Step_deliver.prems Step_deliver.hyps(1,2,4), of env] by simp
  qed
  show "only_log (cs_db s) (cs_db s')"
    using assms
  proof (induction rule: job_step.induct)
    case (Step_task s co phase env phase' co' disk')
    have "co_base co = db_path (cs_db s)"
      using Step_task by (auto simp: compacting_ok_def)
    then have "\<forall>p. p \<noteq> db_path (cs_db s) @ CompactFilename \<longrightarrow> disk' p = db_disk (cs_db s) p"
      using co_task_frame [OF Step_task.hyps(2)] by (simp add: goes_on_def only_compact_def compactPath_def)
    then show ?case
      unfolding only_log_def
      by (intro exI [of _ disk'] exI [of _ "db_binlog (cs_db s)"] exI [of _ "db_excess (cs_db s)"] exI [of _ "db_compactor (cs_db s)"]) simp
  next
    case (Step_deliver s co phase m ms env db' phase')
    then show ?case
      using deliver_keeps [OF Step_deliver.prems Step_deliver.hyps(1,2,4), of env] by simp
  qed
qed

lemma compacting_step_keeps: "compacting_step s s' \<Longrightarrow> compacting_ok s \<Longrightarrow> compacting_ok s'"
proof (induction rule: compacting_step.induct)
  case (Step_call env call s db')
  note keeps = call_keeps [OF Step_call.prems Step_call.hyps(1-4)]
  have "\<exists>co phase. cs_job s = Some (co, phase) \<and> job_for db' co phase" if run: "compacts (cs_db s)"
  proof -
    obtain co phase where job: "cs_job s = Some (co, phase)" "job_for (cs_db s) co phase" "co_base co = db_path (cs_db s)"
      using Step_call.prems run by (auto simp: compacting_ok_def)
    then show ?thesis
      using job_for_grows [OF job(2,3) run keeps(4,5)] by blast
  qed
  then show ?case
    using keeps(1-3) Step_call.hyps(5) Step_call.prems by (simp add: compacting_ok_def)
next
  case (Step_start env call s db' info)
  note keeps = call_keeps [OF Step_start.prems Step_start.hyps(1-4)]
  have "cache_ok (cs_db s)"
    using Step_start.prems by (simp add: compacting_ok_def)
  then have "job_for db' (CompactorObject (db_path db') (db_settings db') info) Co_starts"
    using started_job [OF _ keeps(4,6) Step_start.hyps(5-7)] by blast
  then show ?case
    using keeps(1,2) by (simp add: compacting_ok_def start_of_def) (simp add: CompactorObject_def)
next
  case (Step_job s s')
  then show ?case
    by (rule job_step_keeps(1))
qed

lemma compacting_run_keeps: "compacting_step\<^sup>*\<^sup>* s s' \<Longrightarrow> compacting_ok s \<Longrightarrow> compacting_ok s'"
  by (induction rule: rtranclp_induct) (auto intro: compacting_step_keeps)

section \<open>What holds of a compaction\<close>

text \<open>No compactor runs yet.\<close>

definition at_rest :: "compacting \<Rightarrow> bool" where
  "at_rest s \<longleftrightarrow> cache_ok (cs_db s) \<and> settings_ok (db_settings (cs_db s)) \<and> \<not> compacts (cs_db s) \<and> cs_job s = None"

lemma at_rest_ok: "at_rest s \<Longrightarrow> compacting_ok s"
  by (simp add: at_rest_def compacting_ok_def)

text \<open>C6. Compacting the log changes nothing of what the cache holds. Start from a cache in order with no
  compactor running, and let operations of the cache, tasks of the compactor and the delivery of its
  messages follow in any order, with any answers of the disk; only that the compactor is done is
  not told to a cache whose log has been closed meanwhile (what comes of that is C40). Then after each step the cache is in
  order: its counters are those of its entries, and its log, if it is open, stands for its entries,
  also when the new log has just come into the place of the old one. A step of the compaction itself
  changes only the files of the logs and what the cache keeps about them.\<close>

theorem compaction_keeps_cache:
  assumes "at_rest s" "compacting_step\<^sup>*\<^sup>* s s'"
  shows "cache_ok (cs_db s') \<and> (\<forall>s''. job_step s' s'' \<longrightarrow> only_log (cs_db s') (cs_db s''))"
proof -
  have "compacting_ok s'"
    using compacting_run_keeps [OF assms(2) at_rest_ok [OF assms(1)]] .
  then show ?thesis
    using job_step_keeps(2) by (simp add: compacting_ok_def)
qed

lemma works_on_busy:
  assumes "works_on db co phase"
  shows "co_posted co = [] \<Longrightarrow> phase \<noteq> Co_waits"
  using assms by (auto simp: works_on_def job_ok_def)

text \<open>C14. A compaction never stands still, and no assertion of the code stops it: as long as the log is
  open and the database keeps its compactor, the compactor has sent a message that the database can
  take, or has a task on its queue that runs to its end.\<close>

theorem compaction_never_stuck:
  assumes "at_rest s" "compacting_step\<^sup>*\<^sup>* s s'" "compacts (cs_db s')" "binlog_is_open (cs_db s')"
  shows "\<exists>co phase. cs_job s' = Some (co, phase) \<and> (case co_posted co of
      [] \<Rightarrow> phase \<noteq> Co_waits \<and> ensures (co_task env phase co (db_disk (cs_db s'))) (\<lambda>_. True)
    | m # ms \<Rightarrow> ensures (deliver env m (cs_db s') phase co) (\<lambda>_. True))"
proof -
  have ok: "compacting_ok s'"
    using compacting_run_keeps [OF assms(2) at_rest_ok [OF assms(1)]] .
  then obtain co phase where job: "cs_job s' = Some (co, phase)" "job_for (cs_db s') co phase" "co_base co = db_path (cs_db s')"
    and st: "settings_ok (db_settings (cs_db s'))"
    using assms(3) by (auto simp: compacting_ok_def)
  show ?thesis
  proof (cases "co_posted co")
    case Nil
    then have works: "works_on (cs_db s') co phase"
      using job(2) assms(4) by (auto simp: job_for_def failing_def binlog_is_open_def)
    have "ensures (co_task env phase co (db_disk (cs_db s'))) (\<lambda>_. True)"
      by (rule ensures_mono [OF works_on_tasks [OF works st job(3)]]) (use job(2) in \<open>auto simp: job_for_def\<close>)
    then show ?thesis
      using Nil job(1) works_on_busy [OF works] by auto
  next
    case (Cons m ms)
    have "ensures (deliver env m (cs_db s') phase co) (\<lambda>_. True)"
      by (rule ensures_mono [OF deliver_keeps [OF ok job(1) Cons]]) (use assms(4) in auto)
    then show ?thesis
      using Cons job(1) by auto
  qed
qed

section \<open>The rounds of catching up\<close>

lemma catch_up_loop_reaches: "catch_up_loop env block till pos binlog compact = Inr (r, c) \<Longrightarrow> r = 0 \<or> r = till"
proof (induction env block till pos binlog compact rule: catch_up_loop.induct)
  case (1 env block till pos binlog compact)
  obtain got binlog1 where got: "plain_read (nat (min (till - pos) block)) binlog = (got, binlog1)"
    by (metis surj_pair)
  show ?case
    using "1.prems" "1.IH" [OF refl got [symmetric] refl]
    by (subst (asm) catch_up_loop.simps) (auto simp: got Let_def expects_def split: if_splits)
qed

lemma CatchUp_forward:
  "CatchUp env path log pos block disk = Inr (till, disk') \<Longrightarrow> till \<noteq> 0 \<Longrightarrow> pos \<le> till"
  by (auto simp: CatchUp_def bind_outcome_Inr_iff Let_def dest!: catch_up_loop_reaches split: option.splits if_splits prod.splits)

lemma finalize_round_shrinks:
  assumes "finalize_round env pos len co disk = Inr (Co_catches till len', co', disk')" "till - pos < 2 ^ 31"
  shows "0 < len'" "0 < len \<Longrightarrow> len' < len"
proof -
  obtain disk1 where run: "CatchUp env (compactPath co) (co_binlogPath co) pos (readBlockSize (co_settings co)) disk = Inr (till, disk1)"
    and on: "till \<noteq> 0" "till \<noteq> pos" "\<not> (len > 0 \<and> till - pos \<ge> len)" "len' = sint (word_of_int (till - pos) :: 32 word)"
    using assms(1) by (auto simp: finalize_round_def bind_outcome_Inr_iff split: if_splits)
  have "0 < till - pos"
    using CatchUp_forward [OF run on(1)] on(2) by simp
  moreover have "sint (word_of_int n :: 32 word) = n" if "0 < n" "n < 2 ^ 31" for n
    using that by (simp add: sint_sbintrunc' signed_take_bit_int_eq_self)
  ultimately have "len' = till - pos"
    using assms(2) unfolding on(4) by blast
  then show "0 < len'" "0 < len \<Longrightarrow> len' < len"
    using \<open>0 < till - pos\<close> on(3) by auto
qed

text \<open>C15. \<open>finalize\<close> ends, however the log grows meanwhile: there is no endless sequence of its rounds, if
  less than two gigabytes are added to the log during each.\<close>

theorem finalize_ends:
  "\<not> (\<exists>pos len env disk. \<forall>i :: nat. pos (Suc i) - pos i < 2 ^ 31 \<and> (\<exists>disk'.
     finalize_round (env i) (pos i) (len i) co (disk i) = Inr (Co_catches (pos (Suc i)) (len (Suc i)), co, disk')))"
proof
  assume "\<exists>pos len env disk. \<forall>i :: nat. pos (Suc i) - pos i < 2 ^ 31 \<and> (\<exists>disk'.
     finalize_round (env i) (pos i) (len i) co (disk i) = Inr (Co_catches (pos (Suc i)) (len (Suc i)), co, disk'))"
  then obtain pos len env disk where rounds: "\<And>i :: nat. pos (Suc i) - pos i < 2 ^ 31"
    "\<And>i. \<exists>disk'. finalize_round (env i) (pos i) (len i) co (disk i) = Inr (Co_catches (pos (Suc i)) (len (Suc i)), co, disk')"
    by blast
  have step: "0 < len (Suc i)" "0 < len i \<Longrightarrow> len (Suc i) < len i" for i
    using rounds(2) [of i] finalize_round_shrinks [OF _ rounds(1)] by blast+
  then have "nat (len (Suc (Suc i))) < nat (len (Suc i))" for i
    by simp
  then show False
    using wf_no_infinite_down_chainE [OF wf_less, of "\<lambda>i. nat (len (Suc i))"] by auto
qed

text \<open>C40. When the log of the cache was closed because it could not be written, and the compactor is done,
  the incomplete new log replaces the old one: the size of a closed log is zero, and so is the value
  \<open>CatchUp\<close> returns when it fails, as it does on a full disk. The cache then goes on with a log that lacks
  what was stored since.\<close>

theorem compaction_after_lost_log:
  assumes closed: "db_binlog db = None" and new: "db_disk db (db_path db @ CompactFilename) = Some ys"
    and old: "db_disk db (binlogPath db) = Some xs" and till: "0 \<le> till" "till < int (length xs)" "(int (length xs) - till) mod 16 = 0"
    and block: "0 < readBlockSize (db_settings db)" "readBlockSize (db_settings db) mod 16 = 0"
    and excess: "cw_excess (db_compactor db) \<le> db_excess db"
    and full: "ce_write_log env = (\<lambda>_. False)" "ce_open env = (\<lambda>_ _. Result_Success)" "ce_move_file env = (\<lambda>_ _. True)"
  shows "ensures (compactorDone env (db_path db @ CompactFilename) till db) (\<lambda>db'. open_log db' ys \<and>
    db_map db' = db_map db \<and> db_removing db' = db_removing db \<and> db_settings db' = db_settings db)"
proof -
  let ?path = "db_path db @ CompactFilename" and ?log = "binlogPath db" and ?ready = "compactReadyPath db"
  have names: "?path \<noteq> ?log" "?log \<noteq> ?path" "?path \<noteq> ?ready" "?ready \<noteq> ?path" "?log \<noteq> ?ready" "?ready \<noteq> ?log"
    using log_names_distinct by (simp_all add: compactReadyPath_def binlogPath_def)
  have size: "binlog_size db = 0"
    using closed by (simp add: binlog_size_def binlog_content_def)
  have "0 < min (int (length xs) - till) (readBlockSize (db_settings db))"
    "min (int (length xs) - till) (readBlockSize (db_settings db)) mod 16 = 0"
    using till block by (auto simp: min_def)
  then have loop: "catch_up_loop env (readBlockSize (db_settings db)) (int (length xs)) till \<lparr> pf_data = xs, pf_offset = nat till \<rparr> c = Inr (0, c)"
    for c
    using full(1) by (subst catch_up_loop.simps) (simp add: plain_read_def Let_def)
  have caught: "CatchUp env ?path ?log till (readBlockSize (db_settings db)) (db_disk db) = Inr (0, db_disk db)"
    using old new till loop full(2) names
    by (simp add: CatchUp_def plain_seek_def disk_file_def Let_def fun_upd_idem)
  then show ?thesis
    using closed new excess full(2,3) names
    by (cases "till = 0") (simp_all add: compactorDone_def size move_file_def open_log_file_def binlog_content_def
        binlog_size_def plain_seek_def binlog_close_def open_log_def binlogPath_def compactReadyPath_def Let_def)
qed

section \<open>A compaction from beginning to end\<close>

text \<open>A call that starts a compactor, and what is done then as long as nothing else happens.\<close>

definition run_start :: "cache_env \<Rightarrow> cache_call \<Rightarrow> compacting \<Rightarrow> compacting outcome" where
  "run_start env call s = bind_outcome (run_call env call (cs_db s)) (\<lambda>db'.
     case last_start (db_events db') of
       None \<Rightarrow> Inl Still_running
     | Some info \<Rightarrow> if compacts db' then Inr (s\<lparr> cs_db := db', cs_job := start_of db' info \<rparr>) else Inl Still_running)"

definition run_job :: "cache_env \<Rightarrow> compacting \<Rightarrow> compacting outcome" where
  "run_job env s = (case cs_job s of None \<Rightarrow> Inl Still_running | Some (co, phase) \<Rightarrow> (case co_posted co of
      [] \<Rightarrow> bind_outcome (co_task env phase co (db_disk (cs_db s))) (\<lambda>(phase', co', disk').
        Inr (s\<lparr> cs_db := (cs_db s)\<lparr> db_disk := disk' \<rparr>, cs_job := Some (co', phase') \<rparr>))
    | m # ms \<Rightarrow> if binlog_is_open (cs_db s) then bind_outcome (deliver env m (cs_db s) phase co) (\<lambda>(db', phase').
        Inr (s\<lparr> cs_db := db', cs_job := Some (co\<lparr> co_posted := ms \<rparr>, phase') \<rparr>)) else Inl Still_running))"

fun run_jobs :: "nat \<Rightarrow> cache_env \<Rightarrow> compacting \<Rightarrow> compacting outcome" where
  "run_jobs 0 env s = Inr s"
| "run_jobs (Suc n) env s = bind_outcome (run_job env s) (run_jobs n env)"

lemma run_job_step: "run_job env s = Inr s' \<Longrightarrow> job_step s s'"
  by (auto simp: run_job_def bind_outcome_Inr_iff split: option.splits list.splits if_splits intro: job_step.intros)

lemma run_jobs_steps: "run_jobs n env s = Inr s' \<Longrightarrow> compacting_step\<^sup>*\<^sup>* s s'"
proof (induction n arbitrary: s)
  case (Suc n)
  then obtain s1 where "run_job env s = Inr s1" "run_jobs n env s1 = Inr s'"
    by (auto simp: bind_outcome_Inr_iff)
  then show ?case
    using Suc.IH Step_job [OF run_job_step] by (meson converse_rtranclp_into_rtranclp)
qed simp

lemma run_start_step:
  assumes "run_start env call s = Inr s'" "env_ok env" "time_ok env (cs_db s)" "call_ok env call (cs_db s)" "\<not> compacts (cs_db s)"
  shows "compacting_step s s'"
  using assms by (auto simp: run_start_def bind_outcome_Inr_iff split: option.splits if_splits intro: Step_start)

definition sample_compacting :: compacting where
  "sample_compacting = \<lparr> cs_db = sample_db\<lparr> db_excess := 9 * 1024 * 1024 \<rparr>, cs_job = None \<rparr>"

definition sample_run :: "nat \<Rightarrow> compacting outcome" where
  "sample_run n = bind_outcome (run_start sample_env Task_write_bundles sample_compacting) (run_jobs n sample_env)"

text \<open>The log of the run has 96 bytes when the compactor starts, and 80 when it is done.\<close>

lemma sample_run_ends:
  "case sample_run 5 of Inl _ \<Rightarrow> False | Inr s' \<Rightarrow> \<not> compacts (cs_db s') \<and> binlog_size (cs_db s') = 80"
  by code_simp

lemma sample_at_rest: "at_rest sample_compacting" "env_ok sample_env" "time_ok sample_env (cs_db sample_compacting)"
proof -
  have "cache_ok sample_db" "time_ok sample_env sample_db"
    using sample_db_ok by (simp_all add: db_ok_split)
  moreover have "settings_ok default_settings"
    using sample_blocks by (simp add: settings_ok_def default_settings_def kBundledRecordsLimit_def kDataSizeLimit_def)
  moreover have "db_settings sample_db = default_settings" "\<not> compacts sample_db"
    by (simp_all add: sample_db_def no_compactor_def)
  ultimately show "at_rest sample_compacting" "time_ok sample_env (cs_db sample_compacting)"
    by (simp_all add: at_rest_def sample_compacting_def cache_ok_def core_ok_def queues_ok_def log_for_def open_log_def binlogPath_def time_ok_def)
  show "env_ok sample_env"
    by (simp add: env_ok_def clock_ok_def sample_env_def GetUnixtime_def)
qed

lemma sample_run_steps: "sample_run n = Inr s' \<Longrightarrow> compacting_step\<^sup>*\<^sup>* sample_compacting s'"
proof -
  assume "sample_run n = Inr s'"
  then obtain s where "run_start sample_env Task_write_bundles sample_compacting = Inr s" "run_jobs n sample_env s = Inr s'"
    by (auto simp: sample_run_def bind_outcome_Inr_iff)
  moreover have "compacting_step sample_compacting s" if "run_start sample_env Task_write_bundles sample_compacting = Inr s"
    using run_start_step [OF that sample_at_rest(2,3)] sample_at_rest(1) by (simp add: at_rest_def)
  ultimately show ?thesis
    using run_jobs_steps by (meson converse_rtranclp_into_rtranclp)
qed

lemma sample_run_starts: "case sample_run 1 of Inl _ \<Rightarrow> False | Inr s' \<Rightarrow> compacts (cs_db s') \<and> binlog_is_open (cs_db s')"
  by code_simp

theorem compaction_keeps_cache_witness:
  "\<exists>s'. compacting_step\<^sup>*\<^sup>* sample_compacting s' \<and> \<not> compacts (cs_db s') \<and> binlog_size (cs_db s') = 80 \<and> cache_ok (cs_db s')"
proof -
  obtain s' where s': "sample_run 5 = Inr s'" "\<not> compacts (cs_db s')" "binlog_size (cs_db s') = 80"
    using sample_run_ends by (cases "sample_run 5") auto
  note run = sample_run_steps [OF s'(1)]
  show ?thesis
    using compaction_keeps_cache [OF sample_at_rest(1) run] run s'(2,3) by blast
qed

theorem compaction_never_stuck_witness:
  "\<exists>s' co phase. compacting_step\<^sup>*\<^sup>* sample_compacting s' \<and> cs_job s' = Some (co, phase) \<and> (case co_posted co of
      [] \<Rightarrow> phase \<noteq> Co_waits \<and> ensures (co_task sample_env phase co (db_disk (cs_db s'))) (\<lambda>_. True)
    | m # ms \<Rightarrow> ensures (deliver sample_env m (cs_db s') phase co) (\<lambda>_. True))"
proof -
  obtain s' where s': "sample_run 1 = Inr s'" "compacts (cs_db s')" "binlog_is_open (cs_db s')"
    using sample_run_starts by (cases "sample_run 1") auto
  note run = sample_run_steps [OF s'(1)]
  show ?thesis
    using compaction_never_stuck [OF sample_at_rest(1) run s'(2,3), of sample_env] run by blast
qed

definition lost_db :: cache_db where
  "lost_db = sample_db\<lparr> db_disk := (db_disk sample_db)(''c/0/binlog-temp'' \<mapsto> header_bytes sample_header), db_binlog := None,
     db_compactor := no_compactor\<lparr> cw_object := True \<rparr> \<rparr>"

theorem compaction_after_lost_log_witness:
  "ensures (compactorDone (sample_env\<lparr> ce_write_log := (\<lambda>_. False) \<rparr>) ''c/0/binlog-temp'' 16 lost_db)
    (\<lambda>db'. binlog_is_open db' \<and> map_of (db_map db') sample_key = Some sample_entry \<and> \<not> cache_ok db')"
proof -
  let ?env = "sample_env\<lparr> ce_write_log := (\<lambda>_. False) \<rparr>" and ?ys = "log_of sample_header []"
  have path: "db_path lost_db @ CompactFilename = ''c/0/binlog-temp''" "binlogPath lost_db = ''c/0/binlog''"
    by (simp_all add: lost_db_def sample_db_def CompactFilename_def binlogPath_def BinlogFilename_def)
  have disk: "db_disk lost_db ''c/0/binlog-temp'' = Some ?ys" "db_disk lost_db ''c/0/binlog'' = Some sample_log"
    using sample_path(2) [of sample_place] by (simp_all add: lost_db_def log_of_def) (simp add: sample_db_def)
  have fields: "db_binlog lost_db = None" "cw_excess (db_compactor lost_db) \<le> db_excess lost_db"
    "db_settings lost_db = default_settings" "db_map lost_db = [(sample_key, sample_entry)]" "db_removing lost_db = []"
    by (simp_all add: lost_db_def sample_db_def no_compactor_def)
  have len: "length sample_log = 64"
    by code_simp
  have header: "header_for default_settings sample_header"
    by (simp add: header_for_def sample_header_def BasicHeader_def default_settings_def)
  have bad: "\<not> cache_ok db'" if "open_log db' ?ys" "db_map db' = db_map lost_db" "db_settings db' = default_settings" for db'
    using cache_ok_view(1) [of db' sample_header "[]"] header that fields
    by (auto simp: says_def hidden_def fun_eq_iff split: if_splits)
  have "ensures (compactorDone ?env (db_path lost_db @ CompactFilename) 16 lost_db) (\<lambda>db'. open_log db' ?ys \<and>
      db_map db' = db_map lost_db \<and> db_removing db' = db_removing lost_db \<and> db_settings db' = db_settings lost_db)"
    by (rule compaction_after_lost_log [where xs = sample_log]) (use path disk fields len in \<open>simp_all add: sample_env_def default_settings_def\<close>)
  then show ?thesis
    unfolding path
    by (rule ensures_mono) (use bad fields in \<open>auto simp: open_log_def binlog_is_open_def\<close>)
qed

end
