(* ===== verification/Spec2Isabelle.thy ===== *)
theory Spec2Isabelle
  imports Prelude Flat_Map Sparse_Ids_Slice Shared_Media Feed_Messages User_Photos Pts_Waiter Lang_Value Cache_Refinement Cache_Pruning Cache_System
begin

text \<open>
  Bettergram is a desktop messaging client (C++, Qt), a fork of Telegram Desktop. Most of it is
  user interface and network glue; this development verifies the parts that carry logic of
  their own, below the interface: what the client knows of message histories and in which order
  it applies the updates of the server, the containers this rests on, the language pack, and
  the encrypted cache of media on disk.
  All paths below are under src/Telegram/SourceFiles/.

  \<^bold>\<open>How the parts interact.\<close> \<open>base::flat_set\<close> and \<open>base::flat_map\<close> hold the identifiers and
  slices everywhere. The storage layer keeps, for a chat and a type of media, a
  \<open>SparseIdsList\<close>: slices of a history that are known completely. \<open>Storage::SharedMedia\<close>,
  \<open>Storage::FeedMessages\<close> and \<open>Storage::UserPhotos\<close> hold one list per key and fire an update on
  each change. A viewer (\<open>SparseIdsSliceBuilder\<close>, \<open>MessagesSliceBuilder\<close>,
  \<open>UserPhotosSliceBuilder\<close>) queries its list once, follows the updates and requests what is
  missing from the server. \<open>PtsWaiter\<close> stands before all this: it orders the updates that
  come from the server. The language pack is read from files (\<open>FileParser\<close>), its values have
  their tags extracted (\<open>ValueParser\<close>), and \<open>Lang::Plural\<close> and \<open>ReplaceTag\<close> make the strings.

  The cache (\<open>DatabaseObject\<close>) keeps values in encrypted files, one per value, and a table from
  keys to their places in memory. Each change of the table is first written to a log, the
  \<open>binlog\<close>, an encrypted file of records that only grows; opening the cache reads it in blocks
  (\<open>BinlogWrapper\<close>, \<open>BinlogReader\<close>) and does the changes again. A compactor
  (\<open>CompactorObject\<close>) on a queue of its own writes the log anew when much of it is out of date. Removals and uses are gathered
  and written in bundles by a timer; old entries are pruned by another. \<open>File\<close> enciphers a
  file in counter mode under a key derived from its salt, with a checked header.

  \<^bold>\<open>Theories.\<close>
  \<^item> \<open>Prelude\<close>: runs that an assertion stops (\<open>outcome\<close>), collections, generic lemmas.
  \<^item> \<open>Std_Containers\<close>, \<open>Flat_Set\<close>, \<open>Flat_Map\<close>: base/flat\_set.h and base/flat\_map.h over any
    comparison; lookups, insertions, removals and \<open>modify\<close> against sets and partial functions.
  \<^item> \<open>Data_Types\<close>: data/data\_types.h, identifiers and their packing in 64 bits.
  \<^item> \<open>Slices\<close>, \<open>Sparse_Ids_List\<close>: storage/storage\_sparse\_ids\_list.cpp. The abstract view of a
    list says of each identifier that it is unknown, known absent or known present; every
    operation changes the view as it should, and no history of operations makes it wrong.
  \<^item> \<open>Slice_Builder\<close>, \<open>Sparse_Ids_Slice\<close>, \<open>Messages\<close>: data/data\_sparse\_ids.cpp and
    data/data\_messages.cpp. When the window of a viewer stays a segment of the history with exact
    counters: always when a message is removed, and for an update exactly when the update meets
    the window in the way \<open>sparse_builder_update_follows\<close> says. A window that requests nothing
    is complete.
  \<^item> \<open>Keyed_Lists\<close>, \<open>Shared_Media\<close>, \<open>Feed_Messages\<close>, \<open>User_Photos\<close>: the stores of
    storage/storage\_shared\_media.cpp, storage/storage\_feed\_messages.cpp and
    storage/storage\_user\_photos.cpp with data/data\_user\_photos.cpp, with the events they fire; the last photo of a user that
    is removed stays in the window of its viewer (\<open>photos_last_removed_stays\<close>).
  \<^item> \<open>Pts_Waiter\<close>: data/data\_pts\_waiter.cpp. Updates are applied in the order of their
    numbers, each once, whatever the order they arrive in; an update that counts nothing forgets
    a gap (\<open>pts_zero_count_forgets_gap\<close>).
  \<^item> \<open>Plural_Rules\<close>, \<open>Lang_Tag\<close>: lang/lang\_tag.cpp. The plural functions against the chart of
    the CLDR, the packed table of languages, tags, the string for a number. A \<open>float64\<close> is a
    rational; a number whose integer part does not fit in an \<open>int\<close> has no plural form here.
  \<^item> \<open>Lang_File\<close>, \<open>Lang_Value\<close>: base/parse\_helper.cpp, lang/lang\_file\_parser.cpp and
    \<open>ValueParser\<close> of lang/lang\_instance.cpp, with round trips, and the values that have none
    (\<open>lang_file_backslash_quote_breaks\<close>).
  \<^item> \<open>Bytes\<close>, \<open>Encryption\<close>, \<open>Encrypted_File\<close>: storage/storage\_encryption.cpp and
    storage/storage\_encrypted\_file.cpp. An encrypted file behaves as a plain one (the key has its 256 bytes).
  \<^item> \<open>Cache_Types\<close>, \<open>Cache_Binlog\<close>: storage/cache/storage\_cache\_types.cpp and
    storage/cache/storage\_cache\_binlog\_reader.cpp, the bytes of keys and records and the
    reader. Reading in blocks of any size hands over the records of the whole log.
  \<^item> \<open>Cache_Database\<close>: storage/cache/storage\_cache\_database\_object.cpp, every operation with
    the calls of the disk and their failures; \<open>cache_env\<close> holds what the disk, the clock and
    the dice answer.
  \<^item> \<open>Cache_Invariant\<close>, \<open>Cache_Log\<close>, \<open>Cache_Operations\<close>: the invariant \<open>db_ok\<close> (counters
    that are exact, a log that says the entries as soon as the gathered records are written)
    and that each operation keeps it whatever the disk answers.
  \<^item> \<open>Cache_Reopen\<close>: closing and opening give the same entries. \<open>Cache_Refinement\<close>: with a disk
    that works, the operations are those of a map from keys to values. \<open>Cache_Pruning\<close>: which
    entries pruning chooses.
  \<^item> \<open>Cache_Compactor\<close>: storage/cache/storage\_cache\_compactor.cpp, the tasks that write the log
    anew while the database goes on, and how the database ends a compaction.
  \<^item> \<open>Cache_Growth\<close>, \<open>Cache_Replay\<close>, \<open>Cache_Compaction\<close>, \<open>Cache_System\<close>: the operations only
    append whole records to the log and start a compactor between two of them; logs that agree
    go on agreeing; each task of the compactor does its part; and so every interleaving of the
    operations, the tasks and the messages keeps the cache in order. The bound on \<open>finalize\<close> is
    the width of its \<open>lastCatchUp\<close>. Not covered is a compactor that is done after the log was
    lost, where the code goes wrong (\<open>compaction_after_lost_log\<close>), nor one that was let go and
    is still at work when the next one starts, ten seconds later at least.

  \<^bold>\<open>Conventions.\<close> A class is a record of its fields and a method is a function from the state
  to the new state and the result; what an event stream or a callback gets is part of the
  result or of a log in the state. A raw loop is a recursion over the list it runs through, so
  no definition needs fuel. \<open>Expects\<close> and \<open>Assert\<close>, which stop the release build too, and
  dereferences of empty optionals are failures of type \<open>outcome\<close>. A loop that
  may not come to its end (the search for a free place among random ones, waiting for the
  cleaner) has the value \<open>Still_running\<close> where the answers of the environment run out or nothing
  changes any more; the other loops over bytes end by a measure. Counters the code keeps in
  \<open>int\<close> are integers where they count items in memory; identifiers, masks and keys that are
  packed into machine words are words. Identifiers of code that is not in the repository (Qt
  containers and strings) are modelled by what the code relies on.

  \<^bold>\<open>Not modelled.\<close> The user interface (boxes, history, info, dialogs, settings, window, ui,
  profile, overview, intro, chat\_helpers, passport, support, platform), media and calls, the
  network (mtproto, apiwrap.cpp), the files of local storage, the code generators, the export,
  core and the price list of bettergram: they are glue around Qt, the operating system and the
  generated scheme of the server, or are left for a later extension of the development. The
  streams of rpl are generic plumbing; the models give the values that are put into them.
\<close>

end
